(* ===== verification/HuPrelude.thy ===== *)
theory HuPrelude
  imports Main "HOL-Library.Sublist"
begin

text \<open>
  What every component of the development shares.

  \<^item> \<open>hu_error\<close>: the error codes of \<^verbatim>\<open>include/human/core/error.h\<close>, in the header's order.
  \<^item> \<open>outcome\<close>: what a call of the C code can come to.  \<open>Ret\<close> is a call that returns
    HU_OK with its out-parameters filled in, \<open>Err e\<close> a call that returns the code \<open>e\<close>,
    \<open>Undef u\<close> a call whose behaviour the C standard leaves undefined (the kind \<open>u\<close> says
    why), \<open>NoFuel\<close> a model that ran out of the recursion budget its caller gave it.
    Every fuelled function has a lemma saying which budget is enough.
  \<^item> C strings: a \<^verbatim>\<open>char *\<close> that is used as a NUL-terminated string is the list of
    the bytes before its terminator; a buffer with a length is the list of its bytes, NUL bytes
    included, and \<open>cstr\<close> is what a \<^verbatim>\<open>str*\<close> function sees of it.
  \<^item> generic lemmas on lists and outcomes, kept in the collection \<open>outcome_simps\<close>.
\<close>

named_theorems outcome_simps \<open>rewrite rules for binds and case analysis on outcomes\<close>
named_theorems cstring_simps \<open>rewrite rules for the C string functions\<close>

section \<open>Error codes\<close>

datatype (plugins only: code) hu_error =
    HU_OK
  | HU_ERR_OUT_OF_MEMORY | HU_ERR_INVALID_ARGUMENT | HU_ERR_NOT_FOUND
  | HU_ERR_ALREADY_EXISTS | HU_ERR_NOT_SUPPORTED | HU_ERR_PERMISSION_DENIED
  | HU_ERR_TIMEOUT | HU_ERR_IO | HU_ERR_PARSE
  | HU_ERR_CONFIG_INVALID | HU_ERR_CONFIG_NOT_FOUND
  | HU_ERR_PROVIDER_UNAVAILABLE | HU_ERR_PROVIDER_AUTH
  | HU_ERR_PROVIDER_RATE_LIMITED | HU_ERR_PROVIDER_RESPONSE
  | HU_ERR_CHANNEL_SEND | HU_ERR_CHANNEL_START | HU_ERR_CHANNEL_NOT_CONFIGURED
  | HU_ERR_TOOL_EXECUTION | HU_ERR_TOOL_VALIDATION | HU_ERR_TOOL_NOT_FOUND
  | HU_ERR_MEMORY_STORE | HU_ERR_MEMORY_RECALL | HU_ERR_MEMORY_BACKEND
  | HU_ERR_SECURITY_COMMAND_NOT_ALLOWED | HU_ERR_SECURITY_HIGH_RISK_BLOCKED
  | HU_ERR_SECURITY_APPROVAL_REQUIRED | HU_ERR_SECURITY_RATE_LIMITED
  | HU_ERR_SECURITY_LOCKOUT
  | HU_ERR_PERIPHERAL_NOT_CONNECTED | HU_ERR_PERIPHERAL_IO
  | HU_ERR_PERIPHERAL_FLASH_FAILED | HU_ERR_PERIPHERAL_DEVICE_NOT_FOUND
  | HU_ERR_TUNNEL_START_FAILED | HU_ERR_TUNNEL_URL_NOT_FOUND
  | HU_ERR_GATEWAY_RATE_LIMITED | HU_ERR_GATEWAY_BODY_TOO_LARGE | HU_ERR_GATEWAY_AUTH
  | HU_ERR_CRYPTO_ENCRYPT | HU_ERR_CRYPTO_DECRYPT | HU_ERR_CRYPTO_HMAC
  | HU_ERR_JSON_PARSE | HU_ERR_JSON_TYPE | HU_ERR_JSON_DEPTH
  | HU_ERR_INTERNAL | HU_ERR_SUBAGENT_TOO_MANY | HU_ERR_CANCELLED
  | HU_ERR_LIMIT_REACHED
  | HU_ERR_FLEET_DEPTH_EXCEEDED | HU_ERR_FLEET_SPAWN_CAP | HU_ERR_FLEET_BUDGET_EXCEEDED
  | HU_ERR_LEGACY_REFUSED | HU_ERR_INVALID_FORMAT | HU_ERR_IO_BUSY | HU_ERR_DECRYPT_FAILED

section \<open>Outcomes\<close>

datatype ub_kind =
    UseAfterFree   \<comment> \<open>access through a pointer into a freed block\<close>
  | OutOfBounds    \<comment> \<open>read or write past the end of a block\<close>
  | NullDeref      \<comment> \<open>a NULL pointer handed to code that dereferences it\<close>
  | Uninitialised  \<comment> \<open>a value read from memory that was never written\<close>
  | BadCast        \<comment> \<open>a floating value outside the range of the integer type it is cast to\<close>

datatype 'a outcome = Ret 'a | Err hu_error | Undef ub_kind | NoFuel

fun obind :: "'a outcome \<Rightarrow> ('a \<Rightarrow> 'b outcome) \<Rightarrow> 'b outcome" where
  "obind (Ret x) f = f x"
| "obind (Err e) f = Err e"
| "obind (Undef u) f = Undef u"
| "obind NoFuel f = NoFuel"

text \<open>A caller that puts a default in the place of an error code; undefined behaviour stays what it is.\<close>

fun on_error :: "'a \<Rightarrow> 'a outcome \<Rightarrow> 'a outcome" where
  "on_error d (Err e) = Ret d"
| "on_error d m = m"

lemma on_error_Ret: "on_error d m = Ret y \<longleftrightarrow> m = Ret y \<or> (\<exists>e. m = Err e) \<and> y = d"
  by (cases m) auto

lemma on_error_not_Err [simp]: "on_error d m \<noteq> Err e"
  by (cases m) auto

lemma obind_Ret [outcome_simps]:
  "obind m f = Ret y \<longleftrightarrow> (\<exists>x. m = Ret x \<and> f x = Ret y)"
  by (cases m) auto

lemma obind_Err [outcome_simps]:
  "obind m f = Err e \<longleftrightarrow> m = Err e \<or> (\<exists>x. m = Ret x \<and> f x = Err e)"
  by (cases m) auto

lemma obind_Undef [outcome_simps]:
  "obind m f = Undef u \<longleftrightarrow> m = Undef u \<or> (\<exists>x. m = Ret x \<and> f x = Undef u)"
  by (cases m) auto

lemma obind_NoFuel [outcome_simps]:
  "obind m f = NoFuel \<longleftrightarrow> m = NoFuel \<or> (\<exists>x. m = Ret x \<and> f x = NoFuel)"
  by (cases m) auto

lemma obind_assoc: "obind (obind m f) g = obind m (\<lambda>x. obind (f x) g)"
  by (cases m) auto

lemma obind_Ret_right [simp]: "obind m Ret = m"
  by (cases m) auto

lemma obind_cong [fundef_cong]:
  "m = m' \<Longrightarrow> (\<And>x. m' = Ret x \<Longrightarrow> f x = f' x) \<Longrightarrow> obind m f = obind m' f'"
  by (cases m') auto

definition is_ret :: "'a outcome \<Rightarrow> bool" where
  "is_ret m \<longleftrightarrow> (\<exists>x. m = Ret x)"

lemma is_ret_simps [simp]:
  "is_ret (Ret x)" "\<not> is_ret (Err e)" "\<not> is_ret (Undef u)" "\<not> is_ret NoFuel"
  by (auto simp: is_ret_def)

text \<open>The largest \<^verbatim>\<open>size_t\<close>, for the 64-bit targets the program is built for.\<close>

definition SIZE_MAX :: nat where
  "SIZE_MAX = 2 ^ 64 - 1"

lemma SIZE_MAX_half: "SIZE_MAX div 2 = 2 ^ 63 - 1"
  by (simp add: SIZE_MAX_def)

section \<open>Bytes and C strings\<close>

definition cval :: "char \<Rightarrow> nat" where
  "cval c = of_char c"

lemma cval_inj [simp]: "cval a = cval b \<longleftrightarrow> a = b"
  by (simp add: cval_def)

lemma cval_less_256: "cval c < 256"
  by (simp add: cval_def)

abbreviation NUL :: char where
  "NUL \<equiv> CHR 0x00"

abbreviation DQUOTE :: char where
  "DQUOTE \<equiv> CHR 0x22"

abbreviation BSLASH :: char where
  "BSLASH \<equiv> CHR 0x5C"

text \<open>What \<^verbatim>\<open>strlen\<close>, \<^verbatim>\<open>strcmp\<close> and the like see of a buffer.\<close>

definition cstr :: "string \<Rightarrow> string" where
  "cstr s = takeWhile (\<lambda>c. c \<noteq> NUL) s"

definition no_nul :: "string \<Rightarrow> bool" where
  "no_nul s \<longleftrightarrow> NUL \<notin> set s"

lemma cstr_no_nul [simp]: "no_nul s \<Longrightarrow> cstr s = s"
  by (auto simp: cstr_def no_nul_def takeWhile_eq_all_conv)

lemma no_nul_cstr [simp]: "no_nul (cstr s)"
  by (auto simp: cstr_def no_nul_def dest: set_takeWhileD)

lemma cstr_idem [simp]: "cstr (cstr s) = cstr s"
  by simp

lemma length_cstr_le: "length (cstr s) \<le> length s"
  by (simp add: cstr_def length_takeWhile_le)

lemma no_nul_Nil [simp]: "no_nul []" and
  no_nul_Cons [simp]: "no_nul (c # s) \<longleftrightarrow> c \<noteq> NUL \<and> no_nul s" and
  no_nul_append [simp]: "no_nul (s @ t) \<longleftrightarrow> no_nul s \<and> no_nul t"
  by (auto simp: no_nul_def)

text \<open>\<^verbatim>\<open>hu_strndup (s, n)\<close> of \<^verbatim>\<open>src/core/string.c\<close>: at most \<open>n\<close> bytes, cut at the first NUL.\<close>

definition hu_strndup :: "string \<Rightarrow> nat \<Rightarrow> string" where
  "hu_strndup s n = cstr (take n s)"

lemma hu_strndup_all [simp]: "no_nul s \<Longrightarrow> hu_strndup s (length s) = s"
  by (simp add: hu_strndup_def)

definition starts_with :: "string \<Rightarrow> string \<Rightarrow> bool" where
  "starts_with p s \<longleftrightarrow> take (length p) s = p"

lemma starts_with_iff: "starts_with p s \<longleftrightarrow> (\<exists>t. s = p @ t)"
  unfolding starts_with_def
  by (metis append_eq_conv_conj append_take_drop_id)

lemma starts_with_prefix: "starts_with p s \<longleftrightarrow> prefix p s"
  by (auto simp: starts_with_iff prefix_def)

text \<open>\<^verbatim>\<open>strstr\<close> of the C library: the suffix at the first occurrence.\<close>

fun c_strstr :: "string \<Rightarrow> string \<Rightarrow> string option" where
  "c_strstr [] p = (if p = [] then Some [] else None)"
| "c_strstr (c # s) p = (if starts_with p (c # s) then Some (c # s) else c_strstr s p)"

definition c_contains :: "string \<Rightarrow> string \<Rightarrow> bool" where
  "c_contains s p \<longleftrightarrow> c_strstr s p \<noteq> None"

lemma c_contains_sublist: "c_contains s p \<longleftrightarrow> sublist p s"
proof (induction s)
  case Nil
  then show ?case by (simp add: c_contains_def)
next
  case (Cons c s)
  then show ?case
    by (auto simp: c_contains_def starts_with_prefix sublist_Cons_right)
qed

lemma c_contains_iff: "c_contains s p \<longleftrightarrow> (\<exists>u v. s = u @ p @ v)"
  by (simp add: c_contains_sublist sublist_def)

text \<open>\<^verbatim>\<open>strchr\<close>: the suffix at the first occurrence of a character.\<close>

fun c_strchr :: "string \<Rightarrow> char \<Rightarrow> string option" where
  "c_strchr [] x = None"
| "c_strchr (c # s) x = (if c = x then Some (c # s) else c_strchr s x)"

lemma c_strchr_None [simp]: "c_strchr s x = None \<longleftrightarrow> x \<notin> set s"
  by (induction s) auto

lemma c_strchr_Some: "c_strchr s x = Some t \<Longrightarrow> \<exists>u. s = u @ t \<and> x \<notin> set u \<and> (\<exists>w. t = x # w)"
proof (induction s)
  case (Cons c s)
  then show ?case
    by (cases "c = x") (auto intro: exI [of _ "[]"] exI [of _ "c # u" for u])
qed simp

section \<open>Character classes in the C locale\<close>

definition is_digit :: "char \<Rightarrow> bool" where
  "is_digit c \<longleftrightarrow> 48 \<le> cval c \<and> cval c \<le> 57"

definition is_upper :: "char \<Rightarrow> bool" where
  "is_upper c \<longleftrightarrow> 65 \<le> cval c \<and> cval c \<le> 90"

definition is_lower :: "char \<Rightarrow> bool" where
  "is_lower c \<longleftrightarrow> 97 \<le> cval c \<and> cval c \<le> 122"

definition is_alpha :: "char \<Rightarrow> bool" where
  "is_alpha c \<longleftrightarrow> is_upper c \<or> is_lower c"

definition is_alnum :: "char \<Rightarrow> bool" where
  "is_alnum c \<longleftrightarrow> is_digit c \<or> is_lower c \<or> is_upper c"

definition to_lower :: "char \<Rightarrow> char" where
  "to_lower c = (if is_upper c then char_of (cval c + 32) else c)"

lemma to_lower_idem [simp]: "to_lower (to_lower c) = to_lower c"
proof (cases "is_upper c")
  case True
  then have "cval (char_of (cval c + 32)) = cval c + 32"
    by (simp add: cval_def is_upper_def)
  with True show ?thesis by (simp add: to_lower_def is_upper_def)
qed (simp add: to_lower_def)

lemma to_lower_NUL [simp]: "to_lower c = NUL \<longleftrightarrow> c = NUL"
proof
  assume eq: "to_lower c = NUL"
  show "c = NUL"
  proof (cases "is_upper c")
    case True
    then have "cval (to_lower c) = cval c + 32"
      by (simp add: to_lower_def cval_def is_upper_def)
    with eq show ?thesis by (simp add: cval_def)
  next
    case False
    with eq show ?thesis by (simp add: to_lower_def)
  qed
qed (simp add: to_lower_def is_upper_def cval_def)

text \<open>\<^verbatim>\<open>strcasecmp (a, b) == 0\<close>.\<close>

definition c_strcaseeq :: "string \<Rightarrow> string \<Rightarrow> bool" where
  "c_strcaseeq a b \<longleftrightarrow> map to_lower a = map to_lower b"

section \<open>Decimal text\<close>

definition digit_char :: "nat \<Rightarrow> char" where
  "digit_char d = char_of (48 + d)"

lemma cval_digit_char [simp]: "d < 10 \<Longrightarrow> cval (digit_char d) = 48 + d"
  by (simp add: digit_char_def cval_def)

lemma is_digit_digit_char [simp]: "d < 10 \<Longrightarrow> is_digit (digit_char d)"
  by (simp add: is_digit_def)

text \<open>The digits \<^verbatim>\<open>printf\<close> writes for \<^verbatim>\<open>%zu\<close>, \<^verbatim>\<open>%u\<close> and, after the sign, \<^verbatim>\<open>%lld\<close>.\<close>

fun nat_str :: "nat \<Rightarrow> string" where
  "nat_str n = (if n < 10 then [digit_char n] else nat_str (n div 10) @ [digit_char (n mod 10)])"

declare nat_str.simps [simp del]

lemma nat_str_nonempty [simp]: "nat_str n \<noteq> []"
  by (subst nat_str.simps) simp

lemma nat_str_digits: "c \<in> set (nat_str n) \<Longrightarrow> is_digit c"
proof (induction n rule: nat_str.induct)
  case (1 n)
  then show ?case
    by (subst (asm) nat_str.simps) (auto split: if_splits)
qed

definition int_str :: "int \<Rightarrow> string" where
  "int_str i = (if i < 0 then CHR ''-'' # nat_str (nat (- i)) else nat_str (nat i))"

definition digits_val :: "string \<Rightarrow> nat" where
  "digits_val ds = foldl (\<lambda>a c. 10 * a + (cval c - 48)) 0 ds"

lemma digits_val_snoc [simp]: "digits_val (ds @ [c]) = 10 * digits_val ds + (cval c - 48)"
  by (simp add: digits_val_def)

lemma digits_val_Nil [simp]: "digits_val [] = 0"
  by (simp add: digits_val_def)

lemma digits_val_nat_str [simp]: "digits_val (nat_str n) = n"
proof (induction n rule: nat_str.induct)
  case (1 n)
  show ?case
  proof (cases "n < 10")
    case True
    then show ?thesis
      using digits_val_snoc [of "[]" "digit_char n"] by (simp add: nat_str.simps [of n])
  next
    case False
    with 1 show ?thesis by (simp add: nat_str.simps [of n])
  qed
qed

lemma nat_str_inj: "nat_str m = nat_str n \<longleftrightarrow> m = n"
  by (metis digits_val_nat_str)

section \<open>Lists\<close>

lemma takeWhile_append_stop:
  "(\<And>x. x \<in> set xs \<Longrightarrow> P x) \<Longrightarrow> (ys = [] \<or> \<not> P (hd ys)) \<Longrightarrow> takeWhile P (xs @ ys) = xs"
  by (induction xs) (cases ys; auto)+

lemma dropWhile_append_stop:
  "(\<And>x. x \<in> set xs \<Longrightarrow> P x) \<Longrightarrow> (ys = [] \<or> \<not> P (hd ys)) \<Longrightarrow> dropWhile P (xs @ ys) = ys"
  by (induction xs) (cases ys; auto)+

section \<open>Tables that map keys to values\<close>

text \<open>
  What the users of the program's small tables rely on: JSON objects, the result slots of an
  execution and the idempotency registry all keep the value set last for a key, and setting one
  key leaves the others alone.  \<open>ok\<close> is the state in which the laws hold and which every
  \<open>put\<close> keeps.
\<close>

locale kv_table =
  fixes lookup :: "'t \<Rightarrow> 'k \<Rightarrow> 'v option"
    and put :: "'t \<Rightarrow> 'k \<Rightarrow> 'v \<Rightarrow> 't"
    and ok :: "'t \<Rightarrow> bool"
  assumes lookup_put: "ok t \<Longrightarrow> lookup (put t k v) k' = (if k' = k then Some v else lookup t k')"
    and ok_put: "ok t \<Longrightarrow> ok (put t k v)"
begin

definition put_all :: "'t \<Rightarrow> ('k \<times> 'v) list \<Rightarrow> 't" where
  "put_all t kvs = foldl (\<lambda>t (k, v). put t k v) t kvs"

lemma put_all_Nil [simp]: "put_all t [] = t"
  by (simp add: put_all_def)

lemma put_all_snoc [simp]: "put_all t (kvs @ [(k, v)]) = put (put_all t kvs) k v"
  by (simp add: put_all_def)

lemma ok_put_all: "ok t \<Longrightarrow> ok (put_all t kvs)"
proof (induction kvs rule: rev_induct)
  case (snoc kv kvs)
  then show ?case by (cases kv) (simp add: ok_put)
qed simp

lemma lookup_put_all:
  "ok t \<Longrightarrow> lookup (put_all t kvs) k =
     (case map_of (rev kvs) k of Some v \<Rightarrow> Some v | None \<Rightarrow> lookup t k)"
proof (induction kvs rule: rev_induct)
  case (snoc kv kvs)
  then show ?case by (cases kv) (simp add: ok_put_all lookup_put)
qed simp

lemma put_twice: "ok t \<Longrightarrow> lookup (put (put t k v) k w) k' = lookup (put t k w) k'"
  by (simp add: lookup_put ok_put)

lemma put_comm:
  "ok t \<Longrightarrow> k \<noteq> k' \<Longrightarrow> lookup (put (put t k v) k' w) x = lookup (put (put t k' w) k v) x"
  by (simp add: lookup_put ok_put)

end

end
