(* ===== verification/HuBuf.thy ===== *)
theory HuBuf
  imports HuPrelude
begin

text \<open>
  The growable byte buffers the program writes its output into, and the contract they share.

  \<^verbatim>\<open>src/core/json.c\<close> has two of them with the same code: the buffer of
  \<^verbatim>\<open>hu_json_stringify\<close>, threaded as three pointers through \<^verbatim>\<open>buf_append\<close>, and
  \<^verbatim>\<open>hu_json_buf_t\<close> with \<^verbatim>\<open>json_buf_append\<close>; \<^verbatim>\<open>src/agent/hula_lite.c\<close> has a third,
  \<^verbatim>\<open>hula_bb_t\<close>.  A buffer is its bytes and its capacity; the terminating NUL the
  code keeps after the bytes is not part of them.  \<^verbatim>\<open>realloc\<close> is taken to succeed; the
  overflow guards of the code are kept, and are the only way an append fails.

  The locale \<open>byte_sink\<close> is what a writer relies on: an append that returns has added
  exactly its argument at the end, and an append returns as long as there is room.  The lemma
  its clients use is \<open>emits_all\<close>: writing a list of chunks writes their concatenation.
\<close>

record jbuf =
  jb_data :: string
  jb_cap :: nat

definition jbuf_empty :: jbuf where
  "jbuf_empty = \<lparr>jb_data = [], jb_cap = 0\<rparr>"

section \<open>Growing\<close>

text \<open>
  The loop \<^verbatim>\<open>while (len + slen + 1 > cap) { ... cap = cap ? cap * 2 : 256; }\<close>;
  \<open>None\<close> is the return of HU_ERR_OUT_OF_MEMORY once the capacity cannot be doubled.
\<close>

function grow_cap :: "nat \<Rightarrow> nat \<Rightarrow> nat option" where
  "grow_cap need cap =
     (if need \<le> cap then Some cap
      else if cap > SIZE_MAX div 2 then None
      else grow_cap need (if cap = 0 then 256 else cap * 2))"
  by pat_completeness auto
termination
  by (relation "measure (\<lambda>(need, cap). need - cap)") auto

declare grow_cap.simps [simp del]

lemma grow_cap_enough: "grow_cap need cap = Some c \<Longrightarrow> need \<le> c \<and> cap \<le> c"
proof (induction need cap rule: grow_cap.induct)
  case (1 need cap)
  then show ?case
    by (subst (asm) (2) grow_cap.simps) (auto split: if_splits)
qed

lemma grow_cap_returns: "need \<le> 2 ^ 63 \<Longrightarrow> \<exists>c. grow_cap need cap = Some c"
proof (induction need cap rule: grow_cap.induct)
  case (1 need cap)
  show ?case
  proof (cases "need \<le> cap")
    case True
    then show ?thesis by (simp add: grow_cap.simps [of need cap])
  next
    case False
    with 1 show ?thesis
      by (simp add: grow_cap.simps [of need cap] SIZE_MAX_half)
  qed
qed

section \<open>Appending\<close>

definition buf_append :: "jbuf \<Rightarrow> string \<Rightarrow> jbuf outcome" where
  "buf_append b s =
     (if length s > SIZE_MAX - length (jb_data b) - 1 then Err HU_ERR_OUT_OF_MEMORY
      else case grow_cap (length (jb_data b) + length s + 1) (jb_cap b) of
             None \<Rightarrow> Err HU_ERR_OUT_OF_MEMORY
           | Some c \<Rightarrow> Ret \<lparr>jb_data = jb_data b @ s, jb_cap = c\<rparr>)"

definition json_buf_append :: "jbuf \<Rightarrow> string \<Rightarrow> jbuf outcome" where
  "json_buf_append b s =
     (if length s > SIZE_MAX - length (jb_data b) - 1 then Err HU_ERR_OUT_OF_MEMORY
      else case grow_cap (length (jb_data b) + length s + 1) (jb_cap b) of
             None \<Rightarrow> Err HU_ERR_OUT_OF_MEMORY
           | Some c \<Rightarrow> Ret (b\<lparr>jb_data := jb_data b @ s, jb_cap := c\<rparr>))"

text \<open>
  \<^verbatim>\<open>hu_json_buf_append_raw (buf, str, str_len)\<close>: \<open>None\<close> is the NULL pointer, and a
  length past the string is a read past its end.
\<close>

definition hu_json_buf_append_raw :: "jbuf \<Rightarrow> string option \<Rightarrow> nat \<Rightarrow> jbuf outcome" where
  "hu_json_buf_append_raw b str n =
     (case str of
        None \<Rightarrow> if n > 0 then Err HU_ERR_INVALID_ARGUMENT else json_buf_append b []
      | Some s \<Rightarrow> if n \<le> length s then json_buf_append b (take n s) else Undef OutOfBounds)"

section \<open>The contract of a byte sink\<close>

text \<open>
  \<open>bytes\<close> is what has been written, \<open>room b n\<close> says that \<open>n\<close> more bytes fit.
\<close>

locale byte_sink =
  fixes app :: "'b \<Rightarrow> string \<Rightarrow> 'b outcome"
    and bytes :: "'b \<Rightarrow> string"
    and room :: "'b \<Rightarrow> nat \<Rightarrow> bool"
  assumes app_bytes: "app b s = Ret b' \<Longrightarrow> bytes b' = bytes b @ s"
    and app_room: "room b (length s) \<Longrightarrow> \<exists>b'. app b s = Ret b'"
    and app_room_left: "room b (length s + n) \<Longrightarrow> app b s = Ret b' \<Longrightarrow> room b' n"
    and room_le: "room b n \<Longrightarrow> m \<le> n \<Longrightarrow> room b m"
begin

text \<open>
  \<open>emits f out\<close>: the writer \<open>f\<close> appends exactly \<open>out\<close>, and does return when there
  is room for it.
\<close>

definition emits :: "('b \<Rightarrow> 'b outcome) \<Rightarrow> string \<Rightarrow> bool" where
  "emits f out \<longleftrightarrow>
     (\<forall>b b'. f b = Ret b' \<longrightarrow> bytes b' = bytes b @ out) \<and>
     (\<forall>b. room b (length out) \<longrightarrow> is_ret (f b)) \<and>
     (\<forall>b b' n. room b (length out + n) \<longrightarrow> f b = Ret b' \<longrightarrow> room b' n)"

lemma emits_bytes: "emits f out \<Longrightarrow> f b = Ret b' \<Longrightarrow> bytes b' = bytes b @ out"
  by (auto simp: emits_def)

lemma emits_room: "emits f out \<Longrightarrow> room b (length out) \<Longrightarrow> \<exists>b'. f b = Ret b'"
  by (auto simp: emits_def is_ret_def)

lemma emits_app: "emits (\<lambda>b. app b s) s"
  unfolding emits_def is_ret_def
  using app_bytes app_room app_room_left by blast

lemma emits_bind:
  assumes "emits f x" "emits g y"
  shows "emits (\<lambda>b. obind (f b) g) (x @ y)"
proof -
  have "is_ret (obind (f b) g)" if "room b (length (x @ y))" for b
  proof -
    have rm: "room b (length x + length y)" using that by simp
    with assms(1) obtain b' where b': "f b = Ret b'"
      using emits_room room_le [OF rm] by (metis le_add1)
    with assms(1) rm have "room b' (length y)" by (auto simp: emits_def)
    with assms(2) b' show ?thesis by (simp add: emits_def)
  qed
  moreover have "room b'' n"
    if "room b (length (x @ y) + n)" and "obind (f b) g = Ret b''" for b b'' n
  proof -
    from that(2) obtain b' where b': "f b = Ret b'" "g b' = Ret b''"
      by (auto simp: obind_Ret)
    from that(1) have "room b (length x + (length y + n))" by (simp add: add.assoc)
    with assms(1) b'(1) have "room b' (length y + n)" unfolding emits_def by blast
    with assms(2) b'(2) show ?thesis unfolding emits_def by blast
  qed
  moreover have "bytes b'' = bytes b @ x @ y" if "obind (f b) g = Ret b''" for b b''
    using that emits_bytes [OF assms(1)] emits_bytes [OF assms(2)]
    by (auto simp: obind_Ret)
  ultimately show ?thesis unfolding emits_def by blast
qed

lemma emits_Ret: "emits Ret []"
  by (simp add: emits_def)

lemma emits_all:
  "(\<And>x. x \<in> set xs \<Longrightarrow> emits (f x) (out x)) \<Longrightarrow>
   emits (\<lambda>b. foldl (\<lambda>m x. obind m (f x)) (Ret b) xs) (concat (map out xs))"
proof (induction xs rule: rev_induct)
  case Nil
  then show ?case by (simp add: emits_Ret)
next
  case (snoc x xs)
  then have "emits (\<lambda>b. foldl (\<lambda>m x. obind m (f x)) (Ret b) xs) (concat (map out xs))"
    and "emits (f x) (out x)"
    by auto
  from emits_bind [OF this] show ?case by simp
qed

end

text \<open>The room rule of the code's own buffers: half of the address space.\<close>

definition jb_room :: "jbuf \<Rightarrow> nat \<Rightarrow> bool" where
  "jb_room b n \<longleftrightarrow> length (jb_data b) + n < 2 ^ 63"

lemma buf_append_Ret:
  "jb_room b (length s) \<Longrightarrow>
   \<exists>c. buf_append b s = Ret \<lparr>jb_data = jb_data b @ s, jb_cap = c\<rparr>"
  using grow_cap_returns [of "length (jb_data b) + length s + 1" "jb_cap b"]
  by (auto simp: buf_append_def jb_room_def SIZE_MAX_def)

lemma json_buf_append_eq: "json_buf_append b s = buf_append b s"
  by (simp add: json_buf_append_def buf_append_def split: option.splits)

lemma buf_append_data: "buf_append b s = Ret b' \<Longrightarrow> jb_data b' = jb_data b @ s"
  by (auto simp: buf_append_def split: if_splits option.splits)

lemma buf_append_cap: "buf_append b s = Ret b' \<Longrightarrow> length (jb_data b') < jb_cap b'"
  using grow_cap_enough
  by (fastforce simp: buf_append_def split: if_splits option.splits)

interpretation strbuf: byte_sink buf_append jb_data jb_room
proof
  show "jb_data b' = jb_data b @ s" if "buf_append b s = Ret b'" for b s b'
    using that by (rule buf_append_data)
  show "\<exists>b'. buf_append b s = Ret b'" if "jb_room b (length s)" for b s
    using buf_append_Ret [OF that] by blast
  show "jb_room b' n" if "jb_room b (length s + n)" "buf_append b s = Ret b'" for b s n b'
    using that by (auto simp: jb_room_def buf_append_data)
  show "jb_room b m" if "jb_room b n" "m \<le> n" for b n m
    using that by (simp add: jb_room_def)
qed

interpretation jsonbuf: byte_sink json_buf_append jb_data jb_room
  unfolding json_buf_append_eq by (rule strbuf.byte_sink_axioms)

lemma hu_json_buf_append_raw_lit:
  "hu_json_buf_append_raw b (Some s) (length s) = json_buf_append b s"
  by (simp add: hu_json_buf_append_raw_def)

end
