(* ===== verification/HuNum.thy ===== *)
theory HuNum
  imports Complex_Main HuPrelude
begin

text \<open>
  The numbers of \<^verbatim>\<open>src/core/json.c\<close>: C doubles (IEEE 754 binary64), and the parts of the C
  library the code uses on them: \<^verbatim>\<open>strtod\<close> in the C locale with round-to-nearest-even,
  \<^verbatim>\<open>printf\<close> with \<^verbatim>\<open>%lld\<close> and \<^verbatim>\<open>%.*g\<close>, and the casts to integer types.

  A finite double is its sign, significand and exponent, \<open>dman * 2 powi dexp\<close>; \<open>dbl_ok\<close> is the
  canonical form every operation below produces.  Everything is computed on natural numbers, so
  it evaluates; the real value \<open>dval\<close> is used in proofs only.

  The main result is that text with seventeen significant digits determines a double
  (\<open>strtod_fmt_g17\<close>), which is why the shortest-precision loop of \<^verbatim>\<open>stringify_value\<close> may
  stop at 17.
\<close>

section \<open>Doubles\<close>

datatype dbl = Dbl (dneg: bool) (dman: nat) (dexp: int)

datatype fpval = Fin dbl | FInf bool | FNan

definition dbl_ok :: "dbl \<Rightarrow> bool" where
  "dbl_ok d \<longleftrightarrow> dman d < 2 ^ 53 \<and> -1074 \<le> dexp d \<and> dexp d \<le> 971 \<and>
     (2 ^ 52 \<le> dman d \<or> dexp d = -1074)"

definition dzero :: dbl where
  "dzero = Dbl False 0 (-1074)"

text \<open>C's \<^verbatim>\<open>==\<close> on finite doubles in canonical form: the two zeros are equal.\<close>

definition dbl_eq :: "dbl \<Rightarrow> dbl \<Rightarrow> bool" where
  "dbl_eq a b \<longleftrightarrow> a = b \<or> dman a = 0 \<and> dman b = 0"

text \<open>Truncation towards zero, the first half of a cast to an integer type.\<close>

definition dbl_trunc_abs :: "dbl \<Rightarrow> nat" where
  "dbl_trunc_abs d =
     (if 0 \<le> dexp d then dman d * 2 ^ nat (dexp d) else dman d div 2 ^ nat (- dexp d))"

definition dbl_trunc :: "dbl \<Rightarrow> int" where
  "dbl_trunc d = (if dneg d then - int (dbl_trunc_abs d) else int (dbl_trunc_abs d))"

text \<open>A cast to \<^verbatim>\<open>long long\<close> of any other double is undefined.\<close>

definition dbl_fits_llong :: "dbl \<Rightarrow> bool" where
  "dbl_fits_llong d \<longleftrightarrow> - (2 ^ 63) \<le> dbl_trunc d \<and> dbl_trunc d < 2 ^ 63"

definition dbl_integral :: "dbl \<Rightarrow> bool" where
  "dbl_integral d \<longleftrightarrow> 0 \<le> dexp d \<or> 2 ^ nat (- dexp d) dvd dman d"

section \<open>Rounding a quotient to the nearest double\<close>

definition rhe :: "nat \<Rightarrow> nat \<Rightarrow> nat" where
  "rhe a b = (let q = a div b; r = a mod b in
     if 2 * r < b \<or> 2 * r = b \<and> even q then q else Suc q)"

fun ilog :: "nat \<Rightarrow> nat \<Rightarrow> nat" where
  "ilog base n = (if n < base \<or> base \<le> 1 then 0 else Suc (ilog base (n div base)))"

declare ilog.simps [simp del]

text \<open>The \<open>k\<close> with \<open>base ^ k \<le> num / den < base ^ (k + 1)\<close>.\<close>

definition ilog_q :: "nat \<Rightarrow> nat \<Rightarrow> nat \<Rightarrow> int" where
  "ilog_q base num den =
     (if den \<le> num then int (ilog base (num div den))
      else - int (ilog base ((den - 1) div num)) - 1)"

text \<open>\<open>num / den\<close> divided by \<open>base ^ e\<close>, again as a quotient.\<close>

definition scale_q :: "nat \<Rightarrow> nat \<Rightarrow> nat \<Rightarrow> int \<Rightarrow> nat \<times> nat" where
  "scale_q base num den e =
     (if 0 \<le> e then (num, den * base ^ nat e) else (num * base ^ nat (- e), den))"

definition round_at :: "nat \<Rightarrow> nat \<Rightarrow> nat \<Rightarrow> int \<Rightarrow> nat" where
  "round_at base num den e = (let (a, b) = scale_q base num den e in rhe a b)"

definition round_q :: "bool \<Rightarrow> nat \<Rightarrow> nat \<Rightarrow> fpval" where
  "round_q neg num den =
     (if num = 0 then Fin (Dbl neg 0 (-1074))
      else let e = max (-1074) (ilog_q 2 num den - 52);
               m = round_at 2 num den e;
               m' = (if m = 2 ^ 53 then 2 ^ 52 else m);
               e' = (if m = 2 ^ 53 then e + 1 else e)
           in if e' > 971 then FInf neg else Fin (Dbl neg m' e'))"

section \<open>strtod\<close>

definition is_space :: "char \<Rightarrow> bool" where
  "is_space c \<longleftrightarrow> cval c = 32 \<or> 9 \<le> cval c \<and> cval c \<le> 13"

definition hex_char_val :: "char \<Rightarrow> nat option" where
  "hex_char_val c =
     (if 48 \<le> cval c \<and> cval c \<le> 57 then Some (cval c - 48)
      else if 97 \<le> cval c \<and> cval c \<le> 102 then Some (cval c - 97 + 10)
      else if 65 \<le> cval c \<and> cval c \<le> 70 then Some (cval c - 65 + 10)
      else None)"

definition is_xdigit :: "char \<Rightarrow> bool" where
  "is_xdigit c \<longleftrightarrow> hex_char_val c \<noteq> None"

definition xdigits_val :: "string \<Rightarrow> nat" where
  "xdigits_val ds = foldl (\<lambda>a c. 16 * a + the (hex_char_val c)) 0 ds"

text \<open>An optional sign: (negative, rest).\<close>

definition scan_sign :: "string \<Rightarrow> bool \<times> string" where
  "scan_sign s = (case s of
     c # t \<Rightarrow> if c = CHR ''-'' then (True, t) else if c = CHR ''+'' then (False, t) else (False, s)
   | [] \<Rightarrow> (False, []))"

text \<open>Digits of one class, an optional point, more digits: (before, after, rest).\<close>

definition scan_digits :: "(char \<Rightarrow> bool) \<Rightarrow> string \<Rightarrow> string \<times> string \<times> string" where
  "scan_digits P s =
     (let ip = takeWhile P s; s1 = dropWhile P s in
      case s1 of
        [] \<Rightarrow> (ip, [], [])
      | c # t \<Rightarrow> if c = CHR ''.'' then (ip, takeWhile P t, dropWhile P t) else (ip, [], s1))"

text \<open>
  An exponent part introduced by \<open>lo\<close> or \<open>up\<close>: its value and the rest.  Without a digit
  after it the letter is not part of the number.
\<close>

definition scan_exp :: "char \<Rightarrow> char \<Rightarrow> string \<Rightarrow> int \<times> string" where
  "scan_exp lo up s = (case s of
     [] \<Rightarrow> (0, [])
   | c # t \<Rightarrow>
       if c = lo \<or> c = up then
         (let (neg, t1) = scan_sign t; ds = takeWhile is_digit t1 in
          if ds = [] then (0, s)
          else ((if neg then - int (digits_val ds) else int (digits_val ds)),
                dropWhile is_digit t1))
       else (0, s))"

definition quot_pow :: "nat \<Rightarrow> nat \<Rightarrow> int \<Rightarrow> nat \<times> nat" where
  "quot_pow m base x = (if 0 \<le> x then (m * base ^ nat x, 1) else (m, base ^ nat (- x)))"

definition strtod_dec :: "bool \<Rightarrow> string \<Rightarrow> (fpval \<times> string) option" where
  "strtod_dec neg s =
     (let (ip, fp, s1) = scan_digits is_digit s in
      if ip = [] \<and> fp = [] then None
      else let (x, s2) = scan_exp CHR ''e'' CHR ''E'' s1;
               (num, den) = quot_pow (digits_val (ip @ fp)) 10 (x - int (length fp))
           in Some (round_q neg num den, s2))"

definition strtod_hex :: "bool \<Rightarrow> string \<Rightarrow> (fpval \<times> string) option" where
  "strtod_hex neg s =
     (let (ip, fp, s1) = scan_digits is_xdigit s in
      if ip = [] \<and> fp = [] then None
      else let (x, s2) = scan_exp CHR ''p'' CHR ''P'' s1;
               (num, den) = quot_pow (xdigits_val (ip @ fp)) 2 (x - 4 * int (length fp))
           in Some (round_q neg num den, s2))"

definition word_ci :: "string \<Rightarrow> string \<Rightarrow> bool" where
  "word_ci w s \<longleftrightarrow> map to_lower (take (length w) s) = w"

text \<open>\<^verbatim>\<open>nan(chars)\<close>: the parenthesised part belongs to the number when it is closed.\<close>

definition skip_nan_chars :: "string \<Rightarrow> string" where
  "skip_nan_chars s = (case s of
     c # t \<Rightarrow> if c = CHR ''('' then
         (case dropWhile (\<lambda>d. is_alnum d \<or> d = CHR ''_'') t of
            d # u \<Rightarrow> if d = CHR '')'' then u else s
          | [] \<Rightarrow> s)
       else s
   | [] \<Rightarrow> [])"

definition strtod_body :: "bool \<Rightarrow> string \<Rightarrow> (fpval \<times> string) option" where
  "strtod_body neg s =
     (if word_ci ''infinity'' s then Some (FInf neg, drop 8 s)
      else if word_ci ''inf'' s then Some (FInf neg, drop 3 s)
      else if word_ci ''nan'' s then Some (FNan, skip_nan_chars (drop 3 s))
      else if word_ci ''0x'' s \<and> strtod_hex neg (drop 2 s) \<noteq> None
           then strtod_hex neg (drop 2 s)
      else strtod_dec neg s)"

text \<open>
  The value and the number of bytes consumed; \<open>None\<close> is \<^verbatim>\<open>end == buf\<close>, no conversion.
\<close>

definition strtod :: "string \<Rightarrow> (fpval \<times> nat) option" where
  "strtod s =
     (let (neg, t) = scan_sign (dropWhile is_space s) in
      map_option (\<lambda>(v, rest). (v, length s - length rest)) (strtod_body neg t))"

section \<open>printf\<close>

text \<open>Two exponent digits at least, as \<^verbatim>\<open>%e\<close> writes them.\<close>

definition exp_str :: "int \<Rightarrow> string" where
  "exp_str x =
     (let n = nat \<bar>x\<bar>; ds = nat_str n in
      (if x < 0 then ''e-'' else ''e+'') @ (if n < 10 then CHR ''0'' # ds else ds))"

definition strip_zeros :: "string \<Rightarrow> string" where
  "strip_zeros s = rev (dropWhile (\<lambda>c. c = CHR ''0'') (rev s))"

definition with_frac :: "string \<Rightarrow> string \<Rightarrow> string" where
  "with_frac ip fp = (let f = strip_zeros fp in if f = [] then ip else ip @ CHR ''.'' # f)"

text \<open>
  \<^verbatim>\<open>%.*g\<close> of \<open>num / den > 0\<close>: \<open>p\<close> significant digits, correctly rounded; the style is
  decided by the exponent of the rounded number, trailing zeros of the fraction are removed.
\<close>

definition fmt_g_digits :: "nat \<Rightarrow> nat \<Rightarrow> nat \<Rightarrow> nat \<times> int" where
  "fmt_g_digits p num den =
     (let x = ilog_q 10 num den;
          n = round_at 10 num den (x - int (p - 1))
      in if n = 10 ^ p then (10 ^ (p - 1), x + 1) else (n, x))"

definition fmt_g_text :: "nat \<Rightarrow> nat \<Rightarrow> int \<Rightarrow> string" where
  "fmt_g_text p n x =
     (let ds = nat_str n in
      if x < -4 \<or> int p \<le> x then with_frac (take 1 ds) (drop 1 ds) @ exp_str x
      else if 0 \<le> x then with_frac (take (Suc (nat x)) ds) (drop (Suc (nat x)) ds)
      else with_frac ''0'' (replicate (nat (- x) - 1) CHR ''0'' @ ds))"

definition fmt_g :: "nat \<Rightarrow> dbl \<Rightarrow> string" where
  "fmt_g p d =
     (let (num, den) = quot_pow (dman d) 2 (dexp d) in
      (if dneg d then ''-'' else []) @
      (if num = 0 then ''0''
       else let (n, x) = fmt_g_digits p num den in fmt_g_text p n x))"

text \<open>The number branch of \<^verbatim>\<open>stringify_value\<close>.\<close>

definition parses_back :: "string \<Rightarrow> dbl \<Rightarrow> bool" where
  "parses_back s d = (case strtod s of Some (Fin d', _) \<Rightarrow> dbl_eq d' d | _ \<Rightarrow> False)"

definition dbl_small_int :: "dbl \<Rightarrow> bool" where
  "dbl_small_int d \<longleftrightarrow> dbl_integral d \<and> dbl_trunc_abs d < 10 ^ 15"

definition num_text :: "dbl \<Rightarrow> string" where
  "num_text d =
     (if dbl_small_int d then int_str (dbl_trunc d)
      else if parses_back (fmt_g 15 d) d then fmt_g 15 d
      else if parses_back (fmt_g 16 d) d then fmt_g 16 d
      else fmt_g 17 d)"

section \<open>Rounding is to nearest\<close>

lemma ilog_bounds:
  "2 \<le> base \<Longrightarrow> 0 < n \<Longrightarrow> base ^ ilog base n \<le> n \<and> n < base ^ Suc (ilog base n)"
proof (induction base n rule: ilog.induct)
  case (1 base n)
  show ?case
  proof (cases "n < base")
    case True
    with 1 show ?thesis by (simp add: ilog.simps [of base n])
  next
    case False
    let ?k = "ilog base (n div base)"
    from False 1 have "0 < n div base" by (simp add: div_greater_zero_iff)
    with False 1 have IH: "base ^ ?k \<le> n div base" "n div base < base ^ Suc ?k"
      by auto
    from IH(1) have "base ^ Suc ?k \<le> n"
      using 1(2) by (metis less_eq_div_iff_mult_less_eq mult.commute power_Suc zero_less_numeral less_le_trans)
    moreover from IH(2) have "n < base ^ Suc (Suc ?k)"
      using 1(2) by (metis div_less_iff_less_mult mult.commute power_Suc zero_less_numeral less_le_trans)
    ultimately show ?thesis using False 1(2) by (simp add: ilog.simps [of base n])
  qed
qed

lemma ilog_q_bounds:
  assumes b: "2 \<le> base" and n: "0 < num" and d: "0 < den"
  shows "real base powi ilog_q base num den \<le> real num / real den \<and>
         real num / real den < real base powi (ilog_q base num den + 1)"
proof (cases "den \<le> num")
  case True
  let ?k = "ilog base (num div den)"
  have "0 < num div den" using True d by (simp add: div_greater_zero_iff)
  from ilog_bounds [OF b this] have "base ^ ?k \<le> num div den" "num div den < base ^ Suc ?k"
    by auto
  then have "base ^ ?k * den \<le> num" "num < base ^ Suc ?k * den"
    using d by (auto simp: less_eq_div_iff_mult_less_eq div_less_iff_less_mult)
  then have "real (base ^ ?k * den) \<le> real num" "real num < real (base ^ Suc ?k * den)"
    by (simp_all only: of_nat_le_iff of_nat_less_iff)
  then show ?thesis
    using True d by (simp add: ilog_q_def power_int_add_1 pos_le_divide_eq pos_divide_less_eq mult.commute mult.assoc)
next
  case False
  let ?k = "ilog base ((den - 1) div num)"
  have pos: "0 < (den - 1) div num" using False n by (simp add: div_greater_zero_iff)
  from ilog_bounds [OF b this]
  have "base ^ ?k * num \<le> den - 1" "den - 1 < base ^ Suc ?k * num"
    using n by (auto simp: less_eq_div_iff_mult_less_eq div_less_iff_less_mult)
  then have "base ^ ?k * num < den" "den \<le> base ^ Suc ?k * num"
    using d by linarith+
  then have "real (base ^ ?k * num) < real den" "real den \<le> real (base ^ Suc ?k * num)"
    by (simp_all only: of_nat_le_iff of_nat_less_iff)
  moreover have "real base powi (- int ?k - 1) = 1 / real base ^ Suc ?k"
    using b by (simp add: power_int_diff power_int_minus field_simps)
  moreover have "real base powi (- int ?k) = 1 / real base ^ ?k"
    by (simp add: power_int_minus inverse_eq_divide)
  moreover have "0 < real base ^ ?k" "0 < real base ^ Suc ?k" using b by auto
  ultimately have "1 / real base ^ Suc ?k \<le> real num / real den \<and>
      real num / real den < 1 / real base ^ ?k \<and>
      ilog_q base num den = - int ?k - 1"
    using False n d by (simp add: ilog_q_def pos_divide_le_eq pos_less_divide_eq mult.commute)
  then show ?thesis
    using \<open>real base powi (- int ?k - 1) = _\<close> \<open>real base powi (- int ?k) = _\<close> by simp
qed

lemma rhe_near:
  assumes "0 < b"
  shows "\<bar>real a / real b - real (rhe a b)\<bar> \<le> 1 / 2"
proof -
  let ?f = "real (a mod b) / real b"
  have "real a = real (a div b) * real b + real (a mod b)"
    by (metis of_nat_add of_nat_mult div_mult_mod_eq)
  then have q: "real a / real b = real (a div b) + ?f"
    using assms by (simp add: add_divide_distrib)
  have f: "0 \<le> ?f" "?f < 1" using assms by simp_all
  have "rhe a b = a div b \<and> 2 * (a mod b) \<le> b \<or> rhe a b = Suc (a div b) \<and> b \<le> 2 * (a mod b)"
    by (auto simp: rhe_def Let_def)
  then show ?thesis
  proof
    assume lo: "rhe a b = a div b \<and> 2 * (a mod b) \<le> b"
    then have "real (2 * (a mod b)) \<le> real b" by (simp only: of_nat_le_iff)
    then have "?f \<le> 1 / 2" using assms by (simp add: divide_simps)
    with q f lo show ?thesis by simp
  next
    assume hi: "rhe a b = Suc (a div b) \<and> b \<le> 2 * (a mod b)"
    then have "real b \<le> real (2 * (a mod b))" by (simp only: of_nat_le_iff)
    then have "1 / 2 \<le> ?f" using assms by (simp add: divide_simps)
    with q f hi show ?thesis by simp
  qed
qed

lemma rhe_unique:
  assumes "0 < b" and "\<bar>real a / real b - real m\<bar> < 1 / 2"
  shows "rhe a b = m"
proof -
  have "\<bar>real (rhe a b) - real m\<bar> < 1"
    using rhe_near [OF assms(1), of a] assms(2) by linarith
  then show ?thesis by linarith
qed

lemma scale_q_value:
  assumes "2 \<le> base" "0 < den" "scale_q base num den e = (a, b)"
  shows "0 < b \<and> real a / real b = real num / real den / real base powi e"
proof (cases "0 \<le> e")
  case True
  with assms show ?thesis
    by (auto simp: scale_q_def power_int_def)
next
  case False
  with assms show ?thesis
    by (auto simp: scale_q_def power_int_def field_simps)
qed

lemma round_at_near:
  assumes "2 \<le> base" "0 < den"
  shows "\<bar>real num / real den / real base powi e - real (round_at base num den e)\<bar> \<le> 1 / 2"
  using scale_q_value [OF assms, of num e] rhe_near
  by (cases "scale_q base num den e") (simp add: round_at_def, metis)

lemma round_at_unique:
  assumes "2 \<le> base" "0 < den"
    and "\<bar>real num / real den / real base powi e - real m\<bar> < 1 / 2"
  shows "round_at base num den e = m"
proof -
  obtain a b where ab: "scale_q base num den e = (a, b)" by force
  from scale_q_value [OF assms(1,2) ab] assms(3) have "rhe a b = m"
    by (intro rhe_unique) auto
  with ab show ?thesis by (simp add: round_at_def)
qed


section \<open>The real value of a double\<close>

definition dabs :: "dbl \<Rightarrow> real" where
  "dabs d = real (dman d) * 2 powi dexp d"

text \<open>
  A quotient closer to a canonical double than half a unit in the last place (a quarter below
  a power of two, where the spacing changes) rounds to it.
\<close>

lemma powi2_less_iff: "(2::real) powi a < 2 powi b \<longleftrightarrow> a < b"
  by (metis linorder_not_less one_less_numeral_iff order_less_imp_le power_int_increasing
      power_int_strict_increasing semiring_norm(76))

lemma round_q_near:
  assumes ok: "dbl_ok d" and pos: "0 < dman d" "0 < num" "0 < den"
    and near: "\<bar>real num / real den - dabs d\<bar> < 2 powi dexp d / 2"
    and low: "dman d = 2 ^ 52 \<longrightarrow> - (2 powi dexp d / 4) < real num / real den - dabs d"
  shows "round_q neg num den = Fin (Dbl neg (dman d) (dexp d))"
proof -
  define V m e u L where defs: "V = real num / real den" "m = dman d" "e = dexp d"
    "u = (2::real) powi dexp d" "L = ilog_q 2 num den"
  have u: "0 < u" by (simp add: defs)
  have uVm: "\<bar>V - real m * u\<bar> < u / 2" using near by (simp add: defs dabs_def)
  have L: "2 powi L \<le> V" "V < 2 powi (L + 1)"
    using ilog_q_bounds [of 2 num den] pos by (auto simp: defs)
  have p2: "2 powi (e + k) = u * 2 powi k" for k :: int
    by (simp add: defs power_int_add)
  have okm: "m < 2 ^ 53" "-1074 \<le> e" "e \<le> 971" "2 ^ 52 \<le> m \<or> e = -1074"
    using ok by (auto simp: dbl_ok_def defs)
  have hi: "L \<le> e + 52"
  proof -
    have "real m \<le> 2 ^ 53 - 1" using okm(1) by (simp add: numeral_power_eq_of_nat_cancel_iff)
    then have "real m * u \<le> (2 ^ 53 - 1) * u" using u by (intro mult_right_mono) auto
    moreover have "V < real m * u + u / 2" using uVm by linarith
    ultimately have "V < (2 ^ 53 - 1) * u + u / 2" by linarith
    also have "\<dots> < 2 ^ 53 * u" using u by simp
    finally have "V < 2 ^ 53 * u" .
    then have "2 powi L < (2::real) powi (e + 53)" using L(1) p2 [of 53] by (simp add: mult.commute)
    then have "L < e + 53" by (simp add: powi2_less_iff)
    then show ?thesis by simp
  qed
  have uniq: "round_at 2 num den e = m"
    using uVm u pos by (intro round_at_unique) (auto simp: defs field_simps abs_less_iff)
  show ?thesis
  proof (cases "V < 2 ^ 52 * u \<and> e \<noteq> -1074")
    case True
    then have "2 ^ 52 \<le> m" using okm(4) by simp
    moreover have "m \<le> 2 ^ 52"
    proof (rule ccontr)
      assume "\<not> m \<le> 2 ^ 52"
      then have "(2 ^ 52 + 1) * u \<le> real m * u"
        using u by (intro mult_right_mono) (auto simp: Suc_le_eq [symmetric])
      then have "2 ^ 52 * u + u \<le> real m * u" by (simp add: distrib_right)
      moreover have "real m * u < V + u / 2" using uVm by linarith
      ultimately show False using conjunct1 [OF True] u by linarith
    qed
    ultimately have m: "m = 2 ^ 52" by simp
    then have "dman d = 2 ^ 52" by (simp add: defs)
    with low have "- (u / 4) < V - 2 ^ 52 * u" by (simp add: defs dabs_def)
    then have lowV: "2 ^ 52 * u - u / 4 < V" by linarith
    have "(2::real) powi (e + 51) = 2 ^ 52 * u - 2 ^ 51 * u" using p2 [of 51] by simp
    then have "2 powi (e + 51) < V" using lowV u by simp
    with L(2) have "(2::real) powi (e + 51) < 2 powi (L + 1)" by simp
    then have "e + 51 \<le> L" by (simp add: powi2_less_iff)
    moreover from True L(1) p2 [of 52] have "2 powi L < (2::real) powi (e + 52)" by (simp add: mult.commute)
    then have "L < e + 52" by (simp add: powi2_less_iff)
    ultimately have Le: "max (-1074) (L - 52) = e - 1" using True okm(2) by simp
    have "\<bar>V / 2 powi (e - 1) - real (2 ^ 53)\<bar> < 1 / 2"
    proof -
      have "2 ^ 53 * u / 2 - u / 4 < V" "V < 2 ^ 53 * u / 2" using lowV conjunct1 [OF True] by simp_all
      with u have "2 ^ 53 - 1 / 2 < V / (u / 2)" "V / (u / 2) < 2 ^ 53"
        by (simp_all add: pos_less_divide_eq pos_divide_less_eq algebra_simps)
      moreover have half: "2 powi (e - 1) = u / 2" using p2 [of "-1"] by simp
      ultimately show ?thesis unfolding half abs_less_iff by simp
    qed
    then have "round_at 2 num den (e - 1) = 2 ^ 53"
      using pos by (intro round_at_unique) (auto simp: defs)
    with Le okm m pos show ?thesis by (simp add: round_q_def Let_def defs)
  next
    case False
    have "max (-1074) (L - 52) = e"
    proof (cases "e = -1074")
      case True
      with hi show ?thesis by simp
    next
      case n: False
      with False p2 [of 52] have "(2::real) powi (e + 52) \<le> V" by (simp add: mult.commute)
      with L(2) have "(2::real) powi (e + 52) < 2 powi (L + 1)" by simp
      then have "e + 52 < L + 1" by (simp add: powi2_less_iff)
      with hi okm(2) show ?thesis by simp
    qed
    with uniq okm pos show ?thesis by (simp add: round_q_def Let_def defs)
  qed
qed

section \<open>Reading back decimal text\<close>

definition all_digits :: "string \<Rightarrow> bool" where
  "all_digits s \<longleftrightarrow> (\<forall>c \<in> set s. is_digit c)"

lemma all_digits_simps [simp]:
  "all_digits []" "all_digits (c # s) \<longleftrightarrow> is_digit c \<and> all_digits s"
  "all_digits (s @ t) \<longleftrightarrow> all_digits s \<and> all_digits t"
  by (auto simp: all_digits_def)

lemma all_digits_sub: "all_digits s \<Longrightarrow> set t \<subseteq> set s \<Longrightarrow> all_digits t"
  by (auto simp: all_digits_def)

lemma all_digits_nat_str [simp]: "all_digits (nat_str n)"
  using nat_str_digits by (auto simp: all_digits_def)

text \<open>A character that cannot continue a number.\<close>

definition num_stop :: "char \<Rightarrow> bool" where
  "num_stop c \<longleftrightarrow> \<not> is_digit c \<and> c \<notin> set ''.eE+-xX''"

definition stops :: "string \<Rightarrow> bool" where
  "stops rest \<longleftrightarrow> rest = [] \<or> num_stop (hd rest)"

lemma stops_Nil [simp]: "stops []"
  by (simp add: stops_def)

lemma is_digit_neq:
  "is_digit c \<Longrightarrow> c \<noteq> CHR ''.'' \<and> c \<noteq> CHR ''e'' \<and> c \<noteq> CHR ''E'' \<and> c \<noteq> CHR ''-'' \<and> c \<noteq> CHR ''+'' \<and>
     c \<noteq> NUL"
  by (auto simp: is_digit_def cval_def)

lemma takeWhile_digits:
  "all_digits ds \<Longrightarrow> rest = [] \<or> \<not> is_digit (hd rest) \<Longrightarrow> takeWhile is_digit (ds @ rest) = ds"
  and dropWhile_digits:
  "all_digits ds \<Longrightarrow> rest = [] \<or> \<not> is_digit (hd rest) \<Longrightarrow> dropWhile is_digit (ds @ rest) = rest"
  unfolding all_digits_def
  by (rule takeWhile_append_stop; blast) (rule dropWhile_append_stop; blast)

lemma takeWhile_digits_only [simp]: "all_digits ds \<Longrightarrow> takeWhile is_digit ds = ds"
  and dropWhile_digits_only [simp]: "all_digits ds \<Longrightarrow> dropWhile is_digit ds = []"
  using takeWhile_digits [of ds "[]"] dropWhile_digits [of ds "[]"] by simp_all

text \<open>The decimal point and its digits, as \<open>with_frac\<close> writes them.\<close>

definition point :: "string \<Rightarrow> string" where
  "point f = (if f = [] then [] else CHR ''.'' # f)"

lemma with_frac_point: "with_frac ip fp = ip @ point (strip_zeros fp)"
  by (simp add: with_frac_def point_def Let_def)

lemma exp_str_nonempty [simp]: "exp_str x \<noteq> []"
  by (simp add: exp_str_def Let_def)

definition exp_ok :: "string \<Rightarrow> int \<Rightarrow> bool" where
  "exp_ok ex x \<longleftrightarrow> ex = [] \<and> x = 0 \<or> ex = exp_str x"

lemma exp_str_split:
  "\<exists>sg ds. exp_str x = CHR ''e'' # sg # ds \<and> sg = (if x < 0 then CHR ''-'' else CHR ''+'') \<and>
     ds \<noteq> [] \<and> all_digits ds \<and> digits_val ds = nat \<bar>x\<bar>"
proof -
  have "digits_val (CHR ''0'' # s) = digits_val s" for s
    by (simp add: digits_val_def cval_def)
  then show ?thesis
    by (auto simp: exp_str_def Let_def is_digit_def cval_def)
qed

lemma scan_exp_ok:
  assumes "exp_ok ex x" "stops rest"
  shows "scan_exp CHR ''e'' CHR ''E'' (ex @ rest) = (x, rest)"
proof (cases "ex = []")
  case True
  with assms show ?thesis
    by (cases rest) (auto simp: exp_ok_def scan_exp_def stops_def num_stop_def
        dest: exp_str_nonempty [THEN notE, OF sym])
next
  case False
  with assms have ex: "ex = exp_str x" by (simp add: exp_ok_def)
  obtain sg ds where s: "exp_str x = CHR ''e'' # sg # ds" "sg = (if x < 0 then CHR ''-'' else CHR ''+'')"
    "ds \<noteq> []" "all_digits ds" "digits_val ds = nat \<bar>x\<bar>"
    using exp_str_split by blast
  have "rest = [] \<or> \<not> is_digit (hd rest)" using assms(2) by (auto simp: stops_def num_stop_def)
  with s show ?thesis
    by (auto simp: ex scan_exp_def scan_sign_def takeWhile_digits dropWhile_digits)
qed

lemma exp_ok_head:
  "exp_ok ex x \<Longrightarrow> stops rest \<Longrightarrow>
     (ex @ rest = [] \<or> \<not> is_digit (hd (ex @ rest)) \<and> hd (ex @ rest) \<noteq> CHR ''.'')"
  using exp_str_split [of x]
  by (auto simp: exp_ok_def stops_def num_stop_def is_digit_def cval_def)

lemma scan_digits_gen:
  assumes "all_digits ip" "all_digits f"
    and r: "r = [] \<or> \<not> is_digit (hd r) \<and> hd r \<noteq> CHR ''.''"
  shows "scan_digits is_digit (ip @ point f @ r) = (ip, f, r)"
proof -
  have dot: "\<not> is_digit CHR ''.''" by (simp add: is_digit_def cval_def)
  have "f = [] \<Longrightarrow> dropWhile is_digit (ip @ point f @ r) = r"
    and "f \<noteq> [] \<Longrightarrow> dropWhile is_digit (ip @ point f @ r) = CHR ''.'' # f @ r"
    and "takeWhile is_digit (ip @ point f @ r) = ip"
    using assms dot takeWhile_digits [of ip] dropWhile_digits [of ip] by (auto simp: point_def)
  then show ?thesis
    using assms takeWhile_digits [of f r] dropWhile_digits [of f r]
    by (cases "f = []"; cases r) (auto simp: scan_digits_def Let_def point_def)
qed

lemma scan_digits_ok:
  assumes "all_digits ip" "all_digits f" "exp_ok ex x" "stops rest"
  shows "scan_digits is_digit (ip @ point f @ ex @ rest) = (ip, f, ex @ rest)"
  using scan_digits_gen [OF assms(1,2) exp_ok_head [OF assms(3,4)]] .

lemma strtod_dec_ok:
  assumes "all_digits ip" "all_digits f" "ip \<noteq> []" "exp_ok ex x" "stops rest"
    and "quot_pow (digits_val (ip @ f)) 10 (x - int (length f)) = (num, den)"
  shows "strtod_dec neg (ip @ point f @ ex @ rest) = Some (round_q neg num den, rest)"
  using assms by (simp add: strtod_dec_def scan_digits_ok scan_exp_ok)

lemma strtod_ok:
  assumes "all_digits ip" "all_digits f" "ip \<noteq> []" "exp_ok ex x" "stops rest"
    and q: "quot_pow (digits_val (ip @ f)) 10 (x - int (length f)) = (num, den)"
  shows "strtod ((if neg then ''-'' else []) @ ip @ point f @ ex @ rest) =
     Some (round_q neg num den, length ((if neg then ''-'' else []) @ ip @ point f @ ex))"
proof -
  obtain c cs where ip: "ip = c # cs" using assms(3) by (cases ip) auto
  with assms(1) have c: "is_digit c" by simp
  then have c2: "\<not> is_space c" "to_lower c = c" "c \<noteq> CHR ''i''" "c \<noteq> CHR ''n''"
    by (auto simp: is_digit_def is_space_def to_lower_def is_upper_def cval_def)
  let ?t = "ip @ point f @ ex @ rest"
  have nohex: "\<not> word_ci ''0x'' ?t"
  proof (cases "cs @ point f @ ex @ rest")
    case Nil
    then show ?thesis by (simp add: word_ci_def ip)
  next
    case (Cons a as)
    have "to_lower a \<noteq> CHR ''x''"
    proof (cases "is_digit a")
      case True
      then show ?thesis by (auto simp: is_digit_def to_lower_def is_upper_def cval_def)
    next
      case False
      have "a = CHR ''.'' \<or> a = CHR ''e'' \<or> num_stop a"
        using Cons False assms(1,4,5) exp_str_split [of x]
        by (cases cs; cases "f = []") (auto simp: ip point_def exp_ok_def stops_def)
      then show ?thesis
      proof (elim disjE)
        assume n: "num_stop a"
        show ?thesis
        proof
          assume lx: "to_lower a = CHR ''x''"
          show False
          proof (cases "is_upper a")
            case True
            with lx have "cval (char_of (cval a + 32) :: char) = cval CHR ''x''"
              by (simp add: to_lower_def)
            with True have "cval a = cval CHR ''X''" by (simp add: cval_def is_upper_def)
            with n show False by (simp add: num_stop_def)
          next
            case False
            with lx n show False by (simp add: to_lower_def num_stop_def)
          qed
        qed
      qed (auto simp: to_lower_def is_upper_def cval_def)
    qed
    with Cons show ?thesis by (simp add: word_ci_def ip)
  qed
  have "strtod_body neg ?t = Some (round_q neg num den, rest)"
    using strtod_dec_ok [OF assms, of neg] nohex c2
    by (simp add: strtod_body_def) (simp add: word_ci_def ip)
  moreover have "scan_sign (dropWhile is_space ((if neg then ''-'' else []) @ ?t)) = (neg, ?t)"
    using c c2 is_digit_neq [OF c] by (auto simp: ip scan_sign_def is_space_def cval_def)
  ultimately show ?thesis by (simp add: strtod_def)
qed

section \<open>Formatted text denotes the rounded number\<close>

lemma digits_val_append: "digits_val (a @ b) = digits_val a * 10 ^ length b + digits_val b"
proof (induction b rule: rev_induct)
  case (snoc c b)
  then show ?case using digits_val_snoc [of "a @ b" c] by (simp add: algebra_simps)
qed simp

lemma digits_val_zeros [simp]: "digits_val (replicate k CHR ''0'') = 0"
proof (induction k)
  case (Suc k)
  then show ?case
    using digits_val_append [of "[CHR ''0'']" "replicate k CHR ''0''"] digits_val_snoc [of "[]" "CHR ''0''"]
    by (simp add: cval_def)
qed simp

lemma strip_zeros_split: "\<exists>k. s = strip_zeros s @ replicate k CHR ''0''"
proof -
  let ?P = "\<lambda>c. c = CHR ''0''"
  have "takeWhile ?P (rev s) = replicate (length (takeWhile ?P (rev s))) CHR ''0''"
    by (rule replicate_length_same [symmetric]) (auto dest: set_takeWhileD)
  then have "rev s = replicate (length (takeWhile ?P (rev s))) CHR ''0'' @ dropWhile ?P (rev s)"
    by (metis takeWhile_dropWhile_id)
  then show ?thesis
    unfolding strip_zeros_def by (metis rev_append rev_replicate rev_rev_ident)
qed

lemma all_digits_strip: "all_digits s \<Longrightarrow> all_digits (strip_zeros s)"
  using strip_zeros_split [of s] by (metis all_digits_simps(3))

lemma length_strip: "length (strip_zeros s) \<le> length s"
  using strip_zeros_split [of s] by (metis le_add1 length_append)

definition dec_value :: "string \<Rightarrow> string \<Rightarrow> int \<Rightarrow> real" where
  "dec_value ip f x = real (digits_val (ip @ f)) * 10 powi (x - int (length f))"

lemma dec_value_zeros: "dec_value ip (f @ replicate k CHR ''0'') x = dec_value ip f x"
  using digits_val_append [of "ip @ f" "replicate k CHR ''0''"]
  by (simp add: dec_value_def power_int_diff power_int_add field_simps)

lemma dec_value_strip: "dec_value ip (strip_zeros f) x = dec_value ip f x"
  using strip_zeros_split [of f] dec_value_zeros by metis

lemma quot_pow_value:
  assumes "quot_pow m base y = (num, den)" "2 \<le> base"
  shows "0 < den \<and> real num / real den = real m * real base powi y \<and> (0 < num \<longleftrightarrow> 0 < m)"
  using assms by (auto simp: quot_pow_def power_int_def field_simps split: if_splits)

text \<open>
  The shape of the text of \<open>fmt_g_text\<close>: an integer part, a fraction and an exponent part
  that together denote \<open>n * 10 powi (x - (p - 1))\<close>.
\<close>

lemma fmt_g_text_shape:
  assumes len: "length (nat_str n) = p" and p: "1 \<le> p"
  shows "\<exists>ip f ex y. fmt_g_text p n x = ip @ point f @ ex \<and> all_digits ip \<and> all_digits f \<and> ip \<noteq> [] \<and>
           exp_ok ex y \<and> dec_value ip f y = real n * 10 powi (x - int (p - 1)) \<and>
           length ip + length f \<le> p + 5 \<and> (ex = [] \<or> ex = exp_str x)"
proof -
  let ?ds = "nat_str n"
  have dig: "all_digits (take k ?ds)" "all_digits (drop k ?ds)" for k
    by (auto intro!: all_digits_sub [OF all_digits_nat_str] dest: in_set_takeD in_set_dropD)
  have v: "dec_value (take k ?ds) (drop k ?ds) y = real n * 10 powi (y - int (p - k))" if "k \<le> p" for k y
    using that len by (simp add: dec_value_def of_nat_diff)
  consider (e) "x < -4 \<or> int p \<le> x" | (f) "\<not> (x < -4 \<or> int p \<le> x)" "0 \<le> x" | (z) "-4 \<le> x" "x < 0"
    by linarith
  then show ?thesis
  proof cases
    case e
    let ?f = "strip_zeros (drop 1 ?ds)"
    have "fmt_g_text p n x = take 1 ?ds @ point ?f @ exp_str x"
      using e by (simp add: fmt_g_text_def with_frac_point Let_def)
    moreover have "dec_value (take 1 ?ds) ?f x = real n * 10 powi (x - int (p - 1))"
      using v [of 1] p by (simp add: dec_value_strip)
    moreover have "length (take 1 ?ds) + length ?f \<le> p"
      using length_strip [of "drop 1 ?ds"] p len by simp
    ultimately show ?thesis
      using dig all_digits_strip [OF dig(2)] len p
      by (intro exI [of _ "take 1 ?ds"] exI [of _ ?f] exI [of _ "exp_str x"] exI [of _ x])
        (auto simp: exp_ok_def)
  next
    case f
    let ?k = "Suc (nat x)"
    let ?f = "strip_zeros (drop ?k ?ds)"
    have "fmt_g_text p n x = take ?k ?ds @ point ?f @ []"
      using f by (simp add: fmt_g_text_def with_frac_point Let_def)
    moreover have "dec_value (take ?k ?ds) ?f 0 = real n * 10 powi (x - int (p - 1))"
      using v [of ?k 0] f p by (simp add: dec_value_strip of_nat_diff algebra_simps)
    moreover have "length (take ?k ?ds) + length ?f \<le> p"
      using length_strip [of "drop ?k ?ds"] f len by simp
    ultimately show ?thesis
      using dig all_digits_strip [OF dig(2)] len p
      by (intro exI [of _ "take ?k ?ds"] exI [of _ ?f] exI [of _ "[]"] exI [of _ 0])
        (auto simp: exp_ok_def)
  next
    case z
    let ?g = "replicate (nat (- x) - 1) CHR ''0'' @ ?ds"
    have d0: "is_digit CHR ''0''" by (simp add: is_digit_def cval_def)
    then have ag: "all_digits ?g" by (auto simp: all_digits_def) (use nat_str_digits in blast)
    have "fmt_g_text p n x = ''0'' @ point (strip_zeros ?g) @ []"
      using z by (simp add: fmt_g_text_def with_frac_point Let_def)
    moreover have "dec_value ''0'' ?g 0 = real n * 10 powi (x - int (p - 1))"
    proof -
      have "digits_val (''0'' @ ?g) = n"
        using digits_val_append [of "''0''" ?g] digits_val_append [of "replicate (nat (- x) - 1) CHR ''0''" ?ds]
          digits_val_zeros [of 1] by simp
      moreover have "0 - int (length ?g) = x - int (p - 1)" using z len p by simp
      ultimately show ?thesis unfolding dec_value_def by simp
    qed
    moreover have "length ''0'' + length (strip_zeros ?g) \<le> p + 5"
      using length_strip [of ?g] z len by simp
    ultimately show ?thesis
      using ag all_digits_strip [OF ag] d0
      by (intro exI [of _ "''0''"] exI [of _ "strip_zeros ?g"] exI [of _ "[]"] exI [of _ 0])
        (auto simp: exp_ok_def dec_value_strip)
  qed
qed

lemma length_nat_str: "n < 10 ^ Suc k \<Longrightarrow> length (nat_str n) \<le> Suc k"
proof (induction k arbitrary: n)
  case 0
  then show ?case by (simp add: nat_str.simps [of n])
next
  case (Suc k)
  show ?case
  proof (cases "n < 10")
    case True
    then show ?thesis by (simp add: nat_str.simps [of n])
  next
    case False
    have "n div 10 < 10 ^ Suc k" using Suc.prems by (simp add: div_less_iff_less_mult mult.commute)
    from Suc.IH [OF this] False show ?thesis by (simp add: nat_str.simps [of n])
  qed
qed

lemma length_nat_str_eq:
  "10 ^ k \<le> n \<Longrightarrow> n < 10 ^ Suc k \<Longrightarrow> length (nat_str n) = Suc k"
proof (induction k arbitrary: n)
  case 0
  then show ?case by (simp add: nat_str.simps [of n])
next
  case (Suc k)
  then have "10 ^ k \<le> n div 10" "n div 10 < 10 ^ Suc k"
    by (simp_all add: less_eq_div_iff_mult_less_eq div_less_iff_less_mult mult.commute)
  moreover have "\<not> n < 10" using Suc.prems(1) by (auto simp: not_less intro: order_trans [of _ "10 ^ Suc k"])
  ultimately show ?case using Suc.IH [of "n div 10"] by (simp add: nat_str.simps [of n])
qed


lemma fmt_g_digits_spec:
  assumes "1 \<le> p" "0 < num" "0 < den" and fmt: "fmt_g_digits p num den = (n, x)"
  defines "V \<equiv> real num / real den" and "X \<equiv> ilog_q 10 num den"
  shows "10 ^ (p - 1) \<le> n \<and> n < 10 ^ p \<and> (x = X \<or> x = X + 1) \<and>
         10 powi X \<le> V \<and> V < 10 powi (X + 1) \<and>
         \<bar>real n * 10 powi (x - int (p - 1)) - V\<bar> \<le> 10 powi (X - int (p - 1)) / 2"
proof -
  define g where "g = (10::real) powi (X - int (p - 1))"
  have g: "0 < g" by (simp add: g_def)
  define r where "r = round_at 10 num den (X - int (p - 1))"
  have XV: "10 powi X \<le> V" "V < 10 powi (X + 1)"
    using ilog_q_bounds [of 10 num den] assms(2,3) by (auto simp: V_def X_def)
  have gp: "10 powi X = 10 ^ (p - 1) * g" "10 powi (X + 1) = 10 ^ p * g"
    using assms(1) by (simp_all add: g_def power_int_diff power_int_add power_diff flip: power_Suc)
  have near: "\<bar>V / g - real r\<bar> \<le> 1 / 2"
    using round_at_near [of 10 den num "X - int (p - 1)"] assms(3) by (simp add: V_def g_def r_def)
  then have near': "\<bar>real r * g - V\<bar> \<le> g / 2"
  proof -
    have "g * \<bar>V / g - real r\<bar> \<le> g * (1 / 2)" using near g by (intro mult_left_mono) auto
    moreover have "g * \<bar>V / g - real r\<bar> = \<bar>g * (V / g - real r)\<bar>" using g by (simp add: abs_mult)
    moreover have "g * (V / g - real r) = V - real r * g" using g by (simp add: field_simps)
    ultimately show ?thesis by (simp add: abs_minus_commute)
  qed
  have "10 ^ (p - 1) \<le> V / g" "V / g < 10 ^ p"
    using XV g gp by (simp_all add: pos_le_divide_eq pos_divide_less_eq mult.commute)
  moreover have "V / g - real r \<le> 1 / 2" "real r - V / g \<le> 1 / 2"
    using near by (auto simp only: abs_le_iff minus_diff_eq)
  ultimately have "10 ^ (p - 1) - 1 / 2 \<le> real r" "real r < 10 ^ p + 1"
    by linarith+
  then have "real (10 ^ (p - 1)) - 1 / 2 \<le> real r" "real r < real (10 ^ p) + 1"
    by simp_all
  then have r: "10 ^ (p - 1) \<le> r" "r \<le> 10 ^ p" by linarith+
  show ?thesis
  proof (cases "r = 10 ^ p")
    case True
    then have "n = 10 ^ (p - 1)" "x = X + 1"
      using fmt by (auto simp: fmt_g_digits_def Let_def r_def X_def)
    moreover have "real (10 ^ (p - 1)) * 10 powi (X + 1 - int (p - 1)) = real r * g"
    proof -
      have "(10::real) powi (X + 1 - int (p - 1)) = 10 * g" by (simp add: g_def power_int_add power_int_diff)
      moreover have "real (10 ^ p) = real (10 ^ (p - 1)) * 10" using assms(1) by (simp add: power_eq_if)
      ultimately show ?thesis using True by simp
    qed
    ultimately show ?thesis
      using XV near' assms(1) by (simp add: g_def power_strict_increasing)
  next
    case False
    then have "n = r" "x = X"
      using fmt by (auto simp: fmt_g_digits_def Let_def r_def X_def)
    then show ?thesis using XV near' r False by (simp add: g_def)
  qed
qed

lemma quot_pow_dabs:
  "quot_pow (dman d) 2 (dexp d) = (num, den) \<Longrightarrow>
   0 < den \<and> real num / real den = dabs d \<and> (0 < num \<longleftrightarrow> 0 < dman d)"
  using quot_pow_value [of "dman d" 2 "dexp d" num den] by (simp add: dabs_def)

lemma length_exp_str: "\<bar>x\<bar> < 1000 \<Longrightarrow> length (exp_str x) \<le> 5"
  using length_nat_str [of "nat \<bar>x\<bar>" 2] by (auto simp: exp_str_def Let_def nat_str.simps)

lemma dabs_exponent_range:
  assumes ok: "dbl_ok d" "0 < dman d" and X: "10 powi X \<le> dabs d" "dabs d < 10 powi (X + 1)"
  shows "\<bar>X\<bar> < 400"
proof -
  have inj: "a < b" if "(10::real) powi a < 10 powi b" for a b
    using that by (metis linorder_not_less one_le_numeral power_int_increasing)
  have "dabs d \<le> 2 ^ 53 * 2 powi 971"
    unfolding dabs_def using ok power_int_increasing [of "dexp d" 971 "2::real"]
    by (intro mult_mono) (auto simp: dbl_ok_def intro: less_imp_le of_nat_less_iff [THEN iffD2, of _ "2 ^ 53", simplified])
  also have "\<dots> < (10::real) powi 399" by simp
  finally have "X < 399" using X(1) by (intro inj) simp
  moreover have "(10::real) powi (- 399) < 2 powi (-1074)" by (simp add: power_int_minus field_simps)
  moreover have "2 powi (-1074) \<le> dabs d"
  proof -
    have "(2::real) powi (-1074) \<le> 2 powi dexp d"
      using ok by (intro power_int_increasing) (auto simp: dbl_ok_def)
    also have "\<dots> \<le> real (dman d) * 2 powi dexp d" using mult_right_mono [of 1 "real (dman d)" "2 powi dexp d"] ok(2) by simp
    finally show ?thesis by (simp add: dabs_def)
  qed
  ultimately show ?thesis using X(2) inj [of "-399" "X + 1"] by linarith
qed

text \<open>
  What the text of \<open>fmt_g\<close> reads back as, in any context that does not continue the number:
  the rounding of a quotient within half a unit of its last digit.
\<close>

lemma fmt_g_reads:
  assumes p: "1 \<le> p" "p \<le> 17" and ok: "dbl_ok d" and pos: "0 < dman d"
  obtains num den X where "0 < num" "0 < den" "10 powi X \<le> dabs d"
    "\<bar>real num / real den - dabs d\<bar> \<le> 10 powi (X - int (p - 1)) / 2"
    "\<And>rest. stops rest \<Longrightarrow>
       strtod (fmt_g p d @ rest) = Some (round_q (dneg d) num den, length (fmt_g p d))"
    "length (fmt_g p d) \<le> 30"
proof -
  obtain a b where ab: "quot_pow (dman d) 2 (dexp d) = (a, b)" by force
  with quot_pow_dabs [OF ab] pos have V: "0 < a" "0 < b" "real a / real b = dabs d" by auto
  obtain n x where nx: "fmt_g_digits p a b = (n, x)" by force
  let ?X = "ilog_q 10 a b"
  from fmt_g_digits_spec [OF p(1) V(1,2) nx] V(3)
  have n: "10 ^ (p - 1) \<le> n" "n < 10 ^ p" "x = ?X \<or> x = ?X + 1"
    and X: "10 powi ?X \<le> dabs d" "dabs d < 10 powi (?X + 1)"
    and near: "\<bar>real n * 10 powi (x - int (p - 1)) - dabs d\<bar> \<le> 10 powi (?X - int (p - 1)) / 2"
    by auto
  have "Suc (p - 1) = p" using p(1) by simp
  with n have len: "length (nat_str n) = p" using length_nat_str_eq [of "p - 1" n] by simp
  obtain ip f ex y where sh: "fmt_g_text p n x = ip @ point f @ ex" "all_digits ip" "all_digits f" "ip \<noteq> []"
    "exp_ok ex y" "dec_value ip f y = real n * 10 powi (x - int (p - 1))"
    "length ip + length f \<le> p + 5" "ex = [] \<or> ex = exp_str x"
    using fmt_g_text_shape [OF len p(1)] by metis
  obtain num den where q: "quot_pow (digits_val (ip @ f)) 10 (y - int (length f)) = (num, den)" by force
  have npos: "0 < n" using n(1) by (metis gr0I not_one_le_zero one_le_numeral one_le_power order_trans)
  have v: "real num / real den = dec_value ip f y" and "0 < den"
    using quot_pow_value [OF q] by (auto simp: dec_value_def)
  moreover have "0 < num" using v npos sh(6) by (auto intro: gr0I)
  ultimately have nd: "0 < num" "0 < den" "real num / real den = real n * 10 powi (x - int (p - 1))"
    using sh(6) by auto
  have tx: "fmt_g p d = (if dneg d then ''-'' else []) @ ip @ point f @ ex"
    using ab nx V sh(1) by (simp add: fmt_g_def)
  have "strtod (fmt_g p d @ rest) = Some (round_q (dneg d) num den, length (fmt_g p d))"
    if "stops rest" for rest
    using strtod_ok [OF sh(2-5) that q, of "dneg d"] by (simp add: tx)
  moreover have "length (fmt_g p d) \<le> 30"
  proof -
    have "\<bar>x\<bar> < 1000" using dabs_exponent_range [OF ok pos X] n(3) by auto
    with sh(8) have "length ex \<le> 5" using length_exp_str by auto
    then show ?thesis using sh(7) p(2) by (auto simp: tx point_def)
  qed
  ultimately show thesis using that [of num den ?X] nd X near by simp
qed

text \<open>Seventeen significant digits determine a double.\<close>

lemma strtod_fmt_g17:
  assumes ok: "dbl_ok d" and pos: "0 < dman d" and st: "stops rest"
  shows "strtod (fmt_g 17 d @ rest) = Some (Fin d, length (fmt_g 17 d))"
proof (rule fmt_g_reads [of 17 d])
  fix num den X
  assume nd: "0 < num" "0 < den" and X: "10 powi X \<le> dabs d"
    and near: "\<bar>real num / real den - dabs d\<bar> \<le> 10 powi (X - int (17 - 1)) / 2"
    and rd: "\<And>rest. stops rest \<Longrightarrow>
       strtod (fmt_g 17 d @ rest) = Some (round_q (dneg d) num den, length (fmt_g 17 d))"
  define u where "u = (2::real) powi dexp d"
  have u: "0 < u" by (simp add: u_def)
  have g: "(10::real) powi (X - int (17 - 1)) = 10 powi X / 10 ^ 16" by (simp add: power_int_diff)
  have "real (dman d) \<le> 2 ^ 53"
    using ok by (simp add: dbl_ok_def numeral_power_eq_of_nat_cancel_iff)
  then have "dabs d \<le> 2 ^ 53 * u" using u by (simp add: dabs_def u_def mult_right_mono)
  with near g X have half: "\<bar>real num / real den - dabs d\<bar> < u / 2" using u by simp
  have "- (u / 4) < real num / real den - dabs d" if "dman d = 2 ^ 52"
  proof -
    have "dabs d = 2 ^ 52 * u" using that by (simp add: dabs_def u_def)
    then have "10 powi (X - int (17 - 1)) / 2 < u / 4" using g X u by simp
    then show ?thesis using near by linarith
  qed
  then have "round_q (dneg d) num den = Fin (Dbl (dneg d) (dman d) (dexp d))"
    using half ok pos nd by (intro round_q_near) (auto simp: u_def)
  with rd [OF st] show ?thesis by simp
qed (use ok pos in auto)

section \<open>The text of a number reads back as the number\<close>

definition norm_zero :: "dbl \<Rightarrow> dbl" where
  "norm_zero d = (if dman d = 0 then dzero else d)"

lemma round_q_exact:
  assumes "dbl_ok d" "0 < dman d" "0 < den" "real num / real den = dabs d"
  shows "round_q neg num den = Fin (Dbl neg (dman d) (dexp d))"
proof -
  have "0 < dabs d" using assms(2) by (simp add: dabs_def)
  with assms have "0 < num" by (auto intro: gr0I)
  with assms show ?thesis by (intro round_q_near) auto
qed

lemma dbl_integral_value:
  assumes "dbl_integral d" shows "dabs d = real (dbl_trunc_abs d)"
proof (cases "0 \<le> dexp d")
  case True
  then show ?thesis by (simp add: dabs_def dbl_trunc_abs_def power_int_def)
next
  case False
  with assms obtain k where k: "dman d = 2 ^ nat (- dexp d) * k" by (auto simp: dbl_integral_def)
  with False show ?thesis by (simp add: dabs_def dbl_trunc_abs_def power_int_def field_simps)
qed

lemma strtod_nat_str:
  "stops rest \<Longrightarrow>
   strtod ((if neg then ''-'' else []) @ nat_str n @ rest) =
     Some (round_q neg n 1, length ((if neg then ''-'' else []) @ nat_str n))"
  using strtod_ok [of "nat_str n" "[]" "[]" 0 rest n 1 neg]
  by (simp add: point_def exp_ok_def quot_pow_def)

lemma strtod_small_int:
  assumes ok: "dbl_ok d" and int: "dbl_small_int d" and st: "stops rest"
  shows "strtod (int_str (dbl_trunc d) @ rest) = Some (Fin (norm_zero d), length (int_str (dbl_trunc d)))"
proof -
  let ?n = "dbl_trunc_abs d"
  have v: "dabs d = real ?n" using int by (simp add: dbl_small_int_def dbl_integral_value)
  have z: "?n = 0 \<longleftrightarrow> dman d = 0" using v by (auto simp: dabs_def)
  show ?thesis
  proof (cases "dman d = 0")
    case True
    then have "int_str (dbl_trunc d) = nat_str 0" using z by (simp add: int_str_def dbl_trunc_def)
    with True st show ?thesis
      using strtod_nat_str [of rest False 0] by (simp add: round_q_def norm_zero_def dzero_def)
  next
    case False
    then have "int_str (dbl_trunc d) = (if dneg d then ''-'' else []) @ nat_str ?n"
      using z by (simp add: int_str_def dbl_trunc_def)
    moreover have "round_q (dneg d) ?n 1 = Fin d"
      using round_q_exact [OF ok, of 1 ?n "dneg d"] False v by simp
    ultimately show ?thesis
      using strtod_nat_str [OF st, of "dneg d" ?n] False by (simp add: norm_zero_def)
  qed
qed

lemma parses_back_context:
  assumes "dbl_ok d" "0 < dman d" "1 \<le> p" "p \<le> 17" "parses_back (fmt_g p d) d" "stops rest"
  shows "strtod (fmt_g p d @ rest) = Some (Fin d, length (fmt_g p d))"
proof (rule fmt_g_reads [OF assms(3,4,1,2)])
  fix num den X
  assume rd: "\<And>rest. stops rest \<Longrightarrow>
       strtod (fmt_g p d @ rest) = Some (round_q (dneg d) num den, length (fmt_g p d))"
  from rd [of "[]"] assms(2,5) have "round_q (dneg d) num den = Fin d"
    by (auto simp: parses_back_def dbl_eq_def split: fpval.splits)
  with rd [OF assms(6)] show ?thesis by simp
qed

lemma not_small_int_pos: "\<not> dbl_small_int d \<Longrightarrow> 0 < dman d"
  by (rule gr0I) (auto simp: dbl_small_int_def dbl_integral_def dbl_trunc_abs_def split: if_splits)

lemma num_text_reads:
  assumes "dbl_ok d" "stops rest"
  shows "strtod (num_text d @ rest) = Some (Fin (norm_zero d), length (num_text d))"
proof (cases "dbl_small_int d")
  case True
  with assms show ?thesis using strtod_small_int by (simp add: num_text_def)
next
  case False
  then have pos: "0 < dman d" by (rule not_small_int_pos)
  with False assms show ?thesis
    using parses_back_context [OF assms(1) pos, of 15] parses_back_context [OF assms(1) pos, of 16]
      strtod_fmt_g17 [OF assms(1) pos]
    by (simp add: num_text_def norm_zero_def)
qed

lemma length_num_text:
  assumes "dbl_ok d" shows "length (num_text d) \<le> 30"
proof (cases "dbl_small_int d")
  case True
  then have "length (nat_str (dbl_trunc_abs d)) \<le> 15"
    using length_nat_str [of "dbl_trunc_abs d" 14] by (simp add: dbl_small_int_def)
  moreover have "length (nat_str 0) = 1" by (simp add: nat_str.simps)
  ultimately show ?thesis using True by (auto simp: num_text_def int_str_def dbl_trunc_def)
next
  case False
  then have pos: "0 < dman d" by (rule not_small_int_pos)
  have "length (fmt_g p d) \<le> 30" if "1 \<le> p" "p \<le> 17" for p
    by (rule fmt_g_reads [OF that assms pos]) auto
  with False show ?thesis by (simp add: num_text_def)
qed


section \<open>What strtod consumes and produces\<close>

lemma scan_sign_length: "scan_sign s = (neg, t) \<Longrightarrow> length t \<le> length s"
  by (auto simp: scan_sign_def split: list.splits if_splits)

lemma scan_exp_length: "scan_exp lo up s = (x, t) \<Longrightarrow> length t \<le> length s"
  by (auto simp: scan_exp_def scan_sign_def Let_def split: list.splits if_splits
      intro: le_SucI order_trans [OF length_dropWhile_le])

lemma length_dropWhile_less: "takeWhile P s \<noteq> [] \<Longrightarrow> length (dropWhile P s) < length s"
  by (metis add_less_same_cancel2 length_0_conv length_append length_greater_0_conv
      takeWhile_dropWhile_id less_add_same_cancel2)

lemma scan_digits_length:
  assumes "scan_digits P s = (ip, fp, t)"
  shows "length t \<le> length s \<and> (ip \<noteq> [] \<or> fp \<noteq> [] \<longrightarrow> length t < length s)"
proof -
  have 1: "length (dropWhile P s) \<le> length s" by (rule length_dropWhile_le)
  have 2: "length (dropWhile P u) \<le> length u" for u by (rule length_dropWhile_le)
  show ?thesis
  proof (cases "dropWhile P s")
    case Nil
    with assms show ?thesis by (cases s) (auto simp: scan_digits_def Let_def)
  next
    case (Cons c u)
    have l: "length u < length s" "takeWhile P s \<noteq> [] \<Longrightarrow> Suc (length u) < length s"
      using 1 length_dropWhile_less [of P s] Cons by auto
    show ?thesis
    proof (cases "c = CHR ''.''")
      case True
      with assms Cons have "t = dropWhile P u" by (simp add: scan_digits_def Let_def)
      with 2 [of u] l show ?thesis by simp
    next
      case False
      with assms Cons have "t = c # u" "ip = takeWhile P s" "fp = []"
        by (simp_all add: scan_digits_def Let_def)
      with l show ?thesis by auto
    qed
  qed
qed

lemma strtod_dec_length: "strtod_dec neg s = Some (v, t) \<Longrightarrow> length t < length s"
  by (auto simp: strtod_dec_def split: prod.splits if_splits
      dest!: scan_digits_length scan_exp_length)

lemma strtod_hex_length: "strtod_hex neg s = Some (v, t) \<Longrightarrow> length t < length s"
  by (auto simp: strtod_hex_def split: prod.splits if_splits
      dest!: scan_digits_length scan_exp_length)

lemma word_ci_length: "word_ci w s \<Longrightarrow> length w \<le> length s"
  unfolding word_ci_def by (metis length_map length_take min.absorb_iff2 min.commute nle_le)

lemma skip_nan_length: "length (skip_nan_chars s) \<le> length s"
proof -
  have "length u \<le> length t" if "dropWhile P t = d # u" for P t and u :: string and d
    using length_dropWhile_le [of P t] that by simp
  then show ?thesis
    by (auto simp: skip_nan_chars_def split: list.splits) (metis le_SucI)
qed

lemma strtod_body_length: "strtod_body neg s = Some (v, t) \<Longrightarrow> length t < length s"
  using word_ci_length [of "''infinity''" s] word_ci_length [of "''inf''" s]
    word_ci_length [of "''nan''" s] skip_nan_length [of "drop 3 s"]
  by (auto simp: strtod_body_def split: if_splits dest!: strtod_hex_length strtod_dec_length)

lemma strtod_consumes:
  assumes "strtod s = Some (v, n)" shows "0 < n \<and> n \<le> length s"
proof -
  obtain neg t where nt: "scan_sign (dropWhile is_space s) = (neg, t)" by force
  then have "length t \<le> length s"
    using scan_sign_length length_dropWhile_le [of is_space s] by (meson order_trans)
  with assms nt show ?thesis by (auto simp: strtod_def dest!: strtod_body_length)
qed

lemma round_q_ok:
  assumes "0 < den" "round_q neg num den = Fin d" shows "dbl_ok d"
proof (cases "num = 0")
  case True
  with assms show ?thesis by (auto simp: round_q_def dbl_ok_def)
next
  case False
  define X where "X = ilog_q 2 num den"
  define e where "e = max (-1074) (X - 52)"
  define m where "m = round_at 2 num den e"
  define w where "w = real num / real den / 2 powi e"
  have XV: "2 powi X \<le> real num / real den" "real num / real den < 2 powi (X + 1)"
    using ilog_q_bounds [of 2 num den] False assms(1) by (auto simp: X_def)
  have "\<bar>w - real m\<bar> \<le> 1 / 2"
    using round_at_near [of 2 den num e] assms(1) by (simp add: m_def w_def)
  then have near: "w - real m \<le> 1 / 2" "real m - w \<le> 1 / 2"
    by (auto simp only: abs_le_iff minus_diff_eq)
  have "real num / real den < 2 powi (e + 53)"
  proof -
    have "X + 1 \<le> e + 53" by (simp add: e_def)
    then have "(2::real) powi (X + 1) \<le> 2 powi (e + 53)" by (intro power_int_increasing) auto
    with XV(2) show ?thesis by linarith
  qed
  then have "real num / real den < 2 ^ 53 * 2 powi e" by (simp add: power_int_add mult.commute)
  then have "w < 2 ^ 53" unfolding w_def by (subst pos_divide_less_eq) simp_all
  with near have "real m < 2 ^ 53 + 1" by linarith
  then have "real m < real (2 ^ 53 + 1)" by simp
  then have "m < 2 ^ 53 + 1" unfolding of_nat_less_iff .
  then have hi: "m \<le> 2 ^ 53" by simp
  have lo: "2 ^ 52 \<le> m" if "e \<noteq> -1074"
  proof -
    have "e = X - 52" using that by (simp add: e_def max_def split: if_splits)
    then have "2 powi X = 2 ^ 52 * (2::real) powi e" by (simp add: power_int_diff)
    with XV(1) have "2 ^ 52 * 2 powi e \<le> real num / real den" by simp
    then have "2 ^ 52 \<le> w" unfolding w_def by (subst pos_le_divide_eq) simp_all
    with near have "2 ^ 52 < real m + 1" by linarith
    then have "real (2 ^ 52) < real (m + 1)" by simp
    then have "2 ^ 52 < m + 1" unfolding of_nat_less_iff .
    then show ?thesis by simp
  qed
  have r: "round_q neg num den =
      (if m = 2 ^ 53 then (if e + 1 > 971 then FInf neg else Fin (Dbl neg (2 ^ 52) (e + 1)))
       else if e > 971 then FInf neg else Fin (Dbl neg m e))"
    using False unfolding round_q_def Let_def X_def [symmetric] e_def [symmetric] m_def [symmetric]
    by simp
  have "-1074 \<le> e" by (simp add: e_def)
  with assms(2) hi lo show ?thesis by (auto simp: r dbl_ok_def split: if_splits)
qed

lemma quot_pow_pos: "quot_pow m base x = (num, den) \<Longrightarrow> 0 < base \<Longrightarrow> 0 < den"
  by (auto simp: quot_pow_def split: if_splits)

lemma strtod_dbl_ok:
  assumes "strtod s = Some (Fin d, n)" shows "dbl_ok d"
proof -
  have "dbl_ok d" if "strtod_dec neg t = Some (Fin d, r)" for neg t r
    using that by (auto simp: strtod_dec_def split: prod.splits if_splits
        dest: round_q_ok [rotated] quot_pow_pos)
  moreover have "dbl_ok d" if "strtod_hex neg t = Some (Fin d, r)" for neg t r
    using that by (auto simp: strtod_hex_def split: prod.splits if_splits
        dest: round_q_ok [rotated] quot_pow_pos)
  ultimately have "dbl_ok d" if "strtod_body neg t = Some (Fin d, r)" for neg t r
    using that by (auto simp: strtod_body_def split: if_splits)
  with assms show ?thesis by (auto simp: strtod_def split: prod.splits)
qed

section \<open>The characters of a number\<close>

definition numeric_char :: "char \<Rightarrow> bool" where
  "numeric_char c \<longleftrightarrow> is_digit c \<or> c \<in> set ''.e+-''"

lemma digits_numeric: "c \<in> set (nat_str n) \<Longrightarrow> numeric_char c"
  using nat_str_digits by (auto simp: numeric_char_def)

lemma strip_zeros_sub: "c \<in> set (strip_zeros s) \<Longrightarrow> c \<in> set s"
  by (auto simp: strip_zeros_def dest: set_dropWhileD)

lemma with_frac_chars:
  "c \<in> set (with_frac a b) \<Longrightarrow> c \<in> set a \<or> c \<in> set b \<or> c = CHR ''.''"
  by (auto simp: with_frac_def Let_def dest: strip_zeros_sub split: if_splits)

lemma num_text_chars: "c \<in> set (num_text d) \<Longrightarrow> numeric_char c"
proof -
  have z: "numeric_char CHR ''0''" "numeric_char CHR ''.''" "numeric_char CHR ''-''"
    "numeric_char CHR ''e''" "numeric_char CHR ''+''"
    by (auto simp: numeric_char_def is_digit_def cval_def)
  have ex: "numeric_char c" if "c \<in> set (exp_str x)" for c x
    using that z digits_numeric by (auto simp: exp_str_def Let_def split: if_splits)
  have tx: "numeric_char c" if "c \<in> set (fmt_g_text p n x)" for c p n x
    using that z digits_numeric ex
    by (auto simp: fmt_g_text_def Let_def split: if_splits
        dest!: with_frac_chars dest: in_set_takeD in_set_dropD)
  have "numeric_char c" if "c \<in> set (fmt_g p d)" for c p
    using that z tx by (auto simp: fmt_g_def split: prod.splits if_splits)
  then show "c \<in> set (num_text d) \<Longrightarrow> numeric_char c"
    using z digits_numeric by (auto simp: num_text_def int_str_def split: if_splits)
qed

lemma num_text_no_nul: "no_nul (num_text d)"
  using num_text_chars [of NUL d] by (auto simp: no_nul_def numeric_char_def is_digit_def cval_def)

lemma num_text_head: "\<exists>c t. num_text d = c # t \<and> (c = CHR ''-'' \<or> is_digit c)"
proof -
  have z: "is_digit CHR ''0''" by (simp add: is_digit_def cval_def)
  have ns: "\<exists>c t. nat_str n = c # t \<and> is_digit c" for n
    using nat_str_digits [of _ n] by (cases "nat_str n") auto
  have "\<exists>c t. fmt_g_text p n x = c # t \<and> is_digit c" for p n x
    using ns [of n] z by (auto simp: fmt_g_text_def with_frac_def Let_def)
  then have "\<exists>c t. fmt_g p d = c # t \<and> (c = CHR ''-'' \<or> is_digit c)" for p
    using z by (auto simp: fmt_g_def split: prod.splits) (metis surj_pair)+
  moreover have "\<exists>c t. int_str i = c # t \<and> (c = CHR ''-'' \<or> is_digit c)" for i
    using ns [of "nat i"] by (auto simp: int_str_def)
  ultimately show ?thesis by (simp add: num_text_def)
qed

end
