(* ===== verification/HuJson.thy ===== *)
theory HuJson
  imports HuBuf HuNum
begin

text \<open>
  \<^verbatim>\<open>src/core/json.c\<close>: the JSON values every configuration file, provider reply and tool
  plan goes through.

  The parser state \<^verbatim>\<open>parser_t\<close> is the text that is left, \<^verbatim>\<open>src + pos .. src + len\<close>, and the
  nesting depth, which every return of the code restores and which is therefore an argument.
  \<^verbatim>\<open>peek\<close> and \<^verbatim>\<open>advance\<close> answer NUL at the end, as the code does.  A parser that returns gives
  its value and the text that is left.  The buffer a string is decoded into is explicit, with its
  capacity, and a write past the capacity is \<open>Undef OutOfBounds\<close>.

  The recursion of \<^verbatim>\<open>parse_value\<close>, \<^verbatim>\<open>parse_array\<close> and \<^verbatim>\<open>parse_object\<close> has fuel;
  \<open>hu_json_parse\<close> gives it \<open>2 * length + 1\<close>, which is always enough
  (\<open>parse_value_total\<close>).  The arrays and objects under construction are lists; their
  capacity guards can only fire on tables larger than the address space and are left out,
  like the failing allocations.

  Second part: the writer.  \<open>render\<close> is the text of a value as a pure function, and the writers
  of the code are shown to emit exactly that.  Third part: parsing what was written gives the
  value back.
\<close>

section \<open>Values\<close>

datatype json =
    JNull
  | JBool bool
  | JNum dbl
  | JStr string
  | JArr "json list"
  | JObj "(string \<times> json) list"

section \<open>Objects\<close>

text \<open>
  Keys of lookups are C strings; a stored key may hold any bytes.  \<open>set_pair\<close> is the
  loop that replaces the value of an existing key in place and otherwise adds a pair.
\<close>

fun get_pair :: "(string \<times> 'a) list \<Rightarrow> string \<Rightarrow> 'a option" where
  "get_pair [] k = None"
| "get_pair ((k', v) # ps) k = (if k' = k then Some v else get_pair ps k)"

fun set_pair :: "(string \<times> 'a) list \<Rightarrow> string \<Rightarrow> 'a \<Rightarrow> (string \<times> 'a) list" where
  "set_pair [] k v = [(k, v)]"
| "set_pair ((k', w) # ps) k v = (if k' = k then (k', v) # ps else (k', w) # set_pair ps k v)"

text \<open>The first pair with the key goes, the last pair takes its place.\<close>

fun remove_pair :: "(string \<times> 'a) list \<Rightarrow> string \<Rightarrow> (string \<times> 'a) list option" where
  "remove_pair [] k = None"
| "remove_pair ((k', w) # ps) k =
     (if k' = k then Some (if ps = [] then [] else last ps # butlast ps)
      else map_option (Cons (k', w)) (remove_pair ps k))"

definition hu_json_object_get :: "json \<Rightarrow> string \<Rightarrow> json option" where
  "hu_json_object_get obj key = (case obj of JObj ps \<Rightarrow> get_pair ps key | _ \<Rightarrow> None)"

definition hu_json_object_set :: "json \<Rightarrow> string \<Rightarrow> json \<Rightarrow> json outcome" where
  "hu_json_object_set obj key val =
     (case obj of JObj ps \<Rightarrow> Ret (JObj (set_pair ps key val)) | _ \<Rightarrow> Err HU_ERR_INVALID_ARGUMENT)"

text \<open>The object afterwards and whether a pair was removed.\<close>

definition hu_json_object_remove :: "json \<Rightarrow> string \<Rightarrow> json \<times> bool" where
  "hu_json_object_remove obj key =
     (case obj of
        JObj ps \<Rightarrow> (case remove_pair ps key of None \<Rightarrow> (obj, False) | Some ps' \<Rightarrow> (JObj ps', True))
      | _ \<Rightarrow> (obj, False))"

definition hu_json_array_push :: "json \<Rightarrow> json \<Rightarrow> json outcome" where
  "hu_json_array_push arr val =
     (case arr of JArr vs \<Rightarrow> Ret (JArr (vs @ [val])) | _ \<Rightarrow> Err HU_ERR_INVALID_ARGUMENT)"

text \<open>
  \<^verbatim>\<open>hu_json_get_string\<close> hands out the pointer, so its callers see the bytes up to the
  first NUL.
\<close>

definition hu_json_get_string :: "json \<Rightarrow> string \<Rightarrow> string option" where
  "hu_json_get_string val key =
     (case hu_json_object_get val key of Some (JStr s) \<Rightarrow> Some (cstr s) | _ \<Rightarrow> None)"

definition hu_json_get_number :: "json \<Rightarrow> string \<Rightarrow> dbl \<Rightarrow> dbl" where
  "hu_json_get_number val key dflt =
     (case hu_json_object_get val key of Some (JNum d) \<Rightarrow> d | _ \<Rightarrow> dflt)"

definition hu_json_get_bool :: "json \<Rightarrow> string \<Rightarrow> bool \<Rightarrow> bool" where
  "hu_json_get_bool val key dflt =
     (case hu_json_object_get val key of Some (JBool b) \<Rightarrow> b | _ \<Rightarrow> dflt)"

section \<open>Scanning\<close>

definition is_ws :: "char \<Rightarrow> bool" where
  "is_ws c \<longleftrightarrow> c = CHR '' '' \<or> c = CHR 0x09 \<or> c = CHR 0x0A \<or> c = CHR 0x0D"

definition skip_ws :: "string \<Rightarrow> string" where
  "skip_ws s = dropWhile is_ws s"

text \<open>The character at \<^verbatim>\<open>pos\<close>, NUL past the end.\<close>

definition cur :: "string \<Rightarrow> char" where
  "cur s = (case s of [] \<Rightarrow> NUL | c # t \<Rightarrow> c)"

definition peek :: "string \<Rightarrow> char \<times> string" where
  "peek s = (let t = skip_ws s in (cur t, t))"

definition advance :: "string \<Rightarrow> char \<times> string" where
  "advance s = (let t = skip_ws s in (cur t, drop 1 t))"

section \<open>Strings\<close>

text \<open>A byte written at \<^verbatim>\<open>buf[len++]\<close>.\<close>

definition poke :: "jbuf \<Rightarrow> char \<Rightarrow> jbuf outcome" where
  "poke b c =
     (if length (jb_data b) < jb_cap b then Ret (b\<lparr>jb_data := jb_data b @ [c]\<rparr>)
      else Undef OutOfBounds)"

text \<open>The doubling \<^verbatim>\<open>cap *= 2\<close> with its guard.\<close>

definition double_cap :: "jbuf \<Rightarrow> jbuf outcome" where
  "double_cap b =
     (if jb_cap b > SIZE_MAX div 2 then Err HU_ERR_OUT_OF_MEMORY
      else Ret (b\<lparr>jb_cap := jb_cap b * 2\<rparr>))"

definition hex4 :: "string \<Rightarrow> nat option" where
  "hex4 s = (case s of
     a # b # c # d # t \<Rightarrow>
       (case (hex_char_val a, hex_char_val b, hex_char_val c, hex_char_val d) of
          (Some h0, Some h1, Some h2, Some h3) \<Rightarrow> Some (h0 * 4096 + h1 * 256 + h2 * 16 + h3)
        | _ \<Rightarrow> None)
   | _ \<Rightarrow> None)"

text \<open>
  After \<^verbatim>\<open>\u\<close>: the code point and the text that is left.  A high surrogate must be followed
  by an escaped low one; a low surrogate alone is refused.
\<close>

definition unicode_escape :: "string \<Rightarrow> (nat \<times> string) outcome" where
  "unicode_escape s =
     (case hex4 s of
        None \<Rightarrow> Err HU_ERR_JSON_PARSE
      | Some cp \<Rightarrow>
          let t = drop 4 s in
          if 0xD800 \<le> cp \<and> cp \<le> 0xDBFF then
            (if length t < 6 \<or> take 2 t \<noteq> [BSLASH, CHR ''u''] then Err HU_ERR_JSON_PARSE
             else case hex4 (drop 2 t) of
               None \<Rightarrow> Err HU_ERR_JSON_PARSE
             | Some lo \<Rightarrow>
                 if lo < 0xDC00 \<or> lo > 0xDFFF then Err HU_ERR_JSON_PARSE
                 else Ret (0x10000 + (cp - 0xD800) * 1024 + (lo - 0xDC00), drop 6 t))
          else if 0xDC00 \<le> cp \<and> cp \<le> 0xDFFF then Err HU_ERR_JSON_PARSE
          else Ret (cp, t))"

text \<open>The UTF-8 bytes that go to the buffer at once, and the last one, which stays in \<^verbatim>\<open>c\<close>.\<close>

definition utf8_split :: "nat \<Rightarrow> (string \<times> char) option" where
  "utf8_split cp =
     (if cp < 0x80 then Some ([], char_of cp)
      else if cp < 0x800 then Some ([char_of (0xC0 + cp div 64)], char_of (0x80 + cp mod 64))
      else if cp < 0x10000 then
        Some ([char_of (0xE0 + cp div 4096), char_of (0x80 + cp div 64 mod 64)],
              char_of (0x80 + cp mod 64))
      else if cp \<le> 0x10FFFF then
        Some ([char_of (0xF0 + cp div 262144), char_of (0x80 + cp div 4096 mod 64),
               char_of (0x80 + cp div 64 mod 64)],
              char_of (0x80 + cp mod 64))
      else None)"

definition str_unicode :: "jbuf \<Rightarrow> string \<Rightarrow> (jbuf \<times> char \<times> string) outcome" where
  "str_unicode b s =
     obind (unicode_escape s) (\<lambda>(cp, t).
     obind (if length (jb_data b) + 4 > jb_cap b then double_cap b else Ret b) (\<lambda>b.
     case utf8_split cp of
       None \<Rightarrow> Err HU_ERR_JSON_PARSE
     | Some (bs, c) \<Rightarrow> obind (foldl (\<lambda>m x. obind m (\<lambda>b. poke b x)) (Ret b) bs) (\<lambda>b. Ret (b, c, t))))"

text \<open>The switch on the character after a backslash.\<close>

definition str_escape :: "jbuf \<Rightarrow> string \<Rightarrow> (jbuf \<times> char \<times> string) outcome" where
  "str_escape b s =
     (case s of
        [] \<Rightarrow> Err HU_ERR_JSON_PARSE
      | c # t \<Rightarrow>
          if c = DQUOTE \<or> c = BSLASH \<or> c = CHR ''/'' then Ret (b, c, t)
          else if c = CHR ''b'' then Ret (b, CHR 0x08, t)
          else if c = CHR ''f'' then Ret (b, CHR 0x0C, t)
          else if c = CHR ''n'' then Ret (b, CHR 0x0A, t)
          else if c = CHR ''r'' then Ret (b, CHR 0x0D, t)
          else if c = CHR ''t'' then Ret (b, CHR 0x09, t)
          else if c = CHR ''u'' then str_unicode b t
          else Err HU_ERR_JSON_PARSE)"

text \<open>The growth check and the write at the end of the loop body.\<close>

definition str_push :: "jbuf \<Rightarrow> char \<Rightarrow> jbuf outcome" where
  "str_push b c =
     obind (if length (jb_data b) + 1 \<ge> jb_cap b then double_cap b else Ret b) (\<lambda>b. poke b c)"

lemma hex4_length: "hex4 s = Some n \<Longrightarrow> 4 \<le> length s"
  by (auto simp: hex4_def split: list.splits)

lemma unicode_escape_rest: "unicode_escape s = Ret (cp, t) \<Longrightarrow> length t < length s"
  using hex4_length [of s]
  by (fastforce simp: unicode_escape_def Let_def split: option.splits if_splits)

lemma str_escape_rest: "str_escape b s = Ret (b', c, t) \<Longrightarrow> length t < length s"
  by (cases s) (auto simp: str_escape_def str_unicode_def outcome_simps
      split: if_splits option.splits dest!: unicode_escape_rest)

function str_loop :: "jbuf \<Rightarrow> string \<Rightarrow> (string \<times> string) outcome" where
  "str_loop b [] = Err HU_ERR_JSON_PARSE"
| "str_loop b (c # s) =
     (if c = DQUOTE then obind (poke b NUL) (\<lambda>b'. Ret (jb_data b, s))
      else if c = BSLASH then
        obind (str_escape b s) (\<lambda>(b, c', t). obind (str_push b c') (\<lambda>b. str_loop b t))
      else if cval c < 0x20 then Err HU_ERR_JSON_PARSE
      else obind (str_push b c) (\<lambda>b. str_loop b s))"
  by pat_completeness auto
termination
  by (relation "measure (\<lambda>(b, s). length s)") (auto dest!: str_escape_rest)

definition parse_string_raw :: "string \<Rightarrow> (string \<times> string) outcome" where
  "parse_string_raw s =
     (case s of
        [] \<Rightarrow> Err HU_ERR_JSON_PARSE
      | c # t \<Rightarrow> if c \<noteq> DQUOTE then Err HU_ERR_JSON_PARSE
               else str_loop \<lparr>jb_data = [], jb_cap = 64\<rparr> t)"

definition parse_string :: "string \<Rightarrow> (json \<times> string) outcome" where
  "parse_string s = obind (parse_string_raw s) (\<lambda>(str, t). Ret (JStr str, t))"

section \<open>Numbers\<close>

definition number_char :: "char \<Rightarrow> bool" where
  "number_char c \<longleftrightarrow> is_digit c \<or> c \<in> set ''.eE+-''"

definition parse_number :: "string \<Rightarrow> (json \<times> string) outcome" where
  "parse_number s =
     (case strtod (cstr (take 63 s)) of
        None \<Rightarrow> Err HU_ERR_JSON_PARSE
      | Some (v, n) \<Rightarrow>
          let t = dropWhile number_char (drop n s) in
          case v of Fin d \<Rightarrow> Ret (JNum d, t) | _ \<Rightarrow> Err HU_ERR_JSON_PARSE)"

section \<open>Arrays, objects and values\<close>

definition JSON_MAX_DEPTH :: nat where
  "JSON_MAX_DEPTH = 64"

text \<open>
  The parts before the loops.  \<open>loop\<close> is the \<^verbatim>\<open>while (1)\<close> of the function, which takes the
  new depth, what has been built so far and the text.
\<close>

definition parse_array ::
    "(nat \<Rightarrow> json list \<Rightarrow> string \<Rightarrow> (json \<times> string) outcome) \<Rightarrow> nat \<Rightarrow> string \<Rightarrow> (json \<times> string) outcome" where
  "parse_array loop depth s =
     (let s = drop 1 s in
      if depth + 1 > JSON_MAX_DEPTH then Err HU_ERR_JSON_DEPTH
      else let (c, s) = peek s in
           if c = CHR '']'' then Ret (JArr [], drop 1 s) else loop (depth + 1) [] s)"

definition parse_object ::
    "(nat \<Rightarrow> (string \<times> json) list \<Rightarrow> string \<Rightarrow> (json \<times> string) outcome) \<Rightarrow> nat \<Rightarrow> string \<Rightarrow> (json \<times> string) outcome" where
  "parse_object loop depth s =
     (let s = drop 1 s in
      if depth + 1 > JSON_MAX_DEPTH then Err HU_ERR_JSON_DEPTH
      else let (c, s) = peek s in
           if c = CHR ''}'' then Ret (JObj [], drop 1 s) else loop (depth + 1) [] s)"

fun parse_value :: "nat \<Rightarrow> nat \<Rightarrow> string \<Rightarrow> (json \<times> string) outcome"
  and array_loop :: "nat \<Rightarrow> nat \<Rightarrow> json list \<Rightarrow> string \<Rightarrow> (json \<times> string) outcome"
  and object_loop :: "nat \<Rightarrow> nat \<Rightarrow> (string \<times> json) list \<Rightarrow> string \<Rightarrow> (json \<times> string) outcome" where
  "parse_value 0 depth s = NoFuel"
| "parse_value (Suc k) depth s =
     (let (c, s) = peek s in
      if c = DQUOTE then parse_string s
      else if c = CHR ''{'' then parse_object (\<lambda>d ps t. object_loop k d ps t) depth s
      else if c = CHR ''['' then parse_array (\<lambda>d vs t. array_loop k d vs t) depth s
      else if c = CHR ''-'' \<or> is_digit c then parse_number s
      else if take 4 s = ''true'' then Ret (JBool True, drop 4 s)
      else if take 5 s = ''false'' then Ret (JBool False, drop 5 s)
      else if take 4 s = ''null'' then Ret (JNull, drop 4 s)
      else Err HU_ERR_JSON_PARSE)"
| "array_loop 0 depth vs s = NoFuel"
| "array_loop (Suc k) depth vs s =
     obind (parse_value k depth s) (\<lambda>(v, s).
       let vs = vs @ [v]; (c, s) = peek s in
       if c = CHR '','' then
         (let (c1, s) = advance s; (c2, s) = peek s in
          if c2 = CHR '']'' then Ret (JArr vs, drop 1 s) else array_loop k depth vs s)
       else if c = CHR '']'' then Ret (JArr vs, drop 1 s)
       else Err HU_ERR_JSON_PARSE)"
| "object_loop 0 depth ps s = NoFuel"
| "object_loop (Suc k) depth ps s =
     (let (c, s) = peek s in
      if c = CHR ''}'' then Ret (JObj ps, drop 1 s)
      else obind (parse_string_raw s) (\<lambda>(key, s).
        let (c, s) = advance s in
        if c \<noteq> CHR '':'' then Err HU_ERR_JSON_PARSE
        else obind (parse_value k depth s) (\<lambda>(v, s).
          let ps = set_pair ps key v; (c, s) = peek s in
          if c = CHR '','' then (let (c1, s) = advance s in object_loop k depth ps s)
          else if c = CHR ''}'' then Ret (JObj ps, drop 1 s)
          else Err HU_ERR_JSON_PARSE)))"

text \<open>\<^verbatim>\<open>hu_json_parse\<close>; the text after the value is not looked at.\<close>

definition hu_json_parse :: "string \<Rightarrow> json outcome" where
  "hu_json_parse input =
     obind (parse_value (2 * length input + 1) 0 input) (\<lambda>(v, rest). Ret v)"


section \<open>The writer\<close>

definition hex_digit :: "nat \<Rightarrow> char" where
  "hex_digit n = (if n < 10 then char_of (48 + n) else char_of (87 + n))"

text \<open>The text \<^verbatim>\<open>stringify_string\<close> writes for one byte: \<^verbatim>\<open>esc\<close>, \<^verbatim>\<open>ubuf\<close> or the byte.\<close>

definition esc_text :: "char \<Rightarrow> string" where
  "esc_text c =
     (if c = DQUOTE then [BSLASH, DQUOTE]
      else if c = BSLASH then [BSLASH, BSLASH]
      else if c = CHR 0x08 then [BSLASH, CHR ''b'']
      else if c = CHR 0x0C then [BSLASH, CHR ''f'']
      else if c = CHR 0x0A then [BSLASH, CHR ''n'']
      else if c = CHR 0x0D then [BSLASH, CHR ''r'']
      else if c = CHR 0x09 then [BSLASH, CHR ''t'']
      else if cval c < 0x20 then
        [BSLASH, CHR ''u'', CHR ''0'', CHR ''0'', hex_digit (cval c div 16), hex_digit (cval c mod 16)]
      else [c])"

text \<open>The same in \<^verbatim>\<open>json_buf_append_escaped\<close>, which escapes the slash as well.\<close>

definition esc_slash_text :: "char \<Rightarrow> string" where
  "esc_slash_text c = (if c = CHR ''/'' then [BSLASH, CHR ''/''] else esc_text c)"

definition stringify_string :: "string \<Rightarrow> jbuf \<Rightarrow> jbuf outcome" where
  "stringify_string s b =
     obind (buf_append b [DQUOTE]) (\<lambda>b.
     obind (foldl (\<lambda>m c. obind m (\<lambda>b. buf_append b (esc_text c))) (Ret b) s) (\<lambda>b.
     buf_append b [DQUOTE]))"

text \<open>The cast \<^verbatim>\<open>(long long)d\<close> comes before the range of \<open>d\<close> is asked.  \<^verbatim>\<open>nbuf\<close> has 64 bytes.\<close>

definition stringify_number :: "dbl \<Rightarrow> jbuf \<Rightarrow> jbuf outcome" where
  "stringify_number d b =
     (if \<not> dbl_fits_llong d then Undef BadCast
      else let n = num_text d in if length n \<ge> 64 then Err HU_ERR_INTERNAL else buf_append b n)"

text \<open>\<open>first\<close> is \<^verbatim>\<open>i == 0\<close> in the loops over items and pairs.\<close>

fun stringify_value :: "json \<Rightarrow> jbuf \<Rightarrow> jbuf outcome"
  and stringify_items :: "bool \<Rightarrow> json list \<Rightarrow> jbuf \<Rightarrow> jbuf outcome"
  and stringify_pairs :: "bool \<Rightarrow> (string \<times> json) list \<Rightarrow> jbuf \<Rightarrow> jbuf outcome" where
  "stringify_value JNull b = buf_append b ''null''"
| "stringify_value (JBool x) b = (if x then buf_append b ''true'' else buf_append b ''false'')"
| "stringify_value (JNum d) b = stringify_number d b"
| "stringify_value (JStr s) b = stringify_string s b"
| "stringify_value (JArr vs) b =
     obind (buf_append b ''['') (\<lambda>b. obind (stringify_items True vs b) (\<lambda>b. buf_append b '']''))"
| "stringify_value (JObj ps) b =
     obind (buf_append b ''{'') (\<lambda>b. obind (stringify_pairs True ps b) (\<lambda>b. buf_append b ''}''))"
| "stringify_items first [] b = Ret b"
| "stringify_items first (v # vs) b =
     obind (if first then Ret b else buf_append b '','') (\<lambda>b.
     obind (stringify_value v b) (\<lambda>b. stringify_items False vs b))"
| "stringify_pairs first [] b = Ret b"
| "stringify_pairs first ((k, v) # ps) b =
     obind (if first then Ret b else buf_append b '','') (\<lambda>b.
     obind (stringify_string k b) (\<lambda>b.
     obind (buf_append b '':'') (\<lambda>b.
     obind (stringify_value v b) (\<lambda>b. stringify_pairs False ps b))))"

definition hu_json_stringify :: "json \<Rightarrow> string outcome" where
  "hu_json_stringify v = obind (stringify_value v jbuf_empty) (\<lambda>b. Ret (jb_data b))"

text \<open>
  The appenders of \<^verbatim>\<open>hu_json_buf_t\<close>.  A string argument is its pointer (\<open>None\<close> for NULL)
  and its length.
\<close>

definition json_buf_append_escaped :: "jbuf \<Rightarrow> string \<Rightarrow> jbuf outcome" where
  "json_buf_append_escaped b s =
     obind (json_buf_append b [DQUOTE]) (\<lambda>b.
     obind (foldl (\<lambda>m c. obind m (\<lambda>b. json_buf_append b (esc_slash_text c))) (Ret b) s) (\<lambda>b.
     json_buf_append b [DQUOTE]))"

definition hu_json_append_string :: "jbuf \<Rightarrow> string option \<Rightarrow> nat \<Rightarrow> jbuf outcome" where
  "hu_json_append_string b str n =
     (case str of
        None \<Rightarrow> if n > 0 then Err HU_ERR_INVALID_ARGUMENT else json_buf_append_escaped b []
      | Some s \<Rightarrow> if n \<le> length s then json_buf_append_escaped b (take n s) else Undef OutOfBounds)"

definition hu_json_append_key :: "jbuf \<Rightarrow> string option \<Rightarrow> nat \<Rightarrow> jbuf outcome" where
  "hu_json_append_key b key n = obind (hu_json_append_string b key n) (\<lambda>b. json_buf_append b '':'')"

definition hu_json_append_key_value ::
    "jbuf \<Rightarrow> string option \<Rightarrow> nat \<Rightarrow> string option \<Rightarrow> nat \<Rightarrow> jbuf outcome" where
  "hu_json_append_key_value b key kn val vn =
     obind (hu_json_append_key b key kn) (\<lambda>b. hu_json_append_string b val vn)"

text \<open>\<^verbatim>\<open>nbuf\<close> has 24 bytes, enough for every \<^verbatim>\<open>long long\<close>.\<close>

definition hu_json_append_key_int :: "jbuf \<Rightarrow> string option \<Rightarrow> nat \<Rightarrow> int \<Rightarrow> jbuf outcome" where
  "hu_json_append_key_int b key kn val =
     obind (hu_json_append_key b key kn) (\<lambda>b.
     let n = int_str val in if length n \<ge> 24 then Err HU_ERR_INTERNAL else json_buf_append b n)"

definition hu_json_append_key_bool :: "jbuf \<Rightarrow> string option \<Rightarrow> nat \<Rightarrow> bool \<Rightarrow> jbuf outcome" where
  "hu_json_append_key_bool b key kn val =
     obind (hu_json_append_key b key kn) (\<lambda>b.
     if val then json_buf_append b ''true'' else json_buf_append b ''false'')"

section \<open>The text of a value\<close>

fun comma_join :: "string list \<Rightarrow> string" where
  "comma_join [] = []"
| "comma_join [x] = x"
| "comma_join (x # y # zs) = x @ '','' @ comma_join (y # zs)"

definition quoted :: "string \<Rightarrow> string" where
  "quoted s = DQUOTE # concat (map esc_text s) @ [DQUOTE]"

definition quoted_slash :: "string \<Rightarrow> string" where
  "quoted_slash s = DQUOTE # concat (map esc_slash_text s) @ [DQUOTE]"

primrec render :: "json \<Rightarrow> string" where
  "render JNull = ''null''"
| "render (JBool x) = (if x then ''true'' else ''false'')"
| "render (JNum d) = num_text d"
| "render (JStr s) = quoted s"
| "render (JArr vs) = ''['' @ comma_join (map render vs) @ '']''"
| "render (JObj ps) =
     ''{'' @ comma_join (map (\<lambda>(k, t). quoted k @ '':'' @ t) (map (map_prod id render) ps)) @ ''}''"

definition member_text :: "string \<times> json \<Rightarrow> string" where
  "member_text p = quoted (fst p) @ '':'' @ render (snd p)"

lemma render_JObj: "render (JObj ps) = ''{'' @ comma_join (map member_text ps) @ ''}''"
proof -
  have "map (\<lambda>(k, t). quoted k @ '':'' @ t) (map (map_prod id render) ps) = map member_text ps"
    by (simp add: member_text_def case_prod_unfold)
  then show ?thesis by (simp only: render.simps)
qed

text \<open>
  \<open>json_ok n v\<close>: \<open>v\<close> is nested at most \<open>n\<close> deep, its numbers are canonical doubles and no
  object has a key twice.
\<close>

primrec json_ok :: "nat \<Rightarrow> json \<Rightarrow> bool" where
  "json_ok 0 v = (case v of JNum d \<Rightarrow> dbl_ok d | JArr _ \<Rightarrow> False | JObj _ \<Rightarrow> False | _ \<Rightarrow> True)"
| "json_ok (Suc n) v =
     (case v of
        JNum d \<Rightarrow> dbl_ok d
      | JArr vs \<Rightarrow> (\<forall>v \<in> set vs. json_ok n v)
      | JObj ps \<Rightarrow> distinct (map fst ps) \<and> (\<forall>p \<in> set ps. json_ok n (snd p))
      | _ \<Rightarrow> True)"

text \<open>No number of the value is beyond what a \<^verbatim>\<open>long long\<close> can hold.\<close>

primrec json_fits :: "json \<Rightarrow> bool" where
  "json_fits JNull \<longleftrightarrow> True"
| "json_fits (JBool x) \<longleftrightarrow> True"
| "json_fits (JNum d) \<longleftrightarrow> dbl_fits_llong d"
| "json_fits (JStr s) \<longleftrightarrow> True"
| "json_fits (JArr vs) \<longleftrightarrow> list_all id (map json_fits vs)"
| "json_fits (JObj ps) \<longleftrightarrow> list_all snd (map (map_prod id json_fits) ps)"

lemma json_fits_JArr [simp]: "json_fits (JArr vs) \<longleftrightarrow> (\<forall>v \<in> set vs. json_fits v)"
  by (simp add: list_all_iff)

lemma json_fits_JObj [simp]: "json_fits (JObj ps) \<longleftrightarrow> (\<forall>p \<in> set ps. json_fits (snd p))"
  by (auto simp: list_all_iff)

declare json_fits.simps(5,6) [simp del]

text \<open>A value read back: the two zeros are written as the same text.\<close>

primrec jnorm :: "json \<Rightarrow> json" where
  "jnorm JNull = JNull"
| "jnorm (JBool x) = JBool x"
| "jnorm (JNum d) = JNum (norm_zero d)"
| "jnorm (JStr s) = JStr s"
| "jnorm (JArr vs) = JArr (map jnorm vs)"
| "jnorm (JObj ps) = JObj (map (map_prod id jnorm) ps)"

section \<open>The writers emit the text of the value\<close>

lemma stringify_string_emits: "strbuf.emits (stringify_string s) (quoted s)"
proof -
  have "strbuf.emits (\<lambda>b. foldl (\<lambda>m c. obind m (\<lambda>b. buf_append b (esc_text c))) (Ret b) s)
      (concat (map esc_text s))"
    by (rule strbuf.emits_all) (rule strbuf.emits_app)
  from strbuf.emits_bind [OF strbuf.emits_app strbuf.emits_bind [OF this strbuf.emits_app],
      of "[DQUOTE]" "[DQUOTE]"]
  show ?thesis by (simp add: stringify_string_def [abs_def] quoted_def)
qed

lemma json_buf_append_escaped_emits:
  "jsonbuf.emits (\<lambda>b. json_buf_append_escaped b s) (quoted_slash s)"
proof -
  have "jsonbuf.emits (\<lambda>b. foldl (\<lambda>m c. obind m (\<lambda>b. json_buf_append b (esc_slash_text c))) (Ret b) s)
      (concat (map esc_slash_text s))"
    by (rule jsonbuf.emits_all) (rule jsonbuf.emits_app)
  from jsonbuf.emits_bind [OF jsonbuf.emits_app jsonbuf.emits_bind [OF this jsonbuf.emits_app],
      of "[DQUOTE]" "[DQUOTE]"]
  show ?thesis by (simp add: json_buf_append_escaped_def [abs_def] quoted_slash_def)
qed

text \<open>The rest of a non-empty item list is its commas and items.\<close>

lemma comma_join_Cons:
  "comma_join (x # xs) = x @ concat (map (\<lambda>y. '','' @ y) xs)"
  by (induction xs arbitrary: x) auto

lemma strbuf_emits_comma:
  "strbuf.emits (\<lambda>b. if first then Ret b else buf_append b '','') (if first then [] else '','')"
  using strbuf.emits_app [of "'',''"] strbuf.emits_Ret by (cases first) auto

definition joined :: "bool \<Rightarrow> string list \<Rightarrow> string" where
  "joined first xs = (if first then comma_join xs else concat (map (\<lambda>y. '','' @ y) xs))"

lemma joined_simps:
  shows "joined first [] = []"
    and "joined first (x # xs) = (if first then [] else '','') @ x @ joined False xs"
  unfolding joined_def comma_join_Cons by simp_all

lemma stringify_items_emits:
  "(\<And>v. v \<in> set vs \<Longrightarrow> strbuf.emits (stringify_value v) (render v)) \<Longrightarrow>
   strbuf.emits (stringify_items first vs) (joined first (map render vs))"
proof (induction vs arbitrary: first)
  case Nil
  then show ?case using strbuf.emits_Ret by (simp add: joined_simps)
next
  case (Cons v vs)
  then have "strbuf.emits (stringify_value v) (render v)"
    "strbuf.emits (stringify_items False vs) (joined False (map render vs))" by auto
  from strbuf.emits_bind [OF strbuf_emits_comma [of first] strbuf.emits_bind [OF this]]
  show ?case by (simp add: joined_simps(2))
qed

lemma stringify_pairs_emits:
  "(\<And>p. p \<in> set ps \<Longrightarrow> strbuf.emits (stringify_value (snd p)) (render (snd p))) \<Longrightarrow>
   strbuf.emits (stringify_pairs first ps) (joined first (map member_text ps))"
proof (induction ps arbitrary: first)
  case Nil
  then show ?case using strbuf.emits_Ret by (simp add: joined_simps)
next
  case (Cons p ps)
  obtain k v where p: "p = (k, v)" by force
  have "strbuf.emits (stringify_value v) (render v)" using Cons.prems [of p] p by simp
  moreover have "strbuf.emits (stringify_pairs False ps) (joined False (map member_text ps))"
    by (rule Cons.IH) (simp add: Cons.prems)
  ultimately have "strbuf.emits (\<lambda>b. obind (stringify_value v b) (\<lambda>b. stringify_pairs False ps b))
      (render v @ joined False (map member_text ps))" by (rule strbuf.emits_bind)
  from strbuf.emits_bind [OF strbuf_emits_comma [of first] strbuf.emits_bind [OF stringify_string_emits [of k]
        strbuf.emits_bind [OF strbuf.emits_app [of "'':''"] this]]]
  moreover have "member_text (k, v) = quoted k @ '':'' @ render v" by (simp add: member_text_def)
  ultimately show ?case by (cases first) (simp_all add: joined_simps(2) p)
qed

lemma json_ok_JNum [simp]: "json_ok n (JNum d) \<longleftrightarrow> dbl_ok d"
  by (cases n) auto

lemma json_ok_JArr: "json_ok n (JArr vs) \<longleftrightarrow> 0 < n \<and> (\<forall>v \<in> set vs. json_ok (n - 1) v)"
  by (cases n) auto

lemma json_ok_JObj:
  "json_ok n (JObj ps) \<longleftrightarrow> 0 < n \<and> distinct (map fst ps) \<and> (\<forall>p \<in> set ps. json_ok (n - 1) (snd p))"
  by (cases n) auto

lemma json_ok_leaf [simp]: "json_ok n JNull" "json_ok n (JBool x)" "json_ok n (JStr s)"
  by (cases n; simp)+

lemma stringify_number_emits: "dbl_ok d \<Longrightarrow> dbl_fits_llong d \<Longrightarrow> strbuf.emits (stringify_number d) (num_text d)"
  using length_num_text [of d] strbuf.emits_app [of "num_text d"]
  by (simp add: stringify_number_def [abs_def] Let_def)

lemma stringify_value_emits: "json_ok n v \<Longrightarrow> json_fits v \<Longrightarrow> strbuf.emits (stringify_value v) (render v)"
proof (induction v arbitrary: n)
  case JNull
  then show ?case using strbuf.emits_app by simp
next
  case (JBool x)
  then show ?case using strbuf.emits_app by (cases x) simp_all
next
  case (JNum d)
  then show ?case using stringify_number_emits by simp
next
  case (JStr s)
  then show ?case using stringify_string_emits by simp
next
  case (JArr vs)
  then have "strbuf.emits (stringify_items True vs) (joined True (map render vs))"
    by (intro stringify_items_emits) (auto simp: json_ok_JArr)
  from strbuf.emits_bind [OF strbuf.emits_app [of "''[''"] strbuf.emits_bind [OF this strbuf.emits_app [of "'']''"]]]
  show ?case by (simp add: joined_def)
next
  case (JObj ps)
  have "strbuf.emits (stringify_value (snd p)) (render (snd p))" if "p \<in> set ps" for p
  proof -
    have "json_ok (n - 1) (snd p)" "json_fits (snd p)" using JObj.prems that by (auto simp: json_ok_JObj)
    then show ?thesis using JObj.IH [OF that, of "snd p" "n - 1"] by (cases p) simp
  qed
  from stringify_pairs_emits [OF this]
  have "strbuf.emits (stringify_pairs True ps) (joined True (map member_text ps))" by blast
  from strbuf.emits_bind [OF strbuf.emits_app [of "''{''"] strbuf.emits_bind [OF this strbuf.emits_app [of "''}''"]]]
  show ?case by (simp add: joined_def render_JObj del: render.simps)
qed

text \<open>Writing succeeds only on values all of whose numbers can be cast, and the cast is the only thing undefined in it.\<close>

definition fits_or_cast :: "bool \<Rightarrow> 'a outcome \<Rightarrow> bool" where
  "fits_or_cast fits m \<longleftrightarrow> (case m of Ret _ \<Rightarrow> fits | Err _ \<Rightarrow> True | Undef u \<Rightarrow> u = BadCast \<and> \<not> fits | NoFuel \<Rightarrow> False)"

lemma fits_or_cast_simps [simp]:
  "fits_or_cast fits (Ret x) = fits" "fits_or_cast fits (Err e)" "fits_or_cast fits (Undef u) \<longleftrightarrow> u = BadCast \<and> \<not> fits"
  "\<not> fits_or_cast fits NoFuel"
  by (simp_all add: fits_or_cast_def)

lemma fits_or_cast_obind:
  "fits_or_cast a m \<Longrightarrow> (\<And>x. m = Ret x \<Longrightarrow> fits_or_cast b (f x)) \<Longrightarrow> fits_or_cast (a \<and> b) (obind m f)"
  by (cases m) (auto simp: fits_or_cast_def split: outcome.splits)

lemma buf_append_fits: "fits_or_cast True (buf_append b s)"
  by (simp add: buf_append_def split: option.split)

lemma stringify_string_fits: "fits_or_cast True (stringify_string s b)"
proof -
  have "fits_or_cast True (foldl (\<lambda>m c. obind m (\<lambda>b. buf_append b (esc_text c))) m s)" if "fits_or_cast True m" for m
    using that
  proof (induction s arbitrary: m)
    case (Cons c s)
    have "fits_or_cast (True \<and> True) (obind m (\<lambda>b. buf_append b (esc_text c)))"
      using Cons.prems by (intro fits_or_cast_obind buf_append_fits)
    then show ?case using Cons.IH by simp
  qed simp
  then have "fits_or_cast (True \<and> True \<and> True) (stringify_string s b)"
    unfolding stringify_string_def by (intro fits_or_cast_obind buf_append_fits) simp
  then show ?thesis by simp
qed

lemma stringify_fits:
  "fits_or_cast (json_fits v) (stringify_value v b)"
  "fits_or_cast (\<forall>v \<in> set vs. json_fits v) (stringify_items first vs b)"
  "fits_or_cast (\<forall>p \<in> set ps. json_fits (snd p)) (stringify_pairs first ps b)"
proof (induction v b and first vs b and first ps b rule: stringify_value_stringify_items_stringify_pairs.induct)
  case (3 d b)
  then show ?case by (simp add: stringify_number_def Let_def buf_append_fits)
next
  case (5 vs b)
  then have "fits_or_cast (True \<and> (\<forall>v \<in> set vs. json_fits v) \<and> True) (stringify_value (JArr vs) b)"
    unfolding stringify_value.simps by (intro fits_or_cast_obind buf_append_fits)
  then show ?case by simp
next
  case (6 ps b)
  then have "fits_or_cast (True \<and> (\<forall>p \<in> set ps. json_fits (snd p)) \<and> True) (stringify_value (JObj ps) b)"
    unfolding stringify_value.simps by (intro fits_or_cast_obind buf_append_fits)
  then show ?case by simp
next
  case (8 first v vs b)
  have sep: "fits_or_cast True (if first then Ret b else buf_append b '','')" by (simp add: buf_append_fits)
  have "fits_or_cast (True \<and> json_fits v \<and> (\<forall>v \<in> set vs. json_fits v)) (stringify_items first (v # vs) b)"
    unfolding stringify_items.simps by (intro fits_or_cast_obind sep 8)
  then show ?case by simp
next
  case (10 first k v ps b)
  have sep: "fits_or_cast True (if first then Ret b else buf_append b '','')" by (simp add: buf_append_fits)
  have "fits_or_cast (True \<and> True \<and> True \<and> json_fits v \<and> (\<forall>p \<in> set ps. json_fits (snd p)))
      (stringify_pairs first ((k, v) # ps) b)"
    unfolding stringify_pairs.simps by (intro fits_or_cast_obind buf_append_fits stringify_string_fits sep 10)
  then show ?case by simp
qed (simp_all add: buf_append_fits stringify_string_fits)

lemma hu_json_stringify_fits: "fits_or_cast (json_fits v) (hu_json_stringify v)"
proof -
  have "fits_or_cast (json_fits v \<and> True) (hu_json_stringify v)"
    unfolding hu_json_stringify_def by (intro fits_or_cast_obind stringify_fits) simp
  then show ?thesis by simp
qed

lemma hu_json_stringify_render:
  assumes "json_ok n v"
  shows "hu_json_stringify v = Ret t \<Longrightarrow> t = render v"
    and "json_fits v \<Longrightarrow> length (render v) < 2 ^ 63 \<Longrightarrow> hu_json_stringify v = Ret (render v)"
proof -
  have data: "b = Ret b' \<Longrightarrow> jb_data b' = render v" if "b = stringify_value v jbuf_empty" for b b'
  proof -
    assume b': "b = Ret b'"
    then have "json_fits v" using stringify_fits(1) [of v jbuf_empty] that by simp
    from strbuf.emits_bytes [OF stringify_value_emits [OF assms this], of jbuf_empty b'] b' that
    show ?thesis by (simp add: jbuf_empty_def)
  qed
  then show "hu_json_stringify v = Ret t \<Longrightarrow> t = render v"
    by (auto simp: hu_json_stringify_def outcome_simps)
  assume "json_fits v"
  note em = stringify_value_emits [OF assms this]
  assume "length (render v) < 2 ^ 63"
  then have "jb_room jbuf_empty (length (render v))" by (simp add: jb_room_def jbuf_empty_def)
  from strbuf.emits_room [OF em this] data show "hu_json_stringify v = Ret (render v)"
    by (auto simp: hu_json_stringify_def)
qed


section \<open>The parser always answers, and never writes past its buffer\<close>

lemma skip_ws_length: "length (skip_ws s) \<le> length s"
  by (simp add: skip_ws_def length_dropWhile_le)

lemma peek_length: "peek s = (c, t) \<Longrightarrow> length t \<le> length s"
  by (auto simp: peek_def Let_def skip_ws_length)

lemma peek_cur: "peek s = (c, t) \<Longrightarrow> c \<noteq> NUL \<Longrightarrow> \<exists>u. t = c # u"
  by (auto simp: peek_def Let_def cur_def split: list.splits)

lemma advance_length: "advance s = (c, t) \<Longrightarrow> length t \<le> length s \<and> (c \<noteq> NUL \<longrightarrow> length t < length s)"
  using skip_ws_length [of s]
  by (auto simp: advance_def Let_def cur_def split: list.splits)

text \<open>
  The string buffer: there is room for the terminator, and the capacity is at most about twice
  the length, so the doubling guard cannot fire on a text that fits in memory.
\<close>

definition sb_inv :: "jbuf \<Rightarrow> bool" where
  "sb_inv b \<longleftrightarrow> length (jb_data b) < jb_cap b \<and> 64 \<le> jb_cap b \<and>
     jb_cap b \<le> 2 * length (jb_data b) + 64"

lemma poke_ok: "length (jb_data b) < jb_cap b \<Longrightarrow> poke b c = Ret (b\<lparr>jb_data := jb_data b @ [c]\<rparr>)"
  by (simp add: poke_def)

lemma str_push_ok:
  assumes "length (jb_data b) < jb_cap b" "64 \<le> jb_cap b" "jb_cap b \<le> 2 * length (jb_data b) + 64"
    and "length (jb_data b) < 2 ^ 61"
  shows "\<exists>b'. str_push b c = Ret b' \<and> jb_data b' = jb_data b @ [c] \<and> sb_inv b'"
  using assms by (auto simp: str_push_def double_cap_def SIZE_MAX_half poke_def sb_inv_def)

lemma utf8_split_length: "utf8_split cp = Some (bs, c) \<Longrightarrow> length bs \<le> 3"
  by (auto simp: utf8_split_def split: if_splits)

lemma hex_char_val_less: "hex_char_val c = Some n \<Longrightarrow> n < 16"
  by (auto simp: hex_char_val_def split: if_splits)

lemma hex4_less: "hex4 s = Some n \<Longrightarrow> n < 65536"
  by (auto simp: hex4_def split: list.splits option.splits dest!: hex_char_val_less)

lemma unicode_escape_range:
  "unicode_escape s = Ret (cp, t) \<Longrightarrow> cp \<le> 0x10FFFF \<and> length t + 4 \<le> length s"
  using hex4_less [of s] hex4_length [of s]
  by (fastforce simp: unicode_escape_def Let_def split: option.splits if_splits)

lemma unicode_escape_err: "unicode_escape s = Err e \<Longrightarrow> e = HU_ERR_JSON_PARSE"
  and unicode_escape_def': "unicode_escape s \<noteq> Undef u" "unicode_escape s \<noteq> NoFuel"
  by (auto simp: unicode_escape_def Let_def split: option.splits if_splits)

lemma poke_all:
  "length (jb_data b) + length bs \<le> jb_cap b \<Longrightarrow>
   foldl (\<lambda>m x. obind m (\<lambda>b. poke b x)) (Ret b) bs = Ret (b\<lparr>jb_data := jb_data b @ bs\<rparr>)"
  by (induction bs rule: rev_induct) (auto simp: poke_def)

text \<open>What a step of the string parser may answer.\<close>

definition parse_fails :: "'a outcome \<Rightarrow> bool" where
  "parse_fails m \<longleftrightarrow> m = Err HU_ERR_JSON_PARSE \<or> m = Err HU_ERR_JSON_DEPTH"

lemma parse_fails_simps [simp]:
  "parse_fails (Err HU_ERR_JSON_PARSE)" "parse_fails (Err HU_ERR_JSON_DEPTH)" "\<not> parse_fails (Ret x)"
  "\<not> parse_fails (Undef u)" "\<not> parse_fails NoFuel"
  by (auto simp: parse_fails_def)

lemma parse_fails_bind [simp]: "parse_fails m \<Longrightarrow> parse_fails (obind m f)"
  by (auto simp: parse_fails_def)

lemma str_unicode_cases:
  assumes "sb_inv b" "length (jb_data b) < 2 ^ 61"
  shows "parse_fails (str_unicode b s) \<or>
    (\<exists>b' c t bs. str_unicode b s = Ret (b', c, t) \<and> jb_data b' = jb_data b @ bs \<and> length bs \<le> 3 \<and>
       length t + 4 \<le> length s \<and> length (jb_data b') < jb_cap b' \<and> 64 \<le> jb_cap b' \<and>
       jb_cap b' \<le> 2 * length (jb_data b') + 64)"
proof (cases "unicode_escape s")
  case (Ret p)
  obtain cp t where p: "p = (cp, t)" by force
  from unicode_escape_range [of s] Ret p have r: "cp \<le> 0x10FFFF" "length t + 4 \<le> length s" by auto
  then obtain bs c where u: "utf8_split cp = Some (bs, c)"
    by (cases "utf8_split cp") (auto simp: utf8_split_def split: if_splits)
  let ?g = "if length (jb_data b) + 4 > jb_cap b then double_cap b else Ret b"
  obtain b1 where g: "?g = Ret b1" "jb_data b1 = jb_data b" "length (jb_data b) + 4 \<le> jb_cap b1"
    "64 \<le> jb_cap b1" "jb_cap b1 \<le> 2 * length (jb_data b) + 64"
  proof (cases "length (jb_data b) + 4 > jb_cap b")
    case True
    then have "?g = Ret (b\<lparr>jb_cap := jb_cap b * 2\<rparr>)"
      using assms by (simp add: double_cap_def SIZE_MAX_half sb_inv_def)
    with True assms show ?thesis
      by (intro that [of "b\<lparr>jb_cap := jb_cap b * 2\<rparr>"]) (auto simp: sb_inv_def)
  next
    case False
    with assms show ?thesis by (intro that [of b]) (auto simp: sb_inv_def)
  qed
  have bs: "length bs \<le> 3" using utf8_split_length [OF u] .
  then have "str_unicode b s = Ret (b1\<lparr>jb_data := jb_data b @ bs\<rparr>, c, t)"
    using Ret p u g by (simp add: str_unicode_def poke_all del: if_split)
  then show ?thesis using g bs r by auto
next
  case (Err e)
  then show ?thesis using unicode_escape_err [OF Err] by (simp add: str_unicode_def)
qed (use unicode_escape_def' in auto)

lemma str_escape_cases:
  assumes "sb_inv b" "length (jb_data b) < 2 ^ 61"
  shows "parse_fails (str_escape b s) \<or>
    (\<exists>b' c t bs. str_escape b s = Ret (b', c, t) \<and> jb_data b' = jb_data b @ bs \<and>
       length bs + length t < length s \<and> length (jb_data b') < jb_cap b' \<and> 64 \<le> jb_cap b' \<and>
       jb_cap b' \<le> 2 * length (jb_data b') + 64)"
proof (cases s)
  case (Cons c t)
  have "parse_fails (str_unicode b t) \<or>
    (\<exists>b' c' t' bs. str_unicode b t = Ret (b', c', t') \<and> jb_data b' = jb_data b @ bs \<and>
       length bs + length t' < length s \<and> length (jb_data b') < jb_cap b' \<and> 64 \<le> jb_cap b' \<and>
       jb_cap b' \<le> 2 * length (jb_data b') + 64)"
    using str_unicode_cases [OF assms, of t] Cons by (auto; fastforce)
  moreover have "length (jb_data b) < jb_cap b" "64 \<le> jb_cap b" "jb_cap b \<le> 2 * length (jb_data b) + 64"
    using assms by (auto simp: sb_inv_def)
  ultimately show ?thesis using Cons by (auto simp: str_escape_def)
qed (simp add: str_escape_def)

definition shorter :: "nat \<Rightarrow> ('a \<times> string) outcome \<Rightarrow> bool" where
  "shorter n m \<longleftrightarrow> parse_fails m \<or> (\<exists>v t. m = Ret (v, t) \<and> length t < n)"

lemma shorter_fails [simp]: "parse_fails m \<Longrightarrow> shorter n m"
  by (simp add: shorter_def)

lemma shorter_Ret [simp]: "shorter n (Ret (v, t)) \<longleftrightarrow> length t < n"
  by (auto simp: shorter_def)

lemma shorter_bind:
  assumes "shorter n m" "\<And>v t. m = Ret (v, t) \<Longrightarrow> length t < n \<Longrightarrow> shorter k (f (v, t))"
  shows "shorter k (obind m f)"
  using assms by (auto simp: shorter_def)

lemma shorter_mono: "shorter n m \<Longrightarrow> n \<le> k \<Longrightarrow> shorter k m"
  by (auto simp: shorter_def)

lemma str_loop_total:
  "sb_inv b \<Longrightarrow> length (jb_data b) + length s < 2 ^ 61 \<Longrightarrow> shorter (Suc (length s)) (str_loop b s)"
proof (induction b s rule: str_loop.induct)
  case (1 b)
  then show ?case by simp
next
  case (2 b c s)
  note bl = "2.prems"(1)
  from "2.prems"(2) have small: "length (jb_data b) < 2 ^ 61" by simp
  consider (q) "c = DQUOTE" | (esc) "c = BSLASH" | (ctl) "c \<noteq> DQUOTE" "c \<noteq> BSLASH" "cval c < 0x20"
    | (plain) "c \<noteq> DQUOTE" "c \<noteq> BSLASH" "\<not> cval c < 0x20" by blast
  then show ?case
  proof cases
    case q
    with bl show ?thesis by (simp add: sb_inv_def poke_ok)
  next
    case ctl
    then show ?thesis by simp
  next
    case plain
    obtain b' where b': "str_push b c = Ret b'" "jb_data b' = jb_data b @ [c]" "sb_inv b'"
      using str_push_ok [of b c] bl small by (auto simp: sb_inv_def)
    from "2.IH"(2) [OF plain b'(1)] b' "2.prems"(2) plain show ?thesis
      by (auto intro: shorter_mono)
  next
    case esc
    from str_escape_cases [OF bl small, of s] show ?thesis
    proof
      assume "parse_fails (str_escape b s)"
      with esc show ?thesis by simp
    next
      assume "\<exists>b' c t bs. str_escape b s = Ret (b', c, t) \<and> jb_data b' = jb_data b @ bs \<and>
       length bs + length t < length s \<and> length (jb_data b') < jb_cap b' \<and> 64 \<le> jb_cap b' \<and>
       jb_cap b' \<le> 2 * length (jb_data b') + 64"
      then obtain b1 c' t bs where e: "str_escape b s = Ret (b1, c', t)" "jb_data b1 = jb_data b @ bs"
        "length bs + length t < length s" "length (jb_data b1) < jb_cap b1" "64 \<le> jb_cap b1"
        "jb_cap b1 \<le> 2 * length (jb_data b1) + 64" by blast
      have "length (jb_data b1) < 2 ^ 61" using e "2.prems"(2) by simp
      from str_push_ok [OF e(4-6) this] obtain b2 where
        b2: "str_push b1 c' = Ret b2" "jb_data b2 = jb_data b1 @ [c']" "sb_inv b2" by blast
      have "shorter (Suc (length t)) (str_loop b2 t)"
        using "2.IH"(1) [OF _ esc e(1) refl refl b2(1)] esc b2 e "2.prems"(2) by auto
      with esc e b2 show ?thesis by (auto intro: shorter_mono)
    qed
  qed
qed

lemma parse_string_raw_total: "length s < 2 ^ 61 \<Longrightarrow> shorter (length s) (parse_string_raw s)"
proof -
  assume s: "length s < 2 ^ 61"
  have "shorter (Suc (length t)) (str_loop \<lparr>jb_data = [], jb_cap = 64\<rparr> t)" if "s = c # t" for c t
    using s that by (intro str_loop_total) (auto simp: sb_inv_def)
  then show ?thesis by (auto simp: parse_string_raw_def split: list.split)
qed

lemma parse_string_total: "length s < 2 ^ 61 \<Longrightarrow> shorter (length s) (parse_string s)"
  unfolding parse_string_def by (rule shorter_bind [OF parse_string_raw_total]) auto

lemma parse_number_total: "shorter (length s) (parse_number s)"
proof (cases "strtod (cstr (take 63 s))")
  case None
  then show ?thesis by (simp add: parse_number_def)
next
  case (Some p)
  obtain v n where p: "p = (v, n)" by force
  from strtod_consumes [of "cstr (take 63 s)" v n] Some p
  have n: "0 < n" "n \<le> length s" using length_cstr_le [of "take 63 s"] by auto
  have "length (dropWhile number_char (drop n s)) \<le> length s - n"
    using length_dropWhile_le [of number_char "drop n s"] by simp
  then have "length (dropWhile number_char (drop n s)) < length s" using n by linarith
  then show ?thesis using Some p by (auto simp: parse_number_def Let_def split: fpval.split)
qed

lemma parse_array_total:
  assumes "\<And>t. Suc (length t) \<le> length s \<Longrightarrow> shorter (length t) (loop (depth + 1) [] t)" "s \<noteq> []"
  shows "shorter (length s) (parse_array loop depth s)"
proof -
  obtain c t where pk: "peek (drop 1 s) = (c, t)" by force
  from peek_length [OF pk] assms(2) have t: "Suc (length t) \<le> length s" by (cases s) auto
  with assms(1) [OF t] show ?thesis
    by (auto simp: parse_array_def pk [simplified] Let_def intro: shorter_mono)
qed

lemma parse_object_total:
  assumes "\<And>t. Suc (length t) \<le> length s \<Longrightarrow> shorter (length t) (loop (depth + 1) [] t)" "s \<noteq> []"
  shows "shorter (length s) (parse_object loop depth s)"
proof -
  obtain c t where pk: "peek (drop 1 s) = (c, t)" by force
  from peek_length [OF pk] assms(2) have t: "Suc (length t) \<le> length s" by (cases s) auto
  with assms(1) [OF t] show ?thesis
    by (auto simp: parse_object_def pk [simplified] Let_def intro: shorter_mono)
qed

lemma parse_value_step:
  assumes small: "length s < 2 ^ 61"
    and arr: "\<And>d vs t. Suc (length t) \<le> length s \<Longrightarrow> shorter (length t) (array_loop k d vs t)"
    and obj: "\<And>d ps t. Suc (length t) \<le> length s \<Longrightarrow> shorter (length t) (object_loop k d ps t)"
  shows "shorter (length s) (parse_value (Suc k) depth s)"
proof -
  obtain c t where pk: "peek s = (c, t)" by force
  note t = peek_length [OF pk]
  have ne: "t \<noteq> []" if "c \<noteq> NUL" using peek_cur [OF pk that] by auto
  have "shorter (length t) (parse_string t)" using t small by (intro parse_string_total) simp
  moreover have "shorter (length t) (parse_number t)" by (rule parse_number_total)
  moreover have "shorter (length t) (parse_array (\<lambda>d vs t. array_loop k d vs t) depth t)" if "c \<noteq> NUL"
    using t by (intro parse_array_total arr ne [OF that]) simp
  moreover have "shorter (length t) (parse_object (\<lambda>d vs t. object_loop k d vs t) depth t)" if "c \<noteq> NUL"
    using t by (intro parse_object_total obj ne [OF that]) simp
  moreover have "take 4 t = ''true'' \<or> take 4 t = ''null'' \<Longrightarrow> length (drop 4 t) < length t"
    "take 5 t = ''false'' \<Longrightarrow> length (drop 5 t) < length t" by (cases t; auto)+
  ultimately have "shorter (length t) (parse_value (Suc k) depth s)"
    by (simp add: pk split del: if_split split: if_splits)
  with t show ?thesis by (rule shorter_mono [rotated])
qed

lemma array_loop_step:
  assumes val: "shorter (length s) (parse_value k depth s)"
    and arr: "\<And>vs t. Suc (length t) < length s \<Longrightarrow> shorter (length t) (array_loop k depth vs t)"
  shows "shorter (length s) (array_loop (Suc k) depth vs s)"
  unfolding array_loop.simps
proof (rule shorter_bind [OF val])
  fix v and t :: string
  assume t: "length t < length s"
  obtain c t1 where p1: "peek t = (c, t1)" by force
  obtain c1 t2 where p2: "advance t1 = (c1, t2)" by force
  obtain c2 t3 where p3: "peek t2 = (c2, t3)" by force
  have l1: "length t1 \<le> length t" using peek_length [OF p1] .
  have l2: "Suc (length t2) < length s" if "c = CHR '',''"
  proof -
    from peek_cur [OF p1] that obtain u where "t1 = CHR '','' # u" by auto
    with p2 have "t2 = u" by (auto simp: advance_def skip_ws_def is_ws_def Let_def)
    with l1 t \<open>t1 = _\<close> show ?thesis by simp
  qed
  have l3: "length t3 \<le> length t2" using peek_length [OF p3] .
  have rec: "shorter (length s) (array_loop k depth us t3)" if "c = CHR '',''" for us
    using l2 [OF that] l3 by (intro shorter_mono [OF arr]) auto
  from l1 l2 l3 t show "shorter (length s) (case (v, t) of (v, s) \<Rightarrow>
       let vs = vs @ [v]; (c, s) = peek s in
       if c = CHR '','' then
         (let (c1, s) = advance s; (c2, s) = peek s in
          if c2 = CHR '']'' then Ret (JArr vs, drop 1 s) else array_loop k depth vs s)
       else if c = CHR '']'' then Ret (JArr vs, drop 1 s)
       else Err HU_ERR_JSON_PARSE)"
    by (auto simp: Let_def p1 p2 p3 rec)
qed

lemma object_loop_step:
  assumes small: "length s < 2 ^ 61"
    and val: "\<And>t. Suc (length t) < length s \<Longrightarrow> shorter (length t) (parse_value k depth t)"
    and obj: "\<And>ps t. Suc (length t) < length s \<Longrightarrow> shorter (length t) (object_loop k depth ps t)"
  shows "shorter (length s) (object_loop (Suc k) depth ps s)"
proof -
  obtain c s0 where p0: "peek s = (c, s0)" by force
  note l0 = peek_length [OF p0]
  show ?thesis
  proof (cases "c = CHR ''}''")
    case True
    with peek_cur [OF p0] l0 show ?thesis by (auto simp: p0 Let_def)
  next
    case False
    have raw: "shorter (length s0) (parse_string_raw s0)"
      using l0 small by (intro parse_string_raw_total) simp
    have "shorter (length s) (obind (parse_string_raw s0) (\<lambda>(key, s).
        let (c, s) = advance s in
        if c \<noteq> CHR '':'' then Err HU_ERR_JSON_PARSE
        else obind (parse_value k depth s) (\<lambda>(v, s).
          let ps = set_pair ps key v; (c, s) = peek s in
          if c = CHR '','' then (let (c1, s) = advance s in object_loop k depth ps s)
          else if c = CHR ''}'' then Ret (JObj ps, drop 1 s)
          else Err HU_ERR_JSON_PARSE)))"
    proof (rule shorter_bind [OF raw], simp only: prod.case)
      fix key and t :: string
      assume t: "length t < length s0"
      obtain c1 t1 where p1: "advance t = (c1, t1)" by force
      have l1: "c1 = CHR '':'' \<Longrightarrow> Suc (length t1) < length s" using advance_length [OF p1] t l0 by auto
      have "shorter (length s) (obind (parse_value k depth t1) (\<lambda>(v, s).
          let ps = set_pair ps key v; (c, s) = peek s in
          if c = CHR '','' then (let (c1, s) = advance s in object_loop k depth ps s)
          else if c = CHR ''}'' then Ret (JObj ps, drop 1 s)
          else Err HU_ERR_JSON_PARSE))" if "c1 = CHR '':''"
      proof (rule shorter_bind [OF val [OF l1 [OF that]]], simp only: prod.case)
        fix v and t2 :: string
        assume t2: "length t2 < length t1"
        obtain c3 t3 where p3: "peek t2 = (c3, t3)" by force
        obtain c4 t4 where p4: "advance t3 = (c4, t4)" by force
        have l: "Suc (length t4) < length s" "length t3 < length s"
          using peek_length [OF p3] advance_length [OF p4] t2 l1 [OF that] by auto
        have rec: "shorter (length s) (object_loop k depth qs t4)" for qs
          using l by (intro shorter_mono [OF obj]) auto
        show "shorter (length s) (let ps = set_pair ps key v; (c, s) = peek t2 in
          if c = CHR '','' then (let (c1, s) = advance s in object_loop k depth ps s)
          else if c = CHR ''}'' then Ret (JObj ps, drop 1 s)
          else Err HU_ERR_JSON_PARSE)"
          using l by (auto simp: p3 p4 Let_def rec)
      qed
      then show "shorter (length s) (let (c, s) = advance t in
        if c \<noteq> CHR '':'' then Err HU_ERR_JSON_PARSE
        else obind (parse_value k depth s) (\<lambda>(v, s).
          let ps = set_pair ps key v; (c, s) = peek s in
          if c = CHR '','' then (let (c1, s) = advance s in object_loop k depth ps s)
          else if c = CHR ''}'' then Ret (JObj ps, drop 1 s)
          else Err HU_ERR_JSON_PARSE))"
        by (auto simp: p1)
    qed
    with False show ?thesis by (simp add: p0)
  qed
qed

lemma parse_total_aux:
  "(length s < 2 ^ 61 \<and> 2 * length s + 1 \<le> k \<longrightarrow> shorter (length s) (parse_value k depth s)) \<and>
   (length s < 2 ^ 61 \<and> 2 * length s + 2 \<le> k \<longrightarrow> shorter (length s) (array_loop k depth vs s)) \<and>
   (length s < 2 ^ 61 \<and> 2 * length s + 2 \<le> k \<longrightarrow> shorter (length s) (object_loop k depth ps s))"
proof (induction k arbitrary: s depth vs ps)
  case (Suc k)
  then have v: "\<And>t d. length t < 2 ^ 61 \<Longrightarrow> 2 * length t + 1 \<le> k \<Longrightarrow> shorter (length t) (parse_value k d t)"
    and a: "\<And>t d vs. length t < 2 ^ 61 \<Longrightarrow> 2 * length t + 2 \<le> k \<Longrightarrow> shorter (length t) (array_loop k d vs t)"
    and o: "\<And>t d ps. length t < 2 ^ 61 \<Longrightarrow> 2 * length t + 2 \<le> k \<Longrightarrow> shorter (length t) (object_loop k d ps t)"
    by blast+
  have "length s < 2 ^ 61 \<Longrightarrow> 2 * length s + 1 \<le> Suc k \<Longrightarrow> shorter (length s) (parse_value (Suc k) depth s)"
    by (rule parse_value_step) (auto intro!: a o)
  moreover have "length s < 2 ^ 61 \<Longrightarrow> 2 * length s + 2 \<le> Suc k \<Longrightarrow> shorter (length s) (array_loop (Suc k) depth vs s)"
    by (rule array_loop_step) (auto intro!: v a)
  moreover have "length s < 2 ^ 61 \<Longrightarrow> 2 * length s + 2 \<le> Suc k \<Longrightarrow> shorter (length s) (object_loop (Suc k) depth ps s)"
    by (rule object_loop_step) (auto intro!: v o)
  ultimately show ?case by blast
qed simp

lemma parse_value_total:
  "length s < 2 ^ 61 \<Longrightarrow> 2 * length s + 1 \<le> k \<Longrightarrow> shorter (length s) (parse_value k depth s)"
  using parse_total_aux by blast


section \<open>What the parser returns is well formed\<close>

lemma set_pair_keys:
  "map fst (set_pair ps k v) = (if k \<in> fst ` set ps then map fst ps else map fst ps @ [k])"
  by (induction ps k v rule: set_pair.induct) auto

lemma set_pair_distinct: "distinct (map fst ps) \<Longrightarrow> distinct (map fst (set_pair ps k v))"
  by (simp add: set_pair_keys)

lemma set_pair_vals: "p \<in> set (set_pair ps k v) \<Longrightarrow> snd p = v \<or> p \<in> set ps"
  by (induction ps k v rule: set_pair.induct) (auto split: if_splits)

lemma set_pair_new: "k \<notin> fst ` set ps \<Longrightarrow> set_pair ps k v = ps @ [(k, v)]"
  by (induction ps k v rule: set_pair.induct) auto

lemma array_loop_result:
  assumes "array_loop (Suc k) d vs s = Ret (v, t)"
  shows "\<exists>w s1. parse_value k d s = Ret (w, s1) \<and>
      (v = JArr (vs @ [w]) \<or> (\<exists>s2. array_loop k d (vs @ [w]) s2 = Ret (v, t)))"
proof -
  from assms obtain w s1 where w: "parse_value k d s = Ret (w, s1)" by (auto simp: outcome_simps)
  obtain c s2 where p: "peek s1 = (c, s2)" by force
  obtain c1 s3 where p1: "advance s2 = (c1, s3)" by force
  obtain c2 s4 where p2: "peek s3 = (c2, s4)" by force
  from assms w show ?thesis
    by (simp add: p p1 p2 Let_def split: if_splits) blast+
qed

lemma object_loop_result:
  assumes "object_loop (Suc k) d ps s = Ret (v, t)"
  shows "v = JObj ps \<or> (\<exists>key s1 w s2. parse_value k d s1 = Ret (w, s2) \<and>
      (v = JObj (set_pair ps key w) \<or> (\<exists>s3. object_loop k d (set_pair ps key w) s3 = Ret (v, t))))"
proof -
  obtain c s0 where p0: "peek s = (c, s0)" by force
  show ?thesis
  proof (cases "c = CHR ''}''")
    case False
    with assms p0 obtain key s1 where raw: "parse_string_raw s0 = Ret (key, s1)"
      by (auto simp: outcome_simps)
    obtain c1 s2 where p1: "advance s1 = (c1, s2)" by force
    from assms False obtain w s3 where w: "parse_value k d s2 = Ret (w, s3)"
      by (auto simp: p0 raw p1 outcome_simps split: if_splits)
    obtain c3 s4 where p3: "peek s3 = (c3, s4)" by force
    obtain c4 s5 where p4: "advance s4 = (c4, s5)" by force
    from assms False w p4 show ?thesis
      by (simp add: p0 raw p1 p3 Let_def split: if_splits) blast+
  qed (use assms p0 in auto)
qed

lemma parse_ok_aux:
  "(\<forall>s depth v t. parse_value k depth s = Ret (v, t) \<and> depth \<le> 64 \<longrightarrow> json_ok (64 - depth) v) \<and>
   (\<forall>s depth vs v t. array_loop k depth vs s = Ret (v, t) \<and> 1 \<le> depth \<and> depth \<le> 64 \<and>
      (\<forall>u \<in> set vs. json_ok (64 - depth) u) \<longrightarrow> json_ok (65 - depth) v) \<and>
   (\<forall>s depth ps v t. object_loop k depth ps s = Ret (v, t) \<and> 1 \<le> depth \<and> depth \<le> 64 \<and>
      distinct (map fst ps) \<and> (\<forall>p \<in> set ps. json_ok (64 - depth) (snd p)) \<longrightarrow> json_ok (65 - depth) v)"
proof (induction k)
  case (Suc k)
  then have v: "\<And>s d v t. parse_value k d s = Ret (v, t) \<Longrightarrow> d \<le> 64 \<Longrightarrow> json_ok (64 - d) v"
    and a: "\<And>s d vs v t. array_loop k d vs s = Ret (v, t) \<Longrightarrow> 1 \<le> d \<Longrightarrow> d \<le> 64 \<Longrightarrow>
      (\<forall>u \<in> set vs. json_ok (64 - d) u) \<Longrightarrow> json_ok (65 - d) v"
    and o: "\<And>s d ps v t. object_loop k d ps s = Ret (v, t) \<Longrightarrow> 1 \<le> d \<Longrightarrow> d \<le> 64 \<Longrightarrow>
      distinct (map fst ps) \<Longrightarrow> (\<forall>p \<in> set ps. json_ok (64 - d) (snd p)) \<Longrightarrow> json_ok (65 - d) v"
    by blast+
  have num: "json_ok n v" if "parse_number s = Ret (v, t)" for n v s t
    using that by (auto simp: parse_number_def Let_def split: option.splits fpval.splits dest!: strtod_dbl_ok)
  have str: "json_ok n v" if "parse_string s = Ret (v, t)" for n v s t
    using that by (auto simp: parse_string_def outcome_simps)
  have arr: "json_ok (64 - d) v"
    if "parse_array (\<lambda>d vs t. array_loop k d vs t) d s = Ret (v, t)" for d s v t
    using that a [of "d + 1" "[]" _ v t]
    by (auto simp: parse_array_def JSON_MAX_DEPTH_def json_ok_JArr Let_def split: prod.splits if_splits)
  have obj: "json_ok (64 - d) v"
    if "parse_object (\<lambda>d vs t. object_loop k d vs t) d s = Ret (v, t)" for d s v t
    using that o [of "d + 1" "[]" _ v t]
    by (auto simp: parse_object_def JSON_MAX_DEPTH_def json_ok_JObj Let_def split: prod.splits if_splits)
  have "json_ok (64 - d) v" if "parse_value (Suc k) d s = Ret (v, t)" "d \<le> 64" for d s v t
    using that by (auto split: prod.splits if_splits dest: num str arr obj)
  moreover have "json_ok (65 - d) v"
    if "array_loop (Suc k) d vs s = Ret (v, t)" "1 \<le> d" "d \<le> 64" "\<forall>u \<in> set vs. json_ok (64 - d) u" for d vs s v t
  proof -
    from array_loop_result [OF that(1)] obtain w s1 where w: "parse_value k d s = Ret (w, s1)"
      and rest: "v = JArr (vs @ [w]) \<or> (\<exists>s2. array_loop k d (vs @ [w]) s2 = Ret (v, t))"
      by blast
    have el: "\<forall>u \<in> set (vs @ [w]). json_ok (64 - d) u" using v [OF w that(3)] that(4) by auto
    from rest show ?thesis
    proof
      assume "v = JArr (vs @ [w])"
      with el that(2,3) show ?thesis by (simp add: json_ok_JArr)
    qed (use a [OF _ that(2,3) el] in blast)
  qed
  moreover have "json_ok (65 - d) v"
    if "object_loop (Suc k) d ps s = Ret (v, t)" "1 \<le> d" "d \<le> 64" "distinct (map fst ps)"
      "\<forall>p \<in> set ps. json_ok (64 - d) (snd p)" for d ps s v t
  proof -
    from object_loop_result [OF that(1)]
    consider "v = JObj ps" | key s1 w s2 where "parse_value k d s1 = Ret (w, s2)"
      "v = JObj (set_pair ps key w) \<or> (\<exists>s3. object_loop k d (set_pair ps key w) s3 = Ret (v, t))"
      by blast
    then show ?thesis
    proof cases
      case 1
      with that show ?thesis by (simp add: json_ok_JObj)
    next
      case (2 key s1 w s2)
      have d: "distinct (map fst (set_pair ps key w))" using that(4) by (rule set_pair_distinct)
      have el: "\<forall>p \<in> set (set_pair ps key w). json_ok (64 - d) (snd p)"
        using v [OF 2(1) that(3)] that(5) by (auto dest: set_pair_vals)
      from 2(2) show ?thesis
      proof
        assume "v = JObj (set_pair ps key w)"
        with el d that(2,3) show ?thesis by (simp add: json_ok_JObj)
      qed (use o [OF _ that(2,3) d el] in blast)
    qed
  qed
  ultimately show ?case by blast
qed simp

lemma hu_json_parse_ok: "hu_json_parse s = Ret v \<Longrightarrow> json_ok 64 v"
  using parse_ok_aux [of "2 * length s + 1"] by (fastforce simp: hu_json_parse_def outcome_simps)

section \<open>Reading back what was written\<close>

lemma hex_char_val_hex_digit: "n < 16 \<Longrightarrow> hex_char_val (hex_digit n) = Some n"
  by (auto simp: hex_char_val_def hex_digit_def cval_def)

lemma hex_char_val_0: "hex_char_val CHR ''0'' = Some 0"
  by (simp add: hex_char_val_def cval_def)

lemma unicode_escape_ctl:
  assumes "cval c < 0x20"
  shows "unicode_escape (CHR ''0'' # CHR ''0'' # hex_digit (cval c div 16) # hex_digit (cval c mod 16) # rest) =
    Ret (cval c, rest)"
proof -
  have "cval c div 16 < 16" using assms by simp
  then have "hex4 (CHR ''0'' # CHR ''0'' # hex_digit (cval c div 16) # hex_digit (cval c mod 16) # rest) =
      Some (cval c)"
    by (simp add: hex4_def hex_char_val_hex_digit hex_char_val_0)
  with assms show ?thesis by (simp add: unicode_escape_def Let_def)
qed

lemma str_loop_unicode_ctl:
  assumes "cval c < 0x20" "sb_inv b" "length (jb_data b) < 2 ^ 61"
  shows "\<exists>b'. str_escape b (CHR ''u'' # CHR ''0'' # CHR ''0'' # hex_digit (cval c div 16) # hex_digit (cval c mod 16) # rest) =
      Ret (b', c, rest) \<and> jb_data b' = jb_data b \<and> length (jb_data b') < jb_cap b' \<and> 64 \<le> jb_cap b' \<and>
      jb_cap b' \<le> 2 * length (jb_data b') + 64"
proof -
  have "utf8_split (cval c) = Some ([], c)" using assms(1) by (simp add: utf8_split_def cval_def)
  moreover have "\<exists>b'. (if length (jb_data b) + 4 > jb_cap b then double_cap b else Ret b) = Ret b' \<and>
      jb_data b' = jb_data b \<and> length (jb_data b') < jb_cap b' \<and> 64 \<le> jb_cap b' \<and>
      jb_cap b' \<le> 2 * length (jb_data b') + 64"
    using assms by (auto simp: double_cap_def SIZE_MAX_half sb_inv_def)
  ultimately show ?thesis
    using unicode_escape_ctl [OF assms(1), of rest]
    by (auto simp: str_escape_def str_unicode_def simp del: if_split)
qed

lemma str_loop_push:
  assumes "str_escape b s = Ret (b1, c, rest)" "jb_data b1 = jb_data b" "length (jb_data b1) < jb_cap b1"
    "64 \<le> jb_cap b1" "jb_cap b1 \<le> 2 * length (jb_data b1) + 64" "length (jb_data b) < 2 ^ 61"
  shows "\<exists>b'. str_loop b (BSLASH # s) = str_loop b' rest \<and> jb_data b' = jb_data b @ [c] \<and> sb_inv b'"
proof -
  from str_push_ok [OF assms(3-5), of c] assms(2,6) obtain b2 where
    b2: "str_push b1 c = Ret b2" "jb_data b2 = jb_data b1 @ [c]" "sb_inv b2" by auto
  show ?thesis by (rule exI [of _ b2]) (simp add: assms(1,2) b2)
qed

lemma esc_text_cases:
  assumes "t = esc_text c \<or> t = esc_slash_text c"
  shows "(\<exists>x. t = [BSLASH, x] \<and> str_escape b (x # rest) = Ret (b, c, rest)) \<or>
     cval c < 0x20 \<and>
       t = [BSLASH, CHR ''u'', CHR ''0'', CHR ''0'', hex_digit (cval c div 16), hex_digit (cval c mod 16)] \<or>
     t = [c] \<and> c \<noteq> DQUOTE \<and> c \<noteq> BSLASH \<and> \<not> cval c < 0x20"
proof (cases "c \<in> {DQUOTE, BSLASH, CHR 0x08, CHR 0x0C, CHR 0x0A, CHR 0x0D, CHR 0x09, CHR ''/''}")
  case True
  then show ?thesis
    using assms by (elim insertE emptyE disjE) (simp_all add: esc_text_def esc_slash_text_def str_escape_def cval_def)
next
  case False
  then have "esc_slash_text c = esc_text c" "esc_text c = (if cval c < 0x20 then
        [BSLASH, CHR ''u'', CHR ''0'', CHR ''0'', hex_digit (cval c div 16), hex_digit (cval c mod 16)]
      else [c])"
    by (simp_all add: esc_slash_text_def esc_text_def)
  with assms False show ?thesis by (simp split: if_splits)
qed

lemma str_loop_esc:
  assumes inv: "sb_inv b" and small: "length (jb_data b) < 2 ^ 61"
    and t: "t = esc_text c \<or> t = esc_slash_text c"
  shows "\<exists>b'. str_loop b (t @ rest) = str_loop b' rest \<and> jb_data b' = jb_data b @ [c] \<and> sb_inv b'"
proof -
  have i: "length (jb_data b) < jb_cap b" "64 \<le> jb_cap b" "jb_cap b \<le> 2 * length (jb_data b) + 64"
    using inv by (auto simp: sb_inv_def)
  have esc: "\<exists>b'. str_loop b (BSLASH # x # rest) = str_loop b' rest \<and> jb_data b' = jb_data b @ [c] \<and> sb_inv b'"
    if "str_escape b (x # rest) = Ret (b, c, rest)" for x
    by (rule str_loop_push [OF that refl i small])
  consider (one) x where "t = [BSLASH, x]" "str_escape b (x # rest) = Ret (b, c, rest)"
    | (uni) "cval c < 0x20"
        "t = [BSLASH, CHR ''u'', CHR ''0'', CHR ''0'', hex_digit (cval c div 16), hex_digit (cval c mod 16)]"
    | (raw) "t = [c]" "c \<noteq> DQUOTE" "c \<noteq> BSLASH" "\<not> cval c < 0x20"
    using esc_text_cases [OF t, of b rest] by blast
  then show ?thesis
  proof cases
    case one
    with esc show ?thesis by simp
  next
    case uni
    from str_loop_unicode_ctl [OF uni(1) inv small, of rest] obtain b' where
      "str_escape b (CHR ''u'' # CHR ''0'' # CHR ''0'' # hex_digit (cval c div 16) # hex_digit (cval c mod 16) # rest) =
      Ret (b', c, rest)" "jb_data b' = jb_data b" "length (jb_data b') < jb_cap b'" "64 \<le> jb_cap b'"
      "jb_cap b' \<le> 2 * length (jb_data b') + 64" by blast
    from str_loop_push [OF this small] uni(2) show ?thesis by simp
  next
    case raw
    with str_push_ok [OF i small, of c] show ?thesis by auto
  qed
qed

lemma str_loop_escaped:
  assumes "f = esc_text \<or> f = esc_slash_text"
  shows "sb_inv b \<Longrightarrow> length (jb_data b) + length s < 2 ^ 61 \<Longrightarrow>
    str_loop b (concat (map f s) @ DQUOTE # rest) = Ret (jb_data b @ s, rest)"
proof (induction s arbitrary: b)
  case Nil
  then show ?case by (simp add: poke_ok sb_inv_def)
next
  case (Cons c s)
  from Cons.prems assms obtain b' where b': "str_loop b (f c @ concat (map f s) @ DQUOTE # rest) =
      str_loop b' (concat (map f s) @ DQUOTE # rest)" "jb_data b' = jb_data b @ [c]" "sb_inv b'"
    using str_loop_esc [of b "f c" c "concat (map f s) @ DQUOTE # rest"] by auto
  with Cons.IH [OF b'(3)] Cons.prems show ?case by simp
qed

lemma parse_string_raw_quoted:
  assumes "length s < 2 ^ 61"
  shows "parse_string_raw (quoted s @ rest) = Ret (s, rest)"
    and "parse_string_raw (quoted_slash s @ rest) = Ret (s, rest)"
  using assms str_loop_escaped [of esc_text "\<lparr>jb_data = [], jb_cap = 64\<rparr>" s rest]
    str_loop_escaped [of esc_slash_text "\<lparr>jb_data = [], jb_cap = 64\<rparr>" s rest]
  by (simp_all add: parse_string_raw_def quoted_def quoted_slash_def sb_inv_def)

lemma length_esc_text: "length s \<le> length (concat (map esc_text s))"
proof (induction s)
  case (Cons c s)
  have "1 \<le> length (esc_text c)" by (auto simp: esc_text_def)
  with Cons show ?case by simp
qed simp

lemma length_quoted: "length s < length (quoted s)"
  using length_esc_text [of s] by (simp add: quoted_def)

lemma stops_cstr: "stops rest \<Longrightarrow> stops (cstr (take n rest))"
  by (cases rest; cases n) (auto simp: stops_def cstr_def)

lemma number_char_stops: "stops rest \<Longrightarrow> dropWhile number_char rest = rest"
  by (cases rest) (auto simp: stops_def num_stop_def number_char_def)

lemma parse_number_text:
  assumes "dbl_ok d" "stops rest"
  shows "parse_number (num_text d @ rest) = Ret (JNum (norm_zero d), rest)"
proof -
  let ?n = "length (num_text d)"
  have l: "?n \<le> 30" by (rule length_num_text [OF assms(1)])
  have "cstr (take 63 (num_text d @ rest)) = num_text d @ cstr (take (63 - ?n) rest)"
    using l num_text_no_nul [of d] by (auto simp: cstr_def no_nul_def takeWhile_append)
  moreover have "strtod (num_text d @ cstr (take (63 - ?n) rest)) = Some (Fin (norm_zero d), ?n)"
    by (rule num_text_reads [OF assms(1) stops_cstr [OF assms(2)]])
  ultimately show ?thesis
    using number_char_stops [OF assms(2)] by (simp add: parse_number_def)
qed

text \<open>The first character of a value's text.\<close>

lemma render_head:
  "\<exists>c t. render v = c # t \<and> \<not> is_ws c \<and> c \<noteq> CHR '']'' \<and> c \<noteq> CHR ''}'' \<and> c \<noteq> NUL"
proof (cases v)
  case (JNum d)
  with num_text_head [of d] show ?thesis
    by (auto simp: is_ws_def is_digit_def cval_def)
qed (auto simp: quoted_def is_ws_def)

lemma peek_nows: "\<not> is_ws c \<Longrightarrow> peek (c # t) = (c, c # t)"
  by (simp add: peek_def skip_ws_def cur_def)

lemma advance_nows: "\<not> is_ws c \<Longrightarrow> advance (c # t) = (c, t)"
  by (simp add: advance_def skip_ws_def cur_def)

lemma not_ws: "\<not> is_ws CHR '']''" "\<not> is_ws CHR '',''" "\<not> is_ws CHR ''}''" "\<not> is_ws CHR '':''" "\<not> is_ws DQUOTE"
  "\<not> is_ws CHR ''[''" "\<not> is_ws CHR ''{''"
  by (auto simp: is_ws_def)

lemma peek_render: "\<exists>c t. peek (render v @ rest) = (c, render v @ rest) \<and> c \<noteq> CHR '']''"
  using render_head [of v] peek_nows by fastforce

lemma stops_sep: "stops (CHR '','' # t)" "stops (CHR '']'' # t)" "stops (CHR ''}'' # t)"
  by (auto simp: stops_def num_stop_def is_digit_def cval_def)

definition reads_back :: "nat \<Rightarrow> nat \<Rightarrow> json \<Rightarrow> bool" where
  "reads_back d n v \<longleftrightarrow>
     (\<forall>k rest. stops rest \<longrightarrow> length (render v @ rest) < 2 ^ 61 \<longrightarrow> 2 * length (render v @ rest) + 1 \<le> k \<longrightarrow>
        parse_value k d (render v @ rest) = Ret (jnorm v, rest))"

lemma array_loop_reads:
  assumes "vs \<noteq> []" "\<And>v. v \<in> set vs \<Longrightarrow> reads_back d n v"
    and "s = comma_join (map render vs) @ CHR '']'' # rest" "length s < 2 ^ 61" "2 * length s + 2 \<le> k"
  shows "array_loop k d acc s = Ret (JArr (acc @ map jnorm vs), rest)"
  using assms
proof (induction vs arbitrary: acc s k)
  case (Cons v vs)
  then obtain k' where k: "k = Suc k'" by (cases k) auto
  define tail where "tail = (if vs = [] then CHR '']'' # rest
    else CHR '','' # comma_join (map render vs) @ CHR '']'' # rest)"
  have s: "s = render v @ tail"
    using Cons.prems(3) by (cases vs) (auto simp: tail_def)
  have "stops tail" by (simp add: tail_def stops_sep)
  then have pv: "parse_value k' d s = Ret (jnorm v, tail)"
    using Cons.prems(2) [of v] Cons.prems(4,5) k unfolding reads_back_def s by simp
  show ?case
  proof (cases "vs = []")
    case True
    then show ?thesis using pv by (simp add: k tail_def peek_nows not_ws)
  next
    case False
    let ?s2 = "comma_join (map render vs) @ CHR '']'' # rest"
    obtain w ws where vs: "vs = w # ws" using False by (cases vs) auto
    have "\<exists>c. peek ?s2 = (c, ?s2) \<and> c \<noteq> CHR '']''"
      using peek_render [of w] by (auto simp: vs comma_join_Cons)
    then obtain c where c: "peek ?s2 = (c, ?s2)" "c \<noteq> CHR '']''" by blast
    have "array_loop k' d (acc @ [jnorm v]) ?s2 = Ret (JArr ((acc @ [jnorm v]) @ map jnorm vs), rest)"
      using Cons.prems k s False by (intro Cons.IH) (auto simp: tail_def)
    then show ?thesis using pv c False by (simp add: k tail_def peek_nows advance_nows not_ws)
  qed
qed simp

lemma object_loop_reads:
  assumes "ps \<noteq> []" "\<And>p. p \<in> set ps \<Longrightarrow> reads_back d n (snd p)"
    and "s = comma_join (map member_text ps) @ CHR ''}'' # rest" "length s < 2 ^ 61" "2 * length s + 2 \<le> k"
    and "distinct (map fst acc @ map fst ps)"
  shows "object_loop k d acc s = Ret (JObj (acc @ map (map_prod id jnorm) ps), rest)"
  using assms
proof (induction ps arbitrary: acc s k)
  case (Cons p ps)
  then obtain k' where k: "k = Suc k'" by (cases k) auto
  obtain key v where p: "p = (key, v)" by force
  define tail where "tail = (if ps = [] then CHR ''}'' # rest
    else CHR '','' # comma_join (map member_text ps) @ CHR ''}'' # rest)"
  have "member_text p = quoted key @ CHR '':'' # render v" by (simp add: p member_text_def)
  then have s: "s = quoted key @ CHR '':'' # render v @ tail"
    using Cons.prems(3) by (cases ps) (auto simp: tail_def)
  have key: "length key < 2 ^ 61" using Cons.prems(4) length_quoted [of key] by (simp add: s)
  have "stops tail" by (simp add: tail_def stops_sep)
  then have pv: "parse_value k' d (render v @ tail) = Ret (jnorm v, tail)"
    using Cons.prems(2) [of p] Cons.prems(4,5) k unfolding reads_back_def p s by simp
  have pk: "peek s = (DQUOTE, s)" by (simp add: s quoted_def peek_nows not_ws)
  have new: "set_pair acc key (jnorm v) = acc @ [(key, jnorm v)]"
    using Cons.prems(6) by (intro set_pair_new) (auto simp: p)
  have raw: "parse_string_raw s = Ret (key, CHR '':'' # render v @ tail)"
    unfolding s by (rule parse_string_raw_quoted(1) [OF key])
  show ?case
  proof (cases "ps = []")
    case True
    then show ?thesis
      using pv by (simp add: k pk raw new advance_nows not_ws p) (simp add: tail_def peek_nows not_ws)
  next
    case False
    let ?s2 = "comma_join (map member_text ps) @ CHR ''}'' # rest"
    have "object_loop k' d (acc @ [(key, jnorm v)]) ?s2 =
        Ret (JObj ((acc @ [(key, jnorm v)]) @ map (map_prod id jnorm) ps), rest)"
      using Cons.prems k s False p by (intro Cons.IH) (auto simp: tail_def)
    then show ?thesis
      using pv False
      by (simp add: k pk raw new advance_nows not_ws p) (simp add: tail_def peek_nows advance_nows not_ws id_def)
  qed
qed simp

lemma reads_backI:
  "(\<And>k rest. stops rest \<Longrightarrow> length (render v @ rest) < 2 ^ 61 \<Longrightarrow> 2 * length (render v @ rest) \<le> k \<Longrightarrow>
      parse_value (Suc k) d (render v @ rest) = Ret (jnorm v, rest)) \<Longrightarrow> reads_back d n v"
  unfolding reads_back_def by (metis Suc_eq_plus1 Suc_le_D Suc_le_mono)

lemma plain_heads: "\<not> is_ws CHR ''n''" "\<not> is_ws CHR ''t''" "\<not> is_ws CHR ''f''" "\<not> is_digit CHR ''n''"
  "\<not> is_digit CHR ''t''" "\<not> is_digit CHR ''f''" "\<not> is_ws CHR ''-''"
  by (auto simp: is_ws_def is_digit_def cval_def)

lemma reads_back_render: "json_ok n v \<Longrightarrow> d + n \<le> 64 \<Longrightarrow> reads_back d n v"
proof (induction v arbitrary: n d)
  case JNull
  show ?case by (rule reads_backI) (simp add: peek_nows plain_heads)
next
  case (JBool x)
  show ?case by (rule reads_backI) (cases x; simp add: peek_nows plain_heads)
next
  case (JNum a)
  obtain c t where c: "num_text a = c # t" "c = CHR ''-'' \<or> is_digit c"
    using num_text_head [of a] by blast
  then have "\<not> is_ws c" "c \<noteq> DQUOTE" "c \<noteq> CHR ''{''" "c \<noteq> CHR ''[''"
    by (auto simp: is_ws_def is_digit_def cval_def)
  then show ?case
    using c parse_number_text [of a] JNum.prems
    by (intro reads_backI) (auto simp: peek_nows)
next
  case (JStr s)
  have "parse_value (Suc k) d (quoted s @ rest) = Ret (JStr s, rest)" if "length (quoted s @ rest) < 2 ^ 61" for k rest
  proof -
    have "peek (quoted s @ rest) = (DQUOTE, quoted s @ rest)" by (simp add: quoted_def peek_nows not_ws)
    moreover have "parse_string_raw (quoted s @ rest) = Ret (s, rest)"
      using that length_quoted [of s] by (intro parse_string_raw_quoted) simp
    ultimately show ?thesis by (simp add: parse_string_def)
  qed
  then show ?case by (intro reads_backI) simp
next
  case (JArr vs)
  from JArr.prems have n: "0 < n" "\<And>v. v \<in> set vs \<Longrightarrow> json_ok (n - 1) v" by (auto simp: json_ok_JArr)
  have IH: "reads_back (d + 1) (n - 1) v" if "v \<in> set vs" for v
    using JArr.IH [OF that n(2) [OF that]] JArr.prems n(1) by simp
  show ?case
  proof (rule reads_backI)
    fix k rest
    assume small: "length (render (JArr vs) @ rest) < 2 ^ 61" and k: "2 * length (render (JArr vs) @ rest) \<le> k"
    let ?t = "comma_join (map render vs) @ CHR '']'' # rest"
    have e: "render (JArr vs) @ rest = CHR ''['' # ?t" by simp
    have "parse_array (\<lambda>d vs t. array_loop k d vs t) d (CHR ''['' # ?t) = Ret (jnorm (JArr vs), rest)"
    proof (cases "vs = []")
      case True
      then show ?thesis
        using JArr.prems n by (simp add: parse_array_def JSON_MAX_DEPTH_def peek_nows not_ws Let_def)
    next
      case False
      then obtain w ws where vs: "vs = w # ws" by (cases vs) auto
      have "\<exists>c. peek ?t = (c, ?t) \<and> c \<noteq> CHR '']''"
        using peek_render [of w] by (auto simp: vs comma_join_Cons)
      moreover have "array_loop k (d + 1) [] ?t = Ret (JArr ([] @ map jnorm vs), rest)"
        using small k by (intro array_loop_reads [OF False IH]) (simp_all only: e, simp_all)
      ultimately show ?thesis
        using JArr.prems n by (auto simp: parse_array_def JSON_MAX_DEPTH_def Let_def)
    qed
    then show "parse_value (Suc k) d (render (JArr vs) @ rest) = Ret (jnorm (JArr vs), rest)"
      unfolding e by (simp add: peek_nows not_ws)
  qed
next
  case (JObj ps)
  from JObj.prems have n: "0 < n" "distinct (map fst ps)" "\<And>p. p \<in> set ps \<Longrightarrow> json_ok (n - 1) (snd p)"
    by (auto simp: json_ok_JObj)
  have IH: "reads_back (d + 1) (n - 1) (snd p)" if "p \<in> set ps" for p
    using JObj.IH [OF that, of "snd p" "n - 1" "d + 1"] n(1) n(3) [OF that] JObj.prems by (cases p) auto
  show ?case
  proof (rule reads_backI)
    fix k rest
    assume small: "length (render (JObj ps) @ rest) < 2 ^ 61" and k: "2 * length (render (JObj ps) @ rest) \<le> k"
    let ?t = "comma_join (map member_text ps) @ CHR ''}'' # rest"
    have e: "render (JObj ps) @ rest = CHR ''{'' # ?t" unfolding render_JObj by simp
    have "parse_object (\<lambda>d vs t. object_loop k d vs t) d (CHR ''{'' # ?t) = Ret (jnorm (JObj ps), rest)"
    proof (cases "ps = []")
      case True
      then show ?thesis
        using JObj.prems n by (simp add: parse_object_def JSON_MAX_DEPTH_def peek_nows not_ws Let_def)
    next
      case False
      then obtain w ws where ps: "ps = w # ws" by (cases ps) auto
      have "peek ?t = (DQUOTE, ?t)"
        by (simp add: ps comma_join_Cons member_text_def [of w] quoted_def peek_nows not_ws)
      moreover have "object_loop k (d + 1) [] ?t = Ret (JObj ([] @ map (map_prod id jnorm) ps), rest)"
        using small k n(2) by (intro object_loop_reads [OF False IH]) (simp_all only: e, simp_all)
      ultimately show ?thesis
        using JObj.prems n by (auto simp: parse_object_def JSON_MAX_DEPTH_def Let_def)
    qed
    then show "parse_value (Suc k) d (render (JObj ps) @ rest) = Ret (jnorm (JObj ps), rest)"
      unfolding e by (simp add: peek_nows not_ws)
  qed
qed

lemma hu_json_parse_render:
  assumes "json_ok 64 v" "length (render v) < 2 ^ 61"
  shows "hu_json_parse (render v) = Ret (jnorm v)"
proof -
  have "reads_back 0 64 v" using assms(1) by (intro reads_back_render) simp_all
  with assms(2) show ?thesis
    by (auto simp: reads_back_def hu_json_parse_def dest: spec [of _ "2 * length (render v) + 1"] spec [of _ "[]"])
qed


section \<open>Objects as tables\<close>

lemma get_set_pair: "get_pair (set_pair ps k v) k' = (if k' = k then Some v else get_pair ps k')"
  by (induction ps k v rule: set_pair.induct) auto

interpretation json_object: kv_table get_pair set_pair "\<lambda>_. True"
  by unfold_locales (auto simp: get_set_pair)

lemma get_pair_None: "get_pair ps k = None \<longleftrightarrow> k \<notin> fst ` set ps"
  by (induction ps k rule: get_pair.induct) auto

lemma get_pair_distinct: "distinct (map fst ps) \<Longrightarrow> get_pair ps k = Some v \<longleftrightarrow> (k, v) \<in> set ps"
  by (induction ps k rule: get_pair.induct) force+

lemma remove_pair_None: "remove_pair ps k = None \<longleftrightarrow> k \<notin> fst ` set ps"
  by (induction ps k rule: remove_pair.induct) auto

lemma remove_pair_set:
  "remove_pair ps k = Some qs \<Longrightarrow> distinct (map fst ps) \<Longrightarrow>
     distinct (map fst qs) \<and> set qs = {p \<in> set ps. fst p \<noteq> k}"
proof (induction ps k arbitrary: qs rule: remove_pair.induct)
  case (2 k' w ps k)
  show ?case
  proof (cases "k' = k")
    case True
    show ?thesis
    proof (cases ps rule: rev_cases)
      case (snoc rs r)
      with True 2 show ?thesis by (auto simp: image_iff) fastforce+
    qed (use True 2 in auto)
  next
    case False
    with 2 show ?thesis by (auto simp: image_iff)
  qed
qed simp

lemma json_object_all_ok: "json_object.put_all ps kvs = foldl (\<lambda>t (k, v). set_pair t k v) ps kvs"
  by (rule json_object.put_all_def)

section \<open>Too deep a nesting\<close>

lemma parse_value_nest:
  "depth \<le> 64 \<Longrightarrow> 65 \<le> depth + m \<Longrightarrow> 2 * m \<le> k \<Longrightarrow>
   parse_value k depth (replicate m CHR ''['' @ s) = Err HU_ERR_JSON_DEPTH"
proof (induction m arbitrary: depth k)
  case (Suc m)
  from Suc.prems obtain j where k: "k = Suc (Suc j)"
    by (metis Suc_le_D mult_Suc_right add_Suc numeral_2_eq_2 Suc_le_mono)
  have pk: "peek (CHR ''['' # t) = (CHR ''['', CHR ''['' # t)" for t
    by (rule peek_nows) (simp add: not_ws)
  show ?case
  proof (cases "depth = 64")
    case True
    then show ?thesis by (simp add: k pk parse_array_def JSON_MAX_DEPTH_def)
  next
    case False
    with Suc.prems obtain m' where m: "m = Suc m'" by (cases m) auto
    have "parse_value j (Suc depth) (replicate m CHR ''['' @ s) = Err HU_ERR_JSON_DEPTH"
      using Suc.prems False k by (intro Suc.IH) auto
    with Suc.prems False show ?thesis
      by (simp add: k pk parse_array_def JSON_MAX_DEPTH_def m Let_def)
  qed
qed simp

section \<open>Keys and values appended to a buffer\<close>

lemma hu_json_append_string_bytes:
  "hu_json_append_string b (Some s) (length s) = Ret b' \<Longrightarrow> jb_data b' = jb_data b @ quoted_slash s"
  using jsonbuf.emits_bytes [OF json_buf_append_escaped_emits [of s], of b b']
  by (simp add: hu_json_append_string_def)

lemma hu_json_append_key_bytes:
  "hu_json_append_key b (Some k) (length k) = Ret b' \<Longrightarrow> jb_data b' = jb_data b @ quoted_slash k @ '':''"
  by (auto simp: hu_json_append_key_def outcome_simps json_buf_append_eq
      dest!: hu_json_append_string_bytes buf_append_data)

lemma hu_json_append_key_value_bytes:
  "hu_json_append_key_value b (Some k) (length k) (Some v) (length v) = Ret b' \<Longrightarrow>
   jb_data b' = jb_data b @ quoted_slash k @ '':'' @ quoted_slash v"
  by (auto simp: hu_json_append_key_value_def outcome_simps
      dest!: hu_json_append_key_bytes hu_json_append_string_bytes)

lemma peek_quoted: "peek (quoted_slash s @ t) = (DQUOTE, quoted_slash s @ t)"
  by (simp add: quoted_slash_def peek_nows not_ws)

lemma parse_member_text:
  assumes "length k < 2 ^ 61" "length v < 2 ^ 61"
  shows "parse_value (Suc (Suc (Suc n))) 0 (''{'' @ quoted_slash k @ '':'' @ quoted_slash v @ ''}'') =
    Ret (JObj [(k, JStr v)], [])"
proof -
  let ?t = "quoted_slash v @ ''}''"
  let ?s = "quoted_slash k @ CHR '':'' # ?t"
  have pv: "parse_value (Suc n) d ?t = Ret (JStr v, ''}'')" for d
    using parse_string_raw_quoted(2) [OF assms(2)] by (simp add: peek_quoted parse_string_def)
  have raw: "parse_string_raw ?s = Ret (k, CHR '':'' # ?t)" by (rule parse_string_raw_quoted(2) [OF assms(1)])
  have "object_loop (Suc (Suc n)) (Suc 0) [] ?s = Ret (JObj [(k, JStr v)], [])"
    using pv by (simp add: peek_quoted raw advance_nows peek_nows not_ws del: parse_value.simps)
  then have "parse_object (\<lambda>d ps t. object_loop (Suc (Suc n)) d ps t) 0 (CHR ''{'' # ?s) = Ret (JObj [(k, JStr v)], [])"
    by (simp add: parse_object_def JSON_MAX_DEPTH_def peek_quoted Let_def del: object_loop.simps)
  then show ?thesis
    by (simp add: peek_nows not_ws del: object_loop.simps)
qed

section \<open>Properties\<close>

text \<open>C8: a JSON value that was written reads back as itself, up to the sign of a zero: for every
  value nested at most 64 deep whose objects have distinct keys, whose text is shorter than
  \<open>2 ^ 61\<close> bytes and whose numbers are finite doubles from \<open>- (2 ^ 63)\<close> to below \<open>2 ^ 63\<close>, whatever
  bytes its strings hold, stringifying succeeds and parsing the text gives the value back.  (A
  number outside this range makes stringifying undefined.)\<close>

theorem json_roundtrip:
  assumes "json_ok 64 v" "json_fits v" "length (render v) < 2 ^ 61"
  shows "\<exists>t. hu_json_stringify v = Ret t \<and> hu_json_parse t = Ret (jnorm v)"
  using hu_json_stringify_render(2) [OF assms(1,2)] hu_json_parse_render [OF assms(1,3)] assms(3) by auto

definition sample_json :: json where
  "sample_json = JObj [(''name'', JStr [CHR ''a'', DQUOTE, CHR 0x01, BSLASH]),
     (''args'', JArr [JNum (Dbl True 5629499534213120 (-50)), JBool True, JNull, JObj []])]"

lemma json_roundtrip_witness:
  "\<exists>t. hu_json_stringify sample_json = Ret t \<and> hu_json_parse t = Ret sample_json"
proof -
  have "json_ok 64 sample_json"
    by (simp add: sample_json_def json_ok_JObj json_ok_JArr dbl_ok_def)
  moreover have "json_fits sample_json"
    by (simp add: sample_json_def dbl_fits_llong_def dbl_trunc_def dbl_trunc_abs_def)
  moreover have "length (render sample_json) < 2 ^ 61"
    by (simp add: sample_json_def quoted_def esc_text_def cval_def num_text_def int_str_def dbl_small_int_def
        dbl_integral_def dbl_trunc_def dbl_trunc_abs_def nat_str.simps)
  moreover have "jnorm sample_json = sample_json" by (simp add: sample_json_def norm_zero_def)
  ultimately show ?thesis using json_roundtrip [of sample_json] by simp
qed

text \<open>A number of \<open>2 ^ 63\<close> or more that was parsed cannot be written: it is cast before its size is asked.\<close>

lemma json_large_number_undefined:
  assumes "dbl_ok d" "\<not> dbl_fits_llong d"
  shows "hu_json_parse (num_text d) = Ret (JNum d) \<and> hu_json_stringify (JNum d) = Undef BadCast"
proof -
  have "dman d \<noteq> 0"
  proof
    assume "dman d = 0"
    then have "dbl_trunc d = 0" by (simp add: dbl_trunc_def dbl_trunc_abs_def)
    then show False using assms(2) by (simp add: dbl_fits_llong_def)
  qed
  then have "hu_json_parse (render (JNum d)) = Ret (JNum d)"
    using hu_json_parse_render [of "JNum d"] assms(1) length_num_text [of d] by (simp add: norm_zero_def)
  then show ?thesis using assms(2) by (simp add: hu_json_stringify_def stringify_number_def)
qed

text \<open>C34: parsing any text ends: it gives a value that is nested at most 64 deep, has canonical
  numbers and no duplicate key, or the parse or depth error.  No write leaves the string buffer,
  and the recursion budget is enough.\<close>

theorem json_parse_total:
  assumes "length s < 2 ^ 61"
  shows "(\<exists>v. hu_json_parse s = Ret v \<and> json_ok 64 v) \<or>
    hu_json_parse s = Err HU_ERR_JSON_PARSE \<or> hu_json_parse s = Err HU_ERR_JSON_DEPTH"
proof -
  have "shorter (length s) (parse_value (2 * length s + 1) 0 s)"
    using assms by (intro parse_value_total) simp_all
  then show ?thesis
    using hu_json_parse_ok [of s] by (auto simp: shorter_def parse_fails_def hu_json_parse_def)
qed

lemma json_parse_total_witness:
  "hu_json_parse ''[1,]'' = Ret (JArr [JNum (Dbl False 4503599627370496 (-52))]) \<or>
   (\<exists>v. hu_json_parse ''[1,]'' = Ret v \<and> json_ok 64 v) \<or>
   hu_json_parse ''[1,]'' = Err HU_ERR_JSON_PARSE \<or> hu_json_parse ''[1,]'' = Err HU_ERR_JSON_DEPTH"
  using json_parse_total [of "''[1,]''"] by simp

text \<open>More than 64 opening brackets are refused with the depth error, whatever follows.\<close>

theorem json_depth_refused:
  assumes "65 \<le> m"
  shows "hu_json_parse (replicate m CHR ''['' @ s) = Err HU_ERR_JSON_DEPTH"
  using parse_value_nest [of 0 m "2 * length (replicate m CHR ''['' @ s) + 1" s] assms
  by (simp add: hu_json_parse_def del: parse_value.simps)

lemma json_depth_refused_witness:
  "hu_json_parse (replicate 65 CHR ''['' @ ''1'') = Err HU_ERR_JSON_DEPTH"
  by (rule json_depth_refused) simp

text \<open>A key and a value appended to a JSON buffer between braces read back as an object with
  exactly that member, whatever bytes they hold: no byte of either ends its string early.\<close>

theorem json_append_key_value_reads:
  assumes "hu_json_append_key_value \<lparr>jb_data = ''{'', jb_cap = c\<rparr> (Some k) (length k) (Some v) (length v) = Ret b"
    and "json_buf_append b ''}'' = Ret b'" "length k < 2 ^ 61" "length v < 2 ^ 61"
  shows "hu_json_parse (jb_data b') = Ret (JObj [(k, JStr v)])"
proof -
  have "jb_data b' = ''{'' @ quoted_slash k @ '':'' @ quoted_slash v @ ''}''"
    using hu_json_append_key_value_bytes [OF assms(1)] assms(2) by (simp add: json_buf_append_eq buf_append_data)
  moreover have "\<exists>n. 2 * length (''{'' @ quoted_slash k @ '':'' @ quoted_slash v @ ''}'') + 1 = Suc (Suc (Suc n))"
    by (simp add: quoted_slash_def)
  ultimately show ?thesis
    using parse_member_text [OF assms(3,4)] by (auto simp: hu_json_parse_def simp del: parse_value.simps)
qed

lemma json_append_key_value_reads_witness:
  "hu_json_parse [CHR ''{'', DQUOTE, CHR ''a'', BSLASH, CHR ''/'', DQUOTE, CHR '':'', DQUOTE, BSLASH, DQUOTE, DQUOTE, CHR ''}''] =
     Ret (JObj [(''a/'', JStr [DQUOTE])])"
proof -
  have "hu_json_append_key_value \<lparr>jb_data = ''{'', jb_cap = 256\<rparr> (Some ''a/'') (length ''a/'') (Some [DQUOTE]) (length [DQUOTE]) =
    Ret \<lparr>jb_data = [CHR ''{'', DQUOTE, CHR ''a'', BSLASH, CHR ''/'', DQUOTE, CHR '':'', DQUOTE, BSLASH, DQUOTE, DQUOTE], jb_cap = 256\<rparr>"
    by (simp add: hu_json_append_key_value_def hu_json_append_key_def hu_json_append_string_def
        json_buf_append_escaped_def json_buf_append_def grow_cap.simps esc_slash_text_def esc_text_def
        SIZE_MAX_def cval_def)
  from json_append_key_value_reads [OF this, of "\<lparr>jb_data = [CHR ''{'', DQUOTE, CHR ''a'', BSLASH, CHR ''/'', DQUOTE,
      CHR '':'', DQUOTE, BSLASH, DQUOTE, DQUOTE, CHR ''}''], jb_cap = 256\<rparr>"]
  show ?thesis by (simp add: json_buf_append_def grow_cap.simps SIZE_MAX_def)
qed

text \<open>An object with distinct keys is a map: a set key is found with its last value, the other
  keys keep theirs, removal takes exactly its key away, and both keep the keys distinct.\<close>

theorem json_object_map_laws:
  assumes "distinct (map fst ps)"
  shows "\<exists>qs. hu_json_object_set (JObj ps) k v = Ret (JObj qs) \<and> distinct (map fst qs) \<and>
      (\<forall>k'. hu_json_object_get (JObj qs) k' = (if k' = k then Some v else hu_json_object_get (JObj ps) k')) \<and>
      (\<exists>rs. fst (hu_json_object_remove (JObj ps) k) = JObj rs \<and> distinct (map fst rs) \<and>
        snd (hu_json_object_remove (JObj ps) k) = (hu_json_object_get (JObj ps) k \<noteq> None) \<and>
        (\<forall>k'. hu_json_object_get (JObj rs) k' = (if k' = k then None else hu_json_object_get (JObj ps) k')))"
proof -
  obtain rs where rs: "fst (hu_json_object_remove (JObj ps) k) = JObj rs" "distinct (map fst rs)"
    "set rs = {p \<in> set ps. fst p \<noteq> k}"
  proof (cases "remove_pair ps k")
    case None
    then have "k \<notin> fst ` set ps" by (simp add: remove_pair_None)
    then have "set ps = {p \<in> set ps. fst p \<noteq> k}" by auto
    with None assms that show ?thesis by (simp add: hu_json_object_remove_def)
  next
    case (Some qs)
    with remove_pair_set [OF Some assms] that show ?thesis by (simp add: hu_json_object_remove_def)
  qed
  have "get_pair rs k' = (if k' = k then None else get_pair ps k')" for k'
  proof (cases "get_pair rs k'")
    case None
    then have "k' \<noteq> k \<Longrightarrow> k' \<notin> fst ` set ps" using rs(3) by (auto simp: get_pair_None)
    with None show ?thesis using get_pair_None [of ps k'] by auto
  next
    case (Some w)
    then have "(k', w) \<in> set ps" "k' \<noteq> k" using get_pair_distinct [OF rs(2)] rs(3) by auto
    with Some show ?thesis using get_pair_distinct [OF assms, of k' w] by simp
  qed
  moreover have "snd (hu_json_object_remove (JObj ps) k) = (hu_json_object_get (JObj ps) k \<noteq> None)"
    using remove_pair_None [of ps k] get_pair_None [of ps k]
    by (auto simp: hu_json_object_remove_def hu_json_object_get_def split: option.split)
  ultimately show ?thesis
    using rs json_object.lookup_put [of ps k v] set_pair_distinct [OF assms, of k v]
    by (auto simp: hu_json_object_set_def hu_json_object_get_def)
qed

lemma json_object_map_laws_witness:
  "\<exists>qs. hu_json_object_set (JObj [(''a'', JNull), (''b'', JBool True)]) ''b'' (JStr ''x'') = Ret (JObj qs) \<and>
     hu_json_object_get (JObj qs) ''b'' = Some (JStr ''x'')"
proof -
  have "distinct (map fst [(''a'', JNull), (''b'', JBool True)])" by simp
  from json_object_map_laws [OF this, of "''b''" "JStr ''x''"] show ?thesis by (metis (full_types))
qed

declare parse_value.simps [simp del] array_loop.simps [simp del] object_loop.simps [simp del]

end
