(* ===== verification/HuPolicy.thy ===== *)
theory HuPolicy
  imports HuJson
begin

text \<open>
  \<^verbatim>\<open>src/security/policy.c\<close>: which shell commands and tools the agent may run, how risky they are,
  and how many actions an hour it may take.

  A policy is the fields of \<^verbatim>\<open>hu_security_policy_t\<close> the code reads.  The command lists that
  \<^verbatim>\<open>hu_policy_data_init\<close> may replace at run time are the record \<open>policy_data\<close>; an entry of a
  list is an option because the loader leaves NULL where the file holds no string.  The pointer
  walk over the normalised command is a recursion on the text that is left, and
  \<open>next_segment\<close> is its common first part: blanks and NULs are skipped, the segment ends at
  the next NUL.  The fixed buffers (128, 256 and 16385 bytes) are the \<open>take\<close>s of the code.
  The clock of the rate tracker is an argument, one reading per call of \<^verbatim>\<open>time\<close>.
\<close>

section \<open>Levels and lists\<close>

datatype autonomy =
    HU_AUTONOMY_LOCKED
  | HU_AUTONOMY_SUPERVISED
  | HU_AUTONOMY_ASSISTED
  | HU_AUTONOMY_AUTONOMOUS

datatype risk = HU_RISK_LOW | HU_RISK_MEDIUM | HU_RISK_HIGH

text \<open>\<open>None\<close> is the NULL tool name.\<close>

definition hu_tool_risk_level :: "string option \<Rightarrow> risk" where
  "hu_tool_risk_level tool_name =
     (case tool_name of
        None \<Rightarrow> HU_RISK_HIGH
      | Some n \<Rightarrow>
          if n = ''shell'' \<or> n = ''spawn'' then HU_RISK_HIGH
          else if n = ''file_write'' \<or> n = ''file_edit'' then HU_RISK_HIGH
          else if n = ''http_request'' then HU_RISK_MEDIUM
          else if n = ''browser_open'' then HU_RISK_MEDIUM
          else if n = ''file_read'' \<or> n = ''memory_recall'' then HU_RISK_LOW
          else HU_RISK_MEDIUM)"

definition DEFAULT_HIGH_RISK_COMMANDS :: "string option list" where
  "DEFAULT_HIGH_RISK_COMMANDS = map Some
     [''rm'', ''mkfs'', ''dd'', ''shutdown'', ''reboot'', ''halt'', ''poweroff'', ''sudo'',
      ''su'', ''chown'', ''chmod'', ''useradd'', ''userdel'', ''usermod'', ''passwd'', ''mount'',
      ''umount'', ''iptables'', ''ufw'', ''firewall-cmd'', ''curl'', ''wget'', ''nc'', ''ncat'',
      ''netcat'', ''scp'', ''ssh'', ''ftp'', ''telnet'']"

definition DEFAULT_ALLOWED :: "string option list" where
  "DEFAULT_ALLOWED = map Some
     [''git'', ''npm'', ''cargo'', ''ls'', ''cat'', ''grep'',
      ''find'', ''echo'', ''pwd'', ''wc'', ''head'', ''tail'']"

record policy_data =
  s_high_risk_commands :: "string option list"
  s_default_allowed :: "string option list"

definition policy_data_defaults :: policy_data where
  "policy_data_defaults =
     \<lparr>s_high_risk_commands = DEFAULT_HIGH_RISK_COMMANDS, s_default_allowed = DEFAULT_ALLOWED\<rparr>"

definition load_command_list :: "json \<Rightarrow> string \<Rightarrow> string option list option" where
  "load_command_list obj key =
     (case hu_json_object_get obj key of
        Some (JArr items) \<Rightarrow>
          if items = [] then None
          else Some (map (\<lambda>it. case it of JStr s \<Rightarrow> Some (hu_strndup s (length s)) | _ \<Rightarrow> None) items)
      | _ \<Rightarrow> None)"

text \<open>
  \<open>loaded\<close> is what \<^verbatim>\<open>hu_data_load\<close> gives for \<^verbatim>\<open>security/command_lists.json\<close>; every failure
  keeps the lists and answers HU_OK.
\<close>

definition hu_policy_data_init :: "string outcome \<Rightarrow> policy_data \<Rightarrow> policy_data" where
  "hu_policy_data_init loaded pd =
     (case loaded of
        Ret text \<Rightarrow>
          (case hu_json_parse text of
             Ret v \<Rightarrow>
               let pd1 = (case load_command_list v ''high_risk'' of
                            Some cmds \<Rightarrow> pd\<lparr>s_high_risk_commands := cmds\<rparr> | None \<Rightarrow> pd)
               in (case load_command_list v ''default_allowed'' of
                     Some cmds \<Rightarrow> pd1\<lparr>s_default_allowed := cmds\<rparr> | None \<Rightarrow> pd1)
           | _ \<Rightarrow> pd)
      | _ \<Rightarrow> pd)"

definition hu_policy_data_cleanup :: "policy_data \<Rightarrow> policy_data" where
  "hu_policy_data_cleanup pd =
     pd\<lparr>s_high_risk_commands := DEFAULT_HIGH_RISK_COMMANDS, s_default_allowed := DEFAULT_ALLOWED\<rparr>"

section \<open>Rate tracker\<close>

record rate_tracker =
  rt_timestamps :: "int list"
  rt_cap :: nat
  rt_max_actions :: nat
  rt_window_secs :: int

definition hu_rate_tracker_create :: "nat \<Rightarrow> rate_tracker" where
  "hu_rate_tracker_create max_actions =
     \<lparr>rt_timestamps = [], rt_cap = (if max_actions > 128 then max_actions else 128),
      rt_max_actions = max_actions, rt_window_secs = 3600\<rparr>"

definition prune_timestamps :: "int \<Rightarrow> rate_tracker \<Rightarrow> rate_tracker" where
  "prune_timestamps now t =
     t\<lparr>rt_timestamps := filter (\<lambda>x. x > now - rt_window_secs t) (rt_timestamps t)\<rparr>"

definition HU_RATE_TRACKER_CAP_MAX :: nat where
  "HU_RATE_TRACKER_CAP_MAX = 4096"

text \<open>\<open>now1\<close> is the clock read by the pruning, \<open>now2\<close> the one stored.\<close>

definition hu_rate_tracker_record_action :: "int \<Rightarrow> int \<Rightarrow> rate_tracker \<Rightarrow> rate_tracker \<times> bool" where
  "hu_rate_tracker_record_action now1 now2 t =
     (let t = prune_timestamps now1 t in
      if length (rt_timestamps t) \<ge> rt_cap t \<and> rt_cap t \<ge> HU_RATE_TRACKER_CAP_MAX then (t, False)
      else
        let t = (if length (rt_timestamps t) \<ge> rt_cap t
                 then t\<lparr>rt_cap := min (rt_cap t * 2) HU_RATE_TRACKER_CAP_MAX\<rparr> else t);
            t = t\<lparr>rt_timestamps := rt_timestamps t @ [now2]\<rparr>
        in (t, length (rt_timestamps t) \<le> rt_max_actions t))"

definition hu_rate_tracker_is_limited :: "int \<Rightarrow> rate_tracker \<Rightarrow> rate_tracker \<times> bool" where
  "hu_rate_tracker_is_limited now t =
     (let t = prune_timestamps now t in (t, length (rt_timestamps t) \<ge> rt_max_actions t))"

definition hu_rate_tracker_count :: "int \<Rightarrow> rate_tracker \<Rightarrow> rate_tracker \<times> nat" where
  "hu_rate_tracker_count now t = (let t = prune_timestamps now t in (t, length (rt_timestamps t)))"

definition hu_rate_tracker_remaining :: "int \<Rightarrow> rate_tracker \<Rightarrow> rate_tracker \<times> nat" where
  "hu_rate_tracker_remaining now t =
     (let t = prune_timestamps now t in
      (t, if length (rt_timestamps t) \<ge> rt_max_actions t then 0
          else rt_max_actions t - length (rt_timestamps t)))"

section \<open>Looking at a command\<close>

definition basename :: "string \<Rightarrow> string" where
  "basename path = rev (takeWhile (\<lambda>c. c \<noteq> CHR ''/'') (rev path))"

definition is_high_risk_command :: "policy_data \<Rightarrow> string \<Rightarrow> bool" where
  "is_high_risk_command pd base \<longleftrightarrow>
     list_ex (\<lambda>e. case e of None \<Rightarrow> False | Some c \<Rightarrow> c_strcaseeq base c) (s_high_risk_commands pd)"

definition is_medium_risk_cmd :: "string \<Rightarrow> string option \<Rightarrow> bool" where
  "is_medium_risk_cmd base first_arg =
     (let arg_lower = (case first_arg of
            None \<Rightarrow> []
          | Some a \<Rightarrow> map to_lower (take 255 (takeWhile (\<lambda>c. c \<noteq> CHR '' '') a)))
      in base = ''git'' \<and> arg_lower \<in> set [''commit'', ''push'', ''reset'', ''clean'', ''rebase'', ''merge'',
             ''cherry-pick'', ''revert'', ''branch'', ''checkout'', ''switch'', ''tag''] \<or>
         (base = ''npm'' \<or> base = ''pnpm'' \<or> base = ''yarn'') \<and>
           arg_lower \<in> set [''install'', ''add'', ''remove'', ''uninstall'', ''update'', ''publish''] \<or>
         base = ''cargo'' \<and> arg_lower \<in> set [''add'', ''remove'', ''install'', ''clean'', ''publish''] \<or>
         base = ''touch'' \<or> base = ''mkdir'' \<or> base = ''mv'' \<or> base = ''cp'' \<or> base = ''ln'')"

definition is_blank :: "char \<Rightarrow> bool" where
  "is_blank c \<longleftrightarrow> c = CHR '' '' \<or> c = CHR 0x09"

text \<open>
  Leading blanks and \<^verbatim>\<open>KEY=value\<close> words are skipped.  \<^verbatim>\<open>eq\<close> is the first \<^verbatim>\<open>=\<close> of the whole
  rest; it lies in the word, and not at its start, exactly if the word holds one and does not
  begin with it.
\<close>

definition is_assignment :: "string \<Rightarrow> bool" where
  "is_assignment word \<longleftrightarrow>
     CHR ''='' \<in> set word \<and> hd word \<noteq> CHR ''='' \<and> (is_alpha (hd word) \<or> hd word = CHR ''_'')"

function skip_env_assignments :: "string \<Rightarrow> string" where
  "skip_env_assignments s =
     (let s1 = dropWhile is_blank s;
          word = takeWhile (\<lambda>c. \<not> is_blank c) s1
      in if s1 = [] then []
         else if is_assignment word then skip_env_assignments (dropWhile (\<lambda>c. \<not> is_blank c) s1)
         else s1)"
  by pat_completeness auto
termination
proof (relation "measure length")
  fix s s1 word :: string
  assume "s1 = dropWhile is_blank s" "s1 \<noteq> []"
  then have "\<not> is_blank (hd s1)" "length s1 \<le> length s"
    using hd_dropWhile [of is_blank s] length_dropWhile_le by auto
  then show "(dropWhile (\<lambda>c. \<not> is_blank c) s1, s) \<in> measure length"
    using \<open>s1 \<noteq> []\<close> length_dropWhile_le [of "\<lambda>c. \<not> is_blank c" "tl s1"] by (cases s1) auto
qed simp

declare skip_env_assignments.simps [simp del]

text \<open>\<open>prev\<close>: the character before is an ampersand.\<close>

fun single_ampersand :: "bool \<Rightarrow> string \<Rightarrow> bool" where
  "single_ampersand prev [] = False"
| "single_ampersand prev (c # s) =
     (if c \<noteq> CHR ''&'' then single_ampersand False s
      else if \<not> prev \<and> \<not> starts_with ''&'' s then True
      else single_ampersand True s)"

definition contains_single_ampersand :: "string \<Rightarrow> bool" where
  "contains_single_ampersand s = single_ampersand False s"

definition is_args_safe :: "string \<Rightarrow> string \<Rightarrow> bool" where
  "is_args_safe base full_cmd =
     (if c_strcaseeq base ''find'' \<and> (c_contains full_cmd ''-exec'' \<or> c_contains full_cmd ''-ok'') then False
      else if c_strcaseeq base ''git'' \<and>
        (c_contains full_cmd '' config'' \<or> c_contains full_cmd '' alias'' \<or> c_contains full_cmd '' -c '') then False
      else True)"

definition HU_MAX_ANALYSIS_LEN :: nat where
  "HU_MAX_ANALYSIS_LEN = 16384"

text \<open>The loop that blanks out \<^verbatim>\<open>&&\<close> and \<^verbatim>\<open>||\<close>, then the one for newline, semicolon and bar.\<close>

fun blank_pairs :: "string \<Rightarrow> string" where
  "blank_pairs (a # b # s) =
     (if a = CHR ''&'' \<and> b = CHR ''&'' then NUL # NUL # blank_pairs s
      else if a = CHR ''|'' \<and> b = CHR ''|'' then NUL # NUL # blank_pairs s
      else a # blank_pairs (b # s))"
| "blank_pairs s = s"

definition normalize_command :: "string \<Rightarrow> string" where
  "normalize_command cmd =
     map (\<lambda>c. if c = CHR 0x0A \<or> c = CHR '';'' \<or> c = CHR ''|'' then NUL else c)
       (blank_pairs (take HU_MAX_ANALYSIS_LEN cmd))"

lemma drop1_dropWhile_shorter: "s \<noteq> [] \<Longrightarrow> length (drop 1 (dropWhile P s)) < length s"
  using length_dropWhile_le [of P s] by (simp add: less_eq_Suc_le) (cases s, auto)

text \<open>The segment at or after \<^verbatim>\<open>seg\<close>, and the text after \<^verbatim>\<open>seg_end + 1\<close>.\<close>

definition next_segment :: "string \<Rightarrow> (string \<times> string) option" where
  "next_segment s =
     (let s1 = dropWhile (\<lambda>c. c = NUL \<or> is_blank c) s in
      if s1 = [] then None else Some (cstr s1, drop 1 (dropWhile (\<lambda>c. c \<noteq> NUL) s1)))"

lemma next_segment_shorter: "next_segment s = Some (seg, rest) \<Longrightarrow> length rest < length s"
proof -
  assume a: "next_segment s = Some (seg, rest)"
  let ?s1 = "dropWhile (\<lambda>c. c = NUL \<or> is_blank c) s"
  have "?s1 \<noteq> []" "rest = drop 1 (dropWhile (\<lambda>c. c \<noteq> NUL) ?s1)"
    using a by (auto simp: next_segment_def Let_def split: if_splits)
  then have "length rest < length ?s1" using drop1_dropWhile_shorter by blast
  then show ?thesis using length_dropWhile_le less_le_trans by blast
qed

text \<open>\<^verbatim>\<open>base_name\<close>: the first word, cut to the 128-byte buffer, without its directories.\<close>

definition command_base :: "string \<Rightarrow> string" where
  "command_base cmd_part = basename (take 127 (takeWhile (\<lambda>c. c \<noteq> CHR '' '') cmd_part))"

definition first_arg :: "string \<Rightarrow> string option" where
  "first_arg cmd_part =
     (case c_strchr cmd_part CHR '' '' of
        None \<Rightarrow> None
      | Some sp \<Rightarrow> Some (dropWhile (\<lambda>c. c = CHR '' '') (drop 1 sp)))"

definition segment_high_risk :: "policy_data \<Rightarrow> string \<Rightarrow> bool" where
  "segment_high_risk pd seg =
     (let cmd_part = skip_env_assignments seg in
      is_high_risk_command pd (map to_lower (command_base cmd_part)) \<or>
      c_contains cmd_part ''rm -rf /'' \<or> c_contains cmd_part ''rm -fr /'')"

function risk_loop :: "policy_data \<Rightarrow> string \<Rightarrow> bool \<Rightarrow> risk" where
  "risk_loop pd s saw_medium =
     (case next_segment s of
        None \<Rightarrow> if saw_medium then HU_RISK_MEDIUM else HU_RISK_LOW
      | Some (seg, rest) \<Rightarrow>
          if segment_high_risk pd seg then HU_RISK_HIGH
          else let cmd_part = skip_env_assignments seg in
               risk_loop pd rest
                 (saw_medium \<or> is_medium_risk_cmd (map to_lower (command_base cmd_part)) (first_arg cmd_part)))"
  by pat_completeness auto
termination
  by (relation "measure (\<lambda>(pd, s, m). length s)") (auto dest: next_segment_shorter)

declare risk_loop.simps [simp del]

definition hu_policy_command_risk_level :: "policy_data \<Rightarrow> string \<Rightarrow> risk" where
  "hu_policy_command_risk_level pd command =
     (if length command > HU_MAX_ANALYSIS_LEN then HU_RISK_HIGH
      else risk_loop pd (normalize_command command) False)"

section \<open>The policy\<close>

text \<open>An empty list stands for the NULL one too; the code treats them alike.\<close>

record hu_security_policy =
  sp_autonomy :: autonomy
  sp_allowed_commands :: "string option list"
  sp_require_approval_for_medium_risk :: bool
  sp_block_high_risk_commands :: bool
  sp_tracker :: "rate_tracker option"
  sp_pre_approved :: bool
  sp_hula_capability_allowlist :: "string option"

definition in_allow_list :: "string option list \<Rightarrow> string \<Rightarrow> bool" where
  "in_allow_list allowed base \<longleftrightarrow>
     list_ex (\<lambda>e. case e of None \<Rightarrow> False | Some a \<Rightarrow> a = ''*'' \<or> c_strcaseeq a base) allowed"

text \<open>
  The loop over the segments: \<open>has_cmd\<close> is its flag, the answer is the function's.
\<close>

function allowed_loop :: "string option list \<Rightarrow> string \<Rightarrow> bool \<Rightarrow> bool" where
  "allowed_loop allowed s has_cmd =
     (case next_segment s of
        None \<Rightarrow> has_cmd
      | Some (seg, rest) \<Rightarrow>
          let cmd_part = skip_env_assignments seg in
          if cmd_part \<noteq> seg then False
          else if takeWhile (\<lambda>c. c \<noteq> CHR '' '') cmd_part = [] then allowed_loop allowed rest has_cmd
          else let base_name = command_base cmd_part in
               if base_name = [] then allowed_loop allowed rest has_cmd
               else if \<not> in_allow_list allowed base_name then False
               else if \<not> is_args_safe base_name cmd_part then False
               else allowed_loop allowed rest True)"
  by pat_completeness auto
termination
  by (relation "measure (\<lambda>(a, s, h). length s)") (auto dest: next_segment_shorter)

declare allowed_loop.simps [simp del]

definition blocks_tee :: "string \<Rightarrow> bool" where
  "blocks_tee command \<longleftrightarrow>
     c_contains command '' tee '' \<or> c_contains command ''|tee'' \<or> c_contains command ''tee|'' \<or>
     starts_with ''tee '' command \<or> (length command \<ge> 4 \<and> command = ''tee'')"

text \<open>Command, process and parameter substitution.\<close>

definition has_substitution :: "string \<Rightarrow> bool" where
  "has_substitution command \<longleftrightarrow>
     c_contains command ''`'' \<or> c_contains command ''$('' \<or> c_contains command ''${'' \<or>
     c_contains command ''<('' \<or> c_contains command ''>(''"

definition hu_policy_is_command_allowed :: "policy_data \<Rightarrow> hu_security_policy \<Rightarrow> string \<Rightarrow> bool" where
  "hu_policy_is_command_allowed pd policy command =
     (if sp_autonomy policy = HU_AUTONOMY_LOCKED then False
      else if length command > HU_MAX_ANALYSIS_LEN then False
      else if has_substitution command then False
      else if blocks_tee command then False
      else if contains_single_ampersand command then False
      else if CHR ''>'' \<in> set command then False
      else if CHR ''|'' \<in> set command then False
      else
        let allowed = (if sp_allowed_commands policy = [] then s_default_allowed pd
                       else sp_allowed_commands policy)
        in allowed_loop allowed (normalize_command command) False)"

definition hu_policy_validate_command ::
    "policy_data \<Rightarrow> hu_security_policy \<Rightarrow> string \<Rightarrow> bool \<Rightarrow> risk outcome" where
  "hu_policy_validate_command pd policy command approved =
     (if \<not> hu_policy_is_command_allowed pd policy command then Err HU_ERR_SECURITY_COMMAND_NOT_ALLOWED
      else
        let risk = hu_policy_command_risk_level pd command in
        if risk = HU_RISK_HIGH \<and> sp_block_high_risk_commands policy then Err HU_ERR_SECURITY_HIGH_RISK_BLOCKED
        else if risk = HU_RISK_HIGH \<and> sp_autonomy policy = HU_AUTONOMY_SUPERVISED \<and> \<not> approved
        then Err HU_ERR_SECURITY_APPROVAL_REQUIRED
        else if risk = HU_RISK_MEDIUM \<and> sp_autonomy policy = HU_AUTONOMY_SUPERVISED \<and>
          sp_require_approval_for_medium_risk policy \<and> \<not> approved
        then Err HU_ERR_SECURITY_APPROVAL_REQUIRED
        else Ret risk)"

text \<open>\<open>None\<close> is the NULL policy.\<close>

definition hu_policy_can_act :: "hu_security_policy option \<Rightarrow> bool" where
  "hu_policy_can_act policy =
     (case policy of None \<Rightarrow> False | Some p \<Rightarrow> sp_autonomy p \<noteq> HU_AUTONOMY_LOCKED)"

definition hu_policy_record_action ::
    "int \<Rightarrow> int \<Rightarrow> hu_security_policy option \<Rightarrow> hu_security_policy option \<times> bool" where
  "hu_policy_record_action now1 now2 policy =
     (case policy of
        None \<Rightarrow> (None, True)
      | Some p \<Rightarrow>
          (case sp_tracker p of
             None \<Rightarrow> (Some p, True)
           | Some t \<Rightarrow> let (t', b) = hu_rate_tracker_record_action now1 now2 t in (Some (p\<lparr>sp_tracker := Some t'\<rparr>), b)))"

definition hu_policy_is_rate_limited ::
    "int \<Rightarrow> hu_security_policy option \<Rightarrow> hu_security_policy option \<times> bool" where
  "hu_policy_is_rate_limited now policy =
     (case policy of
        None \<Rightarrow> (None, False)
      | Some p \<Rightarrow>
          (case sp_tracker p of
             None \<Rightarrow> (Some p, False)
           | Some t \<Rightarrow> let (t', b) = hu_rate_tracker_is_limited now t in (Some (p\<lparr>sp_tracker := Some t'\<rparr>), b)))"

section \<open>Capabilities\<close>

definition trim_right :: "string \<Rightarrow> string" where
  "trim_right s = rev (dropWhile is_blank (rev s))"

function capability_loop :: "string \<Rightarrow> string \<Rightarrow> bool" where
  "capability_loop p cap =
     (let p1 = dropWhile is_blank p;
          tok = takeWhile (\<lambda>c. c \<noteq> CHR '','') p1
      in if p1 = [] then False
         else if trim_right tok = cap then True
         else capability_loop (drop 1 (dropWhile (\<lambda>c. c \<noteq> CHR '','') p1)) cap)"
  by pat_completeness auto
termination
proof (relation "measure (\<lambda>(p, cap). length p)")
  fix p p1 tok cap :: string
  assume a: "p1 = dropWhile is_blank p" "p1 \<noteq> []"
  have "length (drop 1 (dropWhile (\<lambda>c. c \<noteq> CHR '','') p1)) < length p1"
    using a(2) by (rule drop1_dropWhile_shorter)
  then show "((drop 1 (dropWhile (\<lambda>c. c \<noteq> CHR '','') p1), cap), p, cap) \<in> measure (\<lambda>(p, cap). length p)"
    using a(1) length_dropWhile_le [of is_blank p] by simp
qed simp

declare capability_loop.simps [simp del]

definition hu_policy_hula_capability_allowed :: "hu_security_policy option \<Rightarrow> string option \<Rightarrow> bool" where
  "hu_policy_hula_capability_allowed policy cap =
     (case cap of
        None \<Rightarrow> True
      | Some c \<Rightarrow>
          if c = [] then True
          else (case policy of
                  None \<Rightarrow> False
                | Some p \<Rightarrow> (case sp_hula_capability_allowlist p of
                               None \<Rightarrow> False | Some l \<Rightarrow> capability_loop l c)))"


section \<open>The segments of a command\<close>

function segments :: "string \<Rightarrow> string list" where
  "segments s = (case next_segment s of None \<Rightarrow> [] | Some (seg, rest) \<Rightarrow> seg # segments rest)"
  by pat_completeness auto
termination
  by (relation "measure length") (auto dest: next_segment_shorter)

declare segments.simps [simp del]

definition command_segments :: "string \<Rightarrow> string list" where
  "command_segments command = segments (normalize_command command)"

definition segment_passes :: "string option list \<Rightarrow> string \<Rightarrow> bool" where
  "segment_passes allowed seg \<longleftrightarrow> skip_env_assignments seg = seg \<and>
     (command_base seg = [] \<or> in_allow_list allowed (command_base seg) \<and> is_args_safe (command_base seg) seg)"

lemma command_base_Nil: "takeWhile (\<lambda>c. c \<noteq> CHR '' '') s = [] \<Longrightarrow> command_base s = []"
  by (simp add: command_base_def basename_def)

lemma allowed_loop_segments:
  "allowed_loop allowed s h \<longleftrightarrow> (\<forall>seg \<in> set (segments s). segment_passes allowed seg) \<and>
     (h \<or> (\<exists>seg \<in> set (segments s). command_base seg \<noteq> []))"
proof (induction s arbitrary: h rule: segments.induct)
  case (1 s)
  show ?case
  proof (cases "next_segment s")
    case None
    then show ?thesis by (simp add: allowed_loop.simps [of _ s] segments.simps [of s])
  next
    case (Some p)
    obtain seg rest where p: "p = (seg, rest)" by force
    note IH = 1 [OF Some p [symmetric]]
    have "allowed_loop allowed s h \<longleftrightarrow> segment_passes allowed seg \<and>
        allowed_loop allowed rest (h \<or> command_base seg \<noteq> [])"
      using Some p command_base_Nil [of seg]
      by (auto simp: allowed_loop.simps [of _ s] segment_passes_def Let_def)
    then show ?thesis using Some p IH by (auto simp: segments.simps [of s])
  qed
qed

lemma risk_loop_high:
  "risk_loop pd s m = HU_RISK_HIGH \<longleftrightarrow> (\<exists>seg \<in> set (segments s). segment_high_risk pd seg)"
proof (induction s arbitrary: m rule: segments.induct)
  case (1 s)
  show ?case
  proof (cases "next_segment s")
    case None
    then show ?thesis by (simp add: risk_loop.simps [of _ s] segments.simps [of s])
  next
    case (Some p)
    obtain seg rest where p: "p = (seg, rest)" by force
    note IH = 1 [OF Some p [symmetric]]
    show ?thesis using Some p IH
      by (simp add: risk_loop.simps [of _ s] segments.simps [of s] Let_def)
  qed
qed

section \<open>Splitting a command at a separator\<close>

abbreviation skipped :: "char \<Rightarrow> bool" where
  "skipped c \<equiv> c = NUL \<or> is_blank c"

lemma dropWhile_append_cases:
  "dropWhile P (xs @ ys) = (if \<forall>x \<in> set xs. P x then dropWhile P ys else dropWhile P xs @ ys)"
  by (induction xs) auto

lemma dropWhile_Nil_iff: "dropWhile P xs = [] \<longleftrightarrow> (\<forall>x \<in> set xs. P x)"
  by (induction xs) auto

lemma next_segment_NUL: "next_segment (NUL # s) = next_segment s"
  by (simp add: next_segment_def)

lemma segments_blank: "\<forall>x \<in> set s. skipped x \<Longrightarrow> segments (s @ t) = segments t"
  by (simp add: segments.simps [of "s @ t"] segments.simps [of t] next_segment_def dropWhile_append_cases)

lemma dropWhile_NUL_mem:
  "NUL \<in> set x \<Longrightarrow> dropWhile (\<lambda>c. c \<noteq> NUL) (x @ y) = dropWhile (\<lambda>c. c \<noteq> NUL) x @ y"
  by (induction x) auto

lemma dropWhile_NUL_no: "NUL \<notin> set x \<Longrightarrow> dropWhile (\<lambda>c. c \<noteq> NUL) (x @ NUL # y) = NUL # y"
  by (induction x) auto

lemma drop1_append: "xs \<noteq> [] \<Longrightarrow> drop 1 (xs @ ys) = drop 1 xs @ ys"
  by (cases xs) auto

lemma cstr_append_NUL: "cstr (x @ NUL # b) = cstr x"
  by (induction x) (auto simp: cstr_def)

lemma segments_Nil: "segments [] = []"
  by (subst segments.simps) (simp add: next_segment_def)

lemma segments_append:
  "segments (a @ NUL # b) = segments a @ segments b"
proof (induction a rule: segments.induct)
  case (1 a)
  let ?a1 = "dropWhile skipped a"
  show ?case
  proof (cases "?a1 = []")
    case True
    then have sk: "\<forall>x \<in> set a. skipped x" by (simp only: dropWhile_Nil_iff)
    then have "next_segment a = None" by (simp add: next_segment_def)
    moreover have "segments (a @ NUL # b) = segments b"
      using segments_blank [of "a @ [NUL]" b] sk by simp
    ultimately show ?thesis by (simp add: segments.simps [of a])
  next
    case False
    then have drp: "dropWhile skipped (a @ NUL # b) = ?a1 @ NUL # b"
      by (auto simp: dropWhile_append_cases simp flip: dropWhile_Nil_iff)
    have seg: "cstr (?a1 @ NUL # b) = cstr ?a1"
      by (rule cstr_append_NUL)
    show ?thesis
    proof (cases "NUL \<in> set ?a1")
      case True
      let ?r = "drop 1 (dropWhile (\<lambda>c. c \<noteq> NUL) ?a1)"
      have n1: "next_segment a = Some (cstr ?a1, ?r)" using False by (auto simp: next_segment_def Let_def)
      have ne: "dropWhile (\<lambda>c. c \<noteq> NUL) ?a1 \<noteq> []" using True by (auto simp: dropWhile_Nil_iff)
      have "dropWhile (\<lambda>c. c \<noteq> NUL) (?a1 @ NUL # b) = dropWhile (\<lambda>c. c \<noteq> NUL) ?a1 @ NUL # b"
        using True by (rule dropWhile_NUL_mem)
      then have "drop 1 (dropWhile (\<lambda>c. c \<noteq> NUL) (?a1 @ NUL # b)) = ?r @ NUL # b"
        using drop1_append [OF ne, of "NUL # b"] by (rule trans [OF arg_cong [where f = "drop 1"]])
      with False have n2: "next_segment (a @ NUL # b) = Some (cstr ?a1, ?r @ NUL # b)"
        unfolding next_segment_def Let_def drp seg by simp
      have "segments a = cstr ?a1 # segments ?r" by (subst segments.simps, subst n1) simp
      moreover have "segments (a @ NUL # b) = cstr ?a1 # segments (?r @ NUL # b)"
        by (subst segments.simps, subst n2) simp
      ultimately show ?thesis using 1 [OF n1 refl] by (simp only: append_Cons)
    next
      case no: False
      then have dw: "dropWhile (\<lambda>c. c \<noteq> NUL) ?a1 = []"
        unfolding dropWhile_Nil_iff by metis
      have n1: "next_segment a = Some (cstr ?a1, [])"
        unfolding next_segment_def Let_def dw using False by (simp only: if_False drop_Nil)
      have "dropWhile (\<lambda>c. c \<noteq> NUL) (?a1 @ NUL # b) = NUL # b"
        using no by (rule dropWhile_NUL_no)
      with False have n2: "next_segment (a @ NUL # b) = Some (cstr ?a1, b)"
        unfolding next_segment_def Let_def drp seg by simp
      have "segments a = [cstr ?a1]"
        by (subst segments.simps, subst n1) (simp add: segments_Nil)
      moreover have "segments (a @ NUL # b) = cstr ?a1 # segments b"
        by (subst segments.simps, subst n2) simp
      ultimately show ?thesis by (simp only: append_Cons append_Nil)
    qed
  qed
qed

lemma blank_pairs_sep:
  "c \<noteq> CHR ''&'' \<Longrightarrow> c \<noteq> CHR ''|'' \<Longrightarrow> blank_pairs (a @ c # b) = blank_pairs a @ c # blank_pairs b"
  by (induction a rule: blank_pairs.induct) (cases b; auto)+

lemma blank_pairs_amp:
  "a = [] \<or> last a \<noteq> CHR ''&'' \<Longrightarrow> blank_pairs (a @ ''&&'' @ b) = blank_pairs a @ NUL # NUL # blank_pairs b"
  by (induction a rule: blank_pairs.induct) (auto split: if_splits)

text \<open>The separators between simple commands that the allow check lets through.\<close>

definition separates :: "string \<Rightarrow> string \<Rightarrow> string \<Rightarrow> bool" where
  "separates a sep b \<longleftrightarrow> sep = '';'' \<or> sep = [CHR 0x0A] \<or>
     sep = ''&&'' \<and> (a = [] \<or> last a \<noteq> CHR ''&'') \<and> (b = [] \<or> hd b \<noteq> CHR ''&'')"

lemma command_segments_append:
  assumes "separates a sep b" "length (a @ sep @ b) \<le> HU_MAX_ANALYSIS_LEN"
  shows "command_segments (a @ sep @ b) = command_segments a @ command_segments b"
proof -
  have len: "length a \<le> HU_MAX_ANALYSIS_LEN" "length b \<le> HU_MAX_ANALYSIS_LEN" using assms(2) by auto
  have nul: "segments (NUL # s) = segments s" for s using segments_blank [of "[NUL]" s] by simp
  let ?m = "map (\<lambda>c. if c = CHR 0x0A \<or> c = CHR '';'' \<or> c = CHR ''|'' then NUL else c)"
  from assms(1) consider "sep = '';''" | "sep = [CHR 0x0A]"
    | "sep = ''&&''" "a = [] \<or> last a \<noteq> CHR ''&''"
    by (auto simp: separates_def)
  then show ?thesis
  proof cases
    case 1
    then show ?thesis
      using assms(2) len segments_append [of "?m (blank_pairs a)" "?m (blank_pairs b)"]
      by (simp add: command_segments_def normalize_command_def blank_pairs_sep)
  next
    case 2
    then show ?thesis
      using assms(2) len segments_append [of "?m (blank_pairs a)" "?m (blank_pairs b)"]
      by (simp add: command_segments_def normalize_command_def blank_pairs_sep)
  next
    case 3
    then show ?thesis
      using assms(2) len blank_pairs_amp [OF 3(2), of b]
        segments_append [of "?m (blank_pairs a)" "NUL # ?m (blank_pairs b)"]
      by (simp add: command_segments_def normalize_command_def nul)
  qed
qed

lemma single_ampersand_sep:
  "c \<noteq> CHR ''&'' \<Longrightarrow> single_ampersand p (a @ c # b) \<longleftrightarrow> single_ampersand p a \<or> single_ampersand False b"
proof (induction a arbitrary: p)
  case (Cons x a)
  have "starts_with ''&'' (a @ c # b) \<longleftrightarrow> starts_with ''&'' a"
    using Cons.prems by (cases a) (auto simp: starts_with_def)
  with Cons show ?case by auto
qed simp

lemma single_ampersand_prev: "b = [] \<or> hd b \<noteq> CHR ''&'' \<Longrightarrow> single_ampersand p b = single_ampersand False b"
  by (cases b) auto

lemma single_ampersand_amp:
  "a = [] \<or> last a \<noteq> CHR ''&'' \<Longrightarrow> b = [] \<or> hd b \<noteq> CHR ''&'' \<Longrightarrow>
   (a \<noteq> [] \<or> \<not> p) \<Longrightarrow>
   single_ampersand p (a @ ''&&'' @ b) \<longleftrightarrow> single_ampersand p a \<or> single_ampersand False b"
proof (induction a arbitrary: p)
  case Nil
  then show ?case using single_ampersand_prev [of b True] by (simp add: starts_with_def)
next
  case (Cons x a)
  show ?case
  proof (cases "a = []")
    case True
    with Cons.prems have "x \<noteq> CHR ''&''" by simp
    then show ?thesis
      using True Cons.prems single_ampersand_prev [of b True] by (simp add: starts_with_def)
  next
    case False
    then have "starts_with ''&'' (a @ ''&&'' @ b) \<longleftrightarrow> starts_with ''&'' a"
      by (cases a) (auto simp: starts_with_def)
    with Cons False show ?thesis by auto
  qed
qed

lemma contains_append: "c_contains a p \<or> c_contains b p \<Longrightarrow> c_contains (a @ s @ b) p"
proof (elim disjE)
  assume "c_contains a p"
  then obtain u v where "a = u @ p @ v" by (auto simp: c_contains_iff)
  then have "a @ s @ b = u @ p @ (v @ s @ b)" by simp
  then show ?thesis unfolding c_contains_iff by blast
next
  assume "c_contains b p"
  then obtain u v where "b = u @ p @ v" by (auto simp: c_contains_iff)
  then have "a @ s @ b = (a @ s @ u) @ p @ v" by simp
  then show ?thesis unfolding c_contains_iff by blast
qed

lemma chaining_aux:
  assumes al: "hu_policy_is_command_allowed pd pol (a @ sep @ b)" and sep: "separates a sep b"
  shows "((\<exists>seg \<in> set (command_segments a). command_base seg \<noteq> []) \<longrightarrow> hu_policy_is_command_allowed pd pol a) \<and>
    ((\<exists>seg \<in> set (command_segments b). command_base seg \<noteq> []) \<and> \<not> starts_with ''tee '' b \<longrightarrow>
       hu_policy_is_command_allowed pd pol b)"
proof -
  let ?c = "a @ sep @ b"
  let ?al = "if sp_allowed_commands pol = [] then s_default_allowed pd else sp_allowed_commands pol"
  from al have c: "sp_autonomy pol \<noteq> HU_AUTONOMY_LOCKED" "length ?c \<le> HU_MAX_ANALYSIS_LEN"
    "\<not> has_substitution ?c" "\<not> blocks_tee ?c" "\<not> contains_single_ampersand ?c" "CHR ''>'' \<notin> set ?c" "CHR ''|'' \<notin> set ?c"
    "\<forall>seg \<in> set (command_segments ?c). segment_passes ?al seg"
    by (auto simp: hu_policy_is_command_allowed_def allowed_loop_segments command_segments_def Let_def split: if_splits)
  have seg: "command_segments ?c = command_segments a @ command_segments b"
    by (rule command_segments_append [OF sep c(2)])
  have sub: "\<not> has_substitution a" "\<not> has_substitution b"
    using c(3) contains_append [of a _ b sep] by (auto simp: has_substitution_def)
  have amp: "\<not> contains_single_ampersand a" "\<not> contains_single_ampersand b"
    using c(5) sep single_ampersand_sep [of "CHR '';''" False a b] single_ampersand_sep [of "CHR 0x0A" False a b]
      single_ampersand_amp [of a b False]
    by (auto simp: separates_def contains_single_ampersand_def)
  have tee: "\<not> blocks_tee a" "\<not> starts_with ''tee '' b \<Longrightarrow> \<not> blocks_tee b"
    using c(4) contains_append [of a _ b sep] by (auto simp: blocks_tee_def starts_with_iff)
  show ?thesis
    using c sub amp tee seg
    by (auto simp: hu_policy_is_command_allowed_def allowed_loop_segments command_segments_def Let_def)
qed

section \<open>The rate tracker bounds every window\<close>

text \<open>A sequence of recorded actions: the clock readings, and the times of those let through.\<close>

fun rate_run :: "rate_tracker \<Rightarrow> int list \<Rightarrow> (int \<times> int) list \<Rightarrow> rate_tracker \<times> int list" where
  "rate_run t lg [] = (t, lg)"
| "rate_run t lg ((n1, n2) # es) =
     (let (t', b) = hu_rate_tracker_record_action n1 n2 t in rate_run t' (if b then lg @ [n2] else lg) es)"

fun clock_sorted :: "int \<Rightarrow> (int \<times> int) list \<Rightarrow> bool" where
  "clock_sorted c [] = True"
| "clock_sorted c ((n1, n2) # es) = (c \<le> n1 \<and> n1 \<le> n2 \<and> clock_sorted n2 es)"

definition in_window :: "int \<Rightarrow> int list \<Rightarrow> nat" where
  "in_window x lg = length (filter (\<lambda>y. x - 3600 < y \<and> y \<le> x) lg)"

definition after :: "int \<Rightarrow> int list \<Rightarrow> nat" where
  "after k lg = length (filter (\<lambda>y. k < y) lg)"

definition rt_inv :: "int \<Rightarrow> nat \<Rightarrow> rate_tracker \<Rightarrow> int list \<Rightarrow> bool" where
  "rt_inv c m t lg \<longleftrightarrow> rt_window_secs t = 3600 \<and> rt_max_actions t = m \<and>
     (\<forall>y \<in> set lg. y \<le> c) \<and> (\<forall>k \<ge> c - 3600. after k lg \<le> after k (rt_timestamps t)) \<and>
     (\<forall>x. in_window x lg \<le> m)"

lemma after_filter: "j \<le> k \<Longrightarrow> after k (filter (\<lambda>x. x > j) ts) = after k ts"
proof -
  assume "j \<le> k"
  then have "filter (\<lambda>y. k < y) (filter (\<lambda>x. x > j) ts) = filter (\<lambda>y. k < y) ts" by (induction ts) auto
  then show ?thesis by (simp only: after_def)
qed

lemma filter_imp_length: "(\<And>x. P x \<Longrightarrow> Q x) \<Longrightarrow> length (filter P xs) \<le> length (filter Q xs)"
  by (induction xs) auto

lemma rt_inv_step:
  assumes inv: "rt_inv c m t lg" and clk: "c \<le> n1" "n1 \<le> n2"
    and st: "hu_rate_tracker_record_action n1 n2 t = (t', b)"
  shows "rt_inv n2 m t' (if b then lg @ [n2] else lg)"
proof -
  let ?p = "filter (\<lambda>x. x > n1 - 3600) (rt_timestamps t)"
  have w: "rt_window_secs t = 3600" "rt_max_actions t = m" and le: "\<forall>y \<in> set lg. y \<le> c"
    and cnt: "\<And>k. c - 3600 \<le> k \<Longrightarrow> after k lg \<le> after k (rt_timestamps t)"
    and win: "\<And>x. in_window x lg \<le> m"
    using inv by (auto simp: rt_inv_def)
  have p: "after k lg \<le> after k ?p" if "n1 - 3600 \<le> k" for k
    using that clk cnt [of k] by (simp add: after_filter)
  have t': "rt_window_secs t' = 3600" "rt_max_actions t' = m"
    "rt_timestamps t' = ?p \<and> \<not> b \<or> rt_timestamps t' = ?p @ [n2] \<and> (b \<longleftrightarrow> length (?p @ [n2]) \<le> m)"
    using st w by (auto simp: hu_rate_tracker_record_action_def prune_timestamps_def Let_def split: if_splits)
  show ?thesis
  proof (cases b)
    case True
    with t' have ts: "rt_timestamps t' = ?p @ [n2]" "length (?p @ [n2]) \<le> m" by auto
    have cnt': "after k (lg @ [n2]) \<le> after k (rt_timestamps t')" if "n2 - 3600 \<le> k" for k
      using p [of k] that clk by (simp add: ts after_def)
    have "in_window x (lg @ [n2]) \<le> m" for x
    proof (cases "n2 \<le> x")
      case True
      have "in_window x (lg @ [n2]) \<le> after (n2 - 3600) (lg @ [n2])"
        unfolding in_window_def after_def using True
        by (intro filter_imp_length) auto
      also have "\<dots> \<le> after (n2 - 3600) (rt_timestamps t')" by (rule cnt') simp
      also have "\<dots> \<le> m" unfolding after_def using ts(2)
        by (subst ts(1)) (rule order_trans [OF length_filter_le])
      finally show ?thesis .
    next
      case False
      then show ?thesis using win [of x] by (simp add: in_window_def)
    qed
    with True t' le clk cnt' show ?thesis by (fastforce simp: rt_inv_def)
  next
    case False
    have "after k lg \<le> after k (rt_timestamps t')" if "n2 - 3600 \<le> k" for k
      using p [of k] that clk t'(3) by (auto simp: after_def)
    with False t' le clk win show ?thesis by (fastforce simp: rt_inv_def)
  qed
qed

lemma rt_inv_run:
  "rt_inv c m t lg \<Longrightarrow> clock_sorted c es \<Longrightarrow> \<exists>c'. rt_inv c' m (fst (rate_run t lg es)) (snd (rate_run t lg es))"
proof (induction es arbitrary: c t lg)
  case (Cons e es)
  obtain n1 n2 where e: "e = (n1, n2)" by force
  obtain t' b where st: "hu_rate_tracker_record_action n1 n2 t = (t', b)" by force
  from Cons.prems e have "rt_inv n2 m t' (if b then lg @ [n2] else lg)"
    by (intro rt_inv_step [OF _ _ _ st]) auto
  from Cons.IH [OF this] Cons.prems(2) show ?case by (simp add: e st)
qed auto

section \<open>Capability lists\<close>

fun split_comma :: "string \<Rightarrow> string list" where
  "split_comma [] = [[]]"
| "split_comma (c # s) =
     (if c = CHR '','' then [] # split_comma s
      else case split_comma s of t # ts \<Rightarrow> (c # t) # ts | [] \<Rightarrow> [[c]])"

definition trim_blank :: "string \<Rightarrow> string" where
  "trim_blank s = trim_right (dropWhile is_blank s)"

lemma split_comma_unfold:
  "split_comma s = takeWhile (\<lambda>c. c \<noteq> CHR '','') s #
     (if CHR '','' \<in> set s then split_comma (drop 1 (dropWhile (\<lambda>c. c \<noteq> CHR '','') s)) else [])"
  by (induction s) auto

lemma dropWhile_comma: "CHR '','' \<in> set s \<longleftrightarrow> dropWhile (\<lambda>c. c \<noteq> CHR '','') s \<noteq> []"
  by (auto simp: dropWhile_Nil_iff)

lemma not_blank_comma: "\<not> is_blank CHR '',''"
  by (simp add: is_blank_def)

lemma dropWhile_blank_comma:
  "takeWhile (\<lambda>c. c \<noteq> CHR '','') (dropWhile is_blank s) = dropWhile is_blank (takeWhile (\<lambda>c. c \<noteq> CHR '','') s)"
  "dropWhile (\<lambda>c. c \<noteq> CHR '','') (dropWhile is_blank s) = dropWhile (\<lambda>c. c \<noteq> CHR '','') s"
  using not_blank_comma by (induction s) auto

lemma trim_blank_Nil: "(\<forall>c \<in> set s. is_blank c) \<Longrightarrow> trim_blank s = []"
  by (simp add: trim_blank_def trim_right_def dropWhile_Nil_iff [THEN iffD2])

lemma capability_loop_Nil: "capability_loop [] cap = False"
  by (simp add: capability_loop.simps [of "[]"])

lemma capability_loop_spec:
  "cap \<noteq> [] \<Longrightarrow> capability_loop p cap \<longleftrightarrow> cap \<in> trim_blank ` set (split_comma p)"
proof (induction p cap rule: capability_loop.induct)
  case (1 p cap)
  let ?p1 = "dropWhile is_blank p"
  let ?rest = "drop 1 (dropWhile (\<lambda>c. c \<noteq> CHR '','') p)"
  show ?case
  proof (cases "?p1 = []")
    case True
    then have b: "\<forall>c \<in> set p. is_blank c" by (simp only: dropWhile_Nil_iff)
    with not_blank_comma have "CHR '','' \<notin> set p" by auto
    moreover have "trim_blank (takeWhile (\<lambda>c. c \<noteq> CHR '','') p) = []"
      using b by (intro trim_blank_Nil) (auto dest: set_takeWhileD)
    ultimately show ?thesis
      using True 1(2) by (simp add: capability_loop.simps [of p] split_comma_unfold [of p])
  next
    case False
    have tok: "trim_right (takeWhile (\<lambda>c. c \<noteq> CHR '','') ?p1) = trim_blank (takeWhile (\<lambda>c. c \<noteq> CHR '','') p)"
      by (simp add: trim_blank_def dropWhile_blank_comma)
    have unf: "capability_loop p cap \<longleftrightarrow> trim_blank (takeWhile (\<lambda>c. c \<noteq> CHR '','') p) = cap \<or> capability_loop ?rest cap"
      using False by (simp add: capability_loop.simps [of p] trim_blank_def dropWhile_blank_comma del: drop_eq_Nil)
    have "capability_loop ?rest cap \<longleftrightarrow> cap \<in> trim_blank ` set (split_comma ?rest)"
      if "trim_blank (takeWhile (\<lambda>c. c \<noteq> CHR '','') p) \<noteq> cap"
      using 1(1) [OF refl refl False] that 1(2) by (simp add: trim_blank_def dropWhile_blank_comma)
    moreover have "\<not> capability_loop ?rest cap" if "CHR '','' \<notin> set p"
    proof -
      have "dropWhile (\<lambda>c. c \<noteq> CHR '','') p = []" using that dropWhile_comma by blast
      then have "?rest = []" by (simp only: drop_Nil)
      then show ?thesis by (simp only: capability_loop_Nil not_False_eq_True)
    qed
    ultimately show ?thesis
      unfolding unf by (subst split_comma_unfold) auto
  qed
qed

section \<open>Properties\<close>

text \<open>C9: chaining cannot smuggle a command past the allow check: if a command made of two parts joined
  by a semicolon, a newline or \<^verbatim>\<open>&&\<close> is allowed, each part that has a segment with a program name is
  allowed on its own, a second part that starts with \<^verbatim>\<open>tee\<close> and a space excepted: the guard against it
  looks at the start of the whole command only.\<close>

theorem policy_chaining:
  assumes "hu_policy_is_command_allowed pd pol (a @ sep @ b)" "separates a sep b"
  shows "((\<exists>seg \<in> set (command_segments a). command_base seg \<noteq> []) \<longrightarrow> hu_policy_is_command_allowed pd pol a) \<and>
    ((\<exists>seg \<in> set (command_segments b). command_base seg \<noteq> []) \<and> \<not> starts_with ''tee '' b \<longrightarrow>
       hu_policy_is_command_allowed pd pol b)"
  using assms by (rule chaining_aux)

definition supervised_policy :: hu_security_policy where
  "supervised_policy =
     \<lparr>sp_autonomy = HU_AUTONOMY_SUPERVISED, sp_allowed_commands = [], sp_require_approval_for_medium_risk = True,
      sp_block_high_risk_commands = True, sp_tracker = None, sp_pre_approved = False,
      sp_hula_capability_allowlist = Some ''net, fs.read''\<rparr>"

lemmas command_eval = has_substitution_def blocks_tee_def contains_single_ampersand_def
  starts_with_def c_contains_def normalize_command_def HU_MAX_ANALYSIS_LEN_def next_segment_def is_blank_def cstr_def
  is_assignment_def command_base_def basename_def first_arg_def
  in_allow_list_def is_args_safe_def segment_high_risk_def is_high_risk_command_def is_medium_risk_cmd_def
  c_strcaseeq_def to_lower_def is_upper_def is_alpha_def is_lower_def cval_def
  policy_data_defaults_def DEFAULT_ALLOWED_def DEFAULT_HIGH_RISK_COMMANDS_def Let_def

lemma sample_segments:
  "command_segments (''ls -l'' @ ''&&'' @ ''git log'') = [''ls -l'', ''git log'']"
  "command_segments ''git log'' = [''git log'']"
  by (simp_all add: command_segments_def segments.simps command_eval)

lemma sample_skip: "skip_env_assignments ''git log'' = ''git log''" "skip_env_assignments ''ls -l'' = ''ls -l''"
  by (simp_all add: skip_env_assignments.simps command_eval)

lemma sample_base: "command_base ''git log'' = ''git''" "command_base ''ls -l'' = ''ls''"
  by (simp_all add: command_eval)

lemma sample_passes:
  "segment_passes DEFAULT_ALLOWED ''git log''" "segment_passes DEFAULT_ALLOWED ''ls -l''"
  unfolding segment_passes_def sample_skip sample_base by (simp_all add: command_eval)

lemma sample_allowed:
  "hu_policy_is_command_allowed policy_data_defaults supervised_policy (''ls -l'' @ ''&&'' @ ''git log'')"
  "hu_policy_is_command_allowed policy_data_defaults supervised_policy ''git log''"
  using sample_segments sample_passes sample_base
  by (simp_all add: hu_policy_is_command_allowed_def allowed_loop_segments command_segments_def [symmetric]
      supervised_policy_def policy_data_defaults_def)
    (simp_all add: command_eval)

lemma policy_chaining_witness:
  "hu_policy_is_command_allowed policy_data_defaults supervised_policy ''git log''"
proof -
  note sample_allowed(1)
  moreover have "separates ''ls -l'' ''&&'' ''git log''" by (simp add: separates_def)
  moreover have "\<exists>seg \<in> set (command_segments ''git log''). command_base seg \<noteq> []"
    unfolding sample_segments by (simp add: sample_base)
  moreover have "\<not> starts_with ''tee '' ''git log''" by (simp add: starts_with_def)
  ultimately show ?thesis using policy_chaining by blast
qed

text \<open>A command that validates under a policy that blocks high-risk commands has no segment whose first
  word, which ends at a space and not at a tab (\<open>policy_tab_bypass\<close>), is on the high-risk list as the code
  compares it, none holds a recursive removal of the root as the code writes it, and the risk handed out is
  not high.\<close>

theorem policy_validated_not_high:
  assumes "hu_policy_validate_command pd pol command approved = Ret r" "sp_block_high_risk_commands pol"
  shows "r \<noteq> HU_RISK_HIGH \<and> sp_autonomy pol \<noteq> HU_AUTONOMY_LOCKED \<and>
    (\<forall>seg \<in> set (command_segments command). let part = skip_env_assignments seg in
       \<not> is_high_risk_command pd (map to_lower (command_base part)) \<and>
       \<not> sublist ''rm -rf /'' part \<and> \<not> sublist ''rm -fr /'' part)"
proof -
  have r: "hu_policy_command_risk_level pd command = r" "r \<noteq> HU_RISK_HIGH"
    and al: "hu_policy_is_command_allowed pd pol command"
    using assms by (auto simp: hu_policy_validate_command_def Let_def split: if_splits)
  then have "\<forall>seg \<in> set (command_segments command). \<not> segment_high_risk pd seg"
    using risk_loop_high [of pd "normalize_command command" False]
    by (auto simp: hu_policy_command_risk_level_def command_segments_def split: if_splits)
  moreover have "sp_autonomy pol \<noteq> HU_AUTONOMY_LOCKED"
    using al by (simp add: hu_policy_is_command_allowed_def split: if_splits)
  ultimately show ?thesis
    using r by (simp add: segment_high_risk_def Let_def c_contains_sublist)
qed

lemma sample_risk: "hu_policy_command_risk_level policy_data_defaults ''git log'' = HU_RISK_LOW"
proof -
  have "next_segment ''git log'' = Some (''git log'', [])" "next_segment [] = None"
    "normalize_command ''git log'' = ''git log''" by (simp_all add: command_eval)
  moreover have "\<not> segment_high_risk policy_data_defaults ''git log''"
    unfolding segment_high_risk_def sample_skip sample_base Let_def by (simp add: command_eval)
  moreover have "\<not> is_medium_risk_cmd (map to_lower (command_base (skip_env_assignments ''git log''))) (first_arg ''git log'')"
    unfolding sample_skip sample_base by (simp add: command_eval)
  ultimately show ?thesis
    by (simp add: hu_policy_command_risk_level_def HU_MAX_ANALYSIS_LEN_def risk_loop.simps sample_skip)
qed

lemma policy_validated_not_high_witness:
  "hu_policy_validate_command policy_data_defaults supervised_policy ''git log'' False = Ret HU_RISK_LOW \<and>
   HU_RISK_LOW \<noteq> HU_RISK_HIGH"
proof -
  have v: "hu_policy_validate_command policy_data_defaults supervised_policy ''git log'' False = Ret HU_RISK_LOW"
    using sample_allowed(2) sample_risk
    by (simp add: hu_policy_validate_command_def)
  moreover have "sp_block_high_risk_commands supervised_policy" by (simp add: supervised_policy_def)
  ultimately show ?thesis using policy_validated_not_high by blast
qed



text \<open>A HuLa capability is granted exactly if it is one of the comma-separated tokens of the
  allow list, blanks around a token apart; without a list none is granted, and a node that asks for
  none needs no list.\<close>

theorem capability_tokens:
  "hu_policy_hula_capability_allowed policy cap =
     (case cap of
        None \<Rightarrow> True
      | Some c \<Rightarrow> c = [] \<or>
          (\<exists>p l. policy = Some p \<and> sp_hula_capability_allowlist p = Some l \<and>
             c \<in> trim_blank ` set (split_comma l)))"
  using capability_loop_spec
  by (cases cap; cases policy) (auto simp: hu_policy_hula_capability_allowed_def split: option.split)

text \<open>The allow check and the risk check split words at spaces only.  Under an allow list with a
  star, a high-risk program followed by a tab validates as low risk even where high-risk commands are
  blocked, while the same command with a space is refused.\<close>

theorem policy_tab_bypass:
  "let pol = supervised_policy\<lparr>sp_allowed_commands := [Some ''*'']\<rparr> in
   hu_policy_validate_command policy_data_defaults pol (''sudo'' @ [CHR 0x09] @ ''reboot'') False = Ret HU_RISK_LOW \<and>
   hu_policy_validate_command policy_data_defaults pol ''sudo reboot'' False = Err HU_ERR_SECURITY_HIGH_RISK_BLOCKED"
proof -
  let ?pol = "supervised_policy\<lparr>sp_allowed_commands := [Some ''*'']\<rparr>"
  let ?t = "''sudo'' @ [CHR 0x09] @ ''reboot''"
  have n: "normalize_command ?t = ?t" "normalize_command ''sudo reboot'' = ''sudo reboot''"
    "next_segment ?t = Some (?t, [])" "next_segment ''sudo reboot'' = Some (''sudo reboot'', [])" "next_segment [] = None"
    by (simp_all add: command_eval)
  have sk: "skip_env_assignments ?t = ?t" "skip_env_assignments ''sudo reboot'' = ''sudo reboot''"
    by (simp_all add: skip_env_assignments.simps command_eval)
  have b: "command_base ?t = ?t" "command_base ''sudo reboot'' = ''sudo''" by (simp_all add: command_eval)
  have al: "allowed_loop [Some ''*''] s False"
    if "next_segment s = Some (s, [])" "skip_env_assignments s = s" "command_base s = c # cs"
      "c # cs = ''sudo'' \<or> c # cs = ?t" for s c cs
    using that n(5) command_base_Nil [of s]
    by (auto simp: allowed_loop.simps Let_def in_allow_list_def is_args_safe_def c_strcaseeq_def to_lower_def is_upper_def cval_def)
  have ok: "hu_policy_is_command_allowed policy_data_defaults ?pol ?t"
    "hu_policy_is_command_allowed policy_data_defaults ?pol ''sudo reboot''"
    using al [OF n(3) sk(1)] al [OF n(4) sk(2)] n b
    by (simp_all add: hu_policy_is_command_allowed_def supervised_policy_def)
      (simp_all add: command_eval)
  have h: "\<not> segment_high_risk policy_data_defaults ?t" "segment_high_risk policy_data_defaults ''sudo reboot''"
    unfolding segment_high_risk_def sk b Let_def by (simp_all add: command_eval)
  have "\<not> is_medium_risk_cmd (map to_lower (command_base (skip_env_assignments ?t))) (first_arg (skip_env_assignments ?t))"
    unfolding sk b by (simp add: command_eval)
  then have "risk_loop policy_data_defaults ?t False = HU_RISK_LOW"
    unfolding risk_loop.simps [of _ ?t] n(3) using h(1) n(5) by (simp add: Let_def risk_loop.simps)
  moreover have "risk_loop policy_data_defaults ''sudo reboot'' False = HU_RISK_HIGH"
    unfolding risk_loop.simps [of _ "''sudo reboot''"] n(4) using h(2) by simp
  ultimately have "hu_policy_command_risk_level policy_data_defaults ?t = HU_RISK_LOW"
    "hu_policy_command_risk_level policy_data_defaults ''sudo reboot'' = HU_RISK_HIGH"
    unfolding hu_policy_command_risk_level_def n by (simp_all add: HU_MAX_ANALYSIS_LEN_def)
  with ok show ?thesis by (simp add: hu_policy_validate_command_def supervised_policy_def)
qed

end
