(* ===== verification/HuDag.thy ===== *)
theory HuDag
  imports HuJson
begin

text \<open>
  \<^verbatim>\<open>src/agent/dag.c\<close> and \<^verbatim>\<open>src/agent/dag_executor.c\<close>: a plan as a graph of tool calls, its
  validation, and the batches of calls that are ready to run.

  The array of nodes is a list, a node pointer its index.  Strings are C strings except a
  node's result, which carries its length and may hold any bytes.  The depth-first search for
  cycles threads the \<^verbatim>\<open>visited\<close> array and has fuel for the depth of its recursion; one more than
  the number of nodes is enough.
\<close>

definition HU_DAG_MAX_NODES :: nat where
  "HU_DAG_MAX_NODES = 32"

definition HU_DAG_MAX_DEPS :: nat where
  "HU_DAG_MAX_DEPS = 8"

definition HU_DAG_MAX_BATCH_SIZE :: nat where
  "HU_DAG_MAX_BATCH_SIZE = 8"

datatype dag_status =
    HU_DAG_PENDING
  | HU_DAG_READY
  | HU_DAG_RUNNING
  | HU_DAG_DONE
  | HU_DAG_FAILED

record hu_dag_node =
  dn_id :: string
  dn_tool_name :: string
  dn_args_json :: "string option"
  dn_deps :: "string list"
  dn_status :: dag_status
  dn_result :: "string option"

record hu_dag =
  dag_nodes :: "hu_dag_node list"

definition hu_dag_init :: hu_dag where
  "hu_dag_init = \<lparr>dag_nodes = []\<rparr>"

section \<open>Building\<close>

text \<open>A NULL dependency is skipped.\<close>

definition hu_dag_add_node ::
    "hu_dag \<Rightarrow> string \<Rightarrow> string \<Rightarrow> string option \<Rightarrow> string option list \<Rightarrow> hu_dag outcome" where
  "hu_dag_add_node dag ident tool args deps =
     (if length (dag_nodes dag) \<ge> HU_DAG_MAX_NODES then Err HU_ERR_INVALID_ARGUMENT
      else if length deps > HU_DAG_MAX_DEPS then Err HU_ERR_INVALID_ARGUMENT
      else Ret (dag\<lparr>dag_nodes := dag_nodes dag @
        [\<lparr>dn_id = ident, dn_tool_name = tool, dn_args_json = args, dn_deps = List.map_filter id deps,
          dn_status = HU_DAG_PENDING, dn_result = None\<rparr>]\<rparr>))"

text \<open>\<^verbatim>\<open>hu_dag_find_node\<close>: the index of the first node with the id.\<close>

fun find_index :: "hu_dag_node list \<Rightarrow> string \<Rightarrow> nat option" where
  "find_index [] ident = None"
| "find_index (n # ns) ident =
     (if dn_id n = ident then Some 0 else map_option Suc (find_index ns ident))"

definition hu_dag_find_node :: "hu_dag \<Rightarrow> string \<Rightarrow> nat option" where
  "hu_dag_find_node dag ident = find_index (dag_nodes dag) ident"

section \<open>Validation\<close>

datatype dag_visit = DAG_VISIT_NONE | DAG_VISIT_VISITING | DAG_VISIT_VISITED

text \<open>The loop over the dependencies; \<open>visit\<close> is the recursive call.\<close>

fun visit_deps ::
    "(nat \<Rightarrow> dag_visit list \<Rightarrow> (bool \<times> dag_visit list) outcome) \<Rightarrow> hu_dag \<Rightarrow> string list \<Rightarrow>
       dag_visit list \<Rightarrow> (bool \<times> dag_visit list) outcome" where
  "visit_deps visit dag [] vis = Ret (False, vis)"
| "visit_deps visit dag (d # ds) vis =
     (case hu_dag_find_node dag d of
        None \<Rightarrow> visit_deps visit dag ds vis
      | Some j \<Rightarrow> obind (visit j vis) (\<lambda>(c, vis). if c then Ret (True, vis) else visit_deps visit dag ds vis))"

fun dag_has_cycle_visit ::
    "nat \<Rightarrow> hu_dag \<Rightarrow> nat \<Rightarrow> dag_visit list \<Rightarrow> (bool \<times> dag_visit list) outcome" where
  "dag_has_cycle_visit 0 dag idx vis = NoFuel"
| "dag_has_cycle_visit (Suc k) dag idx vis =
     (if vis ! idx = DAG_VISIT_VISITING then Ret (True, vis)
      else if vis ! idx = DAG_VISIT_VISITED then Ret (False, vis)
      else obind (visit_deps (\<lambda>j vis. dag_has_cycle_visit k dag j vis) dag (dn_deps (dag_nodes dag ! idx))
                    (vis[idx := DAG_VISIT_VISITING]))
             (\<lambda>(c, vis). if c then Ret (True, vis) else Ret (False, vis[idx := DAG_VISIT_VISITED])))"

fun cycle_search :: "hu_dag \<Rightarrow> nat list \<Rightarrow> dag_visit list \<Rightarrow> unit outcome" where
  "cycle_search dag [] vis = Ret ()"
| "cycle_search dag (i # is) vis =
     obind (dag_has_cycle_visit (Suc (length (dag_nodes dag))) dag i vis)
       (\<lambda>(c, vis). if c then Err HU_ERR_PARSE else cycle_search dag is vis)"

text \<open>The nested loop that compares every node with the later ones.\<close>

fun has_duplicate :: "hu_dag_node list \<Rightarrow> bool" where
  "has_duplicate [] = False"
| "has_duplicate (n # ns) = (list_ex (\<lambda>m. dn_id n = dn_id m) ns \<or> has_duplicate ns)"

definition hu_dag_validate :: "hu_dag \<Rightarrow> unit outcome" where
  "hu_dag_validate dag =
     (if has_duplicate (dag_nodes dag) then Err HU_ERR_ALREADY_EXISTS
      else if list_ex (\<lambda>n. list_ex (\<lambda>d. hu_dag_find_node dag d = None) (dn_deps n)) (dag_nodes dag)
      then Err HU_ERR_NOT_FOUND
      else cycle_search dag [0..<length (dag_nodes dag)]
             (replicate (length (dag_nodes dag)) DAG_VISIT_NONE))"

section \<open>From JSON\<close>

definition parse_deps :: "json option \<Rightarrow> string option list" where
  "parse_deps v =
     (case v of
        Some (JArr items) \<Rightarrow>
          List.map_filter (\<lambda>it. case it of JStr s \<Rightarrow> Some (Some (cstr s)) | _ \<Rightarrow> None)
            (take HU_DAG_MAX_DEPS items)
      | _ \<Rightarrow> [])"

definition task_args :: "json option \<Rightarrow> string outcome" where
  "task_args val = (case val of None \<Rightarrow> Ret ''{}'' | Some v \<Rightarrow> on_error ''{}'' (hu_json_stringify v))"

text \<open>The loop over the tasks; on an error the nodes added so far stay.\<close>

fun parse_tasks :: "hu_dag \<Rightarrow> json list \<Rightarrow> hu_dag \<times> unit outcome" where
  "parse_tasks dag [] = (dag, Ret ())"
| "parse_tasks dag (t # ts) =
     (case (hu_json_get_string t ''id'', hu_json_get_string t ''tool'') of
        (Some ident, Some tool) \<Rightarrow>
          (case obind (task_args (hu_json_object_get t ''args'')) (\<lambda>args.
                  hu_dag_add_node dag ident tool (Some args) (parse_deps (hu_json_object_get t ''deps''))) of
                Ret dag' \<Rightarrow> parse_tasks dag' ts
              | Err e \<Rightarrow> (dag, Err e)
              | Undef u \<Rightarrow> (dag, Undef u)
              | NoFuel \<Rightarrow> (dag, NoFuel))
      | _ \<Rightarrow> parse_tasks dag ts)"

definition hu_dag_parse_json :: "hu_dag \<Rightarrow> string \<Rightarrow> hu_dag \<times> unit outcome" where
  "hu_dag_parse_json dag text =
     (case hu_json_parse text of
        Ret (JObj ps) \<Rightarrow>
          (case hu_json_object_get (JObj ps) ''tasks'' of
             Some (JArr tasks) \<Rightarrow> parse_tasks dag tasks
           | _ \<Rightarrow> (dag, Err HU_ERR_JSON_PARSE))
      | Ret _ \<Rightarrow> (dag, Err HU_ERR_JSON_PARSE)
      | Err e \<Rightarrow> (dag, Err e)
      | Undef u \<Rightarrow> (dag, Undef u)
      | NoFuel \<Rightarrow> (dag, NoFuel))"

section \<open>Execution state\<close>

definition hu_dag_is_complete :: "hu_dag \<Rightarrow> bool" where
  "hu_dag_is_complete dag \<longleftrightarrow>
     list_all (\<lambda>n. dn_status n = HU_DAG_DONE \<or> dn_status n = HU_DAG_FAILED) (dag_nodes dag)"

definition node_ready :: "hu_dag \<Rightarrow> hu_dag_node \<Rightarrow> bool" where
  "node_ready dag n \<longleftrightarrow>
     list_all (\<lambda>d. case hu_dag_find_node dag d of
                     None \<Rightarrow> False
                   | Some j \<Rightarrow> dn_status (dag_nodes dag ! j) = HU_DAG_DONE) (dn_deps n)"

text \<open>
  The loop of \<^verbatim>\<open>hu_dag_next_batch\<close> from index \<open>i\<close> on: the graph with the nodes marked, and the
  indices in the batch.
\<close>

function next_batch_loop :: "nat \<Rightarrow> hu_dag \<Rightarrow> nat list \<Rightarrow> hu_dag \<times> nat list" where
  "next_batch_loop i dag batch =
     (if i < length (dag_nodes dag) \<and> length batch < HU_DAG_MAX_BATCH_SIZE then
        let n = dag_nodes dag ! i in
        if dn_status n = HU_DAG_PENDING \<and> node_ready dag n
        then next_batch_loop (Suc i)
               (dag\<lparr>dag_nodes := (dag_nodes dag)[i := n\<lparr>dn_status := HU_DAG_READY\<rparr>]\<rparr>) (batch @ [i])
        else next_batch_loop (Suc i) dag batch
      else (dag, batch))"
  by pat_completeness auto
termination
  by (relation "measure (\<lambda>(i, dag, b). length (dag_nodes dag) - i)") auto

declare next_batch_loop.simps [simp del]

definition hu_dag_next_batch :: "hu_dag \<Rightarrow> hu_dag \<times> nat list" where
  "hu_dag_next_batch dag = next_batch_loop 0 dag []"

section \<open>References to results\<close>

text \<open>
  \<open>t\<close> is the text after the dollar sign: the reference is its first character and the letters
  and digits after it.
\<close>

definition resolve_ref :: "hu_dag \<Rightarrow> string \<Rightarrow> string" where
  "resolve_ref dag r =
     (case hu_dag_find_node dag r of
        None \<Rightarrow> CHR ''$'' # r
      | Some j \<Rightarrow>
          let n = dag_nodes dag ! j in
          (case dn_result n of
             Some res \<Rightarrow> if dn_status n = HU_DAG_DONE \<and> res \<noteq> [] then res else CHR ''$'' # r
           | None \<Rightarrow> CHR ''$'' # r))"

function resolve_loop :: "hu_dag \<Rightarrow> string \<Rightarrow> jbuf \<Rightarrow> jbuf outcome" where
  "resolve_loop dag [] b = Ret b"
| "resolve_loop dag (c # s) b =
     (if c = CHR ''$'' \<and> s \<noteq> [] \<and> (hd s = CHR ''t'' \<or> hd s = CHR ''T'') then
        let r = hd s # takeWhile is_alnum (tl s); t = resolve_ref dag r in
        obind (hu_json_buf_append_raw b (Some t) (length t))
          (\<lambda>b. resolve_loop dag (dropWhile is_alnum (tl s)) b)
      else obind (hu_json_buf_append_raw b (Some [c]) 1) (\<lambda>b. resolve_loop dag s b))"
  by pat_completeness auto
termination
  by (relation "measure (\<lambda>(dag, s, b). length s)")
    (auto simp: less_Suc_eq_le intro: order_trans [OF length_dropWhile_le])

text \<open>The terminating NUL is appended as a byte and then left out of the length.\<close>

definition hu_dag_resolve_vars :: "hu_dag \<Rightarrow> string option \<Rightarrow> string outcome" where
  "hu_dag_resolve_vars dag args =
     (case args of
        None \<Rightarrow> Ret []
      | Some s \<Rightarrow>
          if s = [] then Ret []
          else obind (resolve_loop dag s jbuf_empty) (\<lambda>b.
               obind (hu_json_buf_append_raw b (Some [NUL]) 1) (\<lambda>b.
               Ret (butlast (jb_data b)))))"


section \<open>The dependency graph\<close>

lemma find_index_Some: "find_index ns ident = Some j \<Longrightarrow> j < length ns \<and> dn_id (ns ! j) = ident"
  by (induction ns arbitrary: j) (auto split: if_splits)

lemma find_index_None: "find_index ns ident = None \<longleftrightarrow> (\<forall>n \<in> set ns. dn_id n \<noteq> ident)"
  by (induction ns) auto

lemma find_index_distinct:
  "distinct (map dn_id ns) \<Longrightarrow> j < length ns \<Longrightarrow> find_index ns (dn_id (ns ! j)) = Some j"
proof (induction ns arbitrary: j)
  case (Cons n ns)
  show ?case
  proof (cases j)
    case (Suc i)
    with Cons.prems have "dn_id (ns ! i) \<in> dn_id ` set ns" by simp
    with Cons Suc show ?thesis by auto
  qed simp
qed simp

definition dep_edge :: "hu_dag \<Rightarrow> (nat \<times> nat) set" where
  "dep_edge dag = {(i, j). i < length (dag_nodes dag) \<and>
     (\<exists>d \<in> set (dn_deps (dag_nodes dag ! i)). hu_dag_find_node dag d = Some j)}"

definition dag_cyclic :: "hu_dag \<Rightarrow> bool" where
  "dag_cyclic dag \<longleftrightarrow> (\<exists>i. (i, i) \<in> (dep_edge dag)\<^sup>+)"

lemma dep_edge_range: "(i, j) \<in> dep_edge dag \<Longrightarrow> i < length (dag_nodes dag) \<and> j < length (dag_nodes dag)"
  by (auto simp: dep_edge_def hu_dag_find_node_def dest: find_index_Some)

lemma dep_edge_wf:
  assumes "\<not> dag_cyclic dag"
  shows "wf ((dep_edge dag)\<inverse>)"
proof (rule finite_acyclic_wf_converse)
  have "dep_edge dag \<subseteq> {0..<length (dag_nodes dag)} \<times> {0..<length (dag_nodes dag)}"
    using dep_edge_range by fastforce
  then show "finite (dep_edge dag)" by (rule finite_subset) simp
  show "acyclic (dep_edge dag)" using assms by (auto simp: acyclic_def dag_cyclic_def)
qed

lemma has_duplicate_iff: "has_duplicate ns \<longleftrightarrow> \<not> distinct (map dn_id ns)"
  by (induction ns) (auto simp: list_ex_iff)

section \<open>The depth-first search is right\<close>

definition visiting :: "dag_visit list \<Rightarrow> nat set" where
  "visiting vis = {i. i < length vis \<and> vis ! i = DAG_VISIT_VISITING}"

definition visited :: "dag_visit list \<Rightarrow> nat set" where
  "visited vis = {i. i < length vis \<and> vis ! i = DAG_VISIT_VISITED}"

definition unseen :: "dag_visit list \<Rightarrow> nat set" where
  "unseen vis = {i. i < length vis \<and> vis ! i = DAG_VISIT_NONE}"

text \<open>Finished nodes are closed under dependencies and lie on no cycle.\<close>

definition finished_ok :: "hu_dag \<Rightarrow> dag_visit list \<Rightarrow> bool" where
  "finished_ok dag vis \<longleftrightarrow> length vis = length (dag_nodes dag) \<and>
     (\<forall>i \<in> visited vis. (\<forall>j. (i, j) \<in> dep_edge dag \<longrightarrow> j \<in> visited vis) \<and> (i, i) \<notin> (dep_edge dag)\<^sup>+)"

lemma finished_ok_length: "finished_ok dag vis \<Longrightarrow> length vis = length (dag_nodes dag)"
  by (simp add: finished_ok_def)

text \<open>What a search from \<open>vis\<close> that looked at the nodes \<open>T\<close> may answer.\<close>

definition search_ok :: "hu_dag \<Rightarrow> dag_visit list \<Rightarrow> nat set \<Rightarrow> (bool \<times> dag_visit list) outcome \<Rightarrow> bool" where
  "search_ok dag vis T m \<longleftrightarrow>
     (\<exists>vis'. m = Ret (True, vis') \<and> dag_cyclic dag) \<or>
     (\<exists>vis'. m = Ret (False, vis') \<and> finished_ok dag vis' \<and> visiting vis' = visiting vis \<and>
        visited vis \<subseteq> visited vis' \<and> T \<subseteq> visited vis')"

lemma unseen_compl: "length vis = n \<Longrightarrow> unseen vis = {0..<n} - (visiting vis \<union> visited vis)"
proof (rule set_eqI)
  fix i assume "length vis = n"
  then show "i \<in> unseen vis \<longleftrightarrow> i \<in> {0..<n} - (visiting vis \<union> visited vis)"
    by (cases "vis ! i") (auto simp: unseen_def visiting_def visited_def)
qed

lemma search_ok_unseen:
  assumes "finished_ok dag vis" "finished_ok dag vis'" "visiting vis' = visiting vis" "visited vis \<subseteq> visited vis'"
  shows "card (unseen vis') \<le> card (unseen vis)"
proof -
  have "unseen vis' \<subseteq> unseen vis"
    unfolding unseen_compl [OF finished_ok_length [OF assms(1)]] unseen_compl [OF finished_ok_length [OF assms(2)]]
    using assms(3,4) by blast
  moreover have "finite (unseen vis)" by (simp add: unseen_def)
  ultimately show ?thesis by (rule card_mono [rotated])
qed

lemma search_ok_trans:
  assumes "search_ok dag vis' T m" "visiting vis' = visiting vis" "visited vis \<subseteq> visited vis'" "j \<in> visited vis'"
  shows "search_ok dag vis (insert j T) m"
  using assms(1) unfolding search_ok_def
proof (elim disjE exE conjE)
  fix w assume "m = Ret (False, w)" "finished_ok dag w" "visiting w = visiting vis'" "visited vis' \<subseteq> visited w" "T \<subseteq> visited w"
  with assms show "(\<exists>w. m = Ret (True, w) \<and> dag_cyclic dag) \<or> (\<exists>w. m = Ret (False, w) \<and> finished_ok dag w \<and>
      visiting w = visiting vis \<and> visited vis \<subseteq> visited w \<and> insert j T \<subseteq> visited w)" by blast
qed blast

lemma visit_deps_ok:
  assumes rec: "\<And>j vis. finished_ok dag vis \<Longrightarrow> j < length (dag_nodes dag) \<Longrightarrow> card (unseen vis) < k \<Longrightarrow>
      \<forall>v \<in> visiting vis. (v, j) \<in> (dep_edge dag)\<^sup>+ \<Longrightarrow> search_ok dag vis {j} (visit j vis)"
    and "finished_ok dag vis" "card (unseen vis) < k"
    and "\<forall>d \<in> set ds. \<forall>j. hu_dag_find_node dag d = Some j \<longrightarrow> (\<forall>v \<in> visiting vis. (v, j) \<in> (dep_edge dag)\<^sup>+)"
  shows "search_ok dag vis {j. \<exists>d \<in> set ds. hu_dag_find_node dag d = Some j} (visit_deps visit dag ds vis)"
  using assms(2-)
proof (induction ds arbitrary: vis)
  case Nil
  then show ?case by (simp add: search_ok_def)
next
  case (Cons d ds)
  show ?case
  proof (cases "hu_dag_find_node dag d")
    case None
    with Cons show ?thesis by simp
  next
    case (Some j)
    then have "j < length (dag_nodes dag)" by (auto simp: hu_dag_find_node_def dest: find_index_Some)
    from rec [OF Cons.prems(1) this Cons.prems(2)] Cons.prems(3) Some
    have "search_ok dag vis {j} (visit j vis)" by simp
    then show ?thesis unfolding search_ok_def [of dag vis "{j}"]
    proof (elim disjE exE conjE)
      fix vis' assume "visit j vis = Ret (True, vis')" "dag_cyclic dag"
      with Some show ?thesis by (simp add: search_ok_def)
    next
      fix vis'
      assume v: "visit j vis = Ret (False, vis')" "finished_ok dag vis'" "visiting vis' = visiting vis"
        "visited vis \<subseteq> visited vis'" "{j} \<subseteq> visited vis'"
      have so: "search_ok dag vis' {j. \<exists>d \<in> set ds. hu_dag_find_node dag d = Some j} (visit_deps visit dag ds vis')"
        using Cons.prems v search_ok_unseen [OF Cons.prems(1) v(2-4)] by (intro Cons.IH) auto
      have "visit_deps visit dag (d # ds) vis = visit_deps visit dag ds vis'" using v(1) Some by simp
      moreover have "{j. \<exists>d' \<in> set (d # ds). hu_dag_find_node dag d' = Some j} =
          insert j {j. \<exists>d \<in> set ds. hu_dag_find_node dag d = Some j}" using Some by auto
      ultimately show ?thesis using search_ok_trans [OF so v(3,4)] v(5) by simp
    qed
  qed
qed

lemma visited_trancl:
  assumes "finished_ok dag vis" "i \<in> visited vis" "(i, j) \<in> (dep_edge dag)\<^sup>+"
  shows "j \<in> visited vis"
  using assms(3,2) by (induction rule: trancl_induct) (use assms(1) in \<open>auto simp: finished_ok_def\<close>)

lemma cycle_visit_ok:
  "finished_ok dag vis \<Longrightarrow> i < length (dag_nodes dag) \<Longrightarrow> card (unseen vis) < k \<Longrightarrow>
   \<forall>v \<in> visiting vis. (v, i) \<in> (dep_edge dag)\<^sup>+ \<Longrightarrow> search_ok dag vis {i} (dag_has_cycle_visit k dag i vis)"
proof (induction k arbitrary: i vis)
  case (Suc k)
  have len: "length vis = length (dag_nodes dag)" using Suc.prems(1) by (simp add: finished_ok_def)
  let ?R = "dep_edge dag"
  let ?ds = "dn_deps (dag_nodes dag ! i)"
  show ?case
  proof (cases "vis ! i")
    case DAG_VISIT_VISITING
    then have "i \<in> visiting vis" using Suc.prems(2) len by (simp add: visiting_def)
    with Suc.prems(4) have "dag_cyclic dag" by (auto simp: dag_cyclic_def)
    with DAG_VISIT_VISITING show ?thesis by (simp add: search_ok_def)
  next
    case DAG_VISIT_VISITED
    then have "i \<in> visited vis" using Suc.prems(2) len by (simp add: visited_def)
    with DAG_VISIT_VISITED Suc.prems(1) show ?thesis by (simp add: search_ok_def)
  next
    case DAG_VISIT_NONE
    define vis1 where "vis1 = vis[i := DAG_VISIT_VISITING]"
    have sets1: "visiting vis1 = insert i (visiting vis)" "visited vis1 = visited vis" "length vis1 = length vis"
      "unseen vis1 = unseen vis - {i}"
      using DAG_VISIT_NONE Suc.prems(2) len
      by (auto simp: vis1_def visiting_def visited_def unseen_def nth_list_update split: if_splits)
    have f1: "finished_ok dag vis1" using Suc.prems(1) by (simp add: finished_ok_def sets1)
    have "i \<in> unseen vis" using DAG_VISIT_NONE Suc.prems(2) len by (simp add: unseen_def)
    moreover have "finite (unseen vis)" by (simp add: unseen_def)
    ultimately have c1: "card (unseen vis1) < k" using Suc.prems(3) card_Diff_singleton [of i "unseen vis"] card_gt_0_iff [of "unseen vis"]
      by (auto simp: sets1)
    have edge: "(i, j) \<in> ?R" if "d \<in> set ?ds" "hu_dag_find_node dag d = Some j" for d j
      using that Suc.prems(2) by (auto simp: dep_edge_def)
    have pre: "\<forall>d \<in> set ?ds. \<forall>j. hu_dag_find_node dag d = Some j \<longrightarrow> (\<forall>v \<in> visiting vis1. (v, j) \<in> ?R\<^sup>+)"
    proof (intro ballI allI impI)
      fix d j v assume d: "d \<in> set ?ds" "hu_dag_find_node dag d = Some j" and v: "v \<in> visiting vis1"
      from v Suc.prems(4) have "v = i \<or> (v, i) \<in> ?R\<^sup>+" by (auto simp: sets1)
      with edge [OF d] show "(v, j) \<in> ?R\<^sup>+" by (auto intro: trancl_into_trancl)
    qed
    have "search_ok dag vis1 {j. \<exists>d \<in> set ?ds. hu_dag_find_node dag d = Some j}
        (visit_deps (\<lambda>j vis. dag_has_cycle_visit k dag j vis) dag ?ds vis1)"
      by (rule visit_deps_ok [OF _ f1 c1 pre]) (rule Suc.IH)
    then show ?thesis unfolding search_ok_def [of dag vis1]
    proof (elim disjE exE conjE)
      fix vis' assume "visit_deps (\<lambda>j vis. dag_has_cycle_visit k dag j vis) dag ?ds vis1 = Ret (True, vis')" "dag_cyclic dag"
      with DAG_VISIT_NONE show ?thesis by (simp add: search_ok_def vis1_def)
    next
      fix vis'
      assume v: "visit_deps (\<lambda>j vis. dag_has_cycle_visit k dag j vis) dag ?ds vis1 = Ret (False, vis')"
        "finished_ok dag vis'" "visiting vis' = visiting vis1" "visited vis1 \<subseteq> visited vis'"
        "{j. \<exists>d \<in> set ?ds. hu_dag_find_node dag d = Some j} \<subseteq> visited vis'"
      define vis2 where "vis2 = vis'[i := DAG_VISIT_VISITED]"
      have len': "length vis' = length (dag_nodes dag)" using v(2) by (simp add: finished_ok_def)
      have iv: "i \<in> visiting vis'" using v(3) by (simp add: sets1)
      have inot: "i \<notin> visiting vis" using DAG_VISIT_NONE by (simp add: visiting_def)
      have sets2: "visiting vis2 = visiting vis" "visited vis2 = insert i (visited vis')" "length vis2 = length vis'"
      proof -
        have "visiting vis2 = visiting vis' - {i}"
          using Suc.prems(2) len' by (auto simp: vis2_def visiting_def nth_list_update split: if_splits)
        with inot show "visiting vis2 = visiting vis" by (simp add: v(3) sets1)
        show "visited vis2 = insert i (visited vis')"
          using Suc.prems(2) len' iv by (auto simp: vis2_def visited_def nth_list_update split: if_splits)
      qed (simp add: vis2_def)
      have suc: "j \<in> visited vis'" if "(i, j) \<in> ?R" for j using that v(5) by (auto simp: dep_edge_def)
      have "(i, i) \<notin> ?R\<^sup>+"
      proof
        assume "(i, i) \<in> ?R\<^sup>+"
        then obtain j where j: "(i, j) \<in> ?R" "(j, i) \<in> ?R\<^sup>*" by (meson tranclD)
        from suc [OF j(1)] j(2) have "i \<in> visited vis'"
          using visited_trancl [OF v(2)] by (auto simp: rtrancl_eq_or_trancl)
        with iv show False by (simp add: visited_def visiting_def)
      qed
      with v(2) suc have "finished_ok dag vis2" by (auto simp: finished_ok_def sets2)
      with DAG_VISIT_NONE v sets1 sets2 show ?thesis by (auto simp: search_ok_def vis1_def [symmetric] vis2_def [symmetric])
    qed
  qed
qed simp

lemma cycle_search_ok:
  "finished_ok dag vis \<Longrightarrow> visiting vis = {} \<Longrightarrow> (\<forall>i \<in> set is. i < length (dag_nodes dag)) \<Longrightarrow>
   cycle_search dag is vis = Err HU_ERR_PARSE \<and> dag_cyclic dag \<or>
   cycle_search dag is vis = Ret () \<and> (\<forall>i \<in> set is. (i, i) \<notin> (dep_edge dag)\<^sup>+)"
proof (induction "is" arbitrary: vis)
  case (Cons i "is")
  let ?k = "Suc (length (dag_nodes dag))"
  have "unseen vis \<subseteq> {0..<length (dag_nodes dag)}" using Cons.prems(1) by (auto simp: unseen_def finished_ok_def)
  then have "card (unseen vis) < ?k" using card_mono [of "{0..<length (dag_nodes dag)}" "unseen vis"] by simp
  with Cons.prems have "search_ok dag vis {i} (dag_has_cycle_visit ?k dag i vis)"
    by (intro cycle_visit_ok) auto
  then show ?case unfolding search_ok_def
  proof (elim disjE exE conjE)
    fix vis' assume v: "dag_has_cycle_visit ?k dag i vis = Ret (False, vis')" "finished_ok dag vis'"
      "visiting vis' = visiting vis" "{i} \<subseteq> visited vis'"
    have "(i, i) \<notin> (dep_edge dag)\<^sup>+" using v(2,4) by (auto simp: finished_ok_def)
    with Cons.IH [OF v(2)] Cons.prems v show ?thesis by (auto simp del: dag_has_cycle_visit.simps)
  qed (simp del: dag_has_cycle_visit.simps)
qed simp

lemma hu_dag_validate_eq:
  "hu_dag_validate dag =
     (if \<not> distinct (map dn_id (dag_nodes dag)) then Err HU_ERR_ALREADY_EXISTS
      else if \<exists>n \<in> set (dag_nodes dag). \<exists>d \<in> set (dn_deps n). \<forall>m \<in> set (dag_nodes dag). dn_id m \<noteq> d
      then Err HU_ERR_NOT_FOUND
      else if dag_cyclic dag then Err HU_ERR_PARSE else Ret ())"
proof -
  let ?n = "length (dag_nodes dag)"
  let ?v = "replicate ?n DAG_VISIT_NONE"
  have "visiting ?v = {}" "visited ?v = {}" by (auto simp: visiting_def visited_def)
  then have "cycle_search dag [0..<?n] ?v = (if dag_cyclic dag then Err HU_ERR_PARSE else Ret ())"
  proof -
    have "finished_ok dag ?v" using \<open>visited ?v = {}\<close> by (simp add: finished_ok_def)
    moreover have "i < ?n" if "(i, i) \<in> (dep_edge dag)\<^sup>+" for i
      using tranclD [OF that] dep_edge_range by blast
    ultimately show ?thesis
      using cycle_search_ok [of dag ?v "[0..<?n]"] \<open>visiting ?v = {}\<close> unfolding dag_cyclic_def by auto
  qed
  then show ?thesis
    by (auto simp: hu_dag_validate_def has_duplicate_iff list_ex_iff hu_dag_find_node_def find_index_None)
qed


section \<open>Batches\<close>

definition mark_ready :: "hu_dag \<Rightarrow> nat list \<Rightarrow> hu_dag" where
  "mark_ready dag b = dag\<lparr>dag_nodes :=
     map (\<lambda>i. if i \<in> set b then (dag_nodes dag ! i)\<lparr>dn_status := HU_DAG_READY\<rparr> else dag_nodes dag ! i)
       [0..<length (dag_nodes dag)]\<rparr>"

definition eligible :: "hu_dag \<Rightarrow> nat \<Rightarrow> bool" where
  "eligible dag i \<longleftrightarrow> dn_status (dag_nodes dag ! i) = HU_DAG_PENDING \<and> node_ready dag (dag_nodes dag ! i)"

lemma mark_ready_length [simp]: "length (dag_nodes (mark_ready dag b)) = length (dag_nodes dag)"
  by (simp add: mark_ready_def)

lemma mark_ready_nth:
  "i < length (dag_nodes dag) \<Longrightarrow> dag_nodes (mark_ready dag b) ! i =
     (if i \<in> set b then (dag_nodes dag ! i)\<lparr>dn_status := HU_DAG_READY\<rparr> else dag_nodes dag ! i)"
  by (simp add: mark_ready_def)

lemma find_index_ids: "map dn_id ns = map dn_id ms \<Longrightarrow> find_index ns ident = find_index ms ident"
proof (induction ns arbitrary: ms)
  case (Cons n ns)
  then obtain m ms' where "ms = m # ms'" "dn_id n = dn_id m" "map dn_id ns = map dn_id ms'" by (cases ms) auto
  with Cons.IH [of ms'] show ?case by simp
qed simp

lemma mark_ready_ids: "map dn_id (dag_nodes (mark_ready dag b)) = map dn_id (dag_nodes dag)"
  by (rule nth_equalityI) (simp_all add: mark_ready_nth)

lemma mark_ready_find: "hu_dag_find_node (mark_ready dag b) ident = hu_dag_find_node dag ident"
  unfolding hu_dag_find_node_def
  by (rule find_index_ids) (rule mark_ready_ids)

lemma mark_ready_Nil [simp]: "mark_ready dag [] = dag"
  by (simp add: mark_ready_def map_nth)

text \<open>Marking nodes that were pending makes no other node ready or unready.\<close>

lemma node_ready_mark:
  assumes "\<forall>i \<in> set b. dn_status (dag_nodes dag ! i) = HU_DAG_PENDING"
  shows "node_ready (mark_ready dag b) n = node_ready dag n"
proof -
  have "dn_status (dag_nodes (mark_ready dag b) ! j) = HU_DAG_DONE \<longleftrightarrow> dn_status (dag_nodes dag ! j) = HU_DAG_DONE"
    if "hu_dag_find_node dag d = Some j" for d j
    using that assms find_index_Some [of "dag_nodes dag" d j]
    by (auto simp: mark_ready_nth hu_dag_find_node_def)
  then show ?thesis
    by (auto simp: node_ready_def mark_ready_find list_all_iff split: option.splits)
qed

lemma next_batch_loop_eq:
  assumes "\<forall>j \<in> set b. j < i \<and> dn_status (dag_nodes dag ! j) = HU_DAG_PENDING" "length b \<le> HU_DAG_MAX_BATCH_SIZE"
  shows "next_batch_loop i (mark_ready dag b) b =
    (let b' = b @ take (HU_DAG_MAX_BATCH_SIZE - length b) (filter (eligible dag) [i..<length (dag_nodes dag)])
     in (mark_ready dag b', b'))"
  using assms
proof (induction "length (dag_nodes dag) - i" arbitrary: i b)
  case 0
  then show ?case by (simp add: next_batch_loop.simps [of i])
next
  case (Suc k)
  let ?n = "length (dag_nodes dag)"
  have i: "i < ?n" using Suc(2) by simp
  then have upt: "[i..<?n] = i # [Suc i..<?n]" by (simp add: upt_conv_Cons)
  show ?case
  proof (cases "length b < HU_DAG_MAX_BATCH_SIZE")
    case False
    with Suc.prems show ?thesis by (simp add: next_batch_loop.simps [of i])
  next
    case True
    have "i \<notin> set b" using Suc.prems(1) by auto
    then have nth: "dag_nodes (mark_ready dag b) ! i = dag_nodes dag ! i" using i by (simp add: mark_ready_nth)
    have rdy: "node_ready (mark_ready dag b) m = node_ready dag m" for m
      using Suc.prems(1) by (intro node_ready_mark) auto
    show ?thesis
    proof (cases "eligible dag i")
      case el: True
      have upd: "mark_ready dag b\<lparr>dag_nodes := (dag_nodes (mark_ready dag b))[i := (dag_nodes dag ! i)\<lparr>dn_status := HU_DAG_READY\<rparr>]\<rparr> =
          mark_ready dag (b @ [i])"
      proof -
        have "(dag_nodes (mark_ready dag b))[i := (dag_nodes dag ! i)\<lparr>dn_status := HU_DAG_READY\<rparr>] =
            dag_nodes (mark_ready dag (b @ [i]))"
          using i by (intro nth_equalityI) (auto simp: mark_ready_nth nth_list_update)
        then show ?thesis by (simp add: mark_ready_def)
      qed
      have step: "next_batch_loop i (mark_ready dag b) b = next_batch_loop (Suc i) (mark_ready dag (b @ [i])) (b @ [i])"
        using i True el by (subst next_batch_loop.simps) (simp add: nth rdy eligible_def upd)
      have "next_batch_loop (Suc i) (mark_ready dag (b @ [i])) (b @ [i]) =
        (let b' = (b @ [i]) @ take (HU_DAG_MAX_BATCH_SIZE - length (b @ [i])) (filter (eligible dag) [Suc i..<?n])
         in (mark_ready dag b', b'))"
        using Suc(2) Suc.prems True el by (intro Suc(1)) (auto simp: eligible_def)
      moreover have "HU_DAG_MAX_BATCH_SIZE - length b = Suc (HU_DAG_MAX_BATCH_SIZE - length (b @ [i]))"
        using True by simp
      ultimately show ?thesis using el by (simp only: step upt filter.simps if_True take_Suc_Cons append.assoc append.simps)
    next
      case el: False
      have "next_batch_loop i (mark_ready dag b) b = next_batch_loop (Suc i) (mark_ready dag b) b"
        using i True el by (subst next_batch_loop.simps) (auto simp: nth rdy eligible_def Let_def)
      moreover have "next_batch_loop (Suc i) (mark_ready dag b) b =
        (let b' = b @ take (HU_DAG_MAX_BATCH_SIZE - length b) (filter (eligible dag) [Suc i..<?n])
         in (mark_ready dag b', b'))"
        using Suc(2) Suc.prems by (intro Suc(1)) auto
      ultimately show ?thesis using el by (simp add: upt)
    qed
  qed
qed

lemma hu_dag_next_batch_eq:
  "hu_dag_next_batch dag =
    (let b = take HU_DAG_MAX_BATCH_SIZE (filter (eligible dag) [0..<length (dag_nodes dag)])
     in (mark_ready dag b, b))"
  using next_batch_loop_eq [of "[]" 0 dag] by (simp add: hu_dag_next_batch_def)

lemma eligible_exists:
  assumes val: "hu_dag_validate dag = Ret ()"
    and st: "\<forall>n \<in> set (dag_nodes dag). dn_status n = HU_DAG_PENDING \<or> dn_status n = HU_DAG_DONE"
    and nd: "\<not> hu_dag_is_complete dag"
  shows "\<exists>i < length (dag_nodes dag). eligible dag i"
proof -
  let ?n = "length (dag_nodes dag)"
  let ?P = "{i. i < ?n \<and> dn_status (dag_nodes dag ! i) = HU_DAG_PENDING}"
  from val have v: "\<not> dag_cyclic dag" "\<forall>n \<in> set (dag_nodes dag). \<forall>d \<in> set (dn_deps n). \<exists>m \<in> set (dag_nodes dag). dn_id m = d"
    by (auto simp: hu_dag_validate_eq split: if_splits)
  note wf = dep_edge_wf [OF v(1)]
  from nd obtain n where n: "n \<in> set (dag_nodes dag)" "dn_status n \<noteq> HU_DAG_DONE"
    by (auto simp: hu_dag_is_complete_def list_all_iff)
  then obtain i where "i < ?n" "dag_nodes dag ! i = n" by (auto simp: in_set_conv_nth)
  with n st have "i \<in> ?P" by auto
  from wfE_min [OF wf this]
  obtain i where i: "i \<in> ?P" "\<And>j. (j, i) \<in> (dep_edge dag)\<inverse> \<Longrightarrow> j \<notin> ?P" by blast
  have "\<exists>j. hu_dag_find_node dag d = Some j \<and> dn_status (dag_nodes dag ! j) = HU_DAG_DONE"
    if d: "d \<in> set (dn_deps (dag_nodes dag ! i))" for d
  proof -
    have "dag_nodes dag ! i \<in> set (dag_nodes dag)" using i(1) by simp
    with v(2) d obtain m where "m \<in> set (dag_nodes dag)" "dn_id m = d" by blast
    then have "hu_dag_find_node dag d \<noteq> None" unfolding hu_dag_find_node_def find_index_None by blast
    then obtain j where j: "hu_dag_find_node dag d = Some j" by blast
    then have jn: "j < ?n" by (auto simp: hu_dag_find_node_def dest: find_index_Some)
    have "(i, j) \<in> dep_edge dag" using i(1) j d unfolding dep_edge_def by blast
    with i(2) [of j] jn have "dn_status (dag_nodes dag ! j) \<noteq> HU_DAG_PENDING" by blast
    moreover have "dag_nodes dag ! j \<in> set (dag_nodes dag)" using jn by simp
    ultimately show ?thesis using st j by blast
  qed
  then have "node_ready dag (dag_nodes dag ! i)"
    unfolding node_ready_def list_all_iff by (fastforce split: option.split)
  with i(1) show ?thesis unfolding eligible_def by blast
qed

section \<open>Resolving references\<close>

function expand :: "hu_dag \<Rightarrow> string \<Rightarrow> string" where
  "expand dag [] = []"
| "expand dag (c # s) =
     (if c = CHR ''$'' \<and> s \<noteq> [] \<and> (hd s = CHR ''t'' \<or> hd s = CHR ''T'')
      then resolve_ref dag (hd s # takeWhile is_alnum (tl s)) @ expand dag (dropWhile is_alnum (tl s))
      else c # expand dag s)"
  by pat_completeness auto
termination
  by (relation "measure (\<lambda>(dag, s). length s)")
    (auto simp: less_Suc_eq_le intro: order_trans [OF length_dropWhile_le])

lemma append_raw_emits: "jsonbuf.emits (\<lambda>b. hu_json_buf_append_raw b (Some t) (length t)) t"
  unfolding hu_json_buf_append_raw_lit by (rule jsonbuf.emits_app)

lemma append_raw_one: "hu_json_buf_append_raw b (Some [c]) 1 = hu_json_buf_append_raw b (Some [c]) (length [c])"
  by simp

lemma resolve_loop_emits: "jsonbuf.emits (\<lambda>b. resolve_loop dag s b) (expand dag s)"
proof (induction dag s rule: expand.induct)
  case (1 dag)
  then show ?case using jsonbuf.emits_Ret by simp
next
  case (2 dag c s)
  show ?case
  proof (cases "c = CHR ''$'' \<and> s \<noteq> [] \<and> (hd s = CHR ''t'' \<or> hd s = CHR ''T'')")
    case True
    from jsonbuf.emits_bind [OF append_raw_emits 2(1) [OF True]] True show ?thesis by (simp add: Let_def)
  next
    case False
    from jsonbuf.emits_bind [OF append_raw_emits [of "[c]"] 2(2) [OF False]] False
    show ?thesis by (simp only: resolve_loop.simps expand.simps append_raw_one if_False append.simps)
  qed
qed

lemma hu_dag_resolve_vars_eq:
  assumes "length (expand dag s) + 1 < 2 ^ 63"
  shows "hu_dag_resolve_vars dag (Some s) = Ret (expand dag s)"
proof (cases "s = []")
  case False
  have room: "jb_room jbuf_empty (length (expand dag s) + 1)" using assms by (simp add: jb_room_def jbuf_empty_def)
  then obtain b where b: "resolve_loop dag s jbuf_empty = Ret b"
    using jsonbuf.emits_room [OF resolve_loop_emits] jsonbuf.room_le by (metis le_add1)
  have data: "jb_data b = expand dag s"
    using jsonbuf.emits_bytes [OF resolve_loop_emits b] by (simp add: jbuf_empty_def)
  have "jb_room b 1" using assms data by (simp add: jb_room_def)
  then obtain b2 where b2: "hu_json_buf_append_raw b (Some [NUL]) 1 = Ret b2"
    using jsonbuf.emits_room [OF append_raw_emits [of "[NUL]"], of b] by auto
  have "jb_data b2 = jb_data b @ [NUL]"
    using jsonbuf.emits_bytes [OF append_raw_emits [of "[NUL]"], of b b2] b2 by simp
  with b b2 data False show ?thesis by (simp add: hu_dag_resolve_vars_def)
qed (simp add: hu_dag_resolve_vars_def)

lemma expand_plain: "CHR ''$'' \<notin> set a \<Longrightarrow> expand dag (a @ s) = a @ expand dag s"
  by (induction a) auto

section \<open>Properties\<close>

text \<open>C30: validation is exact: it accepts precisely the graphs whose ids are distinct, whose
  dependencies all exist and whose dependency relation has no cycle, and names the first of these
  that fails, in that order.\<close>

theorem dag_validate_exact:
  "hu_dag_validate dag =
     (if \<not> distinct (map dn_id (dag_nodes dag)) then Err HU_ERR_ALREADY_EXISTS
      else if \<exists>n \<in> set (dag_nodes dag). \<exists>d \<in> set (dn_deps n). d \<notin> dn_id ` set (dag_nodes dag)
      then Err HU_ERR_NOT_FOUND
      else if \<exists>i. (i, i) \<in> (dep_edge dag)\<^sup>+ then Err HU_ERR_PARSE else Ret ())"
proof -
  have "(\<forall>m \<in> set (dag_nodes dag). dn_id m \<noteq> d) \<longleftrightarrow> d \<notin> dn_id ` set (dag_nodes dag)" for d by auto
  then show ?thesis unfolding hu_dag_validate_eq dag_cyclic_def by simp
qed

definition sample_dag :: hu_dag where
  "sample_dag = \<lparr>dag_nodes =
     [\<lparr>dn_id = ''t1'', dn_tool_name = ''file_read'', dn_args_json = None, dn_deps = [], dn_status = HU_DAG_DONE,
       dn_result = Some ''ok''\<rparr>,
      \<lparr>dn_id = ''t2'', dn_tool_name = ''shell'', dn_args_json = Some ''{}'', dn_deps = [''t1''],
       dn_status = HU_DAG_PENDING, dn_result = None\<rparr>]\<rparr>"

text \<open>C31: the next batch is exactly the first eight, in the order of the array, of the nodes that are pending and
  whose dependencies are all done (all of them when there are fewer); the nodes of the batch are marked ready and
  nothing else changes.\<close>

theorem dag_next_batch_exact:
  "hu_dag_next_batch dag =
     (let b = take 8 (filter (\<lambda>i. dn_status (dag_nodes dag ! i) = HU_DAG_PENDING \<and>
                 (\<forall>d \<in> set (dn_deps (dag_nodes dag ! i)).
                    \<exists>j. hu_dag_find_node dag d = Some j \<and> dn_status (dag_nodes dag ! j) = HU_DAG_DONE))
               [0..<length (dag_nodes dag)])
      in (mark_ready dag b, b))"
proof -
  have el: "eligible dag = (\<lambda>i. dn_status (dag_nodes dag ! i) = HU_DAG_PENDING \<and>
      (\<forall>d \<in> set (dn_deps (dag_nodes dag ! i)).
         \<exists>j. hu_dag_find_node dag d = Some j \<and> dn_status (dag_nodes dag ! j) = HU_DAG_DONE))"
    by (rule ext) (auto simp: eligible_def node_ready_def list_all_iff split: option.splits)
  show ?thesis unfolding el [symmetric] hu_dag_next_batch_eq HU_DAG_MAX_BATCH_SIZE_def Let_def by (rule refl)
qed

lemma dag_next_batch_exact_witness:
  "hu_dag_next_batch sample_dag = (mark_ready sample_dag [1], [1])"
  unfolding dag_next_batch_exact by (simp add: sample_dag_def hu_dag_find_node_def upt_rec Let_def)

text \<open>C36: a validated graph never gets stuck: as long as every node is pending or done and not all are
  done, the next batch is not empty.\<close>

theorem dag_batch_progress:
  assumes "hu_dag_validate dag = Ret ()"
    and "\<forall>n \<in> set (dag_nodes dag). dn_status n = HU_DAG_PENDING \<or> dn_status n = HU_DAG_DONE"
    and "\<not> hu_dag_is_complete dag"
  shows "snd (hu_dag_next_batch dag) \<noteq> []"
  using eligible_exists [OF assms]
  by (auto simp: hu_dag_next_batch_eq HU_DAG_MAX_BATCH_SIZE_def Let_def filter_empty_conv)

lemma dag_batch_progress_witness: "snd (hu_dag_next_batch sample_dag) \<noteq> []"
proof (rule dag_batch_progress)
  show "hu_dag_validate sample_dag = Ret ()"
    by (simp add: hu_dag_validate_def sample_dag_def hu_dag_find_node_def upt_rec)
  show "\<forall>n \<in> set (dag_nodes sample_dag). dn_status n = HU_DAG_PENDING \<or> dn_status n = HU_DAG_DONE"
    by (simp add: sample_dag_def)
  show "\<not> hu_dag_is_complete sample_dag" by (simp add: hu_dag_is_complete_def sample_dag_def)
qed

text \<open>A reference to the result of a finished node is replaced by exactly that result, whatever
  surrounds it, and the text before it is copied unchanged.\<close>

theorem dag_resolve_reference:
  assumes "CHR ''$'' \<notin> set a" "c = CHR ''t'' \<or> c = CHR ''T''" "\<forall>x \<in> set w. is_alnum x"
    and "b = [] \<or> \<not> is_alnum (hd b)"
    and "hu_dag_find_node dag (c # w) = Some j" "dn_status (dag_nodes dag ! j) = HU_DAG_DONE"
    and "dn_result (dag_nodes dag ! j) = Some res" "res \<noteq> []"
    and "hu_dag_resolve_vars dag (Some b) = Ret out" "length a + length res + length (expand dag b) < 2 ^ 62"
  shows "hu_dag_resolve_vars dag (Some (a @ CHR ''$'' # c # w @ b)) = Ret (a @ res @ out)"
proof -
  have tw: "takeWhile is_alnum (w @ b) = w" "dropWhile is_alnum (w @ b) = b"
    using takeWhile_append_stop [of w is_alnum b] dropWhile_append_stop [of w is_alnum b] assms(3,4) by blast+
  have e: "expand dag (a @ CHR ''$'' # c # w @ b) = a @ res @ expand dag b"
    using assms(2,5-8) by (auto simp: expand_plain [OF assms(1)] tw resolve_ref_def Let_def)
  have "out = expand dag b" using hu_dag_resolve_vars_eq [of dag b] assms(9,10) by simp
  with e assms(10) hu_dag_resolve_vars_eq [of dag "a @ CHR ''$'' # c # w @ b"] show ?thesis by simp
qed

lemma dag_resolve_reference_witness:
  "hu_dag_resolve_vars sample_dag (Some ''x=$t1!'') = Ret ''x=ok!''"
proof -
  have "hu_dag_resolve_vars sample_dag (Some ''!'') = Ret ''!''"
    by (rule trans [OF hu_dag_resolve_vars_eq]) simp_all
  moreover have "hu_dag_find_node sample_dag ''t1'' = Some 0" by (simp add: hu_dag_find_node_def sample_dag_def)
  ultimately show ?thesis
    using dag_resolve_reference [of "''x=''" "CHR ''t''" "''1''" "''!''" sample_dag 0 "''ok''" "''!''"]
    by (simp add: sample_dag_def is_alnum_def is_digit_def is_lower_def is_upper_def cval_def)
qed

end
