(* ===== verification/HuIdem.thy ===== *)
theory HuIdem
  imports HuJson "HOL-Library.Word"
begin

text \<open>
  \<^verbatim>\<open>src/agent/idempotency.c\<close>: the registry that replays the result of a tool call that was made
  before with the same arguments.

  The registry is its 128 buckets of entries and its counters; the capacity of a bucket, which no
  branch depends on once allocations succeed, is left out.  Keys and results are C strings.  Every
  call of \<^verbatim>\<open>time\<close> is an argument.
\<close>

unbundle bit_operations_syntax

section \<open>Keys\<close>

definition fnv1a_hash :: "string \<Rightarrow> 64 word" where
  "fnv1a_hash data =
     foldl (\<lambda>h c. (h XOR word_of_nat (cval c)) * 1099511628211) 14695981039346656037 data"

text \<open>\<^verbatim>\<open>%016llx\<close>.\<close>

definition hex16 :: "64 word \<Rightarrow> string" where
  "hex16 w = map (\<lambda>i. hex_digit (unat (drop_bit (60 - 4 * i) w) mod 16)) [0..<16]"

lemma length_hex16 [simp]: "length (hex16 w) = 16"
  by (simp add: hex16_def)

definition hu_idempotency_key_generate :: "string \<Rightarrow> string option \<Rightarrow> string" where
  "hu_idempotency_key_generate tool_name args_json =
     tool_name @ '':'' @ hex16 (fnv1a_hash (case args_json of None \<Rightarrow> [] | Some a \<Rightarrow> a))"

section \<open>Registry\<close>

record idem_entry =
  ie_key :: string
  ie_result_json :: string
  ie_is_error :: bool
  ie_created_at :: int
  ie_expires_at :: int

record idem_registry =
  ir_buckets :: "idem_entry list list"
  ir_total_entries :: nat
  ir_total_hits :: nat
  ir_total_misses :: nat

definition HU_IDEMPOTENCY_BUCKET_COUNT :: nat where
  "HU_IDEMPOTENCY_BUCKET_COUNT = 128"

definition HU_IDEMPOTENCY_MAX_ENTRIES :: nat where
  "HU_IDEMPOTENCY_MAX_ENTRIES = 4096"

definition hu_idempotency_create :: idem_registry where
  "hu_idempotency_create =
     \<lparr>ir_buckets = replicate HU_IDEMPOTENCY_BUCKET_COUNT [], ir_total_entries = 0,
      ir_total_hits = 0, ir_total_misses = 0\<rparr>"

definition bucket_find :: "idem_entry list \<Rightarrow> string \<Rightarrow> idem_entry option" where
  "bucket_find bucket key = List.find (\<lambda>e. ie_key e = key) bucket"

definition bucket_idx :: "idem_registry \<Rightarrow> string \<Rightarrow> nat" where
  "bucket_idx reg key = unat (fnv1a_hash key) mod length (ir_buckets reg)"

definition entry_expired :: "int \<Rightarrow> idem_entry \<Rightarrow> bool" where
  "entry_expired now e = (if ie_expires_at e = 0 then False else ie_expires_at e \<le> now)"

text \<open>\<^verbatim>\<open>key_buf\<close> has 256 bytes; a longer key is never looked up.\<close>

definition hu_idempotency_check ::
    "int \<Rightarrow> idem_registry \<Rightarrow> string \<Rightarrow> string \<Rightarrow> idem_registry \<times> idem_entry option" where
  "hu_idempotency_check now reg tool_name args_json =
     (let key = tool_name @ '':'' @ hex16 (fnv1a_hash args_json) in
      if length key \<ge> 256 then (reg, None)
      else (case bucket_find (ir_buckets reg ! bucket_idx reg key) key of
              None \<Rightarrow> (reg\<lparr>ir_total_misses := ir_total_misses reg + 1\<rparr>, None)
            | Some e \<Rightarrow>
                if entry_expired now e then (reg\<lparr>ir_total_misses := ir_total_misses reg + 1\<rparr>, None)
                else (reg\<lparr>ir_total_hits := ir_total_hits reg + 1\<rparr>, Some e)))"

text \<open>The first of the entries with the smallest creation time.\<close>

fun oldest_loop :: "nat \<Rightarrow> int \<Rightarrow> nat \<Rightarrow> idem_entry list \<Rightarrow> nat" where
  "oldest_loop best t i [] = best"
| "oldest_loop best t i (e # es) =
     (if ie_created_at e < t then oldest_loop i (ie_created_at e) (Suc i) es
      else oldest_loop best t (Suc i) es)"

definition oldest_idx :: "idem_entry list \<Rightarrow> nat" where
  "oldest_idx es = (case es of [] \<Rightarrow> 0 | e # r \<Rightarrow> oldest_loop 0 (ie_created_at e) 1 r)"

definition remove_idx :: "nat \<Rightarrow> 'a list \<Rightarrow> 'a list" where
  "remove_idx i xs = take i xs @ drop (Suc i) xs"

text \<open>The entry found by \<^verbatim>\<open>bucket_find\<close> is updated in place.\<close>

fun update_entry :: "idem_entry list \<Rightarrow> string \<Rightarrow> string \<Rightarrow> bool \<Rightarrow> int \<Rightarrow> idem_entry list" where
  "update_entry [] key res is_err now = []"
| "update_entry (e # es) key res is_err now =
     (if ie_key e = key
      then e\<lparr>ie_result_json := res, ie_is_error := is_err, ie_created_at := now, ie_expires_at := 0\<rparr> # es
      else e # update_entry es key res is_err now)"

definition hu_idempotency_record ::
    "int \<Rightarrow> idem_registry \<Rightarrow> string \<Rightarrow> string \<Rightarrow> string \<Rightarrow> bool \<Rightarrow> idem_registry" where
  "hu_idempotency_record now reg tool_name args_json result_json is_err =
     (let key = hu_idempotency_key_generate tool_name (Some args_json);
          i = bucket_idx reg key;
          bucket = ir_buckets reg ! i
      in if bucket_find bucket key \<noteq> None
         then reg\<lparr>ir_buckets := (ir_buckets reg)[i := update_entry bucket key result_json is_err now]\<rparr>
         else
           let evict = ir_total_entries reg \<ge> HU_IDEMPOTENCY_MAX_ENTRIES \<and> bucket \<noteq> [];
               kept = (if evict then remove_idx (oldest_idx bucket) bucket else bucket);
               total = (if evict then ir_total_entries reg - 1 else ir_total_entries reg);
               e = \<lparr>ie_key = key, ie_result_json = result_json, ie_is_error = is_err,
                    ie_created_at = now, ie_expires_at = 0\<rparr>
           in reg\<lparr>ir_buckets := (ir_buckets reg)[i := kept @ [e]], ir_total_entries := total + 1\<rparr>)"

definition hu_idempotency_clear :: "idem_registry \<Rightarrow> idem_registry" where
  "hu_idempotency_clear reg =
     \<lparr>ir_buckets = map (\<lambda>_. []) (ir_buckets reg), ir_total_entries = 0, ir_total_hits = 0, ir_total_misses = 0\<rparr>"

record idem_stats =
  is_entry_count :: nat
  is_max_entries :: nat
  is_total_hits :: nat
  is_total_misses :: nat

definition hu_idempotency_stats :: "idem_registry \<Rightarrow> idem_stats" where
  "hu_idempotency_stats reg =
     \<lparr>is_entry_count = ir_total_entries reg, is_max_entries = HU_IDEMPOTENCY_MAX_ENTRIES,
      is_total_hits = ir_total_hits reg, is_total_misses = ir_total_misses reg\<rparr>"

section \<open>The invariant\<close>

definition idem_ok :: "idem_registry \<Rightarrow> bool" where
  "idem_ok reg \<longleftrightarrow> length (ir_buckets reg) = 128 \<and>
     ir_total_entries reg = sum_list (map length (ir_buckets reg)) \<and>
     ir_total_entries reg \<le> 4095 + length (filter (\<lambda>b. b \<noteq> []) (ir_buckets reg))"

lemma idem_ok_create: "idem_ok hu_idempotency_create"
  by (simp add: idem_ok_def hu_idempotency_create_def HU_IDEMPOTENCY_BUCKET_COUNT_def sum_list_replicate)

lemma update_entry_length [simp]: "length (update_entry es key res ie now) = length es"
  by (induction es) auto

lemma update_entry_Nil [simp]: "update_entry es key res ie now = [] \<longleftrightarrow> es = []"
  by (cases es) auto

lemma oldest_loop_bound: "best < i \<Longrightarrow> oldest_loop best t i es < i + length es"
proof (induction es arbitrary: best t i)
  case (Cons e es)
  from Cons.IH [of i "Suc i" "ie_created_at e"] Cons.IH [of best "Suc i" t] Cons.prems show ?case by simp
qed simp

lemma oldest_idx_bound: "es \<noteq> [] \<Longrightarrow> oldest_idx es < length es"
  using oldest_loop_bound [of 0 1] by (auto simp: oldest_idx_def split: list.split)

lemma remove_idx_length: "i < length xs \<Longrightarrow> length (remove_idx i xs) = length xs - 1"
  by (simp add: remove_idx_def)

lemma bucket_idx_less: "idem_ok reg \<Longrightarrow> bucket_idx reg key < length (ir_buckets reg)"
  by (simp add: bucket_idx_def idem_ok_def)

lemma sum_list_update_nat:
  "i < length xs \<Longrightarrow> sum_list (map length (xs[i := x])) + length (xs ! i) = sum_list (map length xs) + length x"
proof (induction xs arbitrary: i)
  case (Cons y xs)
  then show ?case by (cases i) auto
qed simp

lemma filter_update_count:
  "i < length xs \<Longrightarrow> x \<noteq> [] \<Longrightarrow> length (filter (\<lambda>b. b \<noteq> []) (xs[i := x])) =
     length (filter (\<lambda>b. b \<noteq> []) xs) + (if xs ! i = [] then 1 else 0)"
proof (induction xs arbitrary: i)
  case (Cons y xs)
  then show ?case by (cases i) auto
qed simp

lemma nonempty_member: "i < length xs \<Longrightarrow> xs ! i \<noteq> [] \<Longrightarrow> 1 \<le> length (filter (\<lambda>b. b \<noteq> []) xs)"
proof -
  assume "i < length xs" "xs ! i \<noteq> []"
  then have "xs ! i \<in> set (filter (\<lambda>b. b \<noteq> []) xs)" by simp
  then have "0 < length (filter (\<lambda>b. b \<noteq> []) xs)" by (rule length_pos_if_in_set)
  then show ?thesis by (simp only: One_nat_def Suc_le_eq)
qed

lemma idem_ok_record:
  assumes ok: "idem_ok reg" shows "idem_ok (hu_idempotency_record now reg tool args res ie)"
proof -
  define key where "key = hu_idempotency_key_generate tool (Some args)"
  define i where "i = bucket_idx reg key"
  define bk where "bk = ir_buckets reg ! i"
  have i: "i < length (ir_buckets reg)" using bucket_idx_less [OF ok] by (simp add: i_def)
  note sl = sum_list_update_nat [OF i]
  have tot: "length bk \<le> ir_total_entries reg"
    using ok i elem_le_sum_list [of i "map length (ir_buckets reg)"] by (simp add: idem_ok_def bk_def)
  show ?thesis
  proof (cases "bucket_find bk key = None")
    case False
    then have r: "hu_idempotency_record now reg tool args res ie =
        reg\<lparr>ir_buckets := (ir_buckets reg)[i := update_entry bk key res ie now]\<rparr>"
      by (simp add: hu_idempotency_record_def key_def [symmetric] i_def [symmetric] bk_def [symmetric])
    have "bk \<noteq> []" using False by (auto simp: bucket_find_def)
    then have "length (filter (\<lambda>b. b \<noteq> []) ((ir_buckets reg)[i := update_entry bk key res ie now])) =
        length (filter (\<lambda>b. b \<noteq> []) (ir_buckets reg))"
      by (subst filter_update_count [OF i]) (auto simp: bk_def)
    with ok sl [of "update_entry bk key res ie now"] show ?thesis by (simp add: idem_ok_def r bk_def)
  next
    case True
    define ev where "ev \<longleftrightarrow> ir_total_entries reg \<ge> HU_IDEMPOTENCY_MAX_ENTRIES \<and> bk \<noteq> []"
    define kept where "kept = (if ev then remove_idx (oldest_idx bk) bk else bk)"
    define e where "e = \<lparr>ie_key = key, ie_result_json = res, ie_is_error = ie, ie_created_at = now, ie_expires_at = 0\<rparr>"
    have r: "hu_idempotency_record now reg tool args res ie = reg\<lparr>ir_buckets := (ir_buckets reg)[i := kept @ [e]],
        ir_total_entries := (if ev then ir_total_entries reg - 1 else ir_total_entries reg) + 1\<rparr>"
      using True by (simp add: hu_idempotency_record_def key_def [symmetric] i_def [symmetric] bk_def [symmetric]
          Let_def ev_def kept_def e_def)
    have kl: "length kept = (if ev then length bk - 1 else length bk)"
      using oldest_idx_bound [of bk] by (auto simp: kept_def ev_def remove_idx_length)
    have cnt: "length (filter (\<lambda>b. b \<noteq> []) ((ir_buckets reg)[i := kept @ [e]])) =
        length (filter (\<lambda>b. b \<noteq> []) (ir_buckets reg)) + (if bk = [] then 1 else 0)"
      by (subst filter_update_count [OF i]) (auto simp: bk_def)
    have ne: "bk \<noteq> [] \<Longrightarrow> 1 \<le> length (filter (\<lambda>b. b \<noteq> []) (ir_buckets reg))"
      using nonempty_member [OF i] by (simp add: bk_def)
    have bkl: "ev \<Longrightarrow> 1 \<le> length bk" by (simp add: ev_def Suc_leI)
    show ?thesis
      using ok sl [of "kept @ [e]"] kl cnt ne bkl tot
      by (auto simp: idem_ok_def r bk_def [symmetric] ev_def HU_IDEMPOTENCY_MAX_ENTRIES_def)
  qed
qed

section \<open>Finding what was recorded\<close>

lemma bucket_find_append:
  "bucket_find (xs @ [e]) key = (case bucket_find xs key of Some x \<Rightarrow> Some x | None \<Rightarrow> if ie_key e = key then Some e else None)"
  by (induction xs) (auto simp: bucket_find_def)

lemma bucket_find_update:
  "bucket_find (update_entry es key res ie now) k =
     (if k = key then map_option (\<lambda>e. e\<lparr>ie_result_json := res, ie_is_error := ie, ie_created_at := now, ie_expires_at := 0\<rparr>)
        (bucket_find es key) else bucket_find es k)"
  by (induction es) (auto simp: bucket_find_def)

lemma bucket_find_None: "bucket_find es key = None \<longleftrightarrow> (\<forall>e \<in> set es. ie_key e \<noteq> key)"
  by (auto simp: bucket_find_def find_None_iff)

lemma remove_idx_sub: "set (remove_idx i xs) \<subseteq> set xs"
  by (auto simp: remove_idx_def dest: in_set_takeD in_set_dropD)

definition lookup_key :: "idem_registry \<Rightarrow> string \<Rightarrow> idem_entry option" where
  "lookup_key reg key = bucket_find (ir_buckets reg ! bucket_idx reg key) key"

lemma record_lookup_same:
  assumes ok: "idem_ok reg" and key: "key = hu_idempotency_key_generate tool (Some args)"
  shows "\<exists>e. lookup_key (hu_idempotency_record now reg tool args res ie) key = Some e \<and>
     ie_result_json e = res \<and> ie_is_error e = ie \<and> ie_expires_at e = 0"
proof -
  let ?i = "bucket_idx reg key"
  have i: "?i < length (ir_buckets reg)" using bucket_idx_less [OF ok] .
  show ?thesis
  proof (cases "bucket_find (ir_buckets reg ! ?i) key")
    case None
    have "bucket_find (remove_idx n (ir_buckets reg ! ?i)) key = None" for n
      using None remove_idx_sub [of n "ir_buckets reg ! ?i"] by (auto simp: bucket_find_None)
    with None i show ?thesis
      by (auto simp: hu_idempotency_record_def key [symmetric] Let_def lookup_key_def bucket_idx_def bucket_find_append)
  next
    case (Some e)
    with i show ?thesis
      by (auto simp: hu_idempotency_record_def key [symmetric] Let_def lookup_key_def bucket_idx_def bucket_find_update)
  qed
qed

lemma record_lookup_other:
  assumes ok: "idem_ok reg" and key: "key \<noteq> hu_idempotency_key_generate tool (Some args)"
    and room: "ir_total_entries reg < HU_IDEMPOTENCY_MAX_ENTRIES"
  shows "lookup_key (hu_idempotency_record now reg tool args res ie) key = lookup_key reg key"
proof -
  let ?k = "hu_idempotency_key_generate tool (Some args)"
  have i: "bucket_idx reg ?k < length (ir_buckets reg)" "bucket_idx reg key < length (ir_buckets reg)"
    using bucket_idx_less [OF ok] by auto
  show ?thesis
  proof (cases "bucket_idx reg key = bucket_idx reg ?k")
    case True
    with i key room show ?thesis
      by (auto simp: hu_idempotency_record_def Let_def lookup_key_def bucket_idx_def bucket_find_update bucket_find_append
          split: option.split)
  next
    case False
    with i room show ?thesis
      by (auto simp: hu_idempotency_record_def Let_def lookup_key_def bucket_idx_def)
  qed
qed

text \<open>A sequence of recorded calls.\<close>

fun record_all :: "idem_registry \<Rightarrow> (int \<times> string \<times> string \<times> string \<times> bool) list \<Rightarrow> idem_registry" where
  "record_all reg [] = reg"
| "record_all reg ((now, tool, args, res, ie) # cs) = record_all (hu_idempotency_record now reg tool args res ie) cs"

lemma idem_ok_record_all: "idem_ok reg \<Longrightarrow> idem_ok (record_all reg cs)"
proof (induction cs arbitrary: reg)
  case (Cons c cs)
  then show ?case by (cases c) (simp add: idem_ok_record)
qed simp

section \<open>Properties\<close>

text \<open>A use of the registry.\<close>

datatype idem_call = IdemRecord int string string string bool | IdemCheck int string string | IdemClear

definition idem_step :: "idem_registry \<Rightarrow> idem_call \<Rightarrow> idem_registry" where
  "idem_step reg c =
     (case c of
        IdemRecord now tool args res ie \<Rightarrow> hu_idempotency_record now reg tool args res ie
      | IdemCheck now tool args \<Rightarrow> fst (hu_idempotency_check now reg tool args)
      | IdemClear \<Rightarrow> hu_idempotency_clear reg)"

text \<open>What was recorded last for a key since the registry was cleared.\<close>

definition last_recorded :: "string \<Rightarrow> idem_call list \<Rightarrow> (string \<times> bool) option" where
  "last_recorded key cs =
     foldl (\<lambda>r c. case c of
              IdemRecord now tool args res ie \<Rightarrow>
                if hu_idempotency_key_generate tool (Some args) = key then Some (res, ie) else r
            | IdemCheck now tool args \<Rightarrow> r
            | IdemClear \<Rightarrow> None) None cs"

definition recordings :: "idem_call list \<Rightarrow> nat" where
  "recordings cs = length (filter (\<lambda>c. case c of IdemRecord _ _ _ _ _ \<Rightarrow> True | _ \<Rightarrow> False) cs)"

definition idem_answers :: "idem_registry \<Rightarrow> (string \<Rightarrow> (string \<times> bool) option) \<Rightarrow> bool" where
  "idem_answers reg f \<longleftrightarrow> (\<forall>key. case lookup_key reg key of
      None \<Rightarrow> f key = None | Some e \<Rightarrow> f key = Some (ie_result_json e, ie_is_error e) \<and> ie_expires_at e = 0)"

lemma check_fields:
  "ir_buckets (fst (hu_idempotency_check now reg tool args)) = ir_buckets reg"
  "ir_total_entries (fst (hu_idempotency_check now reg tool args)) = ir_total_entries reg"
  by (auto simp: hu_idempotency_check_def Let_def split: option.split)

lemma lookup_buckets: "ir_buckets r = ir_buckets reg \<Longrightarrow> lookup_key r = lookup_key reg"
  by (simp add: lookup_key_def bucket_idx_def fun_eq_iff)

lemma record_total: "ir_total_entries (hu_idempotency_record now reg tool args res ie) \<le> ir_total_entries reg + 1"
  by (simp add: hu_idempotency_record_def Let_def)

lemma idem_clear_ok:
  assumes "idem_ok reg"
  shows "idem_ok (hu_idempotency_clear reg)" and "lookup_key (hu_idempotency_clear reg) key = None"
proof -
  have "map (\<lambda>_. []) (ir_buckets reg) = replicate 128 ([] :: idem_entry list)"
    using assms by (simp add: idem_ok_def map_replicate_const)
  then show "idem_ok (hu_idempotency_clear reg)" "lookup_key (hu_idempotency_clear reg) key = None"
    using bucket_idx_less [OF assms, of key] assms
    by (simp_all add: idem_ok_def hu_idempotency_clear_def sum_list_replicate lookup_key_def bucket_idx_def bucket_find_def)
qed

lemma idem_run:
  assumes "recordings cs \<le> 4096" and "reg = foldl idem_step hu_idempotency_create cs"
  shows "idem_ok reg \<and> ir_total_entries reg \<le> recordings cs \<and> idem_answers reg (\<lambda>key. last_recorded key cs)"
  using assms
proof (induction cs arbitrary: reg rule: rev_induct)
  case Nil
  then show ?case using idem_ok_create bucket_idx_less [OF idem_ok_create]
    by (simp add: idem_answers_def last_recorded_def lookup_key_def hu_idempotency_create_def bucket_find_def bucket_idx_def
        HU_IDEMPOTENCY_BUCKET_COUNT_def)
next
  case (snoc c cs)
  define r where "r = foldl idem_step hu_idempotency_create cs"
  have r: "idem_ok r" "ir_total_entries r \<le> recordings cs" "idem_answers r (\<lambda>key. last_recorded key cs)"
    using snoc.IH [OF _ r_def] snoc.prems(1) by (auto simp: recordings_def)
  have reg: "reg = idem_step r c" using snoc.prems(2) by (simp add: r_def)
  show ?case
  proof (cases c)
    case (IdemRecord now tool args res ie)
    then have room: "ir_total_entries r < HU_IDEMPOTENCY_MAX_ENTRIES"
      using r(2) snoc.prems(1) by (simp add: recordings_def HU_IDEMPOTENCY_MAX_ENTRIES_def)
    have g: "reg = hu_idempotency_record now r tool args res ie" by (simp add: reg IdemRecord idem_step_def)
    let ?k = "hu_idempotency_key_generate tool (Some args)"
    have "case lookup_key reg key of None \<Rightarrow> last_recorded key (cs @ [c]) = None
        | Some e \<Rightarrow> last_recorded key (cs @ [c]) = Some (ie_result_json e, ie_is_error e) \<and> ie_expires_at e = 0" for key
    proof (cases "key = ?k")
      case True
      then show ?thesis using record_lookup_same [OF r(1) refl, of now tool args res ie] g
        by (auto simp: last_recorded_def IdemRecord)
    next
      case False
      then have "lookup_key reg key = lookup_key r key" unfolding g by (rule record_lookup_other [OF r(1) _ room])
      moreover have "last_recorded key (cs @ [c]) = last_recorded key cs" using False by (auto simp: last_recorded_def IdemRecord)
      ultimately show ?thesis using r(3) [unfolded idem_answers_def, rule_format, of key] by (simp split: option.splits)
    qed
    then have "idem_answers reg (\<lambda>key. last_recorded key (cs @ [c]))" unfolding idem_answers_def by (rule allI)
    then show ?thesis using r(2) idem_ok_record [OF r(1)] record_total [of now r tool args res ie]
      by (simp add: g recordings_def IdemRecord)
  next
    case (IdemCheck now tool args)
    then have g: "reg = fst (hu_idempotency_check now r tool args)" by (simp add: reg idem_step_def)
    then show ?thesis using r lookup_buckets [of reg r] check_fields [of now r tool args]
      by (simp add: idem_ok_def idem_answers_def last_recorded_def recordings_def IdemCheck)
  next
    case IdemClear
    then have g: "reg = hu_idempotency_clear r" by (simp add: reg idem_step_def)
    then show ?thesis using idem_clear_ok [OF r(1)]
      by (auto simp: idem_answers_def last_recorded_def recordings_def IdemClear hu_idempotency_clear_def)
  qed
qed

text \<open>C38: for tool names of at most 238 characters the registry replays exactly what was recorded: however often it was
  asked, filled and cleared, with at most 4096 recordings, a check hits if and only if a result was recorded since the
  last clearing for the key of the tool and its arguments, and hands out the one recorded last.  (The key
  holds a 64-bit hash of the arguments in their place; longer names never hit, and beyond 4096 entries old ones
  are evicted.)\<close>

theorem idempotency_replay:
  assumes "recordings cs \<le> 4096" "length tool \<le> 238"
  shows "map_option (\<lambda>e. (ie_result_json e, ie_is_error e))
      (snd (hu_idempotency_check now (foldl idem_step hu_idempotency_create cs) tool args)) =
    last_recorded (hu_idempotency_key_generate tool (Some args)) cs"
proof -
  let ?reg = "foldl idem_step hu_idempotency_create cs" and ?k = "hu_idempotency_key_generate tool (Some args)"
  have "snd (hu_idempotency_check now ?reg tool args) =
      (case lookup_key ?reg ?k of None \<Rightarrow> None | Some e \<Rightarrow> if entry_expired now e then None else Some e)"
    using assms(2) by (auto simp: hu_idempotency_check_def Let_def lookup_key_def hu_idempotency_key_generate_def split: option.split)
  moreover have "case lookup_key ?reg ?k of None \<Rightarrow> last_recorded ?k cs = None
      | Some e \<Rightarrow> last_recorded ?k cs = Some (ie_result_json e, ie_is_error e) \<and> ie_expires_at e = 0"
    using idem_run [OF assms(1) refl] by (simp add: idem_answers_def)
  ultimately show ?thesis by (auto simp: entry_expired_def split: option.split_asm)
qed

definition replay_calls :: "idem_call list" where
  "replay_calls = [IdemRecord 7 ''shell'' ''{}'' ''done'' False, IdemCheck 8 ''shell'' ''{}'', IdemRecord 9 ''shell'' ''{}'' ''again'' True]"

lemma idempotency_replay_witness:
  "map_option (\<lambda>e. (ie_result_json e, ie_is_error e))
     (snd (hu_idempotency_check 9 (foldl idem_step hu_idempotency_create replay_calls) ''shell'' ''{}'')) = Some (''again'', True)"
proof -
  have "recordings replay_calls \<le> 4096" by (simp add: replay_calls_def recordings_def)
  from idempotency_replay [OF this, of "''shell''" 9 "''{}''"] show ?thesis
    by (simp add: replay_calls_def last_recorded_def)
qed

text \<open>The registry is bounded, but not by its documented maximum of 4096: a bucket that is empty
  takes a new entry without an eviction, so up to 4095 entries and one more for every bucket are kept.\<close>

theorem idempotency_bounded:
  "ir_total_entries (record_all hu_idempotency_create cs) \<le> 4223 \<and>
   sum_list (map length (ir_buckets (record_all hu_idempotency_create cs))) =
     ir_total_entries (record_all hu_idempotency_create cs)"
proof -
  have ok: "idem_ok (record_all hu_idempotency_create cs)" by (rule idem_ok_record_all [OF idem_ok_create])
  have "length (filter (\<lambda>b. b \<noteq> []) (ir_buckets (record_all hu_idempotency_create cs))) \<le> 128"
    using ok length_filter_le [of _ "ir_buckets (record_all hu_idempotency_create cs)"] by (simp add: idem_ok_def)
  with ok show ?thesis by (simp add: idem_ok_def)
qed

text \<open>A tool whose name has more than 238 characters is never replayed: the lookup gives up on the
  length of the key, whatever was recorded.\<close>

theorem idempotency_long_name_never_hits:
  assumes "238 < length tool"
  shows "hu_idempotency_check later reg tool args = (reg, None)"
  using assms by (simp add: hu_idempotency_check_def Let_def)

lemma idempotency_long_name_never_hits_witness:
  "hu_idempotency_check 1 hu_idempotency_create (replicate 239 CHR ''a'') ''{}'' = (hu_idempotency_create, None)"
  by (rule idempotency_long_name_never_hits) simp

end
