(* ===== verification/HuHula.thy ===== *)
theory HuHula
  imports HuDag HuIdem HuPolicy
begin

text \<open>
  \<^verbatim>\<open>src/agent/hula.c\<close>, first part: HuLa programs, the node arena, parsing, serialising and
  validating.

  A program owns one array of nodes.  \<^verbatim>\<open>hu_hula_program_alloc_node\<close> replaces the array when it is
  full and moves the nodes; it adjusts the \<open>children\<close> and \<open>root\<close> pointers inside the
  program, so these are modelled as positions in the array, but it cannot adjust the pointers its
  callers keep in local variables.  Such a pointer is a pair of the generation of the array it points
  into and the position; an access through it once the array was replaced is
  \<open>Undef UseAfterFree\<close>.

  The depth argument of the recursive functions becomes the number of levels that are left,
  \<^verbatim>\<open>HU_HULA_MAX_DEPTH + 1 - depth\<close>: level 0 is the branch the code takes at a depth beyond the
  maximum, so these functions need no fuel.  The lengths stored beside the strings of a node are the
  \<^verbatim>\<open>strlen\<close> of what was copied and are left out.
\<close>

definition HU_HULA_MAX_CHILDREN :: nat where
  "HU_HULA_MAX_CHILDREN = 32"

definition HU_HULA_MAX_DEPTH :: nat where
  "HU_HULA_MAX_DEPTH = 16"

definition HU_HULA_MAX_NODES :: nat where
  "HU_HULA_MAX_NODES = 128"

definition HU_HULA_VERSION :: nat where
  "HU_HULA_VERSION = 1"

definition HU_HULA_MAX_DIAGS :: nat where
  "HU_HULA_MAX_DIAGS = 32"

section \<open>Opcodes, predicates, nodes\<close>

datatype hula_op =
    HU_HULA_CALL | HU_HULA_SEQ | HU_HULA_PAR | HU_HULA_BRANCH | HU_HULA_LOOP
  | HU_HULA_DELEGATE | HU_HULA_EMIT | HU_HULA_TRY | HU_HULA_VERIFY

datatype hula_pred =
    HU_HULA_PRED_SUCCESS | HU_HULA_PRED_FAILURE | HU_HULA_PRED_CONTAINS
  | HU_HULA_PRED_NOT_CONTAINS | HU_HULA_PRED_ALWAYS

datatype hula_status =
    HU_HULA_PENDING | HU_HULA_RUNNING | HU_HULA_DONE | HU_HULA_FAILED
  | HU_HULA_SKIPPED | HU_HULA_CANCELLED

record hula_node =
  hn_op :: hula_op
  hn_id :: "string option"
  hn_tool_name :: "string option"
  hn_args_json :: "string option"
  hn_pred :: hula_pred
  hn_match_str :: "string option"
  hn_max_iter :: nat
  hn_goal :: "string option"
  hn_delegate_model :: "string option"
  hn_emit_key :: "string option"
  hn_emit_value :: "string option"
  hn_timeout_ms :: nat
  hn_retry_count :: nat
  hn_retry_backoff_ms :: nat
  hn_delegate_context :: "string option"
  hn_delegate_result_key :: "string option"
  hn_delegate_agent_id :: "string option"
  hn_verify_node_id :: "string option"
  hn_required_capability :: "string option"
  hn_children :: "nat list"
  hn_description :: "string option"

record hula_program =
  hp_name :: "string option"
  hp_version :: nat
  hp_nodes :: "hula_node list"
  hp_node_cap :: nat
  hp_gen :: nat
  hp_root :: "nat option"

fun hu_hula_op_name :: "hula_op \<Rightarrow> string" where
  "hu_hula_op_name HU_HULA_CALL = ''call''"
| "hu_hula_op_name HU_HULA_SEQ = ''seq''"
| "hu_hula_op_name HU_HULA_PAR = ''par''"
| "hu_hula_op_name HU_HULA_BRANCH = ''branch''"
| "hu_hula_op_name HU_HULA_LOOP = ''loop''"
| "hu_hula_op_name HU_HULA_DELEGATE = ''delegate''"
| "hu_hula_op_name HU_HULA_EMIT = ''emit''"
| "hu_hula_op_name HU_HULA_TRY = ''try''"
| "hu_hula_op_name HU_HULA_VERIFY = ''verify''"

fun hu_hula_pred_name :: "hula_pred \<Rightarrow> string" where
  "hu_hula_pred_name HU_HULA_PRED_SUCCESS = ''success''"
| "hu_hula_pred_name HU_HULA_PRED_FAILURE = ''failure''"
| "hu_hula_pred_name HU_HULA_PRED_CONTAINS = ''contains''"
| "hu_hula_pred_name HU_HULA_PRED_NOT_CONTAINS = ''not_contains''"
| "hu_hula_pred_name HU_HULA_PRED_ALWAYS = ''always''"

fun hu_hula_status_name :: "hula_status \<Rightarrow> string" where
  "hu_hula_status_name HU_HULA_PENDING = ''pending''"
| "hu_hula_status_name HU_HULA_RUNNING = ''running''"
| "hu_hula_status_name HU_HULA_DONE = ''done''"
| "hu_hula_status_name HU_HULA_FAILED = ''failed''"
| "hu_hula_status_name HU_HULA_SKIPPED = ''skipped''"
| "hu_hula_status_name HU_HULA_CANCELLED = ''cancelled''"

definition all_ops :: "hula_op list" where
  "all_ops = [HU_HULA_CALL, HU_HULA_SEQ, HU_HULA_PAR, HU_HULA_BRANCH, HU_HULA_LOOP,
     HU_HULA_DELEGATE, HU_HULA_EMIT, HU_HULA_TRY, HU_HULA_VERIFY]"

definition all_preds :: "hula_pred list" where
  "all_preds = [HU_HULA_PRED_SUCCESS, HU_HULA_PRED_FAILURE, HU_HULA_PRED_CONTAINS,
     HU_HULA_PRED_NOT_CONTAINS, HU_HULA_PRED_ALWAYS]"

definition parse_op :: "string option \<Rightarrow> hula_op" where
  "parse_op s = (case s of None \<Rightarrow> HU_HULA_CALL
     | Some t \<Rightarrow> (case List.find (\<lambda>x. hu_hula_op_name x = t) all_ops of None \<Rightarrow> HU_HULA_CALL | Some x \<Rightarrow> x))"

definition parse_pred :: "string option \<Rightarrow> hula_pred" where
  "parse_pred s = (case s of None \<Rightarrow> HU_HULA_PRED_SUCCESS
     | Some t \<Rightarrow> (case List.find (\<lambda>x. hu_hula_pred_name x = t) all_preds of None \<Rightarrow> HU_HULA_PRED_SUCCESS | Some x \<Rightarrow> x))"

section \<open>The node arena\<close>

text \<open>A node pointer a function keeps: the generation of the array, and the position.\<close>

type_synonym hptr = "nat \<times> nat"

text \<open>A node of zero bytes with its opcode and id.\<close>

definition empty_node :: "hula_op \<Rightarrow> string option \<Rightarrow> hula_node" where
  "empty_node opc ident =
     \<lparr>hn_op = opc, hn_id = ident, hn_tool_name = None, hn_args_json = None, hn_pred = HU_HULA_PRED_SUCCESS,
      hn_match_str = None, hn_max_iter = 0, hn_goal = None, hn_delegate_model = None, hn_emit_key = None,
      hn_emit_value = None, hn_timeout_ms = 0, hn_retry_count = 0, hn_retry_backoff_ms = 0,
      hn_delegate_context = None, hn_delegate_result_key = None, hn_delegate_agent_id = None,
      hn_verify_node_id = None, hn_required_capability = None, hn_children = [], hn_description = None\<rparr>"

definition hu_hula_program_init :: "string option \<Rightarrow> hula_program" where
  "hu_hula_program_init name =
     \<lparr>hp_name = (case name of Some s \<Rightarrow> if s = [] then None else Some s | None \<Rightarrow> None),
      hp_version = HU_HULA_VERSION, hp_nodes = [], hp_node_cap = 0, hp_gen = 0, hp_root = None\<rparr>"

definition hu_hula_program_alloc_node ::
    "hula_program \<Rightarrow> hula_op \<Rightarrow> string option \<Rightarrow> hula_program \<times> hptr option" where
  "hu_hula_program_alloc_node prog opc ident =
     (let cnt = length (hp_nodes prog) in
      if cnt \<ge> HU_HULA_MAX_NODES then (prog, None)
      else
        let prog = (if cnt \<ge> hp_node_cap prog
              then prog\<lparr>hp_node_cap := min (if hp_node_cap prog = 0 then 16 else hp_node_cap prog * 2) HU_HULA_MAX_NODES,
                        hp_gen := hp_gen prog + 1\<rparr>
              else prog)
        in (prog\<lparr>hp_nodes := hp_nodes prog @ [empty_node opc ident]\<rparr>, Some (hp_gen prog, cnt)))"

definition node_read :: "hula_program \<Rightarrow> hptr \<Rightarrow> hula_node outcome" where
  "node_read prog p =
     (if fst p \<noteq> hp_gen prog then Undef UseAfterFree
      else if snd p < length (hp_nodes prog) then Ret (hp_nodes prog ! snd p) else Undef OutOfBounds)"

definition node_write :: "hula_program \<Rightarrow> hptr \<Rightarrow> (hula_node \<Rightarrow> hula_node) \<Rightarrow> hula_program outcome" where
  "node_write prog p f =
     obind (node_read prog p) (\<lambda>n. Ret (prog\<lparr>hp_nodes := (hp_nodes prog)[snd p := f n]\<rparr>))"

text \<open>\<^verbatim>\<open>n->children[n->children_count++] = child\<close>\<close>

definition add_child :: "hula_program \<Rightarrow> hptr \<Rightarrow> hptr \<Rightarrow> hula_program outcome" where
  "add_child prog p child =
     obind (node_read prog p) (\<lambda>n.
     if fst child \<noteq> hp_gen prog then Undef UseAfterFree
     else node_write prog p (\<lambda>n. n\<lparr>hn_children := hn_children n @ [snd child]\<rparr>))"

section \<open>Parsing\<close>

text \<open>A cast of a double to \<^verbatim>\<open>uint32_t\<close>.\<close>

definition dbl_to_u32 :: "dbl \<Rightarrow> nat outcome" where
  "dbl_to_u32 d =
     (if 0 \<le> dbl_trunc d \<and> dbl_trunc d < 2 ^ 32 then Ret (nat (dbl_trunc d)) else Undef BadCast)"

definition dbl_one :: dbl where
  "dbl_one = Dbl False (2 ^ 52) (-52)"

definition get_u32 :: "json \<Rightarrow> string \<Rightarrow> dbl \<Rightarrow> nat outcome" where
  "get_u32 obj key dflt = dbl_to_u32 (hu_json_get_number obj key dflt)"

definition parse_node_args :: "json option \<Rightarrow> string option outcome" where
  "parse_node_args val =
     (case val of
        None \<Rightarrow> Ret None
      | Some a \<Rightarrow> on_error None (obind (hu_json_stringify a) (\<lambda>t. Ret (Some t))))"

text \<open>The fields a node object gives, in the order of the code; an absent key leaves the zero.\<close>

definition parse_fields :: "json \<Rightarrow> hula_node \<Rightarrow> hula_node outcome" where
  "parse_fields obj n =
     (let g = hu_json_get_string obj;
          n = n\<lparr>hn_tool_name := g ''tool'', hn_description := g ''description'', hn_goal := g ''goal'',
                hn_delegate_model := g ''model'', hn_emit_key := g ''emit_key'', hn_emit_value := g ''emit_value'',
                hn_delegate_context := g ''context'', hn_delegate_result_key := g ''result_key'',
                hn_delegate_agent_id := g ''agent_id'', hn_verify_node_id := g ''verify_node_id'',
                hn_required_capability := g ''required_capability'', hn_pred := parse_pred (g ''pred''),
                hn_match_str := g ''match''\<rparr>
      in obind (get_u32 obj ''max_iter'' dzero) (\<lambda>mi.
         obind (get_u32 obj ''timeout_ms'' dzero) (\<lambda>tm.
         obind (get_u32 obj ''retry_count'' dzero) (\<lambda>rc.
         obind (get_u32 obj ''retry_backoff_ms'' dzero) (\<lambda>rb.
         obind (parse_node_args (hu_json_object_get obj ''args'')) (\<lambda>args.
         Ret (n\<lparr>hn_max_iter := mi, hn_timeout_ms := tm, hn_retry_count := rc, hn_retry_backoff_ms := rb,
                hn_args_json := args\<rparr>)))))))"

text \<open>
  In the loops below \<open>pn\<close> is \<^verbatim>\<open>parse_node\<close> one level down: the program afterwards and the
  node, or NULL.
\<close>

fun parse_children ::
    "(hula_program \<Rightarrow> json \<Rightarrow> (hula_program \<times> hptr option) outcome) \<Rightarrow> hula_program \<Rightarrow> hptr \<Rightarrow>
       json list \<Rightarrow> hula_program outcome" where
  "parse_children pn prog parent [] = Ret prog"
| "parse_children pn prog parent (v # vs) =
     obind (node_read prog parent) (\<lambda>n.
     if length (hn_children n) < HU_HULA_MAX_CHILDREN then
       obind (pn prog v) (\<lambda>(prog, c).
         case c of
           None \<Rightarrow> parse_children pn prog parent vs
         | Some p \<Rightarrow> obind (add_child prog parent p) (\<lambda>prog. parse_children pn prog parent vs))
     else Ret prog)"

text \<open>
  The shorthands \<^verbatim>\<open>then\<close>, \<^verbatim>\<open>else\<close>, \<^verbatim>\<open>body\<close> and \<^verbatim>\<open>catch\<close>: a child is added if the
  key is there and there is room; \<open>only_first\<close> asks for no children so far as well.
\<close>

definition parse_shorthand ::
    "(hula_program \<Rightarrow> json \<Rightarrow> (hula_program \<times> hptr option) outcome) \<Rightarrow> bool \<Rightarrow> json option \<Rightarrow> hptr \<Rightarrow>
       hula_program \<Rightarrow> hula_program outcome" where
  "parse_shorthand pn only_first val p prog =
     (case val of
        None \<Rightarrow> Ret prog
      | Some v \<Rightarrow>
          obind (node_read prog p) (\<lambda>n.
          if (only_first \<longrightarrow> hn_children n = []) \<and> length (hn_children n) < HU_HULA_MAX_CHILDREN then
            obind (pn prog v) (\<lambda>(prog, c).
              case c of None \<Rightarrow> Ret prog | Some q \<Rightarrow> add_child prog p q)
          else Ret prog))"

definition parse_shorthands ::
    "(hula_program \<Rightarrow> json \<Rightarrow> (hula_program \<times> hptr option) outcome) \<Rightarrow> hula_op \<Rightarrow> json \<Rightarrow> hptr \<Rightarrow>
       hula_program \<Rightarrow> hula_program outcome" where
  "parse_shorthands pn opc obj p prog =
     (case opc of
        HU_HULA_BRANCH \<Rightarrow>
          obind (parse_shorthand pn False (hu_json_object_get obj ''then'') p prog)
            (\<lambda>prog. parse_shorthand pn False (hu_json_object_get obj ''else'') p prog)
      | HU_HULA_LOOP \<Rightarrow> parse_shorthand pn True (hu_json_object_get obj ''body'') p prog
      | HU_HULA_TRY \<Rightarrow>
          obind (parse_shorthand pn False (hu_json_object_get obj ''body'') p prog)
            (\<lambda>prog. parse_shorthand pn False (hu_json_object_get obj ''catch'') p prog)
      | _ \<Rightarrow> Ret prog)"

definition child_items :: "json \<Rightarrow> json list" where
  "child_items obj = (case hu_json_object_get obj ''children'' of Some (JArr vs) \<Rightarrow> vs | _ \<Rightarrow> [])"

fun parse_node :: "nat \<Rightarrow> hula_program \<Rightarrow> json \<Rightarrow> (hula_program \<times> hptr option) outcome" where
  "parse_node 0 prog obj = Ret (prog, None)"
| "parse_node (Suc k) prog obj =
     (case obj of
        JObj ps \<Rightarrow>
          let opc = parse_op (hu_json_get_string obj ''op'') in
          (case hu_hula_program_alloc_node prog opc (hu_json_get_string obj ''id'') of
             (prog, None) \<Rightarrow> Ret (prog, None)
           | (prog, Some p) \<Rightarrow>
               obind (node_read prog p) (\<lambda>n.
               obind (parse_fields obj n) (\<lambda>n.
               obind (node_write prog p (\<lambda>_. n)) (\<lambda>prog.
               obind (parse_children (\<lambda>pr v. parse_node k pr v) prog p (child_items obj)) (\<lambda>prog.
               obind (parse_shorthands (\<lambda>pr v. parse_node k pr v) opc obj p prog) (\<lambda>prog.
               Ret (prog, Some p)))))))
      | _ \<Rightarrow> Ret (prog, None))"

text \<open>
  \<^verbatim>\<open>hu_hula_parse_json\<close>.  The root pointer is kept as a position, which it is as long as it
  points into the current array.
\<close>

definition hu_hula_parse_json :: "string \<Rightarrow> hula_program outcome" where
  "hu_hula_parse_json text =
     obind (hu_json_parse text) (\<lambda>v.
     case v of
       JObj ps \<Rightarrow>
         let prog = hu_hula_program_init (hu_json_get_string v ''name'') in
         obind (get_u32 v ''version'' dbl_one) (\<lambda>ver.
         let prog = prog\<lparr>hp_version := ver\<rparr> in
         (case hu_json_object_get v ''root'' of
            Some (JObj qs) \<Rightarrow>
              obind (parse_node (HU_HULA_MAX_DEPTH + 1) prog (JObj qs)) (\<lambda>(prog, r).
              case r of
                None \<Rightarrow> Err HU_ERR_PARSE
              | Some p \<Rightarrow> if fst p \<noteq> hp_gen prog then Undef UseAfterFree else Ret (prog\<lparr>hp_root := Some (snd p)\<rparr>))
          | _ \<Rightarrow> Err HU_ERR_PARSE))
     | _ \<Rightarrow> Err HU_ERR_PARSE)"

section \<open>Serialising\<close>

definition raw :: "string \<Rightarrow> jbuf \<Rightarrow> jbuf outcome" where
  "raw s b = hu_json_buf_append_raw b (Some s) (length s)"

definition kv :: "string \<Rightarrow> string \<Rightarrow> jbuf \<Rightarrow> jbuf outcome" where
  "kv key s b = hu_json_append_key_value b (Some key) (length key) (Some s) (length s)"

text \<open>A comma and a member, if the field is there.\<close>

definition opt_kv :: "string \<Rightarrow> string option \<Rightarrow> jbuf \<Rightarrow> jbuf outcome" where
  "opt_kv key v b = (case v of None \<Rightarrow> Ret b | Some s \<Rightarrow> obind (raw '','' b) (kv key s))"

definition opt_int :: "string \<Rightarrow> nat \<Rightarrow> jbuf \<Rightarrow> jbuf outcome" where
  "opt_int key n b =
     (if n > 0 then obind (raw '','' b) (\<lambda>b. hu_json_append_key_int b (Some key) (length key) (int n)) else Ret b)"

definition seqw :: "(jbuf \<Rightarrow> jbuf outcome) list \<Rightarrow> jbuf \<Rightarrow> jbuf outcome" where
  "seqw ws b = foldl (\<lambda>m w. obind m w) (Ret b) ws"

definition opt_args :: "string option \<Rightarrow> jbuf \<Rightarrow> jbuf outcome" where
  "opt_args v b =
     (case v of
        None \<Rightarrow> Ret b
      | Some s \<Rightarrow> obind (raw '','' b) (\<lambda>b. obind (hu_json_append_key b (Some ''args'') 4) (raw s)))"

text \<open>The members of a node before its children.\<close>

definition serialize_fields :: "hula_node \<Rightarrow> jbuf \<Rightarrow> jbuf outcome" where
  "serialize_fields n =
     seqw [raw ''{'',
       kv ''op'' (hu_hula_op_name (hn_op n)),
       opt_kv ''id'' (hn_id n),
       opt_kv ''tool'' (hn_tool_name n),
       opt_args (hn_args_json n),
       opt_kv ''description'' (hn_description n),
       opt_kv ''goal'' (hn_goal n),
       opt_kv ''model'' (hn_delegate_model n),
       opt_kv ''emit_key'' (hn_emit_key n),
       opt_kv ''emit_value'' (hn_emit_value n),
       (if hn_op n = HU_HULA_BRANCH \<or> hn_op n = HU_HULA_LOOP
        then seqw [opt_kv ''pred'' (Some (hu_hula_pred_name (hn_pred n))), opt_kv ''match'' (hn_match_str n)]
        else Ret),
       (if hn_op n = HU_HULA_LOOP then opt_int ''max_iter'' (hn_max_iter n) else Ret),
       opt_int ''timeout_ms'' (hn_timeout_ms n),
       opt_int ''retry_count'' (hn_retry_count n),
       opt_int ''retry_backoff_ms'' (hn_retry_backoff_ms n),
       opt_kv ''context'' (hn_delegate_context n),
       opt_kv ''result_key'' (hn_delegate_result_key n),
       opt_kv ''agent_id'' (hn_delegate_agent_id n),
       opt_kv ''required_capability'' (hn_required_capability n)]"

text \<open>The loop of \<^verbatim>\<open>serialize_children\<close>; \<open>sn\<close> writes a node one level down.\<close>

fun serialize_items :: "(nat \<Rightarrow> jbuf \<Rightarrow> jbuf outcome) \<Rightarrow> bool \<Rightarrow> nat list \<Rightarrow> jbuf \<Rightarrow> jbuf outcome" where
  "serialize_items sn first [] b = Ret b"
| "serialize_items sn first (c # cs) b =
     obind (if first then Ret b else raw '','' b) (\<lambda>b. obind (sn c b) (serialize_items sn False cs))"

definition serialize_children :: "(nat \<Rightarrow> jbuf \<Rightarrow> jbuf outcome) \<Rightarrow> nat list \<Rightarrow> jbuf \<Rightarrow> jbuf outcome" where
  "serialize_children sn cs =
     seqw [raw ([DQUOTE] @ ''children'' @ [DQUOTE] @ '':[''), serialize_items sn True cs, raw '']'']"

definition serialize_member :: "(nat \<Rightarrow> jbuf \<Rightarrow> jbuf outcome) \<Rightarrow> string \<Rightarrow> nat \<Rightarrow> jbuf \<Rightarrow> jbuf outcome" where
  "serialize_member sn key c =
     seqw [raw '','', \<lambda>b. hu_json_append_key b (Some key) (length key), sn c]"

fun serialize_node :: "nat \<Rightarrow> hula_program \<Rightarrow> nat \<Rightarrow> jbuf \<Rightarrow> jbuf outcome" where
  "serialize_node 0 prog i b = Err HU_ERR_INVALID_ARGUMENT"
| "serialize_node (Suc k) prog i b =
     (if i < length (hp_nodes prog) then
        let n = hp_nodes prog ! i; sn = (\<lambda>c b. serialize_node k prog c b); cs = hn_children n in
        obind (serialize_fields n b) (\<lambda>b.
        if hn_op n = HU_HULA_TRY then
          obind (if length cs > 0 then serialize_member sn ''body'' (cs ! 0) b else Ret b) (\<lambda>b.
          obind (if length cs > 1 then serialize_member sn ''catch'' (cs ! 1) b else Ret b) (raw ''}''))
        else
          obind (if length cs > 0 then obind (raw '','' b) (serialize_children sn cs) else Ret b) (raw ''}''))
      else Undef OutOfBounds)"

definition hu_hula_to_json :: "hula_program \<Rightarrow> string outcome" where
  "hu_hula_to_json prog =
     obind (seqw [raw ''{'',
        (case hp_name prog of None \<Rightarrow> Ret | Some s \<Rightarrow> seqw [kv ''name'' s, raw '','']),
        \<lambda>b. hu_json_append_key_int b (Some ''version'') 7 (int (hp_version prog)),
        (case hp_root prog of
           None \<Rightarrow> Ret
         | Some r \<Rightarrow> seqw [raw '','', \<lambda>b. hu_json_append_key b (Some ''root'') 4,
                          serialize_node (HU_HULA_MAX_DEPTH + 1) prog r]),
        raw ''}''] jbuf_empty) (\<lambda>b. Ret (jb_data b))"

section \<open>Validating\<close>

record hula_diag =
  hd_message :: string
  hd_node :: "nat option"

record hula_validation =
  hv_diags :: "hula_diag list"
  hv_valid :: bool

definition add_diag :: "nat option \<Rightarrow> string \<Rightarrow> hula_validation \<Rightarrow> hula_validation" where
  "add_diag node msg v =
     (if length (hv_diags v) \<ge> HU_HULA_MAX_DIAGS then v
      else v\<lparr>hv_diags := hv_diags v @ [\<lparr>hd_message = msg, hd_node = node\<rparr>], hv_valid := False\<rparr>)"

definition blank_opt :: "string option \<Rightarrow> bool" where
  "blank_opt s = (case s of None \<Rightarrow> True | Some t \<Rightarrow> t = [])"

text \<open>The switch on the opcode; \<open>tools\<close> is \<open>None\<close> for the NULL list, which is not checked.\<close>

definition validate_op ::
    "string list option \<Rightarrow> nat \<Rightarrow> hula_node \<Rightarrow> hula_validation \<Rightarrow> hula_validation" where
  "validate_op tools i n v =
     (case hn_op n of
        HU_HULA_CALL \<Rightarrow>
          (case hn_tool_name n of
             None \<Rightarrow> add_diag (Some i) ''call node missing tool name'' v
           | Some t \<Rightarrow>
               (case tools of
                  None \<Rightarrow> v
                | Some ts \<Rightarrow> if t \<in> set ts then v else add_diag (Some i) (''unknown tool: '' @ take 64 t) v))
      | HU_HULA_SEQ \<Rightarrow> if hn_children n = [] then add_diag (Some i) ''seq/par node has no children'' v else v
      | HU_HULA_PAR \<Rightarrow> if hn_children n = [] then add_diag (Some i) ''seq/par node has no children'' v else v
      | HU_HULA_BRANCH \<Rightarrow> if hn_children n = [] then add_diag (Some i) ''branch needs at least a then child'' v else v
      | HU_HULA_LOOP \<Rightarrow> if hn_children n = [] then add_diag (Some i) ''loop has no body'' v else v
      | HU_HULA_DELEGATE \<Rightarrow> if blank_opt (hn_goal n) then add_diag (Some i) ''delegate node missing goal'' v else v
      | HU_HULA_EMIT \<Rightarrow> if blank_opt (hn_emit_key n) then add_diag (Some i) ''emit node missing key'' v else v
      | HU_HULA_TRY \<Rightarrow> if hn_children n = [] then add_diag (Some i) ''try needs a body child'' v else v
      | HU_HULA_VERIFY \<Rightarrow> if blank_opt (hn_verify_node_id n) then add_diag (Some i) ''verify needs verify_node_id'' v else v)"

fun validate_node :: "nat \<Rightarrow> hula_program \<Rightarrow> string list option \<Rightarrow> nat \<Rightarrow> hula_validation \<Rightarrow> hula_validation" where
  "validate_node 0 prog tools i v = add_diag (Some i) ''exceeds max depth'' v"
| "validate_node (Suc k) prog tools i v =
     (let n = hp_nodes prog ! i;
          v = (if hn_id n = None then add_diag (Some i) ''node missing id'' v else v);
          v = validate_op tools i n v
      in foldl (\<lambda>v c. validate_node k prog tools c v) v (hn_children n))"

definition hu_hula_validate :: "hula_program \<Rightarrow> string list option \<Rightarrow> hula_validation" where
  "hu_hula_validate prog tools =
     (let v = \<lparr>hv_diags = [], hv_valid = True\<rparr> in
      case hp_root prog of
        None \<Rightarrow> add_diag None ''program has no root node'' v
      | Some r \<Rightarrow> validate_node (HU_HULA_MAX_DEPTH + 1) prog tools r v)"


section \<open>What parsing builds\<close>

text \<open>
  A program is well formed when the children of every node come after it in the array: the array is
  then a forest with its edges going up, which is what the recursive functions rely on.
\<close>

definition wf_from :: "nat \<Rightarrow> hula_node list \<Rightarrow> bool" where
  "wf_from b ns \<longleftrightarrow>
     (\<forall>i < length ns. b \<le> i \<longrightarrow> (\<forall>c \<in> set (hn_children (ns ! i)). i < c \<and> c < length ns) \<and>
        length (hn_children (ns ! i)) \<le> HU_HULA_MAX_CHILDREN)"

definition wf_prog :: "hula_program \<Rightarrow> bool" where
  "wf_prog prog \<longleftrightarrow> wf_from 0 (hp_nodes prog) \<and>
     (case hp_root prog of None \<Rightarrow> True | Some r \<Rightarrow> r < length (hp_nodes prog))"

text \<open>
  What a parsing step does to a program while the array stays where it is: nodes below \<open>b\<close> are
  left alone.
\<close>

definition ext :: "nat \<Rightarrow> hula_program \<Rightarrow> hula_program \<Rightarrow> bool" where
  "ext b P Q \<longleftrightarrow> hp_gen Q = hp_gen P \<and> hp_node_cap Q = hp_node_cap P \<and> hp_name Q = hp_name P \<and>
     hp_version Q = hp_version P \<and> hp_root Q = hp_root P \<and> b \<le> length (hp_nodes P) \<and>
     length (hp_nodes P) \<le> length (hp_nodes Q) \<and>
     take b (hp_nodes Q) = take b (hp_nodes P) \<and>
     (wf_from b (hp_nodes P) \<longrightarrow> wf_from b (hp_nodes Q)) \<and>
     (length (hp_nodes P) \<le> hp_node_cap P \<longrightarrow> length (hp_nodes Q) \<le> hp_node_cap P)"

lemma ext_refl: "b \<le> length (hp_nodes P) \<Longrightarrow> ext b P P"
  by (simp add: ext_def)

lemma ext_trans: "ext b P Q \<Longrightarrow> ext b Q R \<Longrightarrow> ext b P R"
  by (auto simp: ext_def)

lemma ext_less:
  assumes "ext b P Q" and "a \<le> b"
  shows "take a (hp_nodes Q) = take a (hp_nodes P)"
proof -
  have "take a (take b (hp_nodes Q)) = take a (take b (hp_nodes P))"
    using assms by (simp add: ext_def)
  with assms(2) show ?thesis by (simp add: min_absorb1)
qed

text \<open>Nodes below \<open>b\<close> that are well formed stay so: only the length of the array matters.\<close>

lemma wf_from_lower:
  assumes "wf_from b ns'" and "wf_from a ns" and "take b ns' = take b ns" and "b \<le> length ns"
    and "length ns \<le> length ns'"
  shows "wf_from a ns'"
  unfolding wf_from_def
proof (intro allI impI)
  fix i assume i: "i < length ns'" "a \<le> i"
  show "(\<forall>c\<in>set (hn_children (ns' ! i)). i < c \<and> c < length ns') \<and>
      length (hn_children (ns' ! i)) \<le> HU_HULA_MAX_CHILDREN"
  proof (cases "b \<le> i")
    case True
    with assms(1) i(1) show ?thesis unfolding wf_from_def by blast
  next
    case False
    then have "ns' ! i = ns ! i" using arg_cong [OF assms(3), of "\<lambda>l. l ! i"] by simp
    moreover have "i < length ns" using False assms(4) by simp
    moreover from this i(2) assms(2) have "(\<forall>c\<in>set (hn_children (ns ! i)). i < c \<and> c < length ns) \<and>
        length (hn_children (ns ! i)) \<le> HU_HULA_MAX_CHILDREN"
      unfolding wf_from_def by blast
    ultimately show ?thesis using assms(5) by (metis order_less_le_trans)
  qed
qed

lemma ext_lower:
  assumes "ext b P Q" and "a \<le> b"
  shows "ext a P Q"
proof -
  have "wf_from a (hp_nodes P) \<longrightarrow> wf_from a (hp_nodes Q)"
  proof
    assume wf: "wf_from a (hp_nodes P)"
    then have "wf_from b (hp_nodes P)" using assms(2) unfolding wf_from_def by (meson order_trans)
    with assms(1) have "wf_from b (hp_nodes Q)" by (simp add: ext_def)
    from wf_from_lower [OF this wf] show "wf_from a (hp_nodes Q)"
      using assms(1) by (simp add: ext_def)
  qed
  with assms(2) ext_less [OF assms] show ?thesis using assms(1) by (simp add: ext_def)
qed

lemma node_read_Ret:
  "node_read P p = Ret n \<longleftrightarrow> fst p = hp_gen P \<and> snd p < length (hp_nodes P) \<and> n = hp_nodes P ! snd p"
  by (auto simp: node_read_def)

lemma node_write_Ret:
  "node_write P p f = Ret Q \<longleftrightarrow> fst p = hp_gen P \<and> snd p < length (hp_nodes P) \<and>
     Q = P\<lparr>hp_nodes := (hp_nodes P)[snd p := f (hp_nodes P ! snd p)]\<rparr>"
  by (auto simp: node_write_def outcome_simps node_read_Ret)

lemma wf_from_update:
  "wf_from b ns \<Longrightarrow> (\<And>c. c \<in> set (hn_children n) \<Longrightarrow> i < c \<and> c < length ns) \<Longrightarrow>
     length (hn_children n) \<le> HU_HULA_MAX_CHILDREN \<Longrightarrow> wf_from b (ns[i := n])"
  unfolding wf_from_def length_list_update by (metis nth_list_update_eq nth_list_update_neq)

lemma ext_update:
  assumes "i < length (hp_nodes P)" and "b \<le> i"
    and "\<And>c. c \<in> set (hn_children n) \<Longrightarrow> c \<in> set (hn_children (hp_nodes P ! i)) \<or> i < c \<and> c < length (hp_nodes P)"
    and "length (hn_children (hp_nodes P ! i)) \<le> HU_HULA_MAX_CHILDREN \<Longrightarrow>
      length (hn_children n) \<le> HU_HULA_MAX_CHILDREN"
  shows "ext b P (P\<lparr>hp_nodes := (hp_nodes P)[i := n]\<rparr>)"
proof -
  have "wf_from b (hp_nodes P) \<longrightarrow> wf_from b ((hp_nodes P)[i := n])"
  proof
    assume wf: "wf_from b (hp_nodes P)"
    then have old: "\<forall>c \<in> set (hn_children (hp_nodes P ! i)). i < c \<and> c < length (hp_nodes P)"
      "length (hn_children (hp_nodes P ! i)) \<le> HU_HULA_MAX_CHILDREN"
      using assms(1,2) unfolding wf_from_def by blast+
    show "wf_from b ((hp_nodes P)[i := n])"
      by (rule wf_from_update [OF wf]) (use old assms(3,4) in blast)+
  qed
  with assms(1,2) show ?thesis by (simp add: ext_def)
qed

lemma add_child_ext:
  assumes "add_child P p q = Ret Q" and "snd p < snd q" and "snd q < length (hp_nodes P)"
    and "length (hn_children (hp_nodes P ! snd p)) < HU_HULA_MAX_CHILDREN"
  shows "ext (snd p) P Q" and "fst q = hp_gen P"
proof -
  from assms(1) have fq: "fst q = hp_gen P"
    and Q: "Q = P\<lparr>hp_nodes := (hp_nodes P)[snd p := (hp_nodes P ! snd p)
        \<lparr>hn_children := hn_children (hp_nodes P ! snd p) @ [snd q]\<rparr>]\<rparr>"
    and p: "snd p < length (hp_nodes P)"
    by (auto simp: add_child_def outcome_simps node_read_Ret node_write_Ret split: if_splits)
  show "fst q = hp_gen P" by (fact fq)
  show "ext (snd p) P Q" unfolding Q by (rule ext_update) (use assms p in auto)
qed

lemma length_add_child: "add_child P p q = Ret Q \<Longrightarrow> length (hp_nodes Q) = length (hp_nodes P)"
  by (auto simp: add_child_def outcome_simps node_write_Ret split: if_splits)

text \<open>What the loops need of \<^verbatim>\<open>parse_node\<close> one level down.\<close>

definition pn_ok :: "(hula_program \<Rightarrow> json \<Rightarrow> (hula_program \<times> hptr option) outcome) \<Rightarrow> bool" where
  "pn_ok pn \<longleftrightarrow> (\<forall>P v Q r. pn P v = Ret (Q, r) \<longrightarrow>
     (case r of None \<Rightarrow> Q = P
      | Some p \<Rightarrow> p = (hp_gen Q, length (hp_nodes P)) \<and> length (hp_nodes P) < length (hp_nodes Q) \<and>
          (hp_gen Q = hp_gen P \<longrightarrow> ext (length (hp_nodes P)) P Q)))"

lemma pn_okD_None: "pn_ok pn \<Longrightarrow> pn P v = Ret (Q, None) \<Longrightarrow> Q = P"
  by (fastforce simp: pn_ok_def)

lemma pn_okD_Some:
  assumes "pn_ok pn" and "pn P v = Ret (Q, Some p)"
  shows "p = (hp_gen Q, length (hp_nodes P))" and "length (hp_nodes P) < length (hp_nodes Q)"
    and "hp_gen Q = hp_gen P \<Longrightarrow> ext (length (hp_nodes P)) P Q"
  using assms unfolding pn_ok_def by (metis (mono_tags, lifting) option.simps(5))+

text \<open>One child parsed and added.\<close>

lemma child_ext:
  assumes pn: "pn_ok pn" "pn P v = Ret (Q, Some q)" and ad: "add_child Q p q = Ret R"
    and p: "fst p = hp_gen P" "snd p < length (hp_nodes P)"
    and room: "length (hn_children (hp_nodes P ! snd p)) < HU_HULA_MAX_CHILDREN"
  shows "ext (snd p) P R" and "hp_gen Q = hp_gen P"
proof -
  note q = pn_okD_Some [OF pn]
  from ad have gen: "fst p = hp_gen Q"
    by (auto simp: add_child_def outcome_simps node_read_Ret split: if_splits)
  with p show g: "hp_gen Q = hp_gen P" by simp
  have e: "ext (length (hp_nodes P)) P Q" using q(3) g by simp
  have same: "hp_nodes Q ! snd p = hp_nodes P ! snd p"
    using ext_less [OF e, of "Suc (snd p)"] p(2) by (metis Suc_leI lessI nth_take)
  have "ext (snd p) Q R"
    using add_child_ext(1) [OF ad] q(1,2) p(2) room same by simp
  with ext_lower [OF e, of "snd p"] p(2) show "ext (snd p) P R" by (auto intro: ext_trans)
qed

lemma parse_children_ext:
  assumes "pn_ok pn"
  shows "parse_children pn P p vs = Ret R \<Longrightarrow> fst p = hp_gen P \<Longrightarrow> snd p < length (hp_nodes P) \<Longrightarrow>
    ext (snd p) P R"
proof (induction vs arbitrary: P)
  case Nil
  then show ?case by (simp add: ext_refl)
next
  case (Cons v vs)
  show ?case
  proof (cases "length (hn_children (hp_nodes P ! snd p)) < HU_HULA_MAX_CHILDREN")
    case True
    with Cons.prems obtain Q c where q: "pn P v = Ret (Q, c)"
      and rest: "(case c of None \<Rightarrow> parse_children pn Q p vs
           | Some x \<Rightarrow> obind (add_child Q p x) (\<lambda>prog. parse_children pn prog p vs)) = Ret R"
      by (auto simp: outcome_simps node_read_Ret)
    show ?thesis
    proof (cases c)
      case None
      with Cons rest pn_okD_None [OF assms, of P v Q] q show ?thesis by auto
    next
      case (Some x)
      with rest obtain S where s: "add_child Q p x = Ret S" "parse_children pn S p vs = Ret R"
        by (auto simp: outcome_simps)
      have e: "ext (snd p) P S" using child_ext [OF assms] q Some s(1) Cons.prems True by blast
      then have "hp_gen S = hp_gen P" "length (hp_nodes P) \<le> length (hp_nodes S)" by (auto simp: ext_def)
      with Cons.IH [OF s(2)] Cons.prems have "ext (snd p) S R" by simp
      with e show ?thesis by (rule ext_trans)
    qed
  next
    case False
    with Cons.prems show ?thesis by (auto simp: outcome_simps node_read_Ret ext_refl)
  qed
qed

lemma parse_shorthand_ext:
  assumes "pn_ok pn" and "parse_shorthand pn f val p P = Ret R" and "fst p = hp_gen P"
    and "snd p < length (hp_nodes P)"
  shows "ext (snd p) P R"
proof (cases val)
  case None
  with assms show ?thesis by (simp add: parse_shorthand_def ext_refl)
next
  case (Some v)
  show ?thesis
  proof (cases "(f \<longrightarrow> hn_children (hp_nodes P ! snd p) = []) \<and>
      length (hn_children (hp_nodes P ! snd p)) < HU_HULA_MAX_CHILDREN")
    case True
    with assms(2) Some obtain Q c where q: "pn P v = Ret (Q, c)"
      and rest: "(case c of None \<Rightarrow> Ret Q | Some x \<Rightarrow> add_child Q p x) = Ret R"
      by (auto simp: parse_shorthand_def outcome_simps node_read_Ret split: if_splits)
    show ?thesis
    proof (cases c)
      case None
      with rest pn_okD_None [OF assms(1), of P v Q] q assms(4) show ?thesis by (auto simp: ext_refl)
    next
      case (Some x)
      with rest child_ext [OF assms(1)] q assms True show ?thesis by auto
    qed
  next
    case False
    with assms Some show ?thesis
      by (auto simp: parse_shorthand_def outcome_simps node_read_Ret ext_refl split: if_splits)
  qed
qed

lemma parse_shorthands_ext:
  assumes pn: "pn_ok pn" and r: "parse_shorthands pn opc obj p P = Ret R" and p: "fst p = hp_gen P"
    "snd p < length (hp_nodes P)"
  shows "ext (snd p) P R"
proof -
  have two: "ext (snd p) P R"
    if "obind (parse_shorthand pn False a p P) (\<lambda>prog. parse_shorthand pn False b p prog) = Ret R" for a b
  proof -
    from that obtain S where s: "parse_shorthand pn False a p P = Ret S" "parse_shorthand pn False b p S = Ret R"
      by (auto simp: outcome_simps)
    have e: "ext (snd p) P S" by (rule parse_shorthand_ext [OF pn s(1) p])
    with p have "fst p = hp_gen S" "snd p < length (hp_nodes S)" by (auto simp: ext_def)
    from parse_shorthand_ext [OF pn s(2) this] e show ?thesis by (blast intro: ext_trans)
  qed
  show ?thesis
    using r two parse_shorthand_ext [OF pn _ p] p
    by (cases opc) (auto simp: parse_shorthands_def ext_refl)
qed

lemma parse_node_Ret_Some:
  assumes "parse_node (Suc k) P v = Ret (Q, Some p)"
  obtains ps P1 n n' P2 P3 where "v = JObj ps"
    and "hu_hula_program_alloc_node P (parse_op (hu_json_get_string v ''op'')) (hu_json_get_string v ''id'') = (P1, Some p)"
    and "node_read P1 p = Ret n" "parse_fields v n = Ret n'" "node_write P1 p (\<lambda>_. n') = Ret P2"
    and "parse_children (\<lambda>pr v. parse_node k pr v) P2 p (child_items v) = Ret P3"
    and "parse_shorthands (\<lambda>pr v. parse_node k pr v) (parse_op (hu_json_get_string v ''op'')) v p P3 = Ret Q"
  using assms by (cases v) (auto simp: outcome_simps Let_def split: prod.splits option.splits)

lemma parse_node_Ret_None: "parse_node k P v = Ret (Q, None) \<Longrightarrow> Q = P"
  by (cases k; cases v)
     (auto simp: outcome_simps Let_def hu_hula_program_alloc_node_def split: prod.splits option.splits if_splits)

lemma parse_fields_children: "parse_fields v n = Ret n' \<Longrightarrow> hn_children n' = hn_children n"
  by (auto simp: parse_fields_def outcome_simps Let_def)

lemma alloc_Some:
  assumes "hu_hula_program_alloc_node P opc ident = (Q, Some p)"
  shows "p = (hp_gen Q, length (hp_nodes P))" and "hp_nodes Q = hp_nodes P @ [empty_node opc ident]"
    and "hp_gen Q = (if length (hp_nodes P) < hp_node_cap P then hp_gen P else hp_gen P + 1)"
    and "hp_gen Q = hp_gen P \<Longrightarrow> ext (length (hp_nodes P)) P Q"
    and "hp_gen Q \<noteq> hp_gen P \<Longrightarrow> hp_node_cap Q = min (if hp_node_cap P = 0 then 16 else hp_node_cap P * 2) HU_HULA_MAX_NODES"
    and "hp_root Q = hp_root P" and "length (hp_nodes P) < HU_HULA_MAX_NODES"
    and "length (hp_nodes P) < hp_node_cap P \<Longrightarrow> hp_node_cap Q = hp_node_cap P"
  using assms
  by (auto simp: hu_hula_program_alloc_node_def Let_def ext_def wf_from_def empty_node_def nth_append
      split: if_splits)

text \<open>Everything after the allocation leaves the array where it is.\<close>

lemma parse_node_after_alloc:
  assumes ok: "pn_ok (\<lambda>pr v. parse_node k pr v)" and r: "parse_node (Suc k) P v = Ret (Q, Some p)"
  obtains P1 opc ident where "hu_hula_program_alloc_node P opc ident = (P1, Some p)"
    and "ext (length (hp_nodes P)) P1 Q"
proof -
  from r obtain ps P1 n n' P2 P3 where v: "v = JObj ps"
    and al: "hu_hula_program_alloc_node P (parse_op (hu_json_get_string v ''op'')) (hu_json_get_string v ''id'') = (P1, Some p)"
    and rd: "node_read P1 p = Ret n" "parse_fields v n = Ret n'" and wr: "node_write P1 p (\<lambda>_. n') = Ret P2"
    and ch: "parse_children (\<lambda>pr v. parse_node k pr v) P2 p (child_items v) = Ret P3"
    and sh: "parse_shorthands (\<lambda>pr v. parse_node k pr v) (parse_op (hu_json_get_string v ''op'')) v p P3 = Ret Q"
    by (rule parse_node_Ret_Some)
  note a = alloc_Some [OF al]
  have p: "fst p = hp_gen P1" "snd p = length (hp_nodes P)" "snd p < length (hp_nodes P1)"
    using a(1,2) by auto
  have e2: "ext (snd p) P1 P2"
    using wr parse_fields_children [OF rd(2)] rd(1) p
    by (auto simp: node_write_Ret node_read_Ret intro!: ext_update)
  then have p2: "fst p = hp_gen P2" "snd p < length (hp_nodes P2)" using p by (auto simp: ext_def)
  have e3: "ext (snd p) P2 P3" by (rule parse_children_ext [OF ok ch p2])
  then have p3: "fst p = hp_gen P3" "snd p < length (hp_nodes P3)" using p2 by (auto simp: ext_def)
  have "ext (snd p) P3 Q" by (rule parse_shorthands_ext [OF ok sh p3])
  with e2 e3 have "ext (length (hp_nodes P)) P1 Q" using p(2) by (metis ext_trans)
  with al that show ?thesis by blast
qed

lemma pn_ok_parse_node: "pn_ok (\<lambda>pr v. parse_node k pr v)"
proof (induction k)
  case 0
  then show ?case by (simp add: pn_ok_def)
next
  case (Suc k)
  show ?case unfolding pn_ok_def
  proof (intro allI impI)
    fix P v Q r assume r: "parse_node (Suc k) P v = Ret (Q, r)"
    show "case r of None \<Rightarrow> Q = P
      | Some p \<Rightarrow> p = (hp_gen Q, length (hp_nodes P)) \<and> length (hp_nodes P) < length (hp_nodes Q) \<and>
          (hp_gen Q = hp_gen P \<longrightarrow> ext (length (hp_nodes P)) P Q)"
    proof (cases r)
      case None
      with r have "Q = P" by (intro parse_node_Ret_None [of "Suc k" P v]) (simp del: parse_node.simps)
      with None show ?thesis by simp
    next
      case (Some p)
      with parse_node_after_alloc [OF Suc.IH] r obtain P1 opc ident
        where al: "hu_hula_program_alloc_node P opc ident = (P1, Some p)"
          and e: "ext (length (hp_nodes P)) P1 Q" by metis
      note a = alloc_Some [OF al]
      have "hp_gen Q = hp_gen P1" "length (hp_nodes P1) \<le> length (hp_nodes Q)"
        using e by (auto simp: ext_def)
      then show ?thesis using Some a(1,2,4) e by (auto intro: ext_trans)
    qed
  qed
qed

text \<open>The array parsing starts with has no nodes and no capacity: what parsing returns lies in the first array.\<close>

lemma parse_from_empty:
  assumes "parse_node k P v = Ret (Q, Some p)" and "hp_nodes P = []" and "hp_node_cap P = 0"
  shows "length (hp_nodes Q) \<le> 16" and "wf_from 0 (hp_nodes Q)" and "p = (hp_gen Q, 0)" and "hp_nodes Q \<noteq> []"
    and "hp_name Q = hp_name P" and "hp_version Q = hp_version P"
proof -
  from assms(1) obtain k' where k: "k = Suc k'" by (cases k) auto
  with parse_node_after_alloc [OF pn_ok_parse_node] assms(1) obtain P1 opc ident
    where al: "hu_hula_program_alloc_node P opc ident = (P1, Some p)"
      and e: "ext (length (hp_nodes P)) P1 Q" by metis
  note a = alloc_Some [OF al]
  have c: "hp_node_cap P1 = 16" "length (hp_nodes P1) = 1" "wf_from 0 (hp_nodes P1)"
    using a(2,3,5) assms(2,3) by (auto simp: HU_HULA_MAX_NODES_def wf_from_def empty_node_def)
  with e assms(2) show "length (hp_nodes Q) \<le> 16" "wf_from 0 (hp_nodes Q)" "hp_nodes Q \<noteq> []"
    by (auto simp: ext_def)
  show "p = (hp_gen Q, 0)" using e a(1) assms(2) by (simp add: ext_def)
  have "hp_name P1 = hp_name P" "hp_version P1 = hp_version P"
    using al by (auto simp: hu_hula_program_alloc_node_def Let_def split: if_splits)
  with e show "hp_name Q = hp_name P" "hp_version Q = hp_version P" by (auto simp: ext_def)
qed

lemma parse_json_Ret:
  assumes "hu_hula_parse_json t = Ret prog"
  obtains v qs ver Q p where "hu_json_parse t = Ret v" and "hu_json_object_get v ''root'' = Some (JObj qs)"
    and "get_u32 v ''version'' dbl_one = Ret ver"
    and "parse_node (HU_HULA_MAX_DEPTH + 1) ((hu_hula_program_init (hu_json_get_string v ''name''))\<lparr>hp_version := ver\<rparr>)
           (JObj qs) = Ret (Q, Some p)"
    and "prog = Q\<lparr>hp_root := Some (snd p)\<rparr>" and "fst p = hp_gen Q"
proof -
  let ?P = "\<lambda>v ver. (hu_hula_program_init (hu_json_get_string v ''name''))\<lparr>hp_version := ver\<rparr>"
  from assms obtain v where v: "hu_json_parse t = Ret v"
    unfolding hu_hula_parse_json_def obind_Ret by blast
  obtain ps where ps: "v = JObj ps"
    using assms v by (cases v) (simp_all add: hu_hula_parse_json_def)
  from assms v ps obtain ver where ver: "get_u32 v ''version'' dbl_one = Ret ver"
    by (auto simp: hu_hula_parse_json_def outcome_simps Let_def simp del: parse_node.simps)
  obtain qs where qs: "hu_json_object_get v ''root'' = Some (JObj qs)"
    using assms v ps ver
    by (cases "hu_json_object_get v ''root''"; cases "the (hu_json_object_get v ''root'')")
       (simp_all add: hu_hula_parse_json_def Let_def)
  have pn: "obind (parse_node (HU_HULA_MAX_DEPTH + 1) (?P v ver) (JObj qs)) (\<lambda>(prog, r).
      case r of None \<Rightarrow> Err HU_ERR_PARSE
      | Some p \<Rightarrow> if fst p \<noteq> hp_gen prog then Undef UseAfterFree else Ret (prog\<lparr>hp_root := Some (snd p)\<rparr>)) = Ret prog"
    using assms v qs ver unfolding ps
    by (simp add: hu_hula_parse_json_def Let_def del: parse_node.simps)
  then obtain x where x: "parse_node (HU_HULA_MAX_DEPTH + 1) (?P v ver) (JObj qs) = Ret x"
    unfolding obind_Ret by blast
  obtain Q r where xr: "x = (Q, r)" by (cases x)
  from pn x xr obtain p where p: "r = Some p" "fst p = hp_gen Q" "prog = Q\<lparr>hp_root := Some (snd p)\<rparr>"
    by (cases r) (simp_all del: parse_node.simps split: if_splits)
  from x xr p(1) have q: "parse_node (HU_HULA_MAX_DEPTH + 1) (?P v ver) (JObj qs) = Ret (Q, Some p)" by simp
  show ?thesis by (rule that [OF v qs ver q p(3,2)])
qed

lemma parsed_well_formed:
  assumes "hu_hula_parse_json t = Ret prog"
  shows "wf_prog prog \<and> hp_root prog = Some 0 \<and> 0 < length (hp_nodes prog) \<and> length (hp_nodes prog) \<le> 16"
proof -
  from assms obtain v qs ver Q p where
    pn: "parse_node (HU_HULA_MAX_DEPTH + 1) ((hu_hula_program_init (hu_json_get_string v ''name''))\<lparr>hp_version := ver\<rparr>)
           (JObj qs) = Ret (Q, Some p)"
    and prog: "prog = Q\<lparr>hp_root := Some (snd p)\<rparr>"
    by (rule parse_json_Ret)
  from parse_from_empty [OF pn] prog show ?thesis
    by (simp add: hu_hula_program_init_def wf_prog_def)
qed

text \<open>
  C32: a plan that parsing returns holds between 1 and 16 nodes, its root is the first of them, and
  every node's children come after it in the array and are at most 32.
\<close>

theorem hula_parse_well_formed:
  assumes "hu_hula_parse_json t = Ret prog"
  shows "wf_prog prog \<and> hp_root prog = Some 0 \<and> 0 < length (hp_nodes prog) \<and> length (hp_nodes prog) \<le> 16"
  using assms by (rule parsed_well_formed)


subsection \<open>Plans of up to sixteen nodes\<close>

text \<open>The objects of a document: every node of a plan is one.\<close>

fun obj_count :: "json \<Rightarrow> nat" where
  "obj_count (JArr vs) = sum_list (map obj_count vs)"
| "obj_count (JObj ps) = Suc (sum_list (map (\<lambda>(k, v). obj_count v) ps))"
| "obj_count _ = 0"

lemma obj_count_lookups:
  "distinct ks \<Longrightarrow> sum_list (map (\<lambda>k. case get_pair ps k of None \<Rightarrow> 0 | Some v \<Rightarrow> obj_count v) ks)
     \<le> sum_list (map (\<lambda>(k, v). obj_count v) ps)"
proof (induction ps)
  case Nil
  then show ?case by (induction ks) auto
next
  case (Cons kv ps)
  obtain k0 v0 where kv: "kv = (k0, v0)" by (cases kv)
  define f where "f ps k = (case get_pair ps k of None \<Rightarrow> 0 | Some v \<Rightarrow> obj_count v)" for ps k
  have f: "f (kv # ps) k = (if k = k0 then obj_count v0 else f ps k)" for k
    by (simp add: f_def kv)
  have "distinct ks \<Longrightarrow> sum_list (map (f (kv # ps)) ks) \<le> obj_count v0 + sum_list (map (f ps) ks)" for ks
  proof (induction ks)
    case (Cons k ks)
    have "k0 \<notin> set ks \<Longrightarrow> map (f (kv # ps)) ks = map (f ps) ks"
      using f by (intro map_cong) auto
    then have "k0 \<notin> set ks \<Longrightarrow> sum_list (map (f (kv # ps)) ks) = sum_list (map (f ps) ks)"
      by (rule arg_cong)
    with Cons f [of k] show ?case by (cases "k = k0") simp_all
  qed simp
  then have "distinct ks \<Longrightarrow> sum_list (map (f (kv # ps)) ks) \<le> obj_count v0 + sum_list (map (f ps) ks)" .
  moreover have "distinct ks \<Longrightarrow> sum_list (map (f ps) ks) \<le> sum_list (map (\<lambda>(k, v). obj_count v) ps)"
    using Cons.IH unfolding f_def .
  ultimately show ?case using Cons.prems unfolding f_def [abs_def] by (simp add: kv)
qed

lemma obj_count_parts:
  assumes "v = JObj ps"
  shows "Suc (sum_list (map obj_count (child_items v)) +
      sum_list (map (\<lambda>k. case hu_json_object_get v k of None \<Rightarrow> 0 | Some w \<Rightarrow> obj_count w)
        [''then'', ''else'', ''body'', ''catch''])) \<le> obj_count v"
proof -
  have "distinct [''children'', ''then'', ''else'', ''body'', ''catch'']" by simp
  note c = obj_count_lookups [OF this, of ps]
  have "sum_list (map obj_count (child_items v)) \<le>
      (case hu_json_object_get v ''children'' of None \<Rightarrow> 0 | Some w \<Rightarrow> obj_count w)"
    by (auto simp: child_items_def split: option.split json.split)
  with c show ?thesis by (simp add: assms hu_json_object_get_def)
qed

text \<open>The only way the step can fail is a number outside the range of its type.\<close>

definition cast_only :: "'a outcome \<Rightarrow> bool" where
  "cast_only m \<longleftrightarrow> (\<exists>x. m = Ret x) \<or> m = Undef BadCast"

lemma cast_only_simps [simp]: "cast_only (Ret x)" "\<not> cast_only (Err e)" "\<not> cast_only NoFuel"
  "cast_only (Undef u) \<longleftrightarrow> u = BadCast"
  by (auto simp: cast_only_def)

lemma cast_only_obind: "cast_only m \<Longrightarrow> (\<And>x. m = Ret x \<Longrightarrow> cast_only (f x)) \<Longrightarrow> cast_only (obind m f)"
  by (auto simp: cast_only_def)

lemma cast_only_chain:
  "cast_only m \<Longrightarrow> (\<And>x. m = Ret x \<Longrightarrow> cast_only (f x) \<and> (\<forall>R. f x = Ret R \<longrightarrow> P R)) \<Longrightarrow>
     cast_only (obind m f) \<and> (\<forall>R. obind m f = Ret R \<longrightarrow> P R)"
  by (auto simp: cast_only_def)

definition pn_safe :: "(hula_program \<Rightarrow> json \<Rightarrow> (hula_program \<times> hptr option) outcome) \<Rightarrow> bool" where
  "pn_safe pn \<longleftrightarrow> (\<forall>P v. obj_count v + length (hp_nodes P) \<le> hp_node_cap P \<longrightarrow>
     cast_only (pn P v) \<and>
     (\<forall>Q r. pn P v = Ret (Q, r) \<longrightarrow> hp_gen Q = hp_gen P \<and> length (hp_nodes Q) \<le> length (hp_nodes P) + obj_count v))"

lemma add_child_cast_only:
  "fst p = hp_gen P \<Longrightarrow> snd p < length (hp_nodes P) \<Longrightarrow> fst q = hp_gen P \<Longrightarrow> cast_only (add_child P p q)"
  by (simp add: add_child_def node_read_def node_write_def cast_only_def)

lemma child_safe:
  assumes ok: "pn_ok pn" and sf: "pn_safe pn" and cap: "obj_count v + length (hp_nodes P) \<le> hp_node_cap P"
    and p: "fst p = hp_gen P" "snd p < length (hp_nodes P)"
    and room: "length (hn_children (hp_nodes P ! snd p)) < HU_HULA_MAX_CHILDREN"
  defines "m \<equiv> obind (pn P v) (\<lambda>(Q, c). case c of None \<Rightarrow> Ret Q | Some q \<Rightarrow> add_child Q p q)"
  shows "cast_only m"
    and "m = Ret R \<Longrightarrow> ext (snd p) P R \<and> length (hp_nodes R) \<le> length (hp_nodes P) + obj_count v"
proof -
  have s: "cast_only (pn P v)"
    and g: "\<And>Q r. pn P v = Ret (Q, r) \<Longrightarrow> hp_gen Q = hp_gen P \<and> length (hp_nodes Q) \<le> length (hp_nodes P) + obj_count v"
    using sf cap by (auto simp: pn_safe_def)
  have a: "cast_only (add_child Q p q)" if "pn P v = Ret (Q, Some q)" for Q q
    using add_child_cast_only [of p Q q] g [OF that] pn_okD_Some(1,2) [OF ok that] p by simp
  show "cast_only m"
    using s a by (auto simp: m_def intro!: cast_only_obind split: option.splits)
  assume "m = Ret R"
  then obtain Q c where q: "pn P v = Ret (Q, c)" "(case c of None \<Rightarrow> Ret Q | Some q \<Rightarrow> add_child Q p q) = Ret R"
    by (auto simp: m_def outcome_simps)
  show "ext (snd p) P R \<and> length (hp_nodes R) \<le> length (hp_nodes P) + obj_count v"
  proof (cases c)
    case None
    with q pn_okD_None [OF ok, of P v Q] p(2) show ?thesis by (simp add: ext_refl)
  next
    case (Some x)
    with q have ad: "add_child Q p x = Ret R" and pv: "pn P v = Ret (Q, Some x)" by auto
    from child_ext(1) [OF ok pv ad p room] length_add_child [OF ad] g [OF pv] show ?thesis by simp
  qed
qed

lemma parse_children_step:
  "parse_children pn P p (v # vs) =
     obind (node_read P p) (\<lambda>n.
     if length (hn_children n) < HU_HULA_MAX_CHILDREN then
       obind (obind (pn P v) (\<lambda>(Q, c). case c of None \<Rightarrow> Ret Q | Some q \<Rightarrow> add_child Q p q))
         (\<lambda>Q. parse_children pn Q p vs)
     else Ret P)"
  unfolding parse_children.simps
  by (intro obind_cong refl if_cong) (auto simp: obind_assoc intro!: obind_cong split: option.split)

lemma parse_children_safe:
  assumes ok: "pn_ok pn" and sf: "pn_safe pn"
  shows "sum_list (map obj_count vs) + length (hp_nodes P) \<le> hp_node_cap P \<Longrightarrow> fst p = hp_gen P \<Longrightarrow>
    snd p < length (hp_nodes P) \<Longrightarrow>
    cast_only (parse_children pn P p vs) \<and>
    (\<forall>R. parse_children pn P p vs = Ret R \<longrightarrow> ext (snd p) P R \<and>
       length (hp_nodes R) \<le> length (hp_nodes P) + sum_list (map obj_count vs))"
proof (induction vs arbitrary: P)
  case Nil
  then show ?case by (simp add: ext_refl)
next
  case (Cons v vs)
  show ?case
  proof (cases "length (hn_children (hp_nodes P ! snd p)) < HU_HULA_MAX_CHILDREN")
    case True
    let ?m = "obind (pn P v) (\<lambda>(Q, c). case c of None \<Rightarrow> Ret Q | Some q \<Rightarrow> add_child Q p q)"
    have st: "parse_children pn P p (v # vs) = obind ?m (\<lambda>Q. parse_children pn Q p vs)"
      unfolding parse_children_step using True Cons.prems by (simp add: node_read_def)
    have cap: "obj_count v + length (hp_nodes P) \<le> hp_node_cap P" using Cons.prems by simp
    note m = child_safe [OF ok sf cap Cons.prems(2,3) True]
    have "cast_only (parse_children pn Q p vs) \<and> (\<forall>R. parse_children pn Q p vs = Ret R \<longrightarrow>
        ext (snd p) P R \<and> length (hp_nodes R) \<le> length (hp_nodes P) + sum_list (map obj_count (v # vs)))"
      if "?m = Ret Q" for Q
    proof -
      have e: "ext (snd p) P Q" and l: "length (hp_nodes Q) \<le> length (hp_nodes P) + obj_count v"
        using m(2) [OF that] by auto
      have "hp_node_cap Q = hp_node_cap P" "hp_gen Q = hp_gen P" "length (hp_nodes P) \<le> length (hp_nodes Q)"
        using e by (auto simp: ext_def)
      with Cons.IH [of Q] Cons.prems l show ?thesis by (auto intro: ext_trans [OF e])
    qed
    with m(1) show ?thesis unfolding st by (intro cast_only_chain) blast
  next
    case False
    with Cons.prems show ?thesis
      unfolding parse_children_step by (simp add: node_read_def ext_refl)
  qed
qed

lemma parse_shorthand_safe:
  assumes ok: "pn_ok pn" and sf: "pn_safe pn"
    and cap: "(case val of None \<Rightarrow> 0 | Some w \<Rightarrow> obj_count w) + length (hp_nodes P) \<le> hp_node_cap P"
    and p: "fst p = hp_gen P" "snd p < length (hp_nodes P)"
  shows "cast_only (parse_shorthand pn f val p P) \<and>
    (\<forall>R. parse_shorthand pn f val p P = Ret R \<longrightarrow> ext (snd p) P R \<and>
       length (hp_nodes R) \<le> length (hp_nodes P) + (case val of None \<Rightarrow> 0 | Some w \<Rightarrow> obj_count w))"
proof (cases val)
  case None
  with p show ?thesis by (simp add: parse_shorthand_def ext_refl)
next
  case (Some v)
  show ?thesis
  proof (cases "(f \<longrightarrow> hn_children (hp_nodes P ! snd p) = []) \<and>
      length (hn_children (hp_nodes P ! snd p)) < HU_HULA_MAX_CHILDREN")
    case True
    have "obj_count v + length (hp_nodes P) \<le> hp_node_cap P" using cap Some by simp
    note m = child_safe [OF ok sf this p]
    from True p have "parse_shorthand pn f val p P =
        obind (pn P v) (\<lambda>(Q, c). case c of None \<Rightarrow> Ret Q | Some q \<Rightarrow> add_child Q p q)"
      by (simp add: parse_shorthand_def Some node_read_def)
    with m True Some show ?thesis by simp
  next
    case False
    with p Some show ?thesis by (auto simp: parse_shorthand_def node_read_def ext_refl)
  qed
qed

lemma parse_shorthands_safe:
  fixes v :: json
  assumes ok: "pn_ok pn" and sf: "pn_safe pn" and p: "fst p = hp_gen P" "snd p < length (hp_nodes P)"
  defines "w \<equiv> \<lambda>k. case hu_json_object_get v k of None \<Rightarrow> 0 | Some w \<Rightarrow> obj_count w"
  assumes cap: "sum_list (map w [''then'', ''else'', ''body'', ''catch'']) + length (hp_nodes P) \<le> hp_node_cap P"
  shows "cast_only (parse_shorthands pn opc v p P) \<and>
    (\<forall>R. parse_shorthands pn opc v p P = Ret R \<longrightarrow> hp_gen R = hp_gen P \<and>
       length (hp_nodes R) \<le> length (hp_nodes P) + sum_list (map w [''then'', ''else'', ''body'', ''catch'']))"
proof -
  have wk: "w k = (case hu_json_object_get v k of None \<Rightarrow> 0 | Some w \<Rightarrow> obj_count w)" for k
    by (simp add: w_def)
  note one = parse_shorthand_safe [OF ok sf]
  have two: "cast_only m \<and> (\<forall>R. m = Ret R \<longrightarrow> hp_gen R = hp_gen P \<and>
       length (hp_nodes R) \<le> length (hp_nodes P) + (w a + w b))"
    if m: "m = obind (parse_shorthand pn False (hu_json_object_get v a) p P)
          (\<lambda>prog. parse_shorthand pn False (hu_json_object_get v b) p prog)"
      and c: "w a + w b + length (hp_nodes P) \<le> hp_node_cap P" for a b m
  proof -
    have ca: "w a + length (hp_nodes P) \<le> hp_node_cap P" using c by simp
    note h = one [OF ca [unfolded wk] p, of False, folded wk]
    have "cast_only (parse_shorthand pn False (hu_json_object_get v b) p Q) \<and>
        (\<forall>R. parse_shorthand pn False (hu_json_object_get v b) p Q = Ret R \<longrightarrow> hp_gen R = hp_gen P \<and>
         length (hp_nodes R) \<le> length (hp_nodes P) + (w a + w b))"
      if "parse_shorthand pn False (hu_json_object_get v a) p P = Ret Q" for Q
    proof -
      from h that have e: "ext (snd p) P Q" and l: "length (hp_nodes Q) \<le> length (hp_nodes P) + w a"
        by auto
      from e p have p2: "fst p = hp_gen Q" "snd p < length (hp_nodes Q)" and cq: "hp_node_cap Q = hp_node_cap P"
        by (auto simp: ext_def)
      have cb: "w b + length (hp_nodes Q) \<le> hp_node_cap Q" using c l cq by simp
      from one [OF cb [unfolded wk] p2, of False, folded wk] l e show ?thesis
        by (fastforce simp: ext_def)
    qed
    with h show ?thesis unfolding m by (intro cast_only_chain) blast+
  qed
  have wb: "w ''body'' + length (hp_nodes P) \<le> hp_node_cap P" using cap by simp
  show ?thesis
  proof (cases opc)
    case HU_HULA_BRANCH
    with two [OF refl, of "''then''" "''else''"] cap show ?thesis
      by (fastforce simp: parse_shorthands_def)
  next
    case HU_HULA_LOOP
    with one [OF wb [unfolded wk] p, of True, folded wk] show ?thesis
      by (fastforce simp: parse_shorthands_def ext_def)
  next
    case HU_HULA_TRY
    with two [OF refl, of "''body''" "''catch''"] cap show ?thesis
      by (fastforce simp: parse_shorthands_def)
  qed (simp_all add: parse_shorthands_def)
qed


lemma get_u32_cast_only: "cast_only (get_u32 obj key d)"
  by (simp add: get_u32_def dbl_to_u32_def)

lemma parse_node_args_cast_only: "cast_only (parse_node_args val)"
proof (cases val)
  case (Some a)
  then show ?thesis using hu_json_stringify_fits [of a] by (cases "hu_json_stringify a") (simp_all add: parse_node_args_def)
qed (simp add: parse_node_args_def)

lemma parse_node_args_fits: "(\<And>a. val = Some a \<Longrightarrow> json_fits a) \<Longrightarrow> \<exists>t. parse_node_args val = Ret t"
proof (cases val)
  case (Some a)
  assume "\<And>a. val = Some a \<Longrightarrow> json_fits a"
  with Some show ?thesis using hu_json_stringify_fits [of a] by (cases "hu_json_stringify a") (simp_all add: parse_node_args_def)
qed (simp add: parse_node_args_def)

lemma parse_fields_cast_only: "cast_only (parse_fields obj n)"
  unfolding parse_fields_def Let_def by (intro cast_only_obind get_u32_cast_only parse_node_args_cast_only) simp

lemma parse_node_alloc_safe:
  assumes sf: "pn_safe (\<lambda>pr v. parse_node k pr v)" and v: "v = JObj ps"
    and al: "hu_hula_program_alloc_node P (parse_op (hu_json_get_string v ''op'')) (hu_json_get_string v ''id'') = (P1, Some p)"
    and cap: "obj_count v + length (hp_nodes P) \<le> hp_node_cap P1"
  shows "cast_only (parse_node (Suc k) P v) \<and> (\<forall>R. parse_node (Suc k) P v = Ret R \<longrightarrow>
      snd R = Some p \<and> hp_gen (fst R) = hp_gen P1 \<and> length (hp_nodes (fst R)) \<le> length (hp_nodes P) + obj_count v)"
proof -
  note parts = obj_count_parts [OF v]
  let ?o = "parse_op (hu_json_get_string v ''op'')"
  note a = alloc_Some [OF al]
  have p1: "fst p = hp_gen P1" "snd p < length (hp_nodes P1)" using a(1,2) by auto
  let ?g = "\<lambda>R. snd R = Some p \<and> hp_gen (fst R) = hp_gen P1 \<and>
      length (hp_nodes (fst R)) \<le> length (hp_nodes P) + obj_count v"
  let ?pn = "\<lambda>pr v. parse_node k pr v"
  have shorthands: "cast_only m \<and> (\<forall>R. m = Ret R \<longrightarrow> ?g R)"
    if m: "m = obind (parse_shorthands ?pn ?o v p P3) (\<lambda>prog. Ret (prog, Some p))" and e: "ext (snd p) P1 P3"
      and l: "length (hp_nodes P3) \<le> length (hp_nodes P1) + sum_list (map obj_count (child_items v))"
    for P3 and m :: "(hula_program \<times> hptr option) outcome"
  proof -
    from e p1 have p3: "fst p = hp_gen P3" "snd p < length (hp_nodes P3)"
      and c3: "hp_node_cap P3 = hp_node_cap P1" "hp_gen P3 = hp_gen P1" by (auto simp: ext_def)
    have l1: "length (hp_nodes P1) = Suc (length (hp_nodes P))" using a(2) by simp
    obtain S where S: "sum_list (map (\<lambda>k. case hu_json_object_get v k of None \<Rightarrow> 0 | Some w \<Rightarrow> obj_count w)
        [''then'', ''else'', ''body'', ''catch'']) = S" by blast
    have "S + length (hp_nodes P3) \<le> hp_node_cap P3" using parts cap l l1 c3 S by linarith
    then have sh: "cast_only (parse_shorthands ?pn ?o v p P3)"
        "\<And>R. parse_shorthands ?pn ?o v p P3 = Ret R \<Longrightarrow> hp_gen R = hp_gen P3 \<and> length (hp_nodes R) \<le> length (hp_nodes P3) + S"
      using parse_shorthands_safe [OF pn_ok_parse_node sf p3, of v ?o] unfolding S by blast+
    show ?thesis unfolding m
    proof (rule cast_only_chain [OF sh(1)])
      fix x assume "parse_shorthands ?pn ?o v p P3 = Ret x"
      note x = sh(2) [OF this]
      have "length (hp_nodes x) \<le> length (hp_nodes P) + obj_count v"
        using x l l1 parts [unfolded S] by linarith
      moreover have "hp_gen x = hp_gen P1" using x c3 by argo
      ultimately show "cast_only (Ret (x, Some p)) \<and> (\<forall>R. Ret (x, Some p) = Ret R \<longrightarrow> ?g R)" by simp
    qed
  qed
  have body: "cast_only m \<and> (\<forall>R. m = Ret R \<longrightarrow> ?g R)"
    if wr: "node_write P1 p (\<lambda>_. n') = Ret P2" and ch: "hn_children n' = hn_children (hp_nodes P1 ! snd p)"
      and m: "m = obind (parse_children ?pn P2 p (child_items v)) (\<lambda>prog.
        obind (parse_shorthands ?pn ?o v p prog) (\<lambda>prog. Ret (prog, Some p)))"
    for n' P2 and m :: "(hula_program \<times> hptr option) outcome"
  proof -
    have e2: "ext (snd p) P1 P2"
      using wr ch p1 by (auto simp: node_write_Ret intro!: ext_update)
    have p2: "fst p = hp_gen P2" "snd p < length (hp_nodes P2)"
      and l2: "length (hp_nodes P2) = length (hp_nodes P1)" "hp_node_cap P2 = hp_node_cap P1"
      using wr p1 by (auto simp: node_write_Ret)
    have "sum_list (map obj_count (child_items v)) + length (hp_nodes P2) \<le> hp_node_cap P2"
      using parts cap l2 a(2) by simp
    note c = parse_children_safe [OF pn_ok_parse_node sf this p2]
    show ?thesis unfolding m
    proof (rule cast_only_chain)
      show "cast_only (parse_children ?pn P2 p (child_items v))" using c by blast
    next
      fix P3 assume "parse_children ?pn P2 p (child_items v) = Ret P3"
      with c have "ext (snd p) P2 P3"
        and l: "length (hp_nodes P3) \<le> length (hp_nodes P1) + sum_list (map obj_count (child_items v))"
        unfolding l2 by blast+
      with e2 have e3: "ext (snd p) P1 P3" by (blast intro: ext_trans)
      show "cast_only (obind (parse_shorthands ?pn ?o v p P3) (\<lambda>prog. Ret (prog, Some p))) \<and>
        (\<forall>R. obind (parse_shorthands ?pn ?o v p P3) (\<lambda>prog. Ret (prog, Some p)) = Ret R \<longrightarrow> ?g R)"
        by (rule shorthands [OF refl e3 l])
    qed
  qed
  have st: "parse_node (Suc k) P v = obind (parse_fields v (hp_nodes P1 ! snd p)) (\<lambda>n'.
      obind (node_write P1 p (\<lambda>_. n')) (\<lambda>prog. obind (parse_children ?pn prog p (child_items v)) (\<lambda>prog.
          obind (parse_shorthands ?pn ?o v p prog) (\<lambda>prog. Ret (prog, Some p)))))"
    using al v p1 by (simp add: node_read_def)
  show ?thesis unfolding st
  proof (rule cast_only_chain [OF parse_fields_cast_only], rule cast_only_chain)
    fix n' show "cast_only (node_write P1 p (\<lambda>_. n'))"
      using p1 by (simp add: node_write_def node_read_def)
  qed (rule body [OF _ _ refl], assumption, erule parse_fields_children)
qed

lemma pn_safe_parse_node: "pn_safe (\<lambda>pr v. parse_node k pr v)"
proof (induction k)
  case 0
  then show ?case by (simp add: pn_safe_def)
next
  case (Suc k)
  have "cast_only (parse_node (Suc k) P v) \<and> (\<forall>R. parse_node (Suc k) P v = Ret R \<longrightarrow>
      hp_gen (fst R) = hp_gen P \<and> length (hp_nodes (fst R)) \<le> length (hp_nodes P) + obj_count v)"
    if cap: "obj_count v + length (hp_nodes P) \<le> hp_node_cap P" for P v
  proof (cases v)
    case (JObj ps)
    let ?o = "parse_op (hu_json_get_string v ''op'')"
    obtain P1 r where al: "hu_hula_program_alloc_node P ?o (hu_json_get_string v ''id'') = (P1, r)"
      by (cases "hu_hula_program_alloc_node P ?o (hu_json_get_string v ''id'')")
    show ?thesis
    proof (cases r)
      case None
      with al have "P1 = P" by (auto simp: hu_hula_program_alloc_node_def Let_def split: if_splits)
      with al None JObj show ?thesis by simp
    next
      case (Some p)
      note a = alloc_Some [OF al [unfolded Some]]
      have room: "length (hp_nodes P) < hp_node_cap P" using obj_count_parts [OF JObj] cap by simp
      then have "hp_node_cap P1 = hp_node_cap P" "hp_gen P1 = hp_gen P" using a(3,8) by auto
      with parse_node_alloc_safe [OF Suc.IH JObj al [unfolded Some]] cap show ?thesis by presburger
    qed
  qed simp_all
  then show ?case unfolding pn_safe_def by (metis fst_conv)
qed

text \<open>A plan of one call, and what parsing makes of it.\<close>

definition one_call_text :: string where
  "one_call_text = ''{'' @ [DQUOTE] @ ''root'' @ [DQUOTE] @ '':{'' @ [DQUOTE] @ ''tool'' @ [DQUOTE] @ '':'' @
     [DQUOTE] @ ''t'' @ [DQUOTE] @ ''}}''"

definition one_call_json :: json where
  "one_call_json = JObj [(''root'', JObj [(''tool'', JStr ''t'')])]"

lemma one_call_parse: "hu_json_parse one_call_text = Ret one_call_json"
  by code_simp

lemma dbl_to_u32_zero [simp]: "dbl_to_u32 dzero = Ret 0"
  by (simp add: dbl_to_u32_def dzero_def dbl_trunc_def dbl_trunc_abs_def)

lemma dbl_to_u32_one [simp]: "dbl_to_u32 dbl_one = Ret 1"
  by (simp add: dbl_to_u32_def dbl_one_def dbl_trunc_def dbl_trunc_abs_def)

lemma one_call_program:
  "hu_hula_parse_json one_call_text = Ret \<lparr>hp_name = None, hp_version = 1,
     hp_nodes = [(empty_node HU_HULA_CALL None)\<lparr>hn_tool_name := Some ''t''\<rparr>], hp_node_cap = 16, hp_gen = 1,
     hp_root = Some 0\<rparr>"
  by (simp add: hu_hula_parse_json_def one_call_parse one_call_json_def hu_json_object_get_def hu_json_get_string_def
      hu_hula_program_init_def get_u32_def hu_json_get_number_def HU_HULA_VERSION_def
      hu_hula_program_alloc_node_def HU_HULA_MAX_NODES_def parse_op_def parse_pred_def node_read_def node_write_def
      parse_fields_def parse_node_args_def child_items_def parse_shorthands_def empty_node_def Let_def cstr_def)


lemma hula_parse_well_formed_witness:
  "\<exists>prog. hu_hula_parse_json one_call_text = Ret prog \<and> wf_prog prog \<and> length (hp_nodes prog) \<le> 16"
  using hula_parse_well_formed [OF one_call_program] one_call_program by blast

lemma parse_json_root:
  assumes "hu_json_parse t = Ret v" and "hu_json_object_get v ''root'' = Some (JObj qs)"
  shows "hu_hula_parse_json t = obind (get_u32 v ''version'' dbl_one) (\<lambda>ver.
     obind (parse_node (Suc HU_HULA_MAX_DEPTH)
       ((hu_hula_program_init (hu_json_get_string v ''name''))\<lparr>hp_version := ver\<rparr>) (JObj qs)) (\<lambda>(prog, r).
      case r of None \<Rightarrow> Err HU_ERR_PARSE
      | Some p \<Rightarrow> if fst p \<noteq> hp_gen prog then Undef UseAfterFree else Ret (prog\<lparr>hp_root := Some (snd p)\<rparr>)))"
  using assms by (cases v) (simp_all add: hu_hula_parse_json_def hu_json_object_get_def del: parse_node.simps)

lemma alloc_first:
  "hp_nodes P = [] \<Longrightarrow> hp_node_cap P = 0 \<Longrightarrow> hu_hula_program_alloc_node P opc ident =
     (P\<lparr>hp_node_cap := 16, hp_gen := hp_gen P + 1, hp_nodes := [empty_node opc ident]\<rparr>, Some (hp_gen P + 1, 0))"
  by (simp add: hu_hula_program_alloc_node_def HU_HULA_MAX_NODES_def)

text \<open>
  Parsing a document whose root is an object that holds, itself included, at most 16 objects
  never touches a freed array and never fails otherwise: it returns a program, or a number of the
  document was outside the range of the unsigned field it is cast to.
\<close>

theorem hula_parse_small_plan:
  assumes "hu_json_parse t = Ret v" and "hu_json_object_get v ''root'' = Some (JObj qs)"
    and "obj_count (JObj qs) \<le> 16"
  shows "(\<exists>prog. hu_hula_parse_json t = Ret prog) \<or> hu_hula_parse_json t = Undef BadCast"
proof -
  have node: "cast_only (obind (parse_node (Suc HU_HULA_MAX_DEPTH) P (JObj qs)) (\<lambda>(prog, r).
      case r of None \<Rightarrow> Err HU_ERR_PARSE
      | Some p \<Rightarrow> if fst p \<noteq> hp_gen prog then Undef UseAfterFree else Ret (prog\<lparr>hp_root := Some (snd p)\<rparr>)))"
    if P: "hp_nodes P = []" "hp_node_cap P = 0" for P
    using parse_node_alloc_safe [OF pn_safe_parse_node refl alloc_first [OF P], of qs HU_HULA_MAX_DEPTH] P assms(3)
    by (intro cast_only_obind) (auto simp del: parse_node.simps)
  show ?thesis
    unfolding parse_json_root [OF assms(1,2)] cast_only_def [symmetric]
    by (intro cast_only_obind get_u32_cast_only node) (simp_all add: hu_hula_program_init_def)
qed

lemma hula_parse_small_plan_witness:
  "(\<exists>prog. hu_hula_parse_json one_call_text = Ret prog) \<or> hu_hula_parse_json one_call_text = Undef BadCast"
  by (rule hula_parse_small_plan [OF one_call_parse]) (auto simp: one_call_json_def hu_json_object_get_def)

subsection \<open>Plans that outgrow the first array\<close>

text \<open>An object that parsing turns into a node without children.\<close>

definition nums_ok :: "json \<Rightarrow> bool" where
  "nums_ok v \<longleftrightarrow> (\<forall>k \<in> {''max_iter'', ''timeout_ms'', ''retry_count'', ''retry_backoff_ms''}.
     get_u32 v k dzero \<noteq> Undef BadCast) \<and> (\<forall>a. hu_json_object_get v ''args'' = Some a \<longrightarrow> json_fits a)"

definition leaf_json :: "json \<Rightarrow> bool" where
  "leaf_json v \<longleftrightarrow> nums_ok v \<and> (\<exists>ps. v = JObj ps) \<and>
     (\<forall>k \<in> {''children'', ''then'', ''else'', ''body'', ''catch''}. hu_json_object_get v k = None)"

lemma parse_fields_Ret:
  assumes "nums_ok v"
  obtains n' where "parse_fields v n = Ret n'"
proof -
  have "\<exists>x. get_u32 v k dzero = Ret x"
    if "k \<in> {''max_iter'', ''timeout_ms'', ''retry_count'', ''retry_backoff_ms''}" for k
    using assms get_u32_cast_only [of v k dzero] that by (auto simp: nums_ok_def cast_only_def)
  then obtain a b c d where "get_u32 v ''max_iter'' dzero = Ret a" "get_u32 v ''timeout_ms'' dzero = Ret b"
    "get_u32 v ''retry_count'' dzero = Ret c" "get_u32 v ''retry_backoff_ms'' dzero = Ret d"
    by (metis insertCI)
  moreover obtain t where "parse_node_args (hu_json_object_get v ''args'') = Ret t"
    using parse_node_args_fits assms by (metis nums_ok_def)
  ultimately show ?thesis by (intro that) (simp add: parse_fields_def Let_def)
qed

lemma parse_leaf:
  assumes "leaf_json v" and "length (hp_nodes P) < HU_HULA_MAX_NODES"
  obtains Q where "parse_node (Suc k) P v = Ret (Q, Some (hp_gen Q, length (hp_nodes P)))"
    and "length (hp_nodes Q) = Suc (length (hp_nodes P))"
    and "hp_gen Q = (if length (hp_nodes P) < hp_node_cap P then hp_gen P else hp_gen P + 1)"
    and "length (hp_nodes P) < hp_node_cap P \<Longrightarrow> hp_node_cap Q = hp_node_cap P"
proof -
  obtain ps where v: "v = JObj ps" using assms(1) by (auto simp: leaf_json_def)
  define opc where "opc = parse_op (hu_json_get_string v ''op'')"
  obtain P1 p where al: "hu_hula_program_alloc_node P opc (hu_json_get_string v ''id'') = (P1, Some p)"
    using assms(2) by (auto simp: hu_hula_program_alloc_node_def Let_def)
  note a = alloc_Some [OF al]
  obtain n' where n': "parse_fields v (hp_nodes P1 ! snd p) = Ret n'"
    using assms(1) parse_fields_Ret by (auto simp: leaf_json_def)
  have "child_items v = []" "parse_shorthands pn opc v p Q = Ret Q" for pn Q
    using assms(1)
    by (auto simp: leaf_json_def child_items_def parse_shorthands_def parse_shorthand_def split: hula_op.split)
  moreover have rd: "node_read P1 p = Ret (hp_nodes P1 ! snd p)"
    and wr: "node_write P1 p (\<lambda>_. n') = Ret (P1\<lparr>hp_nodes := (hp_nodes P1)[snd p := n']\<rparr>)"
    using a(1,2) by (simp_all add: node_read_def node_write_def)
  ultimately have "parse_node (Suc k) P v = Ret (P1\<lparr>hp_nodes := (hp_nodes P1)[snd p := n']\<rparr>, Some p)"
    using v al n' wr by (simp add: opc_def [unfolded v, symmetric] rd)
  with a(1,2,3,8) show ?thesis
    by (intro that [of "P1\<lparr>hp_nodes := (hp_nodes P1)[snd p := n']\<rparr>"]) simp_all
qed

lemma add_child_Ret:
  assumes "fst p = hp_gen P" "snd p < length (hp_nodes P)" "fst q = hp_gen P"
  obtains Q where "add_child P p q = Ret Q" and "hp_gen Q = hp_gen P" and "hp_node_cap Q = hp_node_cap P"
    and "length (hp_nodes Q) = length (hp_nodes P)"
    and "length (hn_children (hp_nodes Q ! snd p)) = Suc (length (hn_children (hp_nodes P ! snd p)))"
  using assms that by (simp add: add_child_def node_read_def node_write_def)

text \<open>Leaves beyond the room of the array are added through a pointer into the old one.\<close>

lemma parse_children_uaf:
  "\<forall>v \<in> set vs. leaf_json v \<Longrightarrow> fst p = hp_gen P \<Longrightarrow> snd p < length (hp_nodes P) \<Longrightarrow>
   length (hp_nodes P) \<le> hp_node_cap P \<Longrightarrow> hp_node_cap P < HU_HULA_MAX_NODES \<Longrightarrow>
   hp_node_cap P < length (hp_nodes P) + length vs \<Longrightarrow>
   length (hn_children (hp_nodes P ! snd p)) + (hp_node_cap P - length (hp_nodes P)) < HU_HULA_MAX_CHILDREN \<Longrightarrow>
   parse_children (\<lambda>pr v. parse_node (Suc k) pr v) P p vs = Undef UseAfterFree"
proof (induction vs arbitrary: P)
  case Nil
  then show ?case by simp
next
  case (Cons v vs)
  obtain Q where q: "parse_node (Suc k) P v = Ret (Q, Some (hp_gen Q, length (hp_nodes P)))"
    and l: "length (hp_nodes Q) = Suc (length (hp_nodes P))"
    and g: "hp_gen Q = (if length (hp_nodes P) < hp_node_cap P then hp_gen P else hp_gen P + 1)"
    and c: "length (hp_nodes P) < hp_node_cap P \<Longrightarrow> hp_node_cap Q = hp_node_cap P"
    using parse_leaf [of v P k] Cons.prems by (auto simp del: parse_node.simps)
  have st: "parse_children (\<lambda>pr v. parse_node (Suc k) pr v) P p (v # vs) =
      obind (add_child Q p (hp_gen Q, length (hp_nodes P)))
        (\<lambda>Q. parse_children (\<lambda>pr v. parse_node (Suc k) pr v) Q p vs)"
  proof -
    have "length (hn_children (hp_nodes P ! snd p)) < HU_HULA_MAX_CHILDREN" using Cons.prems(4,7) by linarith
    then show ?thesis
      unfolding parse_children_step using Cons.prems(2,3) q by (simp add: node_read_def del: parse_node.simps)
  qed
  show ?case
  proof (cases "length (hp_nodes P) < hp_node_cap P")
    case True
    have same: "hp_nodes Q ! snd p = hp_nodes P ! snd p"
    proof -
      have "ext (length (hp_nodes P)) P Q"
        using pn_okD_Some(3) [OF pn_ok_parse_node q] g True by simp
      from ext_less [OF this, of "Suc (snd p)"] Cons.prems(3) show ?thesis by (metis Suc_leI lessI nth_take)
    qed
    obtain R where r: "add_child Q p (hp_gen Q, length (hp_nodes P)) = Ret R" "hp_gen R = hp_gen Q"
      "hp_node_cap R = hp_node_cap Q" "length (hp_nodes R) = length (hp_nodes Q)"
      "length (hn_children (hp_nodes R ! snd p)) = Suc (length (hn_children (hp_nodes Q ! snd p)))"
      by (rule add_child_Ret [of p Q "(hp_gen Q, length (hp_nodes P))"]) (use Cons.prems l g True in auto)
    have "parse_children (\<lambda>pr v. parse_node (Suc k) pr v) R p vs = Undef UseAfterFree"
      by (rule Cons.IH) (use Cons.prems r(2-5) l g c True same in auto)
    with st r(1) show ?thesis by simp
  next
    case False
    with g Cons.prems(2) have "add_child Q p (hp_gen Q, length (hp_nodes P)) = Undef UseAfterFree"
      by (simp add: add_child_def node_read_def)
    with st show ?thesis by simp
  qed
qed

text \<open>
  A plan whose root lists 16 or more leaf nodes is parsed through freed memory: the array of
  nodes moves when the 17th node is allocated, and \<^verbatim>\<open>parse_children\<close> goes on writing through its
  pointer to the parent.
\<close>

theorem hula_parse_wide_plan_uaf:
  assumes "hu_json_parse t = Ret v" and "hu_json_object_get v ''root'' = Some (JObj qs)"
    and "get_u32 v ''version'' dbl_one \<noteq> Undef BadCast" and "nums_ok (JObj qs)"
    and "hu_json_object_get (JObj qs) ''children'' = Some (JArr vs)"
    and "16 \<le> length vs" and "\<forall>c \<in> set vs. leaf_json c"
  shows "hu_hula_parse_json t = Undef UseAfterFree"
proof -
  have node: "parse_node (Suc HU_HULA_MAX_DEPTH) P (JObj qs) = Undef UseAfterFree"
    if P: "hp_nodes P = []" "hp_node_cap P = 0" for P
  proof -
    let ?n = "empty_node (parse_op (hu_json_get_string (JObj qs) ''op'')) (hu_json_get_string (JObj qs) ''id'')"
    obtain n' where n': "parse_fields (JObj qs) ?n = Ret n'" using parse_fields_Ret [OF assms(4)] .
    let ?P = "P\<lparr>hp_node_cap := 16, hp_gen := hp_gen P + 1, hp_nodes := [n']\<rparr>"
    have "hn_children n' = []" using parse_fields_children [OF n'] by (simp add: empty_node_def)
    moreover have "HU_HULA_MAX_DEPTH = Suc 15" by (simp add: HU_HULA_MAX_DEPTH_def)
    ultimately have "parse_children (\<lambda>pr v. parse_node HU_HULA_MAX_DEPTH pr v) ?P (hp_gen P + 1, 0) vs = Undef UseAfterFree"
      using assms(6,7) parse_children_uaf [of vs "(hp_gen P + 1, 0)" ?P 15]
      by (simp add: HU_HULA_MAX_NODES_def HU_HULA_MAX_CHILDREN_def del: parse_node.simps)
    then show ?thesis using alloc_first [OF P] n' assms(5)
      by (simp add: node_read_def node_write_def child_items_def)
  qed
  obtain ver where "get_u32 v ''version'' dbl_one = Ret ver"
    using assms(3) get_u32_cast_only [of v "''version''" dbl_one] by (auto simp: cast_only_def)
  then show ?thesis
    unfolding parse_json_root [OF assms(1,2)] by (simp add: node hu_hula_program_init_def del: parse_node.simps)
qed

definition wide_plan_text :: string where
  "wide_plan_text = ''{'' @ [DQUOTE] @ ''root'' @ [DQUOTE] @ '':{'' @ [DQUOTE] @ ''children'' @ [DQUOTE] @
     '':[{},{},{},{},{},{},{},{},{},{},{},{},{},{},{},{}]}}''"

lemma wide_plan_parse:
  "hu_json_parse wide_plan_text = Ret (JObj [(''root'', JObj [(''children'', JArr (replicate 16 (JObj [])))])])"
  by code_simp

lemma hula_parse_wide_plan_uaf_witness: "hu_hula_parse_json wide_plan_text = Undef UseAfterFree"
  by (rule hula_parse_wide_plan_uaf [OF wide_plan_parse, of "[(''children'', JArr (replicate 16 (JObj [])))]"
        "replicate 16 (JObj [])"])
     (auto simp: hu_json_object_get_def get_u32_def hu_json_get_number_def nums_ok_def leaf_json_def)


section \<open>What validation accepts\<close>

text \<open>\<open>at_level prog r d i\<close>: a path of \<open>d\<close> steps leads from \<open>r\<close> down to \<open>i\<close>.\<close>

inductive at_level :: "hula_program \<Rightarrow> nat \<Rightarrow> nat \<Rightarrow> nat \<Rightarrow> bool" for prog where
  here: "at_level prog r 0 r"
| down: "c \<in> set (hn_children (hp_nodes prog ! r)) \<Longrightarrow> at_level prog c d i \<Longrightarrow> at_level prog r (Suc d) i"

inductive_simps at_level_0: "at_level prog r 0 i"
inductive_simps at_level_Suc: "at_level prog r (Suc d) i"

text \<open>The rules a node has to meet, by opcode.\<close>

definition op_ok :: "string list option \<Rightarrow> hula_node \<Rightarrow> bool" where
  "op_ok tools n \<longleftrightarrow>
     (hn_op n = HU_HULA_CALL \<longrightarrow>
        (\<exists>t. hn_tool_name n = Some t \<and> (\<forall>ts. tools = Some ts \<longrightarrow> t \<in> set ts))) \<and>
     (hn_op n \<in> {HU_HULA_SEQ, HU_HULA_PAR, HU_HULA_BRANCH, HU_HULA_LOOP, HU_HULA_TRY} \<longrightarrow> hn_children n \<noteq> []) \<and>
     (hn_op n = HU_HULA_DELEGATE \<longrightarrow> (\<exists>g. hn_goal n = Some g \<and> g \<noteq> [])) \<and>
     (hn_op n = HU_HULA_EMIT \<longrightarrow> (\<exists>k. hn_emit_key n = Some k \<and> k \<noteq> [])) \<and>
     (hn_op n = HU_HULA_VERIFY \<longrightarrow> (\<exists>k. hn_verify_node_id n = Some k \<and> k \<noteq> []))"

definition node_ok :: "string list option \<Rightarrow> hula_node \<Rightarrow> bool" where
  "node_ok tools n \<longleftrightarrow> hn_id n \<noteq> None \<and> op_ok tools n"

text \<open>A report is valid exactly if it is empty; the validators keep that, and never make a report valid again.\<close>

definition report_ok :: "hula_validation \<Rightarrow> bool" where
  "report_ok v \<longleftrightarrow> (hv_valid v \<longleftrightarrow> hv_diags v = []) \<and> length (hv_diags v) \<le> HU_HULA_MAX_DIAGS"

lemma report_ok_add: "report_ok v \<Longrightarrow> report_ok (add_diag i m v) \<and> \<not> hv_valid (add_diag i m v)"
  by (auto simp: report_ok_def add_diag_def HU_HULA_MAX_DIAGS_def)

lemma blank_opt_iff: "blank_opt s \<longleftrightarrow> \<not> (\<exists>t. s = Some t \<and> t \<noteq> [])"
  by (auto simp: blank_opt_def split: option.splits)

text \<open>\<open>keeps v w b\<close>: from the report \<open>v\<close> to \<open>w\<close>, finding nothing exactly if \<open>b\<close>.\<close>

definition keeps :: "hula_validation \<Rightarrow> hula_validation \<Rightarrow> bool \<Rightarrow> bool" where
  "keeps v w b \<longleftrightarrow> (report_ok v \<longrightarrow> report_ok w \<and> (hv_valid w \<longleftrightarrow> hv_valid v \<and> b))"

lemma keeps_refl: "b \<Longrightarrow> keeps v v b"
  by (simp add: keeps_def)

lemma keeps_add: "\<not> b \<Longrightarrow> keeps v (add_diag i m v) b"
  using report_ok_add by (simp add: keeps_def)

lemma keeps_trans: "keeps v w b \<Longrightarrow> keeps w x c \<Longrightarrow> keeps v x (b \<and> c)"
  by (auto simp: keeps_def)

lemma keeps_if: "keeps v (if c then add_diag i m v else v) (\<not> c)"
  by (auto intro: keeps_refl keeps_add)

lemma validate_id_op:
  "keeps v (validate_op tools i n (if hn_id n = None then add_diag (Some i) m v else v)) (node_ok tools n)"
proof -
  have "keeps w (validate_op tools i n w) (op_ok tools n)" for w
    by (cases "hn_op n")
       (auto simp: validate_op_def op_ok_def blank_opt_iff intro!: keeps_refl keeps_add split: option.splits)
  from keeps_trans [OF keeps_if this] show ?thesis unfolding node_ok_def by blast
qed

lemma validate_children:
  assumes "\<And>c v. c \<in> set cs \<Longrightarrow> keeps v (f v c) (P c)"
  shows "keeps v (foldl f v cs) (\<forall>c \<in> set cs. P c)"
  using assms
proof (induction cs arbitrary: v)
  case Nil
  then show ?case by (simp add: keeps_refl)
next
  case (Cons c cs)
  have "keeps (f v c) (foldl f (f v c) cs) (\<forall>c \<in> set cs. P c)" using Cons by simp
  with keeps_trans [OF Cons.prems [of c v]] show ?case by simp
qed

lemma validate_node_keeps:
  "keeps v (validate_node k prog tools i v)
     (\<forall>d j. at_level prog i d j \<longrightarrow> d < k \<and> node_ok tools (hp_nodes prog ! j))"
proof (induction k arbitrary: i v)
  case 0
  have "\<not> (\<forall>d j. at_level prog i d j \<longrightarrow> d < 0 \<and> node_ok tools (hp_nodes prog ! j))"
    by (blast intro: here)
  then show ?case unfolding validate_node.simps by (rule keeps_add)
next
  case (Suc k)
  let ?n = "hp_nodes prog ! i"
  have "keeps v (validate_node (Suc k) prog tools i v)
      (node_ok tools ?n \<and> (\<forall>c \<in> set (hn_children ?n).
         \<forall>d j. at_level prog c d j \<longrightarrow> d < k \<and> node_ok tools (hp_nodes prog ! j)))"
    unfolding validate_node.simps Let_def
    by (rule keeps_trans [OF validate_id_op validate_children]) (rule Suc.IH)
  moreover have "(node_ok tools ?n \<and> (\<forall>c \<in> set (hn_children ?n).
         \<forall>d j. at_level prog c d j \<longrightarrow> d < k \<and> node_ok tools (hp_nodes prog ! j))) \<longleftrightarrow>
      (\<forall>d j. at_level prog i d j \<longrightarrow> d < Suc k \<and> node_ok tools (hp_nodes prog ! j))" (is "?l \<longleftrightarrow> ?r")
  proof
    assume l: ?l
    show ?r
    proof (intro allI impI)
      fix d j assume "at_level prog i d j"
      with l show "d < Suc k \<and> node_ok tools (hp_nodes prog ! j)"
        by (cases d) (auto simp: at_level_0 at_level_Suc)
    qed
  next
    assume r: ?r
    from r [rule_format, OF here] have "node_ok tools ?n" by simp
    moreover have "d < k \<and> node_ok tools (hp_nodes prog ! j)"
      if "c \<in> set (hn_children ?n)" "at_level prog c d j" for c d j
      using r [rule_format, OF down [OF that]] by simp
    ultimately show ?l by blast
  qed
  ultimately show ?case by simp
qed



end
