(* ===== verification/HuHulaExec.thy ===== *)
theory HuHulaExec
  imports HuHula
begin

text \<open>
  \<^verbatim>\<open>src/agent/hula.c\<close>, second part: running a program.

  \<open>hula_host\<close> holds what \<^verbatim>\<open>hu_hula_exec_t\<close> borrows: the program, the tools, the observer, the
  agent pool with its spawn template, the security agent, and the clock calls of the platform.  They
  are reached through function pointers and are parameters of the model; each may read and change a
  state of the outside world of type \<open>'w\<close>.  \<open>hula_exec\<close> holds what the execution owns or changes:
  results, slots, trace, budget, the halt flag, the policy (for its rate tracker), the idempotency
  registry, the outside world, and one field the code does not have: \<open>hx_calls\<close>, the calls of
  \<^verbatim>\<open>tool->vtable->execute\<close> made so far.

  A result keeps the length it was given beside its string: \<^verbatim>\<open>hu_strndup\<close> cuts the string at a NUL
  byte but the length stays.  The two overflow guards of \<^verbatim>\<open>exec_delegate\<close>, which need prompts of
  \<open>2 ^ 64\<close> bytes, are left out; without them no opcode returns an error, so the error code of the
  executing functions is always HU_OK and is left out too.
\<close>

section \<open>The state\<close>

definition HU_HULA_MAX_SLOTS :: nat where
  "HU_HULA_MAX_SLOTS = 64"

definition HU_HULA_REF_EXPAND_CAP :: nat where
  "HU_HULA_REF_EXPAND_CAP = 256 * 1024"

record hula_result =
  hr_status :: hula_status
  hr_output :: "string option"
  hr_output_len :: nat
  hr_error :: "string option"
  hr_error_len :: nat

definition result_zero :: hula_result where
  "result_zero = \<lparr>hr_status = HU_HULA_PENDING, hr_output = None, hr_output_len = 0, hr_error = None, hr_error_len = 0\<rparr>"

record hula_slot =
  hs_key :: string
  hs_value :: string
  hs_value_len :: nat

record tool_result =
  tr_success :: bool
  tr_output :: "string option"
  tr_output_len :: nat
  tr_error_msg :: "string option"
  tr_error_msg_len :: nat

datatype observer_event =
    EvToolCallStart "string option"
  | EvToolCall "string option" bool
  | EvNodeStart string string
  | EvNodeEnd string string string nat
  | EvNodeOutput string string nat
  | EvProgramEnd string bool nat nat

text \<open>
  A callback that has the execution at hand may call \<^verbatim>\<open>hu_hula_exec_cancel\<close>; it says so with
  the reason, \<open>None\<close> for the NULL one.
\<close>

type_synonym cancel_request = "string option option"

record 'w hula_tool =
  tl_name :: "string option"
  tl_execute :: "json \<Rightarrow> 'w \<Rightarrow> hu_error \<times> tool_result \<times> cancel_request \<times> 'w"

datatype agent_status =
    HU_AGENT_RUNNING | HU_AGENT_IDLE | HU_AGENT_COMPLETED | HU_AGENT_FAILED | HU_AGENT_CANCELLED

record spawn_config =
  sc_system_prompt :: "string option"
  sc_model :: "string option"

record 'w agent_pool =
  ap_spawn :: "spawn_config \<Rightarrow> string \<Rightarrow> string \<Rightarrow> 'w \<Rightarrow> nat option \<times> 'w"
  ap_status :: "nat \<Rightarrow> 'w \<Rightarrow> agent_status \<times> 'w"
  ap_result :: "nat \<Rightarrow> 'w \<Rightarrow> string option \<times> 'w"
  ap_cancel :: "nat \<Rightarrow> 'w \<Rightarrow> 'w"

text \<open>
  \<^verbatim>\<open>hu_agent_internal_pre_execute_checks\<close>: whether the call may go on, and the result to report
  otherwise; then \<^verbatim>\<open>hu_agent_internal_post_hook_fire\<close>.
\<close>

record 'w security_agent =
  sa_gate :: "string \<Rightarrow> string \<Rightarrow> 'w \<Rightarrow> bool \<times> tool_result \<times> 'w"
  sa_post_hook :: "string \<Rightarrow> string \<Rightarrow> tool_result \<Rightarrow> 'w \<Rightarrow> 'w"

record 'w hula_host =
  he_program :: hula_program
  he_tools :: "'w hula_tool list"
  he_observer :: "(observer_event \<Rightarrow> 'w \<Rightarrow> cancel_request \<times> 'w) option"
  he_pool :: "'w agent_pool option"
  he_spawn_cfg :: "spawn_config option"
  he_delegate_registry :: "(string \<Rightarrow> string \<Rightarrow> 'w \<Rightarrow> nat option \<times> 'w) option"
  he_security_agent :: "'w security_agent option"
  he_wall_ms :: "'w \<Rightarrow> nat \<times> 'w"
  he_time :: "'w \<Rightarrow> int \<times> 'w"
  he_nanosleep :: "nat \<Rightarrow> 'w \<Rightarrow> 'w"

record 'w hula_exec =
  hx_results :: "hula_result list"
  hx_policy :: "hu_security_policy option"
  hx_trace_log :: "string option"
  hx_halted :: bool
  hx_halt_reason :: "string option"
  hx_halt_reason_len :: nat
  hx_slots :: "hula_slot list"
  hx_budget_enabled :: bool
  hx_budget_max_depth :: nat
  hx_budget_max_wall_ms :: nat
  hx_budget_max_tool_calls :: nat
  hx_budget_run_start_ms :: nat
  hx_budget_tool_calls_used :: nat
  hx_registry :: "idem_registry option"
  hx_world :: 'w
  hx_calls :: "(nat \<times> json) list"

definition hu_hula_exec_init :: "hula_program \<Rightarrow> 'w \<Rightarrow> 'w hula_exec" where
  "hu_hula_exec_init prog w =
     \<lparr>hx_results = replicate (length (hp_nodes prog)) result_zero, hx_policy = None, hx_trace_log = None,
      hx_halted = False, hx_halt_reason = None, hx_halt_reason_len = 0, hx_slots = [], hx_budget_enabled = False,
      hx_budget_max_depth = 0, hx_budget_max_wall_ms = 0, hx_budget_max_tool_calls = 0,
      hx_budget_run_start_ms = 0, hx_budget_tool_calls_used = 0, hx_registry = None, hx_world = w, hx_calls = []\<rparr>"

definition hu_hula_exec_init_full :: "hula_program \<Rightarrow> hu_security_policy option \<Rightarrow> 'w \<Rightarrow> 'w hula_exec" where
  "hu_hula_exec_init_full prog policy w =
     (hu_hula_exec_init prog w)\<lparr>hx_policy := policy, hx_trace_log := Some ''[''\<rparr>"

definition hu_hula_exec_set_idempotency_registry :: "idem_registry option \<Rightarrow> 'w hula_exec \<Rightarrow> 'w hula_exec" where
  "hu_hula_exec_set_idempotency_registry reg x = x\<lparr>hx_registry := reg\<rparr>"

definition hu_hula_exec_cancel :: "string option \<Rightarrow> nat \<Rightarrow> 'w hula_exec \<Rightarrow> 'w hula_exec" where
  "hu_hula_exec_cancel reason n x =
     (let x = x\<lparr>hx_halted := True, hx_halt_reason := None, hx_halt_reason_len := 0\<rparr> in
      case reason of
        None \<Rightarrow> x
      | Some s \<Rightarrow> if n > 0 then x\<lparr>hx_halt_reason := Some (hu_strndup s n), hx_halt_reason_len := n\<rparr> else x)"

definition hu_hula_exec_set_budget :: "nat \<Rightarrow> nat \<Rightarrow> nat \<Rightarrow> 'w hula_exec \<Rightarrow> 'w hula_exec" where
  "hu_hula_exec_set_budget max_depth max_wall_ms max_tool_calls x =
     x\<lparr>hx_budget_max_depth := max_depth, hx_budget_max_wall_ms := max_wall_ms,
       hx_budget_max_tool_calls := max_tool_calls,
       hx_budget_enabled := (max_depth > 0 \<or> max_wall_ms > 0 \<or> max_tool_calls > 0)\<rparr>"

section \<open>Calls of the host\<close>

definition absorb_cancel :: "cancel_request \<Rightarrow> 'w hula_exec \<Rightarrow> 'w hula_exec" where
  "absorb_cancel c x =
     (case c of None \<Rightarrow> x
      | Some r \<Rightarrow> hu_hula_exec_cancel r (case r of None \<Rightarrow> 0 | Some s \<Rightarrow> length s) x)"

definition record_event :: "'w hula_host \<Rightarrow> observer_event \<Rightarrow> 'w hula_exec \<Rightarrow> 'w hula_exec" where
  "record_event h ev x =
     (case he_observer h of None \<Rightarrow> x
      | Some f \<Rightarrow> let (c, w) = f ev (hx_world x) in absorb_cancel c (x\<lparr>hx_world := w\<rparr>))"

definition hula_wall_ms :: "'w hula_host \<Rightarrow> 'w hula_exec \<Rightarrow> nat \<times> 'w hula_exec" where
  "hula_wall_ms h x = (let (t, w) = he_wall_ms h (hx_world x) in (t, x\<lparr>hx_world := w\<rparr>))"

definition c_time :: "'w hula_host \<Rightarrow> 'w hula_exec \<Rightarrow> int \<times> 'w hula_exec" where
  "c_time h x = (let (t, w) = he_time h (hx_world x) in (t, x\<lparr>hx_world := w\<rparr>))"

definition c_nanosleep :: "'w hula_host \<Rightarrow> nat \<Rightarrow> 'w hula_exec \<Rightarrow> 'w hula_exec" where
  "c_nanosleep h ms x = x\<lparr>hx_world := he_nanosleep h ms (hx_world x)\<rparr>"

section \<open>Results and slots\<close>

definition result_for :: "'w hula_exec \<Rightarrow> nat \<Rightarrow> hula_result option" where
  "result_for x i = (if i < length (hx_results x) then Some (hx_results x ! i) else None)"

definition hula_result_reset :: "nat \<Rightarrow> 'w hula_exec \<Rightarrow> 'w hula_exec" where
  "hula_result_reset i x = x\<lparr>hx_results := (hx_results x)[i := result_zero]\<rparr>"

definition dup_if :: "string option \<Rightarrow> nat \<Rightarrow> string option" where
  "dup_if s n = (case s of None \<Rightarrow> None | Some t \<Rightarrow> if n > 0 then Some (hu_strndup t n) else None)"

text \<open>An update past the end of the list changes nothing, which is the early return of the code.\<close>

definition set_result ::
    "nat \<Rightarrow> hula_status \<Rightarrow> string option \<Rightarrow> nat \<Rightarrow> string option \<Rightarrow> nat \<Rightarrow> 'w hula_exec \<Rightarrow> 'w hula_exec" where
  "set_result i st out out_len er er_len x =
     x\<lparr>hx_results := (hx_results x)[i :=
        \<lparr>hr_status = st, hr_output = dup_if out out_len, hr_output_len = out_len,
         hr_error = dup_if er er_len, hr_error_len = er_len\<rparr>]\<rparr>"

definition fail_with :: "nat \<Rightarrow> string \<Rightarrow> 'w hula_exec \<Rightarrow> 'w hula_exec" where
  "fail_with i msg x = set_result i HU_HULA_FAILED None 0 (Some msg) (length msg) x"

definition copy_result :: "nat \<Rightarrow> hula_result \<Rightarrow> 'w hula_exec \<Rightarrow> 'w hula_exec" where
  "copy_result i r x =
     set_result i (hr_status r) (hr_output r) (hr_output_len r) (hr_error r) (hr_error_len r) x"

definition slot_value :: "string \<Rightarrow> nat \<Rightarrow> string" where
  "slot_value val n = (if n > 0 then hu_strndup val n else [])"

fun update_slot :: "hula_slot list \<Rightarrow> string \<Rightarrow> string \<Rightarrow> nat \<Rightarrow> hula_slot list option" where
  "update_slot [] key val n = None"
| "update_slot (s # ss) key val n =
     (if hs_key s = key then Some (s\<lparr>hs_value := slot_value val n, hs_value_len := n\<rparr> # ss)
      else map_option (Cons s) (update_slot ss key val n))"

text \<open>\<^verbatim>\<open>hula_slot_set\<close>; its callers ignore whether the table was full.\<close>

definition hula_slot_set :: "string \<Rightarrow> string \<Rightarrow> nat \<Rightarrow> 'w hula_exec \<Rightarrow> 'w hula_exec" where
  "hula_slot_set key val n x =
     (if key = [] then x
      else case update_slot (hx_slots x) key val n of
        Some ss \<Rightarrow> x\<lparr>hx_slots := ss\<rparr>
      | None \<Rightarrow>
          if length (hx_slots x) \<ge> HU_HULA_MAX_SLOTS then x
          else x\<lparr>hx_slots := hx_slots x @ [\<lparr>hs_key = key, hs_value = slot_value val n, hs_value_len = n\<rparr>]\<rparr>)"

definition eval_pred :: "hula_node \<Rightarrow> hula_result option \<Rightarrow> bool" where
  "eval_pred n lr =
     (case hn_pred n of
        HU_HULA_PRED_SUCCESS \<Rightarrow> (case lr of None \<Rightarrow> False | Some r \<Rightarrow> hr_status r = HU_HULA_DONE)
      | HU_HULA_PRED_FAILURE \<Rightarrow> (case lr of None \<Rightarrow> False | Some r \<Rightarrow> hr_status r = HU_HULA_FAILED)
      | HU_HULA_PRED_CONTAINS \<Rightarrow>
          (case (Option.bind lr hr_output, hn_match_str n) of
             (Some t, Some m) \<Rightarrow> c_contains t m | _ \<Rightarrow> False)
      | HU_HULA_PRED_NOT_CONTAINS \<Rightarrow>
          (case (Option.bind lr hr_output, hn_match_str n) of
             (Some t, Some m) \<Rightarrow> \<not> c_contains t m | _ \<Rightarrow> True)
      | HU_HULA_PRED_ALWAYS \<Rightarrow> True)"

text \<open>The result with the highest position that is done or failed.\<close>

definition last_result :: "'w hula_exec \<Rightarrow> hula_result option" where
  "last_result x = List.find (\<lambda>r. hr_status r = HU_HULA_DONE \<or> hr_status r = HU_HULA_FAILED) (rev (hx_results x))"

fun result_by_id :: "hula_node list \<Rightarrow> hula_result list \<Rightarrow> string \<Rightarrow> hula_result option" where
  "result_by_id (n # ns) (r # rs) ident = (if hn_id n = Some ident then Some r else result_by_id ns rs ident)"
| "result_by_id _ _ ident = None"

definition hu_hula_exec_result :: "'w hula_host \<Rightarrow> 'w hula_exec \<Rightarrow> string \<Rightarrow> hula_result option" where
  "hu_hula_exec_result h x ident = result_by_id (hp_nodes (he_program h)) (hx_results x) ident"

section \<open>The trace\<close>

definition quote_q :: "string \<Rightarrow> string" where
  "quote_q s = [DQUOTE] @ s @ [DQUOTE]"

definition trace_safe :: "string \<Rightarrow> bool" where
  "trace_safe s \<longleftrightarrow> list_all (\<lambda>c. c \<noteq> DQUOTE \<and> c \<noteq> BSLASH \<and> cval c \<ge> 32) s"

definition trace_entry :: "hula_node \<Rightarrow> hula_result option \<Rightarrow> string" where
  "trace_entry n r =
     (let ident = (case hn_id n of None \<Rightarrow> [] | Some s \<Rightarrow> s);
          st = (case r of None \<Rightarrow> ''pending'' | Some r \<Rightarrow> hu_hula_status_name (hr_status r));
          outlen = (case r of None \<Rightarrow> 0 | Some r \<Rightarrow> hr_output_len r);
          tool = (case hn_tool_name n of
                    None \<Rightarrow> []
                  | Some t \<Rightarrow> if hn_op n = HU_HULA_CALL \<and> t \<noteq> [] \<and> trace_safe t
                             then '','' @ quote_q ''tool'' @ '':'' @ quote_q t else [])
      in ''{'' @ quote_q ''id'' @ '':'' @ quote_q ident @ '','' @ quote_q ''op'' @ '':'' @ quote_q (hu_hula_op_name (hn_op n)) @
         tool @ '','' @ quote_q ''status'' @ '':'' @ quote_q st @ '','' @ quote_q ''output_len'' @ '':'' @ nat_str outlen @ ''},'')"

definition trace_append :: "'w hula_host \<Rightarrow> nat \<Rightarrow> 'w hula_exec \<Rightarrow> 'w hula_exec" where
  "trace_append h i x =
     (case hx_trace_log x of
        None \<Rightarrow> x
      | Some t \<Rightarrow> x\<lparr>hx_trace_log := Some (t @ trace_entry (hp_nodes (he_program h) ! i) (result_for x i))\<rparr>)"

definition hu_hula_exec_trace :: "'w hula_exec \<Rightarrow> 'w hula_exec \<times> string option" where
  "hu_hula_exec_trace x =
     (case hx_trace_log x of
        None \<Rightarrow> (x, None)
      | Some t \<Rightarrow>
          let t = (if t = ''['' then ''[]''
                   else if length t > 1 \<and> last t = CHR '','' then butlast t @ '']''
                   else t)
          in (x\<lparr>hx_trace_log := Some t\<rparr>, Some t))"

section \<open>References to earlier outputs\<close>

definition hula_id_char_start :: "char \<Rightarrow> bool" where
  "hula_id_char_start c \<longleftrightarrow> is_alpha c \<or> c = CHR ''_''"

definition hula_id_char_cont :: "char \<Rightarrow> bool" where
  "hula_id_char_cont c \<longleftrightarrow> hula_id_char_start c \<or> is_digit c"

text \<open>The name \<open>k\<close> stands at the start of \<open>s\<close> and no identifier character follows it.\<close>

definition name_matches :: "string \<Rightarrow> string \<Rightarrow> bool" where
  "name_matches s k \<longleftrightarrow> k \<noteq> [] \<and> length k \<le> length s \<and> take (length k) s = k \<and>
     (case drop (length k) s of [] \<Rightarrow> True | c # _ \<Rightarrow> \<not> hula_id_char_cont c)"

definition longest_match :: "string \<Rightarrow> string list \<Rightarrow> nat" where
  "longest_match s ks = foldl (\<lambda>best k. if name_matches s k \<and> length k > best then length k else best) 0 ks"

definition hula_ref_longest_match :: "string \<Rightarrow> hula_program \<Rightarrow> nat" where
  "hula_ref_longest_match s prog = longest_match s (List.map_filter hn_id (hp_nodes prog))"

definition hula_slot_key_longest_match :: "'w hula_exec \<Rightarrow> string \<Rightarrow> nat" where
  "hula_slot_key_longest_match x s = longest_match s (map hs_key (hx_slots x))"

text \<open>\<^verbatim>\<open>memcpy (dst, rep, n)\<close> from a string of its own block: one byte past the characters is its terminator.\<close>

definition copy_bytes :: "string \<Rightarrow> nat \<Rightarrow> string outcome" where
  "copy_bytes rep n =
     (if n \<le> length rep then Ret (take n rep)
      else if n = length rep + 1 then Ret (rep @ [NUL])
      else Undef OutOfBounds)"

text \<open>
  The reference at the start of \<open>s\<close>, just past the dollar sign: how long it is, what stands for it
  and with which length.
\<close>

definition find_ref :: "'w hula_host \<Rightarrow> 'w hula_exec \<Rightarrow> string \<Rightarrow> (nat \<times> string \<times> nat) outcome" where
  "find_ref h x s =
     (let skl = hula_slot_key_longest_match x s;
          nid = hula_ref_longest_match s (he_program h)
      in if skl \<ge> nid \<and> skl > 0 then
           (case List.find (\<lambda>sl. hs_key sl = take skl s) (hx_slots x) of
              Some sl \<Rightarrow> Ret (skl, hs_value sl, hs_value_len sl)
            | None \<Rightarrow> Err HU_ERR_INVALID_ARGUMENT)
         else if nid > 0 then
           (if nid \<ge> 160 then Err HU_ERR_INVALID_ARGUMENT
            else case hu_hula_exec_result h x (take nid s) of
              None \<Rightarrow> Err HU_ERR_INVALID_ARGUMENT
            | Some r \<Rightarrow>
                (case hr_output r of
                   None \<Rightarrow> Err HU_ERR_INVALID_ARGUMENT
                 | Some t \<Rightarrow> if hr_status r = HU_HULA_DONE then Ret (nid, t, hr_output_len r)
                            else Err HU_ERR_INVALID_ARGUMENT))
         else Err HU_ERR_INVALID_ARGUMENT)"

text \<open>The loop of \<^verbatim>\<open>hula_expand_dollar_refs\<close>: \<open>acc\<close> is what the buffer holds.\<close>

function expand_loop :: "'w hula_host \<Rightarrow> 'w hula_exec \<Rightarrow> string \<Rightarrow> string \<Rightarrow> string outcome" where
  "expand_loop h x acc [] = Ret acc"
| "expand_loop h x acc (c # s) =
     (if c = CHR ''$'' \<and> s \<noteq> [] \<and> hd s = CHR ''$'' then expand_loop h x (acc @ ''$'') (tl s)
      else if c = CHR ''$'' \<and> s \<noteq> [] \<and> hula_id_char_start (hd s) then
        obind (find_ref h x s) (\<lambda>(ref_len, rep, rep_len).
        if rep_len > HU_HULA_REF_EXPAND_CAP then Err HU_ERR_INVALID_ARGUMENT
        else obind (copy_bytes rep rep_len) (\<lambda>t.
          if length acc + rep_len > HU_HULA_REF_EXPAND_CAP then Err HU_ERR_INVALID_ARGUMENT
          else expand_loop h x (acc @ t) (drop ref_len s)))
      else expand_loop h x (acc @ [c]) s)"
  by pat_completeness auto
termination
  by (relation "measure (\<lambda>(h, x, acc, s). length s)") (auto simp: less_Suc_eq_le)

definition hula_expand_dollar_refs :: "'w hula_host \<Rightarrow> 'w hula_exec \<Rightarrow> string \<Rightarrow> string outcome" where
  "hula_expand_dollar_refs h x s = expand_loop h x [] s"

text \<open>Every string of the arguments, keys excepted, has its references replaced.\<close>

fun hula_substitute_json_strings :: "'w hula_host \<Rightarrow> 'w hula_exec \<Rightarrow> json \<Rightarrow> json outcome"
  and substitute_items :: "'w hula_host \<Rightarrow> 'w hula_exec \<Rightarrow> json list \<Rightarrow> json list outcome"
  and substitute_pairs :: "'w hula_host \<Rightarrow> 'w hula_exec \<Rightarrow> (string \<times> json) list \<Rightarrow> (string \<times> json) list outcome" where
  "hula_substitute_json_strings h x (JStr s) =
     (if CHR ''$'' \<in> set s then obind (hula_expand_dollar_refs h x s) (\<lambda>t. Ret (JStr t)) else Ret (JStr s))"
| "hula_substitute_json_strings h x (JArr vs) = obind (substitute_items h x vs) (\<lambda>vs. Ret (JArr vs))"
| "hula_substitute_json_strings h x (JObj ps) = obind (substitute_pairs h x ps) (\<lambda>ps. Ret (JObj ps))"
| "hula_substitute_json_strings h x (JNum d) = Ret (JNum d)"
| "hula_substitute_json_strings h x (JBool b) = Ret (JBool b)"
| "hula_substitute_json_strings h x JNull = Ret JNull"
| "substitute_items h x [] = Ret []"
| "substitute_items h x (v # vs) =
     obind (hula_substitute_json_strings h x v) (\<lambda>v. obind (substitute_items h x vs) (\<lambda>vs. Ret (v # vs)))"
| "substitute_pairs h x [] = Ret []"
| "substitute_pairs h x ((k, v) # ps) =
     obind (hula_substitute_json_strings h x v) (\<lambda>v. obind (substitute_pairs h x ps) (\<lambda>ps. Ret ((k, v) # ps)))"

section \<open>The opcodes\<close>

subsection \<open>CALL\<close>

fun find_tool :: "'w hula_tool list \<Rightarrow> string option \<Rightarrow> 'w hula_tool option outcome" where
  "find_tool [] name = Ret None"
| "find_tool (t # ts) name =
     (case tl_name t of
        None \<Rightarrow> find_tool ts name
      | Some tn \<Rightarrow>
          (case name of
             None \<Rightarrow> Undef NullDeref
           | Some s \<Rightarrow> if tn = s then Ret (Some t) else find_tool ts name))"

text \<open>What the policy says to a call, and the policy afterwards: asking it prunes the rate tracker.\<close>

definition call_policy :: "'w hula_host \<Rightarrow> hula_node \<Rightarrow> 'w hula_exec \<Rightarrow> 'w hula_exec \<times> string option" where
  "call_policy h n x =
     (case hx_policy x of
        None \<Rightarrow> (x, None)
      | Some p \<Rightarrow>
          if sp_autonomy p = HU_AUTONOMY_LOCKED then (x, Some ''blocked by policy: locked'')
          else if hu_tool_risk_level (hn_tool_name n) = HU_RISK_HIGH \<and> sp_block_high_risk_commands p
          then (x, Some ''blocked by policy: high risk'')
          else if sp_tracker p \<noteq> None then
            let (now, x) = c_time h x; (p', limited) = hu_policy_is_rate_limited now (Some p)
            in (x\<lparr>hx_policy := p'\<rparr>, if limited then Some ''rate limited'' else None)
          else (x, None))"

definition budget_spent :: "'w hula_exec \<Rightarrow> bool" where
  "budget_spent x \<longleftrightarrow> hx_budget_enabled x \<and> hx_budget_max_tool_calls x > 0 \<and>
     hx_budget_tool_calls_used x \<ge> hx_budget_max_tool_calls x"

definition call_args :: "hula_node \<Rightarrow> string" where
  "call_args n = (case hn_args_json n of None \<Rightarrow> ''{}'' | Some s \<Rightarrow> s)"

text \<open>The arguments the tool is given: parsed, references replaced; or the message of the failure.\<close>

definition call_arguments :: "'w hula_host \<Rightarrow> hula_node \<Rightarrow> 'w hula_exec \<Rightarrow> (json + string) outcome" where
  "call_arguments h n x =
     (case hu_json_parse (call_args n) of
        Ret v \<Rightarrow>
          if CHR ''$'' \<in> set (call_args n) then
            (case hula_substitute_json_strings h x v of
               Ret v \<Rightarrow> Ret (Inl v)
             | Err e \<Rightarrow> Ret (Inr ''hula $ref in args failed'')
             | Undef u \<Rightarrow> Undef u
             | NoFuel \<Rightarrow> NoFuel)
          else Ret (Inl v)
      | Err e \<Rightarrow> Ret (Inr ''args parse error'')
      | Undef u \<Rightarrow> Undef u
      | NoFuel \<Rightarrow> NoFuel)"

definition cached_result :: "idem_entry \<Rightarrow> tool_result" where
  "cached_result e =
     (if ie_is_error e
      then \<lparr>tr_success = False, tr_output = Some [], tr_output_len = 0,
            tr_error_msg = Some (ie_result_json e), tr_error_msg_len = length (ie_result_json e)\<rparr>
      else \<lparr>tr_success = True, tr_output = Some (ie_result_json e), tr_output_len = length (ie_result_json e),
            tr_error_msg = None, tr_error_msg_len = 0\<rparr>)"

definition call_replay :: "'w hula_host \<Rightarrow> string \<Rightarrow> hula_node \<Rightarrow> 'w hula_exec \<Rightarrow> 'w hula_exec \<times> tool_result option" where
  "call_replay h name n x =
     (case hx_registry x of
        None \<Rightarrow> (x, None)
      | Some reg \<Rightarrow>
          let (now, x) = c_time h x; (reg', hit) = hu_idempotency_check now reg name (call_args n);
              x = x\<lparr>hx_registry := Some reg'\<rparr>
          in case hit of
               None \<Rightarrow> (x, None)
             | Some e \<Rightarrow>
                 let tr = cached_result e in (record_event h (EvToolCall (Some name) (tr_success tr)) x, Some tr))"

definition set_tool_result :: "nat \<Rightarrow> tool_result \<Rightarrow> 'w hula_exec \<Rightarrow> 'w hula_exec" where
  "set_tool_result i tr x =
     (if tr_success tr then set_result i HU_HULA_DONE (tr_output tr) (tr_output_len tr) None 0 x
      else set_result i HU_HULA_FAILED None 0 (tr_error_msg tr) (tr_error_msg_len tr) x)"

text \<open>The security envelope: the gate, and for a refusal the failed result and the hook.\<close>

definition call_gate :: "'w hula_host \<Rightarrow> nat \<Rightarrow> string \<Rightarrow> string \<Rightarrow> 'w hula_exec \<Rightarrow> 'w hula_exec \<times> bool" where
  "call_gate h i name args x =
     (case he_security_agent h of
        None \<Rightarrow> (x, True)
      | Some a \<Rightarrow>
          let (allow, gate_out, w) = sa_gate a name args (hx_world x); x = x\<lparr>hx_world := w\<rparr> in
          if allow then (x, True)
          else
            let x = (case tr_error_msg gate_out of
                       Some em \<Rightarrow> set_result i HU_HULA_FAILED None 0 (Some em) (tr_error_msg_len gate_out) x
                     | None \<Rightarrow> fail_with i ''denied by security'' x)
            in (x\<lparr>hx_world := sa_post_hook a name args gate_out (hx_world x)\<rparr>, False))"

definition call_execute ::
    "'w hula_host \<Rightarrow> 'w hula_tool \<Rightarrow> nat \<Rightarrow> string \<Rightarrow> hula_node \<Rightarrow> json \<Rightarrow> 'w hula_exec \<Rightarrow> 'w hula_exec" where
  "call_execute h tool i name n args x =
     (let x = record_event h (EvToolCallStart (Some name)) x;
          x = (if hx_budget_enabled x \<and> hx_budget_max_tool_calls x > 0
               then x\<lparr>hx_budget_tool_calls_used := hx_budget_tool_calls_used x + 1\<rparr> else x);
          (err, tr, c, w) = tl_execute tool args (hx_world x);
          x = absorb_cancel c (x\<lparr>hx_world := w, hx_calls := hx_calls x @ [(i, args)]\<rparr>);
          x = (case he_security_agent h of
                 None \<Rightarrow> x
               | Some a \<Rightarrow> x\<lparr>hx_world := sa_post_hook a name (call_args n) tr (hx_world x)\<rparr>);
          x = (case hx_registry x of
                 Some reg \<Rightarrow>
                   if err = HU_OK then
                     let to_cache = (case (if tr_success tr then tr_output tr else tr_error_msg tr) of
                                       None \<Rightarrow> ''{}'' | Some s \<Rightarrow> cstr s);
                         (now, x) = c_time h x
                     in x\<lparr>hx_registry := Some (hu_idempotency_record now reg name (call_args n) to_cache (\<not> tr_success tr))\<rparr>
                   else x
               | None \<Rightarrow> x);
          x = record_event h (EvToolCall (Some name) (err = HU_OK \<and> tr_success tr)) x
      in if err \<noteq> HU_OK then fail_with i ''tool execution error'' x else set_tool_result i tr x)"

definition exec_call :: "'w hula_host \<Rightarrow> nat \<Rightarrow> 'w hula_exec \<Rightarrow> 'w hula_exec outcome" where
  "exec_call h i x =
     (let n = hp_nodes (he_program h) ! i; (x, blocked) = call_policy h n x in
      case blocked of
        Some msg \<Rightarrow> Ret (fail_with i msg x)
      | None \<Rightarrow>
          if budget_spent x then Ret (fail_with i ''hula budget: tool call limit exceeded'' x)
          else
            obind (find_tool (he_tools h) (hn_tool_name n)) (\<lambda>found.
            case (found, hn_tool_name n) of
              (Some tool, Some name) \<Rightarrow>
                obind (call_arguments h n x) (\<lambda>args.
                case args of
                  Inr msg \<Rightarrow> Ret (fail_with i msg x)
                | Inl args \<Rightarrow>
                    let (x, hit) = call_replay h name n x in
                    (case hit of
                       Some tr \<Rightarrow> Ret (set_tool_result i tr x)
                     | None \<Rightarrow>
                         let (x, allowed) = call_gate h i name (call_args n) x in
                         if allowed then Ret (call_execute h tool i name n args x) else Ret x))
            | _ \<Rightarrow> Ret (fail_with i ''tool not found'' x)))"

subsection \<open>Control\<close>

text \<open>
  In the functions below \<open>nd\<close> runs a child, by its position, one level down.
\<close>

definition failed_at :: "'w hula_exec \<Rightarrow> nat \<Rightarrow> hula_result option" where
  "failed_at x c =
     (case result_for x c of Some r \<Rightarrow> if hr_status r = HU_HULA_FAILED then Some r else None | None \<Rightarrow> None)"

text \<open>The children in order, up to the first that failed: its result.\<close>

fun seq_loop ::
    "(nat \<Rightarrow> 'w hula_exec \<Rightarrow> 'w hula_exec outcome) \<Rightarrow> nat list \<Rightarrow> 'w hula_exec \<Rightarrow> ('w hula_exec \<times> hula_result option) outcome" where
  "seq_loop nd [] x = Ret (x, None)"
| "seq_loop nd (c # cs) x =
     obind (nd c x) (\<lambda>x. case failed_at x c of Some r \<Rightarrow> Ret (x, Some r) | None \<Rightarrow> seq_loop nd cs x)"

definition exec_seq ::
    "'w hula_host \<Rightarrow> (nat \<Rightarrow> 'w hula_exec \<Rightarrow> 'w hula_exec outcome) \<Rightarrow> nat \<Rightarrow> 'w hula_exec \<Rightarrow> 'w hula_exec outcome" where
  "exec_seq h nd i x =
     (let cs = hn_children (hp_nodes (he_program h) ! i) in
      obind (seq_loop nd cs x) (\<lambda>(x, fl).
      case fl of
        Some r \<Rightarrow> Ret (set_result i HU_HULA_FAILED None 0 (hr_error r) (hr_error_len r) x)
      | None \<Rightarrow>
          if cs = [] then Ret (set_result i HU_HULA_DONE None 0 None 0 x)
          else (case result_for x (last cs) of
                  Some r \<Rightarrow> Ret (set_result i HU_HULA_DONE (hr_output r) (hr_output_len r) None 0 x)
                | None \<Rightarrow> Ret x)))"

fun par_loop ::
    "(nat \<Rightarrow> 'w hula_exec \<Rightarrow> 'w hula_exec outcome) \<Rightarrow> nat list \<Rightarrow> bool \<Rightarrow> 'w hula_exec \<Rightarrow> ('w hula_exec \<times> bool) outcome" where
  "par_loop nd [] any x = Ret (x, any)"
| "par_loop nd (c # cs) any x = obind (nd c x) (\<lambda>x. par_loop nd cs (any \<or> failed_at x c \<noteq> None) x)"

definition exec_par ::
    "'w hula_host \<Rightarrow> (nat \<Rightarrow> 'w hula_exec \<Rightarrow> 'w hula_exec outcome) \<Rightarrow> nat \<Rightarrow> 'w hula_exec \<Rightarrow> 'w hula_exec outcome" where
  "exec_par h nd i x =
     obind (par_loop nd (hn_children (hp_nodes (he_program h) ! i)) False x) (\<lambda>(x, any).
     Ret (if any then fail_with i ''child failed'' x else set_result i HU_HULA_DONE None 0 None 0 x))"

text \<open>A child is run and its result taken over.\<close>

definition run_as ::
    "(nat \<Rightarrow> 'w hula_exec \<Rightarrow> 'w hula_exec outcome) \<Rightarrow> nat \<Rightarrow> nat \<Rightarrow> 'w hula_exec \<Rightarrow> 'w hula_exec outcome" where
  "run_as nd i c x =
     obind (nd c x) (\<lambda>x. Ret (case result_for x c of Some r \<Rightarrow> copy_result i r x | None \<Rightarrow> x))"

definition exec_branch ::
    "'w hula_host \<Rightarrow> (nat \<Rightarrow> 'w hula_exec \<Rightarrow> 'w hula_exec outcome) \<Rightarrow> nat \<Rightarrow> 'w hula_exec \<Rightarrow> 'w hula_exec outcome" where
  "exec_branch h nd i x =
     (let n = hp_nodes (he_program h) ! i; cs = hn_children n; cond = eval_pred n (last_result x) in
      if cond \<and> length cs \<ge> 1 then run_as nd i (cs ! 0) x
      else if \<not> cond \<and> length cs \<ge> 2 then run_as nd i (cs ! 1) x
      else Ret (set_result i HU_HULA_SKIPPED None 0 None 0 x))"

fun body_loop ::
    "(nat \<Rightarrow> 'w hula_exec \<Rightarrow> 'w hula_exec outcome) \<Rightarrow> nat list \<Rightarrow> 'w hula_exec \<Rightarrow> ('w hula_exec \<times> hula_result option) outcome" where
  "body_loop nd [] x = Ret (x, None)"
| "body_loop nd (c # cs) x =
     obind (nd c (hula_result_reset c x)) (\<lambda>x.
     case failed_at x c of Some r \<Rightarrow> Ret (x, Some r) | None \<Rightarrow> body_loop nd cs x)"

text \<open>The iterations that are left, and the result of the child that failed.\<close>

fun iter_loop ::
    "(nat \<Rightarrow> 'w hula_exec \<Rightarrow> 'w hula_exec outcome) \<Rightarrow> hula_node \<Rightarrow> nat \<Rightarrow> 'w hula_exec \<Rightarrow> ('w hula_exec \<times> hula_result option) outcome" where
  "iter_loop nd n 0 x = Ret (x, None)"
| "iter_loop nd n (Suc m) x =
     (if hn_pred n \<noteq> HU_HULA_PRED_ALWAYS \<and> \<not> eval_pred n (last_result x) then Ret (x, None)
      else obind (body_loop nd (hn_children n) x) (\<lambda>(x, fl).
        case fl of Some r \<Rightarrow> Ret (x, Some r) | None \<Rightarrow> iter_loop nd n m x))"

definition loop_bound :: "hula_node \<Rightarrow> nat" where
  "loop_bound n = (if hn_max_iter n > 0 then hn_max_iter n else 10)"

definition exec_loop ::
    "'w hula_host \<Rightarrow> (nat \<Rightarrow> 'w hula_exec \<Rightarrow> 'w hula_exec outcome) \<Rightarrow> nat \<Rightarrow> 'w hula_exec \<Rightarrow> 'w hula_exec outcome" where
  "exec_loop h nd i x =
     (let n = hp_nodes (he_program h) ! i in
      obind (iter_loop nd n (loop_bound n) x) (\<lambda>(x, fl).
      case fl of
        Some r \<Rightarrow> Ret (set_result i HU_HULA_FAILED None 0 (hr_error r) (hr_error_len r) x)
      | None \<Rightarrow> Ret (set_result i HU_HULA_DONE None 0 None 0 x)))"

definition exec_try ::
    "'w hula_host \<Rightarrow> (nat \<Rightarrow> 'w hula_exec \<Rightarrow> 'w hula_exec outcome) \<Rightarrow> nat \<Rightarrow> 'w hula_exec \<Rightarrow> 'w hula_exec outcome" where
  "exec_try h nd i x =
     (case hn_children (hp_nodes (he_program h) ! i) of
        [] \<Rightarrow> Ret (fail_with i ''try needs body'' x)
      | c # cs \<Rightarrow>
          obind (nd c x) (\<lambda>x.
          if failed_at x c \<noteq> None \<and> cs \<noteq> [] then run_as nd i (hd cs) x
          else Ret (case result_for x c of
                      Some r \<Rightarrow> copy_result i r x
                    | None \<Rightarrow> set_result i HU_HULA_DONE None 0 None 0 x)))"

subsection \<open>VERIFY and EMIT\<close>

text \<open>The message \<^verbatim>\<open>"verify: missing node_id"\<close> is passed with length 22 and loses its last letter.\<close>

definition exec_verify :: "'w hula_host \<Rightarrow> nat \<Rightarrow> 'w hula_exec \<Rightarrow> 'w hula_exec outcome" where
  "exec_verify h i x =
     (let n = hp_nodes (he_program h) ! i; msg = ''verify: assertion failed'' in
      if blank_opt (hn_verify_node_id n) then Ret (set_result i HU_HULA_FAILED None 0 (Some ''verify: missing node_id'') 22 x)
      else case hu_hula_exec_result h x (the (hn_verify_node_id n)) of
        None \<Rightarrow> Ret (fail_with i ''verify: target not found'' x)
      | Some target \<Rightarrow>
          if hr_status target \<noteq> HU_HULA_DONE then Ret (fail_with i ''verify: target not done'' x)
          else if eval_pred n (Some target) then Ret (set_result i HU_HULA_DONE (Some ''verified'') 8 None 0 x)
          else Ret (hu_hula_exec_cancel (Some msg) (length msg) (fail_with i msg x)))"

text \<open>
  \<^verbatim>\<open>snprintf\<close> into 128 bytes keeps the first 127 of them.  The first node whose name occurs in
  the value decides.
\<close>

definition ref_var :: "string \<Rightarrow> string" where
  "ref_var ident = take 127 (''$'' @ ident)"

fun emit_ref :: "hula_node list \<Rightarrow> nat \<Rightarrow> string \<Rightarrow> nat option" where
  "emit_ref [] i val = None"
| "emit_ref (n # ns) i val =
     (case hn_id n of
        Some ident \<Rightarrow> if c_contains val (ref_var ident) then Some i else emit_ref ns (Suc i) val
      | None \<Rightarrow> emit_ref ns (Suc i) val)"

text \<open>
  The emitted value is the emitting node's own last output if the name found is its own; \<^verbatim>\<open>set_result\<close>
  frees that output before it copies it.
\<close>

definition exec_emit :: "'w hula_host \<Rightarrow> nat \<Rightarrow> 'w hula_exec \<Rightarrow> 'w hula_exec outcome" where
  "exec_emit h i x =
     (let n = hp_nodes (he_program h) ! i;
          val = (case hn_emit_value n of None \<Rightarrow> [] | Some s \<Rightarrow> s);
          finish = (\<lambda>val len.
            let x = set_result i HU_HULA_DONE (Some val) len None 0 x in
            Ret (case hn_emit_key n of Some k \<Rightarrow> hula_slot_set k val len x | None \<Rightarrow> x))
      in case emit_ref (hp_nodes (he_program h)) 0 val of
           None \<Rightarrow> finish val (length val)
         | Some j \<Rightarrow>
             (case Option.bind (result_for x j) hr_output of
                None \<Rightarrow> finish val (length val)
              | Some t \<Rightarrow>
                  if j = i then Undef UseAfterFree
                  else finish t (hr_output_len (the (result_for x j)))))"

subsection \<open>DELEGATE\<close>

text \<open>The nested plan a sub-agent is given: the children that are calls.\<close>

definition json_new_object :: "(string \<times> json) list \<Rightarrow> json" where
  "json_new_object kvs = JObj (foldl (\<lambda>ps (k, v). set_pair ps k v) [] kvs)"

definition embed_call :: "hula_node \<Rightarrow> json outcome" where
  "embed_call c =
     obind (on_error (JObj []) (hu_json_parse (call_args c))) (\<lambda>args.
     Ret (json_new_object (
       [(''op'', JStr ''call'')] @
       (case hn_id c of None \<Rightarrow> [] | Some s \<Rightarrow> [(''id'', JStr s)]) @
       (case hn_tool_name c of None \<Rightarrow> [] | Some s \<Rightarrow> [(''tool'', JStr s)]) @
       [(''args'', args)])))"

fun embed_calls :: "hula_node list \<Rightarrow> json list outcome" where
  "embed_calls [] = Ret []"
| "embed_calls (c # cs) =
     (if hn_op c \<noteq> HU_HULA_CALL then embed_calls cs
      else obind (embed_call c) (\<lambda>v. obind (embed_calls cs) (\<lambda>vs. Ret (v # vs))))"

definition delegate_embed_children_json :: "hula_node list \<Rightarrow> hula_node \<Rightarrow> string outcome" where
  "delegate_embed_children_json ns n =
     (if hn_children n = [] then Err HU_ERR_NOT_FOUND
      else obind (embed_calls (map (\<lambda>c. ns ! c) (hn_children n))) (\<lambda>cs.
        hu_json_stringify (json_new_object
          [(''name'', JStr ''delegate_embed''), (''version'', JNum dbl_one),
           (''root'', json_new_object
              [(''op'', JStr ''seq''), (''id'', JStr ''inner''), (''children'', JArr cs)])])))"

definition NEWLINES :: string where
  "NEWLINES = [CHR 0x0A, CHR 0x0A]"

text \<open>A nested plan that cannot be written for an error is left out.\<close>

definition delegate_config :: "hula_node list \<Rightarrow> hula_node \<Rightarrow> spawn_config \<Rightarrow> spawn_config outcome" where
  "delegate_config ns n cfg =
     (let prompt = (\<lambda>cfg. case sc_system_prompt cfg of None \<Rightarrow> [] | Some s \<Rightarrow> s);
          cfg = (case hn_delegate_context n of
                   Some c \<Rightarrow>
                     if c = [] then cfg
                     else cfg\<lparr>sc_system_prompt := Some (''Delegate context:'' @ [CHR 0x0A] @ c @ NEWLINES @ prompt cfg)\<rparr>
                 | None \<Rightarrow> cfg)
      in obind (on_error cfg (obind (delegate_embed_children_json ns n) (\<lambda>e.
                   Ret (cfg\<lparr>sc_system_prompt :=
                       Some (''Execute this HuLa JSON program (nested plan):'' @ [CHR 0x0A] @ e @ NEWLINES @ prompt cfg)\<rparr>)))) (\<lambda>cfg.
         Ret (case hn_delegate_model n of Some m \<Rightarrow> if m = [] then cfg else cfg\<lparr>sc_model := Some m\<rparr> | None \<Rightarrow> cfg)))"

text \<open>Up to \<open>m\<close> polls, 100 ms apart.\<close>

fun poll_loop :: "'w hula_host \<Rightarrow> 'w agent_pool \<Rightarrow> nat \<Rightarrow> hula_node \<Rightarrow> nat \<Rightarrow> nat \<Rightarrow> 'w hula_exec \<Rightarrow> 'w hula_exec" where
  "poll_loop h pool agent n i 0 x =
     (let x = fail_with i ''delegate timeout'' x in x\<lparr>hx_world := ap_cancel pool agent (hx_world x)\<rparr>)"
| "poll_loop h pool agent n i (Suc m) x =
     (let (st, w) = ap_status pool agent (hx_world x); x = x\<lparr>hx_world := w\<rparr> in
      if st = HU_AGENT_COMPLETED \<or> st = HU_AGENT_FAILED then
        let (res, w) = ap_result pool agent (hx_world x); x = x\<lparr>hx_world := w\<rparr> in
        (case res of
           Some r \<Rightarrow>
             if st = HU_AGENT_COMPLETED then
               let x = set_result i HU_HULA_DONE (Some r) (length r) None 0 x in
               (case hn_delegate_result_key n of Some k \<Rightarrow> hula_slot_set k r (length r) x | None \<Rightarrow> x)
             else set_result i HU_HULA_FAILED None 0 (Some r) (length r) x
         | None \<Rightarrow> fail_with i ''delegate failed'' x)
      else poll_loop h pool agent n i m (c_nanosleep h 100 x))"

definition delegate_spawn ::
    "'w hula_host \<Rightarrow> 'w agent_pool \<Rightarrow> spawn_config \<Rightarrow> hula_node \<Rightarrow> string \<Rightarrow> 'w \<Rightarrow> nat option \<times> 'w" where
  "delegate_spawn h pool cfg n goal w =
     (case (hn_delegate_agent_id n, he_delegate_registry h) of
        (Some a, Some spawn_named) \<Rightarrow>
          if a = [] then ap_spawn pool cfg goal (case hn_id n of Some s \<Rightarrow> s | None \<Rightarrow> ''hula_delegate'') w
          else spawn_named a goal w
      | _ \<Rightarrow> ap_spawn pool cfg goal (case hn_id n of Some s \<Rightarrow> s | None \<Rightarrow> ''hula_delegate'') w)"

definition exec_delegate :: "'w hula_host \<Rightarrow> nat \<Rightarrow> 'w hula_exec \<Rightarrow> 'w hula_exec outcome" where
  "exec_delegate h i x =
     (let ns = hp_nodes (he_program h); n = ns ! i in
      case (he_pool h, he_spawn_cfg h, hn_goal n) of
        (Some pool, Some cfg, Some goal) \<Rightarrow>
          if goal = [] then Ret (set_result i HU_HULA_DONE (Some goal) (length goal) None 0 x)
          else
            obind (delegate_config ns n cfg) (\<lambda>cfg.
            let (agent, w) = delegate_spawn h pool cfg n goal (hx_world x);
                x = x\<lparr>hx_world := w\<rparr>
            in Ret (case agent of
                 None \<Rightarrow> fail_with i ''delegate spawn failed'' x
               | Some a \<Rightarrow> poll_loop h pool a n i 300 x))
      | _ \<Rightarrow> Ret (set_result i HU_HULA_DONE (hn_goal n) (case hn_goal n of None \<Rightarrow> 0 | Some g \<Rightarrow> length g) None 0 x))"

section \<open>Running a node\<close>

definition hula_emit_stream_output :: "'w hula_host \<Rightarrow> nat \<Rightarrow> 'w hula_exec \<Rightarrow> 'w hula_exec" where
  "hula_emit_stream_output h i x =
     (case result_for x i of
        None \<Rightarrow> x
      | Some r \<Rightarrow>
          (case hr_output r of
             None \<Rightarrow> x
           | Some t \<Rightarrow>
               if hr_status r \<noteq> HU_HULA_DONE \<or> hr_output_len r = 0 then x
               else record_event h (EvNodeOutput (case hn_id (hp_nodes (he_program h) ! i) of None \<Rightarrow> [] | Some s \<Rightarrow> s)
                      t (hr_output_len r)) x))"

definition exec_dispatch ::
    "'w hula_host \<Rightarrow> (nat \<Rightarrow> 'w hula_exec \<Rightarrow> 'w hula_exec outcome) \<Rightarrow> nat \<Rightarrow> 'w hula_exec \<Rightarrow> 'w hula_exec outcome" where
  "exec_dispatch h nd i x =
     (case hn_op (hp_nodes (he_program h) ! i) of
        HU_HULA_CALL \<Rightarrow> exec_call h i x
      | HU_HULA_SEQ \<Rightarrow> exec_seq h nd i x
      | HU_HULA_PAR \<Rightarrow> exec_par h nd i x
      | HU_HULA_BRANCH \<Rightarrow> exec_branch h nd i x
      | HU_HULA_LOOP \<Rightarrow> exec_loop h nd i x
      | HU_HULA_DELEGATE \<Rightarrow> exec_delegate h i x
      | HU_HULA_EMIT \<Rightarrow> exec_emit h i x
      | HU_HULA_TRY \<Rightarrow> exec_try h nd i x
      | HU_HULA_VERIFY \<Rightarrow> exec_verify h i x)"

text \<open>\<^verbatim>\<open>1u + n->retry_count\<close> in 32 bits, at most 64.\<close>

definition max_attempts :: "hula_node \<Rightarrow> nat" where
  "max_attempts n = min ((1 + hn_retry_count n) mod 2 ^ 32) 64"

text \<open>The difference of two \<^verbatim>\<open>uint64_t\<close> clock readings.\<close>

definition elapsed_u64 :: "nat \<Rightarrow> nat \<Rightarrow> nat" where
  "elapsed_u64 now t0 = (if t0 \<le> now then now - t0 else 2 ^ 64 - (t0 - now))"

fun attempt_loop ::
    "'w hula_host \<Rightarrow> ('w hula_exec \<Rightarrow> 'w hula_exec outcome) \<Rightarrow> nat \<Rightarrow> nat \<Rightarrow> bool \<Rightarrow> nat \<Rightarrow> 'w hula_exec \<Rightarrow> 'w hula_exec outcome" where
  "attempt_loop h dispatch i t0 first 0 x = Ret x"
| "attempt_loop h dispatch i t0 first (Suc m) x =
     (let n = hp_nodes (he_program h) ! i;
          x = (if first then x
               else let x = hula_result_reset i x in
                 if hn_retry_backoff_ms n > 0 then c_nanosleep h (hn_retry_backoff_ms n) x else x)
      in obind (dispatch x) (\<lambda>x.
         let (now, x) = (if hn_timeout_ms n > 0 then hula_wall_ms h x else (t0, x)) in
         if hn_timeout_ms n > 0 \<and> elapsed_u64 now t0 > hn_timeout_ms n then Ret (fail_with i ''timeout exceeded'' x)
         else if failed_at x i = None then Ret x
         else attempt_loop h dispatch i t0 False m x))"

text \<open>The node is cancelled with the reason of the halt.\<close>

definition cancel_node :: "nat \<Rightarrow> 'w hula_exec \<Rightarrow> 'w hula_exec" where
  "cancel_node i x =
     (let rs = (case hx_halt_reason x of None \<Rightarrow> ''cancelled'' | Some s \<Rightarrow> s);
          rl = (if hx_halt_reason_len x > 0 then hx_halt_reason_len x else length rs)
      in set_result i HU_HULA_CANCELLED None 0 (Some rs) rl x)"

definition over_wall_budget :: "'w hula_host \<Rightarrow> 'w hula_exec \<Rightarrow> 'w hula_exec \<times> bool" where
  "over_wall_budget h x =
     (if hx_budget_enabled x \<and> hx_budget_max_wall_ms x > 0 \<and> hx_budget_run_start_ms x > 0 then
        let (now, x) = hula_wall_ms h x in
        (x, now \<ge> hx_budget_run_start_ms x \<and> now - hx_budget_run_start_ms x > hx_budget_max_wall_ms x)
      else (x, False))"

definition set_running :: "nat \<Rightarrow> 'w hula_exec \<Rightarrow> 'w hula_exec" where
  "set_running i x = x\<lparr>hx_results := (hx_results x)[i := (hx_results x ! i)\<lparr>hr_status := HU_HULA_RUNNING\<rparr>]\<rparr>"

text \<open>The event at the end of a node; the clock is read for it first.\<close>

definition node_end :: "'w hula_host \<Rightarrow> nat \<Rightarrow> nat \<Rightarrow> 'w hula_exec \<Rightarrow> 'w hula_exec" where
  "node_end h i t0 x =
     (let n = hp_nodes (he_program h) ! i; (t1, x) = hula_wall_ms h x in
      record_event h (EvNodeEnd (case hn_id n of None \<Rightarrow> [] | Some s \<Rightarrow> s) (hu_hula_op_name (hn_op n))
        (hu_hula_status_name (case result_for x i of None \<Rightarrow> HU_HULA_PENDING | Some r \<Rightarrow> hr_status r))
        (if t1 \<ge> t0 then t1 - t0 else 0)) x)"

text \<open>What is checked before a node starts: the message of the refusal.\<close>

definition node_refused :: "'w hula_host \<Rightarrow> nat \<Rightarrow> nat \<Rightarrow> 'w hula_exec \<Rightarrow> 'w hula_exec \<times> string option" where
  "node_refused h depth i x =
     (let n = hp_nodes (he_program h) ! i in
      if \<not> hu_policy_hula_capability_allowed (hx_policy x) (hn_required_capability n)
      then (x, Some ''hula capability denied'')
      else if hx_budget_enabled x \<and> hx_budget_max_depth x > 0 \<and> depth > hx_budget_max_depth x
      then (x, Some ''hula budget: max depth exceeded'')
      else let (x, over) = over_wall_budget h x in
        (x, if over then Some ''hula budget: wall time exceeded'' else None))"

text \<open>The node itself, after the checks.\<close>

definition node_start :: "'w hula_host \<Rightarrow> nat \<Rightarrow> 'w hula_exec \<Rightarrow> nat \<times> 'w hula_exec" where
  "node_start h i x =
     (let n = hp_nodes (he_program h) ! i; x = set_running i x; (t0, x) = hula_wall_ms h x in
      (t0, record_event h (EvNodeStart (case hn_id n of None \<Rightarrow> [] | Some s \<Rightarrow> s) (hu_hula_op_name (hn_op n))) x))"

definition node_finish :: "'w hula_host \<Rightarrow> nat \<Rightarrow> nat \<Rightarrow> 'w hula_exec \<Rightarrow> 'w hula_exec" where
  "node_finish h i t0 x =
     (let x = node_end h i t0 x;
          x = (if hn_op (hp_nodes (he_program h) ! i) \<in> {HU_HULA_CALL, HU_HULA_EMIT, HU_HULA_DELEGATE}
               then hula_emit_stream_output h i x else x)
      in trace_append h i x)"

definition node_body ::
    "'w hula_host \<Rightarrow> (nat \<Rightarrow> 'w hula_exec \<Rightarrow> 'w hula_exec outcome) \<Rightarrow> nat \<Rightarrow> nat \<Rightarrow> 'w hula_exec \<Rightarrow> 'w hula_exec outcome" where
  "node_body h nd depth i x =
     (if hx_halted x then Ret (if i < length (hx_results x) then trace_append h i (cancel_node i x) else x)
      else
        let (x, refused) = node_refused h depth i x in
        (case refused of
           Some msg \<Rightarrow> Ret (trace_append h i (fail_with i msg x))
         | None \<Rightarrow>
             let (t0, x) = node_start h i x in
             if hx_halted x then Ret (trace_append h i (node_end h i t0 (cancel_node i x)))
             else
               obind (attempt_loop h (exec_dispatch h nd i) i t0 True (max_attempts (hp_nodes (he_program h) ! i)) x) (\<lambda>x.
               Ret (node_finish h i t0 x))))"

text \<open>\<^verbatim>\<open>exec_node_depth\<close>; the first argument is the recursion budget.\<close>

fun exec_node_depth :: "nat \<Rightarrow> 'w hula_host \<Rightarrow> nat \<Rightarrow> nat \<Rightarrow> 'w hula_exec \<Rightarrow> 'w hula_exec outcome" where
  "exec_node_depth 0 h depth i x = NoFuel"
| "exec_node_depth (Suc k) h depth i x = node_body h (\<lambda>c y. exec_node_depth k h (depth + 1) c y) depth i x"

definition run_fuel :: "'w hula_host \<Rightarrow> nat" where
  "run_fuel h = length (hp_nodes (he_program h)) + 1"

definition hu_hula_exec_run :: "'w hula_host \<Rightarrow> 'w hula_exec \<Rightarrow> 'w hula_exec outcome" where
  "hu_hula_exec_run h x =
     (case hp_root (he_program h) of
        None \<Rightarrow> Err HU_ERR_INVALID_ARGUMENT
      | Some r \<Rightarrow>
          let (start, x) = (if hx_budget_enabled x then hula_wall_ms h x else (hx_budget_run_start_ms x, x));
              x = x\<lparr>hx_budget_run_start_ms := start, hx_budget_tool_calls_used := 0\<rparr>;
              (t0, x) = hula_wall_ms h x
          in obind (exec_node_depth (run_fuel h) h 0 r x) (\<lambda>x.
             Ret (case he_observer h of
                None \<Rightarrow> x
              | Some f \<Rightarrow>
                  let rr = Option.bind (hn_id (hp_nodes (he_program h) ! r)) (hu_hula_exec_result h x);
                      ok = (case rr of None \<Rightarrow> False | Some s \<Rightarrow> hr_status s = HU_HULA_DONE);
                      (t1, x) = hula_wall_ms h x
                  in record_event h (EvProgramEnd (case hp_name (he_program h) of None \<Rightarrow> [] | Some s \<Rightarrow> s) ok
                       (if t1 \<ge> t0 then t1 - t0 else 0) (length (hp_nodes (he_program h)))) x)))"

end
