(* ===== verification/HuHulaSteps.thy ===== *)
theory HuHulaSteps
  imports HuHulaExec
begin

text \<open>
  What an execution of \<^verbatim>\<open>src/agent/hula.c\<close> can do to its state, as a transition system, and the walk
  through the executor that shows that it does nothing else.

  \<open>exec_step\<close> has one rule for each kind of change.  The only rule that adds a tool call, \<open>call\<close>, asks
  for \<open>may_call\<close>: everything the code has checked by then; the world changes by operations of the host
  only (\<open>host_step\<close>).  The locale \<open>exec_logic\<close> walks through all
  the opcodes once, for any invariant of the state that its assumptions describe; it is interpreted with
  the trivial invariant, which gives the refinement and termination, and with the invariant that every
  stored length is the length of its string, which gives the absence of undefined behaviour.
\<close>

section \<open>The transition system\<close>

definition policy_permits :: "hu_security_policy option \<Rightarrow> hula_node \<Rightarrow> bool" where
  "policy_permits policy n \<longleftrightarrow> hu_policy_hula_capability_allowed policy (hn_required_capability n) \<and>
     (case policy of None \<Rightarrow> True
      | Some p \<Rightarrow> sp_autonomy p \<noteq> HU_AUTONOMY_LOCKED \<and>
          \<not> (hu_tool_risk_level (hn_tool_name n) = HU_RISK_HIGH \<and> sp_block_high_risk_commands p))"

text \<open>The check of the rate has just dropped what has left the window; fewer actions than allowed are left.\<close>

definition rate_open :: "hu_security_policy option \<Rightarrow> bool" where
  "rate_open policy \<longleftrightarrow>
     (case Option.bind policy sp_tracker of None \<Rightarrow> True | Some t \<Rightarrow> length (rt_timestamps t) < rt_max_actions t)"

definition may_call :: "'w hula_host \<Rightarrow> nat \<Rightarrow> 'w hula_exec \<Rightarrow> bool" where
  "may_call h i x \<longleftrightarrow>
     (let n = hp_nodes (he_program h) ! i in
      i < length (hp_nodes (he_program h)) \<and> hn_op n = HU_HULA_CALL \<and>
      policy_permits (hx_policy x) n \<and> rate_open (hx_policy x) \<and> \<not> budget_spent x \<and>
      (\<exists>t \<in> set (he_tools h). tl_name t = hn_tool_name n) \<and> hn_tool_name n \<noteq> None)"

definition count_call :: "nat \<Rightarrow> json \<Rightarrow> 'w hula_exec \<Rightarrow> 'w hula_exec" where
  "count_call i args x =
     x\<lparr>hx_budget_tool_calls_used := (if hx_budget_enabled x \<and> hx_budget_max_tool_calls x > 0
          then hx_budget_tool_calls_used x + 1 else hx_budget_tool_calls_used x),
       hx_calls := hx_calls x @ [(i, args)]\<rparr>"

text \<open>What the host does to the world when the executor calls it.\<close>

inductive host_step :: "'w hula_host \<Rightarrow> 'w \<Rightarrow> 'w \<Rightarrow> bool" for h where
  wall: "he_wall_ms h w = (t, w') \<Longrightarrow> host_step h w w'"
| time: "he_time h w = (n, w') \<Longrightarrow> host_step h w w'"
| sleep: "host_step h w (he_nanosleep h ms w)"
| observe: "he_observer h = Some f \<Longrightarrow> f ev w = (c, w') \<Longrightarrow> host_step h w w'"
| tool: "t \<in> set (he_tools h) \<Longrightarrow> tl_execute t args w = (err, tr, c, w') \<Longrightarrow> host_step h w w'"
| gate: "he_security_agent h = Some a \<Longrightarrow> sa_gate a name args w = (al, gr, w') \<Longrightarrow> host_step h w w'"
| post_hook: "he_security_agent h = Some a \<Longrightarrow> host_step h w (sa_post_hook a name args tr w)"
| spawn: "he_pool h = Some pool \<Longrightarrow> ap_spawn pool cfg goal label w = (ag, w') \<Longrightarrow> host_step h w w'"
| spawn_named: "he_delegate_registry h = Some f \<Longrightarrow> f name goal w = (ag, w') \<Longrightarrow> host_step h w w'"
| poll: "he_pool h = Some pool \<Longrightarrow> ap_status pool ag w = (st, w') \<Longrightarrow> host_step h w w'"
| collect: "he_pool h = Some pool \<Longrightarrow> ap_result pool ag w = (res, w') \<Longrightarrow> host_step h w w'"
| abandon: "he_pool h = Some pool \<Longrightarrow> host_step h w (ap_cancel pool ag w)"

abbreviation host_steps :: "'w hula_host \<Rightarrow> 'w \<Rightarrow> 'w \<Rightarrow> bool" where
  "host_steps h \<equiv> (host_step h)\<^sup>*\<^sup>*"

inductive exec_step :: "'w hula_host \<Rightarrow> 'w hula_exec \<Rightarrow> 'w hula_exec \<Rightarrow> bool" for h where
  results: "length rs = length (hx_results x) \<Longrightarrow> exec_step h x (x\<lparr>hx_results := rs\<rparr>)"
| world: "host_step h (hx_world x) w \<Longrightarrow> exec_step h x (x\<lparr>hx_world := w\<rparr>)"
| trace: "i < length (hp_nodes (he_program h)) \<Longrightarrow> exec_step h x (trace_append h i x)"
| slots: "exec_step h x (hula_slot_set k v n x)"
| halt: "exec_step h x (hu_hula_exec_cancel r n x)"
| registry: "exec_step h x (x\<lparr>hx_registry := reg\<rparr>)"
| prune: "hx_policy x = Some p \<Longrightarrow> sp_tracker p = Some t \<Longrightarrow> he_time h (hx_world x) = (now, w) \<Longrightarrow>
    exec_step h x (x\<lparr>hx_world := w, hx_policy := Some (p\<lparr>sp_tracker := Some (prune_timestamps now t)\<rparr>)\<rparr>)"
| call: "may_call h i x \<Longrightarrow> exec_step h x (count_call i args x)"

inductive_cases exec_stepE: "exec_step h x y"

abbreviation exec_steps :: "'w hula_host \<Rightarrow> 'w hula_exec \<Rightarrow> 'w hula_exec \<Rightarrow> bool" where
  "exec_steps h \<equiv> (exec_step h)\<^sup>*\<^sup>*"

text \<open>What no step changes.\<close>

definition policy_core :: "hu_security_policy option \<Rightarrow> hu_security_policy option" where
  "policy_core p = map_option (\<lambda>p. p\<lparr>sp_tracker := None\<rparr>) p"

lemma policy_permits_core:
  assumes "policy_core p = policy_core q"
  shows "policy_permits p n = policy_permits q n"
proof -
  have "policy_permits r n = policy_permits (policy_core r) n" for r
    by (cases r) (simp_all add: policy_core_def policy_permits_def hu_policy_hula_capability_allowed_def
        split: option.split)
  with assms show ?thesis by metis
qed

lemma hu_hula_exec_cancel_simps [simp]:
  "hx_results (hu_hula_exec_cancel r n x) = hx_results x" "hx_policy (hu_hula_exec_cancel r n x) = hx_policy x"
  "hx_trace_log (hu_hula_exec_cancel r n x) = hx_trace_log x" "hx_halted (hu_hula_exec_cancel r n x)"
  "hx_slots (hu_hula_exec_cancel r n x) = hx_slots x" "hx_budget_enabled (hu_hula_exec_cancel r n x) = hx_budget_enabled x"
  "hx_budget_max_depth (hu_hula_exec_cancel r n x) = hx_budget_max_depth x"
  "hx_budget_max_wall_ms (hu_hula_exec_cancel r n x) = hx_budget_max_wall_ms x"
  "hx_budget_max_tool_calls (hu_hula_exec_cancel r n x) = hx_budget_max_tool_calls x"
  "hx_budget_run_start_ms (hu_hula_exec_cancel r n x) = hx_budget_run_start_ms x"
  "hx_budget_tool_calls_used (hu_hula_exec_cancel r n x) = hx_budget_tool_calls_used x"
  "hx_registry (hu_hula_exec_cancel r n x) = hx_registry x" "hx_world (hu_hula_exec_cancel r n x) = hx_world x"
  "hx_calls (hu_hula_exec_cancel r n x) = hx_calls x"
  by (auto simp: hu_hula_exec_cancel_def Let_def split: option.split)

lemma hula_slot_set_simps [simp]:
  "hx_results (hula_slot_set k v n x) = hx_results x" "hx_policy (hula_slot_set k v n x) = hx_policy x"
  "hx_trace_log (hula_slot_set k v n x) = hx_trace_log x" "hx_halted (hula_slot_set k v n x) = hx_halted x"
  "hx_budget_enabled (hula_slot_set k v n x) = hx_budget_enabled x"
  "hx_budget_max_depth (hula_slot_set k v n x) = hx_budget_max_depth x"
  "hx_budget_max_wall_ms (hula_slot_set k v n x) = hx_budget_max_wall_ms x"
  "hx_budget_max_tool_calls (hula_slot_set k v n x) = hx_budget_max_tool_calls x"
  "hx_budget_run_start_ms (hula_slot_set k v n x) = hx_budget_run_start_ms x"
  "hx_budget_tool_calls_used (hula_slot_set k v n x) = hx_budget_tool_calls_used x"
  "hx_registry (hula_slot_set k v n x) = hx_registry x" "hx_calls (hula_slot_set k v n x) = hx_calls x"
  "hx_world (hula_slot_set k v n x) = hx_world x"
  by (auto simp: hula_slot_set_def split: option.split)

lemma trace_append_simps [simp]:
  "hx_results (trace_append h i x) = hx_results x" "hx_policy (trace_append h i x) = hx_policy x"
  "hx_slots (trace_append h i x) = hx_slots x" "hx_halted (trace_append h i x) = hx_halted x"
  "hx_budget_enabled (trace_append h i x) = hx_budget_enabled x"
  "hx_budget_max_depth (trace_append h i x) = hx_budget_max_depth x"
  "hx_budget_max_wall_ms (trace_append h i x) = hx_budget_max_wall_ms x"
  "hx_budget_max_tool_calls (trace_append h i x) = hx_budget_max_tool_calls x"
  "hx_budget_run_start_ms (trace_append h i x) = hx_budget_run_start_ms x"
  "hx_budget_tool_calls_used (trace_append h i x) = hx_budget_tool_calls_used x"
  "hx_registry (trace_append h i x) = hx_registry x" "hx_calls (trace_append h i x) = hx_calls x"
  "hx_world (trace_append h i x) = hx_world x"
  by (auto simp: trace_append_def split: option.split)

lemma exec_step_fixed:
  "exec_step h x y \<Longrightarrow> length (hx_results y) = length (hx_results x) \<and>
     policy_core (hx_policy y) = policy_core (hx_policy x) \<and>
     hx_budget_enabled y = hx_budget_enabled x \<and> hx_budget_max_depth y = hx_budget_max_depth x \<and>
     hx_budget_max_wall_ms y = hx_budget_max_wall_ms x \<and>
     hx_budget_max_tool_calls y = hx_budget_max_tool_calls x \<and>
     hx_budget_run_start_ms y = hx_budget_run_start_ms x"
  by (induction rule: exec_step.induct) (auto simp: policy_core_def count_call_def)

lemma exec_steps_fixed:
  "exec_steps h x y \<Longrightarrow> length (hx_results y) = length (hx_results x) \<and>
     policy_core (hx_policy y) = policy_core (hx_policy x) \<and>
     hx_budget_enabled y = hx_budget_enabled x \<and> hx_budget_max_depth y = hx_budget_max_depth x \<and>
     hx_budget_max_wall_ms y = hx_budget_max_wall_ms x \<and>
     hx_budget_max_tool_calls y = hx_budget_max_tool_calls x \<and>
     hx_budget_run_start_ms y = hx_budget_run_start_ms x"
  by (induction rule: rtranclp_induct) (auto dest: exec_step_fixed)

text \<open>The world goes on by what the host does.\<close>

lemma exec_step_world: "exec_step h x y \<Longrightarrow> host_steps h (hx_world x) (hx_world y)"
  by (induction rule: exec_step.induct) (auto simp: count_call_def intro: host_step.time)

lemma exec_steps_world: "exec_steps h x y \<Longrightarrow> host_steps h (hx_world x) (hx_world y)"
  by (induction rule: rtranclp_induct) (auto intro: rtranclp_trans exec_step_world)

text \<open>What the clock shows between two worlds, and the tracker of the policy as pruning in between leaves it.\<close>

definition readings :: "'w hula_host \<Rightarrow> 'w \<Rightarrow> 'w \<Rightarrow> int set" where
  "readings h v v' = {fst (he_time h w) | w. host_steps h v w \<and> host_steps h w v'}"

lemma readings_mono: "host_steps h v' v'' \<Longrightarrow> readings h v v' \<subseteq> readings h v v''"
  by (auto simp: readings_def intro: rtranclp_trans)

definition pruned_from :: "int set \<Rightarrow> hu_security_policy option \<Rightarrow> hu_security_policy option \<Rightarrow> bool" where
  "pruned_from R p q \<longleftrightarrow>
     (case Option.bind p sp_tracker of
        None \<Rightarrow> Option.bind q sp_tracker = None
      | Some t \<Rightarrow> \<exists>N. finite N \<and> N \<subseteq> R \<and>
          Option.bind q sp_tracker =
            Some (t\<lparr>rt_timestamps := filter (\<lambda>s. \<forall>n \<in> N. n - rt_window_secs t < s) (rt_timestamps t)\<rparr>))"

lemma pruned_from_refl: "pruned_from R p p"
  by (auto simp: pruned_from_def intro!: exI [of _ "{}"] split: option.split)

lemma pruned_from_mono: "pruned_from R p q \<Longrightarrow> R \<subseteq> S \<Longrightarrow> pruned_from S p q"
  unfolding pruned_from_def by (auto split: option.splits)

lemma pruned_from_prune:
  assumes "pruned_from R p (Some q)" and "sp_tracker q = Some t" and "now \<in> R"
  shows "pruned_from R p (Some (q\<lparr>sp_tracker := Some (prune_timestamps now t)\<rparr>))"
proof (cases "Option.bind p sp_tracker")
  case None
  with assms show ?thesis by (simp add: pruned_from_def)
next
  case (Some u)
  then obtain N where N: "finite N" "N \<subseteq> R"
    "t = u\<lparr>rt_timestamps := filter (\<lambda>s. \<forall>n \<in> N. n - rt_window_secs u < s) (rt_timestamps u)\<rparr>"
    using assms by (auto simp: pruned_from_def)
  have "prune_timestamps now t = u\<lparr>rt_timestamps :=
      filter (\<lambda>s. \<forall>n \<in> insert now N. n - rt_window_secs u < s) (rt_timestamps u)\<rparr>"
    by (simp add: prune_timestamps_def N(3) conj_commute)
  with Some N(1,2) assms(3) show ?thesis
    by (simp add: pruned_from_def) (intro exI [of _ "insert now N"], simp)
qed

lemma exec_step_pruned:
  assumes "exec_step h y z" and "host_steps h v (hx_world y)" and "pruned_from (readings h v (hx_world y)) p (hx_policy y)"
  shows "pruned_from (readings h v (hx_world z)) p (hx_policy z)"
proof -
  have m: "pruned_from (readings h v (hx_world z)) p (hx_policy y)"
    using assms(3) by (rule pruned_from_mono) (rule readings_mono [OF exec_step_world [OF assms(1)]])
  show ?thesis
    using assms(1,2) m
  proof cases
    case (prune q t now w)
    have "now \<in> readings h v w"
      using assms(2) prune host_step.time [of h "hx_world y" now w] by (force simp: readings_def)
    with prune m pruned_from_prune [of _ p q t now] show ?thesis by simp
  qed (simp_all add: count_call_def)
qed

lemma exec_steps_pruned:
  "exec_steps h x y \<Longrightarrow> pruned_from (readings h (hx_world x) (hx_world y)) (hx_policy x) (hx_policy y)"
  by (induction rule: rtranclp_induct) (auto intro: pruned_from_refl exec_step_pruned exec_steps_world)

text \<open>A rate that was open after pruning was not limited at the latest of the readings.\<close>

lemma pruned_open:
  assumes "pruned_from R p q" and "rate_open q" and "now \<in> R"
  shows "\<exists>now \<in> R. \<not> snd (hu_policy_is_rate_limited now p)"
proof (cases "Option.bind p sp_tracker")
  case None
  with assms(3) show ?thesis by (cases p) (auto simp: hu_policy_is_rate_limited_def)
next
  case (Some t)
  then obtain p' where p': "p = Some p'" "sp_tracker p' = Some t" by (cases p) auto
  obtain N where N: "finite N" "N \<subseteq> R"
    "length (filter (\<lambda>s. \<forall>n \<in> N. n - rt_window_secs t < s) (rt_timestamps t)) < rt_max_actions t"
    using assms Some by (auto simp: pruned_from_def rate_open_def)
  have lim: "snd (hu_policy_is_rate_limited now p) \<longleftrightarrow>
      rt_max_actions t \<le> length (filter (\<lambda>s. now - rt_window_secs t < s) (rt_timestamps t))" for now
    by (simp add: p' hu_policy_is_rate_limited_def hu_rate_tracker_is_limited_def prune_timestamps_def Let_def)
  show ?thesis
  proof (cases "N = {}")
    case True
    then have "length (filter (\<lambda>s. now - rt_window_secs t < s) (rt_timestamps t)) < rt_max_actions t" for now
      using N(3) le_less_trans [OF length_filter_le] by simp
    with assms(3) show ?thesis by (auto simp: lim not_le)
  next
    case False
    have "(\<forall>n \<in> N. n - rt_window_secs t < s) \<longleftrightarrow> Max N - rt_window_secs t < s" for s
      using Max_in [OF N(1) False] Max_ge [OF N(1)] by (metis diff_right_mono le_less_trans)
    then have "\<not> snd (hu_policy_is_rate_limited (Max N) p)" using N(3) by (simp add: lim)
    with Max_in [OF N(1) False] N(2) show ?thesis by blast
  qed
qed

definition call_permitted :: "'w hula_host \<Rightarrow> int set \<Rightarrow> hu_security_policy option \<Rightarrow> nat \<Rightarrow> bool" where
  "call_permitted h R policy i \<longleftrightarrow>
     (let n = hp_nodes (he_program h) ! i in
      i < length (hp_nodes (he_program h)) \<and> hn_op n = HU_HULA_CALL \<and> policy_permits policy n \<and>
      (\<exists>now \<in> R. \<not> snd (hu_policy_is_rate_limited now policy)) \<and>
      (\<exists>t \<in> set (he_tools h). tl_name t = hn_tool_name n) \<and> hn_tool_name n \<noteq> None)"

lemma call_permitted_mono: "call_permitted h R policy i \<Longrightarrow> R \<subseteq> S \<Longrightarrow> call_permitted h S policy i"
  unfolding call_permitted_def Let_def by blast

text \<open>The calls that a sequence of steps adds: each was permitted, and the budget was not exceeded.\<close>

lemma exec_steps_calls:
  assumes "exec_steps h x y"
  shows "\<exists>new. hx_calls y = hx_calls x @ new \<and>
    (\<forall>(i, args) \<in> set new. call_permitted h (readings h (hx_world x) (hx_world y)) (hx_policy x) i) \<and>
    (hx_budget_enabled x \<longrightarrow> hx_budget_max_tool_calls x > 0 \<longrightarrow>
       hx_budget_tool_calls_used y = hx_budget_tool_calls_used x + length new \<and>
       (hx_budget_tool_calls_used x \<le> hx_budget_max_tool_calls x \<longrightarrow>
          hx_budget_tool_calls_used y \<le> hx_budget_max_tool_calls x))"
  using assms
proof (induction rule: rtranclp_induct)
  case base
  show ?case by simp
next
  case (step y z)
  note f = exec_steps_fixed [OF step.hyps(1)]
  let ?R = "readings h (hx_world x) (hx_world z)"
  have sub: "readings h (hx_world x) (hx_world y) \<subseteq> ?R" by (rule readings_mono [OF exec_step_world [OF step.hyps(2)]])
  obtain new where nw: "hx_calls y = hx_calls x @ new"
    "\<forall>(i, args) \<in> set new. call_permitted h (readings h (hx_world x) (hx_world y)) (hx_policy x) i"
    "hx_budget_enabled x \<longrightarrow> hx_budget_max_tool_calls x > 0 \<longrightarrow>
       hx_budget_tool_calls_used y = hx_budget_tool_calls_used x + length new \<and>
       (hx_budget_tool_calls_used x \<le> hx_budget_max_tool_calls x \<longrightarrow>
          hx_budget_tool_calls_used y \<le> hx_budget_max_tool_calls x)"
    using step.IH by (elim exE conjE) (rule that)
  have new2: "\<forall>(i, args) \<in> set new. call_permitted h ?R (hx_policy x) i"
    using nw(2) call_permitted_mono [OF _ sub] by fastforce
  note new = nw(1) new2 nw(3)
  show ?case
  proof (cases "\<exists>i args. z = count_call i args y \<and> may_call h i y")
    case True
    then obtain i args where z: "z = count_call i args y" and m: "may_call h i y" by blast
    have "policy_permits (hx_policy y) n = policy_permits (hx_policy x) n" for n
      using f policy_permits_core by blast
    moreover have "fst (he_time h (hx_world x)) \<in> readings h (hx_world x) (hx_world y)"
      using exec_steps_world [OF step.hyps(1)] by (auto simp: readings_def)
    then have "\<exists>now \<in> ?R. \<not> snd (hu_policy_is_rate_limited now (hx_policy x))"
      using pruned_open [OF exec_steps_pruned [OF step.hyps(1)]] m sub unfolding may_call_def Let_def by blast
    ultimately have "call_permitted h ?R (hx_policy x) i"
      using m by (simp add: may_call_def call_permitted_def Let_def)
    moreover have "\<not> budget_spent y" using m by (simp add: may_call_def Let_def)
    ultimately show ?thesis
      using new f by (intro exI [of _ "new @ [(i, args)]"]) (auto simp: z count_call_def budget_spent_def)
  next
    case False
    with step.hyps(2) have e: "hx_calls z = hx_calls y" "hx_budget_tool_calls_used z = hx_budget_tool_calls_used y"
      by (auto elim!: exec_stepE)
    show ?thesis unfolding e using new by (intro exI [of _ new] conjI)
  qed
qed

text \<open>The run: the budget clock is read and the counter reset before the root is run.\<close>

definition run_start :: "'w hula_host \<Rightarrow> 'w hula_exec \<Rightarrow> 'w hula_exec" where
  "run_start h x = (let (start, x) = (if hx_budget_enabled x then hula_wall_ms h x else (hx_budget_run_start_ms x, x));
              x = x\<lparr>hx_budget_run_start_ms := start, hx_budget_tool_calls_used := 0\<rparr>
          in snd (hula_wall_ms h x))"

section \<open>Facts about single functions\<close>

lemma json_parse_cases:
  assumes "length s < 2 ^ 61"
  shows "hu_json_parse s \<noteq> NoFuel" and "hu_json_parse s \<noteq> Undef u"
proof -
  have "shorter (length s) (parse_value (2 * length s + 1) 0 s)"
    using assms by (intro parse_value_total) simp_all
  then show "hu_json_parse s \<noteq> NoFuel" "hu_json_parse s \<noteq> Undef u"
    by (auto simp: shorter_def parse_fails_def hu_json_parse_def)
qed

lemma find_ref_no_fuel: "find_ref h x s \<noteq> NoFuel"
  by (auto simp: find_ref_def Let_def split: option.split)

lemma expand_loop_no_fuel: "expand_loop h x acc s \<noteq> NoFuel"
proof (induction h x acc s rule: expand_loop.induct)
  case (2 h x acc c s)
  show ?case
  proof (cases "c = CHR ''$'' \<and> s \<noteq> [] \<and> hd s \<noteq> CHR ''$'' \<and> hula_id_char_start (hd s)")
    case True
    then show ?thesis using 2(2) find_ref_no_fuel [of h x s]
      by (auto simp: outcome_simps copy_bytes_def split: prod.splits if_splits)
  next
    case False
    then show ?thesis using 2(1,3) by auto
  qed
qed simp

lemma substitute_no_fuel:
  "hula_substitute_json_strings h x v \<noteq> NoFuel"
  "substitute_items h x vs \<noteq> NoFuel"
  "substitute_pairs h x ps \<noteq> NoFuel"
proof (induction h x v and h x vs and h x ps
    rule: hula_substitute_json_strings_substitute_items_substitute_pairs.induct)
  case (1 h x s)
  then show ?case by (simp add: hula_expand_dollar_refs_def outcome_simps expand_loop_no_fuel)
qed (auto simp: outcome_simps)

lemma find_tool_cases:
  "find_tool ts name = Ret (Some t) \<Longrightarrow> t \<in> set ts \<and> tl_name t = name \<and> name \<noteq> None"
  "find_tool ts name = Undef u \<Longrightarrow> u = NullDeref \<and> name = None"
  "find_tool ts name \<noteq> NoFuel" "find_tool ts name \<noteq> Err e"
  by (induction ts name rule: find_tool.induct) (auto split: option.splits if_splits)

lemma call_policy_open: "call_policy h n x = (y, None) \<Longrightarrow> rate_open (hx_policy y)"
  by (auto simp: call_policy_def rate_open_def hu_policy_is_rate_limited_def hu_rate_tracker_is_limited_def Let_def not_le
      split: option.splits if_splits prod.splits)

lemma call_policy_fixed:
  "call_policy h n x = (y, b) \<Longrightarrow> budget_spent y = budget_spent x"
  by (auto simp: call_policy_def hu_policy_is_rate_limited_def c_time_def budget_spent_def
      split: option.splits if_splits prod.splits)

section \<open>The walk through the executor\<close>

text \<open>
  \<open>inv\<close> is an invariant of the state, \<open>good s n\<close> says of a text and the length kept beside it that
  they may be stored, \<open>bad u\<close> that the walk may end in the undefined behaviour \<open>u\<close>.  The laws are what
  the invariant has to survive: one for each primitive change of the state.
\<close>

locale exec_logic =
  fixes h :: "'w hula_host"
    and inv :: "'w hula_exec \<Rightarrow> bool"
    and good :: "string option \<Rightarrow> nat \<Rightarrow> bool"
    and bad :: "ub_kind \<Rightarrow> bool"
  assumes wf: "inv x \<Longrightarrow> wf_from 0 (hp_nodes (he_program h))"
    and good_None: "good None n"
    and good_lit: "no_nul s \<Longrightarrow> good (Some s) (length s)"
    and good_cut: "good (Some ''verify: missing node_id'') 22"
    and inv_result: "inv x \<Longrightarrow> good out n \<Longrightarrow> good er m \<Longrightarrow> inv (set_result i st out n er m x)"
    and inv_reset: "inv x \<Longrightarrow> inv (hula_result_reset i x)"
    and inv_running: "inv x \<Longrightarrow> inv (set_running i x)"
    and inv_world: "inv x \<Longrightarrow> inv (x\<lparr>hx_world := w\<rparr>)"
    and inv_trace: "inv x \<Longrightarrow> inv (x\<lparr>hx_trace_log := tlog\<rparr>)"
    and inv_slot: "inv x \<Longrightarrow> good (Some v) n \<Longrightarrow> inv (hula_slot_set k v n x)"
    and inv_cancel: "inv x \<Longrightarrow> good rsn n \<Longrightarrow> inv (hu_hula_exec_cancel rsn n x)"
    and inv_prune: "inv x \<Longrightarrow> inv (x\<lparr>hx_policy := p\<rparr>)"
    and inv_call: "inv x \<Longrightarrow> inv (count_call i jargs x)"
    and inv_check: "inv x \<Longrightarrow> hx_registry x = Some reg \<Longrightarrow> hu_idempotency_check now reg na ar = (reg', hit) \<Longrightarrow>
      inv (x\<lparr>hx_registry := Some reg'\<rparr>) \<and> (\<forall>e. hit = Some e \<longrightarrow> good (Some (ie_result_json e)) (length (ie_result_json e)))"
    and inv_record: "inv x \<Longrightarrow> hx_registry x = Some reg \<Longrightarrow> no_nul s \<Longrightarrow>
      inv (x\<lparr>hx_registry := Some (hu_idempotency_record now reg na ar s ise)\<rparr>)"
    and good_output: "inv x \<Longrightarrow> result_for x i = Some r \<Longrightarrow> good (hr_output r) (hr_output_len r)"
    and good_error: "inv x \<Longrightarrow> result_for x i = Some r \<Longrightarrow> good (hr_error r) (hr_error_len r)"
    and good_halt: "inv x \<Longrightarrow> good (Some (case hx_halt_reason x of None \<Rightarrow> ''cancelled'' | Some s \<Rightarrow> s))
      (if hx_halt_reason_len x > 0 then hx_halt_reason_len x
       else length (case hx_halt_reason x of None \<Rightarrow> ''cancelled'' | Some s \<Rightarrow> s))"
    and refs_ok: "inv x \<Longrightarrow> hula_substitute_json_strings h x jv = Undef u \<Longrightarrow> bad u"
    and tool_ok: "t \<in> set (he_tools h) \<Longrightarrow> tl_execute t jargs w = (err, tr, c, w') \<Longrightarrow>
      good (tr_output tr) (tr_output_len tr) \<and> good (tr_error_msg tr) (tr_error_msg_len tr) \<and>
      (\<forall>s. c = Some (Some s) \<longrightarrow> good (Some s) (length s))"
    and observer_ok: "he_observer h = Some f \<Longrightarrow> f ev w = (Some (Some s), w') \<Longrightarrow> good (Some s) (length s)"
    and gate_ok: "he_security_agent h = Some a \<Longrightarrow> sa_gate a name' args' w = (al, gr, w') \<Longrightarrow>
      good (tr_error_msg gr) (tr_error_msg_len gr)"
    and pool_ok: "he_pool h = Some pool \<Longrightarrow> ap_result pool ag w = (Some s, w') \<Longrightarrow> good (Some s) (length s)"
    and goal_ok: "i < length (hp_nodes (he_program h)) \<Longrightarrow> hn_goal (hp_nodes (he_program h) ! i) = Some s \<Longrightarrow>
      good (Some s) (length s)"
    and emit_ok: "i < length (hp_nodes (he_program h)) \<Longrightarrow> hn_emit_value (hp_nodes (he_program h) ! i) = Some s \<Longrightarrow>
      good (Some s) (length s)"
    and name_ok: "i < length (hp_nodes (he_program h)) \<Longrightarrow> hn_op (hp_nodes (he_program h) ! i) = HU_HULA_CALL \<Longrightarrow>
      hn_tool_name (hp_nodes (he_program h) ! i) = None \<Longrightarrow> bad NullDeref"
    and args_ok: "inv x \<Longrightarrow> i < length (hp_nodes (he_program h)) \<Longrightarrow> length (call_args (hp_nodes (he_program h) ! i)) < 2 ^ 61"
    and embed_ok: "inv x \<Longrightarrow> i < length (hp_nodes (he_program h)) \<Longrightarrow> hn_op (hp_nodes (he_program h) ! i) = HU_HULA_DELEGATE \<Longrightarrow>
      delegate_embed_children_json (hp_nodes (he_program h)) (hp_nodes (he_program h) ! i) = Undef u \<Longrightarrow> bad u"
    and self_ok: "i < length (hp_nodes (he_program h)) \<Longrightarrow> hn_op (hp_nodes (he_program h) ! i) = HU_HULA_EMIT \<Longrightarrow>
      hn_emit_value (hp_nodes (he_program h) ! i) = Some s \<Longrightarrow>
      emit_ref (hp_nodes (he_program h)) 0 s = Some i \<Longrightarrow> bad UseAfterFree"
begin

text \<open>A change of the state from \<open>x\<close> to \<open>y\<close>, and an outcome of a function started in \<open>x\<close>.\<close>

definition goes :: "'w hula_exec \<Rightarrow> 'w hula_exec \<Rightarrow> bool" where
  "goes x y \<longleftrightarrow> inv x \<longrightarrow> inv y \<and> exec_steps h x y"

definition ends :: "'w hula_exec \<Rightarrow> 'w hula_exec outcome \<Rightarrow> bool" where
  "ends x m \<longleftrightarrow> (case m of Ret y \<Rightarrow> goes x y | Undef u \<Rightarrow> inv x \<longrightarrow> bad u | _ \<Rightarrow> \<not> inv x)"

lemma goes_refl [simp]: "goes x x"
  by (simp add: goes_def)

lemma goes_trans [trans]: "goes x y \<Longrightarrow> goes y z \<Longrightarrow> goes x z"
  unfolding goes_def by (meson rtranclp_trans)

lemma goes_step: "exec_step h x y \<Longrightarrow> (inv x \<Longrightarrow> inv y) \<Longrightarrow> goes x y"
  by (auto simp: goes_def)

lemma goes_inv: "goes x y \<Longrightarrow> inv x \<Longrightarrow> inv y"
  by (simp add: goes_def)

lemma goes_policy: "goes x y \<Longrightarrow> inv x \<Longrightarrow> policy_permits (hx_policy y) n = policy_permits (hx_policy x) n"
  unfolding goes_def using exec_steps_fixed policy_permits_core by blast

lemma ends_Ret [simp]: "ends x (Ret y) = goes x y"
  by (simp add: ends_def)

lemma ends_obind:
  assumes "ends x m" and "\<And>y. m = Ret y \<Longrightarrow> goes x y \<Longrightarrow> ends y (f y)"
  shows "ends x (obind m f)"
  using assms unfolding ends_def
  by (cases m) (auto split: outcome.splits dest: goes_inv intro: goes_trans)

lemma ends_from: "goes x y \<Longrightarrow> ends y m \<Longrightarrow> ends x m"
  unfolding ends_def by (auto split: outcome.splits dest: goes_inv intro: goes_trans)

subsection \<open>Primitive changes\<close>

lemma goes_set_result: "(inv x \<Longrightarrow> good out n \<and> good er m) \<Longrightarrow> goes x (set_result i st out n er m x)"
  by (rule goes_step) (auto simp: set_result_def intro: exec_step.results inv_result [unfolded set_result_def])

lemma goes_done: "goes x (set_result i st None n None m x)"
  by (rule goes_set_result) (simp add: good_None)

lemma goes_fail: "no_nul msg \<Longrightarrow> goes x (fail_with i msg x)"
  unfolding fail_with_def by (rule goes_set_result) (simp add: good_None good_lit)

lemma goes_error: "(inv x \<Longrightarrow> good er m) \<Longrightarrow> goes x (set_result i st None n er m x)"
  by (rule goes_set_result) (simp add: good_None)

lemma goes_output: "(inv x \<Longrightarrow> good out n) \<Longrightarrow> goes x (set_result i st out n None m x)"
  by (rule goes_set_result) (simp add: good_None)

lemma goes_copy: "result_for x c = Some r \<Longrightarrow> goes x (copy_result i r x)"
  unfolding copy_result_def by (rule goes_set_result) (auto intro: good_output good_error)

lemma goes_reset: "goes x (hula_result_reset i x)"
  by (rule goes_step) (auto simp: hula_result_reset_def intro: exec_step.results inv_reset [unfolded hula_result_reset_def])

lemma goes_running: "goes x (set_running i x)"
  by (rule goes_step) (auto simp: set_running_def intro: exec_step.results inv_running [unfolded set_running_def])

lemma goes_world: "host_step h (hx_world x) w \<Longrightarrow> goes x (x\<lparr>hx_world := w\<rparr>)"
  by (blast intro: goes_step exec_step.world inv_world)

lemma goes_cancel: "(inv x \<Longrightarrow> good r n) \<Longrightarrow> goes x (hu_hula_exec_cancel r n x)"
  by (rule goes_step [OF exec_step.halt]) (rule inv_cancel)

lemma goes_trace: "i < length (hp_nodes (he_program h)) \<Longrightarrow> goes x (trace_append h i x)"
  by (rule goes_step [OF exec_step.trace]) (auto simp: trace_append_def intro: inv_trace split: option.split)

lemma goes_slot: "(inv x \<Longrightarrow> good (Some v) n) \<Longrightarrow> goes x (hula_slot_set k v n x)"
  by (rule goes_step [OF exec_step.slots]) (rule inv_slot)

lemma goes_wall: "hula_wall_ms h x = (t, y) \<Longrightarrow> goes x y"
  by (auto simp: hula_wall_ms_def split: prod.splits intro: goes_world host_step.wall)

lemma goes_time: "c_time h x = (t, y) \<Longrightarrow> goes x y"
  by (auto simp: c_time_def split: prod.splits intro: goes_world host_step.time)

lemma goes_absorb: "(\<And>s. c = Some (Some s) \<Longrightarrow> good (Some s) (length s)) \<Longrightarrow> goes x (absorb_cancel c x)"
  unfolding absorb_cancel_def by (auto split: option.split intro!: goes_cancel good_None)

lemma goes_event: "goes x (record_event h ev x)"
proof (cases "he_observer h")
  case None
  then show ?thesis by (simp add: record_event_def)
next
  case (Some f)
  obtain c w where c: "f ev (hx_world x) = (c, w)" by (cases "f ev (hx_world x)")
  have "goes (x\<lparr>hx_world := w\<rparr>) (absorb_cancel c (x\<lparr>hx_world := w\<rparr>))"
    by (rule goes_absorb) (use observer_ok [OF Some] c in auto)
  with goes_world [OF host_step.observe [OF Some c]] show ?thesis by (auto simp: record_event_def Some c intro: goes_trans)
qed

subsection \<open>CALL\<close>

lemma call_policy_goes:
  assumes "call_policy h n x = (y, b)"
  shows "goes x y" and "inv x \<Longrightarrow> hu_policy_hula_capability_allowed (hx_policy x) (hn_required_capability n) \<Longrightarrow>
    b = None \<Longrightarrow> policy_permits (hx_policy y) n"
proof -
  show 1: "goes x y"
  proof (cases "Option.bind (hx_policy x) sp_tracker")
    case None
    with assms show ?thesis by (cases "hx_policy x") (auto simp: call_policy_def split: if_splits)
  next
    case (Some u)
    then obtain p where p: "hx_policy x = Some p" "sp_tracker p = Some u" by (cases "hx_policy x") auto
    obtain now w where t: "he_time h (hx_world x) = (now, w)" by (cases "he_time h (hx_world x)")
    have "goes x (x\<lparr>hx_world := w, hx_policy := Some (p\<lparr>sp_tracker := Some (prune_timestamps now u)\<rparr>)\<rparr>)"
      by (rule goes_step [OF exec_step.prune [OF p t]]) (use inv_prune [OF inv_world] in auto)
    with assms p t show ?thesis
      by (auto simp: call_policy_def hu_policy_is_rate_limited_def hu_rate_tracker_is_limited_def Let_def c_time_def
          split: if_splits)
  qed
  show "policy_permits (hx_policy y) n"
    if "inv x" "hu_policy_hula_capability_allowed (hx_policy x) (hn_required_capability n)" "b = None"
  proof -
    have "policy_permits (hx_policy x) n"
      using assms that
      by (auto simp: call_policy_def policy_permits_def split: option.splits if_splits)
    with goes_policy [OF 1 that(1)] show ?thesis by simp
  qed
qed

end

lemma budget_spent_updates [simp]:
  "budget_spent (x\<lparr>hx_world := w\<rparr>) = budget_spent x" "budget_spent (x\<lparr>hx_registry := r\<rparr>) = budget_spent x"
  "budget_spent (set_result i st out n er m x) = budget_spent x"
  "budget_spent (hu_hula_exec_cancel c k x) = budget_spent x"
  by (simp_all add: budget_spent_def set_result_def)

lemma budget_spent_event [simp]: "budget_spent (record_event h ev x) = budget_spent x"
  by (simp add: record_event_def absorb_cancel_def split: option.split prod.split)

lemma record_event_policy [simp]: "hx_policy (record_event h ev x) = hx_policy x"
  by (simp add: record_event_def absorb_cancel_def split: option.split prod.split)

lemma call_replay_policy: "call_replay h name n x = (y, hit) \<Longrightarrow> hx_policy y = hx_policy x"
  by (auto simp: call_replay_def c_time_def Let_def split: option.splits prod.splits)

lemma call_gate_policy: "call_gate h i name args x = (y, al) \<Longrightarrow> hx_policy y = hx_policy x"
  by (auto simp: call_gate_def fail_with_def set_result_def Let_def split: option.splits prod.splits if_splits)

lemma call_replay_budget: "call_replay h name n x = (y, hit) \<Longrightarrow> budget_spent y = budget_spent x"
  by (auto simp: call_replay_def c_time_def Let_def split: option.splits prod.splits)

lemma call_gate_budget: "call_gate h i name args x = (y, al) \<Longrightarrow> budget_spent y = budget_spent x"
  by (auto simp: call_gate_def fail_with_def Let_def split: option.splits prod.splits if_splits)

context exec_logic
begin

lemma goes_registry_check:
  assumes "hx_registry x = Some reg" and "hu_idempotency_check now reg a b = (reg', hit)"
  shows "goes x (x\<lparr>hx_registry := Some reg'\<rparr>)"
    and "inv x \<Longrightarrow> hit = Some e \<Longrightarrow> good (Some (ie_result_json e)) (length (ie_result_json e))"
  using inv_check [OF _ assms] by (auto intro!: goes_step [OF exec_step.registry])

lemma goes_set_tool_result:
  "(inv x \<Longrightarrow> good (tr_output tr) (tr_output_len tr) \<and> good (tr_error_msg tr) (tr_error_msg_len tr)) \<Longrightarrow>
     goes x (set_tool_result i tr x)"
  by (auto simp: set_tool_result_def intro: goes_output goes_error)

lemma cached_result_good:
  "good (Some (ie_result_json e)) (length (ie_result_json e)) \<Longrightarrow>
     good (tr_output (cached_result e)) (tr_output_len (cached_result e)) \<and>
     good (tr_error_msg (cached_result e)) (tr_error_msg_len (cached_result e))"
  using good_lit [of "[]"] by (simp add: cached_result_def good_None)

lemma call_replay_goes:
  assumes "call_replay h name n x = (y, hit)"
  shows "goes x y" and "inv x \<Longrightarrow> hit = Some tr \<Longrightarrow>
    good (tr_output tr) (tr_output_len tr) \<and> good (tr_error_msg tr) (tr_error_msg_len tr)"
proof -
  have "goes x y \<and> (inv x \<longrightarrow> (\<forall>tr. hit = Some tr \<longrightarrow>
      good (tr_output tr) (tr_output_len tr) \<and> good (tr_error_msg tr) (tr_error_msg_len tr)))"
  proof (cases "hx_registry x")
    case None
    with assms show ?thesis by (simp add: call_replay_def)
  next
    case (Some reg)
    obtain now x1 where t: "c_time h x = (now, x1)" by (cases "c_time h x")
    obtain reg' e where c: "hu_idempotency_check now reg name (call_args n) = (reg', e)"
      by (cases "hu_idempotency_check now reg name (call_args n)")
    from t Some have r1: "hx_registry x1 = Some reg" by (auto simp: c_time_def split: prod.splits)
    have g: "goes x (x1\<lparr>hx_registry := Some reg'\<rparr>)"
      using goes_time [OF t] goes_registry_check(1) [OF r1 c] by (rule goes_trans)
    show ?thesis
    proof (cases e)
      case None
      with assms Some t c g show ?thesis by (simp add: call_replay_def)
    next
      fix e' assume e: "e = Some e'"
      have y: "y = record_event h (EvToolCall (Some name) (tr_success (cached_result e'))) (x1\<lparr>hx_registry := Some reg'\<rparr>)"
        and hit: "hit = Some (cached_result e')"
        using assms Some t c e by (auto simp: call_replay_def Let_def)
      have "goes x y" unfolding y using g goes_event by (rule goes_trans)
      moreover have "good (Some (ie_result_json e')) (length (ie_result_json e'))" if "inv x"
        using goes_registry_check(2) [OF r1 c] goes_inv [OF goes_time [OF t] that] e by blast
      ultimately show ?thesis using cached_result_good hit by blast
    qed
  qed
  then show "goes x y" and "inv x \<Longrightarrow> hit = Some tr \<Longrightarrow>
    good (tr_output tr) (tr_output_len tr) \<and> good (tr_error_msg tr) (tr_error_msg_len tr)" by auto
qed

lemma no_nul_denied: "no_nul ''denied by security''" "no_nul ''tool execution error''"
  by (simp_all)

lemma call_gate_goes:
  assumes "call_gate h i name args x = (y, al)"
  shows "goes x y"
proof (cases "he_security_agent h")
  case None
  with assms show ?thesis by (simp add: call_gate_def)
next
  case (Some a)
  obtain al' gr w where g: "sa_gate a name args (hx_world x) = (al', gr, w)"
    by (cases "sa_gate a name args (hx_world x)")
  let ?x = "x\<lparr>hx_world := w\<rparr>"
  define z where "z = (case tr_error_msg gr of
      Some em \<Rightarrow> set_result i HU_HULA_FAILED None 0 (Some em) (tr_error_msg_len gr) ?x
    | None \<Rightarrow> fail_with i ''denied by security'' ?x)"
  have "goes ?x z"
    using gate_ok [OF Some g] no_nul_denied(1)
    by (auto simp: z_def intro!: goes_error goes_fail split: option.split)
  have gw: "goes x ?x" by (rule goes_world [OF host_step.gate [OF Some g]])
  with \<open>goes ?x z\<close> have z: "goes x z" by (blast intro: goes_trans)
  have "goes z (z\<lparr>hx_world := sa_post_hook a name args gr (hx_world z)\<rparr>)"
    by (rule goes_world [OF host_step.post_hook [OF Some]])
  with z have "goes x (z\<lparr>hx_world := sa_post_hook a name args gr (hx_world z)\<rparr>)" by (rule goes_trans)
  with assms Some g gw show ?thesis
    by (auto simp: call_gate_def z_def Let_def split: if_splits)
qed

lemma goes_call: "may_call h i x \<Longrightarrow> goes x (count_call i args x)"
  by (rule goes_step [OF exec_step.call inv_call])

lemma call_execute_goes:
  assumes may: "inv x \<Longrightarrow> may_call h i x" and tool: "tool \<in> set (he_tools h)"
  shows "goes x (call_execute h tool i name n args x)"
proof (rule goes_def [THEN iffD2], rule impI)
  assume "inv x"
  let ?x1 = "record_event h (EvToolCallStart (Some name)) x"
  have g1: "goes x ?x1" by (rule goes_event)
  have m1: "may_call h i ?x1"
    using may [OF \<open>inv x\<close>] goes_policy [OF g1 \<open>inv x\<close>] by (simp add: may_call_def Let_def)
  obtain err tr c w where t: "tl_execute tool args (hx_world ?x1) = (err, tr, c, w)"
    by (cases "tl_execute tool args (hx_world ?x1)")
  note tok = tool_ok [OF tool t]
  let ?x2 = "absorb_cancel c ((count_call i args ?x1)\<lparr>hx_world := w\<rparr>)"
  have "goes ?x1 ?x2"
    by (rule goes_trans [OF goes_trans [OF goes_call [OF m1] goes_world] goes_absorb])
      (use tok host_step.tool [OF tool t] in \<open>simp_all add: count_call_def\<close>)
  with g1 have g2: "goes x ?x2" by (rule goes_trans)
  define x3 where "x3 = (case he_security_agent h of None \<Rightarrow> ?x2
      | Some a \<Rightarrow> ?x2\<lparr>hx_world := sa_post_hook a name (call_args n) tr (hx_world ?x2)\<rparr>)"
  have g3: "goes x x3"
    using goes_trans [OF g2 goes_world [OF host_step.post_hook]] g2 by (simp add: x3_def split: option.split)
  define x4 where "x4 = (case hx_registry x3 of
                 Some reg \<Rightarrow>
                   if err = HU_OK then
                     let to_cache = (case (if tr_success tr then tr_output tr else tr_error_msg tr) of
                                       None \<Rightarrow> ''{}'' | Some s \<Rightarrow> cstr s);
                         (now, y) = c_time h x3
                     in y\<lparr>hx_registry := Some (hu_idempotency_record now reg name (call_args n) to_cache (\<not> tr_success tr))\<rparr>
                   else x3
               | None \<Rightarrow> x3)"
  have "goes x3 x4"
  proof -
    have "goes x3 (y\<lparr>hx_registry := Some (hu_idempotency_record now reg name (call_args n) s b)\<rparr>)"
      if "hx_registry x3 = Some reg" "c_time h x3 = (now, y)" "no_nul s" for reg now y s b
    proof -
      have "hx_registry y = Some reg" using that by (auto simp: c_time_def split: prod.splits)
      then have "goes y (y\<lparr>hx_registry := Some (hu_idempotency_record now reg name (call_args n) s b)\<rparr>)"
        using that(3) by (intro goes_step [OF exec_step.registry] inv_record) auto
      with goes_time [OF that(2)] show ?thesis by (rule goes_trans)
    qed
    moreover have "no_nul (case (if tr_success tr then tr_output tr else tr_error_msg tr) of
                                       None \<Rightarrow> ''{}'' | Some s \<Rightarrow> cstr s)" by (simp split: option.split)
    ultimately show ?thesis by (auto simp: x4_def Let_def split: option.split prod.split)
  qed
  with g3 have g4: "goes x x4" by (rule goes_trans)
  let ?x5 = "record_event h (EvToolCall (Some name) (err = HU_OK \<and> tr_success tr)) x4"
  have g5: "goes x ?x5" using g4 goes_event by (rule goes_trans)
  have "goes ?x5 (if err \<noteq> HU_OK then fail_with i ''tool execution error'' ?x5 else set_tool_result i tr ?x5)"
    using tok no_nul_denied(2) by (auto intro: goes_fail goes_set_tool_result)
  with g5 have "goes x (if err \<noteq> HU_OK then fail_with i ''tool execution error'' ?x5 else set_tool_result i tr ?x5)"
    by (rule goes_trans)
  moreover have "call_execute h tool i name n args x =
      (if err \<noteq> HU_OK then fail_with i ''tool execution error'' ?x5 else set_tool_result i tr ?x5)"
  proof -
    define xb where "xb = (if hx_budget_enabled ?x1 \<and> hx_budget_max_tool_calls ?x1 > 0
        then ?x1\<lparr>hx_budget_tool_calls_used := hx_budget_tool_calls_used ?x1 + 1\<rparr> else ?x1)"
    have xb: "hx_world xb = hx_world ?x1"
      "xb\<lparr>hx_world := w, hx_calls := hx_calls xb @ [(i, args)]\<rparr> = (count_call i args ?x1)\<lparr>hx_world := w\<rparr>"
      by (auto simp: xb_def count_call_def)
    show ?thesis
      unfolding call_execute_def xb_def [symmetric] Let_def xb(1) t prod.case xb(2) x3_def [symmetric]
      unfolding x4_def Let_def ..
  qed
  ultimately show "inv (call_execute h tool i name n args x) \<and> exec_steps h x (call_execute h tool i name n args x)"
    using \<open>inv x\<close> by (simp add: goes_def)
qed

lemma call_arguments_cases:
  assumes "i < length (hp_nodes (he_program h))" and "inv x"
  defines "n \<equiv> hp_nodes (he_program h) ! i"
  shows "(\<exists>a. call_arguments h n x = Ret a) \<or> (\<exists>u. call_arguments h n x = Undef u \<and> bad u)"
proof -
  note p = json_parse_cases [OF args_ok [OF assms(2,1)], folded n_def]
  show ?thesis
  proof (cases "hu_json_parse (call_args n)")
    case (Ret v)
    show ?thesis
    proof (cases "hula_substitute_json_strings h x v")
      case (Undef u)
      with refs_ok [of x v u] Ret assms(2) show ?thesis by (auto simp: call_arguments_def)
    next
      case NoFuel
      with substitute_no_fuel(1) show ?thesis by blast
    qed (auto simp: call_arguments_def Ret)
  qed (use p in \<open>auto simp: call_arguments_def\<close>)
qed

lemma no_nul_call: "no_nul ''hula budget: tool call limit exceeded''" "no_nul ''tool not found''"
  by simp_all

lemma call_message_no_nul: "call_policy h n x = (y, Some msg) \<Longrightarrow> no_nul msg"
  by (auto simp: call_policy_def split: option.splits if_splits prod.splits)

lemma argument_message_no_nul: "call_arguments h n x = Ret (Inr msg) \<Longrightarrow> no_nul msg"
  by (auto simp: call_arguments_def split: outcome.splits if_splits)

lemma ends_inv: "(inv x \<Longrightarrow> ends x m) \<Longrightarrow> ends x m"
  by (auto simp: ends_def goes_def split: outcome.split)

lemma goes_invI: "(inv x \<Longrightarrow> goes x y) \<Longrightarrow> goes x y"
  by (auto simp: goes_def)

text \<open>The part of \<^verbatim>\<open>exec_call\<close> after the arguments: replay, gate, execution.\<close>

lemma run_tool_goes:
  assumes i: "i < length (hp_nodes (he_program h))" "hn_op (hp_nodes (he_program h) ! i) = HU_HULA_CALL"
  defines "n \<equiv> hp_nodes (he_program h) ! i"
  assumes y: "inv y" "policy_permits (hx_policy y) n" "\<not> budget_spent y" "rate_open (hx_policy y)"
    and tool: "tool \<in> set (he_tools h)" "tl_name tool = hn_tool_name n" "hn_tool_name n = Some name"
    and z: "call_replay h name n y = (z, hit)"
  shows "hit = Some tr \<Longrightarrow> goes y (set_tool_result i tr z)"
    and "hit = None \<Longrightarrow> call_gate h i name (call_args n) z = (v, al) \<Longrightarrow>
      goes y v \<and> goes y (call_execute h tool i name n args v)"
proof -
  note gz = call_replay_goes(1) [OF z]
  show "goes y (set_tool_result i tr z)" if "hit = Some tr"
    using call_replay_goes(2) [OF z y(1) that] gz by (blast intro: goes_trans goes_set_tool_result)
  assume "hit = None" and v: "call_gate h i name (call_args n) z = (v, al)"
  have gv: "goes y v" using gz call_gate_goes [OF v] by (rule goes_trans)
  have "may_call h i v"
    using i y tool call_replay_policy [OF z] call_gate_policy [OF v] call_replay_budget [OF z] call_gate_budget [OF v]
    by (auto simp: may_call_def n_def)
  then have "goes v (call_execute h tool i name n args v)" by (intro call_execute_goes tool(1))
  with gv show "goes y v \<and> goes y (call_execute h tool i name n args v)" by (blast intro: goes_trans)
qed

lemma exec_call_ends:
  assumes i: "i < length (hp_nodes (he_program h))" and opc: "hn_op (hp_nodes (he_program h) ! i) = HU_HULA_CALL"
    and cap: "hu_policy_hula_capability_allowed (hx_policy x) (hn_required_capability (hp_nodes (he_program h) ! i))"
  shows "ends x (exec_call h i x)"
proof (rule ends_inv)
  assume inv: "inv x"
  define n where "n = hp_nodes (he_program h) ! i"
  obtain y b where pol: "call_policy h n x = (y, b)" by (cases "call_policy h n x")
  note g = call_policy_goes(1) [OF pol]
  have invy: "inv y" by (rule goes_inv [OF g inv])
  show "ends x (exec_call h i x)"
  proof (cases "b \<noteq> None \<or> budget_spent y")
    case True
    have "ends y (exec_call h i x)"
      using True pol call_message_no_nul [of n x y "the b"]
      by (auto simp: exec_call_def n_def [symmetric] intro!: goes_fail split: option.split)
    with g show ?thesis by (rule ends_from)
  next
    case False
    have per: "policy_permits (hx_policy y) n"
      by (rule call_policy_goes(2) [OF pol inv]) (use cap False n_def in auto)
    have rest: "exec_call h i x = obind (find_tool (he_tools h) (hn_tool_name n)) (\<lambda>found.
            case (found, hn_tool_name n) of
              (Some tool, Some name) \<Rightarrow>
                obind (call_arguments h n y) (\<lambda>args.
                case args of
                  Inr msg \<Rightarrow> Ret (fail_with i msg y)
                | Inl args \<Rightarrow>
                    let (x, hit) = call_replay h name n y in
                    (case hit of
                       Some tr \<Rightarrow> Ret (set_tool_result i tr x)
                     | None \<Rightarrow>
                         let (x, allowed) = call_gate h i name (call_args n) x in
                         if allowed then Ret (call_execute h tool i name n args x) else Ret x))
            | _ \<Rightarrow> Ret (fail_with i ''tool not found'' y))"
      using pol False by (simp add: exec_call_def n_def [symmetric])
    have "ends y (exec_call h i x)"
    proof (cases "find_tool (he_tools h) (hn_tool_name n)")
      case (Ret found)
      show ?thesis
      proof (cases found)
        case None
        with rest Ret show ?thesis by (simp add: goes_fail)
      next
        case (Some tool)
        with Ret find_tool_cases(1) [of "he_tools h" "hn_tool_name n" tool] obtain name
          where tool: "tool \<in> set (he_tools h)" "tl_name tool = hn_tool_name n" "hn_tool_name n = Some name" by auto
        from call_arguments_cases [OF i invy]
        consider (val) a where "call_arguments h n y = Ret a" | (ub) u where "call_arguments h n y = Undef u" "bad u"
          by (auto simp: n_def)
        then show ?thesis
        proof cases
          case val
          obtain z hit where z: "call_replay h name n y = (z, hit)" by (cases "call_replay h name n y")
          obtain v al where v: "call_gate h i name (call_args n) z = (v, al)"
            by (cases "call_gate h i name (call_args n) z")
          have "rate_open (hx_policy y)" using pol False call_policy_open [of h n x y] by simp
          note run = run_tool_goes [OF i opc invy per [unfolded n_def] _ this tool [unfolded n_def] z [unfolded n_def],
              folded n_def]
          show ?thesis
            using rest Ret Some tool(3) val z v run(1) run(2) [OF _ _ v] False argument_message_no_nul [of n y]
            by (auto split: sum.split option.split intro: goes_fail)
        next
          case ub
          with rest Ret Some tool(3) show ?thesis by (simp add: ends_def)
        qed
      qed
    next
      case (Undef u)
      have "bad u" using find_tool_cases(2) [OF Undef] name_ok [OF i opc] by (auto simp: n_def)
      with rest Undef show ?thesis by (simp add: ends_def)
    qed (use find_tool_cases(3,4) in blast)+
    with g show ?thesis by (rule ends_from)
  qed
qed

subsection \<open>Control\<close>

definition child_ok :: "nat \<Rightarrow> (nat \<Rightarrow> 'w hula_exec \<Rightarrow> 'w hula_exec outcome) \<Rightarrow> bool" where
  "child_ok i nd \<longleftrightarrow> (\<forall>c \<in> set (hn_children (hp_nodes (he_program h) ! i)). \<forall>x. ends x (nd c x))"

lemma child_ok_nth:
  "child_ok i nd \<Longrightarrow> k < length (hn_children (hp_nodes (he_program h) ! i)) \<Longrightarrow>
     ends x (nd (hn_children (hp_nodes (he_program h) ! i) ! k) x)"
  by (simp add: child_ok_def)

lemma failed_at_error: "failed_at x c = Some r \<Longrightarrow> inv x \<Longrightarrow> good (hr_error r) (hr_error_len r)"
  by (auto simp: failed_at_def split: option.splits if_splits intro: good_error)

text \<open>A loop over children, with what it returns beside the state.\<close>

definition ends2 :: "('r \<Rightarrow> 'w hula_exec \<Rightarrow> bool) \<Rightarrow> 'w hula_exec \<Rightarrow> ('w hula_exec \<times> 'r) outcome \<Rightarrow> bool" where
  "ends2 P x m \<longleftrightarrow> (case m of Ret (y, r) \<Rightarrow> goes x y \<and> (inv x \<longrightarrow> P r y) | Undef u \<Rightarrow> inv x \<longrightarrow> bad u | _ \<Rightarrow> \<not> inv x)"

lemma ends2_from: "goes x y \<Longrightarrow> ends2 P y m \<Longrightarrow> ends2 P x m"
  unfolding ends2_def by (cases m) (auto dest: goes_inv intro: goes_trans)

lemma ends2_obind:
  assumes m: "ends x m" and f: "\<And>y. m = Ret y \<Longrightarrow> goes x y \<Longrightarrow> ends2 P y (f y)"
  shows "ends2 P x (obind m f)"
proof (cases m)
  case (Ret y)
  with m have g: "goes x y" by simp
  from ends2_from [OF g f [OF Ret g]] Ret show ?thesis by simp
qed (use m in \<open>auto simp: ends_def ends2_def\<close>)

lemma ends2_then:
  assumes m: "ends2 P x m" and f: "\<And>y r. m = Ret (y, r) \<Longrightarrow> inv y \<Longrightarrow> P r y \<Longrightarrow> ends2 Q y (f (y, r))"
  shows "ends2 Q x (obind m f)"
proof (cases m)
  case (Ret z)
  obtain y r where z: "z = (y, r)" by (cases z)
  from m Ret z have g: "goes x y" and p: "inv x \<Longrightarrow> P r y" by (auto simp: ends2_def)
  have "ends2 Q y (f (y, r))" if "inv x"
    using f [of y r] Ret z goes_inv [OF g that] p [OF that] by simp
  then have "inv x \<Longrightarrow> ends2 Q x (f (y, r))" using ends2_from [OF g] by blast
  moreover have "\<not> inv x \<Longrightarrow> ends2 Q x (f (y, r))"
    by (auto simp: ends2_def goes_def split: outcome.split)
  ultimately show ?thesis using Ret z by auto
qed (use m in \<open>auto simp: ends2_def\<close>)

lemma ends2_end:
  assumes m: "ends2 P x m" and f: "\<And>y r. m = Ret (y, r) \<Longrightarrow> inv y \<Longrightarrow> P r y \<Longrightarrow> goes y (f y r)"
  shows "ends x (obind m (\<lambda>(y, r). Ret (f y r)))"
proof (cases m)
  case (Ret z)
  obtain y r where z: "z = (y, r)" by (cases z)
  from m Ret z have g: "goes x y" and p: "inv x \<Longrightarrow> P r y" by (auto simp: ends2_def)
  have "goes x (f y r)"
    by (rule goes_invI) (use g goes_trans [OF g f] Ret z goes_inv [OF g] p in blast)
  with Ret z show ?thesis by simp
qed (use m in \<open>auto simp: ends_def ends2_def\<close>)

abbreviation fail_good :: "hula_result option \<Rightarrow> 'w hula_exec \<Rightarrow> bool" where
  "fail_good fl y \<equiv> \<forall>r. fl = Some r \<longrightarrow> good (hr_error r) (hr_error_len r)"

lemma ends2_Ret [simp]: "ends2 P x (Ret (y, r)) \<longleftrightarrow> goes x y \<and> (inv x \<longrightarrow> P r y)"
  by (simp add: ends2_def)

lemma seq_loop_ends: "(\<And>c x. c \<in> set cs \<Longrightarrow> ends x (nd c x)) \<Longrightarrow> ends2 fail_good x (seq_loop nd cs x)"
proof (induction cs arbitrary: x)
  case Nil
  then show ?case by simp
next
  case (Cons c cs)
  show ?case unfolding seq_loop.simps
  proof (rule ends2_obind)
    show "ends x (nd c x)" using Cons.prems by simp
    show "ends2 fail_good y (case failed_at y c of Some r \<Rightarrow> Ret (y, Some r) | None \<Rightarrow> seq_loop nd cs y)" for y
      using Cons.IH [of y] Cons.prems failed_at_error by (auto split: option.split)
  qed
qed

lemma exec_seq_ends: "child_ok i nd \<Longrightarrow> ends x (exec_seq h nd i x)"
proof -
  assume ok: "child_ok i nd"
  let ?cs = "hn_children (hp_nodes (he_program h) ! i)"
  have l: "ends2 fail_good x (seq_loop nd ?cs x)" by (rule seq_loop_ends) (use ok in \<open>simp add: child_ok_def\<close>)
  have "exec_seq h nd i x = obind (seq_loop nd ?cs x) (\<lambda>(y, fl). Ret (case fl of
        Some r \<Rightarrow> set_result i HU_HULA_FAILED None 0 (hr_error r) (hr_error_len r) y
      | None \<Rightarrow>
          if ?cs = [] then set_result i HU_HULA_DONE None 0 None 0 y
          else (case result_for y (last ?cs) of
                  Some r \<Rightarrow> set_result i HU_HULA_DONE (hr_output r) (hr_output_len r) None 0 y
                | None \<Rightarrow> y)))"
    unfolding exec_seq_def Let_def by (intro obind_cong refl) (auto split: option.split)
  moreover have "ends x \<dots>"
    by (rule ends2_end [OF l]) (auto split: option.split intro!: goes_error goes_done goes_output good_output)
  ultimately show ?thesis by simp
qed

lemma par_loop_ends: "(\<And>c x. c \<in> set cs \<Longrightarrow> ends x (nd c x)) \<Longrightarrow> ends2 (\<lambda>_ _. True) x (par_loop nd cs any x)"
proof (induction cs arbitrary: x any)
  case (Cons c cs)
  show ?case unfolding par_loop.simps
    by (rule ends2_obind) (use Cons in auto)
qed simp

lemma no_nul_control: "no_nul ''child failed''" "no_nul ''try needs body''" "no_nul ''verify: target not found''"
  "no_nul ''verify: target not done''" "no_nul ''verify: assertion failed''" "no_nul ''delegate timeout''"
  "no_nul ''delegate failed''" "no_nul ''delegate spawn failed''" "no_nul ''verified''" "no_nul ''timeout exceeded''"
  by simp_all

lemma exec_par_ends: "child_ok i nd \<Longrightarrow> ends x (exec_par h nd i x)"
  unfolding exec_par_def
  by (rule ends2_end [OF par_loop_ends])
     (auto simp: child_ok_def intro: goes_fail no_nul_control goes_done)

lemma run_as_ends: "ends x (nd c x) \<Longrightarrow> ends x (run_as nd i c x)"
  unfolding run_as_def by (erule ends_obind) (auto split: option.split intro: goes_copy)

lemma exec_branch_ends: "child_ok i nd \<Longrightarrow> ends x (exec_branch h nd i x)"
  unfolding exec_branch_def Let_def by (auto intro!: run_as_ends child_ok_nth goes_done)

lemma body_loop_ends: "(\<And>c x. c \<in> set cs \<Longrightarrow> ends x (nd c x)) \<Longrightarrow> ends2 fail_good x (body_loop nd cs x)"
proof (induction cs arbitrary: x)
  case Nil
  then show ?case by simp
next
  case (Cons c cs)
  show ?case unfolding body_loop.simps
  proof (rule ends2_obind)
    show "ends x (nd c (hula_result_reset c x))"
      by (rule ends_from [OF goes_reset]) (use Cons.prems in auto)
    show "ends2 fail_good y (case failed_at y c of Some r \<Rightarrow> Ret (y, Some r) | None \<Rightarrow> body_loop nd cs y)" for y
      using Cons.IH [of y] Cons.prems failed_at_error by (auto split: option.split)
  qed
qed

lemma iter_loop_ends:
  "(\<And>c x. c \<in> set (hn_children n) \<Longrightarrow> ends x (nd c x)) \<Longrightarrow> ends2 fail_good x (iter_loop nd n m x)"
proof (induction m arbitrary: x)
  case 0
  then show ?case by simp
next
  case (Suc m)
  have "ends2 fail_good x (obind (body_loop nd (hn_children n) x) (\<lambda>(x, fl).
        case fl of Some r \<Rightarrow> Ret (x, Some r) | None \<Rightarrow> iter_loop nd n m x))"
    by (rule ends2_then [OF body_loop_ends]) (use Suc in \<open>auto split: option.split\<close>)
  then show ?case by simp
qed

lemma exec_loop_ends: "child_ok i nd \<Longrightarrow> ends x (exec_loop h nd i x)"
proof -
  assume ok: "child_ok i nd"
  let ?n = "hp_nodes (he_program h) ! i"
  have l: "ends2 fail_good x (iter_loop nd ?n (loop_bound ?n) x)"
    by (rule iter_loop_ends) (use ok in \<open>simp add: child_ok_def\<close>)
  have "exec_loop h nd i x = obind (iter_loop nd ?n (loop_bound ?n) x) (\<lambda>(y, fl). Ret (case fl of
        Some r \<Rightarrow> set_result i HU_HULA_FAILED None 0 (hr_error r) (hr_error_len r) y
      | None \<Rightarrow> set_result i HU_HULA_DONE None 0 None 0 y))"
    unfolding exec_loop_def Let_def by (intro obind_cong refl) (auto split: option.split)
  moreover have "ends x \<dots>"
    by (rule ends2_end [OF l]) (auto split: option.split intro!: goes_error goes_done)
  ultimately show ?thesis by simp
qed

lemma exec_try_ends: "child_ok i nd \<Longrightarrow> ends x (exec_try h nd i x)"
proof (cases "hn_children (hp_nodes (he_program h) ! i)")
  case Nil
  then show ?thesis by (simp add: exec_try_def goes_fail no_nul_control)
next
  case (Cons c cs)
  assume "child_ok i nd"
  then have c: "ends y (nd c y)" "cs \<noteq> [] \<Longrightarrow> ends y (nd (hd cs) y)" for y by (auto simp: child_ok_def Cons)
  show ?thesis
    unfolding exec_try_def Cons list.case
    by (rule ends_obind [OF c(1)])
       (auto intro!: run_as_ends c(2) goes_copy goes_done split: option.split)
qed

subsection \<open>VERIFY, EMIT, DELEGATE\<close>

lemma exec_verify_ends: "ends x (exec_verify h i x)"
proof -
  have "goes x (hu_hula_exec_cancel (Some msg) (length msg) (fail_with i msg x))" if "no_nul msg" for msg
    by (rule goes_trans [OF goes_fail [OF that] goes_cancel]) (rule good_lit [OF that])
  from this [OF no_nul_control(5)] have
    "goes x (hu_hula_exec_cancel (Some ''verify: assertion failed'') (length ''verify: assertion failed'')
       (fail_with i ''verify: assertion failed'' x))" .
  moreover have "goes x (set_result i HU_HULA_DONE (Some ''verified'') 8 None 0 x)"
  proof (rule goes_output)
    have "length ''verified'' = 8" by simp
    with good_lit [OF no_nul_control(9)] show "good (Some ''verified'') 8" by metis
  qed
  ultimately show ?thesis
    using no_nul_control good_cut
    by (auto simp: exec_verify_def Let_def intro!: goes_fail goes_error split: option.split)
qed

lemma emit_finish:
  assumes "inv x \<Longrightarrow> good (Some val) n"
  shows "goes x (case k of Some k \<Rightarrow> hula_slot_set k val n (set_result i HU_HULA_DONE (Some val) n None 0 x)
      | None \<Rightarrow> set_result i HU_HULA_DONE (Some val) n None 0 x)"
proof (rule goes_invI)
  assume inv: "inv x"
  have g: "goes x (set_result i HU_HULA_DONE (Some val) n None 0 x)" by (rule goes_output) (rule assms)
  moreover have "goes y (hula_slot_set k val n y)" for y k by (rule goes_slot) (rule assms [OF inv])
  ultimately show ?thesis by (auto split: option.split intro: goes_trans)
qed

lemma emit_ref_Nil: "emit_ref ns j [] = None"
proof (induction ns arbitrary: j)
  case (Cons n ns)
  then show ?case by (simp add: ref_var_def c_contains_def starts_with_def split: option.split)
qed simp

lemma exec_emit_ends:
  assumes i: "i < length (hp_nodes (he_program h))" "hn_op (hp_nodes (he_program h) ! i) = HU_HULA_EMIT"
  shows "ends x (exec_emit h i x)"
proof -
  let ?n = "hp_nodes (he_program h) ! i"
  let ?val = "case hn_emit_value ?n of None \<Rightarrow> [] | Some s \<Rightarrow> s"
  have gv: "good (Some ?val) (length ?val)"
    using good_lit [of "[]"] emit_ok [OF i(1)] by (auto split: option.split)
  show ?thesis
  proof (cases "emit_ref (hp_nodes (he_program h)) 0 ?val")
    case None
    with emit_finish gv show ?thesis by (simp add: exec_emit_def Let_def)
  next
    case (Some j)
    show ?thesis
    proof (cases "Option.bind (result_for x j) hr_output")
      case None
      with Some emit_finish gv show ?thesis by (simp add: exec_emit_def Let_def)
    next
      fix t assume t: "Option.bind (result_for x j) hr_output = Some t"
      then obtain r where r: "result_for x j = Some r" "hr_output r = Some t" by (auto simp: bind_eq_Some_conv)
      show ?thesis
      proof (cases "j = i")
        case True
        from Some obtain s where "hn_emit_value ?n = Some s" "emit_ref (hp_nodes (he_program h)) 0 s = Some i"
          using True by (cases "hn_emit_value ?n") (auto simp: emit_ref_Nil)
        then have "bad UseAfterFree" by (rule self_ok [OF i])
        with Some t True show ?thesis by (simp add: exec_emit_def Let_def ends_def)
      next
        case False
        have "inv x \<Longrightarrow> good (Some t) (hr_output_len r)" using good_output [of x j r] r by simp
        with Some t False r emit_finish show ?thesis by (simp add: exec_emit_def Let_def)
      qed
    qed
  qed
qed

lemma poll_loop_goes: "he_pool h = Some pool \<Longrightarrow> goes x (poll_loop h pool a n i m x)"
proof (induction m arbitrary: x)
  case 0
  show ?case
    using goes_trans [OF goes_fail [OF no_nul_control(6)] goes_world [OF host_step.abandon [OF 0]]] by (simp add: Let_def)
next
  case (Suc m)
  obtain st w where st: "ap_status pool a (hx_world x) = (st, w)" by (cases "ap_status pool a (hx_world x)")
  let ?x = "x\<lparr>hx_world := w\<rparr>"
  have gx: "goes x ?x" by (rule goes_world [OF host_step.poll [OF Suc.prems st]])
  show ?case
  proof (cases "st = HU_AGENT_COMPLETED \<or> st = HU_AGENT_FAILED")
    case True
    obtain res v where res: "ap_result pool a w = (res, v)" by (cases "ap_result pool a w")
    let ?y = "x\<lparr>hx_world := v\<rparr>"
    have "goes ?x (?x\<lparr>hx_world := v\<rparr>)" by (rule goes_world) (use host_step.collect [OF Suc.prems res] in simp)
    with gx have "goes x (?x\<lparr>hx_world := v\<rparr>)" by (rule goes_trans)
    then have gy: "goes x ?y" by simp
    have "goes ?y (poll_loop h pool a n i (Suc m) x)"
    proof (cases res)
      case None
      with True st res show ?thesis by (simp add: goes_fail no_nul_control)
    next
      case (Some r)
      have gr: "good (Some r) (length r)" using pool_ok [OF Suc.prems] res Some by blast
      from True st res Some emit_finish [of ?y r "length r" i "hn_delegate_result_key n", OF gr]
        goes_error [of ?y "Some r" "length r" i HU_HULA_FAILED 0, OF gr]
      show ?thesis by (auto simp: Let_def)
    qed
    with gy show ?thesis by (rule goes_trans)
  next
    case False
    have "goes ?x (poll_loop h pool a n i m (c_nanosleep h 100 ?x))"
      unfolding c_nanosleep_def using goes_world [OF host_step.sleep] Suc.IH [OF Suc.prems] by (rule goes_trans)
    with gx have "goes x (poll_loop h pool a n i m (c_nanosleep h 100 ?x))" by (rule goes_trans)
    with False st show ?thesis by simp
  qed
qed

lemma embed_calls_fuel:
  "\<forall>c \<in> set cs. length (call_args c) < 2 ^ 61 \<Longrightarrow> embed_calls cs \<noteq> NoFuel"
proof (induction cs)
  case (Cons c cs)
  have "embed_call c \<noteq> NoFuel"
    using json_parse_cases [of "call_args c"] Cons.prems by (cases "hu_json_parse (call_args c)") (auto simp: embed_call_def)
  with Cons show ?case by (auto simp: outcome_simps)
qed simp

lemma delegate_config_cases:
  assumes i: "i < length (hp_nodes (he_program h))" and opc: "hn_op (hp_nodes (he_program h) ! i) = HU_HULA_DELEGATE" and "inv x"
  shows "(\<exists>c. delegate_config (hp_nodes (he_program h)) (hp_nodes (he_program h) ! i) cfg = Ret c) \<or>
    (\<exists>u. delegate_config (hp_nodes (he_program h)) (hp_nodes (he_program h) ! i) cfg = Undef u \<and> bad u)"
proof -
  let ?ns = "hp_nodes (he_program h)"
  have "\<forall>c \<in> set (hn_children (?ns ! i)). c < length ?ns"
    using wf [OF assms(3)] i unfolding wf_from_def by blast
  then have "\<forall>c \<in> set (map ((!) ?ns) (hn_children (?ns ! i))). length (call_args c) < 2 ^ 61"
    using args_ok [OF assms(3)] by simp
  then have "embed_calls (map ((!) ?ns) (hn_children (?ns ! i))) \<noteq> NoFuel" by (rule embed_calls_fuel)
  moreover have "hu_json_stringify v \<noteq> NoFuel" for v using hu_json_stringify_fits [of v] by auto
  ultimately have "delegate_embed_children_json ?ns (?ns ! i) \<noteq> NoFuel"
    by (simp add: delegate_embed_children_json_def outcome_simps)
  then show ?thesis
    using embed_ok [OF assms(3) i opc]
    by (cases "delegate_embed_children_json ?ns (?ns ! i)") (auto simp: delegate_config_def Let_def)
qed

lemma spawn_host: "he_pool h = Some pool \<Longrightarrow> delegate_spawn h pool cfg n goal w = (a, w') \<Longrightarrow> host_step h w w'"
  by (auto simp: delegate_spawn_def split: option.splits if_splits intro: host_step.spawn host_step.spawn_named)

lemma exec_delegate_ends:
  assumes i: "i < length (hp_nodes (he_program h))" and opc: "hn_op (hp_nodes (he_program h) ! i) = HU_HULA_DELEGATE"
  shows "ends x (exec_delegate h i x)"
proof -
  let ?n = "hp_nodes (he_program h) ! i"
  have goal: "good (hn_goal ?n) (case hn_goal ?n of None \<Rightarrow> 0 | Some g \<Rightarrow> length g)"
    using goal_ok [OF i] good_None by (auto split: option.split)
  have stub: "goes x (set_result i HU_HULA_DONE (hn_goal ?n) (case hn_goal ?n of None \<Rightarrow> 0 | Some g \<Rightarrow> length g) None 0 x)"
    by (rule goes_output) (rule goal)
  show ?thesis
  proof (cases "\<exists>pool cfg g. he_pool h = Some pool \<and> he_spawn_cfg h = Some cfg \<and> hn_goal ?n = Some g \<and> g \<noteq> []")
    case False
    with stub show ?thesis by (auto simp: exec_delegate_def Let_def split: option.splits)
  next
    case True
    then obtain pool cfg g where p: "he_pool h = Some pool" "he_spawn_cfg h = Some cfg" "hn_goal ?n = Some g" "g \<noteq> []"
      by blast
    show ?thesis
    proof (rule ends_inv)
    assume "inv x"
    show "ends x (exec_delegate h i x)"
    proof (cases "delegate_config (hp_nodes (he_program h)) ?n cfg")
    case (Ret cfg')
    obtain a w where sp: "delegate_spawn h pool cfg' ?n g (hx_world x) = (a, w)"
      by (cases "delegate_spawn h pool cfg' ?n g (hx_world x)")
    have "goes (x\<lparr>hx_world := w\<rparr>) (case a of None \<Rightarrow> fail_with i ''delegate spawn failed'' (x\<lparr>hx_world := w\<rparr>)
        | Some a \<Rightarrow> poll_loop h pool a ?n i 300 (x\<lparr>hx_world := w\<rparr>))"
      by (auto simp del: poll_loop.simps split: option.split intro: goes_fail no_nul_control poll_loop_goes [OF p(1)])
    with goes_world [OF spawn_host [OF p(1) sp]] have "goes x (case a of None \<Rightarrow> fail_with i ''delegate spawn failed'' (x\<lparr>hx_world := w\<rparr>)
        | Some a \<Rightarrow> poll_loop h pool a ?n i 300 (x\<lparr>hx_world := w\<rparr>))" by (rule goes_trans)
    with p sp Ret show ?thesis by (simp add: exec_delegate_def Let_def del: poll_loop.simps)
    qed (use delegate_config_cases [OF i opc \<open>inv x\<close>, of cfg] p in \<open>auto simp: exec_delegate_def Let_def ends_def\<close>)
    qed
  qed
qed

subsection \<open>Nodes\<close>

lemma exec_dispatch_ends:
  assumes "i < length (hp_nodes (he_program h))" and "child_ok i nd"
    and "hu_policy_hula_capability_allowed (hx_policy x) (hn_required_capability (hp_nodes (he_program h) ! i))"
  shows "ends x (exec_dispatch h nd i x)"
  using assms
  by (cases "hn_op (hp_nodes (he_program h) ! i)")
     (simp_all add: exec_dispatch_def exec_call_ends exec_seq_ends exec_par_ends exec_branch_ends exec_loop_ends
       exec_delegate_ends exec_emit_ends exec_try_ends exec_verify_ends)

lemma goes_capability:
  assumes "goes x y" and "inv x"
  shows "hu_policy_hula_capability_allowed (hx_policy y) c = hu_policy_hula_capability_allowed (hx_policy x) c"
proof -
  have "policy_core (hx_policy y) = policy_core (hx_policy x)"
    using assms exec_steps_fixed by (auto simp: goes_def)
  then have "hu_policy_hula_capability_allowed (policy_core (hx_policy y)) c =
      hu_policy_hula_capability_allowed (policy_core (hx_policy x)) c" by simp
  moreover have "hu_policy_hula_capability_allowed (policy_core p) c = hu_policy_hula_capability_allowed p c" for p
    by (auto simp: policy_core_def hu_policy_hula_capability_allowed_def split: option.split)
  ultimately show ?thesis by simp
qed

lemma attempt_loop_ends:
  assumes d: "\<And>y. goes x0 y \<Longrightarrow> inv y \<Longrightarrow> ends y (dispatch y)"
  shows "goes x0 x \<Longrightarrow> inv x0 \<Longrightarrow> ends x (attempt_loop h dispatch i t0 first m x)"
proof (induction m arbitrary: first x)
  case 0
  then show ?case by simp
next
  case (Suc m)
  let ?n = "hp_nodes (he_program h) ! i"
  let ?x = "if first then x else let x = hula_result_reset i x in
      if hn_retry_backoff_ms ?n > 0 then c_nanosleep h (hn_retry_backoff_ms ?n) x else x"
  have gx: "goes x ?x"
    using goes_trans [OF goes_reset [of x i] goes_world [OF host_step.sleep]] goes_reset [of x i] by (simp add: c_nanosleep_def Let_def)
  with Suc.prems(1) have g0: "goes x0 ?x" by (rule goes_trans)
  have dx: "ends ?x (dispatch ?x)" by (rule d [OF g0 goes_inv [OF g0 Suc.prems(2)]])
  have rest: "ends y (let (now, z) = (if hn_timeout_ms ?n > 0 then hula_wall_ms h y else (t0, y)) in
         if hn_timeout_ms ?n > 0 \<and> elapsed_u64 now t0 > hn_timeout_ms ?n then Ret (fail_with i ''timeout exceeded'' z)
         else if failed_at z i = None then Ret z
         else attempt_loop h dispatch i t0 False m z)" if "goes ?x y" for y
  proof -
    obtain now z where z: "(if hn_timeout_ms ?n > 0 then hula_wall_ms h y else (t0, y)) = (now, z)"
      by (cases "if hn_timeout_ms ?n > 0 then hula_wall_ms h y else (t0, y)")
    then have gz: "goes y z" by (auto split: if_splits intro: goes_wall)
    then have "goes x0 z" using g0 that by (blast intro: goes_trans)
    note ih = Suc.IH [OF this Suc.prems(2)]
    have "goes y (fail_with i ''timeout exceeded'' z)" using gz goes_fail [OF no_nul_control(10)] by (rule goes_trans)
    with gz ends_from [OF gz ih] show ?thesis unfolding z by (simp add: Let_def)
  qed
  show ?case
    unfolding attempt_loop.simps Let_def [of ?n] Let_def [of ?x]
    by (rule ends_from [OF gx ends_obind [OF dx]]) (rule rest)
qed

lemma goes_cancel_node: "goes x (cancel_node i x)"
  unfolding cancel_node_def Let_def by (rule goes_error) (rule good_halt)

lemma goes_node_end: "goes x (node_end h i t0 x)"
  by (auto simp: node_end_def Let_def split: prod.split intro: goes_trans [OF goes_wall goes_event])

lemma goes_stream: "goes x (hula_emit_stream_output h i x)"
  by (auto simp: hula_emit_stream_output_def split: option.split intro: goes_event)

lemma goes_node_finish:
  assumes "i < length (hp_nodes (he_program h))"
  shows "goes x (node_finish h i t0 x)"
  unfolding node_finish_def Let_def
  by (rule goes_trans [OF goes_node_end [of x i t0] goes_trans [OF _ goes_trace [OF assms]]]) (simp add: goes_stream)

lemma goes_node_start: "node_start h i x = (t0, y) \<Longrightarrow> goes x y"
  by (auto simp: node_start_def Let_def split: prod.splits
      intro: goes_trans [OF goes_running goes_trans [OF goes_wall goes_event]])

lemma node_refused_goes:
  assumes "node_refused h depth i x = (y, r)"
  shows "goes x y" and "r = Some msg \<Longrightarrow> no_nul msg"
    and "r = None \<Longrightarrow> hu_policy_hula_capability_allowed (hx_policy y) (hn_required_capability (hp_nodes (he_program h) ! i))"
proof -
  have "over_wall_budget h x = (y, b) \<Longrightarrow> goes x y \<and> hx_policy y = hx_policy x" for y b
    by (auto simp: over_wall_budget_def hula_wall_ms_def split: if_splits prod.splits intro: goes_world host_step.wall)
  with assms show "goes x y" "r = Some msg \<Longrightarrow> no_nul msg"
    "r = None \<Longrightarrow> hu_policy_hula_capability_allowed (hx_policy y) (hn_required_capability (hp_nodes (he_program h) ! i))"
    by (auto simp: node_refused_def Let_def split: if_splits prod.splits)
qed

lemma node_body_ends:
  assumes i: "i < length (hp_nodes (he_program h))" and ok: "child_ok i nd"
  shows "ends x (node_body h nd depth i x)"
proof (rule ends_inv)
  assume inv: "inv x"
  let ?n = "hp_nodes (he_program h) ! i"
  show "ends x (node_body h nd depth i x)"
  proof (cases "hx_halted x")
    case True
    with goes_trans [OF goes_cancel_node goes_trace [OF i]] show ?thesis by (simp add: node_body_def)
  next
    case False
    obtain y r where y: "node_refused h depth i x = (y, r)" by (cases "node_refused h depth i x")
    note gy = node_refused_goes(1) [OF y]
    show ?thesis
    proof (cases r)
      case (Some msg)
      have "goes x (trace_append h i (fail_with i msg y))"
        using gy goes_trans [OF goes_fail [OF node_refused_goes(2) [OF y Some]] goes_trace [OF i]] by (rule goes_trans)
      with False y Some show ?thesis by (simp add: node_body_def)
    next
      case None
      obtain t0 z where z: "node_start h i y = (t0, z)" by (cases "node_start h i y")
      have gz: "goes x z" using gy goes_node_start [OF z] by (rule goes_trans)
      have invz: "inv z" by (rule goes_inv [OF gz inv])
      have cap: "hu_policy_hula_capability_allowed (hx_policy z) (hn_required_capability ?n)"
        using node_refused_goes(3) [OF y None] goes_capability [OF goes_node_start [OF z] goes_inv [OF gy inv]] by simp
      have halted: "goes x (trace_append h i (node_end h i t0 (cancel_node i z)))"
        using gz goes_trans [OF goes_trans [OF goes_cancel_node goes_node_end] goes_trace [OF i]] by (rule goes_trans)
      have "ends z (attempt_loop h (exec_dispatch h nd i) i t0 True m z)" for m
      proof (rule attempt_loop_ends [OF _ goes_refl invz])
        fix v assume gv: "goes z v" and "inv v"
        show "ends v (exec_dispatch h nd i v)"
          by (rule exec_dispatch_ends [OF i ok]) (simp only: goes_capability [OF gv invz] cap)
      qed
      then have "ends z (obind (attempt_loop h (exec_dispatch h nd i) i t0 True m z) (\<lambda>x. Ret (node_finish h i t0 x)))" for m
        by (rule ends_obind) (simp add: goes_node_finish [OF i])
      then have run: "ends x (obind (attempt_loop h (exec_dispatch h nd i) i t0 True m z) (\<lambda>x. Ret (node_finish h i t0 x)))" for m
        by (rule ends_from [OF gz])
      have "node_body h nd depth i x = (if hx_halted z then Ret (trace_append h i (node_end h i t0 (cancel_node i z)))
          else obind (attempt_loop h (exec_dispatch h nd i) i t0 True (max_attempts ?n) z) (\<lambda>x. Ret (node_finish h i t0 x)))"
        using False y None z by (simp add: node_body_def)
      moreover have "ends x (Ret (trace_append h i (node_end h i t0 (cancel_node i z))))" using halted by simp
      ultimately show ?thesis using run [of "max_attempts ?n"] by (cases "hx_halted z") (simp_all only: if_True if_False)
    qed
  qed
qed

text \<open>Children lie behind their parents, so a budget of the nodes from \<open>i\<close> on is enough.\<close>

lemma exec_node_ends:
  "i < length (hp_nodes (he_program h)) \<Longrightarrow> length (hp_nodes (he_program h)) \<le> i + k \<Longrightarrow>
     ends x (exec_node_depth k h depth i x)"
proof (induction k arbitrary: i depth x)
  case 0
  then show ?case by simp
next
  case (Suc k)
  show ?case
  proof (rule ends_inv)
    assume "inv x"
    have "child_ok i (\<lambda>c y. exec_node_depth k h (depth + 1) c y)"
      unfolding child_ok_def
    proof (intro ballI allI)
      fix c y assume "c \<in> set (hn_children (hp_nodes (he_program h) ! i))"
      with wf [OF \<open>inv x\<close>] Suc.prems(1) have "i < c" "c < length (hp_nodes (he_program h))"
        unfolding wf_from_def by blast+
      with Suc show "ends y (exec_node_depth k h (depth + 1) c y)" by simp
    qed
    from node_body_ends [OF Suc.prems(1) this] show "ends x (exec_node_depth (Suc k) h depth i x)" by simp
  qed
qed

lemma exec_run_ends:
  assumes r: "hp_root (he_program h) = Some r" "r < length (hp_nodes (he_program h))"
  shows "ends (run_start h x) (hu_hula_exec_run h x)"
proof -
  obtain start x1 where 1: "(if hx_budget_enabled x then hula_wall_ms h x else (hx_budget_run_start_ms x, x)) = (start, x1)"
    by (cases "if hx_budget_enabled x then hula_wall_ms h x else (hx_budget_run_start_ms x, x)")
  let ?x2 = "x1\<lparr>hx_budget_run_start_ms := start, hx_budget_tool_calls_used := 0\<rparr>"
  obtain t0 x3 where 3: "hula_wall_ms h ?x2 = (t0, x3)" by (cases "hula_wall_ms h ?x2")
  have rs: "run_start h x = x3" by (simp add: run_start_def Let_def 1 3)
  define fin where "fin y = (case he_observer h of
                None \<Rightarrow> y
              | Some f \<Rightarrow>
                  let rr = Option.bind (hn_id (hp_nodes (he_program h) ! r)) (hu_hula_exec_result h y);
                      ok = (case rr of None \<Rightarrow> False | Some s \<Rightarrow> hr_status s = HU_HULA_DONE);
                      (t1, x) = hula_wall_ms h y
                  in record_event h (EvProgramEnd (case hp_name (he_program h) of None \<Rightarrow> [] | Some s \<Rightarrow> s) ok
                       (if t1 \<ge> t0 then t1 - t0 else 0) (length (hp_nodes (he_program h)))) x)" for y
  have "goes y (fin y)" for y
    by (auto simp: fin_def Let_def split: option.split prod.split intro: goes_trans [OF goes_wall goes_event])
  moreover have "ends x3 (exec_node_depth (run_fuel h) h 0 r x3)"
    by (rule exec_node_ends) (use r in \<open>simp_all add: run_fuel_def\<close>)
  ultimately have "ends x3 (obind (exec_node_depth (run_fuel h) h 0 r x3) (\<lambda>y. Ret (fin y)))"
    by (intro ends_obind) simp_all
  moreover have "hu_hula_exec_run h x = obind (exec_node_depth (run_fuel h) h 0 r x3) (\<lambda>y. Ret (fin y))"
    unfolding hu_hula_exec_run_def fin_def Let_def by (simp add: r(1) 1 3 Let_def)
  ultimately show ?thesis by (simp add: rs)
qed

end

section \<open>The walk with no invariant: refinement and termination\<close>

definition args_short :: "'w hula_host \<Rightarrow> bool" where
  "args_short h \<longleftrightarrow> (\<forall>n \<in> set (hp_nodes (he_program h)). length (call_args n) < 2 ^ 61)"

definition program_ok :: "'w hula_host \<Rightarrow> bool" where
  "program_ok h \<longleftrightarrow> wf_from 0 (hp_nodes (he_program h)) \<and> args_short h \<and>
     (\<exists>r. hp_root (he_program h) = Some r \<and> r < length (hp_nodes (he_program h)))"

interpretation any: exec_logic h "\<lambda>_. wf_from 0 (hp_nodes (he_program h)) \<and> args_short h" "\<lambda>_ _. True" "\<lambda>_. True"
  for h :: "'w hula_host"
  by unfold_locales (auto simp: args_short_def)

lemma run_outcome:
  assumes "program_ok h"
  shows "(\<exists>y. hu_hula_exec_run h x = Ret y \<and> exec_steps h (run_start h x) y) \<or>
    (\<exists>u. hu_hula_exec_run h x = Undef u)"
proof -
  obtain r where r: "hp_root (he_program h) = Some r" "r < length (hp_nodes (he_program h))"
    using assms by (auto simp: program_ok_def)
  from any.exec_run_ends [OF r, of x, unfolded any.ends_def any.goes_def] assms show ?thesis
    by (auto simp: program_ok_def split: outcome.splits)
qed

lemma run_steps: "program_ok h \<Longrightarrow> hu_hula_exec_run h x = Ret y \<Longrightarrow> exec_steps h (run_start h x) y"
  using run_outcome [of h x] by auto

lemma run_start_fixed [simp]:
  "hx_results (run_start h x) = hx_results x" "hx_policy (run_start h x) = hx_policy x"
  "hx_calls (run_start h x) = hx_calls x" "hx_slots (run_start h x) = hx_slots x"
  "hx_budget_enabled (run_start h x) = hx_budget_enabled x" "hx_halted (run_start h x) = hx_halted x"
  "hx_budget_max_tool_calls (run_start h x) = hx_budget_max_tool_calls x"
  "hx_budget_tool_calls_used (run_start h x) = 0"
  "hx_registry (run_start h x) = hx_registry x" "hx_halt_reason (run_start h x) = hx_halt_reason x"
  "hx_halt_reason_len (run_start h x) = hx_halt_reason_len x" "hx_trace_log (run_start h x) = hx_trace_log x"
  by (auto simp: run_start_def hula_wall_ms_def Let_def split: prod.split)

lemma run_start_world: "host_steps h (hx_world x) (hx_world (run_start h x))"
  by (auto simp: run_start_def hula_wall_ms_def Let_def split: prod.split
      intro: host_step.wall converse_rtranclp_into_rtranclp)

lemma run_readings: "readings h (hx_world (run_start h x)) v \<subseteq> readings h (hx_world x) v"
  using run_start_world [of h x] by (auto simp: readings_def intro: rtranclp_trans)

subsection \<open>A sample run\<close>

text \<open>What unfolds a run on given nodes; the parser is left to facts about the texts it is given.\<close>

lemmas hula_run_eval =
  hu_hula_exec_run_def hu_hula_exec_init_def hu_hula_exec_set_budget_def run_fuel_def hula_wall_ms_def c_time_def
  c_nanosleep_def node_body_def node_refused_def empty_node_def hu_policy_hula_capability_allowed_def
  over_wall_budget_def node_start_def set_running_def record_event_def max_attempts_def elapsed_u64_def
  exec_dispatch_def exec_call_def call_policy_def budget_spent_def call_arguments_def call_replay_def
  call_gate_def call_execute_def absorb_cancel_def hu_hula_exec_cancel_def set_tool_result_def set_result_def
  fail_with_def copy_result_def run_as_def exec_seq_def exec_par_def exec_loop_def loop_bound_def exec_try_def
  exec_emit_def failed_at_def result_for_def hula_result_reset_def result_zero_def node_finish_def node_end_def
  cancel_node_def hula_emit_stream_output_def trace_append_def

text \<open>A plan of one call of the tool \<open>t\<close>, which answers \<open>ok\<close>.\<close>

definition one_call_node :: hula_node where
  "one_call_node = (empty_node HU_HULA_CALL (Some ''a''))\<lparr>hn_tool_name := Some ''t''\<rparr>"

definition ok_tool :: "unit hula_tool" where
  "ok_tool = \<lparr>tl_name = Some ''t'', tl_execute = (\<lambda>args w. (HU_OK, \<lparr>tr_success = True, tr_output = Some ''ok'',
     tr_output_len = 2, tr_error_msg = None, tr_error_msg_len = 0\<rparr>, None, w))\<rparr>"

definition sample_host :: "hula_node list \<Rightarrow> unit hula_host" where
  "sample_host ns = \<lparr>he_program = \<lparr>hp_name = None, hp_version = 1, hp_nodes = ns, hp_node_cap = 16, hp_gen = 1,
       hp_root = Some 0\<rparr>,
     he_tools = [ok_tool], he_observer = None, he_pool = None, he_spawn_cfg = None, he_delegate_registry = None,
     he_security_agent = None, he_wall_ms = (\<lambda>w. (0, w)), he_time = (\<lambda>w. (0, w)), he_nanosleep = (\<lambda>n w. w)\<rparr>"

definition sample_exec :: "hula_node list \<Rightarrow> unit hula_exec" where
  "sample_exec ns = hu_hula_exec_set_budget 0 0 2 (hu_hula_exec_init (he_program (sample_host ns)) ())"

lemma parse_empty_object: "hu_json_parse ''{}'' = Ret (JObj [])"
  by code_simp

lemma one_call_program_ok: "program_ok (sample_host [one_call_node])"
  by (simp add: program_ok_def sample_host_def wf_from_def args_short_def one_call_node_def empty_node_def call_args_def)

lemma one_call_run:
  "hu_hula_exec_run (sample_host [one_call_node]) (sample_exec [one_call_node]) =
     Ret ((sample_exec [one_call_node])\<lparr>hx_budget_tool_calls_used := 1, hx_calls := [(0, JObj [])],
       hx_results := [\<lparr>hr_status = HU_HULA_DONE, hr_output = Some ''ok'', hr_output_len = 2, hr_error = None, hr_error_len = 0\<rparr>]\<rparr>)"
  by (simp add: hula_run_eval sample_host_def sample_exec_def one_call_node_def ok_tool_def call_args_def
      parse_empty_object dup_if_def hu_strndup_def cstr_def)

section \<open>Properties\<close>

text \<open>
  C1: running a well-formed program ends: the recursion budget of one more than the nodes is enough
  and no error is returned.  Unless the run has undefined behaviour, what it does to its state is a
  sequence of steps of the transition system, in which every tool call is one that \<open>may_call\<close> allows.
\<close>

theorem hula_run_refines:
  assumes "program_ok h"
  shows "(\<exists>y. hu_hula_exec_run h x = Ret y \<and> exec_steps h (run_start h x) y) \<or>
    (\<exists>u. hu_hula_exec_run h x = Undef u)"
  using assms by (rule run_outcome)

lemma hula_run_refines_witness:
  "\<exists>y. hu_hula_exec_run (sample_host [one_call_node]) (sample_exec [one_call_node]) = Ret y \<and>
     exec_steps (sample_host [one_call_node]) (run_start (sample_host [one_call_node]) (sample_exec [one_call_node])) y"
  using hula_run_refines [OF one_call_program_ok, of "sample_exec [one_call_node]"] one_call_run by auto

text \<open>
  C2: every tool call that a run of a well-formed program makes is that of a CALL node of the program whose tool is
  registered and whose required capability the policy grants; and if there is a policy, it is not locked, does
  not block high-risk commands when the tool is of high risk, and did not limit the rate: by the clock of a world
  between the one the run started from and the one it left (by what the operations of the host do to it), fewer
  actions than allowed had been recorded within the window of the tracker, if there is one.
\<close>

theorem hula_calls_permitted:
  assumes "program_ok h" and "hu_hula_exec_run h x = Ret y"
  shows "\<exists>new. hx_calls y = hx_calls x @ new \<and> (\<forall>(i, args) \<in> set new.
     i < length (hp_nodes (he_program h)) \<and>
     hn_op (hp_nodes (he_program h) ! i) = HU_HULA_CALL \<and>
     (\<exists>t \<in> set (he_tools h). tl_name t = hn_tool_name (hp_nodes (he_program h) ! i)) \<and>
     hu_policy_hula_capability_allowed (hx_policy x) (hn_required_capability (hp_nodes (he_program h) ! i)) \<and>
     (\<exists>w. host_steps h (hx_world x) w \<and> host_steps h w (hx_world y) \<and>
        \<not> snd (hu_policy_is_rate_limited (fst (he_time h w)) (hx_policy x))) \<and>
     (\<forall>p. hx_policy x = Some p \<longrightarrow> sp_autonomy p \<noteq> HU_AUTONOMY_LOCKED \<and>
        (sp_block_high_risk_commands p \<longrightarrow> hu_tool_risk_level (hn_tool_name (hp_nodes (he_program h) ! i)) \<noteq> HU_RISK_HIGH)))"
proof -
  let ?R = "readings h (hx_world x) (hx_world y)"
  from exec_steps_calls [OF run_steps [OF assms]]
  obtain new where new: "hx_calls y = hx_calls x @ new"
    "\<forall>(i, args) \<in> set new. call_permitted h (readings h (hx_world (run_start h x)) (hx_world y)) (hx_policy x) i"
    by auto
  have "\<forall>(i, args) \<in> set new. call_permitted h ?R (hx_policy x) i"
    using new(2) call_permitted_mono [OF _ run_readings] by fastforce
  moreover have "\<exists>w. host_steps h (hx_world x) w \<and> host_steps h w (hx_world y) \<and>
      \<not> snd (hu_policy_is_rate_limited (fst (he_time h w)) (hx_policy x))" if "call_permitted h ?R (hx_policy x) i" for i
    using that by (auto simp: call_permitted_def readings_def Let_def)
  ultimately show ?thesis
    using new(1) by (intro exI [of _ new]) (fastforce simp: call_permitted_def policy_permits_def Let_def)
qed

lemma hula_calls_permitted_witness:
  "(\<exists>new. [(0, JObj [])] = [] @ new) \<and> hx_calls (sample_exec [one_call_node]) = [] \<and>
   (\<exists>t \<in> set (he_tools (sample_host [one_call_node])). tl_name t = hn_tool_name one_call_node)"
  using hula_calls_permitted [OF one_call_program_ok one_call_run]
  by (auto simp: sample_exec_def hu_hula_exec_init_def hu_hula_exec_set_budget_def sample_host_def)

text \<open>
  C3: a run with a tool-call budget makes at most that many tool calls, whatever loops, retries and
  branches the program has; the counter shows how many were made.
\<close>

theorem hula_tool_budget:
  assumes "program_ok h" and "hu_hula_exec_run h x = Ret y"
    and "hx_budget_enabled x" and "hx_budget_max_tool_calls x > 0"
  shows "length (hx_calls y) = length (hx_calls x) + hx_budget_tool_calls_used y \<and>
    hx_budget_tool_calls_used y \<le> hx_budget_max_tool_calls x"
proof -
  from exec_steps_calls [OF run_steps [OF assms(1,2)]]
  obtain new where "hx_calls y = hx_calls x @ new" "hx_budget_tool_calls_used y = length new"
    "hx_budget_tool_calls_used y \<le> hx_budget_max_tool_calls x"
    using assms(3,4) by auto
  then show ?thesis by simp
qed

lemma hula_tool_budget_witness:
  "\<exists>y. hu_hula_exec_run (sample_host [one_call_node]) (sample_exec [one_call_node]) = Ret y \<and>
     length (hx_calls y) = 1 \<and> hx_budget_tool_calls_used y \<le> 2"
  using hula_tool_budget [OF one_call_program_ok one_call_run] one_call_run
  by (auto simp: sample_exec_def hu_hula_exec_init_def hu_hula_exec_set_budget_def)

end
