(* ===== verification/HuHulaSafe.thy ===== *)
theory HuHulaSafe
  imports HuHulaSteps
begin

text \<open>
  When a run of \<^verbatim>\<open>src/agent/hula.c\<close> has no undefined behaviour, and what goes wrong when the
  conditions for that do not hold.

  The executor trusts the lengths it is given: \<^verbatim>\<open>set_result\<close> copies a text up to its first NUL byte
  and keeps the length it was passed, and \<^verbatim>\<open>hula_expand_dollar_refs\<close> later copies that many bytes.  The
  invariant \<open>lens_ok\<close> says that every length kept is the length of its text; it is kept if whatever
  comes from outside (tools, gate, pool, cancel reasons) is text of its stated length, which \<open>host_ok\<close>
  asks for, together with two conditions on the program.
\<close>

section \<open>Lengths\<close>

definition len_ok :: "string option \<Rightarrow> nat \<Rightarrow> bool" where
  "len_ok s n \<longleftrightarrow> (case s of None \<Rightarrow> True | Some t \<Rightarrow> n \<le> length t \<and> no_nul (take n t))"

lemma len_ok_simps [simp]: "len_ok None n" "len_ok (Some t) n \<longleftrightarrow> n \<le> length t \<and> no_nul (take n t)"
  by (simp_all add: len_ok_def)

lemma len_ok_dup: "len_ok s n \<Longrightarrow> len_ok (dup_if s n) n"
  by (cases s) (auto simp: dup_if_def hu_strndup_def)

lemma len_ok_lit: "no_nul s \<Longrightarrow> len_ok (Some s) (length s)"
  by simp

definition result_len_ok :: "hula_result \<Rightarrow> bool" where
  "result_len_ok r \<longleftrightarrow> len_ok (hr_output r) (hr_output_len r) \<and> len_ok (hr_error r) (hr_error_len r)"

definition registry_ok :: "idem_registry \<Rightarrow> bool" where
  "registry_ok reg \<longleftrightarrow> idem_ok reg \<and> (\<forall>b \<in> set (ir_buckets reg). \<forall>e \<in> set b. no_nul (ie_result_json e))"

definition halt_ok :: "string option \<Rightarrow> nat \<Rightarrow> bool" where
  "halt_ok s n \<longleftrightarrow> (case s of None \<Rightarrow> n = 0 | Some t \<Rightarrow> no_nul t \<and> n \<le> length t)"

definition lens_ok :: "'w hula_exec \<Rightarrow> bool" where
  "lens_ok x \<longleftrightarrow> (\<forall>r \<in> set (hx_results x). result_len_ok r) \<and>
     (\<forall>sl \<in> set (hx_slots x). len_ok (Some (hs_value sl)) (hs_value_len sl)) \<and>
     (\<forall>reg. hx_registry x = Some reg \<longrightarrow> registry_ok reg) \<and>
     halt_ok (hx_halt_reason x) (hx_halt_reason_len x)"

text \<open>What the run relies on of the host and of the program.\<close>

definition tools_ok :: "'w hula_host \<Rightarrow> bool" where
  "tools_ok h \<longleftrightarrow>
     (\<forall>t \<in> set (he_tools h). \<forall>args w err tr c w'. tl_execute t args w = (err, tr, c, w') \<longrightarrow>
        len_ok (tr_output tr) (tr_output_len tr) \<and> len_ok (tr_error_msg tr) (tr_error_msg_len tr) \<and>
        (\<forall>s. c = Some (Some s) \<longrightarrow> no_nul s)) \<and>
     (\<forall>f ev w s w'. he_observer h = Some f \<longrightarrow> f ev w = (Some (Some s), w') \<longrightarrow> no_nul s) \<and>
     (\<forall>a name args w al gr w'. he_security_agent h = Some a \<longrightarrow> sa_gate a name args w = (al, gr, w') \<longrightarrow>
        len_ok (tr_error_msg gr) (tr_error_msg_len gr)) \<and>
     (\<forall>pool ag w s w'. he_pool h = Some pool \<longrightarrow> ap_result pool ag w = (Some s, w') \<longrightarrow> no_nul s)"

text \<open>The arguments of a call in a nested plan are parsed and written again.\<close>

definition nested_fits :: "hula_node \<Rightarrow> bool" where
  "nested_fits c \<longleftrightarrow> (hn_op c = HU_HULA_CALL \<longrightarrow> (\<forall>v. hu_json_parse (call_args c) = Ret v \<longrightarrow> json_fits v))"

definition nodes_ok :: "hula_node list \<Rightarrow> bool" where
  "nodes_ok ns \<longleftrightarrow>
     (\<forall>n \<in> set ns. (\<forall>s. hn_goal n = Some s \<longrightarrow> no_nul s) \<and> (\<forall>s. hn_emit_value n = Some s \<longrightarrow> no_nul s) \<and>
        (hn_op n = HU_HULA_CALL \<longrightarrow> hn_tool_name n \<noteq> None) \<and>
        (hn_op n = HU_HULA_DELEGATE \<longrightarrow> (\<forall>c \<in> set (hn_children n). nested_fits (ns ! c)))) \<and>
     (\<forall>i < length ns. \<forall>s. hn_op (ns ! i) = HU_HULA_EMIT \<longrightarrow> hn_emit_value (ns ! i) = Some s \<longrightarrow> emit_ref ns 0 s \<noteq> Some i)"

definition host_ok :: "'w hula_host \<Rightarrow> bool" where
  "host_ok h \<longleftrightarrow> tools_ok h \<and> nodes_ok (hp_nodes (he_program h))"

text \<open>The parts of \<open>host_ok\<close>, one at a time.\<close>

lemma host_tool_ok:
  assumes "host_ok h" and "t \<in> set (he_tools h)" and "tl_execute t args w = (err, tr, c, w')"
  shows "len_ok (tr_output tr) (tr_output_len tr)" "len_ok (tr_error_msg tr) (tr_error_msg_len tr)"
    "c = Some (Some s) \<Longrightarrow> no_nul s"
proof -
  from assms(1) have "\<forall>t \<in> set (he_tools h). \<forall>args w err tr c w'. tl_execute t args w = (err, tr, c, w') \<longrightarrow>
        len_ok (tr_output tr) (tr_output_len tr) \<and> len_ok (tr_error_msg tr) (tr_error_msg_len tr) \<and>
        (\<forall>s. c = Some (Some s) \<longrightarrow> no_nul s)"
    unfolding host_ok_def tools_ok_def by (elim conjE)
  note this [THEN bspec, OF assms(2), rule_format, OF assms(3)]
  then show "len_ok (tr_output tr) (tr_output_len tr)" "len_ok (tr_error_msg tr) (tr_error_msg_len tr)"
    "c = Some (Some s) \<Longrightarrow> no_nul s" by simp_all
qed

lemma host_observer_ok:
  "host_ok h \<Longrightarrow> he_observer h = Some f \<Longrightarrow> f ev w = (Some (Some s), w') \<Longrightarrow> no_nul s"
  unfolding host_ok_def tools_ok_def by blast

lemma host_gate_ok:
  "host_ok h \<Longrightarrow> he_security_agent h = Some a \<Longrightarrow> sa_gate a name args w = (al, gr, w') \<Longrightarrow>
     len_ok (tr_error_msg gr) (tr_error_msg_len gr)"
  unfolding host_ok_def tools_ok_def by blast

lemma host_pool_ok:
  "host_ok h \<Longrightarrow> he_pool h = Some pool \<Longrightarrow> ap_result pool ag w = (Some s, w') \<Longrightarrow> no_nul s"
  unfolding host_ok_def tools_ok_def by blast

section \<open>References stay inside their texts\<close>

lemma result_by_id_mem: "result_by_id ns rs ident = Some r \<Longrightarrow> r \<in> set rs"
  by (induction ns rs ident rule: result_by_id.induct) (auto split: if_splits)

lemma find_ref_len:
  assumes "lens_ok x" and "find_ref h x s = Ret (n, rep, m)"
  shows "m \<le> length rep"
proof -
  have "len_ok (Some rep) m"
    using assms
    by (auto simp: find_ref_def Let_def lens_ok_def result_len_ok_def hu_hula_exec_result_def
        dest!: result_by_id_mem split: if_splits option.splits simp: find_Some_iff)
  then show ?thesis by simp
qed

lemma expand_loop_no_ub: "lens_ok x \<Longrightarrow> expand_loop h x acc s \<noteq> Undef u"
proof (induction h x acc s rule: expand_loop.induct)
  case (2 h x acc c s)
  show ?case
  proof (cases "c = CHR ''$'' \<and> s \<noteq> [] \<and> hd s \<noteq> CHR ''$'' \<and> hula_id_char_start (hd s)")
    case True
    have "find_ref h x s \<noteq> Undef u" by (auto simp: find_ref_def Let_def split: option.split)
    moreover have "copy_bytes rep m \<noteq> Undef u" if "find_ref h x s = Ret (n, rep, m)" for n rep m
      using find_ref_len [OF 2(4) that] by (simp add: copy_bytes_def)
    ultimately show ?thesis using True 2(2,4)
      by (auto simp: outcome_simps split: if_splits)
  next
    case False
    then show ?thesis using 2(1,3,4) by auto
  qed
qed simp

lemma substitute_no_ub:
  "lens_ok x \<Longrightarrow> hula_substitute_json_strings h x v \<noteq> Undef u"
  "lens_ok x \<Longrightarrow> substitute_items h x vs \<noteq> Undef u"
  "lens_ok x \<Longrightarrow> substitute_pairs h x ps \<noteq> Undef u"
proof (induction h x v and h x vs and h x ps
    rule: hula_substitute_json_strings_substitute_items_substitute_pairs.induct)
  case (1 h x s)
  then show ?case by (simp add: hula_expand_dollar_refs_def outcome_simps expand_loop_no_ub)
qed (auto simp: outcome_simps)

lemma json_new_object_fits: "\<forall>p \<in> set kvs. json_fits (snd p) \<Longrightarrow> json_fits (json_new_object kvs)"
proof -
  have put: "(\<forall>p \<in> set ps. json_fits (snd p)) \<Longrightarrow> json_fits v \<Longrightarrow> \<forall>p \<in> set (set_pair ps k v). json_fits (snd p)"
    for ps :: "(string \<times> json) list" and k v
  proof (induction ps)
    case (Cons p ps)
    then show ?case by (cases p) simp
  qed simp
  have "(\<forall>p \<in> set ps. json_fits (snd p)) \<Longrightarrow> (\<forall>p \<in> set kvs. json_fits (snd p)) \<Longrightarrow>
      \<forall>p \<in> set (foldl (\<lambda>ps (k, v). set_pair ps k v) ps kvs). json_fits (snd p)" for ps
  proof (induction kvs arbitrary: ps)
    case (Cons q kvs)
    obtain k v where q: "q = (k, v)" by (cases q)
    have "\<forall>p \<in> set (set_pair ps k v). json_fits (snd p)" using Cons.prems q by (intro put) auto
    moreover have "\<forall>p \<in> set kvs. json_fits (snd p)" using Cons.prems(2) by simp
    ultimately show ?case unfolding q foldl_Cons prod.case by (rule Cons.IH)
  qed simp
  from this [of "[]"] show "\<forall>p \<in> set kvs. json_fits (snd p) \<Longrightarrow> json_fits (json_new_object kvs)"
    by (simp add: json_new_object_def)
qed

lemma embed_calls_fit:
  "\<forall>c \<in> set cs. nested_fits c \<and> length (call_args c) < 2 ^ 61 \<Longrightarrow>
     (embed_calls cs \<noteq> Undef u) \<and> (\<forall>vs. embed_calls cs = Ret vs \<longrightarrow> (\<forall>v \<in> set vs. json_fits v))"
proof (induction cs)
  case (Cons c cs)
  have fit: "json_fits (json_new_object ([(''op'', JStr ''call'')] @ (case hn_id c of None \<Rightarrow> [] | Some s \<Rightarrow> [(''id'', JStr s)]) @
      (case hn_tool_name c of None \<Rightarrow> [] | Some s \<Rightarrow> [(''tool'', JStr s)]) @ [(''args'', args)]))" if "json_fits args" for args
    by (rule json_new_object_fits) (use that in \<open>auto split: option.split\<close>)
  have "embed_call c \<noteq> Undef u \<and> (\<forall>v. embed_call c = Ret v \<longrightarrow> json_fits v)" if "hn_op c = HU_HULA_CALL"
  proof (cases "hu_json_parse (call_args c)")
    case (Ret v)
    then have "json_fits v" using Cons.prems that by (simp add: nested_fits_def)
    then show ?thesis using fit [of v] by (simp add: embed_call_def Ret)
  next
    case (Err e)
    then show ?thesis using fit [of "JObj []"] by (simp add: embed_call_def)
  qed (use json_parse_cases [of "call_args c"] Cons.prems in auto)
  with Cons show ?case by (auto simp: outcome_simps)
qed simp

lemma embed_no_ub:
  assumes "\<forall>c \<in> set (hn_children n). nested_fits (ns ! c) \<and> length (call_args (ns ! c)) < 2 ^ 61"
  shows "delegate_embed_children_json ns n \<noteq> Undef u"
proof -
  let ?cs = "map ((!) ns) (hn_children n)"
  have cs: "embed_calls ?cs \<noteq> Undef u" "embed_calls ?cs = Ret vs \<Longrightarrow> \<forall>v \<in> set vs. json_fits v" for vs
    using embed_calls_fit [of ?cs] assms by auto
  have one: "json_fits (JNum dbl_one)" using dbl_to_u32_one by (simp add: dbl_to_u32_def dbl_fits_llong_def split: if_splits)
  have str: "hu_json_stringify v \<noteq> Undef u" if "json_fits v" for v
    using hu_json_stringify_fits [of v] that by auto
  have "hu_json_stringify (json_new_object
          [(''name'', JStr ''delegate_embed''), (''version'', JNum dbl_one),
           (''root'', json_new_object
              [(''op'', JStr ''seq''), (''id'', JStr ''inner''), (''children'', JArr vs)])]) \<noteq> Undef u"
    if "embed_calls ?cs = Ret vs" for vs
    using cs(2) [OF that] one by (intro str json_new_object_fits) (auto intro!: json_new_object_fits simp del: json_fits.simps(3))
  with cs(1) show ?thesis by (auto simp: delegate_embed_children_json_def outcome_simps)
qed

lemma len_ok_cut: "len_ok (Some ''verify: missing node_id'') 22"
  by (simp add: no_nul_def)

section \<open>The invariant survives every step\<close>

lemma lens_ok_updates [simp]:
  "lens_ok (x\<lparr>hx_world := w\<rparr>) = lens_ok x" "lens_ok (x\<lparr>hx_trace_log := t\<rparr>) = lens_ok x"
  "lens_ok (x\<lparr>hx_policy := p\<rparr>) = lens_ok x" "lens_ok (count_call i args x) = lens_ok x"
  by (simp_all add: lens_ok_def count_call_def)

lemma lens_ok_results:
  "lens_ok x \<Longrightarrow> result_len_ok r \<Longrightarrow> lens_ok (x\<lparr>hx_results := (hx_results x)[i := r]\<rparr>)"
  by (auto simp: lens_ok_def dest!: set_update_subset_insert [THEN subsetD])

lemma result_zero_ok: "result_len_ok result_zero"
  by (simp add: result_len_ok_def result_zero_def)

lemma lens_ok_running: "lens_ok x \<Longrightarrow> lens_ok (set_running i x)"
proof (cases "i < length (hx_results x)")
  case True
  assume ok: "lens_ok x"
  with True have "result_len_ok (hx_results x ! i)" by (simp add: lens_ok_def)
  then have "result_len_ok ((hx_results x ! i)\<lparr>hr_status := HU_HULA_RUNNING\<rparr>)" by (simp add: result_len_ok_def)
  with ok show ?thesis by (simp add: set_running_def lens_ok_results)
qed (simp add: set_running_def list_update_beyond lens_ok_def)

lemma slot_value_ok: "len_ok (Some v) n \<Longrightarrow> len_ok (Some (slot_value v n)) n"
  by (auto simp: slot_value_def hu_strndup_def)

lemma update_slot_ok:
  "update_slot ss k v n = Some ts \<Longrightarrow> len_ok (Some v) n \<Longrightarrow>
     (\<forall>sl \<in> set ss. len_ok (Some (hs_value sl)) (hs_value_len sl)) \<Longrightarrow>
     (\<forall>sl \<in> set ts. len_ok (Some (hs_value sl)) (hs_value_len sl))"
proof (induction ss arbitrary: ts)
  case (Cons s ss)
  then show ?case using slot_value_ok [of v n] by (auto simp del: len_ok_simps split: if_splits)
qed simp

lemma lens_ok_slot: "lens_ok x \<Longrightarrow> len_ok (Some v) n \<Longrightarrow> lens_ok (hula_slot_set k v n x)"
  using slot_value_ok [of v n]
  by (auto simp: lens_ok_def hula_slot_set_def simp del: len_ok_simps dest: update_slot_ok split: option.split)

lemma lens_ok_cancel:
  assumes "lens_ok x" and "len_ok r n"
  shows "lens_ok (hu_hula_exec_cancel r n x)"
  using assms
  by (auto simp: hu_hula_exec_cancel_def lens_ok_def halt_ok_def Let_def hu_strndup_def split: option.split)

lemma registry_ok_check:
  assumes "registry_ok reg" and "hu_idempotency_check now reg a b = (reg', hit)"
  shows "registry_ok reg'" and "hit = Some e \<Longrightarrow> no_nul (ie_result_json e)"
proof -
  have same: "ir_buckets reg' = ir_buckets reg" "ir_total_entries reg' = ir_total_entries reg"
    using assms(2) by (auto simp: hu_idempotency_check_def Let_def split: if_splits option.splits)
  with assms(1) show "registry_ok reg'" by (simp add: registry_ok_def idem_ok_def)
  assume "hit = Some e"
  with assms(2) obtain key where "bucket_find (ir_buckets reg ! bucket_idx reg key) key = Some e"
    by (auto simp: hu_idempotency_check_def Let_def split: if_splits option.splits)
  then have "e \<in> set (ir_buckets reg ! bucket_idx reg key)"
    by (auto simp: bucket_find_def find_Some_iff)
  moreover have "ir_buckets reg ! bucket_idx reg key \<in> set (ir_buckets reg)"
    using bucket_idx_less [of reg key] assms(1) by (simp add: registry_ok_def)
  ultimately show "no_nul (ie_result_json e)" using assms(1) by (auto simp: registry_ok_def)
qed

lemma update_entry_results:
  "e \<in> set (update_entry es key res ie now) \<Longrightarrow> ie_result_json e = res \<or> e \<in> set es"
  by (induction es) (auto split: if_splits)

lemma registry_ok_record:
  assumes ok: "registry_ok reg" and "no_nul s"
  shows "registry_ok (hu_idempotency_record now reg a b s ie)"
proof -
  let ?r = "hu_idempotency_record now reg a b s ie"
  let ?key = "hu_idempotency_key_generate a (Some b)"
  let ?i = "bucket_idx reg ?key"
  have i: "?i < length (ir_buckets reg)" using ok bucket_idx_less by (simp add: registry_ok_def)
  have "ie_result_json e = s \<or> e \<in> set (ir_buckets reg ! ?i)"
    if "e \<in> set (ir_buckets ?r ! ?i)" for e
    using that i update_entry_results [of e]
    by (auto simp: hu_idempotency_record_def Let_def split: if_splits dest: remove_idx_sub [THEN subsetD])
  moreover have "ir_buckets ?r = (ir_buckets reg)[?i := ir_buckets ?r ! ?i]"
    using i by (auto simp: hu_idempotency_record_def Let_def)
  ultimately have "\<forall>bk \<in> set (ir_buckets ?r). \<forall>e \<in> set bk. ie_result_json e = s \<or> (\<exists>bk \<in> set (ir_buckets reg). e \<in> set bk)"
    using i by (metis in_set_conv_nth length_list_update nth_list_update_neq nth_mem)
  with ok assms(2) idem_ok_record [of reg now a b s ie] show ?thesis
    unfolding registry_ok_def by (metis (no_types, lifting))
qed

definition safe_inv :: "'w hula_host \<Rightarrow> 'w hula_exec \<Rightarrow> bool" where
  "safe_inv h x \<longleftrightarrow> wf_from 0 (hp_nodes (he_program h)) \<and> args_short h \<and> (host_ok h \<longrightarrow> lens_ok x)"

lemma lens_ok_result_for:
  "lens_ok x \<Longrightarrow> result_for x i = Some r \<Longrightarrow>
     len_ok (hr_output r) (hr_output_len r) \<and> len_ok (hr_error r) (hr_error_len r)"
  by (auto simp: lens_ok_def result_len_ok_def result_for_def simp del: len_ok_simps split: if_splits)

lemma lens_ok_halt:
  "lens_ok x \<Longrightarrow> len_ok (Some (case hx_halt_reason x of None \<Rightarrow> ''cancelled'' | Some s \<Rightarrow> s))
      (if hx_halt_reason_len x > 0 then hx_halt_reason_len x
       else length (case hx_halt_reason x of None \<Rightarrow> ''cancelled'' | Some s \<Rightarrow> s))"
  by (auto simp: lens_ok_def halt_ok_def no_nul_def dest: in_set_takeD split: option.splits)

lemma lens_ok_set_result:
  "lens_ok x \<Longrightarrow> len_ok out n \<Longrightarrow> len_ok er m \<Longrightarrow> lens_ok (set_result i st out n er m x)"
  unfolding set_result_def by (rule lens_ok_results) (simp_all add: result_len_ok_def len_ok_dup)

lemma safe_inv_frame:
  "safe_inv h x \<Longrightarrow> (lens_ok x \<Longrightarrow> lens_ok y) \<Longrightarrow> safe_inv h y"
  by (simp add: safe_inv_def)

lemma registry_ok_of: "lens_ok x \<Longrightarrow> hx_registry x = Some reg \<Longrightarrow> registry_ok reg"
  by (simp add: lens_ok_def)

lemma lens_ok_registry: "lens_ok x \<Longrightarrow> registry_ok reg \<Longrightarrow> lens_ok (x\<lparr>hx_registry := Some reg\<rparr>)"
  by (simp add: lens_ok_def)

interpretation safe: exec_logic h "safe_inv h" "\<lambda>s n. host_ok h \<longrightarrow> len_ok s n" "\<lambda>_. \<not> host_ok h"
  for h :: "'w hula_host"
proof
  fix x :: "'w hula_exec" and out er :: "string option" and n m i st
  assume x: "safe_inv h x"
  show "wf_from 0 (hp_nodes (he_program h))" using x by (simp add: safe_inv_def)
  show "safe_inv h (set_result i st out n er m x)"
    if "host_ok h \<longrightarrow> len_ok out n" "host_ok h \<longrightarrow> len_ok er m"
    using x that by (auto simp: safe_inv_def lens_ok_set_result simp del: len_ok_simps)
next
  fix x :: "'w hula_exec" and r n
  assume "safe_inv h x" "host_ok h \<longrightarrow> len_ok r n"
  then show "safe_inv h (hu_hula_exec_cancel r n x)" by (simp add: safe_inv_def lens_ok_cancel)
next
  fix x :: "'w hula_exec" and v n k
  assume "safe_inv h x" "host_ok h \<longrightarrow> len_ok (Some v) n"
  then show "safe_inv h (hula_slot_set k v n x)" by (simp add: safe_inv_def lens_ok_slot del: len_ok_simps)
next
  fix x :: "'w hula_exec" and reg reg' now na ar hit
  assume x: "safe_inv h x" and r: "hx_registry x = Some reg" and c: "hu_idempotency_check now reg na ar = (reg', hit)"
  show "safe_inv h (x\<lparr>hx_registry := Some reg'\<rparr>) \<and>
      (\<forall>e. hit = Some e \<longrightarrow> host_ok h \<longrightarrow> len_ok (Some (ie_result_json e)) (length (ie_result_json e)))"
    using x registry_ok_of [OF _ r] registry_ok_check [OF _ c]
    by (auto simp: safe_inv_def intro!: lens_ok_registry)
next
  fix x :: "'w hula_exec" and reg now na ar s ise
  assume x: "safe_inv h x" and r: "hx_registry x = Some reg" and s: "no_nul s"
  from x show "safe_inv h (x\<lparr>hx_registry := Some (hu_idempotency_record now reg na ar s ise)\<rparr>)"
    by (rule safe_inv_frame) (intro lens_ok_registry registry_ok_record registry_ok_of [OF _ r] s)
next
  fix x :: "'w hula_exec" and jv u
  assume "safe_inv h x" "hula_substitute_json_strings h x jv = Undef u"
  then show "\<not> host_ok h" using substitute_no_ub(1) by (auto simp: safe_inv_def)
next
  fix t :: "'w hula_tool" and jargs w err tr c w'
  assume t: "t \<in> set (he_tools h)" "tl_execute t jargs w = (err, tr, c, w')"
  show "(host_ok h \<longrightarrow> len_ok (tr_output tr) (tr_output_len tr)) \<and>
      (host_ok h \<longrightarrow> len_ok (tr_error_msg tr) (tr_error_msg_len tr)) \<and>
      (\<forall>s. c = Some (Some s) \<longrightarrow> host_ok h \<longrightarrow> len_ok (Some s) (length s))"
    using host_tool_ok [OF _ t] by (blast intro: len_ok_lit)
next
  fix f ev and w :: 'w and s w'
  assume "he_observer h = Some f" "f ev w = (Some (Some s), w')"
  then show "host_ok h \<longrightarrow> len_ok (Some s) (length s)" by (blast intro: len_ok_lit host_observer_ok)
next
  fix a name' args' and w :: 'w and al gr w'
  assume "he_security_agent h = Some a" "sa_gate a name' args' w = (al, gr, w')"
  then show "host_ok h \<longrightarrow> len_ok (tr_error_msg gr) (tr_error_msg_len gr)" by (blast intro: host_gate_ok)
next
  fix pool ag and w :: 'w and s w'
  assume "he_pool h = Some pool" "ap_result pool ag w = (Some s, w')"
  then show "host_ok h \<longrightarrow> len_ok (Some s) (length s)" by (blast intro: len_ok_lit host_pool_ok)
next
  fix x :: "'w hula_exec" and i u
  let ?ns = "hp_nodes (he_program h)"
  assume x: "safe_inv h x" and i: "i < length ?ns" "hn_op (?ns ! i) = HU_HULA_DELEGATE"
    and ub: "delegate_embed_children_json ?ns (?ns ! i) = Undef u"
  show "\<not> host_ok h"
  proof
    assume "host_ok h"
    then have "\<forall>c \<in> set (hn_children (?ns ! i)). nested_fits (?ns ! c)"
      using i unfolding host_ok_def nodes_ok_def by (metis nth_mem)
    moreover have "\<forall>c \<in> set (hn_children (?ns ! i)). length (call_args (?ns ! c)) < 2 ^ 61"
      using x i(1) unfolding safe_inv_def wf_from_def args_short_def by (metis le0 nth_mem)
    ultimately show False using embed_no_ub ub by blast
  qed
next
  fix i s
  assume "i < length (hp_nodes (he_program h))" "hn_op (hp_nodes (he_program h) ! i) = HU_HULA_EMIT"
    "hn_emit_value (hp_nodes (he_program h) ! i) = Some s" "emit_ref (hp_nodes (he_program h)) 0 s = Some i"
  then show "\<not> host_ok h" unfolding host_ok_def nodes_ok_def by blast
qed (auto simp: safe_inv_def args_short_def host_ok_def nodes_ok_def lens_ok_result_for lens_ok_halt
    hula_result_reset_def result_zero_ok lens_ok_results lens_ok_running
    len_ok_cut simp del: len_ok_simps simp: len_ok_simps(1) intro!: len_ok_lit)

section \<open>Properties\<close>

lemma lens_ok_run_start [simp]: "lens_ok (run_start h x) = lens_ok x"
  by (simp add: lens_ok_def)

lemma run_safe:
  assumes "program_ok h" and "host_ok h" and "lens_ok x"
  shows "\<exists>y. hu_hula_exec_run h x = Ret y \<and> lens_ok y"
proof -
  obtain r where r: "hp_root (he_program h) = Some r" "r < length (hp_nodes (he_program h))"
    using assms(1) by (auto simp: program_ok_def)
  have "safe_inv h (run_start h x)" using assms by (simp add: safe_inv_def program_ok_def)
  with safe.exec_run_ends [OF r, of x, unfolded safe.ends_def safe.goes_def] assms(2) show ?thesis
    by (auto simp: safe_inv_def split: outcome.splits)
qed

text \<open>
  C4: a run has no undefined behaviour and ends without an error code, if the program is well formed with no argument
  text of \<open>2 ^ 61\<close> bytes (\<open>program_ok\<close>); its CALL nodes name a tool, no EMIT node refers to itself, goals and emitted
  values hold no NUL byte, and the arguments of the calls below a DELEGATE node hold no number outside the range of
  \<^verbatim>\<open>long long\<close>; tools, gate, observer and pool hand over texts as long as they say and without NUL bytes
  (\<open>host_ok\<close>); and the results, slots, recorded results and halt reason it starts with are as long as stated
  (\<open>lens_ok\<close>).
  The lengths kept beside results and slots are again those of their texts.
\<close>

theorem hula_run_safe:
  assumes "program_ok h" and "host_ok h" and "lens_ok x"
  shows "\<exists>y. hu_hula_exec_run h x = Ret y \<and>
    (\<forall>r \<in> set (hx_results y). \<forall>t. hr_output r = Some t \<longrightarrow> hr_output_len r \<le> length t) \<and>
    (\<forall>sl \<in> set (hx_slots y). hs_value_len sl \<le> length (hs_value sl))"
proof -
  from run_safe [OF assms] obtain y where "hu_hula_exec_run h x = Ret y" "lens_ok y" by blast
  then show ?thesis by (auto simp: lens_ok_def result_len_ok_def)
qed

lemma one_call_host_ok: "host_ok (sample_host [one_call_node])"
  by (auto simp: host_ok_def tools_ok_def nodes_ok_def sample_host_def ok_tool_def no_nul_def one_call_node_def
      empty_node_def)

lemma sample_lens_ok: "lens_ok (sample_exec ns)"
  by (auto simp: lens_ok_def sample_exec_def hu_hula_exec_init_def hu_hula_exec_set_budget_def halt_ok_def
      result_zero_ok sample_host_def)

lemma hula_run_safe_witness:
  "\<exists>y. hu_hula_exec_run (sample_host [one_call_node]) (sample_exec [one_call_node]) = Ret y \<and>
     (\<forall>r \<in> set (hx_results y). \<forall>t. hr_output r = Some t \<longrightarrow> hr_output_len r \<le> length t)"
  using hula_run_safe [OF one_call_program_ok one_call_host_ok sample_lens_ok] by blast


section \<open>Where the conditions do not hold\<close>

text \<open>An EMIT node that refers to itself, in a sequence that a loop runs twice.\<close>

definition emit_loop_nodes :: "hula_node list" where
  "emit_loop_nodes =
     [(empty_node HU_HULA_LOOP (Some ''l''))\<lparr>hn_children := [1], hn_max_iter := 2, hn_pred := HU_HULA_PRED_ALWAYS\<rparr>,
      (empty_node HU_HULA_SEQ (Some ''s''))\<lparr>hn_children := [2]\<rparr>,
      (empty_node HU_HULA_EMIT (Some ''e''))\<lparr>hn_emit_key := Some ''k'', hn_emit_value := Some ''$e''\<rparr>]"

text \<open>
  Emitting one's own earlier output uses freed memory.  \<^verbatim>\<open>exec_emit\<close> passes the output of
  the node it finds to \<^verbatim>\<open>set_result\<close>, which frees the old output before it copies the new one; when
  the node found is the emitting node, in the second run of a loop body, they are the same.
\<close>

theorem hula_emit_self_uaf:
  "hu_hula_exec_run (sample_host emit_loop_nodes) (sample_exec emit_loop_nodes) = Undef UseAfterFree"
  by (simp add: Let_def hula_run_eval sample_host_def sample_exec_def emit_loop_nodes_def ref_var_def c_contains_def
      dup_if_def hu_strndup_def cstr_def hula_slot_set_def slot_value_def numeral_2_eq_2 eval_pred_def starts_with_def
      HU_HULA_MAX_SLOTS_def)

text \<open>A tool that answers with a NUL byte in its text: \<^verbatim>\<open>ok\<close>, a NUL, and three more bytes.\<close>

definition nul_tool :: "unit hula_tool" where
  "nul_tool = \<lparr>tl_name = Some ''t'', tl_execute = (\<lambda>args w. (HU_OK, \<lparr>tr_success = True, tr_output = Some ''ok'',
     tr_output_len = 6, tr_error_msg = None, tr_error_msg_len = 0\<rparr>, None, w))\<rparr>"

definition ref_args :: string where
  "ref_args = ''{'' @ [DQUOTE] @ ''x'' @ [DQUOTE] @ '':'' @ [DQUOTE] @ ''$a'' @ [DQUOTE] @ ''}''"

definition ref_nodes :: "hula_node list" where
  "ref_nodes =
     [(empty_node HU_HULA_SEQ (Some ''s''))\<lparr>hn_children := [1, 2]\<rparr>,
      (empty_node HU_HULA_CALL (Some ''a''))\<lparr>hn_tool_name := Some ''t''\<rparr>,
      (empty_node HU_HULA_CALL (Some ''b''))\<lparr>hn_tool_name := Some ''t'', hn_args_json := Some ref_args\<rparr>]"

lemma parse_ref_args: "hu_json_parse ref_args = Ret (JObj [(''x'', JStr ''$a'')])"
  by code_simp

lemma dollar_in_ref_args: "CHR ''$'' \<in> set ref_args" "CHR ''$'' \<notin> set ''{}''"
  by (simp_all add: ref_args_def)

lemma id_char_a: "hula_id_char_start (CHR ''a'')"
  by code_simp

lemmas ref_eval =
  hula_expand_dollar_refs_def find_ref_def hula_slot_key_longest_match_def hula_ref_longest_match_def
  longest_match_def name_matches_def hu_hula_exec_result_def map_filter_simps copy_bytes_def
  HU_HULA_REF_EXPAND_CAP_def id_char_a

text \<open>
  A reference to an output with a NUL byte in it reads past the copy of that output.
  \<^verbatim>\<open>set_result\<close> duplicates the text up to the NUL byte but keeps the length it was passed, and
  \<^verbatim>\<open>hula_expand_dollar_refs\<close> copies that many bytes out of the shorter copy.
\<close>

theorem hula_ref_over_read:
  "hu_hula_exec_run ((sample_host ref_nodes)\<lparr>he_tools := [nul_tool]\<rparr>) (sample_exec ref_nodes) = Undef OutOfBounds"
  by (simp add: Let_def hula_run_eval sample_host_def sample_exec_def nul_tool_def call_args_def ref_nodes_def
      parse_ref_args parse_empty_object dollar_in_ref_args cstr_def dup_if_def hu_strndup_def ref_eval)


section \<open>Cancellation and retries\<close>

text \<open>
  A run that is halted before it starts calls no tool and changes no slot, policy or registry; its
  only effect on the results is that the root is cancelled with the reason of the halt.
\<close>

theorem hula_halted_run:
  assumes "hp_root (he_program h) = Some r" and "he_observer h = None" and "hx_halted x"
  shows "\<exists>y. hu_hula_exec_run h x = Ret y \<and> hx_calls y = hx_calls x \<and> hx_slots y = hx_slots x \<and>
    hx_policy y = hx_policy x \<and> hx_registry y = hx_registry x \<and>
    hx_results y = hx_results (cancel_node r x)"
proof -
  have "node_body h nd d r z = Ret (if r < length (hx_results z) then trace_append h r (cancel_node r z) else z)"
    if "hx_halted z" for nd d z using that by (simp add: node_body_def)
  with assms show ?thesis
    by (auto simp: hu_hula_exec_run_def run_fuel_def hula_wall_ms_def Let_def cancel_node_def set_result_def trace_append_def
        list_update_beyond not_less split: prod.split option.split)
qed

text \<open>A tool that succeeds or fails as told and asks for the run to be cancelled.\<close>

definition cancelling_tool :: "bool \<Rightarrow> unit hula_tool" where
  "cancelling_tool ok = \<lparr>tl_name = Some ''t'', tl_execute = (\<lambda>args w. (HU_OK, \<lparr>tr_success = ok, tr_output = Some ''ok'',
     tr_output_len = 2, tr_error_msg = None, tr_error_msg_len = 0\<rparr>, Some (Some ''stop''), w))\<rparr>"

definition two_call_nodes :: "hula_node list" where
  "two_call_nodes =
     [(empty_node HU_HULA_SEQ (Some ''s''))\<lparr>hn_children := [1, 2]\<rparr>,
      (empty_node HU_HULA_CALL (Some ''a''))\<lparr>hn_tool_name := Some ''t''\<rparr>,
      (empty_node HU_HULA_CALL (Some ''b''))\<lparr>hn_tool_name := Some ''t''\<rparr>]"

text \<open>
  A sequence that is cancelled half way reports that it is done.  \<^verbatim>\<open>exec_seq\<close> looks for failed
  children only; the child after the cancellation is cancelled and never called, and the sequence, the
  root of the run, still ends with \<^verbatim>\<open>HU_HULA_DONE\<close>.
\<close>

theorem hula_cancelled_seq_done:
  "\<exists>y. hu_hula_exec_run ((sample_host two_call_nodes)\<lparr>he_tools := [cancelling_tool True]\<rparr>) (sample_exec two_call_nodes) = Ret y \<and>
     hx_halted y \<and> map fst (hx_calls y) = [1] \<and>
     map hr_status (hx_results y) = [HU_HULA_DONE, HU_HULA_DONE, HU_HULA_CANCELLED]"
  by (simp add: Let_def hula_run_eval sample_host_def sample_exec_def cancelling_tool_def call_args_def two_call_nodes_def
      parse_empty_object cstr_def dup_if_def hu_strndup_def)

definition retry_nodes :: "nat \<Rightarrow> hula_node list" where
  "retry_nodes r = [(empty_node HU_HULA_CALL (Some ''a''))\<lparr>hn_tool_name := Some ''t'', hn_retry_count := r\<rparr>]"

lemma max_attempts_2: "hn_retry_count n = Suc 0 \<Longrightarrow> max_attempts n = Suc (Suc 0)"
  by (simp add: max_attempts_def)

text \<open>
  A cancellation does not stop the retries of the node it arrives in: \<^verbatim>\<open>exec_node_depth\<close> looks at
  the halt flag before the first attempt only, so the tool that failed and asked for the halt is called again.
\<close>

theorem hula_cancel_keeps_retrying:
  "\<exists>y. hu_hula_exec_run ((sample_host (retry_nodes 1))\<lparr>he_tools := [cancelling_tool False]\<rparr>) (sample_exec (retry_nodes 1)) = Ret y \<and>
     hx_halted y \<and> map fst (hx_calls y) = [0, 0] \<and> map hr_status (hx_results y) = [HU_HULA_FAILED]"
  by (simp add: Let_def hula_run_eval sample_host_def sample_exec_def cancelling_tool_def call_args_def retry_nodes_def
      parse_empty_object cstr_def dup_if_def hu_strndup_def max_attempts_2 del: max_attempts_def)

text \<open>
  With the largest retry count the number of attempts \<^verbatim>\<open>1u + retry_count\<close> wraps to zero: the
  node is never dispatched, its tool is not called, and its result stays \<^verbatim>\<open>HU_HULA_RUNNING\<close>.
\<close>

theorem hula_retry_count_wraps:
  "\<exists>y. hu_hula_exec_run (sample_host (retry_nodes (2 ^ 32 - 1))) (sample_exec (retry_nodes (2 ^ 32 - 1))) = Ret y \<and>
     hx_calls y = [] \<and> map hr_status (hx_results y) = [HU_HULA_RUNNING]"
  by (simp add: Let_def hula_run_eval sample_host_def sample_exec_def retry_nodes_def)

lemma hula_halted_run_witness:
  "\<exists>y. hu_hula_exec_run (sample_host [one_call_node]) ((sample_exec [one_call_node])\<lparr>hx_halted := True\<rparr>) = Ret y \<and>
     hx_calls y = [] \<and> map hr_status (hx_results y) = [HU_HULA_CANCELLED]"
  using hula_halted_run [of "sample_host [one_call_node]" 0 "(sample_exec [one_call_node])\<lparr>hx_halted := True\<rparr>"]
  by (auto simp: sample_host_def sample_exec_def hu_hula_exec_init_def hu_hula_exec_set_budget_def cancel_node_def
      set_result_def)

section \<open>Slots\<close>

text \<open>The slot table: at most 64 slots, each with its own nonempty key.\<close>

definition slots_ok :: "hula_slot list \<Rightarrow> bool" where
  "slots_ok ss \<longleftrightarrow> length ss \<le> HU_HULA_MAX_SLOTS \<and> distinct (map hs_key ss) \<and> [] \<notin> set (map hs_key ss)"

lemma update_slot_keys:
  "(case update_slot ss key val n of None \<Rightarrow> key \<notin> set (map hs_key ss) | Some ts \<Rightarrow> map hs_key ts = map hs_key ss)"
  by (induction ss) (auto split: option.splits)

lemma slots_ok_keys: "map hs_key ts = map hs_key ss \<Longrightarrow> slots_ok ts = slots_ok ss"
  unfolding slots_ok_def by (metis length_map)

lemma slots_ok_set:
  assumes "slots_ok (hx_slots x)"
  shows "slots_ok (hx_slots (hula_slot_set k v n x))"
proof (cases "update_slot (hx_slots x) k v n")
  case None
  with assms update_slot_keys [where ss = "hx_slots x" and key = k and val = v and n = n] show ?thesis
    by (auto simp: hula_slot_set_def slots_ok_def)
next
  case (Some ts)
  with update_slot_keys [where ss = "hx_slots x" and key = k and val = v and n = n]
  have "slots_ok ts = slots_ok (hx_slots x)" by (intro slots_ok_keys) simp
  with assms Some show ?thesis by (simp add: hula_slot_set_def)
qed

lemma exec_step_slots: "exec_step h x y \<Longrightarrow> slots_ok (hx_slots x) \<Longrightarrow> slots_ok (hx_slots y)"
  by (induction rule: exec_step.induct) (simp_all add: slots_ok_set count_call_def)

lemma exec_steps_slots: "exec_steps h x y \<Longrightarrow> slots_ok (hx_slots x) \<Longrightarrow> slots_ok (hx_slots y)"
  by (induction rule: rtranclp_induct) (simp, rule exec_step_slots, simp_all)

text \<open>
  Every run keeps one result for every node, and its slot table within 64 slots with distinct,
  nonempty keys.
\<close>

theorem hula_run_tables:
  assumes "program_ok h" and "hu_hula_exec_run h x = Ret y"
    and "length (hx_results x) = length (hp_nodes (he_program h))" and "slots_ok (hx_slots x)"
  shows "length (hx_results y) = length (hp_nodes (he_program h)) \<and> slots_ok (hx_slots y)"
  using exec_steps_fixed [OF run_steps [OF assms(1,2)], THEN conjunct1] exec_steps_slots [OF run_steps [OF assms(1,2)]] assms(3,4)
  by simp

lemma hula_run_tables_witness:
  "\<exists>y. hu_hula_exec_run (sample_host [one_call_node]) (sample_exec [one_call_node]) = Ret y \<and> slots_ok (hx_slots y)"
  using hula_run_tables [OF one_call_program_ok one_call_run] one_call_run
  by (auto simp: sample_exec_def hu_hula_exec_init_def hu_hula_exec_set_budget_def sample_host_def slots_ok_def)

section \<open>From the text of a plan to its run\<close>

text \<open>What parsing makes of the texts of a node: no NUL byte, and arguments that were written from a value.\<close>

definition node_text_ok :: "hula_node \<Rightarrow> bool" where
  "node_text_ok n \<longleftrightarrow> (\<forall>s. hn_goal n = Some s \<longrightarrow> no_nul s) \<and> (\<forall>s. hn_emit_value n = Some s \<longrightarrow> no_nul s) \<and>
     (\<forall>s. hn_args_json n = Some s \<longrightarrow> (\<exists>a. s = render a \<and> json_ok 64 a \<and> json_fits a))"

definition texts_ok :: "hula_program \<Rightarrow> bool" where
  "texts_ok P \<longleftrightarrow> (\<forall>n \<in> set (hp_nodes P). node_text_ok n)"

definition pn_texts :: "(hula_program \<Rightarrow> json \<Rightarrow> (hula_program \<times> hptr option) outcome) \<Rightarrow> bool" where
  "pn_texts pn \<longleftrightarrow> (\<forall>P v Q r. pn P v = Ret (Q, r) \<longrightarrow> json_ok 64 v \<longrightarrow> texts_ok P \<longrightarrow> texts_ok Q)"

lemma json_ok_Suc: "json_ok n v \<Longrightarrow> json_ok (Suc n) v"
proof (induction n arbitrary: v)
  case 0
  then show ?case by (cases v) simp_all
next
  case (Suc n)
  then show ?case by (cases v) (simp_all add: json_ok_JArr json_ok_JObj)
qed

lemma json_ok_item: "json_ok 64 (JArr vs) \<Longrightarrow> v \<in> set vs \<Longrightarrow> json_ok 64 v"
  using json_ok_Suc [of 63 v] by (simp add: json_ok_JArr)

lemma json_ok_get: "json_ok 64 obj \<Longrightarrow> hu_json_object_get obj k = Some v \<Longrightarrow> json_ok 64 v"
proof -
  assume ok: "json_ok 64 obj" and g: "hu_json_object_get obj k = Some v"
  then obtain ps where ps: "obj = JObj ps" "get_pair ps k = Some v"
    by (cases obj) (auto simp: hu_json_object_get_def)
  have "get_pair ps k = Some v \<Longrightarrow> \<exists>p \<in> set ps. snd p = v" for ps :: "(string \<times> json) list"
    by (induction ps k rule: get_pair.induct) (auto split: if_splits)
  with ps ok show "json_ok 64 v" using json_ok_Suc [of 63 v] by (auto simp: json_ok_JObj)
qed

lemma add_child_texts: "add_child P p q = Ret Q \<Longrightarrow> texts_ok P \<Longrightarrow> texts_ok Q"
proof -
  assume "add_child P p q = Ret Q" and ok: "texts_ok P"
  then have p: "snd p < length (hp_nodes P)" and Q: "Q = P\<lparr>hp_nodes := (hp_nodes P)[snd p := (hp_nodes P ! snd p)
        \<lparr>hn_children := hn_children (hp_nodes P ! snd p) @ [snd q]\<rparr>]\<rparr>"
    by (auto simp: add_child_def outcome_simps node_read_Ret node_write_Ret split: if_splits)
  have "node_text_ok ((hp_nodes P ! snd p)\<lparr>hn_children := hn_children (hp_nodes P ! snd p) @ [snd q]\<rparr>)"
  proof -
    have "node_text_ok (hp_nodes P ! snd p)" using ok p by (simp add: texts_ok_def)
    then show ?thesis by (simp add: node_text_ok_def)
  qed
  with ok show "texts_ok Q" unfolding Q by (auto simp: texts_ok_def dest!: set_update_subset_insert [THEN subsetD])
qed

lemma parse_fields_texts:
  assumes "parse_fields v n = Ret n'" and "json_ok 64 v"
  shows "node_text_ok n'"
proof -
  obtain args where args: "parse_node_args (hu_json_object_get v ''args'') = Ret args" "hn_args_json n' = args"
    using assms(1) by (auto simp: parse_fields_def outcome_simps Let_def)
  have g: "hn_goal n' = hu_json_get_string v ''goal''" "hn_emit_value n' = hu_json_get_string v ''emit_value''"
    using assms(1) by (auto simp: parse_fields_def outcome_simps Let_def)
  have "\<exists>a. s = render a \<and> json_ok 64 a \<and> json_fits a" if s: "args = Some s" for s
  proof -
    obtain a where a: "hu_json_object_get v ''args'' = Some a" "hu_json_stringify a = Ret s"
      using args(1) s by (cases "hu_json_object_get v ''args''") (auto simp: parse_node_args_def outcome_simps on_error_Ret)
    note ok = json_ok_get [OF assms(2) a(1)]
    moreover have "s = render a" using hu_json_stringify_render(1) [OF ok] a(2) by blast
    moreover have "json_fits a" using hu_json_stringify_fits [of a] a(2) by simp
    ultimately show ?thesis by blast
  qed
  then show ?thesis
    by (auto simp: node_text_ok_def args(2) g hu_json_get_string_def split: option.splits json.splits)
qed

lemma parse_children_texts:
  "pn_texts pn \<Longrightarrow> parse_children pn P p vs = Ret Q \<Longrightarrow> \<forall>v \<in> set vs. json_ok 64 v \<Longrightarrow> texts_ok P \<Longrightarrow> texts_ok Q"
proof (induction vs arbitrary: P)
  case (Cons v vs)
  note pn = Cons.prems(1) [unfolded pn_texts_def, rule_format]
  show ?case
  proof (cases "length (hn_children (hp_nodes P ! snd p)) < HU_HULA_MAX_CHILDREN")
    case True
    with Cons.prems(2) obtain R c where R: "pn P v = Ret (R, c)"
      and rest: "(case c of None \<Rightarrow> parse_children pn R p vs
           | Some x \<Rightarrow> obind (add_child R p x) (\<lambda>prog. parse_children pn prog p vs)) = Ret Q"
      by (auto simp: outcome_simps node_read_Ret)
    have R_ok: "texts_ok R" using pn [OF R] Cons.prems(3,4) by simp
    show ?thesis
    proof (cases c)
      case None
      with rest R_ok Cons.IH [OF Cons.prems(1)] Cons.prems(3) show ?thesis by simp
    next
      case (Some x)
      with rest obtain S where "add_child R p x = Ret S" "parse_children pn S p vs = Ret Q" by (auto simp: outcome_simps)
      with R_ok add_child_texts Cons.IH [OF Cons.prems(1)] Cons.prems(3) show ?thesis by simp
    qed
  next
    case False
    with Cons.prems show ?thesis by (auto simp: outcome_simps node_read_Ret)
  qed
qed simp

lemma parse_shorthand_texts:
  "pn_texts pn \<Longrightarrow> parse_shorthand pn f val p P = Ret Q \<Longrightarrow> (\<And>v. val = Some v \<Longrightarrow> json_ok 64 v) \<Longrightarrow> texts_ok P \<Longrightarrow> texts_ok Q"
proof (cases val)
  case (Some v)
  assume pn: "pn_texts pn" and r: "parse_shorthand pn f val p P = Ret Q" and ok: "\<And>v. val = Some v \<Longrightarrow> json_ok 64 v"
    and P: "texts_ok P"
  show ?thesis
  proof (cases "(f \<longrightarrow> hn_children (hp_nodes P ! snd p) = []) \<and>
      length (hn_children (hp_nodes P ! snd p)) < HU_HULA_MAX_CHILDREN")
    case True
    with r Some obtain R c where R: "pn P v = Ret (R, c)"
      and rest: "(case c of None \<Rightarrow> Ret R | Some x \<Rightarrow> add_child R p x) = Ret Q"
      by (auto simp: parse_shorthand_def outcome_simps node_read_Ret split: if_splits)
    have "texts_ok R" using pn [unfolded pn_texts_def, rule_format, OF R] ok [OF Some] P by simp
    with rest add_child_texts show ?thesis by (cases c) auto
  next
    case False
    with r Some P show ?thesis by (auto simp: parse_shorthand_def outcome_simps node_read_Ret split: if_splits)
  qed
qed (simp add: parse_shorthand_def)

lemma parse_shorthands_texts:
  assumes pn: "pn_texts pn" and r: "parse_shorthands pn opc obj p P = Ret Q" and ok: "json_ok 64 obj" and P: "texts_ok P"
  shows "texts_ok Q"
proof -
  note sh = parse_shorthand_texts [OF pn]
  have one: "texts_ok R" if "parse_shorthand pn f (hu_json_object_get obj k) p S = Ret R" "texts_ok S" for f k R S
    using sh that json_ok_get [OF ok] by blast
  then show ?thesis using r P
    by (cases opc) (auto simp: parse_shorthands_def outcome_simps)
qed

lemma pn_texts_parse_node: "pn_texts (\<lambda>pr v. parse_node k pr v)"
proof (induction k)
  case 0
  then show ?case by (simp add: pn_texts_def)
next
  case (Suc k)
  show ?case unfolding pn_texts_def
  proof (intro allI impI)
    fix P v Q r assume r: "parse_node (Suc k) P v = Ret (Q, r)" and ok: "json_ok 64 v" and P: "texts_ok P"
    show "texts_ok Q"
    proof (cases r)
      case None
      with parse_node_Ret_None [of "Suc k" P v Q] r P show ?thesis by (simp del: parse_node.simps)
    next
      case (Some p)
      from parse_node_Ret_Some [OF r [unfolded Some]] obtain ps P1 n n' P2 P3 where v: "v = JObj ps"
        and al: "hu_hula_program_alloc_node P (parse_op (hu_json_get_string v ''op'')) (hu_json_get_string v ''id'') = (P1, Some p)"
        and rd: "node_read P1 p = Ret n" "parse_fields v n = Ret n'" and wr: "node_write P1 p (\<lambda>_. n') = Ret P2"
        and ch: "parse_children (\<lambda>pr v. parse_node k pr v) P2 p (child_items v) = Ret P3"
        and sh: "parse_shorthands (\<lambda>pr v. parse_node k pr v) (parse_op (hu_json_get_string v ''op'')) v p P3 = Ret Q"
        by metis
      have "texts_ok P1" using alloc_Some(2) [OF al] P by (auto simp: texts_ok_def node_text_ok_def empty_node_def)
      then have "texts_ok P2" using wr parse_fields_texts [OF rd(2) ok]
        by (auto simp: node_write_Ret texts_ok_def dest!: set_update_subset_insert [THEN subsetD])
      moreover have "\<forall>w \<in> set (child_items v). json_ok 64 w"
        using json_ok_get [OF ok, of "''children''"] json_ok_item
        by (cases "hu_json_object_get v ''children''"; cases "the (hu_json_object_get v ''children'')")
           (auto simp: child_items_def)
      ultimately have "texts_ok P3" using parse_children_texts [OF Suc.IH ch] by blast
      with parse_shorthands_texts [OF Suc.IH sh ok] show ?thesis by blast
    qed
  qed
qed

lemma parsed_texts: "hu_hula_parse_json t = Ret prog \<Longrightarrow> texts_ok prog"
proof -
  assume "hu_hula_parse_json t = Ret prog"
  then obtain v qs ver Q p where v: "hu_json_parse t = Ret v" and qs: "hu_json_object_get v ''root'' = Some (JObj qs)"
    and pn: "parse_node (HU_HULA_MAX_DEPTH + 1) ((hu_hula_program_init (hu_json_get_string v ''name''))\<lparr>hp_version := ver\<rparr>)
           (JObj qs) = Ret (Q, Some p)" and prog: "prog = Q\<lparr>hp_root := Some (snd p)\<rparr>"
    by (rule parse_json_Ret)
  have "json_ok 64 (JObj qs)" using json_ok_get [OF hu_json_parse_ok [OF v] qs] .
  moreover have "texts_ok ((hu_hula_program_init (hu_json_get_string v ''name''))\<lparr>hp_version := ver\<rparr>)"
    by (simp add: texts_ok_def hu_hula_program_init_def)
  ultimately have "texts_ok Q" using pn_texts_parse_node pn unfolding pn_texts_def by blast
  then show "texts_ok prog" by (simp add: texts_ok_def prog)
qed

lemma jnorm_fits: "json_fits v \<Longrightarrow> json_fits (jnorm v)"
proof (induction v)
  case (JNum d)
  have "dbl_fits_llong dzero" by (simp add: dzero_def dbl_fits_llong_def dbl_trunc_def dbl_trunc_abs_def)
  with JNum show ?case by (simp add: norm_zero_def)
next
  case (JObj ps)
  have "json_fits (snd q)" if "q \<in> set (map (map_prod id jnorm) ps)" for q
    using that JObj by (fastforce simp: snds.simps)
  then show ?case by simp
qed auto

lemma texts_nested_fits:
  assumes "node_text_ok n" and "length (call_args n) < 2 ^ 61"
  shows "nested_fits n"
proof (cases "hn_args_json n")
  case None
  then show ?thesis by (simp add: nested_fits_def call_args_def parse_empty_object)
next
  case (Some s)
  then obtain a where a: "s = render a" "json_ok 64 a" "json_fits a" using assms(1) by (auto simp: node_text_ok_def)
  then have "hu_json_parse (call_args n) = Ret (jnorm a)"
    using hu_json_parse_render [OF a(2)] assms(2) Some by (simp add: call_args_def)
  then show ?thesis using jnorm_fits [OF a(3)] by (simp add: nested_fits_def)
qed

text \<open>What a run of a parsed plan relies on beyond the parsing.\<close>

definition calls_named :: "hula_node list \<Rightarrow> bool" where
  "calls_named ns \<longleftrightarrow> (\<forall>n \<in> set ns. hn_op n = HU_HULA_CALL \<longrightarrow> hn_tool_name n \<noteq> None)"

definition no_self_emit :: "hula_node list \<Rightarrow> bool" where
  "no_self_emit ns \<longleftrightarrow>
     (\<forall>i < length ns. \<forall>s. hn_op (ns ! i) = HU_HULA_EMIT \<longrightarrow> hn_emit_value (ns ! i) = Some s \<longrightarrow> emit_ref ns 0 s \<noteq> Some i)"

lemma parsed_nodes_ok:
  assumes "hu_hula_parse_json t = Ret (he_program h)" and "args_short h"
    and "calls_named (hp_nodes (he_program h))" and "no_self_emit (hp_nodes (he_program h))"
  shows "nodes_ok (hp_nodes (he_program h))"
proof -
  let ?ns = "hp_nodes (he_program h)"
  have tx: "\<forall>n \<in> set ?ns. node_text_ok n" using parsed_texts [OF assms(1)] by (simp add: texts_ok_def)
  have wf: "wf_from 0 ?ns" using parsed_well_formed [OF assms(1)] by (simp add: wf_prog_def)
  have "nested_fits (?ns ! c)" if n: "n \<in> set ?ns" "c \<in> set (hn_children n)" for n c
  proof -
    obtain i where i: "i < length ?ns" "n = ?ns ! i" using n(1) by (metis in_set_conv_nth)
    then have "c < length ?ns" using wf n(2) unfolding wf_from_def by blast
    then have "?ns ! c \<in> set ?ns" by simp
    then have "node_text_ok (?ns ! c)" "length (call_args (?ns ! c)) < 2 ^ 61" using tx assms(2) by (simp_all add: args_short_def)
    then show ?thesis by (rule texts_nested_fits)
  qed
  then have "\<forall>n \<in> set ?ns. hn_op n = HU_HULA_DELEGATE \<longrightarrow> (\<forall>c \<in> set (hn_children n). nested_fits (?ns ! c))" by blast
  moreover have "\<forall>n \<in> set ?ns. (\<forall>s. hn_goal n = Some s \<longrightarrow> no_nul s) \<and> (\<forall>s. hn_emit_value n = Some s \<longrightarrow> no_nul s)"
    using tx by (simp add: node_text_ok_def)
  ultimately show ?thesis using assms(3,4) by (simp add: nodes_ok_def calls_named_def no_self_emit_def)
qed

text \<open>
  C39: a plan that parses is run to an end without undefined behaviour and without an error code, and all it does are
  steps of the transition system, so permitted calls only, if its CALL nodes name a tool, no EMIT node refers to
  itself, no argument text has \<open>2 ^ 61\<close> bytes, tools, gate, observer and pool hand over texts as long as they say and
  without NUL bytes, and the results, slots, recorded results and halt reason it starts with are as long as stated.
  What else the executor relies on, parsing has made sure of.
\<close>

theorem hula_parsed_plan_runs:
  assumes "hu_hula_parse_json t = Ret (he_program h)" and "args_short h"
    and "calls_named (hp_nodes (he_program h))" and "no_self_emit (hp_nodes (he_program h))"
    and "tools_ok h" and "lens_ok x"
  shows "\<exists>y. hu_hula_exec_run h x = Ret y \<and> exec_steps h (run_start h x) y"
proof -
  have ok: "program_ok h"
    using parsed_well_formed [OF assms(1)] assms(2) by (auto simp: program_ok_def wf_prog_def)
  have "host_ok h" using parsed_nodes_ok [OF assms(1-4)] assms(5) by (simp add: host_ok_def)
  from run_safe [OF ok this assms(6)] run_steps [OF ok] show ?thesis by blast
qed

lemma hula_parsed_plan_runs_witness:
  "\<exists>y. hu_hula_exec_run (sample_host [(empty_node HU_HULA_CALL None)\<lparr>hn_tool_name := Some ''t''\<rparr>])
       (sample_exec [one_call_node]) = Ret y \<and>
     exec_steps (sample_host [(empty_node HU_HULA_CALL None)\<lparr>hn_tool_name := Some ''t''\<rparr>])
       (run_start (sample_host [(empty_node HU_HULA_CALL None)\<lparr>hn_tool_name := Some ''t''\<rparr>]) (sample_exec [one_call_node])) y"
proof (rule hula_parsed_plan_runs [where t = one_call_text])
  let ?ns = "[(empty_node HU_HULA_CALL None)\<lparr>hn_tool_name := Some ''t''\<rparr>]"
  show "hu_hula_parse_json one_call_text = Ret (he_program (sample_host ?ns))" by (simp add: sample_host_def one_call_program)
  show "args_short (sample_host ?ns)" by (simp add: sample_host_def args_short_def call_args_def empty_node_def)
  show "calls_named (hp_nodes (he_program (sample_host ?ns)))" by (simp add: sample_host_def calls_named_def)
  show "no_self_emit (hp_nodes (he_program (sample_host ?ns)))" by (simp add: sample_host_def no_self_emit_def empty_node_def)
  show "tools_ok (sample_host ?ns)" by (auto simp: tools_ok_def sample_host_def ok_tool_def no_nul_def)
  show "lens_ok (sample_exec [one_call_node])" by (rule sample_lens_ok)
qed

end
