(* ===== verification/HuHulaTrace.thy ===== *)
theory HuHulaTrace
  imports HuHulaSteps
begin

text \<open>
  The trace a run leaves behind: \<^verbatim>\<open>trace_append\<close> writes one JSON object per node that ended, without
  escaping the node's id, and \<^verbatim>\<open>hu_hula_exec_trace\<close> closes the list.  If the ids of the program need no
  escaping, the trace is a JSON text that reads back as the list of the nodes that ended.
\<close>

section \<open>Numbers\<close>

lemma nat_as_dbl:
  assumes "n < 10 ^ 15"
  obtains d where "dbl_ok d" "dbl_small_int d" "dbl_trunc d = int n" "norm_zero d = d"
proof (cases "n = 0")
  case True
  then have "dbl_ok dzero" "dbl_small_int dzero" "dbl_trunc dzero = int n" "norm_zero dzero = dzero"
    by (simp_all add: dbl_ok_def dzero_def dbl_small_int_def dbl_integral_def dbl_trunc_def dbl_trunc_abs_def norm_zero_def)
  then show thesis by (rule that)
next
  case False
  then obtain e where e: "2 ^ e \<le> n" "n < 2 ^ (e + 1)"
    using ex_power_ivl1 [of 2 n] by auto
  have "(2::nat) ^ e < 2 ^ 52" using e(1) assms by simp
  then have e52: "e < 52" by (rule power_less_imp_less_exp [rotated]) simp
  let ?d = "Dbl False (n * 2 ^ (52 - e)) (int e - 52)"
  have k: "nat (- (int e - 52)) = 52 - e" using e52 by simp
  have "n * 2 ^ (52 - e) < 2 ^ (e + 1) * 2 ^ (52 - e)" using e(2) by simp
  also have "\<dots> = 2 ^ 53" using e52 by (simp add: power_add [symmetric])
  finally have hi: "n * 2 ^ (52 - e) < 2 ^ 53" .
  have "2 ^ e * 2 ^ (52 - e) \<le> n * 2 ^ (52 - e)" using e(1) by simp
  then have lo: "2 ^ 52 \<le> n * 2 ^ (52 - e)" using e52 by (simp add: power_add [symmetric])
  have "dbl_ok ?d" using hi lo e52 by (simp add: dbl_ok_def)
  moreover have "dbl_trunc_abs ?d = n" using e52 k by (simp add: dbl_trunc_abs_def)
  moreover have "dbl_integral ?d" using k by (simp add: dbl_integral_def)
  moreover have "norm_zero ?d = ?d" using False by (simp add: norm_zero_def)
  ultimately show thesis using assms that [of ?d] by (simp add: dbl_small_int_def dbl_trunc_def)
qed

lemma num_text_int: "dbl_small_int d \<Longrightarrow> dbl_trunc d = int n \<Longrightarrow> num_text d = nat_str n"
  by (simp add: num_text_def int_str_def)

lemma esc_text_safe:
  assumes "c \<noteq> DQUOTE" "c \<noteq> BSLASH" "32 \<le> cval c"
  shows "esc_text c = [c]"
proof -
  have "c \<noteq> CHR 0x08" "c \<noteq> CHR 0x0C" "c \<noteq> CHR 0x0A" "c \<noteq> CHR 0x0D" "c \<noteq> CHR 0x09"
    using assms(3) by (auto simp: cval_def)
  with assms show ?thesis by (simp add: esc_text_def)
qed

lemma quoted_safe: "trace_safe s \<Longrightarrow> quoted s = quote_q s"
  unfolding quoted_def quote_q_def trace_safe_def by (induction s) (simp_all add: esc_text_safe)

section \<open>Entries\<close>

text \<open>What an entry of the trace says of a node and its result.\<close>

definition entry_pairs :: "hula_node \<Rightarrow> hula_result \<Rightarrow> dbl \<Rightarrow> (string \<times> json) list" where
  "entry_pairs n r d =
     [(''id'', JStr (case hn_id n of None \<Rightarrow> [] | Some s \<Rightarrow> s)), (''op'', JStr (hu_hula_op_name (hn_op n)))] @
     (case hn_tool_name n of
        None \<Rightarrow> []
      | Some t \<Rightarrow> if hn_op n = HU_HULA_CALL \<and> t \<noteq> [] \<and> trace_safe t then [(''tool'', JStr t)] else []) @
     [(''status'', JStr (hu_hula_status_name (hr_status r))), (''output_len'', JNum d)]"

definition entry_json :: "hula_node \<Rightarrow> hula_result \<Rightarrow> json \<Rightarrow> bool" where
  "entry_json n r j \<longleftrightarrow> (\<exists>d. dbl_trunc d = int (hr_output_len r) \<and> j = JObj (entry_pairs n r d))"

definition id_safe :: "hula_node \<Rightarrow> bool" where
  "id_safe n \<longleftrightarrow> (case hn_id n of None \<Rightarrow> True | Some s \<Rightarrow> trace_safe s)"

lemma names_safe:
  "trace_safe (hu_hula_op_name opc)" "trace_safe (hu_hula_status_name st)"
  "trace_safe ''id''" "trace_safe ''op''" "trace_safe ''tool''" "trace_safe ''status''" "trace_safe ''output_len''"
  by (cases opc; simp add: trace_safe_def cval_def)
     ((cases st; simp add: trace_safe_def cval_def), simp_all add: trace_safe_def cval_def)

lemma trace_entry_render:
  assumes "id_safe n" "dbl_small_int d" "dbl_trunc d = int (hr_output_len r)"
  shows "trace_entry n (Some r) = render (JObj (entry_pairs n r d)) @ '',''"
proof -
  have "trace_safe (case hn_id n of None \<Rightarrow> [] | Some s \<Rightarrow> s)"
    using assms(1) by (simp add: id_safe_def trace_safe_def split: option.splits)
  then show ?thesis using assms(2,3)
    by (simp add: trace_entry_def entry_pairs_def Let_def quoted_safe names_safe num_text_int split: option.split)
qed

section \<open>The trace of a run\<close>

type_synonym trace_events = "(hula_node \<times> hula_result) list"

definition trace_text :: "trace_events \<Rightarrow> string" where
  "trace_text es = ''['' @ concat (map (\<lambda>(n, r). trace_entry n (Some r)) es)"

definition traced :: "hula_node list \<Rightarrow> 'w hula_exec \<Rightarrow> bool" where
  "traced ns x \<longleftrightarrow> length (hx_results x) = length ns \<and>
     (\<exists>es. hx_trace_log x = Some (trace_text es) \<and> fst ` set es \<subseteq> set ns)"

lemma traced_append:
  assumes "traced (hp_nodes (he_program h)) x" and "i < length (hp_nodes (he_program h))"
  shows "traced (hp_nodes (he_program h)) (trace_append h i x)"
proof -
  let ?ns = "hp_nodes (he_program h)"
  from assms obtain es where es: "hx_trace_log x = Some (trace_text es)" "fst ` set es \<subseteq> set ?ns"
    by (auto simp: traced_def)
  have "hx_trace_log (trace_append h i x) = Some (trace_text (es @ [(?ns ! i, hx_results x ! i)]))"
    using assms es(1) by (simp add: trace_append_def trace_text_def result_for_def traced_def)
  moreover have "fst ` set (es @ [(?ns ! i, hx_results x ! i)]) \<subseteq> set ?ns" using es(2) assms(2) by simp
  ultimately show ?thesis using assms(1) unfolding traced_def trace_append_simps by blast
qed

lemma exec_step_traced:
  "exec_step h x y \<Longrightarrow> traced (hp_nodes (he_program h)) x \<Longrightarrow> traced (hp_nodes (he_program h)) y"
  by (induction rule: exec_step.induct) (simp_all add: traced_append, simp_all add: traced_def count_call_def)

lemma exec_steps_traced:
  "exec_steps h x y \<Longrightarrow> traced (hp_nodes (he_program h)) x \<Longrightarrow> traced (hp_nodes (he_program h)) y"
  by (induction rule: rtranclp_induct) (simp, rule exec_step_traced, simp_all)

text \<open>What closing the trace gives.\<close>

definition small_event :: "hula_node \<times> hula_result \<Rightarrow> bool" where
  "small_event e \<longleftrightarrow> id_safe (fst e) \<and> hr_output_len (snd e) < 10 ^ 15"

lemma entries_render:
  assumes "list_all small_event es"
  shows "\<exists>js. list_all2 (\<lambda>(n, r) j. entry_json n r j) es js \<and> (\<forall>j \<in> set js. json_ok 63 j \<and> jnorm j = j) \<and>
    concat (map (\<lambda>(n, r). trace_entry n (Some r)) es) = concat (map (\<lambda>j. render j @ '','') js)"
  using assms
proof (induction es)
  case (Cons e es)
  obtain n r where e: "e = (n, r)" by force
  from Cons e have "hr_output_len r < 10 ^ 15" "id_safe n" by (simp_all add: small_event_def)
  from nat_as_dbl [OF this(1)] obtain d where d: "dbl_ok d" "dbl_small_int d" "dbl_trunc d = int (hr_output_len r)" "norm_zero d = d"
    by blast
  let ?j = "JObj (entry_pairs n r d)"
  have "json_ok 63 ?j" using d(1) by (auto simp: json_ok_JObj entry_pairs_def split: option.split)
  moreover have "jnorm ?j = ?j" using d(4) by (auto simp: entry_pairs_def split: option.split)
  moreover have "entry_json n r ?j" using d(3) by (auto simp: entry_json_def)
  moreover have "trace_entry n (Some r) = render ?j @ '',''" by (rule trace_entry_render) fact+
  moreover from Cons obtain js where "list_all2 (\<lambda>(n, r) j. entry_json n r j) es js"
    "\<forall>j \<in> set js. json_ok 63 j \<and> jnorm j = j"
    "concat (map (\<lambda>(n, r). trace_entry n (Some r)) es) = concat (map (\<lambda>j. render j @ '','') js)" by auto
  ultimately show ?case by (intro exI [of _ "?j # js"]) (simp add: e del: render.simps jnorm.simps)
qed simp

lemma concat_comma: "js \<noteq> [] \<Longrightarrow> concat (map (\<lambda>j. f j @ '','') js) = comma_join (map f js) @ '',''"
  by (induction js rule: induct_list012) auto

lemma trace_closes:
  assumes "hx_trace_log x = Some (trace_text es)" and "list_all small_event es" and "length (trace_text es) < 2 ^ 60"
  shows "\<exists>t js. snd (hu_hula_exec_trace x) = Some t \<and> hu_json_parse t = Ret (JArr js) \<and>
    list_all2 (\<lambda>(n, r) j. entry_json n r j) es js"
proof -
  obtain js where js: "list_all2 (\<lambda>(n, r) j. entry_json n r j) es js" "\<forall>j \<in> set js. json_ok 63 j \<and> jnorm j = j"
    "trace_text es = ''['' @ concat (map (\<lambda>j. render j @ '','') js)"
    using entries_render [OF assms(2)] by (auto simp: trace_text_def)
  have t: "snd (hu_hula_exec_trace x) = Some (render (JArr js))"
  proof (cases "js = []")
    case False
    then show ?thesis using assms(1) js(3) concat_comma [of js render]
      by (simp add: hu_hula_exec_trace_def butlast_append Let_def)
  qed (use assms(1) js(3) in \<open>simp add: hu_hula_exec_trace_def Let_def\<close>)
  have "length (render (JArr js)) \<le> length (trace_text es) + 1"
    using js(3) concat_comma [of js render] by (cases "js = []") simp_all
  moreover have "json_ok 64 (JArr js)" using js(2) by (simp add: json_ok_JArr)
  moreover have "jnorm (JArr js) = JArr js" using js(2) by (simp add: map_idI)
  ultimately have "hu_json_parse (render (JArr js)) = Ret (JArr js)"
    using assms(3) hu_json_parse_render [of "JArr js"] by simp
  with t js(1) show ?thesis by blast
qed

section \<open>Properties\<close>

text \<open>
  The trace of a run is a list of events, each a node of the program with a result; and if the
  node ids need no escaping and no output length has more than fifteen digits, \<^verbatim>\<open>hu_hula_exec_trace\<close>
  returns a JSON text that parses to the array of these events: for each its id, opcode, tool, status
  and output length.
\<close>

theorem hula_trace_reads:
  assumes "program_ok h" and "hu_hula_exec_run h x = Ret y"
    and "length (hx_results x) = length (hp_nodes (he_program h))" and "hx_trace_log x = Some ''[''"
  shows "\<exists>es. hx_trace_log y = Some (trace_text es) \<and> fst ` set es \<subseteq> set (hp_nodes (he_program h)) \<and>
    (list_all small_event es \<and> length (trace_text es) < 2 ^ 60 \<longrightarrow>
       (\<exists>t js. snd (hu_hula_exec_trace y) = Some t \<and> hu_json_parse t = Ret (JArr js) \<and>
          list_all2 (\<lambda>(n, r) j. entry_json n r j) es js))"
proof -
  have "traced (hp_nodes (he_program h)) (run_start h x)"
    using assms(3,4) by (auto simp: traced_def trace_text_def intro: exI [of _ "[]"])
  with exec_steps_traced [OF run_steps [OF assms(1,2)]] obtain es
    where "hx_trace_log y = Some (trace_text es)" "fst ` set es \<subseteq> set (hp_nodes (he_program h))"
    by (auto simp: traced_def)
  with trace_closes [of y es] show ?thesis by blast
qed

lemma one_call_traced_run:
  "\<exists>y. hu_hula_exec_run (sample_host [one_call_node]) ((sample_exec [one_call_node])\<lparr>hx_trace_log := Some ''[''\<rparr>) = Ret y \<and>
     hx_trace_log y = Some (trace_text [(one_call_node,
       \<lparr>hr_status = HU_HULA_DONE, hr_output = Some ''ok'', hr_output_len = 2, hr_error = None, hr_error_len = 0\<rparr>)])"
  by (simp add: hula_run_eval sample_host_def sample_exec_def one_call_node_def ok_tool_def call_args_def
      parse_empty_object dup_if_def hu_strndup_def cstr_def trace_text_def)

lemma hula_trace_reads_witness:
  "\<exists>y es. hu_hula_exec_run (sample_host [one_call_node]) ((sample_exec [one_call_node])\<lparr>hx_trace_log := Some ''[''\<rparr>) = Ret y \<and>
     hx_trace_log y = Some (trace_text es)"
proof -
  obtain y where "hu_hula_exec_run (sample_host [one_call_node]) ((sample_exec [one_call_node])\<lparr>hx_trace_log := Some ''[''\<rparr>) = Ret y"
    using one_call_traced_run by blast
  from hula_trace_reads [OF one_call_program_ok this] this show ?thesis
    by (auto simp: sample_exec_def sample_host_def hu_hula_exec_init_def hu_hula_exec_set_budget_def)
qed

text \<open>A node whose id holds a quote.\<close>

definition quote_node :: hula_node where
  "quote_node = one_call_node\<lparr>hn_id := Some [DQUOTE, CHR ''x'']\<rparr>"

text \<open>
  Without that condition the trace need not be JSON: an id with a quote in it, which a plan may hold
  in escaped form, ends its string early and the trace does not parse.
\<close>

theorem hula_trace_broken:
  "\<exists>y t. hu_hula_exec_run (sample_host [quote_node]) ((sample_exec [quote_node])\<lparr>hx_trace_log := Some ''[''\<rparr>) = Ret y \<and>
     snd (hu_hula_exec_trace y) = Some t \<and> hu_json_parse t = Err HU_ERR_JSON_PARSE"
proof -
  define e where "e = trace_entry quote_node (Some
       \<lparr>hr_status = HU_HULA_DONE, hr_output = Some ''ok'', hr_output_len = 2, hr_error = None, hr_error_len = 0\<rparr>)"
  have "\<exists>y. hu_hula_exec_run (sample_host [quote_node]) ((sample_exec [quote_node])\<lparr>hx_trace_log := Some ''[''\<rparr>) = Ret y \<and>
     hx_trace_log y = Some (''['' @ e)"
    by (simp add: hula_run_eval sample_host_def sample_exec_def quote_node_def one_call_node_def ok_tool_def call_args_def
        parse_empty_object dup_if_def hu_strndup_def cstr_def e_def)
  moreover have "snd (hu_hula_exec_trace y) = Some (''['' @ butlast e @ '']'')" if "hx_trace_log y = Some (''['' @ e)" for y :: "unit hula_exec"
    using that by (simp add: hu_hula_exec_trace_def e_def trace_entry_def Let_def butlast_append)
  moreover have "hu_json_parse (''['' @ butlast e @ '']'') = Err HU_ERR_JSON_PARSE"
    unfolding e_def by code_simp
  ultimately show ?thesis by blast
qed

end
