(* ===== verification/HuHulaBridge.thy ===== *)
theory HuHulaBridge
  imports HuHula HuDag
begin

text \<open>
  \<^verbatim>\<open>src/agent/hula.c\<close>, the bridges: a plan (\<^verbatim>\<open>hu_plan_t\<close> of \<^verbatim>\<open>agent/planner.h\<close>) or a DAG of tool calls becomes
  a HuLa program, a sequence whose children are the waves of steps that no longer wait for another.

  Both functions run the same loop over their own tables; it is \<open>wave_loop\<close> here, with the test that a
  step is ready and the allocation of its CALL node as arguments.  The working arrays of the loop are
  values: \<open>placed\<close> is a list of booleans, \<open>wave_idx\<close> the list of the steps of the wave.  On an error the
  program is released, so the error code is all that is left.
\<close>

section \<open>Plans\<close>

datatype plan_step_status = HU_PLAN_STEP_PENDING | HU_PLAN_STEP_RUNNING | HU_PLAN_STEP_DONE | HU_PLAN_STEP_FAILED

record hu_plan_step =
  ps_tool_name :: "string option"
  ps_args_json :: "string option"
  ps_description :: "string option"
  ps_status :: plan_step_status
  ps_depends_on :: "int list"

section \<open>The loop over the waves\<close>

definition hula_bridge_alloc_call ::
    "hula_program \<Rightarrow> string \<Rightarrow> string option \<Rightarrow> string option \<Rightarrow> string option \<Rightarrow> (hula_program \<times> hptr option) outcome" where
  "hula_bridge_alloc_call prog ident tool args desc =
     (case hu_hula_program_alloc_node prog HU_HULA_CALL (Some ident) of
        (prog, None) \<Rightarrow> Ret (prog, None)
      | (prog, Some p) \<Rightarrow>
          obind (node_write prog p (\<lambda>n. n\<lparr>hn_tool_name := tool, hn_args_json := args, hn_description := desc\<rparr>)) (\<lambda>prog.
          Ret (prog, Some p)))"

type_synonym call_maker = "hula_program \<Rightarrow> nat \<Rightarrow> (hula_program \<times> hptr option) outcome"

definition bridge_child :: "hula_program \<Rightarrow> hptr \<Rightarrow> hptr \<Rightarrow> hula_program outcome" where
  "bridge_child prog parent child =
     obind (node_read prog parent) (\<lambda>n.
     if length (hn_children n) \<ge> HU_HULA_MAX_CHILDREN then Err HU_ERR_INVALID_ARGUMENT
     else add_child prog parent child)"

definition place_call :: "call_maker \<Rightarrow> hula_program \<Rightarrow> hptr \<Rightarrow> nat \<Rightarrow> hula_program outcome" where
  "place_call mk prog parent i =
     obind (mk prog i) (\<lambda>(prog, call).
     case call of None \<Rightarrow> Err HU_ERR_OUT_OF_MEMORY | Some c \<Rightarrow> bridge_child prog parent c)"

fun place_calls :: "call_maker \<Rightarrow> hula_program \<Rightarrow> hptr \<Rightarrow> nat list \<Rightarrow> hula_program outcome" where
  "place_calls mk prog parent [] = Ret prog"
| "place_calls mk prog parent (i # is) =
     obind (place_call mk prog parent i) (\<lambda>prog. place_calls mk prog parent is)"

definition place_wave :: "call_maker \<Rightarrow> hula_program \<Rightarrow> hptr \<Rightarrow> nat list \<Rightarrow> nat \<Rightarrow> hula_program outcome" where
  "place_wave mk prog outer wave num =
     (if length wave = 1 then place_call mk prog outer (hd wave)
      else
        case hu_hula_program_alloc_node prog HU_HULA_PAR (Some (''w'' @ nat_str num)) of
          (prog, None) \<Rightarrow> Err HU_ERR_OUT_OF_MEMORY
        | (prog, Some par) \<Rightarrow>
            obind (place_calls mk prog par wave) (\<lambda>prog. bridge_child prog outer par))"

definition next_wave :: "(bool list \<Rightarrow> nat \<Rightarrow> bool) \<Rightarrow> bool list \<Rightarrow> nat list" where
  "next_wave ready placed = filter (\<lambda>i. \<not> placed ! i \<and> ready placed i) [0..<length placed]"

definition mark_placed :: "bool list \<Rightarrow> nat list \<Rightarrow> bool list" where
  "mark_placed placed wave = foldl (\<lambda>pl i. pl[i := True]) placed wave"

lemma length_mark_placed [simp]: "length (mark_placed placed wave) = length placed"
  unfolding mark_placed_def by (induction wave arbitrary: placed) simp_all

function wave_loop ::
    "call_maker \<Rightarrow> (bool list \<Rightarrow> nat \<Rightarrow> bool) \<Rightarrow> hula_program \<Rightarrow> hptr \<Rightarrow> bool list \<Rightarrow> nat \<Rightarrow> nat \<Rightarrow> hula_program outcome" where
  "wave_loop mk ready prog outer placed placed_count wave_num =
     (if placed_count < length placed then
        let wave = next_wave ready placed in
        if wave = [] then Err HU_ERR_INVALID_ARGUMENT
        else if length wave > HU_HULA_MAX_CHILDREN then Err HU_ERR_INVALID_ARGUMENT
        else
          obind (place_wave mk prog outer wave wave_num) (\<lambda>prog.
          wave_loop mk ready prog outer (mark_placed placed wave) (placed_count + length wave) (wave_num + 1))
      else Ret prog)"
  by pat_completeness auto
termination
  by (relation "measure (\<lambda>(mk, ready, prog, outer, placed, placed_count, wave_num). length placed - placed_count)")
     (auto intro!: diff_less_mono2)

declare wave_loop.simps [simp del]

definition run_waves ::
    "call_maker \<Rightarrow> (bool list \<Rightarrow> nat \<Rightarrow> bool) \<Rightarrow> string \<Rightarrow> nat \<Rightarrow> hula_program \<Rightarrow> hula_program outcome" where
  "run_waves mk ready ident n prog =
     (case hu_hula_program_alloc_node prog HU_HULA_SEQ (Some ident) of
        (prog, None) \<Rightarrow> Err HU_ERR_OUT_OF_MEMORY
      | (prog, Some outer) \<Rightarrow>
          obind (wave_loop mk ready prog outer (replicate n False) 0 0) (\<lambda>prog.
          if fst outer \<noteq> hp_gen prog then Undef UseAfterFree else Ret (prog\<lparr>hp_root := Some (snd outer)\<rparr>)))"

section \<open>From a plan\<close>

definition plan_step_ready :: "hu_plan_step list \<Rightarrow> bool list \<Rightarrow> nat \<Rightarrow> bool" where
  "plan_step_ready steps placed i \<longleftrightarrow>
     list_all (\<lambda>di. 0 \<le> di \<and> nat di < length steps \<and> placed ! nat di) (ps_depends_on (steps ! i))"

definition plan_call :: "hu_plan_step list \<Rightarrow> call_maker" where
  "plan_call steps prog i =
     (let st = steps ! i in
      hula_bridge_alloc_call prog (''s'' @ nat_str i) (ps_tool_name st) (ps_args_json st) (ps_description st))"

text \<open>The calls of a plan without dependencies, without the test for a full list of children.\<close>

fun flat_calls :: "call_maker \<Rightarrow> hula_program \<Rightarrow> hptr \<Rightarrow> nat list \<Rightarrow> hula_program outcome" where
  "flat_calls mk prog flat [] = Ret prog"
| "flat_calls mk prog flat (i # is) =
     obind (mk prog i) (\<lambda>(prog, call).
     case call of None \<Rightarrow> Err HU_ERR_OUT_OF_MEMORY
     | Some c \<Rightarrow> obind (add_child prog flat c) (\<lambda>prog. flat_calls mk prog flat is))"

definition hu_hula_from_plan :: "hu_plan_step list \<Rightarrow> string option \<Rightarrow> hula_program outcome" where
  "hu_hula_from_plan steps name =
     (let prog = hu_hula_program_init name in
      if steps = [] then Ret prog
      else if \<not> list_ex (\<lambda>st. ps_depends_on st \<noteq> []) steps then
        if length steps > HU_HULA_MAX_CHILDREN then Err HU_ERR_INVALID_ARGUMENT
        else
          (case hu_hula_program_alloc_node prog HU_HULA_SEQ (Some ''plan'') of
             (prog, None) \<Rightarrow> Err HU_ERR_OUT_OF_MEMORY
           | (prog, Some flat) \<Rightarrow>
               obind (flat_calls (plan_call steps) prog flat [0..<length steps]) (\<lambda>prog.
               if fst flat \<noteq> hp_gen prog then Undef UseAfterFree else Ret (prog\<lparr>hp_root := Some (snd flat)\<rparr>)))
      else run_waves (plan_call steps) (plan_step_ready steps) ''plan'' (length steps) prog)"

section \<open>From a DAG\<close>

fun dag_index_by_id :: "hu_dag_node list \<Rightarrow> string \<Rightarrow> nat option" where
  "dag_index_by_id [] ident = None"
| "dag_index_by_id (n # ns) ident = (if dn_id n = ident then Some 0 else map_option Suc (dag_index_by_id ns ident))"

definition dag_node_ready :: "hu_dag \<Rightarrow> bool list \<Rightarrow> nat \<Rightarrow> bool" where
  "dag_node_ready dag placed i \<longleftrightarrow>
     list_all (\<lambda>d. case dag_index_by_id (dag_nodes dag) d of None \<Rightarrow> False | Some j \<Rightarrow> placed ! j)
       (dn_deps (dag_nodes dag ! i))"

text \<open>\<^verbatim>\<open>snprintf\<close> into 40 bytes keeps 39 characters of the id.\<close>

definition dag_call :: "hu_dag \<Rightarrow> call_maker" where
  "dag_call dag prog i =
     (let n = dag_nodes dag ! i in
      hula_bridge_alloc_call prog (take 39 (dn_id n)) (Some (dn_tool_name n)) (dn_args_json n) None)"

definition hu_hula_from_dag :: "hu_dag \<Rightarrow> string option \<Rightarrow> hula_program outcome" where
  "hu_hula_from_dag dag name =
     (let prog = hu_hula_program_init name in
      if dag_nodes dag = [] then Ret prog
      else run_waves (dag_call dag) (dag_node_ready dag) ''dag'' (length (dag_nodes dag)) prog)"

section \<open>The schedule\<close>

text \<open>
  What the loop relies on: a step is ready exactly if the steps it depends on are placed.  \<open>deps i\<close> are these
  steps; a dependency that names no step is given as \<open>n\<close>, which is never placed.
\<close>

locale wave_schedule =
  fixes n :: nat
    and ready :: "bool list \<Rightarrow> nat \<Rightarrow> bool"
    and deps :: "nat \<Rightarrow> nat set"
  assumes ready_iff: "length placed = n \<Longrightarrow> i < n \<Longrightarrow> ready placed i \<longleftrightarrow> (\<forall>d \<in> deps i. d < n \<and> placed ! d)"
begin

text \<open>The waves that the loop goes through from a given state on.\<close>

fun sched :: "bool list \<Rightarrow> nat list list \<Rightarrow> bool" where
  "sched placed [] = (\<forall>i < n. placed ! i)"
| "sched placed (w # ws) = (w \<noteq> [] \<and> w = next_wave ready placed \<and> sched (mark_placed placed w) ws)"

lemma mark_placed_nth: "i < length placed \<Longrightarrow> mark_placed placed w ! i \<longleftrightarrow> placed ! i \<or> i \<in> set w"
  unfolding mark_placed_def
proof (induction w arbitrary: placed)
  case (Cons j w)
  then show ?case by (cases "i = j") (simp_all add: nth_list_update)
qed simp

lemma next_wave_set:
  "length placed = n \<Longrightarrow> set (next_wave ready placed) = {i. i < n \<and> \<not> placed ! i \<and> (\<forall>d \<in> deps i. d < n \<and> placed ! d)}"
  by (auto simp: next_wave_def ready_iff)

text \<open>Every step that was not placed is in exactly one wave, and its dependencies are placed or in earlier waves.\<close>

definition in_order :: "bool list \<Rightarrow> nat list list \<Rightarrow> bool" where
  "in_order placed ws \<longleftrightarrow>
     (\<forall>k < length ws. \<forall>i \<in> set (ws ! k). \<forall>d \<in> deps i. d < n \<and> (placed ! d \<or> (\<exists>j < k. d \<in> set (ws ! j))))"

lemma in_order_Cons:
  assumes "in_order (mark_placed placed w) ws" and "length placed = n"
    and "\<And>i d. i \<in> set w \<Longrightarrow> d \<in> deps i \<Longrightarrow> d < n \<and> placed ! d"
  shows "in_order placed (w # ws)"
  unfolding in_order_def
proof (intro allI impI ballI)
  fix k i d assume k: "k < length (w # ws)" and i: "i \<in> set ((w # ws) ! k)" and d: "d \<in> deps i"
  show "d < n \<and> (placed ! d \<or> (\<exists>j < k. d \<in> set ((w # ws) ! j)))"
  proof (cases k)
    case 0
    with i d assms(3) show ?thesis by auto
  next
    case (Suc m)
    with k i have "m < length ws" "i \<in> set (ws ! m)" by simp_all
    with assms(1) d have dn: "d < n" and e: "mark_placed placed w ! d \<or> (\<exists>j < m. d \<in> set (ws ! j))"
      unfolding in_order_def by blast+
    from e dn assms(2) have "placed ! d \<or> d \<in> set w \<or> (\<exists>j < m. d \<in> set (ws ! j))" by (simp add: mark_placed_nth disj_assoc)
    with dn Suc show ?thesis by (metis Suc_mono nth_Cons_0 nth_Cons_Suc zero_less_Suc)
  qed
qed

lemma sched_order:
  "sched placed ws \<Longrightarrow> length placed = n \<Longrightarrow>
     distinct (concat ws) \<and> set (concat ws) = {i. i < n \<and> \<not> placed ! i} \<and> in_order placed ws"
proof (induction ws arbitrary: placed)
  case Nil
  then show ?case by (simp add: in_order_def)
next
  case (Cons w ws)
  let ?p = "mark_placed placed w"
  note c = Cons.prems(1) [unfolded sched.simps]
  note w = c [THEN conjunct2, THEN conjunct1] and s = c [THEN conjunct2, THEN conjunct2]
  have len: "length ?p = n" using Cons.prems(2) by simp
  note sw = next_wave_set [OF Cons.prems(2), folded w]
  from Cons.IH [OF s len] have IH: "distinct (concat ws)" "set (concat ws) = {i. i < n \<and> \<not> ?p ! i}" "in_order ?p ws"
    by simp_all
  have pn: "i < n \<Longrightarrow> ?p ! i \<longleftrightarrow> placed ! i \<or> i \<in> set w" for i
    by (rule mark_placed_nth) (simp add: Cons.prems(2))
  have rest: "set (concat ws) = {i. i < n \<and> \<not> placed ! i \<and> i \<notin> set w}"
    unfolding IH(2) using pn by blast
  have "distinct w" by (subst w) (simp add: next_wave_def)
  moreover have "set w \<inter> set (concat ws) = {}" unfolding rest by blast
  ultimately have "distinct (concat (w # ws))" using IH(1) by (simp del: set_concat)
  moreover have "set (concat (w # ws)) = {i. i < n \<and> \<not> placed ! i}"
    unfolding concat.simps set_append rest using sw by blast
  moreover have "in_order placed (w # ws)"
    by (rule in_order_Cons [OF IH(3) Cons.prems(2)]) (use sw in blast)
  ultimately show ?case by blast
qed

text \<open>If the dependencies name steps and have no cycle, there is always a next wave.\<close>

lemma next_wave_exists:
  assumes "wf {(d, i). i < n \<and> d \<in> deps i}" and "\<forall>i < n. \<forall>d \<in> deps i. d < n"
    and "length placed = n" and "i < n" and "\<not> placed ! i"
  shows "next_wave ready placed \<noteq> []"
proof (rule wfE_min [OF assms(1), of i "{i. i < n \<and> \<not> placed ! i}"])
  show "i \<in> {i. i < n \<and> \<not> placed ! i}" using assms(4,5) by simp
next
  fix m assume m: "m \<in> {i. i < n \<and> \<not> placed ! i}"
    and least: "\<And>d. (d, m) \<in> {(d, i). i < n \<and> d \<in> deps i} \<Longrightarrow> d \<notin> {i. i < n \<and> \<not> placed ! i}"
  have "d < n \<and> placed ! d" if "d \<in> deps m" for d
    using least [of d] assms(2) m that unfolding mem_Collect_eq case_prod_conv by blast
  with m have "m \<in> set (next_wave ready placed)" unfolding next_wave_set [OF assms(3)] by simp
  then show ?thesis by (metis empty_iff list.set(1))
qed

end

section \<open>The program the loop lays out\<close>

text \<open>
  \<open>call i\<close> is the node of step \<open>i\<close>.  A wave of one step is its call; a larger one is a PAR node, with the calls
  right behind it.  \<open>lay s k ws\<close>: the nodes of the waves \<open>ws\<close> from position \<open>s\<close> on, counted from wave \<open>k\<close>.
\<close>

definition wave_nodes :: "(nat \<Rightarrow> hula_node) \<Rightarrow> nat \<Rightarrow> nat \<Rightarrow> nat list \<Rightarrow> hula_node list" where
  "wave_nodes call s k w =
     (if length w = 1 then [call (hd w)]
      else (empty_node HU_HULA_PAR (Some (''w'' @ nat_str k)))\<lparr>hn_children := [s + 1..<s + 1 + length w]\<rparr> # map call w)"

fun lay :: "(nat \<Rightarrow> hula_node) \<Rightarrow> nat \<Rightarrow> nat \<Rightarrow> nat list list \<Rightarrow> nat list \<times> hula_node list" where
  "lay call s k [] = ([], [])"
| "lay call s k (w # ws) =
     (let new = wave_nodes call s k w; (cs, ns) = lay call (s + length new) (k + 1) ws in (s # cs, new @ ns))"

text \<open>What is relied on of the function that allocates a call.\<close>

definition makes :: "call_maker \<Rightarrow> (nat \<Rightarrow> hula_node) \<Rightarrow> bool" where
  "makes mk call \<longleftrightarrow> (\<forall>P i. mk P i =
     (case hu_hula_program_alloc_node P (hn_op (call i)) (hn_id (call i)) of
        (Q, None) \<Rightarrow> Ret (Q, None)
      | (Q, Some p) \<Rightarrow> Ret (Q\<lparr>hp_nodes := hp_nodes P @ [call i]\<rparr>, Some p)))"

lemma bridge_alloc_call_eq:
  "hula_bridge_alloc_call P ident tool args desc =
     (case hu_hula_program_alloc_node P HU_HULA_CALL (Some ident) of
        (Q, None) \<Rightarrow> Ret (Q, None)
      | (Q, Some p) \<Rightarrow> Ret (Q\<lparr>hp_nodes := hp_nodes P @
          [(empty_node HU_HULA_CALL (Some ident))\<lparr>hn_tool_name := tool, hn_args_json := args, hn_description := desc\<rparr>]\<rparr>, Some p))"
proof (cases "hu_hula_program_alloc_node P HU_HULA_CALL (Some ident)")
  case (Pair Q r)
  show ?thesis
  proof (cases r)
    case (Some p)
    note a = alloc_Some [OF Pair [unfolded Some]]
    have "node_write Q p (\<lambda>n. n\<lparr>hn_tool_name := tool, hn_args_json := args, hn_description := desc\<rparr>) =
        Ret (Q\<lparr>hp_nodes := hp_nodes P @
          [(empty_node HU_HULA_CALL (Some ident))\<lparr>hn_tool_name := tool, hn_args_json := args, hn_description := desc\<rparr>]\<rparr>)"
      using a(1,2) by (simp add: node_write_Ret)
    with Pair Some show ?thesis by (simp add: hula_bridge_alloc_call_def)
  qed (simp add: Pair hula_bridge_alloc_call_def)
qed

lemma makes_Ret:
  assumes "makes mk call" and "mk P i = Ret (Q, Some p)"
  shows "p = (hp_gen Q, length (hp_nodes P))" and "hp_nodes Q = hp_nodes P @ [call i]"
    and "hp_root Q = hp_root P" and "hp_name Q = hp_name P"
    and "hp_gen Q = hp_gen P \<Longrightarrow> length (hp_nodes P) < hp_node_cap P \<and> hp_node_cap Q = hp_node_cap P"
proof -
  obtain Q0 r where al: "hu_hula_program_alloc_node P (hn_op (call i)) (hn_id (call i)) = (Q0, r)"
    by (cases "hu_hula_program_alloc_node P (hn_op (call i)) (hn_id (call i))")
  from assms(1) have "mk P i = (case (Q0, r) of (Q, None) \<Rightarrow> Ret (Q, None)
      | (Q, Some p) \<Rightarrow> Ret (Q\<lparr>hp_nodes := hp_nodes P @ [call i]\<rparr>, Some p))"
    by (simp only: makes_def al)
  with assms(2) have r: "r = Some p" and Q: "Q = Q0\<lparr>hp_nodes := hp_nodes P @ [call i]\<rparr>"
    by (auto split: option.splits)
  have "hp_name Q0 = hp_name P" using al by (auto simp: hu_hula_program_alloc_node_def Let_def split: if_splits)
  with alloc_Some(1,6) [OF al [unfolded r]] Q
  show "p = (hp_gen Q, length (hp_nodes P))" and "hp_nodes Q = hp_nodes P @ [call i]"
    and "hp_root Q = hp_root P" and "hp_name Q = hp_name P" by simp_all
  show "length (hp_nodes P) < hp_node_cap P \<and> hp_node_cap Q = hp_node_cap P" if "hp_gen Q = hp_gen P"
    using alloc_Some(3,8) [OF al [unfolded r]] Q that by (simp split: if_splits)
qed

lemma add_child_eq:
  "add_child P p q = Ret Q \<longleftrightarrow> fst p = hp_gen P \<and> snd p < length (hp_nodes P) \<and> fst q = hp_gen P \<and>
     Q = P\<lparr>hp_nodes := (hp_nodes P)[snd p := (hp_nodes P ! snd p)\<lparr>hn_children := hn_children (hp_nodes P ! snd p) @ [snd q]\<rparr>]\<rparr>"
  unfolding add_child_def node_write_def node_read_def
  by (cases "fst p = hp_gen P"; cases "snd p < length (hp_nodes P)"; cases "fst q = hp_gen P") (simp_all, blast)

lemma bridge_child_Ret: "bridge_child P p q = Ret Q \<Longrightarrow> add_child P p q = Ret Q"
  by (auto simp: bridge_child_def outcome_simps split: if_splits)

text \<open>\<open>grown P parent new cs Q\<close>: \<open>Q\<close> is \<open>P\<close> with the nodes \<open>new\<close> at the end and \<open>cs\<close> added to the parent.\<close>

definition grown :: "hula_program \<Rightarrow> nat \<Rightarrow> hula_node list \<Rightarrow> nat list \<Rightarrow> hula_program \<Rightarrow> bool" where
  "grown P parent new cs Q \<longleftrightarrow> hp_gen Q = hp_gen P \<and> hp_root Q = hp_root P \<and> hp_name Q = hp_name P \<and>
     hp_node_cap Q = hp_node_cap P \<and>
     (length (hp_nodes P) \<le> hp_node_cap P \<longrightarrow> length (hp_nodes P) + length new \<le> hp_node_cap P) \<and>
     hp_nodes Q = (hp_nodes P)[parent := (hp_nodes P ! parent)\<lparr>hn_children := hn_children (hp_nodes P ! parent) @ cs\<rparr>] @ new"

lemma place_one:
  assumes mk: "makes mk call" and p: "snd parent < length (hp_nodes P)"
    and r: "mk P i = Ret (P1, Some c)" "add_child P1 parent c = Ret Q" and g: "fst parent = hp_gen P"
  shows "grown P (snd parent) [call i] [length (hp_nodes P)] Q"
  using makes_Ret [OF mk r(1)] r(2) p g
  by (auto simp: add_child_eq grown_def nth_append list_update_append1)

lemma place_call_grown:
  assumes "makes mk call" and "snd parent < length (hp_nodes P)" and "place_call mk P parent i = Ret Q"
    and "fst parent = hp_gen P"
  shows "grown P (snd parent) [call i] [length (hp_nodes P)] Q"
  using assms(3) by (auto simp: place_call_def outcome_simps split: prod.splits option.splits
      dest!: bridge_child_Ret intro: place_one [OF assms(1,2) _ _ assms(4)])

lemma grown_trans:
  "grown P a new cs Q \<Longrightarrow> grown Q a new' cs' R \<Longrightarrow> a < length (hp_nodes P) \<Longrightarrow> grown P a (new @ new') (cs @ cs') R"
  by (simp add: grown_def nth_append list_update_append1) linarith

lemma grown_refl: "grown P a [] [] P"
  by (simp add: grown_def)

lemma place_calls_grown:
  assumes "makes mk call" and "place_calls mk P parent is = Ret Q"
    and "snd parent < length (hp_nodes P)" and "fst parent = hp_gen P"
  shows "grown P (snd parent) (map call is) [length (hp_nodes P)..<length (hp_nodes P) + length is] Q"
  using assms(2-)
proof (induction "is" arbitrary: P)
  case Nil
  then show ?case by (simp add: grown_refl)
next
  case (Cons i "is")
  then obtain R where R: "place_call mk P parent i = Ret R" "place_calls mk R parent is = Ret Q"
    by (auto simp: outcome_simps)
  have g: "grown P (snd parent) [call i] [length (hp_nodes P)] R"
    by (rule place_call_grown [OF assms(1) Cons.prems(2) R(1) Cons.prems(3)])
  then have len: "length (hp_nodes R) = Suc (length (hp_nodes P))" "hp_gen R = hp_gen P" by (simp_all add: grown_def)
  have "grown R (snd parent) (map call is) [length (hp_nodes R)..<length (hp_nodes R) + length is] Q"
    by (rule Cons.IH [OF R(2)]) (use len Cons.prems in simp_all)
  from grown_trans [OF g this Cons.prems(2)]
  have "grown P (snd parent) (map call (i # is))
      ([length (hp_nodes P)] @ [length (hp_nodes R)..<length (hp_nodes R) + length is]) Q" by simp
  moreover have "[length (hp_nodes P)..<length (hp_nodes P) + length (i # is)] =
      [length (hp_nodes P)] @ [length (hp_nodes R)..<length (hp_nodes R) + length is]"
    using len by (simp add: upt_conv_Cons del: upt_Suc)
  ultimately show ?case by simp
qed

lemma place_wave_grown:
  assumes mk: "makes mk call" and r: "place_wave mk P outer w k = Ret Q"
    and o: "snd outer < length (hp_nodes P)" "fst outer = hp_gen P"
  shows "grown P (snd outer) (wave_nodes call (length (hp_nodes P)) k w) [length (hp_nodes P)] Q"
proof (cases "length w = 1")
  case True
  with r place_call_grown [OF mk o(1) _ o(2)] show ?thesis by (simp add: place_wave_def wave_nodes_def)
next
  case False
  let ?n = "length (hp_nodes P)"
  obtain P1 r1 where al: "hu_hula_program_alloc_node P HU_HULA_PAR (Some (''w'' @ nat_str k)) = (P1, r1)"
    by (cases "hu_hula_program_alloc_node P HU_HULA_PAR (Some (''w'' @ nat_str k))")
  from r False al obtain par P2 where r1: "r1 = Some par" and calls: "place_calls mk P1 par w = Ret P2"
    and ch: "bridge_child P2 outer par = Ret Q"
    by (auto simp: place_wave_def outcome_simps split: option.splits)
  note a = alloc_Some [OF al [unfolded r1]]
  have name: "hp_name P1 = hp_name P" using al by (auto simp: hu_hula_program_alloc_node_def Let_def split: if_splits)
  have g: "grown P1 ?n (map call w) [?n + 1..<?n + 1 + length w] P2"
    using place_calls_grown [OF mk calls] a(1,2) by simp
  have nodes: "hp_nodes P2 = hp_nodes P @ wave_nodes call ?n k w"
    using g a(2) False by (simp add: grown_def wave_nodes_def nth_append list_update_append empty_node_def)
  have "fst outer = hp_gen P2" "Q = P2\<lparr>hp_nodes := (hp_nodes P2)[snd outer := (hp_nodes P2 ! snd outer)
      \<lparr>hn_children := hn_children (hp_nodes P2 ! snd outer) @ [?n]\<rparr>]\<rparr>"
    using bridge_child_Ret [OF ch] a(1) by (simp_all add: add_child_eq)
  moreover from this(1) o(2) g have "hp_gen P1 = hp_gen P" by (simp add: grown_def)
  then have "length (hp_nodes P) < hp_node_cap P" "hp_node_cap P1 = hp_node_cap P"
    using a(3,8) by (simp_all split: if_splits)
  moreover have "length (wave_nodes call ?n k w) = Suc (length w)" using False by (simp add: wave_nodes_def)
  moreover have "hp_root P2 = hp_root P" "hp_name P2 = hp_name P" "hp_node_cap P2 = hp_node_cap P1"
    "length (hp_nodes P1) \<le> hp_node_cap P1 \<longrightarrow> length (hp_nodes P1) + length w \<le> hp_node_cap P1"
    using g a(6) name by (simp_all add: grown_def)
  ultimately show ?thesis using nodes a(2) o
    by (simp add: grown_def nth_append list_update_append1)
qed

context wave_schedule
begin

lemma card_mark_placed:
  assumes "length placed = n" and "w = next_wave ready placed"
  shows "card {i. i < n \<and> mark_placed placed w ! i} = card {i. i < n \<and> placed ! i} + length w"
proof -
  have w: "set w \<subseteq> {i. i < n \<and> \<not> placed ! i}" "distinct w"
    using assms next_wave_set by (auto simp: next_wave_def)
  have "{i. i < n \<and> mark_placed placed w ! i} = {i. i < n \<and> placed ! i} \<union> set w"
    using w(1) assms(1) by (auto simp: mark_placed_nth)
  moreover have "{i. i < n \<and> placed ! i} \<inter> set w = {}" using w(1) by auto
  ultimately show ?thesis using w(2) by (simp add: card_Un_disjoint distinct_card)
qed

lemma wave_loop_lay:
  "wave_loop mk rdy P outer placed c k = Ret Q \<Longrightarrow> makes mk call \<Longrightarrow> rdy = ready \<Longrightarrow> length placed = n \<Longrightarrow>
    c = card {i. i < n \<and> placed ! i} \<Longrightarrow> fst outer = hp_gen P \<Longrightarrow> snd outer < length (hp_nodes P) \<Longrightarrow>
    \<exists>ws. sched placed ws \<and> grown P (snd outer) (snd (lay call (length (hp_nodes P)) k ws)) (fst (lay call (length (hp_nodes P)) k ws)) Q"
proof (induction mk rdy P outer placed c k arbitrary: Q rule: wave_loop.induct)
  case (1 mk rdy P outer placed c k)
  note len = \<open>length placed = n\<close> and c = \<open>c = card {i. i < n \<and> placed ! i}\<close> and o = \<open>fst outer = hp_gen P\<close> \<open>snd outer < length (hp_nodes P)\<close>
  show ?case
  proof (cases "c < length placed")
    case False
    with wave_loop.simps [of mk rdy P outer placed c k] 1(2) have Q: "Q = P" by simp
    have "card {i. i < n \<and> placed ! i} \<le> card {..<n}" by (rule card_mono) auto
    then have "card {i. i < n \<and> placed ! i} = card {..<n}" using False len c by simp
    then have "{i. i < n \<and> placed ! i} = {..<n}" by (intro card_subset_eq) auto
    then have "sched placed []" by auto
    with Q show ?thesis by (intro exI [of _ "[]"]) (simp add: grown_refl)
  next
    case True
    let ?w = "next_wave rdy placed"
    have w: "?w \<noteq> []" "length ?w \<le> HU_HULA_MAX_CHILDREN"
      using wave_loop.simps [of mk rdy P outer placed c k] 1(2) True by (auto simp: Let_def split: if_splits)
    with wave_loop.simps [of mk rdy P outer placed c k] 1(2) True
    have "obind (place_wave mk P outer ?w k) (\<lambda>P1.
        wave_loop mk rdy P1 outer (mark_placed placed ?w) (c + length ?w) (k + 1)) = Ret Q" by (simp add: Let_def)
    then obtain P1 where P1: "place_wave mk P outer ?w k = Ret P1"
      and rest: "wave_loop mk rdy P1 outer (mark_placed placed ?w) (c + length ?w) (k + 1) = Ret Q"
      by (auto simp: outcome_simps)
    let ?new = "wave_nodes call (length (hp_nodes P)) k ?w"
    have g: "grown P (snd outer) ?new [length (hp_nodes P)] P1"
      by (rule place_wave_grown [OF 1(3) P1 o(2,1)])
    then have n1: "length (hp_nodes P1) = length (hp_nodes P) + length ?new" "hp_gen P1 = hp_gen P" by (simp_all add: grown_def)
    obtain ws where ws: "sched (mark_placed placed ?w) ws"
      "grown P1 (snd outer) (snd (lay call (length (hp_nodes P1)) (k + 1) ws)) (fst (lay call (length (hp_nodes P1)) (k + 1) ws)) Q"
      using 1(1) [OF True refl w(1) _ P1 rest 1(3,4)] w(2) len o n1 card_mark_placed [OF len, of ?w] c 1(4) by auto
    have "sched placed (?w # ws)" using w(1) ws(1) 1(4) by simp
    moreover have "grown P (snd outer) (snd (lay call (length (hp_nodes P)) k (?w # ws))) (fst (lay call (length (hp_nodes P)) k (?w # ws))) Q"
      using grown_trans [OF g ws(2) o(2)] n1(1) by (simp add: Let_def case_prod_unfold)
    ultimately show ?thesis by blast
  qed
qed

lemma run_waves_lay:
  assumes mk: "makes mk call" and r: "run_waves mk ready ident n (hu_hula_program_init name) = Ret prog"
  shows "\<exists>ws. sched (replicate n False) ws \<and> hp_root prog = Some 0 \<and> hp_name prog = hp_name (hu_hula_program_init name) \<and>
    hp_nodes prog = (empty_node HU_HULA_SEQ (Some ident))\<lparr>hn_children := fst (lay call 1 0 ws)\<rparr> # snd (lay call 1 0 ws) \<and>
    length (hp_nodes prog) \<le> 16"
proof -
  let ?P = "hu_hula_program_init name"
  obtain P1 r1 where al: "hu_hula_program_alloc_node ?P HU_HULA_SEQ (Some ident) = (P1, r1)"
    by (cases "hu_hula_program_alloc_node ?P HU_HULA_SEQ (Some ident)")
  have P1: "hp_nodes P1 = [empty_node HU_HULA_SEQ (Some ident)]" "hp_node_cap P1 = 16" "hp_root P1 = None" "hp_name P1 = hp_name ?P"
    "r1 = Some (hp_gen P1, 0)"
    using al by (auto simp: hu_hula_program_alloc_node_def hu_hula_program_init_def HU_HULA_MAX_NODES_def Let_def)
  from r al P1(5) obtain Q where Q: "wave_loop mk ready P1 (hp_gen P1, 0) (replicate n False) 0 0 = Ret Q" "prog = Q\<lparr>hp_root := Some 0\<rparr>"
    by (auto simp: run_waves_def outcome_simps split: if_splits)
  have "card {i. i < n \<and> replicate n False ! i} = 0" by auto
  from wave_loop_lay [OF Q(1) mk refl _ this [symmetric]] P1(1) obtain ws where "sched (replicate n False) ws"
    and g: "grown P1 0 (snd (lay call 1 0 ws)) (fst (lay call 1 0 ws)) Q" by auto
  moreover from g P1 Q(2) have "length (hp_nodes prog) \<le> 16" by (auto simp: grown_def)
  ultimately show ?thesis using P1 Q(2) by (intro exI [of _ ws]) (simp add: grown_def empty_node_def)
qed

end

section \<open>The layout is a program\<close>

lemma wave_nodes_length: "length (wave_nodes call s k w) = (if length w = 1 then 1 else Suc (length w))"
  by (simp add: wave_nodes_def)

lemma lay_range:
  "length (fst (lay call s k ws)) \<le> length (snd (lay call s k ws)) \<and>
   (\<forall>c \<in> set (fst (lay call s k ws)). s \<le> c \<and> c < s + length (snd (lay call s k ws)))"
proof (induction ws arbitrary: s k)
  case (Cons w ws)
  let ?m = "length (wave_nodes call s k w)" and ?l = "lay call (s + length (wave_nodes call s k w)) (k + 1) ws"
  have m: "0 < ?m" by (simp add: wave_nodes_length)
  note IH = Cons [of "s + ?m" "k + 1"]
  have l: "lay call s k (w # ws) = (s # fst ?l, wave_nodes call s k w @ snd ?l)" by (simp add: Let_def case_prod_unfold)
  have "s \<le> c \<and> c < s + (?m + length (snd ?l))" if "c \<in> insert s (set (fst ?l))" for c
    using that IH m by (auto dest!: bspec)
  moreover have "Suc (length (fst ?l)) \<le> ?m + length (snd ?l)" using IH m by linarith
  ultimately show ?case unfolding l by simp
qed simp

text \<open>The children of the node at position \<open>j\<close> are the positions behind it, as many as the wave has steps.\<close>

lemma lay_children:
  assumes "\<And>i. hn_children (call i) = []"
  shows "j < length (snd (lay call s k ws)) \<Longrightarrow>
    \<exists>m. hn_children (snd (lay call s k ws) ! j) = [s + j + 1..<s + j + 1 + m] \<and> j + m < length (snd (lay call s k ws))"
proof (induction ws arbitrary: s k j)
  case (Cons w ws)
  let ?new = "wave_nodes call s k w"
  let ?rest = "snd (lay call (s + length ?new) (k + 1) ws)"
  have l: "snd (lay call s k (w # ws)) = ?new @ ?rest" by (simp add: Let_def case_prod_unfold)
  show ?case
  proof (cases "j < length ?new")
    case True
    then have "\<exists>m. hn_children (?new ! j) = [s + j + 1..<s + j + 1 + m] \<and> j + m < length ?new"
      using assms by (cases j) (auto simp: wave_nodes_def intro: exI [of _ 0] exI [of _ "length w"] split: if_splits)
    with True show ?thesis unfolding l by (auto simp: nth_append)
  next
    case False
    with Cons.prems have "j - length ?new < length ?rest" unfolding l by simp
    from Cons.IH [OF this] False show ?thesis unfolding l by (auto simp: nth_append)
  qed
qed simp

definition laid_out :: "(nat \<Rightarrow> hula_node) \<Rightarrow> string \<Rightarrow> nat list list \<Rightarrow> hula_program \<Rightarrow> bool" where
  "laid_out call ident ws prog \<longleftrightarrow> hp_root prog = Some 0 \<and> length (hp_nodes prog) \<le> 16 \<and>
     hp_nodes prog = (empty_node HU_HULA_SEQ (Some ident))\<lparr>hn_children := fst (lay call 1 0 ws)\<rparr> # snd (lay call 1 0 ws)"

lemma laid_out_wf:
  assumes "laid_out call ident ws prog" and "\<And>i. hn_children (call i) = []"
  shows "wf_from 0 (hp_nodes prog)"
  unfolding wf_from_def
proof (intro allI impI)
  fix i assume i: "i < length (hp_nodes prog)"
  let ?l = "lay call 1 0 ws"
  have nodes: "hp_nodes prog = (empty_node HU_HULA_SEQ (Some ident))\<lparr>hn_children := fst ?l\<rparr> # snd ?l"
    and len: "length (hp_nodes prog) \<le> 16" using assms(1) unfolding laid_out_def by blast+
  show "(\<forall>c \<in> set (hn_children (hp_nodes prog ! i)). i < c \<and> c < length (hp_nodes prog)) \<and>
      length (hn_children (hp_nodes prog ! i)) \<le> HU_HULA_MAX_CHILDREN"
  proof (cases i)
    case 0
    then show ?thesis using lay_range [of call 1 0 ws] len unfolding nodes
      by (auto simp: HU_HULA_MAX_CHILDREN_def)
  next
    case (Suc j)
    then have "j < length (snd ?l)" using i unfolding nodes by simp
    from lay_children [OF assms(2) this] Suc len show ?thesis unfolding nodes
      by (auto simp: HU_HULA_MAX_CHILDREN_def)
  qed
qed

section \<open>Small plans are laid out\<close>

lemma alloc_room:
  assumes "length (hp_nodes P) < hp_node_cap P" and "hp_node_cap P \<le> HU_HULA_MAX_NODES"
  shows "hu_hula_program_alloc_node P opc ident =
    (P\<lparr>hp_nodes := hp_nodes P @ [empty_node opc ident]\<rparr>, Some (hp_gen P, length (hp_nodes P)))"
  using assms by (simp add: hu_hula_program_alloc_node_def Let_def)

lemma bridge_child_room:
  assumes "fst p = hp_gen P" "snd p < length (hp_nodes P)" "fst q = hp_gen P"
    and "length (hn_children (hp_nodes P ! snd p)) < HU_HULA_MAX_CHILDREN"
  shows "\<exists>Q. bridge_child P p q = Ret Q"
  using assms by (simp add: bridge_child_def node_read_def add_child_def node_write_def)

lemma place_call_room:
  assumes "makes mk call" and "length (hp_nodes P) < hp_node_cap P" "hp_node_cap P \<le> HU_HULA_MAX_NODES"
    and "fst p = hp_gen P" "snd p < length (hp_nodes P)"
    and "length (hn_children (hp_nodes P ! snd p)) < HU_HULA_MAX_CHILDREN"
  shows "\<exists>Q. place_call mk P p i = Ret Q"
proof -
  have "mk P i = Ret (P\<lparr>hp_nodes := hp_nodes P @ [call i]\<rparr>, Some (hp_gen P, length (hp_nodes P)))"
    using assms(1) alloc_room [OF assms(2,3)] by (simp add: makes_def)
  with assms(4-6) show ?thesis
    by (simp add: place_call_def bridge_child_room nth_append)
qed

lemma grown_children:
  "grown P a new cs Q \<Longrightarrow> a < length (hp_nodes P) \<Longrightarrow> hn_children (hp_nodes Q ! a) = hn_children (hp_nodes P ! a) @ cs"
  by (simp add: grown_def nth_append)

lemma grown_simps:
  "grown P a new cs Q \<Longrightarrow> hp_gen Q = hp_gen P" "grown P a new cs Q \<Longrightarrow> hp_node_cap Q = hp_node_cap P"
  "grown P a new cs Q \<Longrightarrow> length (hp_nodes Q) = length (hp_nodes P) + length new"
  by (simp_all add: grown_def)

lemma place_calls_room:
  assumes "makes mk call"
  shows "length (hp_nodes P) + length is \<le> hp_node_cap P \<Longrightarrow> hp_node_cap P \<le> HU_HULA_MAX_NODES \<Longrightarrow>
    fst p = hp_gen P \<Longrightarrow> snd p < length (hp_nodes P) \<Longrightarrow>
    length (hn_children (hp_nodes P ! snd p)) + length is \<le> HU_HULA_MAX_CHILDREN \<Longrightarrow>
    \<exists>Q. place_calls mk P p is = Ret Q"
proof (induction "is" arbitrary: P)
  case (Cons i "is")
  then obtain R where R: "place_call mk P p i = Ret R" using place_call_room [OF assms, of P p i] by auto
  note g = place_call_grown [OF assms Cons.prems(4) R Cons.prems(3)]
  have "\<exists>Q. place_calls mk R p is = Ret Q"
    by (rule Cons.IH) (use Cons.prems grown_simps [OF g] grown_children [OF g Cons.prems(4)] in simp_all)
  with R show ?case by simp
qed simp

lemma place_wave_room:
  assumes mk: "makes mk call" and room: "length (hp_nodes P) + length w + 1 \<le> 16" "hp_node_cap P = 16"
    and o: "fst outer = hp_gen P" "snd outer < length (hp_nodes P)"
    "length (hn_children (hp_nodes P ! snd outer)) < HU_HULA_MAX_CHILDREN"
  shows "\<exists>Q. place_wave mk P outer w k = Ret Q"
proof (cases "length w = 1")
  case True
  with place_call_room [OF mk, of P outer] room o show ?thesis by (simp add: place_wave_def HU_HULA_MAX_NODES_def)
next
  case False
  let ?P1 = "P\<lparr>hp_nodes := hp_nodes P @ [empty_node HU_HULA_PAR (Some (''w'' @ nat_str k))]\<rparr>"
  let ?par = "(hp_gen P, length (hp_nodes P))"
  have al: "hu_hula_program_alloc_node P HU_HULA_PAR (Some (''w'' @ nat_str k)) = (?P1, Some ?par)"
    using alloc_room [of P] room by (simp add: HU_HULA_MAX_NODES_def)
  have "\<exists>Q. place_calls mk ?P1 ?par w = Ret Q"
    by (rule place_calls_room [OF mk]) (use room in \<open>simp_all add: HU_HULA_MAX_NODES_def HU_HULA_MAX_CHILDREN_def empty_node_def\<close>)
  then obtain P2 where P2: "place_calls mk ?P1 ?par w = Ret P2" by blast
  have g: "grown ?P1 (length (hp_nodes P)) (map call w) [Suc (length (hp_nodes P))..<Suc (length (hp_nodes P)) + length w] P2"
    using place_calls_grown [OF mk P2] by simp
  have "hp_nodes P2 ! snd outer = hp_nodes P ! snd outer" using g o(2) by (simp add: grown_def nth_append)
  with grown_simps [OF g] o have "\<exists>Q. bridge_child P2 outer ?par = Ret Q" by (intro bridge_child_room) simp_all
  with False al P2 show ?thesis by (simp add: place_wave_def)
qed

context wave_schedule
begin

lemma wave_loop_room:
  assumes "wf {(d, i). i < n \<and> d \<in> deps i}" and "\<forall>i < n. \<forall>d \<in> deps i. d < n" and "n \<le> 10"
  shows "makes mk call \<Longrightarrow> rdy = ready \<Longrightarrow> length placed = n \<Longrightarrow> c = card {i. i < n \<and> placed ! i} \<Longrightarrow>
    fst outer = hp_gen P \<Longrightarrow> snd outer < length (hp_nodes P) \<Longrightarrow> hp_node_cap P = 16 \<Longrightarrow>
    2 * length (hp_nodes P) \<le> 2 + 3 * c \<Longrightarrow> length (hn_children (hp_nodes P ! snd outer)) \<le> c \<Longrightarrow>
    \<exists>Q. wave_loop mk rdy P outer placed c k = Ret Q \<and> hp_gen Q = hp_gen P"
proof (induction mk rdy P outer placed c k rule: wave_loop.induct)
  case (1 mk rdy P outer placed c k)
  note len = \<open>length placed = n\<close> and c = \<open>c = card {i. i < n \<and> placed ! i}\<close> and o = \<open>fst outer = hp_gen P\<close> \<open>snd outer < length (hp_nodes P)\<close>
    and cap = \<open>hp_node_cap P = 16\<close> and sz = \<open>2 * length (hp_nodes P) \<le> 2 + 3 * c\<close>
    and ch = \<open>length (hn_children (hp_nodes P ! snd outer)) \<le> c\<close> and rdy = \<open>rdy = ready\<close> and mk = \<open>makes mk call\<close>
  show ?case
  proof (cases "c < length placed")
    case False
    then show ?thesis by (simp add: wave_loop.simps [of mk rdy P outer])
  next
    case True
    let ?w = "next_wave rdy placed"
    have "\<exists>i < n. \<not> placed ! i"
    proof (rule ccontr)
      assume "\<not> (\<exists>i < n. \<not> placed ! i)"
      then have "{i. i < n \<and> placed ! i} = {..<n}" by auto
      with True len c show False by simp
    qed
    then have w: "?w \<noteq> []" using next_wave_exists [OF assms(1,2) len] rdy by blast
    have cw: "c + length ?w = card {i. i < n \<and> mark_placed placed ?w ! i}" using card_mark_placed [OF len, of ?w] c rdy by simp
    have "card {i. i < n \<and> mark_placed placed ?w ! i} \<le> card {..<n}" by (rule card_mono) auto
    then have le: "c + length ?w \<le> n" using cw by simp
    have w1: "1 \<le> length ?w" using w by (cases ?w) simp_all
    have "\<exists>P1. place_wave mk P outer ?w k = Ret P1"
      by (rule place_wave_room [OF mk]) (use sz le w1 assms(3) cap o ch in \<open>simp_all add: HU_HULA_MAX_CHILDREN_def\<close>)
    then obtain P1 where P1: "place_wave mk P outer ?w k = Ret P1" by blast
    note g = place_wave_grown [OF mk P1 o(2,1)]
    have "\<exists>Q. wave_loop mk rdy P1 outer (mark_placed placed ?w) (c + length ?w) (k + 1) = Ret Q \<and> hp_gen Q = hp_gen P1"
    proof (rule 1(1) [OF True refl w _ P1 mk rdy _ cw])
      show "\<not> HU_HULA_MAX_CHILDREN < length ?w" using le assms(3) by (simp add: HU_HULA_MAX_CHILDREN_def)
      show "2 * length (hp_nodes P1) \<le> 2 + 3 * (c + length ?w)"
        using grown_simps(3) [OF g] sz w1 by (auto simp: wave_nodes_length split: if_splits)
    qed (use grown_simps [OF g] grown_children [OF g o(2)] len o cap ch w1 in simp_all)
    moreover have "wave_loop mk rdy P outer placed c k =
        wave_loop mk rdy P1 outer (mark_placed placed ?w) (c + length ?w) (k + 1)"
      using True w le assms(3) P1
      by (simp add: wave_loop.simps [of mk rdy P outer] Let_def HU_HULA_MAX_CHILDREN_def)
    ultimately show ?thesis using grown_simps(1) [OF g] by simp
  qed
qed

lemma run_waves_room:
  assumes "wf {(d, i). i < n \<and> d \<in> deps i}" and "\<forall>i < n. \<forall>d \<in> deps i. d < n" and "n \<le> 10"
    and mk: "makes mk call"
  shows "\<exists>prog. run_waves mk ready ident n (hu_hula_program_init name) = Ret prog"
proof -
  let ?P = "hu_hula_program_init name"
  obtain P1 r1 where al0: "hu_hula_program_alloc_node ?P HU_HULA_SEQ (Some ident) = (P1, r1)"
    by (cases "hu_hula_program_alloc_node ?P HU_HULA_SEQ (Some ident)")
  have P1: "hp_nodes P1 = [empty_node HU_HULA_SEQ (Some ident)]" "hp_node_cap P1 = 16" "r1 = Some (hp_gen P1, 0)"
    using al0 by (auto simp: hu_hula_program_alloc_node_def hu_hula_program_init_def HU_HULA_MAX_NODES_def Let_def)
  note al = al0 [unfolded P1(3)]
  have "card {i. i < n \<and> replicate n False ! i} = 0" by auto
  with wave_loop_room [OF assms(1-3) mk refl, where placed = "replicate n False" and c = 0 and outer = "(hp_gen P1, 0)"
      and P = P1 and k = 0] P1
  obtain Q where "wave_loop mk ready P1 (hp_gen P1, 0) (replicate n False) 0 0 = Ret Q" "hp_gen Q = hp_gen P1"
    by (auto simp: empty_node_def)
  then show ?thesis by (simp add: run_waves_def al)
qed

end

section \<open>The two bridges\<close>

definition plan_deps :: "hu_plan_step list \<Rightarrow> nat \<Rightarrow> nat set" where
  "plan_deps steps i =
     (\<lambda>di. if 0 \<le> di \<and> nat di < length steps then nat di else length steps) ` set (ps_depends_on (steps ! i))"

definition plan_node :: "hu_plan_step list \<Rightarrow> nat \<Rightarrow> hula_node" where
  "plan_node steps i = (empty_node HU_HULA_CALL (Some (''s'' @ nat_str i)))
     \<lparr>hn_tool_name := ps_tool_name (steps ! i), hn_args_json := ps_args_json (steps ! i),
      hn_description := ps_description (steps ! i)\<rparr>"

definition dag_deps :: "hu_dag \<Rightarrow> nat \<Rightarrow> nat set" where
  "dag_deps dag i =
     (\<lambda>d. case dag_index_by_id (dag_nodes dag) d of None \<Rightarrow> length (dag_nodes dag) | Some j \<Rightarrow> j)
       ` set (dn_deps (dag_nodes dag ! i))"

definition dag_call_node :: "hu_dag \<Rightarrow> nat \<Rightarrow> hula_node" where
  "dag_call_node dag i = (empty_node HU_HULA_CALL (Some (take 39 (dn_id (dag_nodes dag ! i)))))
     \<lparr>hn_tool_name := Some (dn_tool_name (dag_nodes dag ! i)), hn_args_json := dn_args_json (dag_nodes dag ! i),
      hn_description := None\<rparr>"

lemma dag_index_find: "dag_index_by_id ns ident = find_index ns ident"
  by (induction ns) simp_all

lemma dag_index_less: "dag_index_by_id ns ident = Some j \<Longrightarrow> j < length ns"
  by (induction ns arbitrary: j) (auto split: if_splits)

lemma call_nodes [simp]:
  "hn_op (plan_node steps i) = HU_HULA_CALL" "hn_id (plan_node steps i) = Some (''s'' @ nat_str i)"
  "hn_children (plan_node steps i) = []"
  "hn_op (dag_call_node dag i) = HU_HULA_CALL" "hn_id (dag_call_node dag i) = Some (take 39 (dn_id (dag_nodes dag ! i)))"
  "hn_children (dag_call_node dag i) = []"
  by (simp_all add: plan_node_def dag_call_node_def empty_node_def)

lemma plan_makes: "makes (plan_call steps) (plan_node steps)"
  unfolding makes_def call_nodes plan_call_def Let_def bridge_alloc_call_eq plan_node_def [symmetric] by blast

lemma dag_makes: "makes (dag_call dag) (dag_call_node dag)"
  unfolding makes_def call_nodes dag_call_def Let_def bridge_alloc_call_eq dag_call_node_def [symmetric] by blast

interpretation plan_waves: wave_schedule "length steps" "plan_step_ready steps" "plan_deps steps" for steps
proof
  fix placed i
  let ?f = "\<lambda>di. if 0 \<le> di \<and> nat di < length steps then nat di else length steps"
  have "(0 \<le> di \<and> nat di < length steps \<and> placed ! nat di) \<longleftrightarrow> ?f di < length steps \<and> placed ! ?f di" for di
    by (cases "0 \<le> di \<and> nat di < length steps") auto
  then show "plan_step_ready steps placed i \<longleftrightarrow> (\<forall>d \<in> plan_deps steps i. d < length steps \<and> placed ! d)"
    unfolding plan_step_ready_def plan_deps_def list_all_iff by blast
qed

interpretation dag_waves: wave_schedule "length (dag_nodes dag)" "dag_node_ready dag" "dag_deps dag" for dag
proof
  fix placed i
  have "(case dag_index_by_id (dag_nodes dag) d of None \<Rightarrow> False | Some j \<Rightarrow> placed ! j) \<longleftrightarrow>
      (case dag_index_by_id (dag_nodes dag) d of None \<Rightarrow> length (dag_nodes dag) | Some j \<Rightarrow> j) < length (dag_nodes dag) \<and>
      placed ! (case dag_index_by_id (dag_nodes dag) d of None \<Rightarrow> length (dag_nodes dag) | Some j \<Rightarrow> j)" for d
    using dag_index_less [of "dag_nodes dag" d] by (cases "dag_index_by_id (dag_nodes dag) d") simp_all
  then show "dag_node_ready dag placed i \<longleftrightarrow> (\<forall>d \<in> dag_deps dag i. d < length (dag_nodes dag) \<and> placed ! d)"
    unfolding dag_node_ready_def dag_deps_def list_all_iff by blast
qed

text \<open>Plans without dependencies.\<close>

lemma flat_calls_grown:
  assumes "makes mk call"
  shows "flat_calls mk P flat is = Ret Q \<Longrightarrow> fst flat = hp_gen P \<Longrightarrow> snd flat < length (hp_nodes P) \<Longrightarrow>
    grown P (snd flat) (map call is) [length (hp_nodes P)..<length (hp_nodes P) + length is] Q"
proof (induction "is" arbitrary: P)
  case Nil
  then show ?case by (simp add: grown_refl)
next
  case (Cons i "is")
  from Cons.prems(1) obtain P1 c R where R: "mk P i = Ret (P1, Some c)" "add_child P1 flat c = Ret R" "flat_calls mk R flat is = Ret Q"
    by (auto simp: outcome_simps split: option.splits)
  note g = place_one [OF assms Cons.prems(3) R(1,2) Cons.prems(2)]
  have "grown R (snd flat) (map call is) [length (hp_nodes R)..<length (hp_nodes R) + length is] Q"
    by (rule Cons.IH [OF R(3)]) (use grown_simps [OF g] Cons.prems in simp_all)
  from grown_trans [OF g this Cons.prems(3)]
  have "grown P (snd flat) (map call (i # is))
      ([length (hp_nodes P)] @ [length (hp_nodes R)..<length (hp_nodes R) + length is]) Q" by simp
  moreover have "[length (hp_nodes P)..<length (hp_nodes P) + length (i # is)] =
      [length (hp_nodes P)] @ [length (hp_nodes R)..<length (hp_nodes R) + length is]"
    using grown_simps(3) [OF g] by (simp add: upt_conv_Cons del: upt_Suc)
  ultimately show ?case by simp
qed

lemma lay_singles: "lay call s k (map (\<lambda>i. [i]) is) = ([s..<s + length is], map call is)"
proof (induction "is" arbitrary: s k)
  case (Cons i "is")
  have "[s..<s + length (i # is)] = s # [s + 1..<s + 1 + length is]" by (simp add: upt_conv_Cons del: upt_Suc)
  with Cons [of "s + 1" "k + 1"] show ?case by (simp add: Let_def wave_nodes_def del: upt_Suc)
qed simp

lemma flat_calls_uaf:
  assumes "makes mk call"
  shows "fst flat = hp_gen P \<Longrightarrow> snd flat < length (hp_nodes P) \<Longrightarrow> hp_node_cap P = 16 \<Longrightarrow>
    length (hp_nodes P) \<le> 16 \<Longrightarrow> 16 < length (hp_nodes P) + length is \<Longrightarrow> flat_calls mk P flat is = Undef UseAfterFree"
proof (induction "is" arbitrary: P)
  case (Cons i "is")
  show ?case
  proof (cases "length (hp_nodes P) < 16")
    case True
    then have m: "mk P i = Ret (P\<lparr>hp_nodes := hp_nodes P @ [call i]\<rparr>, Some (hp_gen P, length (hp_nodes P)))"
      using assms alloc_room [of P] Cons.prems(3) by (simp add: makes_def HU_HULA_MAX_NODES_def)
    then obtain R where R: "add_child (P\<lparr>hp_nodes := hp_nodes P @ [call i]\<rparr>) flat (hp_gen P, length (hp_nodes P)) = Ret R"
      using Cons.prems(1,2) by (auto simp: add_child_def node_read_def node_write_def)
    note g = place_one [OF assms Cons.prems(2) m R Cons.prems(1)]
    have "flat_calls mk R flat is = Undef UseAfterFree"
      by (rule Cons.IH) (use grown_simps [OF g] Cons.prems True in simp_all)
    with m R show ?thesis by simp
  next
    case False
    with Cons.prems obtain Q where "hu_hula_program_alloc_node P (hn_op (call i)) (hn_id (call i)) = (Q, Some (hp_gen P + 1, 16))"
      and "hp_gen Q = hp_gen P + 1"
      by (auto simp: hu_hula_program_alloc_node_def HU_HULA_MAX_NODES_def Let_def)
    then have "mk P i = Ret (Q\<lparr>hp_nodes := hp_nodes P @ [call i]\<rparr>, Some (hp_gen P + 1, 16))"
      using assms by (simp add: makes_def)
    with Cons.prems(1) \<open>hp_gen Q = hp_gen P + 1\<close> show ?thesis by (simp add: add_child_def node_read_def)
  qed
qed simp

lemma flat_calls_room:
  assumes "makes mk call"
  shows "length (hp_nodes P) + length is \<le> hp_node_cap P \<Longrightarrow> hp_node_cap P \<le> HU_HULA_MAX_NODES \<Longrightarrow>
    fst flat = hp_gen P \<Longrightarrow> snd flat < length (hp_nodes P) \<Longrightarrow> \<exists>Q. flat_calls mk P flat is = Ret Q \<and> hp_gen Q = hp_gen P"
proof (induction "is" arbitrary: P)
  case (Cons i "is")
  then have m: "mk P i = Ret (P\<lparr>hp_nodes := hp_nodes P @ [call i]\<rparr>, Some (hp_gen P, length (hp_nodes P)))"
    using assms alloc_room [of P] by (simp add: makes_def)
  obtain R where R: "add_child (P\<lparr>hp_nodes := hp_nodes P @ [call i]\<rparr>) flat (hp_gen P, length (hp_nodes P)) = Ret R"
    using Cons.prems(3,4) by (auto simp: add_child_def node_read_def node_write_def)
  note g = place_one [OF assms Cons.prems(4) m R Cons.prems(3)]
  have "\<exists>Q. flat_calls mk R flat is = Ret Q \<and> hp_gen Q = hp_gen R"
    by (rule Cons.IH) (use grown_simps [OF g] Cons.prems in simp_all)
  with m R grown_simps(1) [OF g] show ?case by simp
qed simp

lemma from_plan_room:
  assumes "length steps \<le> 10" and deps: "\<forall>i < length steps. \<forall>di \<in> set (ps_depends_on (steps ! i)). 0 \<le> di \<and> nat di < i"
  shows "\<exists>prog. hu_hula_from_plan steps name = Ret prog"
proof (cases "list_ex (\<lambda>st. ps_depends_on st \<noteq> []) steps")
  case True
  have d: "d < i" if "i < length steps" "d \<in> plan_deps steps i" for d i
  proof -
    from that(2) obtain di where di: "di \<in> set (ps_depends_on (steps ! i))"
      "d = (if 0 \<le> di \<and> nat di < length steps then nat di else length steps)"
      unfolding plan_deps_def by blast
    with deps that(1) have "0 \<le> di" "nat di < i" by blast+
    with di(2) that(1) show ?thesis by simp
  qed
  then have "wf {(d, i). i < length steps \<and> d \<in> plan_deps steps i}"
    by (intro wf_subset [OF wf_less_than]) auto
  moreover have "\<forall>i < length steps. \<forall>d \<in> plan_deps steps i. d < length steps" using d by (meson less_trans)
  ultimately have "\<exists>prog. run_waves (plan_call steps) (plan_step_ready steps) ''plan'' (length steps) (hu_hula_program_init name) = Ret prog"
    using plan_waves.run_waves_room [OF _ _ assms(1) plan_makes] by blast
  with True show ?thesis by (cases "steps = []") (simp_all add: hu_hula_from_plan_def Let_def)
next
  case False
  show ?thesis
  proof (cases "steps = []")
    case False
    let ?P = "hu_hula_program_init name"
    obtain P1 r1 where al: "hu_hula_program_alloc_node ?P HU_HULA_SEQ (Some ''plan'') = (P1, r1)"
      by (cases "hu_hula_program_alloc_node ?P HU_HULA_SEQ (Some ''plan'')")
    have P1: "hp_nodes P1 = [empty_node HU_HULA_SEQ (Some ''plan'')]" "hp_node_cap P1 = 16" "r1 = Some (hp_gen P1, 0)"
      using al by (auto simp: hu_hula_program_alloc_node_def hu_hula_program_init_def HU_HULA_MAX_NODES_def Let_def)
    obtain Q where "flat_calls (plan_call steps) P1 (hp_gen P1, 0) [0..<length steps] = Ret Q" "hp_gen Q = hp_gen P1"
      using flat_calls_room [OF plan_makes, of P1 "[0..<length steps]" "(hp_gen P1, 0)"] P1 assms(1)
      by (auto simp: HU_HULA_MAX_NODES_def)
    with False \<open>\<not> list_ex _ steps\<close> al P1 assms(1) show ?thesis
      by (simp add: hu_hula_from_plan_def HU_HULA_MAX_CHILDREN_def)
  qed (simp add: hu_hula_from_plan_def)
qed

section \<open>Properties\<close>


text \<open>The waves of a list of steps: each step in one wave, and behind the steps it depends on.\<close>

definition waves_of :: "nat \<Rightarrow> (nat \<Rightarrow> nat set) \<Rightarrow> nat list list \<Rightarrow> bool" where
  "waves_of n deps ws \<longleftrightarrow> distinct (concat ws) \<and> set (concat ws) = {..<n} \<and>
     (\<forall>k < length ws. \<forall>i \<in> set (ws ! k). \<forall>d \<in> deps i. \<exists>j < k. d \<in> set (ws ! j))"

context wave_schedule
begin

lemma waves_of_sched: "sched (replicate n False) ws \<Longrightarrow> waves_of n deps ws"
  using sched_order [of "replicate n False" ws] unfolding waves_of_def in_order_def by fastforce

lemma run_waves_laid_out:
  assumes "makes mk call" and "run_waves mk ready ident n (hu_hula_program_init name) = Ret prog"
  shows "\<exists>ws. waves_of n deps ws \<and> laid_out call ident ws prog"
  using run_waves_lay [OF assms] waves_of_sched unfolding laid_out_def by blast

end

lemma from_plan_laid_out:
  assumes "hu_hula_from_plan steps name = Ret prog" and "steps \<noteq> []"
  shows "\<exists>ws. waves_of (length steps) (plan_deps steps) ws \<and> laid_out (plan_node steps) ''plan'' ws prog"
proof (cases "list_ex (\<lambda>st. ps_depends_on st \<noteq> []) steps")
  case True
  with assms have "run_waves (plan_call steps) (plan_step_ready steps) ''plan'' (length steps) (hu_hula_program_init name) = Ret prog"
    by (simp add: hu_hula_from_plan_def)
  then show ?thesis by (rule plan_waves.run_waves_laid_out [OF plan_makes])
next
  case False
  let ?n = "length steps" and ?P = "hu_hula_program_init name"
  let ?ws = "map (\<lambda>i. [i]) [0..<?n]"
  obtain P1 r1 where al: "hu_hula_program_alloc_node ?P HU_HULA_SEQ (Some ''plan'') = (P1, r1)"
    by (cases "hu_hula_program_alloc_node ?P HU_HULA_SEQ (Some ''plan'')")
  have P1: "hp_nodes P1 = [empty_node HU_HULA_SEQ (Some ''plan'')]" "hp_node_cap P1 = 16" "r1 = Some (hp_gen P1, 0)"
    using al by (auto simp: hu_hula_program_alloc_node_def hu_hula_program_init_def HU_HULA_MAX_NODES_def Let_def)
  from assms False al P1(3) obtain Q where Q: "flat_calls (plan_call steps) P1 (hp_gen P1, 0) [0..<?n] = Ret Q"
    "prog = Q\<lparr>hp_root := Some 0\<rparr>"
    by (auto simp: hu_hula_from_plan_def outcome_simps Let_def split: if_splits)
  have g: "grown P1 0 (map (plan_node steps) [0..<?n]) [1..<1 + ?n] Q"
    using flat_calls_grown [OF plan_makes Q(1)] P1(1) by simp
  have "laid_out (plan_node steps) ''plan'' ?ws prog"
    using g P1 Q(2) unfolding laid_out_def lay_singles by (auto simp: grown_def empty_node_def)
  moreover have "plan_deps steps i = {}" if "i < ?n" for i
    using False that by (simp add: plan_deps_def list_ex_iff)
  then have "waves_of ?n (plan_deps steps) ?ws"
    by (auto simp: waves_of_def comp_def)
  ultimately show ?thesis by blast
qed

text \<open>
  C7: a program that \<^verbatim>\<open>hu_hula_from_plan\<close> makes of a plan holds every step of the plan exactly once, as a CALL
  node with its tool and arguments, in waves: every step stands in a later wave than the steps it depends on (so
  all dependencies name steps), and the program is the sequence of the waves, a single step as its call and
  several as a PAR node over their calls.  The program is well formed.
\<close>

theorem hula_from_plan_waves:
  assumes "hu_hula_from_plan steps name = Ret prog" and "steps \<noteq> []"
  shows "wf_prog prog \<and> (\<exists>ws. distinct (concat ws) \<and> set (concat ws) = {..<length steps} \<and>
     (\<forall>k < length ws. \<forall>i \<in> set (ws ! k). \<forall>d \<in> plan_deps steps i. \<exists>j < k. d \<in> set (ws ! j)) \<and>
     hp_root prog = Some 0 \<and>
     hp_nodes prog = (empty_node HU_HULA_SEQ (Some ''plan''))\<lparr>hn_children := fst (lay (plan_node steps) 1 0 ws)\<rparr> #
       snd (lay (plan_node steps) 1 0 ws))"
proof -
  obtain ws where w: "waves_of (length steps) (plan_deps steps) ws" and l: "laid_out (plan_node steps) ''plan'' ws prog"
    using from_plan_laid_out [OF assms] by blast
  have "wf_prog prog" using laid_out_wf [OF l] l by (auto simp: wf_prog_def laid_out_def)
  with w l show ?thesis unfolding waves_of_def laid_out_def by blast
qed

definition sample_steps :: "hu_plan_step list" where
  "sample_steps = map (\<lambda>ds. \<lparr>ps_tool_name = Some ''t'', ps_args_json = None, ps_description = None,
     ps_status = HU_PLAN_STEP_PENDING, ps_depends_on = ds\<rparr>) [[], [], [0, 1]]"

lemma sample_steps_run: "\<exists>prog. hu_hula_from_plan sample_steps None = Ret prog"
  by (rule from_plan_room) (auto simp: sample_steps_def less_Suc_eq numeral_3_eq_3)

lemma hula_from_plan_waves_witness:
  "\<exists>prog. hu_hula_from_plan sample_steps None = Ret prog \<and> wf_prog prog"
proof -
  obtain prog where "hu_hula_from_plan sample_steps None = Ret prog" using sample_steps_run by blast
  with hula_from_plan_waves [OF this] show ?thesis by (auto simp: sample_steps_def)
qed

text \<open>
  A plan of at most ten steps in which every dependency names an earlier step always becomes a program:
  there is a next wave as long as a step is left, and the node array need not be moved.
\<close>

theorem hula_from_plan_small:
  assumes "length steps \<le> 10" and "\<forall>i < length steps. \<forall>di \<in> set (ps_depends_on (steps ! i)). 0 \<le> di \<and> nat di < i"
  shows "\<exists>prog. hu_hula_from_plan steps name = Ret prog"
  using assms by (rule from_plan_room)

lemma hula_from_plan_small_witness: "\<exists>prog. hu_hula_from_plan sample_steps (Some ''p'') = Ret prog"
  by (rule hula_from_plan_small) (auto simp: sample_steps_def less_Suc_eq numeral_3_eq_3)

text \<open>
  A plan of 16 to 32 independent steps is laid out through freed memory: the seventeenth node moves the
  array, and \<^verbatim>\<open>hu_hula_from_plan\<close> adds the call to the children of the sequence at its old address.
\<close>

theorem hula_from_plan_uaf:
  assumes "16 \<le> length steps" and "length steps \<le> 32" and "\<forall>st \<in> set steps. ps_depends_on st = []"
  shows "hu_hula_from_plan steps name = Undef UseAfterFree"
proof -
  let ?P = "hu_hula_program_init name"
  obtain P1 r1 where al: "hu_hula_program_alloc_node ?P HU_HULA_SEQ (Some ''plan'') = (P1, r1)"
    by (cases "hu_hula_program_alloc_node ?P HU_HULA_SEQ (Some ''plan'')")
  have P1: "hp_nodes P1 = [empty_node HU_HULA_SEQ (Some ''plan'')]" "hp_node_cap P1 = 16" "r1 = Some (hp_gen P1, 0)"
    using al by (auto simp: hu_hula_program_alloc_node_def hu_hula_program_init_def HU_HULA_MAX_NODES_def Let_def)
  have "flat_calls (plan_call steps) P1 (hp_gen P1, 0) [0..<length steps] = Undef UseAfterFree"
    by (rule flat_calls_uaf [OF plan_makes]) (use P1 assms(1) in simp_all)
  moreover have "\<not> list_ex (\<lambda>st. ps_depends_on st \<noteq> []) steps" "steps \<noteq> []"
    using assms by (auto simp: list_ex_iff)
  ultimately show ?thesis using al P1(3) assms(2)
    by (simp add: hu_hula_from_plan_def HU_HULA_MAX_CHILDREN_def)
qed

lemma hula_from_plan_uaf_witness:
  "hu_hula_from_plan (replicate 16 \<lparr>ps_tool_name = Some ''t'', ps_args_json = None, ps_description = None,
     ps_status = HU_PLAN_STEP_PENDING, ps_depends_on = []\<rparr>) None = Undef UseAfterFree"
  by (rule hula_from_plan_uaf) simp_all

text \<open>
  C37: a DAG of at most ten nodes that \<^verbatim>\<open>hu_dag_validate\<close> accepts always becomes a well-formed program, in which each
  node is a CALL in exactly one wave, behind the waves of the nodes it depends on.
\<close>

theorem hula_from_valid_dag:
  assumes "hu_dag_validate dag = Ret ()" and "dag_nodes dag \<noteq> []" and "length (dag_nodes dag) \<le> 10"
  shows "\<exists>prog ws. hu_hula_from_dag dag name = Ret prog \<and> wf_prog prog \<and>
     distinct (concat ws) \<and> set (concat ws) = {..<length (dag_nodes dag)} \<and>
     (\<forall>k < length ws. \<forall>i \<in> set (ws ! k). \<forall>d \<in> dag_deps dag i. \<exists>j < k. d \<in> set (ws ! j)) \<and>
     hp_root prog = Some 0 \<and>
     hp_nodes prog = (empty_node HU_HULA_SEQ (Some ''dag''))\<lparr>hn_children := fst (lay (dag_call_node dag) 1 0 ws)\<rparr> #
       snd (lay (dag_call_node dag) 1 0 ws)"
proof -
  let ?n = "length (dag_nodes dag)"
  from assms(1) have found: "\<forall>n \<in> set (dag_nodes dag). \<forall>d \<in> set (dn_deps n). \<exists>m \<in> set (dag_nodes dag). dn_id m = d"
    and acyc: "\<not> dag_cyclic dag"
    unfolding hu_dag_validate_eq by (auto split: if_splits)
  have edge: "(i, d) \<in> dep_edge dag" if "i < ?n" "d \<in> dag_deps dag i" for i d
  proof -
    from that(2) obtain e where e: "e \<in> set (dn_deps (dag_nodes dag ! i))"
      "d = (case dag_index_by_id (dag_nodes dag) e of None \<Rightarrow> ?n | Some j \<Rightarrow> j)"
      unfolding dag_deps_def by blast
    have "find_index (dag_nodes dag) e \<noteq> None"
      using found e(1) that(1) nth_mem [OF that(1)] unfolding find_index_None by blast
    with e that(1) show ?thesis by (auto simp: dep_edge_def hu_dag_find_node_def dag_index_find)
  qed
  have "wf {(d, i). i < ?n \<and> d \<in> dag_deps dag i}"
    by (rule wf_subset [OF dep_edge_wf [OF acyc]]) (use edge in auto)
  moreover have "\<forall>i < ?n. \<forall>d \<in> dag_deps dag i. d < ?n" using edge dep_edge_range by blast
  ultimately obtain prog where run: "run_waves (dag_call dag) (dag_node_ready dag) ''dag'' ?n (hu_hula_program_init name) = Ret prog"
    using dag_waves.run_waves_room [OF _ _ assms(3) dag_makes] by blast
  then have "hu_hula_from_dag dag name = Ret prog" using assms(2) by (simp add: hu_hula_from_dag_def)
  moreover obtain ws where w: "waves_of ?n (dag_deps dag) ws" and l: "laid_out (dag_call_node dag) ''dag'' ws prog"
    using dag_waves.run_waves_laid_out [OF dag_makes run] by blast
  moreover have "wf_prog prog" using laid_out_wf [OF l] l by (auto simp: wf_prog_def laid_out_def)
  ultimately show ?thesis unfolding waves_of_def laid_out_def by blast
qed

lemma hula_from_valid_dag_witness:
  "\<exists>prog. hu_hula_from_dag sample_dag None = Ret prog \<and> wf_prog prog"
proof -
  have "hu_dag_validate sample_dag = Ret ()" by code_simp
  moreover have "dag_nodes sample_dag \<noteq> []" "length (dag_nodes sample_dag) \<le> 10" by (simp_all add: sample_dag_def)
  ultimately show ?thesis using hula_from_valid_dag [of sample_dag None] by blast
qed

end
