(* ===== verification/HuHulaCost.thy ===== *)
theory HuHulaCost
  imports HuHulaSteps
begin

text \<open>
  \<^verbatim>\<open>src/agent/hula.c\<close>, the estimate of a program's cost before it runs, and how it compares with the
  tool calls that runs make.

  \<^verbatim>\<open>cost_visit\<close> counts into four fields that it is given by address; here it returns them updated.
  \<^verbatim>\<open>size_t\<close> has 64 bits and \<^verbatim>\<open>uint32_t\<close> 32, sums and products wrap around.  The recursion follows the children; its
  first argument is a recursion budget, one more than the number of nodes is enough.
\<close>

section \<open>The estimate\<close>

record hula_cost_estimate =
  ce_estimated_tool_calls :: nat
  ce_max_parallel_width :: nat
  ce_max_loop_iterations_bound :: nat
  ce_max_tool_risk :: risk

text \<open>The sum over the children, in 64 bits.\<close>

fun add_calls :: "(nat \<Rightarrow> nat outcome) \<Rightarrow> nat list \<Rightarrow> nat \<Rightarrow> nat outcome" where
  "add_calls f [] s = Ret s"
| "add_calls f (c # cs) s = obind (f c) (\<lambda>v. add_calls f cs ((s + v) mod 2 ^ 64))"

fun subtree_estimated_calls :: "nat \<Rightarrow> hula_program \<Rightarrow> nat \<Rightarrow> nat outcome" where
  "subtree_estimated_calls 0 prog i = NoFuel"
| "subtree_estimated_calls (Suc k) prog i =
     (let n = hp_nodes prog ! i; cs = hn_children n; sub = (\<lambda>c. subtree_estimated_calls k prog c) in
      case hn_op n of
        HU_HULA_CALL \<Rightarrow> Ret 1
      | HU_HULA_SEQ \<Rightarrow> add_calls sub cs 0
      | HU_HULA_PAR \<Rightarrow> add_calls sub cs 0
      | HU_HULA_BRANCH \<Rightarrow> add_calls sub (take 2 cs) 0
      | HU_HULA_LOOP \<Rightarrow> obind (add_calls sub cs 0) (\<lambda>body. Ret (body * loop_bound n mod 2 ^ 64))
      | HU_HULA_DELEGATE \<Rightarrow> add_calls sub cs 1
      | HU_HULA_EMIT \<Rightarrow> Ret 0
      | HU_HULA_TRY \<Rightarrow> add_calls sub cs 0
      | HU_HULA_VERIFY \<Rightarrow> Ret 0)"

fun visit_all ::
    "(nat \<Rightarrow> hula_cost_estimate \<Rightarrow> hula_cost_estimate outcome) \<Rightarrow> nat list \<Rightarrow> hula_cost_estimate \<Rightarrow> hula_cost_estimate outcome" where
  "visit_all f [] e = Ret e"
| "visit_all f (c # cs) e = obind (f c e) (\<lambda>e. visit_all f cs e)"

definition count_calls :: "nat \<Rightarrow> hula_cost_estimate \<Rightarrow> hula_cost_estimate" where
  "count_calls m e = e\<lparr>ce_estimated_tool_calls := (ce_estimated_tool_calls e + m) mod 2 ^ 64\<rparr>"

definition max_risk :: "risk \<Rightarrow> risk \<Rightarrow> risk" where
  "max_risk r s = (if s = HU_RISK_HIGH \<or> s = HU_RISK_MEDIUM \<and> r = HU_RISK_LOW then s else r)"

fun cost_visit :: "nat \<Rightarrow> hula_program \<Rightarrow> nat \<Rightarrow> hula_cost_estimate \<Rightarrow> hula_cost_estimate outcome" where
  "cost_visit 0 prog i e = NoFuel"
| "cost_visit (Suc k) prog i e =
     (let n = hp_nodes prog ! i; cs = hn_children n; visit = (\<lambda>c e. cost_visit k prog c e) in
      case hn_op n of
        HU_HULA_CALL \<Rightarrow>
          let e = count_calls 1 e in
          Ret (if hn_tool_name n = None then e
               else e\<lparr>ce_max_tool_risk := max_risk (ce_max_tool_risk e) (hu_tool_risk_level (hn_tool_name n))\<rparr>)
      | HU_HULA_SEQ \<Rightarrow> visit_all visit cs e
      | HU_HULA_PAR \<Rightarrow> visit_all visit cs (e\<lparr>ce_max_parallel_width := max (ce_max_parallel_width e) (length cs)\<rparr>)
      | HU_HULA_BRANCH \<Rightarrow> visit_all visit (take 2 cs) e
      | HU_HULA_LOOP \<Rightarrow>
          let e = e\<lparr>ce_max_loop_iterations_bound := (ce_max_loop_iterations_bound e + loop_bound n) mod 2 ^ 32\<rparr> in
          obind (add_calls (\<lambda>c. subtree_estimated_calls k prog c) cs 0) (\<lambda>body.
          Ret (count_calls (body * loop_bound n mod 2 ^ 64) e))
      | HU_HULA_DELEGATE \<Rightarrow> Ret (count_calls 1 e)
      | HU_HULA_EMIT \<Rightarrow> Ret e
      | HU_HULA_TRY \<Rightarrow> visit_all visit cs e
      | HU_HULA_VERIFY \<Rightarrow> Ret e)"

definition hu_hula_estimate_cost :: "hula_program \<Rightarrow> hula_cost_estimate outcome" where
  "hu_hula_estimate_cost prog =
     (let e = \<lparr>ce_estimated_tool_calls = 0, ce_max_parallel_width = 0, ce_max_loop_iterations_bound = 0,
               ce_max_tool_risk = HU_RISK_LOW\<rparr> in
      case hp_root prog of None \<Rightarrow> Ret e | Some r \<Rightarrow> cost_visit (length (hp_nodes prog) + 1) prog r e)"

section \<open>The numbers without wrap-around\<close>

fun subtree_calls :: "nat \<Rightarrow> hula_node list \<Rightarrow> nat \<Rightarrow> nat" where
  "subtree_calls 0 ns i = 0"
| "subtree_calls (Suc k) ns i =
     (let n = ns ! i; sub = (\<lambda>cs. sum_list (map (\<lambda>c. subtree_calls k ns c) cs)); cs = hn_children n in
      case hn_op n of
        HU_HULA_CALL \<Rightarrow> 1
      | HU_HULA_BRANCH \<Rightarrow> sub (take 2 cs)
      | HU_HULA_LOOP \<Rightarrow> sub cs * loop_bound n
      | HU_HULA_DELEGATE \<Rightarrow> 1 + sub cs
      | HU_HULA_EMIT \<Rightarrow> 0
      | HU_HULA_VERIFY \<Rightarrow> 0
      | _ \<Rightarrow> sub cs)"

fun visit_calls :: "nat \<Rightarrow> hula_node list \<Rightarrow> nat \<Rightarrow> nat" where
  "visit_calls 0 ns i = 0"
| "visit_calls (Suc k) ns i =
     (let n = ns ! i; sub = (\<lambda>cs. sum_list (map (\<lambda>c. visit_calls k ns c) cs)); cs = hn_children n in
      case hn_op n of
        HU_HULA_CALL \<Rightarrow> 1
      | HU_HULA_BRANCH \<Rightarrow> sub (take 2 cs)
      | HU_HULA_LOOP \<Rightarrow> sum_list (map (\<lambda>c. subtree_calls k ns c) cs) * loop_bound n
      | HU_HULA_DELEGATE \<Rightarrow> 1
      | HU_HULA_EMIT \<Rightarrow> 0
      | HU_HULA_VERIFY \<Rightarrow> 0
      | _ \<Rightarrow> sub cs)"

lemma wrap_sum: "((a + b mod m) mod m + c) mod m = (a + (b + c)) mod (m :: nat)"
  by (simp add: mod_simps add.assoc)

lemma add_calls_sum:
  "(\<And>c. c \<in> set cs \<Longrightarrow> f c = Ret (g c mod 2 ^ 64)) \<Longrightarrow> s < 2 ^ 64 \<Longrightarrow>
     add_calls f cs s = Ret ((s + sum_list (map g cs)) mod 2 ^ 64)"
proof (induction cs arbitrary: s)
  case (Cons c cs)
  then have "add_calls f cs ((s + g c mod 2 ^ 64) mod 2 ^ 64) =
      Ret (((s + g c mod 2 ^ 64) mod 2 ^ 64 + sum_list (map g cs)) mod 2 ^ 64)" by simp
  moreover have "((s + g c mod 2 ^ 64) mod 2 ^ 64 + sum_list (map g cs)) mod 2 ^ 64 = (s + (g c + sum_list (map g cs))) mod 2 ^ 64"
    by (rule wrap_sum)
  ultimately show ?case using Cons.prems(1) by simp
qed simp

lemma subtree_estimated_eq:
  assumes "wf_from 0 (hp_nodes prog)"
  shows "i < length (hp_nodes prog) \<Longrightarrow> length (hp_nodes prog) \<le> i + k \<Longrightarrow>
    subtree_estimated_calls k prog i = Ret (subtree_calls k (hp_nodes prog) i mod 2 ^ 64)"
proof (induction k arbitrary: i)
  case (Suc k)
  let ?n = "hp_nodes prog ! i"
  have child: "subtree_estimated_calls k prog c = Ret (subtree_calls k (hp_nodes prog) c mod 2 ^ 64)"
    if "c \<in> set (hn_children ?n)" for c
  proof (rule Suc.IH)
    from assms Suc.prems(1) that have "i < c" "c < length (hp_nodes prog)" unfolding wf_from_def by blast+
    then show "c < length (hp_nodes prog)" "length (hp_nodes prog) \<le> c + k" using Suc.prems(2) by linarith+
  qed
  have sums: "add_calls (\<lambda>c. subtree_estimated_calls k prog c) cs s =
      Ret ((s + sum_list (map (\<lambda>c. subtree_calls k (hp_nodes prog) c) cs)) mod 2 ^ 64)"
    if "set cs \<subseteq> set (hn_children ?n)" "s < 2 ^ 64" for cs s
    by (rule add_calls_sum) (use that child in auto)
  have two: "set (take 2 (hn_children ?n)) \<subseteq> set (hn_children ?n)" by (rule set_take_subset)
  show ?case
    using sums [OF two, of 0] sums [OF subset_refl, of 0] sums [OF subset_refl, of 1]
    by (cases "hn_op ?n") (simp_all add: Let_def mod_mult_left_eq)
qed simp

lemma visit_all_sum:
  "(\<And>c e. c \<in> set cs \<Longrightarrow> ce_estimated_tool_calls e < 2 ^ 64 \<Longrightarrow>
      \<exists>e'. f c e = Ret e' \<and> ce_estimated_tool_calls e' = (ce_estimated_tool_calls e + g c) mod 2 ^ 64) \<Longrightarrow>
   ce_estimated_tool_calls e < 2 ^ 64 \<Longrightarrow>
   \<exists>e'. visit_all f cs e = Ret e' \<and>
     ce_estimated_tool_calls e' = (ce_estimated_tool_calls e + sum_list (map g cs)) mod 2 ^ 64"
proof (induction cs arbitrary: e)
  case (Cons c cs)
  from Cons.prems(1) [of c, OF _ Cons.prems(2)] obtain e1 where e1: "f c e = Ret e1"
    "ce_estimated_tool_calls e1 = (ce_estimated_tool_calls e + g c) mod 2 ^ 64" by auto
  obtain e2 where "visit_all f cs e1 = Ret e2"
    "ce_estimated_tool_calls e2 = (ce_estimated_tool_calls e1 + sum_list (map g cs)) mod 2 ^ 64"
    using Cons.IH [of e1] Cons.prems(1) e1(2) by auto
  with e1 show ?case by (simp add: add.assoc mod_add_left_eq)
qed simp

lemma wrap_product: "(a + b mod m * c) mod m = (a + b * c) mod (m :: nat)"
  by (metis mod_add_right_eq mod_mult_left_eq)

lemma cost_visit_eq:
  assumes "wf_from 0 (hp_nodes prog)"
  shows "i < length (hp_nodes prog) \<Longrightarrow> length (hp_nodes prog) \<le> i + k \<Longrightarrow> ce_estimated_tool_calls e < 2 ^ 64 \<Longrightarrow>
    \<exists>e'. cost_visit k prog i e = Ret e' \<and>
      ce_estimated_tool_calls e' = (ce_estimated_tool_calls e + visit_calls k (hp_nodes prog) i) mod 2 ^ 64"
proof (induction k arbitrary: i e)
  case (Suc k)
  let ?n = "hp_nodes prog ! i"
  have range: "i < c \<and> c < length (hp_nodes prog)" if "c \<in> set (hn_children ?n)" for c
    using assms Suc.prems(1) that unfolding wf_from_def by blast
  have child: "\<exists>e'. cost_visit k prog c e = Ret e' \<and>
      ce_estimated_tool_calls e' = (ce_estimated_tool_calls e + visit_calls k (hp_nodes prog) c) mod 2 ^ 64"
    if "c \<in> set (hn_children ?n)" "ce_estimated_tool_calls e < 2 ^ 64" for c e
    by (rule Suc.IH) (use range [OF that(1)] that(2) Suc.prems(2) in linarith)+
  have all: "\<exists>e'. visit_all (\<lambda>c e. cost_visit k prog c e) cs e = Ret e' \<and>
      ce_estimated_tool_calls e' = (ce_estimated_tool_calls e + sum_list (map (\<lambda>c. visit_calls k (hp_nodes prog) c) cs)) mod 2 ^ 64"
    if "set cs \<subseteq> set (hn_children ?n)" "ce_estimated_tool_calls e < 2 ^ 64" for cs e
    by (rule visit_all_sum) (use that child in auto)
  have two: "set (take 2 (hn_children ?n)) \<subseteq> set (hn_children ?n)" by (rule set_take_subset)
  have body: "add_calls (\<lambda>c. subtree_estimated_calls k prog c) (hn_children ?n) 0 =
      Ret ((0 + sum_list (map (\<lambda>c. subtree_calls k (hp_nodes prog) c) (hn_children ?n))) mod 2 ^ 64)"
  proof (rule add_calls_sum)
    fix c assume "c \<in> set (hn_children ?n)"
    from range [OF this] Suc.prems(2)
    show "subtree_estimated_calls k prog c = Ret (subtree_calls k (hp_nodes prog) c mod 2 ^ 64)"
      by (intro subtree_estimated_eq [OF assms]) linarith+
  qed simp
  show ?case
    using all [OF two Suc.prems(3)] all [OF subset_refl Suc.prems(3)] all [OF subset_refl, of "e\<lparr>ce_max_parallel_width := w\<rparr>" for w]
      Suc.prems(3) body
    by (cases "hn_op ?n") (simp_all add: Let_def count_calls_def mod_mult_left_eq mod_add_right_eq wrap_product)
qed simp

lemma visit_le_subtree: "visit_calls k ns i \<le> subtree_calls k ns i"
proof (induction k arbitrary: i)
  case (Suc k)
  have "sum_list (map (\<lambda>c. visit_calls k ns c) cs) \<le> sum_list (map (\<lambda>c. subtree_calls k ns c) cs)" for cs
    by (rule sum_list_mono) (rule Suc.IH)
  then show ?case by (cases "hn_op (ns ! i)") (simp_all add: Let_def)
qed simp

section \<open>The calls of a run\<close>

text \<open>\<open>grows x m k\<close>: an execution that starts in \<open>x\<close> and ends as \<open>m\<close> makes at most \<open>k\<close> tool calls.\<close>

definition grows :: "'w hula_exec \<Rightarrow> 'w hula_exec outcome \<Rightarrow> nat \<Rightarrow> bool" where
  "grows x m k \<longleftrightarrow> (\<forall>y. m = Ret y \<longrightarrow> length (hx_calls y) \<le> length (hx_calls x) + k)"

lemma grows_Ret: "hx_calls y = hx_calls x \<Longrightarrow> grows x (Ret y) k"
  by (simp add: grows_def)

lemma grows_mono: "grows x m j \<Longrightarrow> j \<le> k \<Longrightarrow> grows x m k"
  unfolding grows_def by fastforce

lemma growsD: "grows x (Ret y) k \<Longrightarrow> length (hx_calls y) \<le> length (hx_calls x) + k"
  by (simp add: grows_def)

lemma hx_calls_simps [simp]:
  "hx_calls (set_result i st out n er m x) = hx_calls x" "hx_calls (fail_with i msg x) = hx_calls x"
  "hx_calls (copy_result i r x) = hx_calls x" "hx_calls (hula_result_reset i x) = hx_calls x"
  "hx_calls (set_running i x) = hx_calls x" "hx_calls (c_nanosleep h ms x) = hx_calls x"
  "hx_calls (cancel_node i x) = hx_calls x" "hx_calls (set_tool_result i tr x) = hx_calls x"
  by (simp_all add: set_result_def fail_with_def copy_result_def hula_result_reset_def set_running_def
      c_nanosleep_def cancel_node_def set_tool_result_def Let_def)

lemma hx_calls_absorb [simp]: "hx_calls (absorb_cancel c x) = hx_calls x"
  by (simp add: absorb_cancel_def split: option.split)

lemma hx_calls_event [simp]: "hx_calls (record_event h ev x) = hx_calls x"
  by (simp add: record_event_def split: option.split prod.split)

lemma hx_calls_wall: "hula_wall_ms h x = (t, y) \<Longrightarrow> hx_calls y = hx_calls x"
  by (auto simp: hula_wall_ms_def split: prod.splits)

lemma hx_calls_time: "c_time h x = (t, y) \<Longrightarrow> hx_calls y = hx_calls x"
  by (auto simp: c_time_def split: prod.splits)

lemma hx_calls_policy: "call_policy h n x = (y, b) \<Longrightarrow> hx_calls y = hx_calls x"
  by (auto simp: call_policy_def hx_calls_time split: option.splits if_splits prod.splits)

lemma hx_calls_replay: "call_replay h name n x = (y, b) \<Longrightarrow> hx_calls y = hx_calls x"
  by (auto simp: call_replay_def Let_def hx_calls_time split: option.splits prod.splits)

lemma hx_calls_gate: "call_gate h i name args x = (y, b) \<Longrightarrow> hx_calls y = hx_calls x"
  by (auto simp: call_gate_def Let_def split: option.splits prod.splits if_splits)

lemma grows_execute: "length (hx_calls (call_execute h tool i name n args x)) = Suc (length (hx_calls x))"
  by (simp add: call_execute_def Let_def c_time_def split: option.split prod.split)

lemma grows_obind: "(\<And>a. m = Ret a \<Longrightarrow> grows x (f a) k) \<Longrightarrow> grows x (obind m f) k"
  by (auto simp: grows_def outcome_simps)

lemma grows_exec_call: "grows x (exec_call h i x) 1"
proof -
  let ?n = "hp_nodes (he_program h) ! i"
  obtain x1 b where p: "call_policy h ?n x = (x1, b)" by (cases "call_policy h ?n x")
  note c1 = hx_calls_policy [OF p]
  define run where "run tool name args = (let (y, hit) = call_replay h name ?n x1 in
      (case hit of Some tr \<Rightarrow> Ret (set_tool_result i tr y)
       | None \<Rightarrow> let (z, allowed) = call_gate h i name (call_args ?n) y in
           if allowed then Ret (call_execute h tool i name ?n args z) else Ret z))" for tool name args
  define go where "go found = (case (found, hn_tool_name ?n) of
          (Some tool, Some name) \<Rightarrow>
            obind (call_arguments h ?n x1) (\<lambda>args. case args of Inr msg \<Rightarrow> Ret (fail_with i msg x1) | Inl args \<Rightarrow> run tool name args)
        | _ \<Rightarrow> Ret (fail_with i ''tool not found'' x1))" for found
  have run: "grows x (run tool name args) 1" for name tool args
  proof -
    obtain y hit where r: "call_replay h name ?n x1 = (y, hit)" by (cases "call_replay h name ?n x1")
    obtain z ok where g: "call_gate h i name (call_args ?n) y = (z, ok)" by (cases "call_gate h i name (call_args ?n) y")
    show ?thesis using c1 hx_calls_replay [OF r] hx_calls_gate [OF g]
      by (cases hit) (simp_all add: run_def r g grows_def grows_execute)
  qed
  have "grows x (case args of Inr msg \<Rightarrow> Ret (fail_with i msg x1) | Inl args \<Rightarrow> run tool name args) 1" for tool name args
    by (cases args) (simp_all add: run [simplified] grows_Ret c1)
  then have go: "grows x (go found) 1" for found
    by (auto simp: go_def grows_Ret c1 intro!: grows_obind split: option.split)
  have "exec_call h i x = (case b of Some msg \<Rightarrow> Ret (fail_with i msg x1) | None \<Rightarrow>
      if budget_spent x1 then Ret (fail_with i ''hula budget: tool call limit exceeded'' x1)
      else obind (find_tool (he_tools h) (hn_tool_name ?n)) go)"
    unfolding exec_call_def Let_def p prod.case go_def run_def by (rule refl)
  then show ?thesis by (auto simp: grows_Ret c1 intro: grows_obind go [simplified] split: option.split)
qed

lemma grows_exec_emit: "grows x (exec_emit h i x) 0"
  unfolding grows_def
  by (auto simp: exec_emit_def Let_def split: option.splits if_splits)

lemma grows_exec_verify: "grows x (exec_verify h i x) 0"
  unfolding grows_def by (auto simp: exec_verify_def Let_def split: option.splits if_splits)

lemma hx_calls_poll [simp]: "hx_calls (poll_loop h pool agent n i m x) = hx_calls x"
  by (induction m arbitrary: x) (auto simp: Let_def split: prod.split option.split)

lemma grows_exec_delegate: "grows x (exec_delegate h i x) k"
  unfolding grows_def by (auto simp: exec_delegate_def Let_def outcome_simps case_prod_unfold split: option.splits if_splits)

text \<open>Children: \<open>nd\<close> makes at most \<open>g c\<close> calls for the child \<open>c\<close>.\<close>

definition child_grows ::
    "(nat \<Rightarrow> 'w hula_exec \<Rightarrow> 'w hula_exec outcome) \<Rightarrow> (nat \<Rightarrow> nat) \<Rightarrow> nat list \<Rightarrow> bool" where
  "child_grows nd g cs \<longleftrightarrow> (\<forall>c \<in> set cs. \<forall>x. grows x (nd c x) (g c))"

lemma child_growsD: "child_grows nd g cs \<Longrightarrow> c \<in> set cs \<Longrightarrow> nd c x = Ret y \<Longrightarrow> length (hx_calls y) \<le> length (hx_calls x) + g c"
  by (simp add: child_grows_def grows_def)

lemma child_grows_Cons: "child_grows nd g (c # cs) \<longleftrightarrow> (\<forall>x. grows x (nd c x) (g c)) \<and> child_grows nd g cs"
  by (simp add: child_grows_def)

lemma seq_loop_grows:
  "child_grows nd g cs \<Longrightarrow> seq_loop nd cs x = Ret (y, fl) \<Longrightarrow> length (hx_calls y) \<le> length (hx_calls x) + sum_list (map g cs)"
proof (induction cs arbitrary: x)
  case (Cons c cs)
  from Cons.prems(2) obtain z where z: "nd c x = Ret z"
    and r: "(case failed_at z c of Some r \<Rightarrow> Ret (z, Some r) | None \<Rightarrow> seq_loop nd cs z) = Ret (y, fl)"
    by (auto simp: outcome_simps)
  have "length (hx_calls z) \<le> length (hx_calls x) + g c" by (rule child_growsD [OF Cons.prems(1) _ z]) simp
  moreover have "length (hx_calls y) \<le> length (hx_calls z) + sum_list (map g cs)"
    using r Cons.IH [of z] Cons.prems(1) by (auto simp: child_grows_Cons split: option.splits)
  ultimately show ?case by simp
qed simp

lemma par_loop_grows:
  "child_grows nd g cs \<Longrightarrow> par_loop nd cs any x = Ret (y, fl) \<Longrightarrow> length (hx_calls y) \<le> length (hx_calls x) + sum_list (map g cs)"
proof (induction cs arbitrary: x any)
  case (Cons c cs)
  from Cons.prems(2) obtain z where z: "nd c x = Ret z" and r: "par_loop nd cs (any \<or> failed_at z c \<noteq> None) z = Ret (y, fl)"
    by (auto simp: outcome_simps)
  have "length (hx_calls z) \<le> length (hx_calls x) + g c" by (rule child_growsD [OF Cons.prems(1) _ z]) simp
  moreover have "length (hx_calls y) \<le> length (hx_calls z) + sum_list (map g cs)"
    using Cons.IH [OF _ r] Cons.prems(1) by (simp add: child_grows_Cons)
  ultimately show ?case by simp
qed simp

lemma body_loop_grows:
  "child_grows nd g cs \<Longrightarrow> body_loop nd cs x = Ret (y, fl) \<Longrightarrow> length (hx_calls y) \<le> length (hx_calls x) + sum_list (map g cs)"
proof (induction cs arbitrary: x)
  case (Cons c cs)
  from Cons.prems(2) obtain z where z: "nd c (hula_result_reset c x) = Ret z"
    and r: "(case failed_at z c of Some r \<Rightarrow> Ret (z, Some r) | None \<Rightarrow> body_loop nd cs z) = Ret (y, fl)"
    by (auto simp: outcome_simps)
  have "length (hx_calls z) \<le> length (hx_calls (hula_result_reset c x)) + g c" by (rule child_growsD [OF Cons.prems(1) _ z]) simp
  moreover have "length (hx_calls y) \<le> length (hx_calls z) + sum_list (map g cs)"
    using r Cons.IH [of z] Cons.prems(1) by (auto simp: child_grows_Cons split: option.splits)
  ultimately show ?case by simp
qed simp

lemma iter_loop_grows:
  "child_grows nd g (hn_children n) \<Longrightarrow> iter_loop nd n m x = Ret (y, fl) \<Longrightarrow>
     length (hx_calls y) \<le> length (hx_calls x) + sum_list (map g (hn_children n)) * m"
proof (induction m arbitrary: x)
  case (Suc m)
  show ?case
  proof (cases "hn_pred n \<noteq> HU_HULA_PRED_ALWAYS \<and> \<not> eval_pred n (last_result x)")
    case False
    with Suc.prems(2) obtain z f where z: "body_loop nd (hn_children n) x = Ret (z, f)"
      and r: "(case f of Some r \<Rightarrow> Ret (z, Some r) | None \<Rightarrow> iter_loop nd n m z) = Ret (y, fl)"
      by (auto simp: outcome_simps)
    have "length (hx_calls z) \<le> length (hx_calls x) + sum_list (map g (hn_children n))"
      by (rule body_loop_grows [OF Suc.prems(1) z])
    moreover have "length (hx_calls y) \<le> length (hx_calls z) + sum_list (map g (hn_children n)) * m"
      using r Suc.IH [OF Suc.prems(1), of z] by (auto split: option.splits)
    ultimately show ?thesis by simp
  qed (use Suc.prems(2) in auto)
qed simp

lemma run_as_grows: "(\<And>y. nd c x = Ret y \<Longrightarrow> length (hx_calls y) \<le> length (hx_calls x) + k) \<Longrightarrow> grows x (run_as nd i c x) k"
  unfolding grows_def by (auto simp: run_as_def outcome_simps split: option.splits)

lemma grows_exec_seq:
  assumes "child_grows nd g (hn_children (hp_nodes (he_program h) ! i))"
  shows "grows x (exec_seq h nd i x) (sum_list (map g (hn_children (hp_nodes (he_program h) ! i))))"
proof -
  have "length (hx_calls y) = length (hx_calls z)"
    if "(case fl of Some r \<Rightarrow> Ret (set_result i HU_HULA_FAILED None 0 (hr_error r) (hr_error_len r) z)
      | None \<Rightarrow> if cs = [] then Ret (set_result i HU_HULA_DONE None 0 None 0 z)
          else (case result_for z (last cs) of
                  Some r \<Rightarrow> Ret (set_result i HU_HULA_DONE (hr_output r) (hr_output_len r) None 0 z)
                | None \<Rightarrow> Ret z)) = Ret y" for fl z cs and y :: "'a hula_exec"
    using that by (auto split: option.splits if_splits)
  with seq_loop_grows [OF assms] show ?thesis
    unfolding grows_def exec_seq_def Let_def by (fastforce simp: outcome_simps)
qed

lemma grows_exec_par:
  assumes "child_grows nd g (hn_children (hp_nodes (he_program h) ! i))"
  shows "grows x (exec_par h nd i x) (sum_list (map g (hn_children (hp_nodes (he_program h) ! i))))"
  unfolding grows_def exec_par_def by (auto simp: outcome_simps dest!: par_loop_grows [OF assms])

lemma grows_exec_loop:
  assumes "child_grows nd g (hn_children (hp_nodes (he_program h) ! i))"
  shows "grows x (exec_loop h nd i x)
    (sum_list (map g (hn_children (hp_nodes (he_program h) ! i))) * loop_bound (hp_nodes (he_program h) ! i))"
  unfolding grows_def exec_loop_def Let_def
  by (auto simp: outcome_simps dest!: iter_loop_grows [OF assms] split: option.splits)

lemma grows_exec_branch:
  assumes "child_grows nd g (hn_children (hp_nodes (he_program h) ! i))"
  shows "grows x (exec_branch h nd i x) (sum_list (map g (take 2 (hn_children (hp_nodes (he_program h) ! i)))))"
proof -
  let ?cs = "hn_children (hp_nodes (he_program h) ! i)"
  have "grows x (run_as nd i (?cs ! j) x) (sum_list (map g (take 2 ?cs)))" if "j < 2" "j < length ?cs" for j
  proof (rule run_as_grows)
    fix y assume "nd (?cs ! j) x = Ret y"
    then have "length (hx_calls y) \<le> length (hx_calls x) + g (?cs ! j)"
      by (rule child_growsD [OF assms nth_mem [OF that(2)]])
    moreover have "?cs ! j \<in> set (take 2 ?cs)" using that by (auto simp: in_set_conv_nth intro: exI [of _ j])
    then have "g (?cs ! j) \<le> sum_list (map g (take 2 ?cs))" by (simp add: member_le_sum_list)
    ultimately show "length (hx_calls y) \<le> length (hx_calls x) + sum_list (map g (take 2 ?cs))" by simp
  qed
  from this [of 0] this [of 1] show ?thesis by (simp add: exec_branch_def Let_def grows_Ret Suc_le_eq)
qed

lemma grows_exec_try:
  assumes "child_grows nd g (hn_children (hp_nodes (he_program h) ! i))"
  shows "grows x (exec_try h nd i x) (sum_list (map g (hn_children (hp_nodes (he_program h) ! i))))"
proof (cases "hn_children (hp_nodes (he_program h) ! i)")
  case (Cons c cs)
  note cg = assms [unfolded Cons child_grows_Cons]
  define after where "after z = (if failed_at z c \<noteq> None \<and> cs \<noteq> [] then run_as nd i (hd cs) z
          else Ret (case result_for z c of Some r \<Rightarrow> copy_result i r z
                    | None \<Rightarrow> set_result i HU_HULA_DONE None 0 None 0 z))" for z
  have "length (hx_calls y) \<le> length (hx_calls x) + (g c + sum_list (map g cs))"
    if z: "nd c x = Ret z" and r: "after z = Ret y" for y z
  proof -
    have 1: "length (hx_calls z) \<le> length (hx_calls x) + g c" using cg z by (simp add: grows_def)
    show ?thesis
    proof (cases "failed_at z c \<noteq> None \<and> cs \<noteq> []")
      case True
      then obtain d ds where cs: "cs = d # ds" by (cases cs) auto
      have "grows z (run_as nd i d z) (g d)" using cg cs by (intro run_as_grows) (simp add: child_grows_def grows_def)
      with True r 1 cs show ?thesis by (auto simp: grows_def after_def)
    next
      case False
      with r have "hx_calls y = hx_calls z" by (auto simp: after_def split: option.splits)
      with 1 show ?thesis by simp
    qed
  qed
  then have "grows x (obind (nd c x) after) (g c + sum_list (map g cs))" by (auto simp: grows_def outcome_simps)
  then show ?thesis unfolding exec_try_def Cons list.case after_def [abs_def] list.map sum_list.Cons .
qed (simp add: exec_try_def grows_Ret)

text \<open>A node: without retries it is dispatched once.\<close>

lemma attempt_one_grows:
  assumes "grows x (dispatch x) k"
  shows "grows x (attempt_loop h dispatch i t0 True (Suc 0) x) k"
proof -
  let ?n = "hp_nodes (he_program h) ! i"
  define after where "after z = (let (now, w) = (if hn_timeout_ms ?n > 0 then hula_wall_ms h z else (t0, z)) in
         if hn_timeout_ms ?n > 0 \<and> elapsed_u64 now t0 > hn_timeout_ms ?n then Ret (fail_with i ''timeout exceeded'' w)
         else if failed_at w i = None then Ret w else attempt_loop h dispatch i t0 False 0 w)" for z
  have "hx_calls y = hx_calls z" if "after z = Ret y" for z y
  proof -
    obtain now w where w: "(if hn_timeout_ms ?n > 0 then hula_wall_ms h z else (t0, z)) = (now, w)"
      by (cases "if hn_timeout_ms ?n > 0 then hula_wall_ms h z else (t0, z)")
    then have "hx_calls w = hx_calls z" by (auto simp: hx_calls_wall split: if_splits)
    with that show ?thesis unfolding after_def w by (auto split: if_splits)
  qed
  then have "grows x (obind (dispatch x) after) k"
    using assms unfolding grows_def by (fastforce simp: outcome_simps)
  then show ?thesis by (simp only: attempt_loop.simps(2) after_def [abs_def] Let_def if_True)
qed

lemma hx_calls_node_end [simp]: "hx_calls (node_end h i t0 x) = hx_calls x"
  by (simp add: node_end_def Let_def hula_wall_ms_def split: prod.split)

lemma hx_calls_node_finish [simp]: "hx_calls (node_finish h i t0 x) = hx_calls x"
  by (simp add: node_finish_def Let_def hula_emit_stream_output_def split: option.split)

lemma hx_calls_node_start: "node_start h i x = (t, y) \<Longrightarrow> hx_calls y = hx_calls x"
  by (auto simp: node_start_def Let_def hula_wall_ms_def split: prod.splits)

lemma hx_calls_refused: "node_refused h depth i x = (y, r) \<Longrightarrow> hx_calls y = hx_calls x"
  by (auto simp: node_refused_def over_wall_budget_def Let_def hula_wall_ms_def split: prod.splits if_splits)

lemma grows_node_body:
  assumes d: "\<And>x. grows x (exec_dispatch h nd i x) k" and "hn_retry_count (hp_nodes (he_program h) ! i) = 0"
  shows "grows x (node_body h nd depth i x) k"
proof -
  have m: "max_attempts (hp_nodes (he_program h) ! i) = Suc 0" using assms(2) by (simp add: max_attempts_def)
  obtain y r where y: "node_refused h depth i x = (y, r)" by (cases "node_refused h depth i x")
  obtain t0 z where z: "node_start h i y = (t0, z)" by (cases "node_start h i y")
  have "hx_calls z = hx_calls x" using hx_calls_refused [OF y] hx_calls_node_start [OF z] by simp
  moreover have "grows z (attempt_loop h (exec_dispatch h nd i) i t0 True (Suc 0) z) k" by (rule attempt_one_grows [OF d])
  ultimately have "grows x (obind (attempt_loop h (exec_dispatch h nd i) i t0 True (Suc 0) z) (\<lambda>x. Ret (node_finish h i t0 x))) k"
    unfolding grows_def by (auto simp: outcome_simps simp del: attempt_loop.simps)
  then show ?thesis
    using \<open>hx_calls z = hx_calls x\<close> hx_calls_refused [OF y]
    by (simp add: node_body_def y z m grows_Ret del: attempt_loop.simps split: option.split)
qed

lemma exec_node_grows:
  assumes "wf_from 0 (hp_nodes (he_program h))" and "\<forall>n \<in> set (hp_nodes (he_program h)). hn_retry_count n = 0"
  shows "i < length (hp_nodes (he_program h)) \<Longrightarrow>
    grows x (exec_node_depth k h depth i x) (visit_calls k (hp_nodes (he_program h)) i)"
proof (induction k arbitrary: i depth x)
  case 0
  then show ?case by (simp add: grows_def)
next
  case (Suc k)
  let ?ns = "hp_nodes (he_program h)" and ?nd = "\<lambda>c y. exec_node_depth k h (depth + 1) c y"
  have "child_grows ?nd (\<lambda>c. visit_calls k ?ns c) (hn_children (?ns ! i))"
    using Suc.IH Suc.prems assms(1) unfolding child_grows_def wf_from_def by blast
  note kids = grows_exec_seq [OF this] grows_exec_par [OF this] grows_exec_branch [OF this] grows_exec_try [OF this]
    grows_exec_loop [OF this]
  have body: "sum_list (map (\<lambda>c. visit_calls k ?ns c) (hn_children (?ns ! i))) * loop_bound (?ns ! i) \<le>
      sum_list (map (\<lambda>c. subtree_calls k ?ns c) (hn_children (?ns ! i))) * loop_bound (?ns ! i)"
    by (intro mult_le_mono1 sum_list_mono visit_le_subtree)
  have "grows x (exec_dispatch h ?nd i x) (visit_calls (Suc k) ?ns i)" for x
    using kids [of x] grows_mono [OF kids(5) [of x] body] grows_exec_call [of x h i] grows_exec_emit [of x h i]
      grows_exec_verify [of x h i] grows_exec_delegate [of x h i 1]
    by (cases "hn_op (?ns ! i)") (simp_all add: exec_dispatch_def Let_def)
  then have "grows x (node_body h ?nd depth i x) (visit_calls (Suc k) ?ns i)"
    by (rule grows_node_body) (use assms(2) Suc.prems in simp)
  then show ?case by (simp del: visit_calls.simps)
qed

lemma exec_run_grows:
  assumes "program_ok h" and "\<forall>n \<in> set (hp_nodes (he_program h)). hn_retry_count n = 0"
    and r: "hp_root (he_program h) = Some r" and run: "hu_hula_exec_run h x = Ret y"
  shows "length (hx_calls y) \<le> length (hx_calls x) + visit_calls (run_fuel h) (hp_nodes (he_program h)) r"
proof -
  from assms(1) r have wf: "wf_from 0 (hp_nodes (he_program h))" "r < length (hp_nodes (he_program h))"
    by (auto simp: program_ok_def)
  obtain z where z: "exec_node_depth (run_fuel h) h 0 r (run_start h x) = Ret z" and "hx_calls y = hx_calls z"
    using run r
    by (auto simp: hu_hula_exec_run_def run_start_def Let_def outcome_simps hx_calls_wall split: prod.splits option.splits
        dest!: hx_calls_wall)
  with growsD [OF exec_node_grows [OF wf(1) assms(2) wf(2), of "run_start h x" "run_fuel h" 0, unfolded z]]
  show ?thesis by simp
qed

section \<open>Properties\<close>

text \<open>
  C10: the estimate is conservative for well-formed programs none of whose nodes has retries and for which the number
  of calls that loops and branches allow (\<open>visit_calls\<close>, the estimate without wrap-around) is below \<open>2 ^ 64\<close>:
  estimating ends, and no run of the program that returns makes more tool calls than estimated.
\<close>

theorem hula_cost_conservative:
  assumes "program_ok h" and "\<forall>n \<in> set (hp_nodes (he_program h)). hn_retry_count n = 0"
    and "hp_root (he_program h) = Some r"
    and "visit_calls (run_fuel h) (hp_nodes (he_program h)) r < 2 ^ 64" and "hu_hula_exec_run h x = Ret y"
  shows "\<exists>e. hu_hula_estimate_cost (he_program h) = Ret e \<and>
    length (hx_calls y) \<le> length (hx_calls x) + ce_estimated_tool_calls e"
proof -
  from assms(1,3) have "wf_from 0 (hp_nodes (he_program h))" "r < length (hp_nodes (he_program h))"
    by (auto simp: program_ok_def)
  from cost_visit_eq [OF this, of "run_fuel h" "\<lparr>ce_estimated_tool_calls = 0, ce_max_parallel_width = 0,
      ce_max_loop_iterations_bound = 0, ce_max_tool_risk = HU_RISK_LOW\<rparr>"] assms(3,4) exec_run_grows [OF assms(1-3,5)]
  show ?thesis by (auto simp: hu_hula_estimate_cost_def run_fuel_def)
qed

lemma hula_cost_conservative_witness:
  "\<exists>e. hu_hula_estimate_cost (he_program (sample_host [one_call_node])) = Ret e \<and> 1 \<le> ce_estimated_tool_calls e"
  using hula_cost_conservative [OF one_call_program_ok _ _ _ one_call_run]
  by (auto simp: sample_host_def sample_exec_def hu_hula_exec_init_def hu_hula_exec_set_budget_def one_call_node_def
      empty_node_def run_fuel_def)

text \<open>A loop, ten times over, around a call of \<^verbatim>\<open>shell\<close> that is retried three times.\<close>

definition shell_loop :: hula_program where
  "shell_loop = \<lparr>hp_name = None, hp_version = 1, hp_nodes =
     [(empty_node HU_HULA_LOOP (Some ''l''))\<lparr>hn_children := [1], hn_max_iter := 10\<rparr>,
      (empty_node HU_HULA_CALL (Some ''c''))\<lparr>hn_tool_name := Some ''shell'', hn_retry_count := 3\<rparr>],
     hp_node_cap = 16, hp_gen = 1, hp_root = Some 0\<rparr>"

lemma shell_is_high: "hu_tool_risk_level (Some ''shell'') = HU_RISK_HIGH"
  by code_simp

text \<open>
  What the estimate leaves out: retries do not count, and the risk of a tool that is called inside a loop is
  not seen, so a loop around the high-risk tool \<^verbatim>\<open>shell\<close> is estimated as low risk.
\<close>

theorem hula_cost_misses_loop_risk:
  "hu_hula_estimate_cost shell_loop = Ret \<lparr>ce_estimated_tool_calls = 10, ce_max_parallel_width = 0,
     ce_max_loop_iterations_bound = 10, ce_max_tool_risk = HU_RISK_LOW\<rparr> \<and>
   hu_tool_risk_level (Some ''shell'') = HU_RISK_HIGH"
  using shell_is_high
  by (simp add: hu_hula_estimate_cost_def shell_loop_def empty_node_def loop_bound_def count_calls_def Let_def)

end
