(* ===== verification/HuHulaLite.thy ===== *)
theory HuHulaLite
  imports HuBuf HuHula
begin

text \<open>
  HuLa-lite (\<^verbatim>\<open>src/agent/hula_lite.c\<close>): the indented notation for plans and its translation to
  the JSON that \<^verbatim>\<open>hu_hula_parse_json\<close> reads.

  The source text is cut into lines (\<open>collect_lines\<close>), each with its indentation; \<open>emit_node\<close> and
  \<open>emit_children\<close> walk over the lines and write the JSON.  The position \<^verbatim>\<open>idx\<close> in the line array only
  grows, so the functions below take the lines from \<^verbatim>\<open>idx\<close> on and return those that are left.
  A line buffer is used as a C string, so what follows a NUL byte in it is not seen; \<open>cstr\<close> stands
  wherever the code calls \<^verbatim>\<open>strlen\<close>.

  Allocation succeeds here as everywhere in the development, so appending always returns.

  The first result is a grammar: \<open>describes\<close> says which lines describe which plan, and a text is
  translated exactly if its lines describe one, to the JSON text of that plan.
\<close>

section \<open>The byte buffer\<close>

record hula_bb =
  bb_data :: string
  bb_cap :: nat

text \<open>The capacity starts from at least 512, so doubling it gets to any size.\<close>

function bb_grow :: "nat \<Rightarrow> nat \<Rightarrow> nat" where
  "bb_grow need nc = (if nc < need \<and> nc \<noteq> 0 then bb_grow need (nc * 2) else nc)"
  by pat_completeness auto
termination
  by (relation "measure (\<lambda>(need, nc). need - nc)") auto

declare bb_grow.simps [simp del]

definition bb_reserve :: "hula_bb \<Rightarrow> nat \<Rightarrow> hula_bb" where
  "bb_reserve b need =
     (if length (bb_data b) + need + 1 \<le> bb_cap b then b
      else b\<lparr>bb_cap := bb_grow (length (bb_data b) + need + 1) (if bb_cap b \<noteq> 0 then bb_cap b * 2 else 512)\<rparr>)"

text \<open>The bytes are written behind the data; the write is out of bounds if the buffer is too small.\<close>

definition bb_append :: "hula_bb \<Rightarrow> string \<Rightarrow> hula_bb outcome" where
  "bb_append b s =
     (let b = bb_reserve b (length s) in
      if length (bb_data b) + length s < bb_cap b then Ret (b\<lparr>bb_data := bb_data b @ s\<rparr>) else Undef OutOfBounds)"

definition bb_putc :: "hula_bb \<Rightarrow> char \<Rightarrow> hula_bb outcome" where
  "bb_putc b c = bb_append b [c]"

fun bb_append_esc :: "hula_bb \<Rightarrow> string \<Rightarrow> hula_bb outcome" where
  "bb_append_esc b [] = Ret b"
| "bb_append_esc b (c # s) =
     obind (if c = DQUOTE \<or> c = BSLASH then bb_putc b BSLASH else Ret b) (\<lambda>b.
     obind (bb_putc b c) (\<lambda>b. bb_append_esc b s))"

lemma bb_grow_enough: "nc \<noteq> 0 \<Longrightarrow> need \<le> bb_grow need nc"
proof (induction need nc rule: bb_grow.induct)
  case (1 need nc)
  then show ?case by (subst bb_grow.simps) auto
qed

lemma bb_append_Ret: "\<exists>b'. bb_append b s = Ret b' \<and> bb_data b' = bb_data b @ s"
  using bb_grow_enough [of "if bb_cap b \<noteq> 0 then bb_cap b * 2 else 512" "length (bb_data b) + length s + 1"]
  by (auto simp: bb_append_def bb_reserve_def)

interpretation litebuf: byte_sink bb_append bb_data "\<lambda>_ _. True"
proof
  show "bb_data b' = bb_data b @ s" if "bb_append b s = Ret b'" for b s b'
    using that bb_append_Ret [of b s] by auto
  show "\<exists>b'. bb_append b s = Ret b'" for b s
    using bb_append_Ret [of b s] by blast
qed simp_all

text \<open>What \<open>bb_append_esc\<close> writes.\<close>

definition lite_esc :: "string \<Rightarrow> string" where
  "lite_esc s = concat (map (\<lambda>c. if c = DQUOTE \<or> c = BSLASH then [BSLASH, c] else [c]) s)"

lemma bb_append_esc_emits: "litebuf.emits (\<lambda>b. bb_append_esc b s) (lite_esc s)"
proof (induction s)
  case Nil
  then show ?case by (simp add: litebuf.emits_Ret lite_esc_def)
next
  case (Cons c s)
  let ?p = "if c = DQUOTE \<or> c = BSLASH then [BSLASH] else []"
  have "litebuf.emits (\<lambda>b. if c = DQUOTE \<or> c = BSLASH then bb_putc b BSLASH else Ret b) ?p"
    using litebuf.emits_app [of "[BSLASH]"] by (simp add: bb_putc_def litebuf.emits_Ret)
  moreover have "litebuf.emits (\<lambda>b. bb_putc b c) [c]"
    using litebuf.emits_app [of "[c]"] by (simp add: bb_putc_def)
  ultimately have "litebuf.emits (\<lambda>b. bb_append_esc b (c # s)) (?p @ [c] @ lite_esc s)"
    unfolding bb_append_esc.simps using Cons by (intro litebuf.emits_bind)
  moreover have "lite_esc (c # s) = ?p @ [c] @ lite_esc s" by (simp add: lite_esc_def)
  ultimately show ?case by (simp only:)
qed

section \<open>Lines and words\<close>

record lite_line =
  ll_ind :: nat
  ll_text :: string

definition HU_HULA_LITE_MAX_LINES :: nat where "HU_HULA_LITE_MAX_LINES = 128"
definition HU_HULA_LITE_LINE :: nat where "HU_HULA_LITE_LINE = 384"

text \<open>\<open>None\<close> is the \<open>-1\<close> of an odd number of spaces; otherwise the level and the spaces skipped.\<close>

definition line_indent :: "string \<Rightarrow> (nat \<times> nat) option" where
  "line_indent line =
     (let i = length (takeWhile (\<lambda>c. c = CHR '' '') line) in if i mod 2 \<noteq> 0 then None else Some (i div 2, i))"

definition blank :: "char \<Rightarrow> bool" where
  "blank c \<longleftrightarrow> c = CHR '' '' \<or> c = CHR 0x09"

text \<open>One round of \<^verbatim>\<open>split_words\<close>: a word of at most 63 characters and what is left behind it.\<close>

definition split_word :: "string \<Rightarrow> string \<times> string" where
  "split_word s =
     (let s = dropWhile blank s; w = take 63 (takeWhile (\<lambda>c. \<not> blank c) s) in (w, drop (length w) s))"

definition split_words :: "string \<Rightarrow> string \<times> string \<times> string" where
  "split_words s =
     (let (w0, s) = split_word s; (w1, s) = split_word s; (w2, s) = split_word s in (w0, w1, w2))"

definition newline :: "char \<Rightarrow> bool" where
  "newline c \<longleftrightarrow> c = CHR 0x0A \<or> c = CHR 0x0D"

definition trim_end :: "string \<Rightarrow> string" where
  "trim_end s = rev (dropWhile (\<lambda>c. cval c \<le> 32) (rev s))"

lemma next_line_shorter: "length (dropWhile newline (dropWhile (\<lambda>c. \<not> newline c) (c # s))) < Suc (length s)"
proof (cases "newline c")
  case False
  have "length (dropWhile newline (dropWhile (\<lambda>c. \<not> newline c) s)) \<le> length s"
    using length_dropWhile_le le_trans by blast
  with False show ?thesis by simp
qed (simp add: length_dropWhile_le le_imp_less_Suc)

function collect_lines :: "lite_line list \<Rightarrow> string \<Rightarrow> lite_line list outcome" where
  "collect_lines out [] = Ret out"
| "collect_lines out (c # s) =
     (let line = trim_end (takeWhile (\<lambda>c. \<not> newline c) (c # s));
          rest = dropWhile newline (dropWhile (\<lambda>c. \<not> newline c) (c # s)) in
      if line = [] then collect_lines out rest
      else if list_all (\<lambda>c. cval c \<le> 32) line then collect_lines out rest
      else case line_indent line of
        None \<Rightarrow> Err HU_ERR_PARSE
      | Some (ind, skip) \<Rightarrow>
          if skip \<ge> length line then collect_lines out rest
          else if line ! skip = CHR ''#'' then collect_lines out rest
          else if length out \<ge> HU_HULA_LITE_MAX_LINES then Err HU_ERR_INVALID_ARGUMENT
          else if length line - skip \<ge> HU_HULA_LITE_LINE then Err HU_ERR_INVALID_ARGUMENT
          else collect_lines (out @ [\<lparr>ll_ind = ind, ll_text = drop skip line\<rparr>]) rest)"
  by pat_completeness auto
termination
  by (relation "measure (\<lambda>(out, s). length s)") (auto simp: next_line_shorter simp del: dropWhile.simps)

declare collect_lines.simps [simp del]

section \<open>Writing the JSON\<close>

text \<open>The value of an argument line: what follows its first word and the blanks after it.\<close>

definition arg_value :: "string \<Rightarrow> string" where
  "arg_value line = dropWhile blank (dropWhile (\<lambda>c. \<not> blank c) line)"

definition comma_unless :: "bool \<Rightarrow> hula_bb \<Rightarrow> hula_bb outcome" where
  "comma_unless first b = (if \<not> first then bb_append b '','' else Ret b)"

definition emit_arg :: "string \<Rightarrow> string \<Rightarrow> hula_bb \<Rightarrow> hula_bb outcome" where
  "emit_arg k val b =
     obind (bb_append b [DQUOTE]) (\<lambda>b.
     obind (bb_append_esc b k) (\<lambda>b.
     obind (bb_append b [DQUOTE, CHR '':'', DQUOTE]) (\<lambda>b.
     obind (bb_append_esc b val) (\<lambda>b.
     bb_append b [DQUOTE]))))"

fun args_loop :: "nat \<Rightarrow> bool \<Rightarrow> hula_bb \<Rightarrow> lite_line list \<Rightarrow> (hula_bb \<times> lite_line list) outcome" where
  "args_loop my_ind first b [] = Ret (b, [])"
| "args_loop my_ind first b (l # ls) =
     (if ll_ind l = my_ind + 1 then
        let line = cstr (ll_text l); (k, v0, v1) = split_words line in
        if k = [] then args_loop my_ind first b ls
        else
          obind (comma_unless first b) (\<lambda>b.
          obind (emit_arg k (arg_value line) b) (\<lambda>b.
          args_loop my_ind False b ls))
      else Ret (b, l # ls))"

definition qt :: "string \<Rightarrow> string" where
  "qt s = [DQUOTE] @ s @ [DQUOTE]"

definition call_head :: string where "call_head = ''{'' @ qt ''op'' @ '':'' @ qt ''call'' @ '','' @ qt ''id'' @ '':'' @ [DQUOTE]"
definition tool_mid :: string where "tool_mid = [DQUOTE] @ '','' @ qt ''tool'' @ '':'' @ [DQUOTE]"
definition args_open :: string where "args_open = [DQUOTE] @ '','' @ qt ''args'' @ '':{''"
definition op_head :: string where "op_head = ''{'' @ qt ''op'' @ '':'' @ [DQUOTE]"
definition id_mid :: string where "id_mid = [DQUOTE] @ '','' @ qt ''id'' @ '':'' @ [DQUOTE]"
definition kids_open :: string where "kids_open = [DQUOTE] @ '','' @ qt ''children'' @ '':[''"
definition prog_name :: string where "prog_name = ''{'' @ qt ''name'' @ '':'' @ [DQUOTE]"
definition prog_tail :: string where
  "prog_tail = [DQUOTE] @ '','' @ qt ''version'' @ '':1,'' @ qt ''root'' @ '':''"

definition emit_call ::
    "hula_bb \<Rightarrow> lite_line list \<Rightarrow> nat \<Rightarrow> string \<Rightarrow> string \<Rightarrow> (hula_bb \<times> lite_line list) outcome" where
  "emit_call b lines my_ind ident tool =
     obind (bb_append b call_head) (\<lambda>b.
     obind (bb_append_esc b ident) (\<lambda>b.
     obind (bb_append b tool_mid) (\<lambda>b.
     obind (bb_append_esc b tool) (\<lambda>b.
     obind (bb_append b args_open) (\<lambda>b.
     obind (args_loop my_ind True b (drop 1 lines)) (\<lambda>(b, lines).
     obind (bb_append b ''}}'') (\<lambda>b.
     Ret (b, lines))))))))"

text \<open>\<open>kids\<close> is the loop over the children.\<close>

definition emit_seq_par ::
    "(hula_bb \<Rightarrow> lite_line list \<Rightarrow> (hula_bb \<times> lite_line list) outcome) \<Rightarrow>
       hula_bb \<Rightarrow> lite_line list \<Rightarrow> string \<Rightarrow> string \<Rightarrow> (hula_bb \<times> lite_line list) outcome" where
  "emit_seq_par kids b lines opn ident =
     obind (bb_append b op_head) (\<lambda>b.
     obind (bb_append b opn) (\<lambda>b.
     obind (bb_append b id_mid) (\<lambda>b.
     obind (bb_append_esc b ident) (\<lambda>b.
     obind (bb_append b kids_open) (\<lambda>b.
     obind (kids b (drop 1 lines)) (\<lambda>(b, lines).
     obind (bb_append b '']}'') (\<lambda>b.
     Ret (b, lines))))))))"

text \<open>
  \<^verbatim>\<open>emit_node\<close> and the loop of \<^verbatim>\<open>emit_seq_par\<close>; the first argument is the recursion budget, of which
  twice the number of lines is enough (\<open>emit_node_iff\<close>).
\<close>

fun emit_node :: "nat \<Rightarrow> nat \<Rightarrow> hula_bb \<Rightarrow> lite_line list \<Rightarrow> (hula_bb \<times> lite_line list) outcome"
and emit_children :: "nat \<Rightarrow> nat \<Rightarrow> bool \<Rightarrow> hula_bb \<Rightarrow> lite_line list \<Rightarrow> (hula_bb \<times> lite_line list) outcome" where
  "emit_node 0 expect_ind b lines = NoFuel"
| "emit_node (Suc k) expect_ind b lines =
     (case lines of
        [] \<Rightarrow> Err HU_ERR_PARSE
      | l # _ \<Rightarrow>
          if ll_ind l \<noteq> expect_ind then Err HU_ERR_PARSE
          else
            let (w0, w1, w2) = split_words (cstr (ll_text l)); my_ind = ll_ind l in
            if w0 = [] then Err HU_ERR_PARSE
            else if w0 = ''call'' then
              if w1 = [] \<or> w2 = [] then Err HU_ERR_PARSE else emit_call b lines my_ind w1 w2
            else if w0 = ''seq'' \<or> w0 = ''par'' then
              if w1 = [] then Err HU_ERR_PARSE
              else emit_seq_par (\<lambda>b lines. emit_children k my_ind True b lines) b lines w0 w1
            else Err HU_ERR_PARSE)"
| "emit_children 0 my_ind first b lines = NoFuel"
| "emit_children (Suc k) my_ind first b lines =
     (case lines of
        [] \<Rightarrow> Ret (b, lines)
      | l # _ \<Rightarrow>
          if ll_ind l = my_ind + 1 then
            obind (comma_unless first b) (\<lambda>b.
            obind (emit_node k (my_ind + 1) b lines) (\<lambda>(b, lines).
            emit_children k my_ind False b lines))
          else Ret (b, lines))"

definition hu_hula_lite_to_json :: "string \<Rightarrow> string outcome" where
  "hu_hula_lite_to_json src =
     (if src = [] then Err HU_ERR_INVALID_ARGUMENT
      else obind (collect_lines [] src) (\<lambda>lines.
        if length lines < 2 then Err HU_ERR_PARSE
        else
          let (w0, w1, w2) = split_words (cstr (ll_text (lines ! 0))) in
          if w0 \<noteq> ''program'' \<or> w1 = [] then Err HU_ERR_PARSE
          else
            obind (bb_append \<lparr>bb_data = [], bb_cap = 0\<rparr> prog_name) (\<lambda>b.
            obind (bb_append_esc b w1) (\<lambda>b.
            obind (bb_append b prog_tail) (\<lambda>b.
            obind (emit_node (2 * length lines) (ll_ind (lines ! 1)) b (drop 1 lines)) (\<lambda>(b, rest).
            if rest \<noteq> [] then Err HU_ERR_PARSE
            else obind (bb_putc b (CHR ''}'')) (\<lambda>b. Ret (bb_data b))))))))"

section \<open>The grammar\<close>

text \<open>A plan in HuLa-lite: a call with its arguments, or a group (\<^verbatim>\<open>seq\<close> or \<^verbatim>\<open>par\<close>) of plans.\<close>

datatype lite = LCall string string "(string \<times> string) list" | LGroup string string "lite list"

text \<open>The arguments that the lines below a call give; a line without a word gives none.\<close>

definition line_arg :: "lite_line \<Rightarrow> (string \<times> string) option" where
  "line_arg l =
     (let line = cstr (ll_text l); k = fst (split_words line) in
      if k = [] then None else Some (k, arg_value line))"

text \<open>
  \<open>describes e ls t\<close>: the lines \<open>ls\<close> describe the plan \<open>t\<close> at level \<open>e\<close>; \<open>describe_all\<close> is the same for
  a list of plans.
\<close>

inductive describes :: "nat \<Rightarrow> lite_line list \<Rightarrow> lite \<Rightarrow> bool"
and describe_all :: "nat \<Rightarrow> lite_line list \<Rightarrow> lite list \<Rightarrow> bool" where
  call: "ll_ind l = e \<Longrightarrow> split_words (cstr (ll_text l)) = (''call'', ident, tool) \<Longrightarrow> ident \<noteq> [] \<Longrightarrow> tool \<noteq> [] \<Longrightarrow>
     \<forall>a \<in> set ls. ll_ind a = Suc e \<Longrightarrow> describes e (l # ls) (LCall ident tool (List.map_filter line_arg ls))"
| group: "ll_ind l = e \<Longrightarrow> split_words (cstr (ll_text l)) = (opn, ident, w2) \<Longrightarrow> opn \<in> {''seq'', ''par''} \<Longrightarrow>
     ident \<noteq> [] \<Longrightarrow> describe_all (Suc e) ls ts \<Longrightarrow> describes e (l # ls) (LGroup opn ident ts)"
| none: "describe_all e [] []"
| more: "describes e ls t \<Longrightarrow> describe_all e ls' ts \<Longrightarrow> describe_all e (ls @ ls') (t # ts)"

text \<open>The JSON text of a plan.\<close>

definition lite_quoted :: "string \<Rightarrow> string" where
  "lite_quoted s = qt (lite_esc s)"

definition arg_text :: "string \<times> string \<Rightarrow> string" where
  "arg_text a = lite_quoted (fst a) @ '':'' @ lite_quoted (snd a)"

primrec lite_text :: "lite \<Rightarrow> string" where
  "lite_text (LCall ident tool args) =
     ''{'' @ qt ''op'' @ '':'' @ qt ''call'' @ '','' @ qt ''id'' @ '':'' @ lite_quoted ident @ '','' @
     qt ''tool'' @ '':'' @ lite_quoted tool @ '','' @ qt ''args'' @ '':{'' @ comma_join (map arg_text args) @ ''}}''"
| "lite_text (LGroup opn ident ts) =
     ''{'' @ qt ''op'' @ '':'' @ qt opn @ '','' @ qt ''id'' @ '':'' @ lite_quoted ident @ '','' @
     qt ''children'' @ '':['' @ comma_join (map lite_text ts) @ '']}''"

definition lite_program_text :: "string \<Rightarrow> lite \<Rightarrow> string" where
  "lite_program_text name t =
     ''{'' @ qt ''name'' @ '':'' @ lite_quoted name @ '','' @ qt ''version'' @ '':1,'' @ qt ''root'' @ '':'' @ lite_text t @ ''}''"

section \<open>What the writers do\<close>

text \<open>\<open>puts m b s r\<close>: the call \<open>m\<close> returns, has added \<open>s\<close> to what was in \<open>b\<close>, and leaves the lines \<open>r\<close>.\<close>

definition puts :: "(hula_bb \<times> lite_line list) outcome \<Rightarrow> hula_bb \<Rightarrow> string \<Rightarrow> lite_line list \<Rightarrow> bool" where
  "puts m b s r \<longleftrightarrow> (\<exists>b'. m = Ret (b', r) \<and> bb_data b' = bb_data b @ s)"

lemma puts_Ret: "puts (Ret (b, r)) b [] r"
  by (simp add: puts_def)

lemma emits_Ret_ex: "litebuf.emits f s \<Longrightarrow> \<exists>b'. f b = Ret b' \<and> bb_data b' = bb_data b @ s"
  using litebuf.emits_room [of f s b] litebuf.emits_bytes [of f s b] by blast

lemma puts_emit:
  assumes "litebuf.emits f s" and "\<And>b'. bb_data b' = bb_data b @ s \<Longrightarrow> puts (g b') b' s' r"
  shows "puts (obind (f b) g) b (s @ s') r"
proof -
  obtain b' where b': "f b = Ret b'" "bb_data b' = bb_data b @ s" using emits_Ret_ex [OF assms(1)] by blast
  from assms(2) [OF b'(2)] b' show ?thesis by (auto simp: puts_def)
qed

lemma puts_puts:
  assumes "puts m b s r" and "\<And>b'. puts (g (b', r)) b' s' r'"
  shows "puts (obind m g) b (s @ s') r'"
proof -
  obtain b' where b': "m = Ret (b', r)" "bb_data b' = bb_data b @ s" using assms(1) by (auto simp: puts_def)
  from assms(2) [of b'] b' show ?thesis by (auto simp: puts_def)
qed

lemma emits_comma: "litebuf.emits (comma_unless first) (if first then [] else '','')"
  using litebuf.emits_app [of "'',''"] by (cases first) (simp_all add: comma_unless_def [abs_def] litebuf.emits_Ret)

lemma emits_arg: "litebuf.emits (emit_arg k v) (arg_text (k, v))"
proof -
  have "litebuf.emits (emit_arg k v) ([DQUOTE] @ lite_esc k @ [DQUOTE, CHR '':'', DQUOTE] @ lite_esc v @ [DQUOTE])"
    unfolding emit_arg_def by (intro litebuf.emits_bind litebuf.emits_app bb_append_esc_emits)
  then show ?thesis by (simp add: arg_text_def lite_quoted_def qt_def)
qed

text \<open>The lines at the next level are the arguments.\<close>

abbreviation below :: "nat \<Rightarrow> lite_line \<Rightarrow> bool" where
  "below e l \<equiv> ll_ind l = Suc e"

lemma args_loop_puts:
  "puts (args_loop e first b ls) b (joined first (map arg_text (List.map_filter line_arg (takeWhile (below e) ls))))
     (dropWhile (below e) ls)"
proof (induction ls arbitrary: first b)
  case Nil
  then show ?case by (simp add: puts_def joined_simps map_filter_simps)
next
  case (Cons l ls)
  obtain k v0 v1 where w: "split_words (cstr (ll_text l)) = (k, v0, v1)" by (cases "split_words (cstr (ll_text l))") auto
  show ?case
  proof (cases "below e l")
    case False
    then show ?thesis by (simp add: puts_def joined_simps map_filter_simps)
  next
    case True
    show ?thesis
    proof (cases "k = []")
      case True
      then show ?thesis using Cons.IH [of first b] \<open>below e l\<close> w by (simp add: Let_def line_arg_def map_filter_simps)
    next
      case False
      let ?a = "(k, arg_value (cstr (ll_text l)))"
      have eq: "args_loop e first b (l # ls) = obind (comma_unless first b) (\<lambda>b.
          obind (emit_arg k (arg_value (cstr (ll_text l))) b) (\<lambda>b. args_loop e False b ls))"
        using False \<open>below e l\<close> w by simp
      have "puts (args_loop e first b (l # ls)) b
          ((if first then [] else '','') @ arg_text ?a @
             joined False (map arg_text (List.map_filter line_arg (takeWhile (below e) ls)))) (dropWhile (below e) ls)"
        unfolding eq by (intro puts_emit emits_comma emits_arg Cons.IH)
      moreover have "line_arg l = Some ?a" using False w by (simp add: line_arg_def)
      ultimately show ?thesis using \<open>below e l\<close>
        by (simp add: map_filter_simps joined_simps(2) del: args_loop.simps)
    qed
  qed
qed

lemma emit_call_puts:
  "puts (emit_call b (l # ls) e ident tool) b
     (lite_text (LCall ident tool (List.map_filter line_arg (takeWhile (below e) ls)))) (dropWhile (below e) ls)"
proof -
  have "puts (emit_call b (l # ls) e ident tool) b
     (call_head @ lite_esc ident @ tool_mid @ lite_esc tool @ args_open @
      joined True (map arg_text (List.map_filter line_arg (takeWhile (below e) ls))) @ ''}}'' @ [])
     (dropWhile (below e) ls)"
    unfolding emit_call_def drop_Suc_Cons drop_0 One_nat_def
    by (intro puts_emit litebuf.emits_app bb_append_esc_emits puts_puts [OF args_loop_puts])
       (simp only: prod.case, intro puts_emit litebuf.emits_app puts_Ret)
  then show ?thesis
    by (simp add: call_head_def tool_mid_def args_open_def lite_quoted_def qt_def joined_def)
qed

lemma emit_seq_par_puts:
  assumes "\<And>b. puts (kids b ls) b s r"
  shows "puts (emit_seq_par kids b (l # ls) opn ident) b
     (op_head @ opn @ id_mid @ lite_esc ident @ kids_open @ s @ '']}'') r"
proof -
  have "puts (emit_seq_par kids b (l # ls) opn ident) b
     (op_head @ opn @ id_mid @ lite_esc ident @ kids_open @ s @ '']}'' @ []) r"
    unfolding emit_seq_par_def drop_Suc_Cons drop_0 One_nat_def
    by (intro puts_emit litebuf.emits_app bb_append_esc_emits puts_puts [OF assms])
       (simp only: prod.case, intro puts_emit litebuf.emits_app puts_Ret)
  then show ?thesis by simp
qed

lemma group_text:
  "op_head @ opn @ id_mid @ lite_esc ident @ kids_open @ comma_join (map lite_text ts) @ '']}'' = lite_text (LGroup opn ident ts)"
  by (simp add: op_head_def id_mid_def kids_open_def lite_quoted_def qt_def)

section \<open>The grammar is what is accepted\<close>

text \<open>What follows a plan at level \<open>e\<close> is no deeper.\<close>

definition ends_at :: "nat \<Rightarrow> lite_line list \<Rightarrow> bool" where
  "ends_at e r \<longleftrightarrow> (case r of [] \<Rightarrow> True | l # _ \<Rightarrow> ll_ind l \<le> e)"

lemma describes_first: "describes e ls t \<Longrightarrow> \<exists>l ls'. ls = l # ls' \<and> ll_ind l = e"
  by (cases rule: describes.cases) auto

lemma ends_at_take: "ends_at e r \<Longrightarrow> \<forall>a \<in> set ls. below e a \<Longrightarrow> takeWhile (below e) (ls @ r) = ls \<and> dropWhile (below e) (ls @ r) = r"
  by (cases r) (auto simp: ends_at_def takeWhile_append dropWhile_append)

text \<open>Lines that describe a plan are translated to its text.\<close>

lemma emit_complete:
  "describes e ls t \<Longrightarrow> ends_at e r \<Longrightarrow> 2 * length ls \<le> k \<Longrightarrow> puts (emit_node k e b (ls @ r)) b (lite_text t) r"
  "describe_all e' ls ts \<Longrightarrow> e' = Suc e \<Longrightarrow> ends_at e r \<Longrightarrow> 2 * length ls < k \<Longrightarrow>
     puts (emit_children k e first b (ls @ r)) b (joined first (map lite_text ts)) r"
proof (induction arbitrary: r k b and e r k b first rule: describes_describe_all.inducts)
  case (call l e ident tool ls)
  then obtain k' where k: "k = Suc k'" by (cases k) auto
  have "emit_node k e b ((l # ls) @ r) = emit_call b (l # (ls @ r)) e ident tool"
    using call.hyps by (simp add: k)
  with emit_call_puts [of b l "ls @ r" e ident tool] ends_at_take [OF call.prems(1) call.hyps(5)]
  show ?case by simp
next
  case (group l e opn ident w2 ls ts)
  then obtain k' where k: "k = Suc k'" by (cases k) auto
  have "emit_node k e b ((l # ls) @ r) = emit_seq_par (\<lambda>b lines. emit_children k' e True b lines) b (l # (ls @ r)) opn ident"
    using group.hyps by (auto simp: k)
  moreover have "puts (emit_children k' e True b (ls @ r)) b (comma_join (map lite_text ts)) r" for b
    using group.IH [of e r k' True b] group.prems k by (simp add: joined_def)
  note emit_seq_par_puts [where kids = "\<lambda>b lines. emit_children k' e True b lines", OF this, of b l opn ident]
  ultimately show ?case by (simp only: group_text)
next
  case (none e')
  then obtain k' where k: "k = Suc k'" by (cases k) auto
  show ?case using none by (cases r) (auto simp: k ends_at_def joined_simps puts_def)
next
  case (more e' ls t ls' ts)
  then obtain k' where k: "k = Suc k'" by (cases k) auto
  obtain l ls0 where l: "ls = l # ls0" "ll_ind l = Suc e" using describes_first [OF more.hyps(1)] more.prems by auto
  have "ends_at e' (ls' @ r)"
  proof (cases ls')
    case Nil
    then show ?thesis using more.prems by (auto simp: ends_at_def split: list.splits)
  next
    case (Cons l' q)
    from more.hyps(2) Cons have "ll_ind l' = e'"
      by (cases rule: describe_all.cases) (auto dest: describes_first)
    with Cons show ?thesis by (simp add: ends_at_def)
  qed
  note ends = this
  have node: "puts (emit_node k' (Suc e) b (ls @ (ls' @ r))) b (lite_text t) (ls' @ r)" for b
    using more.IH(1) [OF ends, of k' b] more.prems k by simp
  have kids: "puts (emit_children k' e False b (ls' @ r)) b (joined False (map lite_text ts)) r" for b
    using more.prems k l by (intro more.IH(2)) auto
  have "emit_children k e first b ((ls @ ls') @ r) = obind (comma_unless first b) (\<lambda>b.
      obind (emit_node k' (Suc e) b (ls @ ls' @ r)) (\<lambda>(b, lines). emit_children k' e False b lines))"
    using l by (simp add: k)
  moreover have "puts (obind (comma_unless first b) (\<lambda>b.
      obind (emit_node k' (Suc e) b (ls @ ls' @ r)) (\<lambda>(b, lines). emit_children k' e False b lines))) b
      ((if first then [] else '','') @ lite_text t @ joined False (map lite_text ts)) r"
    by (intro puts_emit emits_comma puts_puts [OF node]) (simp only: prod.case, rule kids)
  ultimately show ?case by (simp add: joined_simps(2))
qed

text \<open>And what is translated is a plan that its lines describe.\<close>

lemma takeWhile_below: "\<forall>a \<in> set (takeWhile (below e) ls). below e a"
  by (auto dest: set_takeWhileD)

lemma puts_Ret_D: "puts m b s r \<Longrightarrow> m = Ret (b', r') \<Longrightarrow> r' = r \<and> bb_data b' = bb_data b @ s"
  by (auto simp: puts_def)

lemma emit_seq_par_Ret:
  assumes "emit_seq_par kids b (l # ls) opn ident = Ret (b', r)"
  obtains b1 b2 where "kids b1 ls = Ret (b2, r)" and "bb_data b' = bb_data b2 @ '']}''"
    and "bb_data b1 = bb_data b @ op_head @ opn @ id_mid @ lite_esc ident @ kids_open"
proof -
  note app = litebuf.emits_bytes [OF litebuf.emits_app] and esc = litebuf.emits_bytes [OF bb_append_esc_emits]
  from assms obtain c1 c2 c3 c4 b1 b2 where c: "bb_append b op_head = Ret c1" "bb_append c1 opn = Ret c2"
    "bb_append c2 id_mid = Ret c3" "bb_append_esc c3 ident = Ret c4" "bb_append c4 kids_open = Ret b1"
    "kids b1 ls = Ret (b2, r)" "bb_append b2 '']}'' = Ret b'"
    by (auto simp: emit_seq_par_def outcome_simps)
  from app [OF c(1)] app [OF c(2)] app [OF c(3)] esc [OF c(4)] app [OF c(5)]
  have "bb_data b1 = bb_data b @ op_head @ opn @ id_mid @ lite_esc ident @ kids_open" by simp
  with c(6) app [OF c(7)] show thesis by (rule that)
qed

lemma emit_sound:
  "emit_node k e b ls = Ret (b', r) \<Longrightarrow>
     \<exists>ls1 t. ls = ls1 @ r \<and> describes e ls1 t \<and> bb_data b' = bb_data b @ lite_text t"
  "emit_children k e first b ls = Ret (b', r) \<Longrightarrow>
     \<exists>ls1 ts. ls = ls1 @ r \<and> describe_all (Suc e) ls1 ts \<and> bb_data b' = bb_data b @ joined first (map lite_text ts)"
proof (induction k arbitrary: e first b ls b' r)
  case (Suc k)
  { case 1
  note prems = 1
  obtain l ls0 where ls: "ls = l # ls0" using prems by (cases ls) auto
  obtain w0 w1 w2 where w: "split_words (cstr (ll_text l)) = (w0, w1, w2)" by (cases "split_words (cstr (ll_text l))") auto
  have e: "ll_ind l = e" using prems by (auto simp: ls split: if_splits)
  show ?case
  proof (cases "w0 = ''call''")
    case True
    with prems have *: "w1 \<noteq> []" "w2 \<noteq> []" "emit_call b (l # ls0) e w1 w2 = Ret (b', r)"
      by (auto simp: ls w e split: if_splits)
    from puts_Ret_D [OF emit_call_puts *(3)] have
      "r = dropWhile (below e) ls0"
      "bb_data b' = bb_data b @ lite_text (LCall w1 w2 (List.map_filter line_arg (takeWhile (below e) ls0)))"
      by auto
    moreover have "describes e (l # takeWhile (below e) ls0) (LCall w1 w2 (List.map_filter line_arg (takeWhile (below e) ls0)))"
      by (rule describes_describe_all.call [OF e _ *(1,2) takeWhile_below]) (simp add: w True)
    ultimately show ?thesis unfolding ls
      by (intro exI [of _ "l # takeWhile (below e) ls0"] exI conjI) auto
  next
    case False
    with prems have *: "w0 \<in> {''seq'', ''par''}" "w1 \<noteq> []"
      "emit_seq_par (\<lambda>b lines. emit_children k e True b lines) b (l # ls0) w0 w1 = Ret (b', r)"
      by (simp_all add: ls w e split: if_split_asm)
    from emit_seq_par_Ret [OF *(3)] obtain b1 b2 where kids: "emit_children k e True b1 ls0 = Ret (b2, r)"
      and data: "bb_data b' = bb_data b2 @ '']}''"
        "bb_data b1 = bb_data b @ op_head @ w0 @ id_mid @ lite_esc w1 @ kids_open"
      by blast
    from Suc.IH(2) [OF kids] obtain ls1 ts where k: "ls0 = ls1 @ r" "describe_all (Suc e) ls1 ts" "bb_data b2 = bb_data b1 @ comma_join (map lite_text ts)"
      by (auto simp: joined_def)
    have "bb_data b' = bb_data b @ lite_text (LGroup w0 w1 ts)"
      using data k(3) unfolding group_text [symmetric] by simp
    moreover have "describes e (l # ls1) (LGroup w0 w1 ts)"
      by (rule describes_describe_all.group [OF e w *(1,2) k(2)])
    ultimately show ?thesis using k(1) ls by (intro exI [of _ "l # ls1"] exI conjI) auto
  qed
  }
  { case 2
  note prems = 2
  show ?case
  proof (cases "\<exists>l ls0. ls = l # ls0 \<and> below e l")
    case False
    with prems have "ls = r" "b' = b" by (auto split: list.splits if_splits)
    then show ?thesis using describes_describe_all.none by (fastforce simp: joined_simps)
  next
    case True
    then obtain l ls0 where ls: "ls = l # ls0" "below e l" by blast
    with prems obtain c1 c2 r1 where c: "comma_unless first b = Ret c1" "emit_node k (Suc e) c1 ls = Ret (c2, r1)"
      "emit_children k e False c2 r1 = Ret (b', r)"
      by (auto simp: outcome_simps)
    from Suc.IH(1) [OF c(2)] obtain ls1 t where
      1: "ls = ls1 @ r1" "describes (Suc e) ls1 t" "bb_data c2 = bb_data c1 @ lite_text t" by auto
    from Suc.IH(2) [OF c(3)] obtain ls2 ts where
      2: "r1 = ls2 @ r" "describe_all (Suc e) ls2 ts" "bb_data b' = bb_data c2 @ joined False (map lite_text ts)" by auto
    have "bb_data c1 = bb_data b @ (if first then [] else '','')"
      using litebuf.emits_bytes [OF emits_comma c(1)] .
    with 1 2 describes_describe_all.more [OF 1(2) 2(2)] show ?thesis
      by (intro exI [of _ "ls1 @ ls2"] exI [of _ "t # ts"]) (simp add: joined_simps(2))
  qed
  }
qed simp_all

section \<open>Ending\<close>

definition parses_or_not :: "'a outcome \<Rightarrow> bool" where
  "parses_or_not m \<longleftrightarrow> is_ret m \<or> m = Err HU_ERR_PARSE"

lemma parses_or_not_simps [simp]: "parses_or_not (Ret x)" "parses_or_not (Err HU_ERR_PARSE)"
  by (simp_all add: parses_or_not_def)

lemma puts_parses: "puts m b s r \<Longrightarrow> parses_or_not m"
  by (auto simp: puts_def)

lemma parses_emit:
  assumes "litebuf.emits f s" and "\<And>b'. parses_or_not (g b')"
  shows "parses_or_not (obind (f b) g)"
  using emits_Ret_ex [OF assms(1), of b] assms(2) by auto

lemma emit_total:
  "ls \<noteq> [] \<Longrightarrow> 2 * length ls \<le> k \<Longrightarrow> parses_or_not (emit_node k e b ls)"
  "2 * length ls < k \<Longrightarrow> parses_or_not (emit_children k e first b ls)"
proof (induction k arbitrary: e first b ls)
  case (Suc k)
  { case 1
    then obtain l ls0 where ls: "ls = l # ls0" by (cases ls) auto
    obtain w0 w1 w2 where w: "split_words (cstr (ll_text l)) = (w0, w1, w2)" by (cases "split_words (cstr (ll_text l))") auto
    have "parses_or_not (obind (emit_children k (ll_ind l) True b' ls0) (\<lambda>(b, lines). obind (bb_append b '']}'') (\<lambda>b. Ret (b, lines))))" for b'
    proof -
      have "parses_or_not (emit_children k (ll_ind l) True b' ls0)" using 1 ls by (intro Suc.IH(2)) simp
      moreover have "parses_or_not (obind (bb_append c '']}'') (\<lambda>b. Ret (b, r)))" for c and r :: "lite_line list"
        by (intro parses_emit [OF litebuf.emits_app]) simp
      ultimately show ?thesis
        by (cases "emit_children k (ll_ind l) True b' ls0") (auto simp: parses_or_not_def)
    qed
    then have "parses_or_not (emit_seq_par (\<lambda>b lines. emit_children k (ll_ind l) True b lines) b (l # ls0) w0 w1)"
      unfolding emit_seq_par_def drop_Suc_Cons drop_0 One_nat_def
      by (intro parses_emit [OF litebuf.emits_app] parses_emit [OF bb_append_esc_emits])
    moreover have "parses_or_not (emit_call b (l # ls0) (ll_ind l) w1 w2)" by (rule puts_parses [OF emit_call_puts])
    ultimately show ?case by (auto simp: ls w)
  }
  { case 2
    show ?case
    proof (cases "\<exists>l ls0. ls = l # ls0 \<and> below e l")
      case False
      then show ?thesis by (auto split: list.splits)
    next
      case True
      then obtain l ls0 where ls: "ls = l # ls0" "below e l" by blast
      have step: "parses_or_not (obind (emit_node k (Suc e) c ls) (\<lambda>(b, lines). emit_children k e False b lines))" for c
      proof (cases "emit_node k (Suc e) c ls")
        case (Ret x)
        obtain c2 r where x: "x = (c2, r)" by force
        from emit_sound(1) [OF Ret [unfolded x]] obtain ls1 t where "ls = ls1 @ r" "describes (Suc e) ls1 t" by blast
        with describes_first [OF this(2)] have "length r < length ls" by auto
        with 2 have "parses_or_not (emit_children k e False c2 r)" by (intro Suc.IH(2)) simp
        with Ret x show ?thesis by simp
      qed (use Suc.IH(1) [of ls "Suc e" c] 2 ls in \<open>auto simp: parses_or_not_def\<close>)
      have "emit_children (Suc k) e first b ls = obind (comma_unless first b) (\<lambda>b.
          obind (emit_node k (Suc e) b ls) (\<lambda>(b, lines). emit_children k e False b lines))"
        using ls by simp
      then show ?thesis using parses_emit [OF emits_comma step] by simp
    qed
  }
qed simp_all

lemma collect_lines_total:
  "is_ret (collect_lines out s) \<or> collect_lines out s = Err HU_ERR_PARSE \<or> collect_lines out s = Err HU_ERR_INVALID_ARGUMENT"
proof (induction out s rule: collect_lines.induct)
  case (2 out c s)
  show ?case
    by (subst (1 2 3) collect_lines.simps)
       (use 2 in \<open>auto simp: Let_def simp del: dropWhile.simps takeWhile.simps split: option.split\<close>)
qed (simp add: collect_lines.simps)

text \<open>The lines of the plan, after the program line.\<close>

definition program_line :: "lite_line \<Rightarrow> string \<Rightarrow> bool" where
  "program_line l name \<longleftrightarrow> (\<exists>w2. split_words (cstr (ll_text l)) = (''program'', name, w2)) \<and> name \<noteq> []"

lemma lite_program_head:
  "\<exists>b. obind (bb_append \<lparr>bb_data = [], bb_cap = 0\<rparr> prog_name) (\<lambda>b.
     obind (bb_append_esc b name) (\<lambda>b. bb_append b prog_tail)) = Ret b \<and> bb_data b = prog_name @ lite_esc name @ prog_tail"
proof -
  have "litebuf.emits (\<lambda>b. obind (bb_append b prog_name) (\<lambda>b. obind (bb_append_esc b name) (\<lambda>b. bb_append b prog_tail)))
     (prog_name @ lite_esc name @ prog_tail)"
    by (intro litebuf.emits_bind litebuf.emits_app bb_append_esc_emits)
  from emits_Ret_ex [OF this, of "\<lparr>bb_data = [], bb_cap = 0\<rparr>"] show ?thesis by simp
qed

lemma lite_to_json_lines:
  assumes "collect_lines [] src = Ret (l # ls)" "ls \<noteq> []" "program_line l name"
  obtains b where "bb_data b = prog_name @ lite_esc name @ prog_tail"
    and "hu_hula_lite_to_json src = obind (emit_node (2 * length (l # ls)) (ll_ind (hd ls)) b ls) (\<lambda>(b, rest).
       if rest \<noteq> [] then Err HU_ERR_PARSE else obind (bb_putc b (CHR ''}'')) (\<lambda>b. Ret (bb_data b)))"
proof -
  obtain b where b: "obind (bb_append \<lparr>bb_data = [], bb_cap = 0\<rparr> prog_name) (\<lambda>b.
     obind (bb_append_esc b name) (\<lambda>b. bb_append b prog_tail)) = Ret b" "bb_data b = prog_name @ lite_esc name @ prog_tail"
    using lite_program_head by blast
  obtain l2 ls2 where ls: "ls = l2 # ls2" using assms(2) by (cases ls) auto
  have src: "src \<noteq> []" using assms(1) by (auto simp: collect_lines.simps)
  obtain w2 where w: "split_words (cstr (ll_text l)) = (''program'', name, w2)" "name \<noteq> []"
    using assms(3) by (auto simp: program_line_def)
  have "hu_hula_lite_to_json src = obind (obind (bb_append \<lparr>bb_data = [], bb_cap = 0\<rparr> prog_name) (\<lambda>b.
     obind (bb_append_esc b name) (\<lambda>b. bb_append b prog_tail))) (\<lambda>b.
     obind (emit_node (2 * length (l # ls)) (ll_ind (hd ls)) b ls) (\<lambda>(b, rest).
       if rest \<noteq> [] then Err HU_ERR_PARSE else obind (bb_putc b (CHR ''}'')) (\<lambda>b. Ret (bb_data b))))"
    using src w unfolding hu_hula_lite_to_json_def assms(1) obind_assoc by (simp add: ls)
  with b show thesis by (intro that) simp_all
qed

lemma lite_to_json_none:
  assumes "collect_lines [] src = Ret lines" and "\<not> (\<exists>l ls name. lines = l # ls \<and> ls \<noteq> [] \<and> program_line l name)"
  shows "hu_hula_lite_to_json src \<in> {Err HU_ERR_PARSE, Err HU_ERR_INVALID_ARGUMENT}"
proof (cases lines)
  case (Cons l ls)
  then show ?thesis using assms
    by (cases "split_words (cstr (ll_text l))") (auto simp: hu_hula_lite_to_json_def program_line_def)
qed (use assms in \<open>simp add: hu_hula_lite_to_json_def\<close>)

lemma program_text: "(prog_name @ lite_esc name @ prog_tail) @ lite_text t @ ''}'' = lite_program_text name t"
  by (simp add: prog_name_def prog_tail_def lite_program_text_def lite_quoted_def qt_def)

lemma bb_putc_data: "\<exists>b'. bb_putc b c = Ret b' \<and> bb_data b' = bb_data b @ [c]"
  unfolding bb_putc_def by (rule emits_Ret_ex [OF litebuf.emits_app])

lemma lite_to_json_iff:
  "hu_hula_lite_to_json src = Ret t \<longleftrightarrow>
     (\<exists>l ls name tree. collect_lines [] src = Ret (l # ls) \<and> program_line l name \<and> ls \<noteq> [] \<and>
        describes (ll_ind (hd ls)) ls tree \<and> t = lite_program_text name tree)"
proof
  assume run: "hu_hula_lite_to_json src = Ret t"
  then obtain lines where lines: "collect_lines [] src = Ret lines"
    by (auto simp: hu_hula_lite_to_json_def outcome_simps split: if_splits)
  with lite_to_json_none [OF lines] run obtain l ls name where c: "collect_lines [] src = Ret (l # ls)" "ls \<noteq> []" "program_line l name"
    by auto
  obtain b where b: "bb_data b = prog_name @ lite_esc name @ prog_tail"
    "hu_hula_lite_to_json src = obind (emit_node (2 * length (l # ls)) (ll_ind (hd ls)) b ls) (\<lambda>(b, rest).
       if rest \<noteq> [] then Err HU_ERR_PARSE else obind (bb_putc b (CHR ''}'')) (\<lambda>b. Ret (bb_data b)))"
    using lite_to_json_lines [OF c] by blast
  with run obtain b' c' where e: "emit_node (2 * length (l # ls)) (ll_ind (hd ls)) b ls = Ret (b', [])"
    "bb_putc b' (CHR ''}'') = Ret c'" "t = bb_data c'"
    by (auto simp: outcome_simps split: if_splits)
  from emit_sound(1) [OF e(1)] obtain tree where tree: "describes (ll_ind (hd ls)) ls tree" "bb_data b' = bb_data b @ lite_text tree"
    by auto
  have "t = lite_program_text name tree"
    using bb_putc_data [of b' "CHR ''}''"] e tree(2) b(1) program_text [of name tree] by auto
  with c tree(1) show "\<exists>l ls name tree. collect_lines [] src = Ret (l # ls) \<and> program_line l name \<and> ls \<noteq> [] \<and>
        describes (ll_ind (hd ls)) ls tree \<and> t = lite_program_text name tree" by blast
next
  assume "\<exists>l ls name tree. collect_lines [] src = Ret (l # ls) \<and> program_line l name \<and> ls \<noteq> [] \<and>
        describes (ll_ind (hd ls)) ls tree \<and> t = lite_program_text name tree"
  then obtain l ls name tree where c: "collect_lines [] src = Ret (l # ls)" "program_line l name" "ls \<noteq> []"
    and d: "describes (ll_ind (hd ls)) ls tree" "t = lite_program_text name tree" by blast
  obtain b where b: "bb_data b = prog_name @ lite_esc name @ prog_tail"
    "hu_hula_lite_to_json src = obind (emit_node (2 * length (l # ls)) (ll_ind (hd ls)) b ls) (\<lambda>(b, rest).
       if rest \<noteq> [] then Err HU_ERR_PARSE else obind (bb_putc b (CHR ''}'')) (\<lambda>b. Ret (bb_data b)))"
    using lite_to_json_lines [OF c(1,3,2)] by blast
  from emit_complete(1) [OF d(1), of "[]" "2 * length (l # ls)" b] obtain b' where
    "emit_node (2 * length (l # ls)) (ll_ind (hd ls)) b ls = Ret (b', [])" "bb_data b' = bb_data b @ lite_text tree"
    by (auto simp: ends_at_def puts_def)
  with b d(2) bb_putc_data [of b' "CHR ''}''"] program_text [of name tree] show "hu_hula_lite_to_json src = Ret t" by auto
qed

section \<open>Properties\<close>

text \<open>
  A HuLa-lite text is translated exactly if its lines are a program line and the lines of one plan, and
  the translation is the JSON text of that plan.
\<close>

theorem hula_lite_grammar:
  "hu_hula_lite_to_json src = Ret t \<longleftrightarrow>
     (\<exists>l ls name tree. collect_lines [] src = Ret (l # ls) \<and> program_line l name \<and> ls \<noteq> [] \<and>
        describes (ll_ind (hd ls)) ls tree \<and> t = lite_program_text name tree)"
  by (rule lite_to_json_iff)

text \<open>
  Translating any text ends, with a JSON text, the parse error or the error of a text with too many or too
  long lines; the buffer is never written out of bounds.
\<close>

theorem hula_lite_total:
  "(\<exists>t. hu_hula_lite_to_json src = Ret t) \<or> hu_hula_lite_to_json src = Err HU_ERR_PARSE \<or>
     hu_hula_lite_to_json src = Err HU_ERR_INVALID_ARGUMENT"
proof (cases "\<exists>lines. collect_lines [] src = Ret lines")
  case False
  then have "collect_lines [] src = Err HU_ERR_PARSE \<or> collect_lines [] src = Err HU_ERR_INVALID_ARGUMENT"
    using collect_lines_total [of "[]" src] by (auto simp: is_ret_def)
  then show ?thesis by (auto simp: hu_hula_lite_to_json_def)
next
  case True
  then obtain lines where lines: "collect_lines [] src = Ret lines" by blast
  show ?thesis
  proof (cases "\<exists>l ls name. lines = l # ls \<and> ls \<noteq> [] \<and> program_line l name")
    case False
    with lite_to_json_none [OF lines] show ?thesis by auto
  next
    case True
    then obtain l ls name where c: "collect_lines [] src = Ret (l # ls)" "ls \<noteq> []" "program_line l name"
      using lines by auto
    obtain b where b: "hu_hula_lite_to_json src = obind (emit_node (2 * length (l # ls)) (ll_ind (hd ls)) b ls) (\<lambda>(b, rest).
       if rest \<noteq> [] then Err HU_ERR_PARSE else obind (bb_putc b (CHR ''}'')) (\<lambda>b. Ret (bb_data b)))"
      using lite_to_json_lines [OF c] by blast
    have "parses_or_not (emit_node (2 * length (l # ls)) (ll_ind (hd ls)) b ls)" using c(2) by (intro emit_total(1)) simp_all
    then show ?thesis
    proof (cases "emit_node (2 * length (l # ls)) (ll_ind (hd ls)) b ls")
      case (Ret x)
      with bb_putc_data [of "fst x" "CHR ''}''"] show ?thesis unfolding b by (cases x) auto
    qed (auto simp: b parses_or_not_def)
  qed
qed

end
