(* ===== verification/HuHulaLiteRead.thy ===== *)
theory HuHulaLiteRead
  imports HuHulaLite
begin

text \<open>
  Reading back HuLa-lite: a plan printed in the notation is translated to the JSON text of that plan, which
  \<^verbatim>\<open>hu_json_parse\<close> reads as the object of the plan, and \<^verbatim>\<open>hu_hula_parse_json\<close> as the program whose nodes are
  the plan's in preorder.  So what is written in the notation is what is executed.
\<close>

section \<open>Printing\<close>

primrec lite_lines :: "lite \<Rightarrow> nat \<Rightarrow> lite_line list" where
  "lite_lines (LCall ident tool args) e =
     \<lparr>ll_ind = e, ll_text = ''call '' @ ident @ '' '' @ tool\<rparr> #
     map (\<lambda>(k, v). \<lparr>ll_ind = Suc e, ll_text = k @ '' '' @ v\<rparr>) args"
| "lite_lines (LGroup opn ident ts) e =
     \<lparr>ll_ind = e, ll_text = opn @ '' '' @ ident\<rparr> # concat (map (\<lambda>f. f (Suc e)) (map lite_lines ts))"

definition line_source :: "lite_line \<Rightarrow> string" where
  "line_source l = replicate (2 * ll_ind l) CHR '' '' @ ll_text l @ [CHR 0x0A]"

definition plan_lines :: "string \<Rightarrow> lite \<Rightarrow> lite_line list" where
  "plan_lines name t = \<lparr>ll_ind = 0, ll_text = ''program '' @ name\<rparr> # lite_lines t 0"

definition lite_source :: "string \<Rightarrow> lite \<Rightarrow> string" where
  "lite_source name t = concat (map line_source (plan_lines name t))"

text \<open>Words and values that need no care: printable characters, values without blanks at their ends.\<close>

definition lite_word :: "string \<Rightarrow> bool" where
  "lite_word w \<longleftrightarrow> w \<noteq> [] \<and> length w \<le> 63 \<and> list_all (\<lambda>c. 32 < cval c) w"

definition lite_value :: "string \<Rightarrow> bool" where
  "lite_value v \<longleftrightarrow> v \<noteq> [] \<and> 32 < cval (hd v) \<and> 32 < cval (last v) \<and> list_all (\<lambda>c. 32 \<le> cval c) v"

definition lite_arg_ok :: "string \<times> string \<Rightarrow> bool" where
  "lite_arg_ok a \<longleftrightarrow> lite_word (fst a) \<and> hd (fst a) \<noteq> CHR ''#'' \<and> lite_value (snd a)"

primrec lite_ok :: "lite \<Rightarrow> bool" where
  "lite_ok (LCall ident tool args) \<longleftrightarrow> lite_word ident \<and> lite_word tool \<and> list_all lite_arg_ok args"
| "lite_ok (LGroup opn ident ts) \<longleftrightarrow> opn \<in> {''seq'', ''par''} \<and> lite_word ident \<and> list_all id (map lite_ok ts)"

definition fits :: "lite_line list \<Rightarrow> bool" where
  "fits ls \<longleftrightarrow> length ls \<le> HU_HULA_LITE_MAX_LINES \<and> list_all (\<lambda>l. length (ll_text l) < HU_HULA_LITE_LINE) ls"

section \<open>Cutting into lines\<close>

definition line_ok :: "lite_line \<Rightarrow> bool" where
  "line_ok l \<longleftrightarrow> ll_text l \<noteq> [] \<and> 32 < cval (hd (ll_text l)) \<and> hd (ll_text l) \<noteq> CHR ''#'' \<and> 32 < cval (last (ll_text l)) \<and>
     list_all (\<lambda>c. 32 \<le> cval c) (ll_text l)"

lemma not_newline: "32 \<le> cval c \<Longrightarrow> \<not> newline c"
  by (auto simp: newline_def cval_def)

lemma trim_end_last: "s \<noteq> [] \<Longrightarrow> 32 < cval (last s) \<Longrightarrow> trim_end s = s"
  by (cases s rule: rev_cases) (simp_all add: trim_end_def)

lemma line_source_cut:
  assumes "line_ok l" and "\<not> newline (hd rest) \<or> rest = []"
  shows "takeWhile (\<lambda>c. \<not> newline c) (line_source l @ rest) = replicate (2 * ll_ind l) CHR '' '' @ ll_text l"
    and "dropWhile newline (dropWhile (\<lambda>c. \<not> newline c) (line_source l @ rest)) = rest"
proof -
  let ?s = "replicate (2 * ll_ind l) CHR '' '' @ ll_text l"
  have s: "\<not> newline c" if "c \<in> set ?s" for c
    using that assms(1) not_newline [of c] by (auto simp: line_ok_def list_all_iff newline_def)
  have nl: "newline CHR 0x0A" by (simp add: newline_def)
  have "line_source l @ rest = ?s @ CHR 0x0A # rest" by (simp add: line_source_def)
  then show "takeWhile (\<lambda>c. \<not> newline c) (line_source l @ rest) = ?s"
    and "dropWhile newline (dropWhile (\<lambda>c. \<not> newline c) (line_source l @ rest)) = rest"
    using s nl assms(2) by (simp_all add: takeWhile_append dropWhile_append, cases rest) auto
qed

lemma not_space: "32 < cval c \<Longrightarrow> c \<noteq> CHR '' ''"
  by (auto simp: cval_def)

lemma line_indent_source:
  "line_ok l \<Longrightarrow> line_indent (replicate (2 * ll_ind l) CHR '' '' @ ll_text l) = Some (ll_ind l, 2 * ll_ind l)"
proof -
  assume "line_ok l"
  then obtain c s where "ll_text l = c # s" "c \<noteq> CHR '' ''" by (cases "ll_text l") (auto simp: line_ok_def not_space)
  then have "takeWhile (\<lambda>c. c = CHR '' '') (replicate (2 * ll_ind l) CHR '' '' @ ll_text l) = replicate (2 * ll_ind l) CHR '' ''"
    by (simp add: takeWhile_append)
  then show ?thesis by (simp add: line_indent_def)
qed

lemma collect_lines_step:
  assumes "s \<noteq> []" "trim_end (takeWhile (\<lambda>c. \<not> newline c) s) = line" "dropWhile newline (dropWhile (\<lambda>c. \<not> newline c) s) = rest"
    and "\<not> list_all (\<lambda>c. cval c \<le> 32) line" "line_indent line = Some (i, k)" "k < length line" "line ! k \<noteq> CHR ''#''"
    and "length out < HU_HULA_LITE_MAX_LINES" "length line - k < HU_HULA_LITE_LINE"
  shows "collect_lines out s = collect_lines (out @ [\<lparr>ll_ind = i, ll_text = drop k line\<rparr>]) rest"
proof -
  obtain c s' where s: "s = c # s'" using assms(1) by (cases s) auto
  have "line \<noteq> []" using assms(6) by auto
  with assms(2-) show ?thesis unfolding s
    by (subst collect_lines.simps) (simp del: dropWhile.simps takeWhile.simps)
qed

lemma collect_line:
  assumes "line_ok l" and "\<not> newline (hd rest) \<or> rest = []"
    and "length out < HU_HULA_LITE_MAX_LINES" and "length (ll_text l) < HU_HULA_LITE_LINE"
  shows "collect_lines out (line_source l @ rest) = collect_lines (out @ [l]) rest"
proof -
  let ?s = "replicate (2 * ll_ind l) CHR '' '' @ ll_text l"
  have t: "ll_text l \<noteq> []" "32 < cval (last (ll_text l))" "hd (ll_text l) \<noteq> CHR ''#''" "32 < cval (hd (ll_text l))"
    using assms(1) by (auto simp: line_ok_def)
  note cut = line_source_cut [OF assms(1,2)]
  have "collect_lines out (line_source l @ rest) =
      collect_lines (out @ [\<lparr>ll_ind = ll_ind l, ll_text = drop (2 * ll_ind l) ?s\<rparr>]) rest"
  proof (rule collect_lines_step)
    show "line_source l @ rest \<noteq> []" by (simp add: line_source_def)
    show "trim_end (takeWhile (\<lambda>c. \<not> newline c) (line_source l @ rest)) = ?s"
      unfolding cut(1) using t(1,2) by (intro trim_end_last) simp_all
    show "\<not> list_all (\<lambda>c. cval c \<le> 32) ?s"
      using t(1,4) by (cases "ll_text l") simp_all
    show "?s ! (2 * ll_ind l) \<noteq> CHR ''#''" using t(1,3) by (simp add: nth_append hd_conv_nth)
  qed (use cut(2) line_indent_source [OF assms(1)] t(1) assms(3,4) in simp_all)
  then show ?thesis by (cases l) simp
qed

lemma line_source_head: "line_ok l \<Longrightarrow> \<not> newline (hd (line_source l @ rest))"
  using not_newline [of "hd (ll_text l)"]
  by (cases "ll_ind l"; cases "ll_text l") (auto simp: line_source_def line_ok_def newline_def)

lemma collect_printed:
  "list_all line_ok ls \<Longrightarrow> list_all (\<lambda>l. length (ll_text l) < HU_HULA_LITE_LINE) ls \<Longrightarrow>
   length out + length ls \<le> HU_HULA_LITE_MAX_LINES \<Longrightarrow> collect_lines out (concat (map line_source ls)) = Ret (out @ ls)"
proof (induction ls arbitrary: out)
  case Nil
  then show ?case by (simp add: collect_lines.simps)
next
  case (Cons l ls)
  have "\<not> newline (hd (concat (map line_source ls))) \<or> concat (map line_source ls) = []"
    using Cons.prems(1) by (cases ls) (auto dest: line_source_head)
  with Cons have "collect_lines out (line_source l @ concat (map line_source ls)) =
      collect_lines (out @ [l]) (concat (map line_source ls))"
    by (intro collect_line) auto
  also have "\<dots> = Ret ((out @ [l]) @ ls)" using Cons.prems by (intro Cons.IH) auto
  finally show ?case by simp
qed

section \<open>Words\<close>

lemma printable_cstr: "list_all (\<lambda>c. 32 \<le> cval c) s \<Longrightarrow> cstr s = s"
proof -
  assume "list_all (\<lambda>c. 32 \<le> cval c) s"
  moreover have "cval NUL = 0" by (simp add: cval_def)
  ultimately have "NUL \<notin> set s" by (auto simp: list_all_iff)
  then show "cstr s = s" by (simp add: no_nul_def)
qed

lemma lite_word_printable: "lite_word w \<Longrightarrow> list_all (\<lambda>c. 32 \<le> cval c) w"
  by (auto simp: lite_word_def list_all_iff)

lemma not_blank: "32 < cval c \<Longrightarrow> \<not> blank c"
  by (auto simp: blank_def cval_def)

lemma lite_word_chars: "lite_word w \<Longrightarrow> c \<in> set w \<Longrightarrow> \<not> blank c"
  unfolding lite_word_def list_all_iff using not_blank by blast

lemma word_takeWhile:
  "lite_word w \<Longrightarrow> s = [] \<or> blank (hd s) \<Longrightarrow> takeWhile (\<lambda>c. \<not> blank c) (w @ s) = w"
  "lite_word w \<Longrightarrow> s = [] \<or> blank (hd s) \<Longrightarrow> dropWhile (\<lambda>c. \<not> blank c) (w @ s) = s"
  by (cases s; simp add: takeWhile_append dropWhile_append lite_word_chars)+

lemma word_not_blank: "lite_word w \<Longrightarrow> dropWhile blank (w @ s) = w @ s"
  using lite_word_chars [of w "hd w"] by (cases w) (auto simp: lite_word_def)

lemma split_word_word:
  assumes "lite_word w" "s = [] \<or> blank (hd s)"
  shows "split_word (w @ s) = (w, s)" and "split_word (CHR '' '' # w @ s) = (w, s)"
proof -
  have "length w \<le> 63" using assms(1) by (simp add: lite_word_def)
  then show "split_word (w @ s) = (w, s)"
    using assms by (simp add: split_word_def word_not_blank word_takeWhile Let_def)
  moreover have "blank CHR '' ''" by (simp add: blank_def)
  ultimately show "split_word (CHR '' '' # w @ s) = (w, s)"
    using assms by (simp add: split_word_def word_not_blank Let_def)
qed

lemma lite_words: "lite_word ''call''" "lite_word ''seq''" "lite_word ''par''" "lite_word ''program''"
  by (simp_all add: lite_word_def cval_def)

lemma split_word_Nil: "split_word [] = ([], [])"
  by (simp add: split_word_def)

lemma blank_space: "blank CHR '' ''"
  by (simp add: blank_def)

lemma split_words_2:
  "lite_word a \<Longrightarrow> lite_word b \<Longrightarrow> split_words (a @ CHR '' '' # b) = (a, b, [])"
  using split_word_word [of a "CHR '' '' # b"] split_word_word(2) [of b "[]"]
  by (simp add: split_words_def split_word_Nil blank_space)

lemma split_words_3:
  "lite_word a \<Longrightarrow> lite_word b \<Longrightarrow> lite_word c \<Longrightarrow> split_words (a @ CHR '' '' # b @ CHR '' '' # c) = (a, b, c)"
  using split_word_word [of a "CHR '' '' # b @ CHR '' '' # c"] split_word_word(2) [of b "CHR '' '' # c"]
    split_word_word(2) [of c "[]"]
  by (simp add: split_words_def blank_space)

lemma fst_split_words: "lite_word a \<Longrightarrow> fst (split_words (a @ CHR '' '' # s)) = a"
  using split_word_word [of a "CHR '' '' # s"] by (simp add: split_words_def blank_space split: prod.split)

lemma printable_simps [simp]:
  "list_all (\<lambda>c. 32 \<le> cval c) (a @ b) \<longleftrightarrow> list_all (\<lambda>c. 32 \<le> cval c) a \<and> list_all (\<lambda>c. 32 \<le> cval c) b"
  "32 \<le> cval CHR '' ''"
  by (simp_all add: cval_def)

lemma cstr_words: "lite_word a \<Longrightarrow> list_all (\<lambda>c. 32 \<le> cval c) s \<Longrightarrow> cstr (a @ CHR '' '' # s) = a @ CHR '' '' # s"
  by (intro printable_cstr) (simp add: lite_word_printable)

lemma line_arg_printed:
  assumes "lite_arg_ok (k, v)"
  shows "line_arg \<lparr>ll_ind = e, ll_text = k @ CHR '' '' # v\<rparr> = Some (k, v)"
proof -
  have kv: "lite_word k" "lite_value v" using assms by (simp_all add: lite_arg_ok_def)
  then have "cstr (k @ CHR '' '' # v) = k @ CHR '' '' # v"
    by (intro cstr_words) (simp_all add: lite_value_def)
  moreover have "dropWhile blank v = v"
    using kv(2) not_blank [of "hd v"] by (cases v) (auto simp: lite_value_def)
  moreover have "arg_value (k @ CHR '' '' # v) = dropWhile blank v"
    using word_takeWhile(2) [OF kv(1), of "CHR '' '' # v"] by (simp add: arg_value_def blank_space)
  ultimately show ?thesis using kv(1) by (simp add: line_arg_def fst_split_words) (simp add: lite_word_def)
qed

lemma line_args_printed:
  "list_all lite_arg_ok args \<Longrightarrow>
   List.map_filter line_arg (map (\<lambda>(k, v). \<lparr>ll_ind = e, ll_text = k @ CHR '' '' # v\<rparr>) args) = args"
  by (induction args) (auto simp: map_filter_simps line_arg_printed)

lemma lite_lines_describe: "lite_ok t \<Longrightarrow> describes e (lite_lines t e) t"
proof (induction t arbitrary: e)
  case (LCall ident tool args)
  then have w: "lite_word ident" "lite_word tool" "list_all lite_arg_ok args" by simp_all
  let ?ls = "map (\<lambda>(k, v). \<lparr>ll_ind = Suc e, ll_text = k @ CHR '' '' # v\<rparr>) args"
  have "cstr (''call '' @ ident @ '' '' @ tool) = ''call'' @ CHR '' '' # ident @ CHR '' '' # tool"
    using cstr_words [OF lite_words(1), of "ident @ CHR '' '' # tool"] w by (simp add: lite_word_printable)
  moreover have "\<forall>a \<in> set ?ls. ll_ind a = Suc e" by auto
  ultimately have "describes e (\<lparr>ll_ind = e, ll_text = ''call '' @ ident @ '' '' @ tool\<rparr> # ?ls)
      (LCall ident tool (List.map_filter line_arg ?ls))"
    using split_words_3 [OF lite_words(1) w(1,2)] w
    by (intro describes_describe_all.call) (auto simp: lite_word_def)
  then show ?case by (simp add: line_args_printed [OF w(3)])
next
  case (LGroup opn ident ts)
  then have w: "opn \<in> {''seq'', ''par''}" "lite_word opn" "lite_word ident" using lite_words by auto
  have kids: "describe_all (Suc e) (concat (map (\<lambda>t. lite_lines t (Suc e)) us)) us" if "set us \<subseteq> set ts" for us
    using that
  proof (induction us)
    case (Cons u us)
    with LGroup have "describes (Suc e) (lite_lines u (Suc e)) u" by (auto simp: list_all_iff)
    with Cons show ?case using describes_describe_all.more by auto
  qed (simp add: describes_describe_all.none)
  have "cstr (opn @ '' '' @ ident) = opn @ CHR '' '' # ident"
    using cstr_words [of opn ident] w by (simp add: lite_word_printable)
  then have "describes e (\<lparr>ll_ind = e, ll_text = opn @ '' '' @ ident\<rparr> # concat (map (\<lambda>t. lite_lines t (Suc e)) ts)) (LGroup opn ident ts)"
    using split_words_2 [OF w(2,3)] w kids [of ts]
    by (intro describes_describe_all.group) (auto simp: lite_word_def)
  then show ?case by (simp add: comp_def)
qed

lemma word_line_ok:
  "lite_word w \<Longrightarrow> hd w \<noteq> CHR ''#'' \<Longrightarrow> s \<noteq> [] \<Longrightarrow> 32 < cval (last s) \<Longrightarrow> list_all (\<lambda>c. 32 \<le> cval c) s \<Longrightarrow>
   line_ok \<lparr>ll_ind = e, ll_text = w @ CHR '' '' # s\<rparr>"
  by (cases w) (auto simp: line_ok_def lite_word_def list_all_iff)

lemma lite_word_last: "lite_word w \<Longrightarrow> 32 < cval (last w)"
  by (auto simp: lite_word_def list_all_iff)

lemma lite_lines_ok: "lite_ok t \<Longrightarrow> list_all line_ok (lite_lines t e)"
proof (induction t arbitrary: e)
  case (LCall ident tool args)
  have "line_ok \<lparr>ll_ind = e, ll_text = ''call'' @ CHR '' '' # ident @ CHR '' '' # tool\<rparr>"
    using LCall lite_words lite_word_last [of tool] lite_word_printable
    by (intro word_line_ok) (auto simp: lite_word_def)
  moreover have "line_ok \<lparr>ll_ind = Suc e, ll_text = k @ CHR '' '' # v\<rparr>" if "(k, v) \<in> set args" for k v
    using that LCall by (intro word_line_ok) (auto simp: list_all_iff lite_arg_ok_def lite_value_def)
  ultimately show ?case by (auto simp: list_all_iff)
next
  case (LGroup opn ident ts)
  then have "line_ok \<lparr>ll_ind = e, ll_text = opn @ CHR '' '' # ident\<rparr>"
    using lite_words lite_word_last [of ident] lite_word_printable by (intro word_line_ok) (auto simp: lite_word_def)
  with LGroup show ?case by (auto simp: list_all_iff)
qed

lemma plan_lines_collect:
  assumes "lite_word name" "lite_ok t" "fits (plan_lines name t)"
  shows "collect_lines [] (lite_source name t) = Ret (plan_lines name t)"
proof -
  have "line_ok \<lparr>ll_ind = 0, ll_text = ''program'' @ CHR '' '' # name\<rparr>"
    using assms(1) lite_words lite_word_last lite_word_printable by (intro word_line_ok) (auto simp: lite_word_def)
  then have "list_all line_ok (plan_lines name t)" using assms(2) by (simp add: plan_lines_def lite_lines_ok)
  then show ?thesis using assms(3) collect_printed [of "plan_lines name t" "[]"] by (simp add: lite_source_def fits_def)
qed

lemma lite_lines_first: "\<exists>l ls. lite_lines t e = l # ls \<and> ll_ind l = e"
  by (cases t) auto

lemma lite_source_text:
  assumes "lite_word name" "lite_ok t" "fits (plan_lines name t)"
  shows "hu_hula_lite_to_json (lite_source name t) = Ret (lite_program_text name t)"
proof -
  have "cstr (''program '' @ name) = ''program'' @ CHR '' '' # name"
    using cstr_words [OF lite_words(4), of name] assms(1) by (simp add: lite_word_printable)
  then have "program_line \<lparr>ll_ind = 0, ll_text = ''program '' @ name\<rparr> name"
    using split_words_2 [OF lite_words(4) assms(1)] assms(1) by (auto simp: program_line_def lite_word_def)
  moreover obtain l ls where "lite_lines t 0 = l # ls" "ll_ind l = 0" using lite_lines_first by blast
  moreover note lite_lines_describe [OF assms(2), of 0] plan_lines_collect [OF assms]
  ultimately have "\<exists>l ls nm tree. collect_lines [] (lite_source name t) = Ret (l # ls) \<and> program_line l nm \<and> ls \<noteq> [] \<and>
        describes (ll_ind (hd ls)) ls tree \<and> lite_program_text name t = lite_program_text nm tree"
    by (intro exI [of _ "\<lparr>ll_ind = 0, ll_text = ''program '' @ name\<rparr>"] exI [of _ "lite_lines t 0"] exI [of _ name] exI [of _ t])
       (auto simp: plan_lines_def)
  then show ?thesis by (rule iffD2 [OF lite_to_json_iff])
qed

section \<open>The JSON object of a plan\<close>

definition args_json :: "(string \<times> string) list \<Rightarrow> json" where
  "args_json args = JObj (map (\<lambda>(k, v). (k, JStr v)) args)"

primrec lite_json :: "lite \<Rightarrow> json" where
  "lite_json (LCall ident tool args) =
     JObj [(''op'', JStr ''call''), (''id'', JStr ident), (''tool'', JStr tool), (''args'', args_json args)]"
| "lite_json (LGroup opn ident ts) =
     JObj [(''op'', JStr opn), (''id'', JStr ident), (''children'', JArr (map lite_json ts))]"

definition lite_program_json :: "string \<Rightarrow> lite \<Rightarrow> json" where
  "lite_program_json name t = JObj [(''name'', JStr name), (''version'', JNum dbl_one), (''root'', lite_json t)]"

primrec lite_height :: "lite \<Rightarrow> nat" where
  "lite_height (LCall ident tool args) = 1"
| "lite_height (LGroup opn ident ts) = Suc (foldr max (map lite_height ts) 0)"

primrec lite_size :: "lite \<Rightarrow> nat" where
  "lite_size (LCall ident tool args) = 1"
| "lite_size (LGroup opn ident ts) = Suc (sum_list (map lite_size ts))"

text \<open>No call names an argument twice.\<close>

primrec lite_keys :: "lite \<Rightarrow> bool" where
  "lite_keys (LCall ident tool args) \<longleftrightarrow> distinct (map fst args)"
| "lite_keys (LGroup opn ident ts) \<longleftrightarrow> list_all id (map lite_keys ts)"

lemma foldr_max: "t \<in> set ts \<Longrightarrow> f t \<le> foldr max (map f ts) (0::nat)"
  by (induction ts) auto

lemma height_le_size: "lite_height t \<le> lite_size t"
proof (induction t)
  case (LGroup opn ident ts)
  then have "foldr max (map lite_height ts) 0 \<le> sum_list (map lite_size ts)"
    by (induction ts) (auto intro: trans_le_add1 trans_le_add2)
  then show ?case by simp
qed simp

subsection \<open>Its text\<close>

lemma esc_text_printable: "32 \<le> cval c \<Longrightarrow> esc_text c = (if c = DQUOTE \<or> c = BSLASH then [BSLASH, c] else [c])"
proof -
  assume "32 \<le> cval c"
  then have "c \<noteq> CHR 0x08" "c \<noteq> CHR 0x0C" "c \<noteq> CHR 0x0A" "c \<noteq> CHR 0x0D" "c \<noteq> CHR 0x09"
    by (auto simp: cval_def)
  with \<open>32 \<le> cval c\<close> show ?thesis by (simp add: esc_text_def)
qed

lemma quoted_printable: "list_all (\<lambda>c. 32 \<le> cval c) s \<Longrightarrow> quoted s = lite_quoted s"
  unfolding quoted_def lite_quoted_def qt_def lite_esc_def
  by (induction s) (simp_all add: esc_text_printable)

lemma quoted_word: "lite_word w \<Longrightarrow> quoted w = lite_quoted w"
  by (simp add: quoted_printable lite_word_printable)

lemma quoted_value: "lite_value v \<Longrightarrow> quoted v = lite_quoted v"
  by (simp add: quoted_printable lite_value_def)

lemma quoted_plain:
  "quoted ''op'' = qt ''op''" "quoted ''id'' = qt ''id''" "quoted ''tool'' = qt ''tool''" "quoted ''args'' = qt ''args''"
  "quoted ''children'' = qt ''children''" "quoted ''name'' = qt ''name''" "quoted ''version'' = qt ''version''"
  "quoted ''root'' = qt ''root''" "quoted ''call'' = qt ''call''" "quoted ''seq'' = qt ''seq''" "quoted ''par'' = qt ''par''"
  by (simp_all add: quoted_def qt_def esc_text_def cval_def)

lemma digit_char_one: "digit_char (Suc 0) = CHR ''1''"
  by code_simp

lemma num_text_one: "num_text dbl_one = ''1''"
  by (simp add: num_text_def int_str_def dbl_small_int_def dbl_integral_def dbl_one_def dbl_trunc_def dbl_trunc_abs_def
      nat_str.simps digit_char_one)

lemma render_args: "list_all lite_arg_ok args \<Longrightarrow> render (args_json args) = ''{'' @ comma_join (map arg_text args) @ ''}''"
proof -
  assume "list_all lite_arg_ok args"
  then have "map member_text (map (\<lambda>(k, v). (k, JStr v)) args) = map arg_text args"
    by (auto simp: list_all_iff member_text_def arg_text_def lite_arg_ok_def quoted_word quoted_value)
  then show ?thesis unfolding args_json_def render_JObj by (simp only:)
qed

lemma lite_text_render: "lite_ok t \<Longrightarrow> lite_text t = render (lite_json t)"
proof (induction t)
  case (LCall ident tool args)
  then show ?case
    by (simp add: render_JObj member_text_def quoted_plain quoted_word render_args del: render.simps(6))
next
  case (LGroup opn ident ts)
  then have "map lite_text ts = map (render \<circ> lite_json) ts" "lite_quoted ident = quoted ident" "qt opn = quoted opn"
    by (auto simp: list_all_iff quoted_word quoted_plain)
  then show ?case
    by (simp add: render_JObj member_text_def quoted_plain del: render.simps(6) map_eq_conv)
qed

lemma lite_program_render: "lite_word name \<Longrightarrow> lite_ok t \<Longrightarrow> lite_program_text name t = render (lite_program_json name t)"
  by (simp add: lite_program_text_def lite_program_json_def lite_text_render render_JObj member_text_def quoted_plain
      quoted_word num_text_one del: render.simps(6))

lemma args_json_ok: "distinct (map fst args) \<Longrightarrow> json_ok (Suc n) (args_json args)"
  by (auto simp: args_json_def comp_def case_prod_unfold)

lemma lite_json_ok: "lite_keys t \<Longrightarrow> 2 * lite_height t \<le> n \<Longrightarrow> json_ok n (lite_json t)"
proof (induction t arbitrary: n)
  case (LCall ident tool args)
  then obtain m where "n = Suc (Suc m)" by (cases n; cases "n - 1") auto
  with LCall args_json_ok [of args m] show ?case by auto
next
  case (LGroup opn ident ts)
  then obtain m where n: "n = Suc (Suc m)" by (cases n; cases "n - 1") auto
  have "json_ok m (lite_json t)" if "t \<in> set ts" for t
    using LGroup n that foldr_max [OF that, of lite_height] by (auto simp: list_all_iff)
  with n show ?case by auto
qed

lemma lite_jnorm: "jnorm (lite_json t) = lite_json t"
  by (induction t) (simp_all add: args_json_def comp_def case_prod_unfold)

subsection \<open>Its length\<close>

lemma length_lite_quoted: "length (lite_quoted s) \<le> 2 * length s + 2"
  unfolding lite_quoted_def qt_def lite_esc_def by (induction s) auto

lemma length_comma_join: "length (comma_join xs) \<le> sum_list (map (\<lambda>x. length x + 1) xs)"
  by (induction xs rule: comma_join.induct) auto

lemma sum_list_le: "(\<And>x. x \<in> set xs \<Longrightarrow> f x \<le> c) \<Longrightarrow> sum_list (map f xs) \<le> c * length (xs :: 'a list)" for c :: nat
  by (induction xs) (auto intro: add_le_mono)

abbreviation short_lines :: "lite_line list \<Rightarrow> bool" where
  "short_lines ls \<equiv> list_all (\<lambda>l. length (ll_text l) < HU_HULA_LITE_LINE) ls"

lemma length_arg_text: "length (k @ CHR '' '' # v) < HU_HULA_LITE_LINE \<Longrightarrow> length (arg_text (k, v)) + 1 \<le> 1000"
  using length_lite_quoted [of k] length_lite_quoted [of v] by (simp add: arg_text_def HU_HULA_LITE_LINE_def)

lemma length_args:
  "short_lines (map (\<lambda>(k, v). \<lparr>ll_ind = e, ll_text = k @ CHR '' '' # v\<rparr>) args) \<Longrightarrow>
   length (comma_join (map arg_text args)) \<le> 1000 * length args"
proof (rule le_trans [OF length_comma_join])
  assume s: "short_lines (map (\<lambda>(k, v). \<lparr>ll_ind = e, ll_text = k @ CHR '' '' # v\<rparr>) args)"
  have "length (arg_text a) + 1 \<le> 1000" if "a \<in> set args" for a
    using s that length_arg_text [of "fst a" "snd a"] by (cases a) (fastforce simp: list_all_iff)
  then show "sum_list (map (\<lambda>x. length x + 1) (map arg_text args)) \<le> 1000 * length args"
    using sum_list_le [of args "\<lambda>a. length (arg_text a) + 1" 1000] by (simp add: comp_def)
qed

lemma length_lite_text: "short_lines (lite_lines t e) \<Longrightarrow> length (lite_text t) + 1 \<le> 2000 * length (lite_lines t e)"
proof (induction t arbitrary: e)
  case (LCall ident tool args)
  then show ?case
    using length_lite_quoted [of ident] length_lite_quoted [of tool] length_args [of "Suc e" args]
    by (auto simp: qt_def HU_HULA_LITE_LINE_def)
next
  case (LGroup opn ident ts)
  have kid: "length (lite_text t) + 1 \<le> 2000 * length (lite_lines t (Suc e))" if "t \<in> set ts" for t
    using LGroup that by (auto simp: list_all_iff)
  have "sum_list (map (\<lambda>t. length (lite_text t) + 1) us) \<le> 2000 * length (concat (map (\<lambda>t. lite_lines t (Suc e)) us))"
    if "set us \<subseteq> set ts" for us
    using that
  proof (induction us)
    case (Cons u us)
    then have "length (lite_text u) + 1 \<le> 2000 * length (lite_lines u (Suc e))"
      "sum_list (map (\<lambda>t. length (lite_text t) + 1) us) \<le> 2000 * length (concat (map (\<lambda>t. lite_lines t (Suc e)) us))"
      using kid by auto
    then show ?case by simp
  qed simp
  from this [of ts] have "length (comma_join (map lite_text ts)) \<le> 2000 * length (concat (map (\<lambda>t. lite_lines t (Suc e)) ts))"
    using le_trans [OF length_comma_join [of "map lite_text ts"]] by (simp add: comp_def)
  with LGroup.prems show ?case
    using length_lite_quoted [of ident] by (auto simp: qt_def HU_HULA_LITE_LINE_def comp_def)
qed

lemma length_program_text: "fits (plan_lines name t) \<Longrightarrow> length (lite_program_text name t) < 2 ^ 61"
proof -
  assume f: "fits (plan_lines name t)"
  then have "short_lines (lite_lines t 0)" "length (lite_lines t 0) \<le> 128" "length name < 384"
    by (auto simp: fits_def plan_lines_def HU_HULA_LITE_MAX_LINES_def HU_HULA_LITE_LINE_def)
  with length_lite_text [of t 0] length_lite_quoted [of name]
  have "length (lite_program_text name t) \<le> 300000" by (simp add: lite_program_text_def qt_def)
  then show ?thesis by simp
qed

lemma lite_program_parses:
  assumes "lite_word name" "lite_ok t" "lite_keys t" "lite_height t \<le> 31" "fits (plan_lines name t)"
  shows "hu_json_parse (lite_program_text name t) = Ret (lite_program_json name t)"
proof -
  have "json_ok 64 (lite_program_json name t)"
    using lite_json_ok [OF assms(3), of 63] assms(4)
    by (simp add: lite_program_json_def json_ok_JObj dbl_ok_def dbl_one_def)
  moreover have "jnorm (lite_program_json name t) = lite_program_json name t"
    by (simp add: lite_program_json_def lite_jnorm norm_zero_def dbl_one_def)
  ultimately show ?thesis
    using hu_json_parse_render [of "lite_program_json name t"] length_program_text [OF assms(5)]
    by (simp add: lite_program_render [OF assms(1,2)])
qed

section \<open>The program of a plan\<close>

definition call_node :: "string \<Rightarrow> string \<Rightarrow> (string \<times> string) list \<Rightarrow> hula_node" where
  "call_node ident tool args =
     (empty_node HU_HULA_CALL (Some ident))\<lparr>hn_tool_name := Some tool, hn_args_json := Some (render (args_json args))\<rparr>"

definition group_node :: "string \<Rightarrow> string \<Rightarrow> nat list \<Rightarrow> hula_node" where
  "group_node opn ident cs =
     (empty_node (if opn = ''seq'' then HU_HULA_SEQ else HU_HULA_PAR) (Some ident))\<lparr>hn_children := cs\<rparr>"

text \<open>Several plans one after the other: their nodes, and the positions of their first nodes.\<close>

fun forest :: "(nat \<Rightarrow> hula_node list) list \<Rightarrow> nat \<Rightarrow> hula_node list" where
  "forest [] i = []"
| "forest (f # fs) i = f i @ forest fs (i + length (f i))"

fun places :: "(nat \<Rightarrow> hula_node list) list \<Rightarrow> nat \<Rightarrow> nat list" where
  "places [] i = []"
| "places (f # fs) i = i # places fs (i + length (f i))"

text \<open>The nodes of a plan whose first node is at position \<open>i\<close>.\<close>

primrec lite_nodes :: "lite \<Rightarrow> nat \<Rightarrow> hula_node list" where
  "lite_nodes (LCall ident tool args) i = [call_node ident tool args]"
| "lite_nodes (LGroup opn ident ts) i =
     group_node opn ident (places (map lite_nodes ts) (Suc i)) # forest (map lite_nodes ts) (Suc i)"

definition lite_program :: "string \<Rightarrow> lite \<Rightarrow> hula_program" where
  "lite_program name t =
     \<lparr>hp_name = Some name, hp_version = 1, hp_nodes = lite_nodes t 0, hp_node_cap = 16, hp_gen = 1, hp_root = Some 0\<rparr>"

lemma length_lite_nodes: "length (lite_nodes t i) = lite_size t"
proof (induction t arbitrary: i)
  case (LGroup opn ident ts)
  have "length (forest (map lite_nodes us) j) = sum_list (map lite_size us)" if "set us \<subseteq> set ts" for us j
    using that LGroup by (induction us arbitrary: j) auto
  then show ?case by simp
qed simp

lemma hu_get_simps:
  "hu_json_object_get (JObj ps) k = get_pair ps k"
  by (simp add: hu_json_object_get_def)

text \<open>The arguments of every call of the plan fit into memory as text.\<close>

primrec args_small :: "lite \<Rightarrow> bool" where
  "args_small (LCall ident tool args) \<longleftrightarrow> length (render (args_json args)) < 2 ^ 63"
| "args_small (LGroup opn ident ts) \<longleftrightarrow> list_all id (map args_small ts)"

lemma short_args_small: "lite_ok t \<Longrightarrow> short_lines (lite_lines t e) \<Longrightarrow> length (lite_lines t e) \<le> 128 \<Longrightarrow> args_small t"
proof (induction t arbitrary: e)
  case (LCall ident tool args)
  then have "length (comma_join (map arg_text args)) \<le> 1000 * length args" by (intro length_args [of "Suc e"]) simp
  with LCall have "length (render (args_json args)) \<le> 200000" by (simp add: render_args)
  then show ?case by simp
next
  case (LGroup opn ident ts)
  have "length (lite_lines t (Suc e)) \<le> length (concat (map (\<lambda>t. lite_lines t (Suc e)) ts))" if "t \<in> set ts" for t
    using that by (induction ts) auto
  with LGroup show ?case by (fastforce simp: list_all_iff comp_def)
qed

lemma args_json_fits: "json_fits (args_json args)"
  by (auto simp: args_json_def)

lemma parse_call_fields:
  assumes "lite_ok (LCall ident tool args)" "args_small (LCall ident tool args)" "lite_keys (LCall ident tool args)"
  shows "parse_fields (lite_json (LCall ident tool args)) (empty_node HU_HULA_CALL (Some ident)) = Ret (call_node ident tool args)"
  using assms hu_json_stringify_render(2) [OF args_json_ok [of args 0] args_json_fits] lite_word_printable [of tool]
  by (simp add: parse_fields_def parse_node_args_def hu_get_simps hu_json_get_string_def get_u32_def hu_json_get_number_def call_node_def
      printable_cstr parse_pred_def empty_node_def)

lemma parse_group_fields:
  "parse_fields (lite_json (LGroup opn ident ts)) (empty_node opc (Some ident)) = Ret (empty_node opc (Some ident))"
  by (simp add: parse_fields_def parse_node_args_def hu_get_simps hu_json_get_string_def get_u32_def hu_json_get_number_def
      parse_pred_def empty_node_def)

lemma word_cstr: "lite_word w \<Longrightarrow> cstr w = w"
  by (simp add: printable_cstr lite_word_printable)

lemma alloc_room_node:
  "length (hp_nodes P) < 16 \<Longrightarrow> hp_node_cap P = 16 \<Longrightarrow> hu_hula_program_alloc_node P opc ident =
     (P\<lparr>hp_nodes := hp_nodes P @ [empty_node opc ident]\<rparr>, Some (hp_gen P, length (hp_nodes P)))"
  by (simp add: hu_hula_program_alloc_node_def HU_HULA_MAX_NODES_def)

text \<open>The children of a group are added one after the other.\<close>

lemma parse_children_lite:
  assumes "\<And>P t. t \<in> set ts \<Longrightarrow> hp_node_cap P = 16 \<Longrightarrow> length (hp_nodes P) + lite_size t \<le> 16 \<Longrightarrow>
      pn P (lite_json t) = Ret (P\<lparr>hp_nodes := hp_nodes P @ lite_nodes t (length (hp_nodes P))\<rparr>, Some (hp_gen P, length (hp_nodes P)))"
    and "hp_node_cap P = 16" and "hp_nodes P = pre @ n # rest"
    and "length (hp_nodes P) + sum_list (map lite_size ts) \<le> 16" and "length (hn_children n) + length ts \<le> 32"
  shows "parse_children pn P (hp_gen P, length pre) (map lite_json ts) = Ret (P\<lparr>hp_nodes :=
     pre @ n\<lparr>hn_children := hn_children n @ places (map lite_nodes ts) (length (hp_nodes P))\<rparr> #
     rest @ forest (map lite_nodes ts) (length (hp_nodes P))\<rparr>)"
  using assms
proof (induction ts arbitrary: P n rest)
  case Nil
  then show ?case by (cases P) simp
next
  case (Cons t ts)
  let ?i = "length (hp_nodes P)" and ?p = "(hp_gen P, length pre)"
  let ?Q = "P\<lparr>hp_nodes := hp_nodes P @ lite_nodes t ?i\<rparr>"
  let ?n = "n\<lparr>hn_children := hn_children n @ [?i]\<rparr>"
  let ?R = "P\<lparr>hp_nodes := pre @ ?n # rest @ lite_nodes t ?i\<rparr>"
  have pn: "pn P (lite_json t) = Ret (?Q, Some (hp_gen P, ?i))" using Cons.prems by (intro Cons.prems(1)) auto
  have add: "add_child ?Q ?p (hp_gen P, ?i) = Ret ?R"
    using Cons.prems(3) by (simp add: add_child_def node_write_def node_read_def nth_append list_update_append)
  have "parse_children pn P ?p (map lite_json (t # ts)) = parse_children pn ?R ?p (map lite_json ts)"
    using Cons.prems(3,5) pn add by (simp add: node_read_def HU_HULA_MAX_CHILDREN_def)
  also have "\<dots> = Ret (?R\<lparr>hp_nodes := pre @ ?n\<lparr>hn_children := hn_children ?n @ places (map lite_nodes ts) (length (hp_nodes ?R))\<rparr> #
     (rest @ lite_nodes t ?i) @ forest (map lite_nodes ts) (length (hp_nodes ?R))\<rparr>)"
    using Cons.IH [of ?R ?n "rest @ lite_nodes t ?i"] Cons.prems by (simp add: length_lite_nodes)
  also have "length (hp_nodes ?R) = ?i + length (lite_nodes t ?i)" using Cons.prems(3) by simp
  finally show ?case by simp
qed

lemma size_ge: "t \<in> set ts \<Longrightarrow> lite_size t \<le> sum_list (map lite_size ts)"
  by (induction ts) auto

lemma size_pos: "1 \<le> lite_size t"
  by (cases t) auto

lemma length_le_sizes: "length ts \<le> sum_list (map lite_size ts)"
proof (induction ts)
  case (Cons t ts)
  with size_pos [of t] show ?case by simp
qed simp

lemma parse_lite:
  assumes "lite_ok t" "args_small t" "lite_keys t" "lite_height t \<le> k" "hp_node_cap P = 16" "length (hp_nodes P) + lite_size t \<le> 16"
  shows "parse_node k P (lite_json t) =
    Ret (P\<lparr>hp_nodes := hp_nodes P @ lite_nodes t (length (hp_nodes P))\<rparr>, Some (hp_gen P, length (hp_nodes P)))"
  using assms
proof (induction t arbitrary: k P)
  case (LCall ident tool args)
  then obtain k' where k: "k = Suc k'" by (cases k) auto
  let ?P = "P\<lparr>hp_nodes := hp_nodes P @ [empty_node HU_HULA_CALL (Some ident)]\<rparr>"
  have "hu_json_get_string (lite_json (LCall ident tool args)) ''op'' = Some ''call''"
    "hu_json_get_string (lite_json (LCall ident tool args)) ''id'' = Some ident"
    using LCall.prems(1) by (simp_all add: hu_json_get_string_def hu_get_simps word_cstr lite_words)
  moreover have "parse_op (Some ''call'') = HU_HULA_CALL" by (simp add: parse_op_def all_ops_def)
  moreover have "child_items (lite_json (LCall ident tool args)) = []" by (simp add: child_items_def hu_get_simps)
  moreover note parse_call_fields [OF LCall.prems(1-3)]
  ultimately show ?case
    using LCall.prems alloc_room_node [of P HU_HULA_CALL "Some ident"]
    by (simp add: k Let_def node_read_def node_write_def parse_shorthands_def)
next
  case (LGroup opn ident ts)
  then obtain k' where k: "k = Suc k'" by (cases k) auto
  let ?opc = "if opn = ''seq'' then HU_HULA_SEQ else HU_HULA_PAR"
  let ?n = "empty_node ?opc (Some ident)"
  let ?P = "P\<lparr>hp_nodes := hp_nodes P @ [?n]\<rparr>"
  have pn: "parse_node k' Q (lite_json t) =
      Ret (Q\<lparr>hp_nodes := hp_nodes Q @ lite_nodes t (length (hp_nodes Q))\<rparr>, Some (hp_gen Q, length (hp_nodes Q)))"
    if "t \<in> set ts" "hp_node_cap Q = 16" "length (hp_nodes Q) + lite_size t \<le> 16" for Q t
    using LGroup.IH [OF that(1)] LGroup.prems(1-4) that foldr_max [OF that(1), of lite_height] k
    by (auto simp: list_all_iff)
  have get: "hu_json_get_string (lite_json (LGroup opn ident ts)) ''op'' = Some opn"
    "hu_json_get_string (lite_json (LGroup opn ident ts)) ''id'' = Some ident"
    using LGroup.prems(1) by (auto simp: hu_json_get_string_def hu_get_simps word_cstr lite_words)
  have opc: "parse_op (Some opn) = ?opc" using LGroup.prems(1) by (auto simp: parse_op_def all_ops_def)
  have items: "child_items (lite_json (LGroup opn ident ts)) = map lite_json ts" by (simp add: child_items_def hu_get_simps)
  have kids: "parse_children (\<lambda>pr v. parse_node k' pr v) ?P (hp_gen P, length (hp_nodes P)) (map lite_json ts) =
      Ret (?P\<lparr>hp_nodes := hp_nodes P @ ?n\<lparr>hn_children := places (map lite_nodes ts) (Suc (length (hp_nodes P)))\<rparr> #
        forest (map lite_nodes ts) (Suc (length (hp_nodes P)))\<rparr>)"
    using parse_children_lite [of ts "\<lambda>pr v. parse_node k' pr v" ?P "hp_nodes P" ?n "[]", OF pn] LGroup.prems length_le_sizes [of ts]
    by (simp add: empty_node_def)
  note fields = parse_group_fields [of opn ident ts ?opc]
  have short: "parse_shorthands pn ?opc obj p Q = Ret Q" for pn obj p Q by (simp add: parse_shorthands_def)
  have "parse_node k P (lite_json (LGroup opn ident ts)) = obind (parse_children (\<lambda>pr v. parse_node k' pr v) ?P
      (hp_gen P, length (hp_nodes P)) (map lite_json ts)) (\<lambda>prog. Ret (prog, Some (hp_gen P, length (hp_nodes P))))"
    using LGroup.prems(5,6) alloc_room_node [of P ?opc "Some ident"] get opc items fields short
    by (simp add: k Let_def node_read_def node_write_def del: parse_children.simps)
  then show ?case unfolding kids by (simp add: group_node_def)
qed

lemma lite_program_parse_json:
  assumes "lite_word name" "lite_ok t" "lite_keys t" "lite_size t \<le> 16" "fits (plan_lines name t)"
  shows "hu_hula_parse_json (lite_program_text name t) = Ret (lite_program name t)"
proof -
  let ?P = "(hu_hula_program_init (Some name))\<lparr>hp_version := 1\<rparr>"
  let ?P' = "?P\<lparr>hp_node_cap := 16, hp_gen := 1\<rparr>"
  obtain qs where qs: "lite_json t = JObj qs" by (cases t) auto
  have "name \<noteq> []" using assms(1) by (simp add: lite_word_def)
  then have P: "?P = \<lparr>hp_name = Some name, hp_version = 1, hp_nodes = [], hp_node_cap = 0, hp_gen = 0, hp_root = None\<rparr>"
    by (simp add: hu_hula_program_init_def)
  have small: "args_small t"
    using assms(2,5) by (intro short_args_small [of t 0]) (auto simp: fits_def plan_lines_def HU_HULA_LITE_MAX_LINES_def)
  have "parse_node (Suc HU_HULA_MAX_DEPTH) ?P (lite_json t) = parse_node (Suc HU_HULA_MAX_DEPTH) ?P' (lite_json t)"
    unfolding qs P by (simp add: hu_hula_program_alloc_node_def HU_HULA_MAX_NODES_def)
  also have "\<dots> = Ret (?P'\<lparr>hp_nodes := lite_nodes t 0\<rparr>, Some (1, 0))"
    using parse_lite [OF assms(2) small assms(3), of "Suc HU_HULA_MAX_DEPTH" ?P'] height_le_size [of t] assms(4)
    by (simp add: HU_HULA_MAX_DEPTH_def hu_hula_program_init_def)
  finally have node: "parse_node (Suc HU_HULA_MAX_DEPTH) ?P (JObj qs) = Ret (?P'\<lparr>hp_nodes := lite_nodes t 0\<rparr>, Some (1, 0))"
    unfolding qs .
  have json: "hu_json_parse (lite_program_text name t) = Ret (lite_program_json name t)"
    using assms height_le_size [of t] by (intro lite_program_parses) simp_all
  have get: "hu_json_object_get (lite_program_json name t) ''root'' = Some (JObj qs)"
    "hu_json_get_string (lite_program_json name t) ''name'' = Some name"
    "get_u32 (lite_program_json name t) ''version'' dbl_one = Ret 1"
    using assms(1) by (simp_all add: lite_program_json_def hu_get_simps qs hu_json_get_string_def word_cstr get_u32_def
        hu_json_get_number_def)
  show ?thesis
    unfolding parse_json_root [OF json get(1)] get(2,3) obind.simps(1) node
    using \<open>name \<noteq> []\<close> by (simp add: lite_program_def hu_hula_program_init_def)
qed

section \<open>Properties\<close>

text \<open>
  C11: a plan of calls and of seq and par groups, of at most sixteen nodes in all, that is written in HuLa-lite is
  translated to JSON, which reads as the object of the plan, and \<^verbatim>\<open>hu_hula_parse_json\<close> reads it as the program with
  the plan's nodes in preorder.  Names, ids, tools and argument keys are words of 1 to 63 characters above the blank,
  keys do not start with a hash sign, the keys of a call are distinct; values are not empty, have no character below the
  blank and no blank at their ends; the plan has at most 128 lines, each of fewer than 384 characters without its
  indentation.  (A tab in a value breaks the JSON: \<open>lite_tab_breaks\<close>.)
\<close>

theorem hula_lite_program:
  assumes "lite_word name" and "lite_ok t" and "lite_keys t" and "lite_size t \<le> 16" and "fits (plan_lines name t)"
  shows "\<exists>text. hu_hula_lite_to_json (lite_source name t) = Ret text \<and> hu_json_parse text = Ret (lite_program_json name t) \<and>
     hu_hula_parse_json text = Ret (lite_program name t)"
  using lite_source_text [OF assms(1,2,5)] lite_program_parses [OF assms(1-3) _ assms(5)] lite_program_parse_json [OF assms]
    height_le_size [of t] assms(4) by simp

definition sample_lite :: lite where
  "sample_lite = LGroup ''seq'' ''s'' [LCall ''a'' ''file_read'' [(''path'', ''a b'')], LGroup ''par'' ''p'' [LCall ''b'' ''shell'' []]]"

lemma hula_lite_program_witness:
  "\<exists>text. hu_hula_lite_to_json (lite_source ''demo'' sample_lite) = Ret text \<and>
     hu_hula_parse_json text = Ret (lite_program ''demo'' sample_lite)"
  using hula_lite_program [of "''demo''" sample_lite]
  by (auto simp: sample_lite_def lite_word_def lite_value_def lite_arg_ok_def cval_def fits_def plan_lines_def
      HU_HULA_LITE_MAX_LINES_def HU_HULA_LITE_LINE_def)

text \<open>
  A control character inside a value, such as a tab, is copied into the JSON string as it is, which does not
  parse; a word of more than 63 characters spills over into the next word.
\<close>

definition tab_source :: string where
  "tab_source = ''program p'' @ [CHR 0x0A] @ ''call a t'' @ [CHR 0x0A] @ ''  k x'' @ [CHR 0x09] @ ''y'' @ [CHR 0x0A]"

lemma tab_lines: "collect_lines [] tab_source =
   Ret [\<lparr>ll_ind = 0, ll_text = ''program p''\<rparr>, \<lparr>ll_ind = 0, ll_text = ''call a t''\<rparr>, \<lparr>ll_ind = 1, ll_text = ''k x'' @ [CHR 0x09] @ ''y''\<rparr>]"
  by (simp add: tab_source_def collect_lines.simps newline_def trim_end_def cval_def line_indent_def
      HU_HULA_LITE_MAX_LINES_def HU_HULA_LITE_LINE_def)

lemma tab_describes: "describes 0 [\<lparr>ll_ind = 0, ll_text = ''call a t''\<rparr>, \<lparr>ll_ind = 1, ll_text = ''k x'' @ [CHR 0x09] @ ''y''\<rparr>]
   (LCall ''a'' ''t'' [(''k'', ''x'' @ [CHR 0x09] @ ''y'')])"
  using describes_describe_all.call [of "\<lparr>ll_ind = 0, ll_text = ''call a t''\<rparr>" 0 "''a''" "''t''"
      "[\<lparr>ll_ind = 1, ll_text = ''k x'' @ [CHR 0x09] @ ''y''\<rparr>]"]
  by (simp add: split_words_def split_word_def blank_def cstr_def line_arg_def arg_value_def map_filter_simps)

lemma lite_tab_breaks:
  "hu_hula_lite_to_json tab_source = Ret (lite_program_text ''p'' (LCall ''a'' ''t'' [(''k'', ''x'' @ [CHR 0x09] @ ''y'')]))"
  "parse_string_raw (lite_quoted (''x'' @ [CHR 0x09] @ ''y'')) = Err HU_ERR_JSON_PARSE"
proof -
  have "program_line \<lparr>ll_ind = 0, ll_text = ''program p''\<rparr> ''p''"
    by (simp add: program_line_def split_words_def split_word_def blank_def cstr_def)
  with tab_lines tab_describes
  show "hu_hula_lite_to_json tab_source = Ret (lite_program_text ''p'' (LCall ''a'' ''t'' [(''k'', ''x'' @ [CHR 0x09] @ ''y'')]))"
    unfolding lite_to_json_iff by fastforce
  show "parse_string_raw (lite_quoted (''x'' @ [CHR 0x09] @ ''y'')) = Err HU_ERR_JSON_PARSE" by code_simp
qed

lemma lite_long_word: "split_words (replicate 70 CHR ''a'' @ '' t'') = (replicate 63 CHR ''a'', replicate 7 CHR ''a'', ''t'')"
  by (simp add: split_words_def split_word_def blank_def eval_nat_numeral)

end
