(* ===== verification/HuDelegation.thy ===== *)
theory HuDelegation
  imports HuNum
begin

text \<open>
  \<^verbatim>\<open>src/security/delegation.c\<close>: the registry of delegation tokens, by which an agent passes a part of its
  authority to another.

  A token names its issuer and its target, holds caveats that restrict its use, and the id of the token it was
  derived from, if any.  The registry is the list of its tokens, in the order of their creation, and the counter
  that makes ids unique; its capacity is fixed, so no pointer to a token goes stale.  Ids and names are C
  strings, kept in arrays of 64 bytes (\<open>str63\<close>).  Every call of \<^verbatim>\<open>time\<close> is an argument; allocation succeeds.

  The lemmas show what the registry promises in every state it can get to (\<open>registry_reachable\<close>): ids are
  unique, parents come before their children, a token carries all caveats of its ancestors, and what an ancestor
  lost to a revocation its descendants have lost too.
\<close>

section \<open>The state\<close>

record hu_delegation_caveat =
  cv_key :: string
  cv_value :: string

record hu_delegation_token =
  dt_token_id :: string
  dt_issuer_agent_id :: string
  dt_target_agent_id :: string
  dt_caveats :: "hu_delegation_caveat list"
  dt_issued_at :: int
  dt_expires_at :: int
  dt_revoked :: bool
  dt_parent_token_id :: string

record hu_delegation_registry =
  dr_tokens :: "hu_delegation_token list"
  dr_token_counter :: nat

definition HU_DELEGATION_MAX_TOKENS :: nat where "HU_DELEGATION_MAX_TOKENS = 256"
definition HU_DELEGATION_MAX_CAVEATS :: nat where "HU_DELEGATION_MAX_CAVEATS = 16"

definition hu_delegation_registry_create :: hu_delegation_registry where
  "hu_delegation_registry_create = \<lparr>dr_tokens = [], dr_token_counter = 0\<rparr>"

text \<open>\<^verbatim>\<open>strncpy (dst, src, 63)\<close> into an array of 64 bytes whose last byte is set to NUL.\<close>

definition str63 :: "string \<Rightarrow> string" where
  "str63 s = take 63 s"

lemma length_str63 [simp]: "length (str63 s) \<le> 63"
  by (simp add: str63_def)

definition generate_token_id :: "int \<Rightarrow> nat \<Rightarrow> string" where
  "generate_token_id now counter = take 63 (''tok_'' @ int_str now @ ''_'' @ nat_str counter)"

definition hu_delegation_get_token :: "hu_delegation_registry \<Rightarrow> string \<Rightarrow> hu_delegation_token option" where
  "hu_delegation_get_token reg token_id = List.find (\<lambda>t. dt_token_id t = token_id) (dr_tokens reg)"

definition hu_delegation_token_count :: "hu_delegation_registry \<Rightarrow> nat" where
  "hu_delegation_token_count reg = length (dr_tokens reg)"

section \<open>Globs\<close>

text \<open>
  The matcher of \<^verbatim>\<open>path_matches_glob\<close> on a pattern that is not empty at first: \<open>star_loop\<close> is the loop behind a
  star, which tries the rest of the pattern at every position before the end of the text.
\<close>

function (sequential) glob_loop :: "string \<Rightarrow> string \<Rightarrow> bool" and star_loop :: "string \<Rightarrow> string \<Rightarrow> bool" where
  "glob_loop t [] = (t = [])"
| "glob_loop t (c # p) =
     (if c = CHR ''*'' then
        let p = dropWhile (\<lambda>x. x = CHR ''*'') p in if p = [] then True else star_loop t p
      else if c = CHR ''?'' then (case t of [] \<Rightarrow> False | _ # t \<Rightarrow> glob_loop t p)
      else (case t of [] \<Rightarrow> False | x # t \<Rightarrow> if c \<noteq> x then False else glob_loop t p))"
| "star_loop [] p = False"
| "star_loop (c # t) p = (if glob_loop (c # t) p then True else star_loop t p)"
  by pat_completeness auto
termination
  by (relation "measures [\<lambda>x. case x of Inl (t, p) \<Rightarrow> length p | Inr (t, p) \<Rightarrow> length p,
        \<lambda>x. case x of Inl (t, p) \<Rightarrow> 2 * length t | Inr (t, p) \<Rightarrow> 2 * length t + 1]")
     (auto simp: length_dropWhile_le le_imp_less_Suc)

text \<open>\<open>None\<close> is the NULL path.\<close>

definition path_matches_glob :: "string option \<Rightarrow> string \<Rightarrow> bool" where
  "path_matches_glob path pattern =
     (if pattern = [] then True else case path of None \<Rightarrow> False | Some t \<Rightarrow> glob_loop t pattern)"

section \<open>Numbers in caveats\<close>

text \<open>C's \<^verbatim>\<open>>\<close> on doubles, which is false if an operand is not a number.\<close>

definition dbl_gt :: "dbl \<Rightarrow> dbl \<Rightarrow> bool" where
  "dbl_gt a b =
     (let e = min (dexp a) (dexp b);
          v = (\<lambda>d. (if dneg d then -1 else 1) * int (dman d) * 2 ^ nat (dexp d - e))
      in v a > v b)"

fun fp_gt :: "fpval \<Rightarrow> fpval \<Rightarrow> bool" where
  "fp_gt (Fin a) (Fin b) = dbl_gt a b"
| "fp_gt (Fin a) (FInf neg) = neg"
| "fp_gt (FInf neg) (Fin b) = (\<not> neg)"
| "fp_gt (FInf neg) (FInf neg') = (\<not> neg \<and> neg')"
| "fp_gt _ _ = False"

text \<open>\<^verbatim>\<open>strtod (s, NULL)\<close>: zero if there is no number.\<close>

definition strtod_value :: "string \<Rightarrow> fpval" where
  "strtod_value s = (case strtod s of None \<Rightarrow> Fin dzero | Some (v, _) \<Rightarrow> v)"

text \<open>\<^verbatim>\<open>strtoul (s, NULL, 10)\<close> with its 64-bit result: clamped when too large, negated after a minus sign.\<close>

definition strtoul_value :: "string \<Rightarrow> nat" where
  "strtoul_value s =
     (let (neg, t) = scan_sign (dropWhile is_space s); n = digits_val (takeWhile is_digit t) in
      if n \<ge> 2 ^ 64 then 2 ^ 64 - 1 else if neg then (2 ^ 64 - n) mod 2 ^ 64 else n)"

section \<open>Issuing and attenuating\<close>

text \<open>
  \<^verbatim>\<open>hu_delegation_issue\<close>: the registry afterwards and the id of the new token, or \<open>None\<close> for NULL.  \<open>now1\<close> is the
  clock read for the id and \<open>now2\<close> the one for the time of issue.
\<close>

definition hu_delegation_issue ::
    "int \<Rightarrow> int \<Rightarrow> hu_delegation_registry \<Rightarrow> string \<Rightarrow> string \<Rightarrow> nat \<Rightarrow> hu_delegation_caveat list \<Rightarrow>
       hu_delegation_registry \<times> string option" where
  "hu_delegation_issue now1 now2 reg issuer_id target_id ttl_seconds caveats =
     (if length (dr_tokens reg) \<ge> HU_DELEGATION_MAX_TOKENS then (reg, None)
      else if length caveats > HU_DELEGATION_MAX_CAVEATS then (reg, None)
      else
        let tok = \<lparr>dt_token_id = generate_token_id now1 (dr_token_counter reg),
                   dt_issuer_agent_id = str63 issuer_id, dt_target_agent_id = str63 target_id, dt_caveats = caveats,
                   dt_issued_at = now2, dt_expires_at = (if ttl_seconds > 0 then now2 + int ttl_seconds else 0),
                   dt_revoked = False, dt_parent_token_id = []\<rparr>
        in (\<lparr>dr_tokens = dr_tokens reg @ [tok], dr_token_counter = (dr_token_counter reg + 1) mod 2 ^ 32\<rparr>,
            Some (dt_token_id tok)))"

definition hu_delegation_attenuate ::
    "int \<Rightarrow> int \<Rightarrow> hu_delegation_registry \<Rightarrow> string \<Rightarrow> string \<Rightarrow> string \<Rightarrow> hu_delegation_caveat list \<Rightarrow>
       hu_delegation_registry \<times> string option" where
  "hu_delegation_attenuate now1 now2 reg parent_token_id new_issuer_id new_target_id additional_caveats =
     (case List.find (\<lambda>t. dt_token_id t = parent_token_id) (dr_tokens reg) of
        None \<Rightarrow> (reg, None)
      | Some parent \<Rightarrow>
          if dt_revoked parent then (reg, None)
          else if dt_target_agent_id parent \<noteq> new_issuer_id then (reg, None)
          else if length (dt_caveats parent) + length additional_caveats > HU_DELEGATION_MAX_CAVEATS then (reg, None)
          else
            let combined = dt_caveats parent @ additional_caveats in
            if length (dr_tokens reg) \<ge> HU_DELEGATION_MAX_TOKENS then (reg, None)
            else
              let child = \<lparr>dt_token_id = generate_token_id now1 (dr_token_counter reg),
                           dt_issuer_agent_id = str63 new_issuer_id, dt_target_agent_id = str63 new_target_id,
                           dt_caveats = combined, dt_issued_at = now2, dt_expires_at = dt_expires_at parent,
                           dt_revoked = False, dt_parent_token_id = str63 (dt_token_id parent)\<rparr>
              in (\<lparr>dr_tokens = dr_tokens reg @ [child], dr_token_counter = (dr_token_counter reg + 1) mod 2 ^ 32\<rparr>,
                  Some (dt_token_id child)))"

section \<open>Verifying\<close>

text \<open>The walk up the parents; the first argument bounds its length, which more than the number of tokens is enough for.\<close>

fun is_revoked_recursive :: "nat \<Rightarrow> hu_delegation_registry \<Rightarrow> string \<Rightarrow> bool outcome" where
  "is_revoked_recursive 0 reg parent_id = NoFuel"
| "is_revoked_recursive (Suc k) reg parent_id =
     (if parent_id = [] then Ret False
      else case hu_delegation_get_token reg parent_id of
        None \<Rightarrow> Ret False
      | Some tok \<Rightarrow> if dt_revoked tok then Ret True else is_revoked_recursive k reg (dt_parent_token_id tok))"

definition registry_fuel :: "hu_delegation_registry \<Rightarrow> nat" where
  "registry_fuel reg = length (dr_tokens reg) + 1"

text \<open>One caveat, with the clock read for it: whether it lets the action through.\<close>

definition caveat_allows ::
    "hu_delegation_token \<Rightarrow> string \<Rightarrow> string option \<Rightarrow> fpval \<Rightarrow> int \<Rightarrow> hu_delegation_caveat \<Rightarrow> bool" where
  "caveat_allows tok tool_name resource cost_usd now c =
     (if cstr (cv_key c) = ''tool'' then path_matches_glob (Some tool_name) (cstr (cv_value c))
      else if cstr (cv_key c) = ''path'' then
        (case resource of None \<Rightarrow> False | Some r \<Rightarrow> path_matches_glob (Some r) (cstr (cv_value c)))
      else if cstr (cv_key c) = ''max_cost'' then \<not> fp_gt cost_usd (strtod_value (cstr (cv_value c)))
      else if cstr (cv_key c) = ''ttl'' then
        \<not> now > dt_issued_at tok + int (strtoul_value (cstr (cv_value c)) mod 2 ^ 32)
      else True)"

text \<open>The loop over the caveats; \<open>clock\<close> gives the readings of \<^verbatim>\<open>time\<close>, of which the first is the expiry check's.\<close>

fun caveats_loop :: "(hu_delegation_caveat \<Rightarrow> nat \<Rightarrow> bool) \<Rightarrow> nat \<Rightarrow> hu_delegation_caveat list \<Rightarrow> unit outcome" where
  "caveats_loop ok i [] = Ret ()"
| "caveats_loop ok i (c # cs) = (if \<not> ok c i then Err HU_ERR_PERMISSION_DENIED else caveats_loop ok (Suc i) cs)"

definition hu_delegation_verify ::
    "(nat \<Rightarrow> int) \<Rightarrow> hu_delegation_registry \<Rightarrow> string \<Rightarrow> string \<Rightarrow> string \<Rightarrow> string option \<Rightarrow> fpval \<Rightarrow> unit outcome" where
  "hu_delegation_verify clock reg token_id agent_id tool_name resource cost_usd =
     (case hu_delegation_get_token reg token_id of
        None \<Rightarrow> Err HU_ERR_NOT_FOUND
      | Some tok \<Rightarrow>
          if dt_target_agent_id tok \<noteq> agent_id then Err HU_ERR_PERMISSION_DENIED
          else
            obind (if dt_revoked tok then Ret True
                   else is_revoked_recursive (registry_fuel reg) reg (dt_parent_token_id tok)) (\<lambda>revoked.
            if revoked then Err HU_ERR_PERMISSION_DENIED
            else if dt_expires_at tok > 0 \<and> clock 0 > dt_expires_at tok then Err HU_ERR_PERMISSION_DENIED
            else caveats_loop (\<lambda>c i. caveat_allows tok tool_name resource cost_usd (clock i) c) 1 (dt_caveats tok)))"

section \<open>Revoking\<close>

text \<open>
  The loop of \<^verbatim>\<open>revoke_children_recursive\<close> over the positions of the registry; \<open>rec\<close> is the function one level
  down, which walks over the same array.
\<close>

fun revoke_loop ::
    "(string \<Rightarrow> hu_delegation_token list \<Rightarrow> hu_delegation_token list outcome) \<Rightarrow> string \<Rightarrow> nat list \<Rightarrow>
       hu_delegation_token list \<Rightarrow> hu_delegation_token list outcome" where
  "revoke_loop rec parent_id [] ts = Ret ts"
| "revoke_loop rec parent_id (i # is) ts =
     (if dt_parent_token_id (ts ! i) = parent_id then
        obind (rec (dt_token_id (ts ! i)) (ts[i := (ts ! i)\<lparr>dt_revoked := True\<rparr>])) (\<lambda>ts. revoke_loop rec parent_id is ts)
      else revoke_loop rec parent_id is ts)"

fun revoke_children_recursive ::
    "nat \<Rightarrow> string \<Rightarrow> hu_delegation_token list \<Rightarrow> hu_delegation_token list outcome" where
  "revoke_children_recursive 0 parent_id ts = NoFuel"
| "revoke_children_recursive (Suc k) parent_id ts =
     revoke_loop (\<lambda>pid ts. revoke_children_recursive k pid ts) parent_id [0..<length ts] ts"

fun find_token :: "string \<Rightarrow> nat \<Rightarrow> hu_delegation_token list \<Rightarrow> nat option" where
  "find_token token_id i [] = None"
| "find_token token_id i (t # ts) = (if dt_token_id t = token_id then Some i else find_token token_id (Suc i) ts)"

definition hu_delegation_revoke :: "hu_delegation_registry \<Rightarrow> string \<Rightarrow> hu_delegation_registry outcome" where
  "hu_delegation_revoke reg token_id =
     (case find_token token_id 0 (dr_tokens reg) of
        None \<Rightarrow> Err HU_ERR_NOT_FOUND
      | Some i \<Rightarrow>
          obind (revoke_children_recursive (registry_fuel reg) token_id
                   ((dr_tokens reg)[i := (dr_tokens reg ! i)\<lparr>dt_revoked := True\<rparr>])) (\<lambda>ts.
          Ret (reg\<lparr>dr_tokens := ts\<rparr>)))"

section \<open>Chains\<close>

text \<open>The walk up from a token; the first argument is how much of the array of 64 is left.\<close>

fun chain_loop :: "nat \<Rightarrow> hu_delegation_registry \<Rightarrow> hu_delegation_token option \<Rightarrow> string list" where
  "chain_loop 0 reg current = []"
| "chain_loop (Suc k) reg current =
     (case current of
        None \<Rightarrow> []
      | Some tok \<Rightarrow>
          dt_token_id tok #
          (if dt_parent_token_id tok = [] then []
           else chain_loop k reg (hu_delegation_get_token reg (dt_parent_token_id tok))))"

definition hu_delegation_chain :: "hu_delegation_registry \<Rightarrow> string \<Rightarrow> string list outcome" where
  "hu_delegation_chain reg token_id =
     (case hu_delegation_get_token reg token_id of
        None \<Rightarrow> Err HU_ERR_NOT_FOUND
      | Some tok \<Rightarrow> Ret (rev (chain_loop 64 reg (Some tok))))"

section \<open>Globs are globs\<close>

text \<open>What a pattern stands for: a star for any text, a question mark for any character.\<close>

inductive glob :: "string \<Rightarrow> string \<Rightarrow> bool" where
  glob_end: "glob [] []"
| glob_star: "glob p t \<Longrightarrow> glob (CHR ''*'' # p) (u @ t)"
| glob_any: "glob p t \<Longrightarrow> glob (CHR ''?'' # p) (x # t)"
| glob_char: "c \<noteq> CHR ''*'' \<Longrightarrow> c \<noteq> CHR ''?'' \<Longrightarrow> glob p t \<Longrightarrow> glob (c # p) (c # t)"

inductive_simps glob_Nil: "glob [] t"
inductive_simps glob_Cons: "glob (c # p) t"

lemma glob_star_iff: "glob (CHR ''*'' # p) t \<longleftrightarrow> (\<exists>u v. t = u @ v \<and> glob p v)"
  by (auto simp: glob_Cons)

lemma glob_star_dropWhile:
  "glob (CHR ''*'' # p) t \<longleftrightarrow> (\<exists>u v. t = u @ v \<and> glob (dropWhile (\<lambda>x. x = CHR ''*'') p) v)"
proof (induction p arbitrary: t)
  case (Cons c p)
  show ?case
  proof (cases "c = CHR ''*''")
    case True
    have "glob (CHR ''*'' # CHR ''*'' # p) t \<longleftrightarrow>
        (\<exists>u v. t = u @ v \<and> (\<exists>u' v'. v = u' @ v' \<and> glob (dropWhile (\<lambda>x. x = CHR ''*'') p) v'))"
      unfolding glob_star_iff [of "CHR ''*'' # p"] Cons.IH ..
    also have "\<dots> \<longleftrightarrow> (\<exists>u v. t = u @ v \<and> glob (dropWhile (\<lambda>x. x = CHR ''*'') p) v)"
      by (metis append.assoc append_Nil)
    finally show ?thesis using True by simp
  qed (simp add: glob_star_iff)
qed (simp add: glob_star_iff)

lemma glob_not_empty: "glob p [] \<Longrightarrow> p \<noteq> [] \<Longrightarrow> hd p = CHR ''*''"
  by (cases p) (auto simp: glob_Cons)

lemma glob_loop_iff: "glob_loop t p \<longleftrightarrow> glob p t"
  and star_loop_iff: "p \<noteq> [] \<Longrightarrow> hd p \<noteq> CHR ''*'' \<Longrightarrow> star_loop t p \<longleftrightarrow> (\<exists>u v. t = u @ v \<and> glob p v)"
proof (induction t p and t p rule: glob_loop_star_loop.induct)
  case (1 t)
  then show ?case by (auto simp: glob_Nil)
next
  case (2 t c p)
  show ?case
  proof (cases "c = CHR ''*''")
    case True
    let ?q = "dropWhile (\<lambda>x. x = CHR ''*'') p"
    show ?thesis
    proof (cases "?q = []")
      case q: True
      have "glob (CHR ''*'' # p) (t @ [])" unfolding glob_star_dropWhile q using glob_end by blast
      with True q show ?thesis by simp
    next
      case q: False
      then have "hd ?q \<noteq> CHR ''*''" by (rule hd_dropWhile)
      with 2(1) [OF True refl] True q have "glob_loop t (c # p) \<longleftrightarrow> (\<exists>u v. t = u @ v \<and> glob ?q v)" by auto
      then show ?thesis unfolding True glob_star_dropWhile .
    qed
  next
    case False
    with 2(2,3) show ?thesis by (cases t) (auto simp: glob_Cons)
  qed
next
  case (3 p)
  then show ?case using glob_not_empty by auto
next
  case (4 c t p)
  have "(\<exists>u v. c # t = u @ v \<and> glob p v) \<longleftrightarrow> glob p (c # t) \<or> (\<exists>u v. t = u @ v \<and> glob p v)"
    by (auto simp: Cons_eq_append_conv)
  with 4 show ?case by auto
qed

section \<open>Unique ids\<close>

definition clock_ok :: "int \<Rightarrow> bool" where
  "clock_ok now \<longleftrightarrow> - (2 ^ 63) \<le> now \<and> now < 2 ^ 63"

lemma nat_str_length: "n < 10 ^ Suc k \<Longrightarrow> length (nat_str n) \<le> Suc k"
  by (rule length_nat_str)

lemma token_id_parts:
  assumes "clock_ok now" "n < 2 ^ 32"
  shows "length (int_str now) \<le> 20" and "length (nat_str n) \<le> 10"
proof -
  have "nat now < 10 ^ Suc 18" "nat (- now) < 10 ^ Suc 18" using assms(1) by (auto simp: clock_ok_def)
  then show "length (int_str now) \<le> 20"
    using nat_str_length [of "nat now" 18] nat_str_length [of "nat (- now)" 18] by (auto simp: int_str_def)
  show "length (nat_str n) \<le> 10" using nat_str_length [of n 9] assms(2) by simp
qed

lemma token_id_text:
  "clock_ok now \<Longrightarrow> n < 2 ^ 32 \<Longrightarrow> generate_token_id now n = ''tok_'' @ int_str now @ ''_'' @ nat_str n"
  using token_id_parts [of now n] by (simp add: generate_token_id_def)

lemma token_id_inj:
  assumes "clock_ok a" "clock_ok b" "m < 2 ^ 32" "n < 2 ^ 32" "generate_token_id a m = generate_token_id b n"
  shows "m = n"
proof -
  have tail: "takeWhile is_digit (rev (''tok_'' @ int_str now @ ''_'' @ nat_str k)) = rev (nat_str k)" for now k
  proof -
    have "rev (''tok_'' @ int_str now @ ''_'' @ nat_str k) = rev (nat_str k) @ CHR ''_'' # rev (''tok_'' @ int_str now)" by simp
    moreover have "\<not> is_digit CHR ''_''" by (simp add: is_digit_def cval_def)
    ultimately show ?thesis
      by (simp only:) (rule takeWhile_append_stop, auto intro: nat_str_digits)
  qed
  from assms have "''tok_'' @ int_str a @ ''_'' @ nat_str m = ''tok_'' @ int_str b @ ''_'' @ nat_str n"
    by (simp only: token_id_text)
  then have "rev (nat_str m) = rev (nat_str n)" by (metis tail)
  then show ?thesis by (simp add: nat_str_inj)
qed

lemma token_id_shape: "generate_token_id now n \<noteq> []" "length (generate_token_id now n) \<le> 63"
  by (simp_all add: generate_token_id_def)

section \<open>Links between tokens\<close>

text \<open>\<open>child_of ts c i\<close>: the token at \<open>c\<close> names the one at \<open>i\<close> as its parent.\<close>

definition child_of :: "hu_delegation_token list \<Rightarrow> nat \<Rightarrow> nat \<Rightarrow> bool" where
  "child_of ts c i \<longleftrightarrow> c < length ts \<and> i < length ts \<and> dt_parent_token_id (ts ! c) = dt_token_id (ts ! i)"

abbreviation descends :: "hu_delegation_token list \<Rightarrow> nat \<Rightarrow> nat \<Rightarrow> bool" where
  "descends ts \<equiv> (child_of ts)\<^sup>+\<^sup>+"

text \<open>
  What every registry keeps: ids are unique and not empty, and a token that has a parent comes after it, has its
  caveats first, expires with it, was issued by its target, and is revoked if the parent is.
\<close>

definition inherits :: "hu_delegation_token \<Rightarrow> hu_delegation_token \<Rightarrow> bool" where
  "inherits c p \<longleftrightarrow> take (length (dt_caveats p)) (dt_caveats c) = dt_caveats p \<and> dt_expires_at c = dt_expires_at p \<and>
     dt_issuer_agent_id c = dt_target_agent_id p \<and> (dt_revoked p \<longrightarrow> dt_revoked c)"

definition tokens_ok :: "hu_delegation_token list \<Rightarrow> bool" where
  "tokens_ok ts \<longleftrightarrow> distinct (map dt_token_id ts) \<and> [] \<notin> set (map dt_token_id ts) \<and>
     (\<forall>c < length ts. dt_parent_token_id (ts ! c) \<noteq> [] \<longrightarrow> (\<exists>i < c. child_of ts c i)) \<and>
     (\<forall>c i. child_of ts c i \<longrightarrow> inherits (ts ! c) (ts ! i))"

lemma distinct_ids: "tokens_ok ts \<Longrightarrow> i < length ts \<Longrightarrow> j < length ts \<Longrightarrow> dt_token_id (ts ! i) = dt_token_id (ts ! j) \<longleftrightarrow> i = j"
  by (auto simp: tokens_ok_def distinct_conv_nth)

lemma child_unique: "tokens_ok ts \<Longrightarrow> child_of ts c i \<Longrightarrow> child_of ts c j \<Longrightarrow> i = j"
  using distinct_ids [of ts i j] by (auto simp: child_of_def)

lemma id_nonempty: "tokens_ok ts \<Longrightarrow> i < length ts \<Longrightarrow> dt_token_id (ts ! i) \<noteq> []"
  by (force simp: tokens_ok_def in_set_conv_nth)

lemma child_parent: "tokens_ok ts \<Longrightarrow> child_of ts c i \<Longrightarrow> dt_parent_token_id (ts ! c) \<noteq> []"
  using id_nonempty by (auto simp: child_of_def)

lemma child_later: "tokens_ok ts \<Longrightarrow> child_of ts c i \<Longrightarrow> i < c"
proof -
  assume ok: "tokens_ok ts" and c: "child_of ts c i"
  from c have "c < length ts" by (simp add: child_of_def)
  with ok child_parent [OF ok c] obtain j where "j < c" "child_of ts c j" by (auto simp: tokens_ok_def)
  with child_unique [OF ok c] show "i < c" by simp
qed

lemma descends_later:
  assumes "tokens_ok ts" "descends ts c i"
  shows "i < c \<and> c < length ts"
  using assms(2)
proof (induction rule: tranclp_induct)
  case (base y)
  then show ?case using child_later [OF assms(1)] by (simp add: child_of_def)
next
  case (step y z)
  then show ?case using child_later [OF assms(1) step.hyps(2)] by simp
qed

lemma descends_step:
  assumes "tokens_ok ts" "child_of ts c i"
  shows "descends ts c x \<longleftrightarrow> x = i \<or> descends ts i x"
proof
  assume "descends ts c x"
  then obtain y where "child_of ts c y" "(child_of ts)\<^sup>*\<^sup>* y x" by (blast dest: tranclpD)
  with child_unique [OF assms] show "x = i \<or> descends ts i x" by (auto dest: rtranclpD)
next
  assume "x = i \<or> descends ts i x"
  with assms(2) show "descends ts c x" by (auto intro: tranclp_into_tranclp2)
qed

lemma find_nth: "i < length ts \<Longrightarrow> distinct (map f ts) \<Longrightarrow> List.find (\<lambda>t. f t = f (ts ! i)) ts = Some (ts ! i)"
  by (induction ts arbitrary: i) (auto simp: nth_Cons' image_iff)

lemma get_token_nth: "tokens_ok (dr_tokens reg) \<Longrightarrow> i < length (dr_tokens reg) \<Longrightarrow>
    hu_delegation_get_token reg (dt_token_id (dr_tokens reg ! i)) = Some (dr_tokens reg ! i)"
  by (simp add: hu_delegation_get_token_def tokens_ok_def find_nth)

lemma get_token_cases:
  "hu_delegation_get_token reg ident = None \<and> (\<forall>i < length (dr_tokens reg). dt_token_id (dr_tokens reg ! i) \<noteq> ident) \<or>
   (\<exists>i < length (dr_tokens reg). hu_delegation_get_token reg ident = Some (dr_tokens reg ! i) \<and> dt_token_id (dr_tokens reg ! i) = ident)"
  by (cases "hu_delegation_get_token reg ident")
     (auto simp: hu_delegation_get_token_def find_None_iff find_Some_iff in_set_conv_nth)

lemma inherits_trans: "inherits c p \<Longrightarrow> inherits p q \<Longrightarrow>
    take (length (dt_caveats q)) (dt_caveats c) = dt_caveats q \<and> dt_expires_at c = dt_expires_at q \<and> (dt_revoked q \<longrightarrow> dt_revoked c)"
  unfolding inherits_def by (metis length_take min.absorb_iff2 min.commute take_take)

lemma descends_inherits:
  assumes "tokens_ok ts" "descends ts c i"
  shows "take (length (dt_caveats (ts ! i))) (dt_caveats (ts ! c)) = dt_caveats (ts ! i) \<and>
    dt_expires_at (ts ! c) = dt_expires_at (ts ! i) \<and> (dt_revoked (ts ! i) \<longrightarrow> dt_revoked (ts ! c))"
  using assms(2)
proof (induction rule: tranclp_induct)
  case (base i)
  then show ?case using assms(1) by (auto simp: tokens_ok_def inherits_def)
next
  case (step i j)
  have ij: "inherits (ts ! i) (ts ! j)" using assms(1) step.hyps(2) by (auto simp: tokens_ok_def)
  have "take (length (dt_caveats (ts ! j))) (dt_caveats (ts ! c)) = dt_caveats (ts ! j)"
    using step.IH ij unfolding inherits_def by (metis length_take min.absorb_iff2 min.commute take_take)
  with step.IH ij show ?case by (auto simp: inherits_def)
qed

section \<open>Walking up\<close>

lemma is_revoked_up:
  assumes "tokens_ok (dr_tokens reg)" "i < length (dr_tokens reg)" "i < k"
  shows "is_revoked_recursive k reg (dt_parent_token_id (dr_tokens reg ! i)) =
    Ret (\<exists>j. descends (dr_tokens reg) i j \<and> dt_revoked (dr_tokens reg ! j))"
  using assms(2,3)
proof (induction k arbitrary: i)
  case (Suc k)
  let ?ts = "dr_tokens reg"
  show ?case
  proof (cases "dt_parent_token_id (?ts ! i) = []")
    case True
    then have "\<not> descends ?ts i j" for j
      using child_parent [OF assms(1)] by (auto dest: tranclpD)
    with True show ?thesis by simp
  next
    case False
    then obtain j where j: "j < i" "child_of ?ts i j" using assms(1) Suc.prems(1) by (auto simp: tokens_ok_def)
    then have "hu_delegation_get_token reg (dt_parent_token_id (?ts ! i)) = Some (?ts ! j)"
      using get_token_nth [OF assms(1), of j] by (auto simp: child_of_def)
    moreover note descends_step [OF assms(1) j(2)]
    moreover have "is_revoked_recursive k reg (dt_parent_token_id (?ts ! j)) = Ret (\<exists>x. descends ?ts j x \<and> dt_revoked (?ts ! x))"
      using j Suc.prems by (intro Suc.IH) auto
    ultimately show ?thesis using False by auto
  qed
qed simp

text \<open>In a registry that keeps its links, a token is as revoked as its chain.\<close>

lemma is_revoked_chain:
  assumes "tokens_ok (dr_tokens reg)" "i < length (dr_tokens reg)"
  shows "(if dt_revoked (dr_tokens reg ! i) then Ret True
     else is_revoked_recursive (registry_fuel reg) reg (dt_parent_token_id (dr_tokens reg ! i))) = Ret (dt_revoked (dr_tokens reg ! i))"
  using is_revoked_up [OF assms, of "registry_fuel reg"] assms(2) descends_inherits [OF assms(1), of i]
  by (auto simp: registry_fuel_def)

lemma caveats_loop_cases: "caveats_loop ok i cs = Ret () \<and> (\<forall>n < length cs. ok (cs ! n) (i + n)) \<or>
    caveats_loop ok i cs = Err HU_ERR_PERMISSION_DENIED \<and> (\<exists>n < length cs. \<not> ok (cs ! n) (i + n))"
proof (induction cs arbitrary: i)
  case (Cons c cs)
  show ?case
  proof (cases "ok c i")
    case True
    have "(\<forall>n < length (c # cs). ok ((c # cs) ! n) (i + n)) \<longleftrightarrow> (\<forall>n < length cs. ok (cs ! n) (Suc i + n))"
      using True by (auto simp: nth_Cons' less_Suc_eq_0_disj)
    with True Cons [of "Suc i"] show ?thesis by auto
  qed auto
qed simp

text \<open>What verifying means for the token at \<open>i\<close>.\<close>

definition authorises ::
    "(nat \<Rightarrow> int) \<Rightarrow> hu_delegation_token \<Rightarrow> string \<Rightarrow> string \<Rightarrow> string option \<Rightarrow> fpval \<Rightarrow> bool" where
  "authorises clock tok agent_id tool_name resource cost_usd \<longleftrightarrow>
     dt_target_agent_id tok = agent_id \<and> \<not> dt_revoked tok \<and> (dt_expires_at tok > 0 \<longrightarrow> clock 0 \<le> dt_expires_at tok) \<and>
     (\<forall>n < length (dt_caveats tok). caveat_allows tok tool_name resource cost_usd (clock (1 + n)) (dt_caveats tok ! n))"

lemma verify_cases:
  assumes "tokens_ok (dr_tokens reg)"
  shows "hu_delegation_verify clock reg ident agent_id tool_name resource cost_usd =
    (if \<exists>i < length (dr_tokens reg). dt_token_id (dr_tokens reg ! i) = ident \<and>
          authorises clock (dr_tokens reg ! i) agent_id tool_name resource cost_usd then Ret ()
     else if \<exists>i < length (dr_tokens reg). dt_token_id (dr_tokens reg ! i) = ident then Err HU_ERR_PERMISSION_DENIED
     else Err HU_ERR_NOT_FOUND)"
proof (cases "\<exists>i < length (dr_tokens reg). dt_token_id (dr_tokens reg ! i) = ident")
  case False
  then show ?thesis using get_token_cases [of reg ident] by (auto simp: hu_delegation_verify_def)
next
  case True
  then obtain i where i: "i < length (dr_tokens reg)" "dt_token_id (dr_tokens reg ! i) = ident" by blast
  let ?tok = "dr_tokens reg ! i"
  have get: "hu_delegation_get_token reg ident = Some ?tok" using get_token_nth [OF assms i(1)] i(2) by simp
  have only: "(\<exists>j < length (dr_tokens reg). dt_token_id (dr_tokens reg ! j) = ident \<and> Q (dr_tokens reg ! j)) \<longleftrightarrow> Q ?tok" for Q
    using i distinct_ids [OF assms _ i(1)] by auto
  note cv = caveats_loop_cases [of "\<lambda>c i. caveat_allows ?tok tool_name resource cost_usd (clock i) c" 1 "dt_caveats ?tok"]
  show ?thesis
    unfolding only [of "\<lambda>t. authorises clock t agent_id tool_name resource cost_usd"] hu_delegation_verify_def get option.case
      is_revoked_chain [OF assms i(1)] obind.simps
    using cv True by (auto simp: authorises_def)
qed

section \<open>Revoking a subtree\<close>

text \<open>The tokens with those at the positions \<open>P\<close> revoked.\<close>

definition mark :: "(nat \<Rightarrow> bool) \<Rightarrow> hu_delegation_token list \<Rightarrow> hu_delegation_token list" where
  "mark P ts = map (\<lambda>i. if P i then (ts ! i)\<lparr>dt_revoked := True\<rparr> else ts ! i) [0..<length ts]"

lemma length_mark [simp]: "length (mark P ts) = length ts"
  by (simp add: mark_def)

lemma nth_mark: "i < length ts \<Longrightarrow> mark P ts ! i = (if P i then (ts ! i)\<lparr>dt_revoked := True\<rparr> else ts ! i)"
  by (simp add: mark_def)

lemma mark_fields [simp]:
  "i < length ts \<Longrightarrow> dt_token_id (mark P ts ! i) = dt_token_id (ts ! i)"
  "i < length ts \<Longrightarrow> dt_parent_token_id (mark P ts ! i) = dt_parent_token_id (ts ! i)"
  "i < length ts \<Longrightarrow> dt_caveats (mark P ts ! i) = dt_caveats (ts ! i)"
  "i < length ts \<Longrightarrow> dt_expires_at (mark P ts ! i) = dt_expires_at (ts ! i)"
  "i < length ts \<Longrightarrow> dt_target_agent_id (mark P ts ! i) = dt_target_agent_id (ts ! i)"
  "i < length ts \<Longrightarrow> dt_issuer_agent_id (mark P ts ! i) = dt_issuer_agent_id (ts ! i)"
  "i < length ts \<Longrightarrow> dt_revoked (mark P ts ! i) \<longleftrightarrow> P i \<or> dt_revoked (ts ! i)"
  by (auto simp: nth_mark)

lemma child_of_mark [simp]: "child_of (mark P ts) = child_of ts"
  by (auto simp: child_of_def fun_eq_iff)

lemma mark_mark: "mark P (mark Q ts) = mark (\<lambda>i. P i \<or> Q i) ts"
  by (auto intro!: nth_equalityI simp: nth_mark)

lemma mark_one: "i < length ts \<Longrightarrow> ts[i := (ts ! i)\<lparr>dt_revoked := True\<rparr>] = mark (\<lambda>x. x = i) ts"
  by (auto intro!: nth_equalityI simp: nth_mark nth_list_update)

lemma mark_none: "mark (\<lambda>x. False) ts = ts"
  by (auto intro!: nth_equalityI simp: nth_mark)

lemma mark_cong: "(\<And>i. i < length ts \<Longrightarrow> P i \<longleftrightarrow> Q i) \<Longrightarrow> mark P ts = mark Q ts"
  by (auto intro!: nth_equalityI simp: nth_mark)

lemma revoke_loop_marks:
  assumes "\<And>c P. c \<in> set cs \<Longrightarrow> dt_parent_token_id (ts ! c) = pid \<Longrightarrow>
      rec (dt_token_id (ts ! c)) (mark P ts) = Ret (mark (\<lambda>x. descends ts x c) (mark P ts))"
    and "set cs \<subseteq> {..<length ts}"
  shows "revoke_loop rec pid cs (mark P ts) =
    Ret (mark (\<lambda>x. P x \<or> (\<exists>c \<in> set cs. dt_parent_token_id (ts ! c) = pid \<and> (x = c \<or> descends ts x c))) ts)"
  using assms
proof (induction cs arbitrary: P)
  case (Cons c cs)
  have c: "c < length ts" using Cons.prems(2) by simp
  show ?case
  proof (cases "dt_parent_token_id (ts ! c) = pid")
    case True
    let ?Q = "\<lambda>x. descends ts x c \<or> x = c \<or> P x"
    have "rec (dt_token_id (ts ! c)) (mark (\<lambda>x. x = c \<or> P x) ts) = Ret (mark ?Q ts)"
      using Cons.prems(1) [of c "\<lambda>x. x = c \<or> P x"] True by (simp add: mark_mark)
    moreover have "(mark P ts)[c := (mark P ts ! c)\<lparr>dt_revoked := True\<rparr>] = mark (\<lambda>x. x = c \<or> P x) ts"
      using mark_one [of c "mark P ts"] c by (simp add: mark_mark)
    ultimately have "revoke_loop rec pid (c # cs) (mark P ts) = revoke_loop rec pid cs (mark ?Q ts)"
      using True c by simp
    also have "\<dots> = Ret (mark (\<lambda>x. ?Q x \<or> (\<exists>c \<in> set cs. dt_parent_token_id (ts ! c) = pid \<and> (x = c \<or> descends ts x c))) ts)"
      using Cons.prems by (intro Cons.IH) auto
    also have "mark (\<lambda>x. ?Q x \<or> (\<exists>c \<in> set cs. dt_parent_token_id (ts ! c) = pid \<and> (x = c \<or> descends ts x c))) ts =
        mark (\<lambda>x. P x \<or> (\<exists>c \<in> set (c # cs). dt_parent_token_id (ts ! c) = pid \<and> (x = c \<or> descends ts x c))) ts"
      using True by (intro mark_cong) auto
    finally show ?thesis .
  next
    case False
    with Cons c show ?thesis by simp
  qed
qed simp

lemma descends_last: "descends ts x i \<longleftrightarrow> (\<exists>c. child_of ts c i \<and> (x = c \<or> descends ts x c))"
proof
  assume "descends ts x i"
  then show "\<exists>c. child_of ts c i \<and> (x = c \<or> descends ts x c)" by (cases rule: tranclp.cases) auto
next
  assume "\<exists>c. child_of ts c i \<and> (x = c \<or> descends ts x c)"
  then show "descends ts x i" by (auto intro: tranclp.trancl_into_trancl)
qed

lemma revoke_children_marks:
  assumes "tokens_ok ts" "i < length ts" "length ts - i \<le> k"
  shows "revoke_children_recursive k (dt_token_id (ts ! i)) (mark P ts) =
    Ret (mark (\<lambda>x. descends ts x i) (mark P ts))"
  using assms(2,3)
proof (induction k arbitrary: i P)
  case (Suc k)
  let ?pid = "dt_token_id (ts ! i)"
  have "revoke_loop (\<lambda>pid ts. revoke_children_recursive k pid ts) ?pid [0..<length ts] (mark P ts) =
      Ret (mark (\<lambda>x. P x \<or> (\<exists>c \<in> set [0..<length ts]. dt_parent_token_id (ts ! c) = ?pid \<and> (x = c \<or> descends ts x c))) ts)"
  proof (rule revoke_loop_marks)
    fix c Q assume "c \<in> set [0..<length ts]" "dt_parent_token_id (ts ! c) = ?pid"
    with Suc.prems(1) have c: "child_of ts c i" by (simp add: child_of_def)
    from child_later [OF assms(1) c] Suc.prems c show "revoke_children_recursive k (dt_token_id (ts ! c)) (mark Q ts) =
        Ret (mark (\<lambda>x. descends ts x c) (mark Q ts))"
      by (intro Suc.IH) (auto simp: child_of_def)
  qed auto
  moreover have "mark (\<lambda>x. P x \<or> (\<exists>c \<in> set [0..<length ts]. dt_parent_token_id (ts ! c) = ?pid \<and> (x = c \<or> descends ts x c))) ts =
      mark (\<lambda>x. descends ts x i) (mark P ts)"
    unfolding mark_mark using Suc.prems(1) by (intro mark_cong) (auto simp: descends_last [of ts _ i] child_of_def)
  ultimately show ?case by simp
qed simp

lemma find_token_Some: "find_token ident k ts = Some j \<Longrightarrow> k \<le> j \<and> j - k < length ts \<and> dt_token_id (ts ! (j - k)) = ident"
proof (induction ts arbitrary: k)
  case (Cons t ts)
  show ?case
  proof (cases "dt_token_id t = ident")
    case False
    with Cons.prems have "find_token ident (Suc k) ts = Some j" by simp
    from Cons.IH [OF this] obtain d where "j = Suc k + d" "d < length ts" "dt_token_id (ts ! d) = ident"
      by (auto simp: le_iff_add)
    then show ?thesis by simp
  qed (use Cons.prems in simp)
qed simp

lemma find_token_None: "find_token ident k ts = None \<longleftrightarrow> (\<forall>t \<in> set ts. dt_token_id t \<noteq> ident)"
  by (induction ts arbitrary: k) auto

lemma revoke_cases:
  assumes "tokens_ok (dr_tokens reg)"
  shows "(\<forall>t \<in> set (dr_tokens reg). dt_token_id t \<noteq> ident) \<and> hu_delegation_revoke reg ident = Err HU_ERR_NOT_FOUND \<or>
    (\<exists>i < length (dr_tokens reg). dt_token_id (dr_tokens reg ! i) = ident \<and>
       hu_delegation_revoke reg ident = Ret (reg\<lparr>dr_tokens := mark (\<lambda>x. x = i \<or> descends (dr_tokens reg) x i) (dr_tokens reg)\<rparr>))"
proof (cases "find_token ident 0 (dr_tokens reg)")
  case None
  then have "hu_delegation_revoke reg ident = Err HU_ERR_NOT_FOUND" by (simp add: hu_delegation_revoke_def)
  with None show ?thesis by (simp add: find_token_None)
next
  case (Some i)
  let ?ts = "dr_tokens reg"
  from find_token_Some [OF Some] have i: "i < length ?ts" "dt_token_id (?ts ! i) = ident" by auto
  have "revoke_children_recursive (registry_fuel reg) ident (?ts[i := (?ts ! i)\<lparr>dt_revoked := True\<rparr>]) =
      Ret (mark (\<lambda>x. descends ?ts x i) (mark (\<lambda>x. x = i) ?ts))"
    using revoke_children_marks [OF assms i(1), of "registry_fuel reg" "\<lambda>x. x = i"] i(2) mark_one [OF i(1)]
    by (simp add: registry_fuel_def)
  moreover have "mark (\<lambda>x. descends ?ts x i) (mark (\<lambda>x. x = i) ?ts) = mark (\<lambda>x. x = i \<or> descends ?ts x i) ?ts"
    unfolding mark_mark by (intro mark_cong) auto
  ultimately show ?thesis using Some i by (auto simp: hu_delegation_revoke_def)
qed

section \<open>Reachable registries\<close>

text \<open>The states a registry can get to; lifetimes are of 32 bits and clocks of 64.\<close>

inductive registry_reachable :: "hu_delegation_registry \<Rightarrow> bool" where
  create: "registry_reachable hu_delegation_registry_create"
| issue: "registry_reachable reg \<Longrightarrow> clock_ok now1 \<Longrightarrow> ttl < 2 ^ 32 \<Longrightarrow>
    registry_reachable (fst (hu_delegation_issue now1 now2 reg issuer target ttl caveats))"
| attenuate: "registry_reachable reg \<Longrightarrow> clock_ok now1 \<Longrightarrow>
    registry_reachable (fst (hu_delegation_attenuate now1 now2 reg parent issuer target caveats))"
| revoke: "registry_reachable reg \<Longrightarrow> hu_delegation_revoke reg ident = Ret reg' \<Longrightarrow> registry_reachable reg'"

definition registry_ok :: "hu_delegation_registry \<Rightarrow> bool" where
  "registry_ok reg \<longleftrightarrow> tokens_ok (dr_tokens reg) \<and> length (dr_tokens reg) \<le> HU_DELEGATION_MAX_TOKENS \<and>
     dr_token_counter reg = length (dr_tokens reg) \<and>
     (\<forall>t \<in> set (dr_tokens reg). length (dt_target_agent_id t) \<le> 63) \<and>
     (\<forall>i < length (dr_tokens reg). \<exists>now. clock_ok now \<and> dt_token_id (dr_tokens reg ! i) = generate_token_id now i)"

lemma child_of_append:
  "c < length ts \<Longrightarrow> child_of (ts @ [t]) c i \<longleftrightarrow> child_of ts c i \<or> (i = length ts \<and> dt_parent_token_id (ts ! c) = dt_token_id t)"
  by (auto simp: child_of_def nth_append)

lemma tokens_ok_append:
  assumes "tokens_ok ts" "dt_token_id t \<notin> set (map dt_token_id ts)" "dt_token_id t \<noteq> []"
    and "dt_parent_token_id t = [] \<or> (\<exists>i < length ts. dt_parent_token_id t = dt_token_id (ts ! i) \<and> inherits t (ts ! i))"
  shows "tokens_ok (ts @ [t])"
proof -
  have old: "dt_parent_token_id (ts ! c) \<noteq> dt_token_id t" if "c < length ts" for c
  proof
    assume eq: "dt_parent_token_id (ts ! c) = dt_token_id t"
    with assms(1,3) that obtain i where "child_of ts c i" by (auto simp: tokens_ok_def)
    with eq assms(2) show False by (force simp: child_of_def)
  qed
  have old_child: "child_of (ts @ [t]) c i \<longleftrightarrow> child_of ts c i" if "c < length ts" for c i
    using old [OF that] that by (simp add: child_of_append)
  have self: "dt_parent_token_id t \<noteq> dt_token_id t"
  proof
    assume eq: "dt_parent_token_id t = dt_token_id t"
    with assms(3,4) obtain i where "i < length ts" "dt_token_id t = dt_token_id (ts ! i)" by auto
    then have "dt_token_id t \<in> set (map dt_token_id ts)" by simp
    with assms(2) show False by simp
  qed
  have new_child: "child_of (ts @ [t]) (length ts) i \<longleftrightarrow> i < length ts \<and> dt_parent_token_id t = dt_token_id (ts ! i)" for i
    using self by (auto simp: child_of_def nth_append)
  have "\<exists>i<c. child_of (ts @ [t]) c i" if "c < length (ts @ [t])" "dt_parent_token_id ((ts @ [t]) ! c) \<noteq> []" for c
  proof (cases "c = length ts")
    case True
    with that(2) assms(4) show ?thesis by (auto simp: new_child)
  next
    case False
    with that have "c < length ts" by simp
    with that(2) assms(1) show ?thesis by (auto simp: old_child nth_append tokens_ok_def)
  qed
  moreover have "inherits ((ts @ [t]) ! c) ((ts @ [t]) ! i)" if ch: "child_of (ts @ [t]) c i" for c i
  proof (cases "c = length ts")
    case True
    with ch have i: "i < length ts" "dt_parent_token_id t = dt_token_id (ts ! i)" by (auto simp: new_child)
    with assms(4) distinct_ids [OF assms(1) i(1)] id_nonempty [OF assms(1) i(1)] have "inherits t (ts ! i)" by auto
    with True i(1) show ?thesis by (simp add: nth_append)
  next
    case False
    with ch have c: "c < length ts" by (simp add: child_of_def)
    with ch have "child_of ts c i" by (simp add: old_child)
    with c assms(1) show ?thesis by (auto simp: nth_append child_of_def tokens_ok_def)
  qed
  ultimately show ?thesis using assms(1-3) by (auto simp: tokens_ok_def)
qed

lemma tokens_ok_mark:
  assumes "tokens_ok ts" "\<And>c i. child_of ts c i \<Longrightarrow> P i \<Longrightarrow> P c"
  shows "tokens_ok (mark P ts)"
proof -
  have "map dt_token_id (mark P ts) = map dt_token_id ts" by (auto intro!: nth_equalityI)
  moreover have "inherits (mark P ts ! c) (mark P ts ! i)" if "child_of ts c i" for c i
    using that assms by (auto simp: tokens_ok_def inherits_def child_of_def)
  ultimately show ?thesis using assms(1) unfolding tokens_ok_def by simp
qed

lemma fresh_id:
  assumes "registry_ok reg" "clock_ok now" "length (dr_tokens reg) < HU_DELEGATION_MAX_TOKENS"
  shows "generate_token_id now (dr_token_counter reg) \<notin> set (map dt_token_id (dr_tokens reg))"
proof
  assume "generate_token_id now (dr_token_counter reg) \<in> set (map dt_token_id (dr_tokens reg))"
  then obtain i where i: "i < length (dr_tokens reg)" "generate_token_id now (length (dr_tokens reg)) = dt_token_id (dr_tokens reg ! i)"
    using assms(1) by (auto simp: in_set_conv_nth registry_ok_def)
  with assms(1) obtain now' where "clock_ok now'" "dt_token_id (dr_tokens reg ! i) = generate_token_id now' i"
    by (auto simp: registry_ok_def)
  with i token_id_inj [OF assms(2) this(1), of "length (dr_tokens reg)" i] assms(3) show False
    by (simp add: HU_DELEGATION_MAX_TOKENS_def)
qed

lemma registry_ok_append:
  assumes "registry_ok reg" "clock_ok now" "length (dr_tokens reg) < HU_DELEGATION_MAX_TOKENS"
    and "dt_token_id t = generate_token_id now (dr_token_counter reg)" "length (dt_target_agent_id t) \<le> 63"
    and "dt_parent_token_id t = [] \<or>
      (\<exists>i < length (dr_tokens reg). dt_parent_token_id t = dt_token_id (dr_tokens reg ! i) \<and> inherits t (dr_tokens reg ! i))"
  shows "registry_ok \<lparr>dr_tokens = dr_tokens reg @ [t], dr_token_counter = (dr_token_counter reg + 1) mod 2 ^ 32\<rparr>"
proof -
  have "tokens_ok (dr_tokens reg @ [t])"
    using assms fresh_id [OF assms(1-3)] by (intro tokens_ok_append) (auto simp: registry_ok_def token_id_shape)
  with assms show ?thesis
    by (auto simp: registry_ok_def nth_append less_Suc_eq HU_DELEGATION_MAX_TOKENS_def)
qed

lemma reachable_ok: "registry_reachable reg \<Longrightarrow> registry_ok reg"
proof (induction rule: registry_reachable.induct)
  case create
  then show ?case by (simp add: registry_ok_def hu_delegation_registry_create_def tokens_ok_def child_of_def)
next
  case (issue reg now1 ttl now2 issuer target caveats)
  then show ?case
    using registry_ok_append [OF issue.IH issue.hyps(2)]
    by (auto simp: hu_delegation_issue_def Let_def)
next
  case (attenuate reg now1 now2 parent issuer target caveats)
  show ?case
  proof (cases "List.find (\<lambda>t. dt_token_id t = parent) (dr_tokens reg)")
    case None
    then show ?thesis using attenuate.IH by (simp add: hu_delegation_attenuate_def)
  next
    case (Some p)
    then obtain i where i: "i < length (dr_tokens reg)" "p = dr_tokens reg ! i" by (auto simp: find_Some_iff)
    obtain now where "dt_token_id p = generate_token_id now i" using attenuate.IH i by (auto simp: registry_ok_def)
    then have "str63 (dt_token_id p) = dt_token_id p" by (simp add: str63_def token_id_shape)
    moreover have "str63 (dt_target_agent_id p) = dt_target_agent_id p"
      using attenuate.IH i by (simp add: str63_def registry_ok_def)
    moreover have "registry_ok \<lparr>dr_tokens = dr_tokens reg @ [t], dr_token_counter = (dr_token_counter reg + 1) mod 2 ^ 32\<rparr>"
      if "length (dr_tokens reg) < HU_DELEGATION_MAX_TOKENS" "dt_token_id t = generate_token_id now1 (dr_token_counter reg)"
        "length (dt_target_agent_id t) \<le> 63" "dt_parent_token_id t = dt_token_id p" "inherits t p" for t
      using that i by (intro registry_ok_append [OF attenuate.IH attenuate.hyps(2)]) auto
    ultimately show ?thesis
      using attenuate.IH Some by (simp add: hu_delegation_attenuate_def Let_def inherits_def) (auto simp: inherits_def)
  qed
next
  case (revoke reg ident reg')
  then have ok: "tokens_ok (dr_tokens reg)" by (simp add: registry_ok_def)
  from revoke_cases [OF ok, of ident] revoke.hyps(2) obtain i where
    r: "reg' = reg\<lparr>dr_tokens := mark (\<lambda>x. x = i \<or> descends (dr_tokens reg) x i) (dr_tokens reg)\<rparr>" by auto
  have "tokens_ok (dr_tokens reg')"
    unfolding r using ok by (simp, intro tokens_ok_mark) (auto intro: tranclp_into_tranclp2)
  moreover have "\<forall>t \<in> set (dr_tokens reg'). length (dt_target_agent_id t) \<le> 63"
    using revoke.IH unfolding r by (force simp: registry_ok_def in_set_conv_nth)
  ultimately show ?case using revoke.IH unfolding r by (simp add: registry_ok_def)
qed

lemma chain_loop_path:
  assumes "tokens_ok (dr_tokens reg)" "i < length (dr_tokens reg)"
  shows "\<exists>js. chain_loop k reg (Some (dr_tokens reg ! i)) = map (\<lambda>j. dt_token_id (dr_tokens reg ! j)) js \<and>
    (0 < k \<longrightarrow> js \<noteq> [] \<and> hd js = i) \<and> successively (child_of (dr_tokens reg)) js \<and> length js \<le> k \<and>
    (0 < length js \<and> length js < k \<longrightarrow> dt_parent_token_id (dr_tokens reg ! last js) = [])"
  using assms(2)
proof (induction k arbitrary: i)
  case (Suc k)
  let ?ts = "dr_tokens reg"
  show ?case
  proof (cases "dt_parent_token_id (?ts ! i) = []")
    case True
    then show ?thesis by (intro exI [of _ "[i]"]) simp
  next
    case False
    then obtain j where j: "child_of ?ts i j" using assms(1) Suc.prems by (auto simp: tokens_ok_def)
    then have get: "hu_delegation_get_token reg (dt_parent_token_id (?ts ! i)) = Some (?ts ! j)"
      using get_token_nth [OF assms(1), of j] by (auto simp: child_of_def)
    obtain js where js: "chain_loop k reg (Some (?ts ! j)) = map (\<lambda>j. dt_token_id (?ts ! j)) js"
      "0 < k \<longrightarrow> js \<noteq> [] \<and> hd js = j" "successively (child_of ?ts) js" "length js \<le> k"
      "0 < length js \<and> length js < k \<longrightarrow> dt_parent_token_id (?ts ! last js) = []"
      using Suc.IH [of j] j by (auto simp: child_of_def)
    have "successively (child_of ?ts) (i # js)" using js(2-4) j by (cases js) (auto simp: successively_Cons)
    with js False get show ?thesis by (intro exI [of _ "i # js"]) (cases js; auto)
  qed
qed simp

lemma reachable_tokens_ok: "registry_reachable reg \<Longrightarrow> tokens_ok (dr_tokens reg)"
  using reachable_ok by (simp add: registry_ok_def)

section \<open>A sample registry\<close>

text \<open>
  At time 0 agent \<open>a\<close> gives \<open>b\<close> a token for the tools that start with \<open>file\<close>, with the caveat of a lifetime of
  ten seconds; at time 100 \<open>b\<close> derives a token for \<open>c\<close> from it.
\<close>

definition sample_caveats :: "hu_delegation_caveat list" where
  "sample_caveats = [\<lparr>cv_key = ''tool'', cv_value = ''file*''\<rparr>, \<lparr>cv_key = ''ttl'', cv_value = ''10''\<rparr>]"

definition sample_parent :: hu_delegation_registry where
  "sample_parent = fst (hu_delegation_issue 0 0 hu_delegation_registry_create ''a'' ''b'' 0 sample_caveats)"

definition sample_registry :: hu_delegation_registry where
  "sample_registry = fst (hu_delegation_attenuate 100 100 sample_parent ''tok_0_0'' ''b'' ''c'' [])"

lemma sample_nat_str: "nat_str 0 = ''0''" "nat_str (Suc 0) = ''1''" "nat_str 100 = ''100''"
  by code_simp+

lemma sample_ids: "generate_token_id 0 0 = ''tok_0_0''" "generate_token_id 100 1 = ''tok_100_1''"
  by (simp_all add: generate_token_id_def int_str_def sample_nat_str)

lemma sample_parent_eq: "sample_parent = \<lparr>dr_tokens =
    [\<lparr>dt_token_id = ''tok_0_0'', dt_issuer_agent_id = ''a'', dt_target_agent_id = ''b'', dt_caveats = sample_caveats,
      dt_issued_at = 0, dt_expires_at = 0, dt_revoked = False, dt_parent_token_id = []\<rparr>], dr_token_counter = 1\<rparr>"
  by (simp add: sample_parent_def hu_delegation_issue_def hu_delegation_registry_create_def HU_DELEGATION_MAX_TOKENS_def
      HU_DELEGATION_MAX_CAVEATS_def sample_caveats_def sample_ids str63_def)

lemma sample_registry_eq: "sample_registry = \<lparr>dr_tokens =
    [\<lparr>dt_token_id = ''tok_0_0'', dt_issuer_agent_id = ''a'', dt_target_agent_id = ''b'', dt_caveats = sample_caveats,
      dt_issued_at = 0, dt_expires_at = 0, dt_revoked = False, dt_parent_token_id = []\<rparr>,
     \<lparr>dt_token_id = ''tok_100_1'', dt_issuer_agent_id = ''b'', dt_target_agent_id = ''c'', dt_caveats = sample_caveats,
      dt_issued_at = 100, dt_expires_at = 0, dt_revoked = False, dt_parent_token_id = ''tok_0_0''\<rparr>], dr_token_counter = 2\<rparr>"
  using sample_ids(2)
  by (simp add: sample_registry_def sample_parent_eq hu_delegation_attenuate_def HU_DELEGATION_MAX_TOKENS_def
      HU_DELEGATION_MAX_CAVEATS_def sample_caveats_def str63_def)

lemma sample_reachable: "registry_reachable sample_registry"
  unfolding sample_registry_def sample_parent_def
  by (intro registry_reachable.intros) (simp_all add: clock_ok_def)

lemma sample_strtoul: "strtoul_value ''10'' = 10"
  by (simp add: strtoul_value_def scan_sign_def is_space_def is_digit_def cval_def digits_val_def)

lemma sample_file: "glob_loop ''file_read'' ''file*''"
  by simp

lemma sample_child_verify:
  "hu_delegation_verify (\<lambda>_. 105) sample_registry ''tok_100_1'' ''c'' ''file_read'' None (Fin dzero) = Ret ()"
  by (simp add: hu_delegation_verify_def hu_delegation_get_token_def sample_registry_eq registry_fuel_def sample_caveats_def
      caveat_allows_def cstr_def path_matches_glob_def sample_file sample_strtoul del: glob_loop.simps)

lemma sample_parent_verify:
  "hu_delegation_verify (\<lambda>_. 105) sample_registry ''tok_0_0'' ''b'' ''file_read'' None (Fin dzero) = Err HU_ERR_PERMISSION_DENIED"
  by (simp add: hu_delegation_verify_def hu_delegation_get_token_def sample_registry_eq registry_fuel_def sample_caveats_def
      caveat_allows_def cstr_def path_matches_glob_def sample_file sample_strtoul del: glob_loop.simps)

lemma sample_descends: "descends (dr_tokens sample_registry) 1 0"
  by (rule tranclp.r_into_trancl) (simp add: child_of_def sample_registry_eq)

section \<open>Properties\<close>

text \<open>
  C12: attenuation only narrows: when a token lets an action through, each token it descends from is neither
  revoked nor expired, and each of its caveats lets the action through too - but for lifetimes given as
  \<^verbatim>\<open>ttl\<close> caveats, which count from the issue of the derived token.
\<close>

theorem delegation_attenuates:
  assumes "registry_reachable reg" and "i < length (dr_tokens reg)" and "descends (dr_tokens reg) i j"
    and "hu_delegation_verify clock reg (dt_token_id (dr_tokens reg ! i)) agent tool_name resource cost_usd = Ret ()"
  shows "\<not> dt_revoked (dr_tokens reg ! j) \<and>
    (dt_expires_at (dr_tokens reg ! j) > 0 \<longrightarrow> clock 0 \<le> dt_expires_at (dr_tokens reg ! j)) \<and>
    (\<forall>n < length (dt_caveats (dr_tokens reg ! j)). cstr (cv_key (dt_caveats (dr_tokens reg ! j) ! n)) \<noteq> ''ttl'' \<longrightarrow>
       caveat_allows (dr_tokens reg ! j) tool_name resource cost_usd (clock (1 + n)) (dt_caveats (dr_tokens reg ! j) ! n))"
proof -
  let ?ts = "dr_tokens reg"
  note ok = reachable_tokens_ok [OF assms(1)]
  have auth: "authorises clock (?ts ! i) agent tool_name resource cost_usd"
    using assms(2,4) distinct_ids [OF ok _ assms(2)] by (auto simp: verify_cases [OF ok] split: if_splits)
  note inh = descends_inherits [OF ok assms(3)]
  have "caveat_allows (?ts ! j) tool_name resource cost_usd (clock (1 + n)) (dt_caveats (?ts ! j) ! n)"
    if n: "n < length (dt_caveats (?ts ! j))" and key: "cstr (cv_key (dt_caveats (?ts ! j) ! n)) \<noteq> ''ttl''" for n
  proof -
    from inh have "length (dt_caveats (?ts ! j)) \<le> length (dt_caveats (?ts ! i))" by (metis length_take min.absorb_iff2 min.commute)
    with n have "n < length (dt_caveats (?ts ! i))" by simp
    with auth have "caveat_allows (?ts ! i) tool_name resource cost_usd (clock (1 + n)) (dt_caveats (?ts ! i) ! n)"
      by (simp add: authorises_def)
    also from inh n have "dt_caveats (?ts ! i) ! n = dt_caveats (?ts ! j) ! n" by (metis nth_take)
    finally have "caveat_allows (?ts ! i) tool_name resource cost_usd (clock (1 + n)) (dt_caveats (?ts ! j) ! n)" .
    with key show ?thesis by (simp add: caveat_allows_def split: if_splits)
  qed
  with inh auth show ?thesis by (auto simp: authorises_def)
qed

lemma delegation_attenuates_witness:
  "caveat_allows (dr_tokens sample_registry ! 0) ''file_read'' None (Fin dzero) 105 (dt_caveats (dr_tokens sample_registry ! 0) ! 0)"
proof -
  have "hu_delegation_verify (\<lambda>_. 105) sample_registry (dt_token_id (dr_tokens sample_registry ! 1)) ''c'' ''file_read'' None (Fin dzero) = Ret ()"
    using sample_child_verify by (simp add: sample_registry_eq)
  from delegation_attenuates [OF sample_reachable _ sample_descends this] show ?thesis
    by (auto simp: sample_registry_eq sample_caveats_def cstr_def)
qed

text \<open>
  C13: revoking a token ends it and everything derived from it, and nothing else: verifying one of these tokens
  is refused from then on, and every other token is as it was.
\<close>

theorem delegation_revocation:
  assumes "registry_reachable reg" and "hu_delegation_revoke reg ident = Ret reg'"
  shows "\<exists>i < length (dr_tokens reg). dt_token_id (dr_tokens reg ! i) = ident \<and> length (dr_tokens reg') = length (dr_tokens reg) \<and>
    (\<forall>c < length (dr_tokens reg).
       if c = i \<or> descends (dr_tokens reg) c i
       then \<forall>clock agent tool_name resource cost_usd.
         hu_delegation_verify clock reg' (dt_token_id (dr_tokens reg ! c)) agent tool_name resource cost_usd = Err HU_ERR_PERMISSION_DENIED
       else dr_tokens reg' ! c = dr_tokens reg ! c)"
proof -
  note ok = reachable_tokens_ok [OF assms(1)] and ok' = reachable_tokens_ok [OF registry_reachable.revoke [OF assms]]
  obtain i where i: "i < length (dr_tokens reg)" "dt_token_id (dr_tokens reg ! i) = ident"
    and r: "reg' = reg\<lparr>dr_tokens := mark (\<lambda>x. x = i \<or> descends (dr_tokens reg) x i) (dr_tokens reg)\<rparr>"
    using revoke_cases [OF ok, of ident] assms(2) by auto
  have "hu_delegation_verify clock reg' (dt_token_id (dr_tokens reg ! c)) agent tool_name resource cost_usd = Err HU_ERR_PERMISSION_DENIED"
    if c: "c < length (dr_tokens reg)" "c = i \<or> descends (dr_tokens reg) c i" for c clock agent tool_name resource cost_usd
  proof -
    have c': "c < length (dr_tokens reg')" "dt_token_id (dr_tokens reg' ! c) = dt_token_id (dr_tokens reg ! c)" "dt_revoked (dr_tokens reg' ! c)"
      using c by (simp_all add: r)
    then have "\<not> authorises clock (dr_tokens reg' ! j) agent tool_name resource cost_usd"
      if "j < length (dr_tokens reg')" "dt_token_id (dr_tokens reg' ! j) = dt_token_id (dr_tokens reg ! c)" for j
      using that distinct_ids [OF ok' that(1) c'(1)] by (auto simp: authorises_def)
    with c' show ?thesis unfolding verify_cases [OF ok'] by auto
  qed
  with i show ?thesis by (intro exI [of _ i]) (auto simp: r nth_mark)
qed

lemma delegation_revocation_witness:
  "\<exists>reg'. hu_delegation_revoke sample_registry ''tok_0_0'' = Ret reg' \<and>
     hu_delegation_verify (\<lambda>_. 105) reg' ''tok_100_1'' ''c'' ''file_read'' None (Fin dzero) = Err HU_ERR_PERMISSION_DENIED"
proof -
  obtain reg' where r: "hu_delegation_revoke sample_registry ''tok_0_0'' = Ret reg'"
    using revoke_cases [OF reachable_tokens_ok [OF sample_reachable], of "''tok_0_0''"] by (auto simp: sample_registry_eq)
  from delegation_revocation [OF sample_reachable r] obtain i where
    "i < length (dr_tokens sample_registry)" "dt_token_id (dr_tokens sample_registry ! i) = ''tok_0_0''"
    and all: "\<forall>c < length (dr_tokens sample_registry).
       if c = i \<or> descends (dr_tokens sample_registry) c i
       then \<forall>clock agent tool_name resource cost_usd.
         hu_delegation_verify clock reg' (dt_token_id (dr_tokens sample_registry ! c)) agent tool_name resource cost_usd = Err HU_ERR_PERMISSION_DENIED
       else dr_tokens reg' ! c = dr_tokens sample_registry ! c" by blast
  then have "i = 0" by (auto simp: sample_registry_eq less_Suc_eq)
  with all [rule_format, of 1] sample_descends r show ?thesis by (auto simp: sample_registry_eq)
qed

text \<open>
  C14: in every registry that can arise verifying ends, and lets an action through exactly if the id is that of a
  token of the agent that is not revoked, has not expired, and whose caveats all let the action through; otherwise
  the error says whether the token is unknown.
\<close>

theorem delegation_verify_exact:
  assumes "registry_reachable reg"
  shows "hu_delegation_verify clock reg ident agent_id tool_name resource cost_usd =
    (if \<exists>i < length (dr_tokens reg). dt_token_id (dr_tokens reg ! i) = ident \<and>
          authorises clock (dr_tokens reg ! i) agent_id tool_name resource cost_usd then Ret ()
     else if \<exists>i < length (dr_tokens reg). dt_token_id (dr_tokens reg ! i) = ident then Err HU_ERR_PERMISSION_DENIED
     else Err HU_ERR_NOT_FOUND)"
  using reachable_tokens_ok [OF assms] by (rule verify_cases)

lemma delegation_verify_exact_witness:
  "hu_delegation_verify (\<lambda>_. 105) sample_registry ''none'' ''c'' ''file_read'' None (Fin dzero) = Err HU_ERR_NOT_FOUND"
  using delegation_verify_exact [OF sample_reachable, of "\<lambda>_. 105" "''none''"] by (auto simp: sample_registry_eq less_Suc_eq)

text \<open>
  The matcher of path and tool caveats decides the usual meaning of a glob, and ends on every input; an empty
  pattern lets everything through.
\<close>

theorem path_matches_glob_exact:
  "path_matches_glob path pattern \<longleftrightarrow> pattern = [] \<or> (\<exists>t. path = Some t \<and> glob pattern t)"
  by (auto simp: path_matches_glob_def glob_loop_iff split: option.splits)

text \<open>
  The chain of a token is the list of ids from an ancestor down to the token, each the parent of the next; it
  starts at the root, unless it has the 64 entries that fit.
\<close>

theorem delegation_chain_exact:
  assumes "registry_reachable reg" and "i < length (dr_tokens reg)"
  shows "\<exists>js. hu_delegation_chain reg (dt_token_id (dr_tokens reg ! i)) = Ret (map (\<lambda>j. dt_token_id (dr_tokens reg ! j)) js) \<and>
    js \<noteq> [] \<and> last js = i \<and> successively (\<lambda>p c. child_of (dr_tokens reg) c p) js \<and> length js \<le> 64 \<and>
    (length js < 64 \<longrightarrow> dt_parent_token_id (dr_tokens reg ! hd js) = [])"
proof -
  note ok = reachable_tokens_ok [OF assms(1)]
  obtain js where js: "chain_loop 64 reg (Some (dr_tokens reg ! i)) = map (\<lambda>j. dt_token_id (dr_tokens reg ! j)) js"
    "js \<noteq> []" "hd js = i" "successively (child_of (dr_tokens reg)) js" "length js \<le> 64"
    "length js < 64 \<longrightarrow> dt_parent_token_id (dr_tokens reg ! last js) = []"
    using chain_loop_path [OF ok assms(2), of 64] by auto
  then show ?thesis
    using get_token_nth [OF ok assms(2)]
    by (intro exI [of _ "rev js"]) (simp add: hu_delegation_chain_def rev_map successively_rev last_rev hd_rev del: chain_loop.simps)
qed

lemma delegation_chain_exact_witness:
  "\<exists>js. hu_delegation_chain sample_registry ''tok_100_1'' = Ret (map (\<lambda>j. dt_token_id (dr_tokens sample_registry ! j)) js) \<and> last js = 1"
  using delegation_chain_exact [OF sample_reachable, of 1] by (auto simp: sample_registry_eq)

text \<open>
  A lifetime given as a \<^verbatim>\<open>ttl\<close> caveat starts anew with every derived token: at time 105 the token of ten seconds
  issued at time 0 is refused, and the token derived from it at time 100, long after that lifetime, is not.
\<close>

theorem delegation_ttl_restarts:
  "\<exists>reg i j. registry_reachable reg \<and> i < length (dr_tokens reg) \<and> descends (dr_tokens reg) i j \<and>
     hu_delegation_verify (\<lambda>_. 105) reg (dt_token_id (dr_tokens reg ! j)) (dt_target_agent_id (dr_tokens reg ! j)) ''file_read'' None (Fin dzero)
       = Err HU_ERR_PERMISSION_DENIED \<and>
     hu_delegation_verify (\<lambda>_. 105) reg (dt_token_id (dr_tokens reg ! i)) (dt_target_agent_id (dr_tokens reg ! i)) ''file_read'' None (Fin dzero)
       = Ret ()"
  using sample_reachable sample_descends sample_child_verify sample_parent_verify
  by (intro exI [of _ sample_registry] exI [of _ "1::nat"] exI [of _ "0::nat"]) (simp add: sample_registry_eq)

end
