(* ===== verification/HuMemLru.thy ===== *)
theory HuMemLru
  imports HuPrelude
begin

text \<open>
  \<^verbatim>\<open>src/memory/engines/memory_lru.c\<close>: the in-memory store with eviction of the least recently used entry.

  Every entry hangs in two pointer structures: the singly linked chain of its hash bucket and the doubly linked
  list of all entries in the order of their last use.  The code moves entries between them by pointer updates, so
  the model keeps the heap: \<open>lm_heap\<close> maps the addresses of live entries to them, an access to another address is
  undefined behaviour, and \<open>lm_fresh\<close> is the next address the allocator gives out (addresses are not reused).

  Keys and texts are owned by their entry and are its values here.  A custom category has a name or NULL;
  \<open>le_stale_name\<close> records that the name pointer was freed and not replaced.  Allocation succeeds, and
  every call of \<^verbatim>\<open>time\<close> is an argument.  The results of queries leave out the fields that are the same in all of
  them (the score, the trust tier and the provenance).
\<close>

section \<open>The state\<close>

datatype mem_category =
    HU_MEMORY_CATEGORY_CORE | HU_MEMORY_CATEGORY_DAILY | HU_MEMORY_CATEGORY_CONVERSATION | HU_MEMORY_CATEGORY_INSIGHT
  | HU_MEMORY_CATEGORY_CUSTOM "string option"

record lru_entry =
  le_key :: string
  le_content :: string
  le_category :: mem_category
  le_stale_name :: bool
  le_session_id :: "string option"
  le_created_at :: string
  le_updated_at :: string
  le_last_access :: nat
  le_hash_next :: "nat option"
  le_lru_prev :: "nat option"
  le_lru_next :: "nat option"

record lru_memory =
  lm_heap :: "nat \<Rightarrow> lru_entry option"
  lm_fresh :: nat
  lm_buckets :: "nat option list"
  lm_lru_head :: "nat option"
  lm_lru_tail :: "nat option"
  lm_count :: nat
  lm_max_entries :: nat
  lm_access_counter :: nat

record memory_entry =
  me_id :: string
  me_key :: string
  me_content :: string
  me_category :: mem_category
  me_timestamp :: string
  me_session_id :: "string option"

definition HU_LRU_BUCKETS :: nat where "HU_LRU_BUCKETS = 64"
definition HU_LRU_HASH_MULT :: nat where "HU_LRU_HASH_MULT = 31"

definition hu_memory_lru_create :: "nat \<Rightarrow> lru_memory" where
  "hu_memory_lru_create max_entries =
     \<lparr>lm_heap = (\<lambda>_. None), lm_fresh = 0, lm_buckets = replicate HU_LRU_BUCKETS None, lm_lru_head = None,
      lm_lru_tail = None, lm_count = 0, lm_max_entries = max_entries, lm_access_counter = 0\<rparr>"

section \<open>Pointers\<close>

definition entry_at :: "lru_memory \<Rightarrow> nat \<Rightarrow> lru_entry outcome" where
  "entry_at m a = (case lm_heap m a of None \<Rightarrow> Undef UseAfterFree | Some e \<Rightarrow> Ret e)"

definition modify_at :: "lru_memory \<Rightarrow> nat \<Rightarrow> (lru_entry \<Rightarrow> lru_entry) \<Rightarrow> lru_memory outcome" where
  "modify_at m a f = obind (entry_at m a) (\<lambda>e. Ret (m\<lparr>lm_heap := (lm_heap m)(a := Some (f e))\<rparr>))"

definition free_at :: "lru_memory \<Rightarrow> nat \<Rightarrow> lru_memory outcome" where
  "free_at m a = obind (entry_at m a) (\<lambda>_. Ret (m\<lparr>lm_heap := (lm_heap m)(a := None)\<rparr>))"

definition hash_key :: "string \<Rightarrow> nat" where
  "hash_key key = foldl (\<lambda>h c. (h * HU_LRU_HASH_MULT + cval c) mod 2 ^ 32) 5381 (cstr key) mod HU_LRU_BUCKETS"

text \<open>Walks along a chain end: the budget is one more than the number of addresses ever given out.\<close>

definition chain_fuel :: "lru_memory \<Rightarrow> nat" where
  "chain_fuel m = lm_fresh m + 1"

fun find_in_chain :: "nat \<Rightarrow> lru_memory \<Rightarrow> string \<Rightarrow> nat option \<Rightarrow> nat option outcome" where
  "find_in_chain 0 m key p = NoFuel"
| "find_in_chain (Suc k) m key p =
     (case p of
        None \<Rightarrow> Ret None
      | Some a \<Rightarrow> obind (entry_at m a) (\<lambda>e.
          if le_key e = key then Ret (Some a) else find_in_chain k m key (le_hash_next e)))"

definition find_entry :: "lru_memory \<Rightarrow> string \<Rightarrow> nat option outcome" where
  "find_entry m key = find_in_chain (chain_fuel m) m key (lm_buckets m ! hash_key key)"

definition unlink_lru :: "lru_memory \<Rightarrow> nat \<Rightarrow> lru_memory outcome" where
  "unlink_lru m a =
     obind (entry_at m a) (\<lambda>e.
     obind (case le_lru_prev e of
              Some p \<Rightarrow> modify_at m p (\<lambda>x. x\<lparr>le_lru_next := le_lru_next e\<rparr>)
            | None \<Rightarrow> Ret (m\<lparr>lm_lru_head := le_lru_next e\<rparr>)) (\<lambda>m.
     obind (entry_at m a) (\<lambda>e.
     obind (case le_lru_next e of
              Some n \<Rightarrow> modify_at m n (\<lambda>x. x\<lparr>le_lru_prev := le_lru_prev e\<rparr>)
            | None \<Rightarrow> Ret (m\<lparr>lm_lru_tail := le_lru_prev e\<rparr>)) (\<lambda>m.
     modify_at m a (\<lambda>x. x\<lparr>le_lru_prev := None, le_lru_next := None\<rparr>)))))"

definition link_mru :: "lru_memory \<Rightarrow> nat \<Rightarrow> lru_memory outcome" where
  "link_mru m a =
     obind (modify_at m a (\<lambda>x. x\<lparr>le_lru_next := lm_lru_head m, le_lru_prev := None\<rparr>)) (\<lambda>m.
     obind (case lm_lru_head m of
              Some h \<Rightarrow> modify_at m h (\<lambda>x. x\<lparr>le_lru_prev := Some a\<rparr>)
            | None \<Rightarrow> Ret (m\<lparr>lm_lru_tail := Some a\<rparr>)) (\<lambda>m.
     Ret (m\<lparr>lm_lru_head := Some a\<rparr>)))"

text \<open>
  The pointer to a pointer that walks along a chain: it is the head of a bucket or the \<^verbatim>\<open>hash_next\<close> field of an
  entry.
\<close>

datatype chain_place = InBucket nat | InNext nat

definition read_place :: "lru_memory \<Rightarrow> chain_place \<Rightarrow> nat option outcome" where
  "read_place m pp =
     (case pp of InBucket b \<Rightarrow> Ret (lm_buckets m ! b) | InNext a \<Rightarrow> obind (entry_at m a) (\<lambda>e. Ret (le_hash_next e)))"

definition write_place :: "lru_memory \<Rightarrow> chain_place \<Rightarrow> nat option \<Rightarrow> lru_memory outcome" where
  "write_place m pp p =
     (case pp of
        InBucket b \<Rightarrow> Ret (m\<lparr>lm_buckets := (lm_buckets m)[b := p]\<rparr>)
      | InNext a \<Rightarrow> modify_at m a (\<lambda>x. x\<lparr>le_hash_next := p\<rparr>))"

fun unlink_chain :: "nat \<Rightarrow> lru_memory \<Rightarrow> chain_place \<Rightarrow> nat \<Rightarrow> lru_memory outcome" where
  "unlink_chain 0 m pp victim = NoFuel"
| "unlink_chain (Suc k) m pp victim =
     obind (read_place m pp) (\<lambda>p.
     case p of
       None \<Rightarrow> Ret m
     | Some a \<Rightarrow>
         if a = victim then obind (entry_at m victim) (\<lambda>e. write_place m pp (le_hash_next e))
         else unlink_chain k m (InNext a) victim)"

definition evict_lru :: "lru_memory \<Rightarrow> lru_memory outcome" where
  "evict_lru m =
     (case lm_lru_tail m of
        None \<Rightarrow> Ret m
      | Some victim \<Rightarrow>
          obind (entry_at m victim) (\<lambda>e.
          obind (unlink_chain (chain_fuel m) m (InBucket (hash_key (le_key e))) victim) (\<lambda>m.
          obind (unlink_lru m victim) (\<lambda>m.
          obind (free_at m victim) (\<lambda>m.
          Ret (m\<lparr>lm_count := lm_count m - 1\<rparr>))))))"

text \<open>\<^verbatim>\<open>while (self->count >= self->max_entries)\<close>, which ends because every round takes an entry away.\<close>

fun evict_loop :: "nat \<Rightarrow> lru_memory \<Rightarrow> lru_memory outcome" where
  "evict_loop 0 m = NoFuel"
| "evict_loop (Suc k) m =
     (if lm_count m \<ge> lm_max_entries m then obind (evict_lru m) (\<lambda>m. evict_loop k m) else Ret m)"

section \<open>Storing\<close>

definition next_access :: "lru_memory \<Rightarrow> nat" where
  "next_access m = (lm_access_counter m + 1) mod 2 ^ 64"

text \<open>
  The category of an entry is overwritten, after the name of the old one was freed.  A custom category without a
  name leaves the old name pointer where it is; if that was freed, the entry now refers to freed memory, which
  the next operation on the entry reads or frees again: the model says so at once.
\<close>

definition name_freed :: "lru_entry \<Rightarrow> bool" where
  "name_freed e \<longleftrightarrow> le_stale_name e \<or> (case le_category e of HU_MEMORY_CATEGORY_CUSTOM (Some n) \<Rightarrow> True | _ \<Rightarrow> False)"

definition set_category :: "bool \<Rightarrow> mem_category option \<Rightarrow> lru_entry \<Rightarrow> lru_entry outcome" where
  "set_category stale category e =
     (case category of
        None \<Rightarrow> Ret (e\<lparr>le_category := HU_MEMORY_CATEGORY_CORE, le_stale_name := stale\<rparr>)
      | Some (HU_MEMORY_CATEGORY_CUSTOM None) \<Rightarrow>
          if stale then Undef UseAfterFree
          else Ret (e\<lparr>le_category := HU_MEMORY_CATEGORY_CUSTOM None, le_stale_name := False\<rparr>)
      | Some (HU_MEMORY_CATEGORY_CUSTOM (Some n)) \<Rightarrow>
          Ret (e\<lparr>le_category := HU_MEMORY_CATEGORY_CUSTOM (Some n), le_stale_name := False\<rparr>)
      | Some c \<Rightarrow> Ret (e\<lparr>le_category := c, le_stale_name := stale\<rparr>))"

text \<open>\<open>session_id && session_id_len > 0 ? hu_strndup (...) : NULL\<close>; \<open>None\<close> is the NULL pointer.\<close>

definition dup_session :: "string option \<Rightarrow> string option" where
  "dup_session session_id =
     (case session_id of None \<Rightarrow> None | Some s \<Rightarrow> if s \<noteq> [] then Some (hu_strndup s (length s)) else None)"

definition now_timestamp :: "int \<Rightarrow> string" where
  "now_timestamp now = int_str now"

definition update_existing ::
    "int \<Rightarrow> lru_memory \<Rightarrow> nat \<Rightarrow> string \<Rightarrow> mem_category option \<Rightarrow> string option \<Rightarrow> lru_memory outcome" where
  "update_existing now m a content category session_id =
     obind (entry_at m a) (\<lambda>e.
     obind (set_category (name_freed e) category
              (e\<lparr>le_content := hu_strndup content (length content), le_updated_at := now_timestamp now\<rparr>)) (\<lambda>e'.
     obind (modify_at m a (\<lambda>_. e'\<lparr>le_session_id := dup_session session_id, le_last_access := next_access m\<rparr>)) (\<lambda>m.
     obind (unlink_lru (m\<lparr>lm_access_counter := next_access m\<rparr>) a) (\<lambda>m.
     link_mru m a))))"

definition insert_new ::
    "int \<Rightarrow> lru_memory \<Rightarrow> string \<Rightarrow> string \<Rightarrow> mem_category option \<Rightarrow> string option \<Rightarrow> lru_memory outcome" where
  "insert_new now m key content category session_id =
     (let ts = now_timestamp now; a = lm_fresh m; b = hash_key key in
      obind (set_category False category
        \<lparr>le_key = hu_strndup key (length key), le_content = hu_strndup content (length content),
         le_category = HU_MEMORY_CATEGORY_CORE, le_stale_name = False, le_session_id = dup_session session_id,
         le_created_at = ts, le_updated_at = ts, le_last_access = next_access m,
         le_hash_next = lm_buckets m ! b, le_lru_prev = None, le_lru_next = None\<rparr>) (\<lambda>e.
      obind (link_mru (m\<lparr>lm_heap := (lm_heap m)(a := Some e), lm_fresh := a + 1, lm_buckets := (lm_buckets m)[b := Some a],
                         lm_access_counter := next_access m\<rparr>) a) (\<lambda>m.
      Ret (m\<lparr>lm_count := lm_count m + 1\<rparr>))))"

definition impl_store ::
    "int \<Rightarrow> lru_memory \<Rightarrow> string \<Rightarrow> string \<Rightarrow> mem_category option \<Rightarrow> string option \<Rightarrow> lru_memory outcome" where
  "impl_store now m key content category session_id =
     obind (find_entry m key) (\<lambda>existing.
     case existing of
       Some a \<Rightarrow> update_existing now m a content category session_id
     | None \<Rightarrow>
         if lm_max_entries m = 0 then Ret m
         else obind (evict_loop (lm_count m + 1) m) (\<lambda>m. insert_new now m key content category session_id))"

section \<open>Reading and forgetting\<close>

definition entry_out :: "lru_entry \<Rightarrow> memory_entry" where
  "entry_out e =
     \<lparr>me_id = le_key e, me_key = le_key e, me_content = le_content e, me_category = le_category e,
      me_timestamp = le_updated_at e, me_session_id = le_session_id e\<rparr>"

definition impl_get :: "lru_memory \<Rightarrow> string \<Rightarrow> (lru_memory \<times> memory_entry option) outcome" where
  "impl_get m key =
     obind (find_entry m key) (\<lambda>found.
     case found of
       None \<Rightarrow> Ret (m, None)
     | Some a \<Rightarrow>
         obind (modify_at m a (\<lambda>e. e\<lparr>le_last_access := next_access m\<rparr>)) (\<lambda>m.
         obind (unlink_lru (m\<lparr>lm_access_counter := next_access m\<rparr>) a) (\<lambda>m.
         obind (link_mru m a) (\<lambda>m.
         obind (entry_at m a) (\<lambda>e. Ret (m, Some (entry_out e)))))))"

definition impl_forget :: "lru_memory \<Rightarrow> string \<Rightarrow> (lru_memory \<times> bool) outcome" where
  "impl_forget m key =
     obind (find_entry m key) (\<lambda>found.
     case found of
       None \<Rightarrow> Ret (m, False)
     | Some a \<Rightarrow>
         obind (unlink_chain (chain_fuel m) m (InBucket (hash_key key)) a) (\<lambda>m.
         obind (unlink_lru m a) (\<lambda>m.
         obind (free_at m a) (\<lambda>m.
         Ret (m\<lparr>lm_count := lm_count m - 1\<rparr>, True)))))"

definition impl_count :: "lru_memory \<Rightarrow> nat" where
  "impl_count m = lm_count m"

text \<open>The session filter of \<^verbatim>\<open>recall\<close> and \<^verbatim>\<open>list\<close>.\<close>

definition session_matches :: "string option \<Rightarrow> lru_entry \<Rightarrow> bool" where
  "session_matches session_id e =
     (case session_id of None \<Rightarrow> True | Some s \<Rightarrow> if s = [] then True else le_session_id e = Some s)"

definition contains_substring :: "string \<Rightarrow> string \<Rightarrow> bool" where
  "contains_substring haystack needle =
     (if needle = [] then True
      else if length haystack < length needle then False
      else list_ex (\<lambda>i. take (length needle) (drop i haystack) = needle) [0..<length haystack - length needle + 1])"

definition entry_matches :: "string \<Rightarrow> string option \<Rightarrow> lru_entry \<Rightarrow> bool" where
  "entry_matches query session_id e \<longleftrightarrow>
     session_matches session_id e \<and> (contains_substring (le_key e) query \<or> contains_substring (le_content e) query)"

text \<open>The entries of a chain that match, and of all buckets in their order.\<close>

fun chain_matches :: "nat \<Rightarrow> lru_memory \<Rightarrow> (lru_entry \<Rightarrow> bool) \<Rightarrow> nat option \<Rightarrow> lru_entry list outcome" where
  "chain_matches 0 m sel p = NoFuel"
| "chain_matches (Suc k) m sel p =
     (case p of
        None \<Rightarrow> Ret []
      | Some a \<Rightarrow> obind (entry_at m a) (\<lambda>e.
          obind (chain_matches k m sel (le_hash_next e)) (\<lambda>es. Ret (if sel e then e # es else es))))"

fun bucket_matches :: "lru_memory \<Rightarrow> (lru_entry \<Rightarrow> bool) \<Rightarrow> nat option list \<Rightarrow> lru_entry list outcome" where
  "bucket_matches m sel [] = Ret []"
| "bucket_matches m sel (p # ps) =
     obind (chain_matches (chain_fuel m) m sel p) (\<lambda>es.
     obind (bucket_matches m sel ps) (\<lambda>fs. Ret (es @ fs)))"

text \<open>
  The sort: \<open>swap_pass x ys\<close> is the inner loop for the array element \<open>x\<close>, with the elements behind it; an element
  used later than the one in front trades places with it.
\<close>

fun swap_pass :: "lru_entry \<Rightarrow> lru_entry list \<Rightarrow> lru_entry \<times> lru_entry list" where
  "swap_pass x [] = (x, [])"
| "swap_pass x (y # ys) =
     (if le_last_access y > le_last_access x
      then let (z, zs) = swap_pass y ys in (z, x # zs)
      else let (z, zs) = swap_pass x ys in (z, y # zs))"

lemma length_swap_pass: "length (snd (swap_pass x ys)) = length ys"
  by (induction x ys rule: swap_pass.induct) (auto split: prod.split)

function sort_recent :: "lru_entry list \<Rightarrow> lru_entry list" where
  "sort_recent [] = []"
| "sort_recent (x # xs) = (let (z, zs) = swap_pass x xs in z # sort_recent zs)"
  by pat_completeness auto
termination
proof (relation "measure length")
  fix x :: lru_entry and xs pr z zs
  assume "pr = swap_pass x xs" "(z, zs) = pr"
  with length_swap_pass [of x xs] show "(zs, x # xs) \<in> measure length" by (metis in_measure length_Cons lessI snd_conv)
qed simp

definition impl_recall :: "lru_memory \<Rightarrow> string \<Rightarrow> nat \<Rightarrow> string option \<Rightarrow> memory_entry list outcome" where
  "impl_recall m query limit session_id =
     obind (bucket_matches m (entry_matches query session_id) (lm_buckets m)) (\<lambda>matches.
     Ret (map entry_out (take limit (sort_recent matches))))"

text \<open>\<open>None\<close> is no filter; a custom category without a name matches nothing.\<close>

definition category_matches :: "mem_category option \<Rightarrow> mem_category \<Rightarrow> bool" where
  "category_matches flt c =
     (case flt of
        None \<Rightarrow> True
      | Some (HU_MEMORY_CATEGORY_CUSTOM (Some n)) \<Rightarrow> c = HU_MEMORY_CATEGORY_CUSTOM (Some n)
      | Some (HU_MEMORY_CATEGORY_CUSTOM None) \<Rightarrow> False
      | Some t \<Rightarrow> c = t)"

fun list_loop :: "nat \<Rightarrow> lru_memory \<Rightarrow> (lru_entry \<Rightarrow> bool) \<Rightarrow> nat option \<Rightarrow> lru_entry list outcome" where
  "list_loop 0 m sel p = NoFuel"
| "list_loop (Suc k) m sel p =
     (case p of
        None \<Rightarrow> Ret []
      | Some a \<Rightarrow> obind (entry_at m a) (\<lambda>e.
          obind (list_loop k m sel (le_lru_next e)) (\<lambda>es. Ret (if sel e then e # es else es))))"

definition impl_list :: "lru_memory \<Rightarrow> mem_category option \<Rightarrow> string option \<Rightarrow> memory_entry list outcome" where
  "impl_list m category session_id =
     obind (list_loop (chain_fuel m) m (\<lambda>e. category_matches category (le_category e) \<and> session_matches session_id e)
              (lm_lru_head m)) (\<lambda>es.
     Ret (map entry_out es))"

section \<open>Closing the store\<close>

fun deinit_bucket :: "nat \<Rightarrow> lru_memory \<Rightarrow> nat \<Rightarrow> lru_memory outcome" where
  "deinit_bucket 0 m b = NoFuel"
| "deinit_bucket (Suc k) m b =
     (case lm_buckets m ! b of
        None \<Rightarrow> Ret m
      | Some a \<Rightarrow>
          obind (entry_at m a) (\<lambda>e.
          obind (free_at (m\<lparr>lm_buckets := (lm_buckets m)[b := le_hash_next e]\<rparr>) a) (\<lambda>m.
          deinit_bucket k m b)))"

fun deinit_loop :: "nat \<Rightarrow> lru_memory \<Rightarrow> nat list \<Rightarrow> lru_memory outcome" where
  "deinit_loop k m [] = Ret m"
| "deinit_loop k m (b # bs) = obind (deinit_bucket k m b) (\<lambda>m. deinit_loop k m bs)"

text \<open>The heap that is left when the structure of the store itself is released too.\<close>

definition impl_deinit :: "lru_memory \<Rightarrow> (nat \<Rightarrow> lru_entry option) outcome" where
  "impl_deinit m = obind (deinit_loop (chain_fuel m) m [0..<HU_LRU_BUCKETS]) (\<lambda>m. Ret (lm_heap m))"

end
