(* ===== verification/HuMemLruHeap.thy ===== *)
theory HuMemLruHeap
  imports HuMemLru
begin

text \<open>
  The pointer structures of the LRU store.  \<open>dseg h p xs q\<close>: the entries at the addresses \<open>xs\<close> are a segment
  of the doubly linked list between \<open>p\<close> before and \<open>q\<close> behind; \<open>hchain h p xs\<close>: the hash chain from \<open>p\<close> on runs
  through \<open>xs\<close>.  The lemmas say what each pointer operation does to the lists, and what it leaves alone.
\<close>

section \<open>Doubly linked segments\<close>

definition first_of :: "nat list \<Rightarrow> nat option \<Rightarrow> nat option" where
  "first_of xs q = (case xs of [] \<Rightarrow> q | x # _ \<Rightarrow> Some x)"

definition last_of :: "nat option \<Rightarrow> nat list \<Rightarrow> nat option" where
  "last_of p xs = (if xs = [] then p else Some (last xs))"

lemma first_of_simps [simp]: "first_of [] q = q" "first_of (x # xs) q = Some x"
  by (simp_all add: first_of_def)

lemma first_of_append [simp]: "first_of (xs @ ys) q = first_of xs (first_of ys q)"
  by (cases xs) simp_all

lemma last_of_simps [simp]: "last_of p [] = p" "last_of p (x # xs) = last_of (Some x) xs"
  by (simp_all add: last_of_def)

lemma last_of_append [simp]: "last_of p (xs @ ys) = last_of (last_of p xs) ys"
  by (induction xs arbitrary: p) simp_all

type_synonym lru_heap = "nat \<Rightarrow> lru_entry option"

primrec dseg :: "lru_heap \<Rightarrow> nat option \<Rightarrow> nat list \<Rightarrow> nat option \<Rightarrow> bool" where
  "dseg h p [] q \<longleftrightarrow> True"
| "dseg h p (a # as) q \<longleftrightarrow>
     (\<exists>e. h a = Some e \<and> le_lru_prev e = p \<and> le_lru_next e = first_of as q) \<and> dseg h (Some a) as q"

lemma dseg_append: "dseg h p (xs @ ys) q \<longleftrightarrow> dseg h p xs (first_of ys q) \<and> dseg h (last_of p xs) ys q"
  by (induction xs arbitrary: p) auto

lemma dseg_dom: "dseg h p xs q \<Longrightarrow> a \<in> set xs \<Longrightarrow> h a \<noteq> None"
  by (induction xs arbitrary: p) auto

lemma dseg_frame [simp]: "a \<notin> set xs \<Longrightarrow> dseg (h(a := v)) p xs q = dseg h p xs q"
  by (induction xs arbitrary: p) auto

text \<open>The link out of a segment is in its last entry, the link back in its first.\<close>

lemma dseg_set_next:
  "dseg h p (xs @ [b]) q \<Longrightarrow> b \<notin> set xs \<Longrightarrow> h b = Some e \<Longrightarrow>
   dseg (h(b := Some (e\<lparr>le_lru_next := q'\<rparr>))) p (xs @ [b]) q'"
  by (auto simp: dseg_append)

lemma dseg_set_prev:
  "dseg h p (b # xs) q \<Longrightarrow> b \<notin> set xs \<Longrightarrow> h b = Some e \<Longrightarrow>
   dseg (h(b := Some (e\<lparr>le_lru_prev := p'\<rparr>))) p' (b # xs) q"
  by auto

lemma dseg_cong:
  "(\<And>a. a \<in> set xs \<Longrightarrow> map_option (\<lambda>e. (le_lru_prev e, le_lru_next e)) (h a) = map_option (\<lambda>e. (le_lru_prev e, le_lru_next e)) (h' a)) \<Longrightarrow>
   dseg h p xs q = dseg h' p xs q"
proof (induction xs arbitrary: p)
  case (Cons a xs)
  have "map_option (\<lambda>e. (le_lru_prev e, le_lru_next e)) (h a) = map_option (\<lambda>e. (le_lru_prev e, le_lru_next e)) (h' a)"
    using Cons.prems by simp
  then have "(\<exists>e. h a = Some e \<and> le_lru_prev e = p \<and> le_lru_next e = n) \<longleftrightarrow> (\<exists>e. h' a = Some e \<and> le_lru_prev e = p \<and> le_lru_next e = n)" for n
    by (cases "h a"; cases "h' a") auto
  with Cons show ?case by simp
qed simp

section \<open>Hash chains\<close>

primrec hchain :: "lru_heap \<Rightarrow> nat option \<Rightarrow> nat list \<Rightarrow> bool" where
  "hchain h p [] \<longleftrightarrow> p = None"
| "hchain h p (a # as) \<longleftrightarrow> p = Some a \<and> (\<exists>e. h a = Some e \<and> hchain h (le_hash_next e) as)"

lemma hchain_dom: "hchain h p xs \<Longrightarrow> a \<in> set xs \<Longrightarrow> h a \<noteq> None"
  by (induction xs arbitrary: p) auto

lemma hchain_frame [simp]: "a \<notin> set xs \<Longrightarrow> hchain (h(a := v)) p xs = hchain h p xs"
  by (induction xs arbitrary: p) auto

lemma hchain_None [simp]: "hchain h None xs \<longleftrightarrow> xs = []"
  by (cases xs) auto

lemma hchain_Some: "hchain h (Some a) xs \<longleftrightarrow> (\<exists>e as. xs = a # as \<and> h a = Some e \<and> hchain h (le_hash_next e) as)"
  by (cases xs) auto

lemma hchain_cong:
  "(\<And>a. a \<in> set xs \<Longrightarrow> map_option le_hash_next (h a) = map_option le_hash_next (h' a)) \<Longrightarrow> hchain h p xs = hchain h' p xs"
proof (induction xs arbitrary: p)
  case (Cons a xs)
  have "map_option le_hash_next (h a) = map_option le_hash_next (h' a)" using Cons.prems by simp
  with Cons show ?case by (cases "h a"; cases "h' a") auto
qed simp

lemma hchain_unique: "hchain h p xs \<Longrightarrow> hchain h p ys \<Longrightarrow> xs = ys"
proof (induction xs arbitrary: p ys)
  case (Cons a xs)
  then show ?case by (cases ys) auto
qed auto

lemma hchain_split: "hchain h p (xs @ ys) \<Longrightarrow> \<exists>q. hchain h q ys"
  by (induction xs arbitrary: p) auto

lemma hchain_distinct: "hchain h p xs \<Longrightarrow> distinct xs"
proof (induction xs arbitrary: p)
  case (Cons a xs)
  then obtain e where e: "h a = Some e" "hchain h (le_hash_next e) xs" by auto
  have "a \<notin> set xs"
  proof
    assume "a \<in> set xs"
    then obtain us vs where xs: "xs = us @ a # vs" by (auto simp: in_set_conv_decomp)
    with e(2) obtain q where "hchain h q (a # vs)" using hchain_split by blast
    then have "hchain h (le_hash_next e) vs" using e(1) by auto
    with e(2) xs have "xs = vs" using hchain_unique by blast
    moreover have "length xs = length us + Suc (length vs)" using xs by simp
    ultimately show False by simp
  qed
  with Cons e show ?case by auto
qed simp

section \<open>What an entry holds besides its links\<close>

definition plain :: "lru_entry \<Rightarrow> lru_entry" where
  "plain e = e\<lparr>le_hash_next := None, le_lru_prev := None, le_lru_next := None\<rparr>"

text \<open>Two heaps hold the same entries, in the same hash chains.\<close>

definition same_but_lru :: "lru_heap \<Rightarrow> lru_heap \<Rightarrow> bool" where
  "same_but_lru h h' \<longleftrightarrow> (\<forall>a. map_option (\<lambda>e. (plain e, le_hash_next e)) (h a) = map_option (\<lambda>e. (plain e, le_hash_next e)) (h' a))"

lemma same_but_lru_refl [simp]: "same_but_lru h h"
  by (simp add: same_but_lru_def)

lemma same_but_lru_trans: "same_but_lru h h' \<Longrightarrow> same_but_lru h' h'' \<Longrightarrow> same_but_lru h h''"
  by (simp add: same_but_lru_def)

lemma same_but_lru_upd:
  "h a = Some e \<Longrightarrow> plain e' = plain e \<Longrightarrow> le_hash_next e' = le_hash_next e \<Longrightarrow> same_but_lru h (h(a := Some e'))"
  by (simp add: same_but_lru_def)

lemma same_but_lru_at:
  "same_but_lru h h' \<Longrightarrow> map_option (\<lambda>e. (plain e, le_hash_next e)) (h a) = map_option (\<lambda>e. (plain e, le_hash_next e)) (h' a)"
  unfolding same_but_lru_def by blast

lemma same_but_lru_Some:
  "same_but_lru h h' \<Longrightarrow> h a = Some e \<Longrightarrow> \<exists>e'. h' a = Some e' \<and> plain e' = plain e \<and> le_hash_next e' = le_hash_next e"
  using same_but_lru_at [of h h' a] by (cases "h' a") auto

lemma same_but_lru_sym: "same_but_lru h h' \<Longrightarrow> same_but_lru h' h"
  unfolding same_but_lru_def by simp

lemma same_but_lru_dom: "same_but_lru h h' \<Longrightarrow> h' a = None \<longleftrightarrow> h a = None"
  using same_but_lru_at [of h h' a] by (cases "h a"; cases "h' a") auto

lemma same_but_lru_hash: "same_but_lru h h' \<Longrightarrow> map_option le_hash_next (h a) = map_option le_hash_next (h' a)"
  using same_but_lru_at [of h h' a] by (cases "h a"; cases "h' a") auto

lemma same_but_lru_hchain: "same_but_lru h h' \<Longrightarrow> hchain h' p xs = hchain h p xs"
  by (rule hchain_cong) (rule same_but_lru_hash, rule same_but_lru_sym)

lemma plain_links [simp]:
  "plain (e\<lparr>le_lru_next := x\<rparr>) = plain e" "plain (e\<lparr>le_lru_prev := x\<rparr>) = plain e" "plain (e\<lparr>le_hash_next := x\<rparr>) = plain e"
  by (simp_all add: plain_def)

lemma modify_at_Some: "lm_heap m a = Some e \<Longrightarrow> modify_at m a f = Ret (m\<lparr>lm_heap := (lm_heap m)(a := Some (f e))\<rparr>)"
  by (simp add: modify_at_def entry_at_def)

section \<open>The operations on the list\<close>

text \<open>The list of all entries in a memory.\<close>

definition lru_list :: "lru_memory \<Rightarrow> nat list \<Rightarrow> bool" where
  "lru_list m xs \<longleftrightarrow> distinct xs \<and> dseg (lm_heap m) None xs None \<and> lm_lru_head m = first_of xs None \<and>
     lm_lru_tail m = last_of None xs"

text \<open>The two memories agree on all but the links of the list.\<close>

definition only_lru :: "lru_memory \<Rightarrow> lru_memory \<Rightarrow> bool" where
  "only_lru m m' \<longleftrightarrow> same_but_lru (lm_heap m) (lm_heap m') \<and> lm_fresh m' = lm_fresh m \<and> lm_buckets m' = lm_buckets m \<and>
     lm_count m' = lm_count m \<and> lm_max_entries m' = lm_max_entries m \<and> lm_access_counter m' = lm_access_counter m"

lemma only_lru_trans: "only_lru m m' \<Longrightarrow> only_lru m' m'' \<Longrightarrow> only_lru m m''"
  by (auto simp: only_lru_def intro: same_but_lru_trans)

lemma unlink_lru_list:
  assumes "lru_list m (us @ a # vs)"
  shows "\<exists>m'. unlink_lru m a = Ret m' \<and> lru_list m' (us @ vs) \<and> only_lru m m'"
proof -
  let ?h = "lm_heap m"
  have d: "distinct us" "distinct vs" "a \<notin> set us" "a \<notin> set vs" "set us \<inter> set vs = {}"
    using assms by (auto simp: lru_list_def)
  from assms obtain e where e: "?h a = Some e" "le_lru_prev e = last_of None us" "le_lru_next e = first_of vs None"
    and us: "dseg ?h None us (Some a)" and vs: "dseg ?h (Some a) vs None"
    and ht: "lm_lru_head m = first_of us (Some a)" "lm_lru_tail m = last_of (Some a) vs"
    by (auto simp: lru_list_def dseg_append)
  have "\<exists>m1. (case le_lru_prev e of
              Some p \<Rightarrow> modify_at m p (\<lambda>x. x\<lparr>le_lru_next := le_lru_next e\<rparr>)
            | None \<Rightarrow> Ret (m\<lparr>lm_lru_head := le_lru_next e\<rparr>)) = Ret m1 \<and> only_lru m m1 \<and> lm_heap m1 a = Some e \<and>
      dseg (lm_heap m1) None us (first_of vs None) \<and> dseg (lm_heap m1) (Some a) vs None \<and>
      lm_lru_head m1 = first_of us (first_of vs None) \<and> lm_lru_tail m1 = lm_lru_tail m"
  proof (cases us rule: rev_cases)
    case Nil
    then show ?thesis using e vs ht by (simp add: only_lru_def)
  next
    case (snoc us' b)
    then obtain f where f: "?h b = Some f" using dseg_dom [OF us, of b] by auto
    have b: "b \<notin> set us'" "b \<noteq> a" "b \<notin> set vs" using d snoc by auto
    from dseg_set_next [of ?h None us' b "Some a" f "le_lru_next e"] us f b snoc
    have "dseg (?h(b := Some (f\<lparr>le_lru_next := le_lru_next e\<rparr>))) None us (le_lru_next e)" by simp
    then show ?thesis
      using e vs ht snoc f b by (auto simp: modify_at_Some only_lru_def same_but_lru_upd)
  qed
  then obtain m1 where m1: "(case le_lru_prev e of
              Some p \<Rightarrow> modify_at m p (\<lambda>x. x\<lparr>le_lru_next := le_lru_next e\<rparr>)
            | None \<Rightarrow> Ret (m\<lparr>lm_lru_head := le_lru_next e\<rparr>)) = Ret m1" "only_lru m m1" "lm_heap m1 a = Some e"
      "dseg (lm_heap m1) None us (first_of vs None)" "dseg (lm_heap m1) (Some a) vs None"
      "lm_lru_head m1 = first_of us (first_of vs None)" "lm_lru_tail m1 = lm_lru_tail m" by blast
  have "\<exists>m2. (case le_lru_next e of
              Some n \<Rightarrow> modify_at m1 n (\<lambda>x. x\<lparr>le_lru_prev := le_lru_prev e\<rparr>)
            | None \<Rightarrow> Ret (m1\<lparr>lm_lru_tail := le_lru_prev e\<rparr>)) = Ret m2 \<and> only_lru m1 m2 \<and> lm_heap m2 a = Some e \<and>
      dseg (lm_heap m2) None us (first_of vs None) \<and> dseg (lm_heap m2) (last_of None us) vs None \<and>
      lm_lru_head m2 = lm_lru_head m1 \<and> lm_lru_tail m2 = last_of (last_of None us) vs"
  proof (cases vs)
    case Nil
    then show ?thesis using e m1 by (simp add: only_lru_def)
  next
    case (Cons b vs')
    then obtain f where f: "lm_heap m1 b = Some f" using dseg_dom [OF m1(5), of b] by auto
    have b: "b \<notin> set vs'" "b \<noteq> a" "b \<notin> set us" using d Cons by auto
    from dseg_set_prev [of "lm_heap m1" "Some a" b vs' None f "le_lru_prev e"] m1(5) f b Cons
    have "dseg ((lm_heap m1)(b := Some (f\<lparr>le_lru_prev := le_lru_prev e\<rparr>))) (le_lru_prev e) vs None" by simp
    then show ?thesis
      using e m1 ht Cons f b by (auto simp: modify_at_Some only_lru_def same_but_lru_upd)
  qed
  then obtain m2 where m2: "(case le_lru_next e of
              Some n \<Rightarrow> modify_at m1 n (\<lambda>x. x\<lparr>le_lru_prev := le_lru_prev e\<rparr>)
            | None \<Rightarrow> Ret (m1\<lparr>lm_lru_tail := le_lru_prev e\<rparr>)) = Ret m2" "only_lru m1 m2" "lm_heap m2 a = Some e"
      "dseg (lm_heap m2) None us (first_of vs None)" "dseg (lm_heap m2) (last_of None us) vs None"
      "lm_lru_head m2 = lm_lru_head m1" "lm_lru_tail m2 = last_of (last_of None us) vs" by blast
  let ?m3 = "m2\<lparr>lm_heap := (lm_heap m2)(a := Some (e\<lparr>le_lru_prev := None, le_lru_next := None\<rparr>))\<rparr>"
  have "unlink_lru m a = Ret ?m3"
    using e(1) m1(1,3) m2(1,3) by (simp add: unlink_lru_def entry_at_def modify_at_def)
  moreover have "lru_list ?m3 (us @ vs)"
    using m1(6) m2(4-7) d by (auto simp: lru_list_def dseg_append)
  moreover have "only_lru m2 ?m3" using m2(3) by (auto simp: only_lru_def same_but_lru_upd plain_def)
  with only_lru_trans [OF m1(2) m2(2)] have "only_lru m ?m3" by (rule only_lru_trans)
  ultimately show ?thesis by blast
qed

lemma link_mru_list:
  assumes "lru_list m xs" "a \<notin> set xs" "lm_heap m a = Some e"
  shows "\<exists>m'. link_mru m a = Ret m' \<and> lru_list m' (a # xs) \<and> only_lru m m'"
proof -
  let ?h = "(lm_heap m)(a := Some (e\<lparr>le_lru_next := lm_lru_head m, le_lru_prev := None\<rparr>))"
  let ?m1 = "m\<lparr>lm_heap := ?h\<rparr>"
  have one: "only_lru m ?m1" using assms(3) by (auto simp: only_lru_def same_but_lru_upd plain_def)
  show ?thesis
  proof (cases xs)
    case Nil
    then have "link_mru m a = Ret (?m1\<lparr>lm_lru_tail := Some a, lm_lru_head := Some a\<rparr>)"
      using assms by (simp add: link_mru_def modify_at_Some lru_list_def)
    moreover have "only_lru m (?m1\<lparr>lm_lru_tail := Some a, lm_lru_head := Some a\<rparr>)" using one by (simp add: only_lru_def)
    ultimately show ?thesis using Nil assms by (auto simp: lru_list_def)
  next
    case (Cons b ys)
    then obtain f where f: "lm_heap m b = Some f" "b \<noteq> a" using assms by (auto simp: lru_list_def)
    let ?m2 = "?m1\<lparr>lm_heap := ?h(b := Some (f\<lparr>le_lru_prev := Some a\<rparr>)), lm_lru_head := Some a\<rparr>"
    have "link_mru m a = Ret ?m2"
      using assms Cons f by (simp add: link_mru_def modify_at_Some lru_list_def)
    moreover have "only_lru ?m1 ?m2" using f by (auto simp: only_lru_def same_but_lru_upd)
    with one have "only_lru m ?m2" by (rule only_lru_trans)
    moreover have "lru_list ?m2 (a # xs)" using assms Cons f by (auto simp: lru_list_def)
    ultimately show ?thesis by blast
  qed
qed

text \<open>A walk along the list gives its entries.\<close>

lemma list_loop_eq:
  "dseg (lm_heap m) p xs None \<Longrightarrow> length xs < k \<Longrightarrow>
   list_loop k m sel (first_of xs None) = Ret (filter sel (map (\<lambda>a. the (lm_heap m a)) xs))"
proof (induction xs arbitrary: k p)
  case Nil
  then obtain k' where "k = Suc k'" by (cases k) auto
  then show ?case by simp
next
  case (Cons a xs)
  then obtain k' where k: "k = Suc k'" by (cases k) auto
  from Cons.prems have "list_loop k' m sel (first_of xs None) = Ret (filter sel (map (\<lambda>a. the (lm_heap m a)) xs))"
    using k by (intro Cons.IH) auto
  with Cons.prems(1) show ?case by (auto simp: k entry_at_def)
qed

section \<open>The operations on chains\<close>

lemma find_in_chain_eq:
  "hchain (lm_heap m) p xs \<Longrightarrow> length xs < k \<Longrightarrow>
   find_in_chain k m key p = Ret (List.find (\<lambda>a. le_key (the (lm_heap m a)) = key) xs)"
proof (induction xs arbitrary: k p)
  case Nil
  then obtain k' where "k = Suc k'" by (cases k) auto
  with Nil show ?case by simp
next
  case (Cons a xs)
  then obtain k' where k: "k = Suc k'" by (cases k) auto
  with Cons show ?case by (auto simp: entry_at_def)
qed

lemma chain_matches_eq:
  "hchain (lm_heap m) p xs \<Longrightarrow> length xs < k \<Longrightarrow>
   chain_matches k m sel p = Ret (filter sel (map (\<lambda>a. the (lm_heap m a)) xs))"
proof (induction xs arbitrary: k p)
  case Nil
  then obtain k' where "k = Suc k'" by (cases k) auto
  with Nil show ?case by simp
next
  case (Cons a xs)
  then obtain k' where k: "k = Suc k'" by (cases k) auto
  with Cons show ?case by (auto simp: entry_at_def)
qed

end
