(* ===== verification/HuMemLruInv.thy ===== *)
theory HuMemLruInv
  imports HuMemLruHeap
begin

text \<open>
  The LRU store as a list.  \<open>lru_inv m bs xs\<close>: the pointer structures of \<open>m\<close> are intact, the list of all entries
  runs through the addresses \<open>xs\<close>, the one used last in front, and the chains of the buckets through \<open>bs\<close>.
  The lemmas show for each operation what it does to these lists.
\<close>

section \<open>The invariant\<close>

definition key_at :: "lru_memory \<Rightarrow> nat \<Rightarrow> string" where
  "key_at m a = le_key (the (lm_heap m a))"

definition access_at :: "lru_memory \<Rightarrow> nat \<Rightarrow> nat" where
  "access_at m a = le_last_access (the (lm_heap m a))"

definition buckets_ok :: "lru_memory \<Rightarrow> nat list list \<Rightarrow> bool" where
  "buckets_ok m bs \<longleftrightarrow> length (lm_buckets m) = HU_LRU_BUCKETS \<and> length bs = HU_LRU_BUCKETS \<and>
     (\<forall>b < HU_LRU_BUCKETS. hchain (lm_heap m) (lm_buckets m ! b) (bs ! b) \<and> (\<forall>a \<in> set (bs ! b). hash_key (key_at m a) = b))"

text \<open>The part about the order of use, and the part about the heap.\<close>

definition recency_ok :: "lru_memory \<Rightarrow> nat list \<Rightarrow> bool" where
  "recency_ok m xs \<longleftrightarrow> sorted_wrt (\<lambda>a b. access_at m a > access_at m b) xs \<and> (\<forall>a \<in> set xs. access_at m a \<le> lm_access_counter m)"

definition lru_inv :: "lru_memory \<Rightarrow> nat list list \<Rightarrow> nat list \<Rightarrow> bool" where
  "lru_inv m bs xs \<longleftrightarrow> buckets_ok m bs \<and> lru_list m xs \<and> (\<forall>a \<in> set xs. a \<in> set (bs ! hash_key (key_at m a))) \<and>
     (\<forall>a. lm_heap m a \<noteq> None \<longleftrightarrow> a \<in> set xs) \<and> (\<forall>a \<in> set xs. a < lm_fresh m) \<and>
     lm_count m = length xs \<and> lm_count m \<le> lm_max_entries m \<and>
     distinct (map (key_at m) xs) \<and> (\<forall>a \<in> set xs. no_nul (key_at m a)) \<and> recency_ok m xs"

lemma hash_key_less [simp]: "hash_key key < HU_LRU_BUCKETS"
  by (simp add: hash_key_def HU_LRU_BUCKETS_def)

lemma lru_invD:
  assumes "lru_inv m bs xs"
  shows "buckets_ok m bs" "lru_list m xs" "lm_count m = length xs" "lm_count m \<le> lm_max_entries m" "distinct (map (key_at m) xs)"
    "recency_ok m xs" "\<And>a. a \<in> set xs \<Longrightarrow> a \<in> set (bs ! hash_key (key_at m a))" "\<And>a. lm_heap m a \<noteq> None \<longleftrightarrow> a \<in> set xs"
    "\<And>a. a \<in> set xs \<Longrightarrow> a < lm_fresh m" "\<And>a. a \<in> set xs \<Longrightarrow> no_nul (key_at m a)"
  using assms unfolding lru_inv_def by blast+

lemma lru_invI:
  assumes "buckets_ok m bs" "lru_list m xs" "recency_ok m xs" "distinct (map (key_at m) xs)"
    "lm_count m = length xs" "lm_count m \<le> lm_max_entries m" "\<And>a. lm_heap m a \<noteq> None \<longleftrightarrow> a \<in> set xs"
    "\<And>a. a \<in> set xs \<Longrightarrow> a \<in> set (bs ! hash_key (key_at m a)) \<and> a < lm_fresh m \<and> no_nul (key_at m a)"
  shows "lru_inv m bs xs"
  using assms unfolding lru_inv_def by blast

lemma buckets_okD:
  assumes "buckets_ok m bs" "b < HU_LRU_BUCKETS"
  shows "hchain (lm_heap m) (lm_buckets m ! b) (bs ! b)" "\<And>a. a \<in> set (bs ! b) \<Longrightarrow> hash_key (key_at m a) = b"
    "distinct (bs ! b)" "\<And>a. a \<in> set (bs ! b) \<Longrightarrow> lm_heap m a \<noteq> None"
  using assms hchain_distinct hchain_dom unfolding buckets_ok_def by blast+

lemma lru_inv_length: "lru_inv m bs xs \<Longrightarrow> length xs < chain_fuel m"
proof -
  assume inv: "lru_inv m bs xs"
  then have "set xs \<subseteq> {..<lm_fresh m}" "distinct xs" using lru_invD(9) lru_invD(2) by (auto simp: lru_list_def)
  then have "length xs \<le> lm_fresh m" using card_mono [of "{..<lm_fresh m}" "set xs"] by (simp add: distinct_card)
  then show ?thesis by (simp add: chain_fuel_def)
qed

lemma lru_inv_chain:
  assumes inv: "lru_inv m bs xs" and b: "b < HU_LRU_BUCKETS"
  shows "set (bs ! b) \<subseteq> set xs" "length (bs ! b) < chain_fuel m"
proof -
  note ok = buckets_okD [OF lru_invD(1) [OF inv] b]
  show s: "set (bs ! b) \<subseteq> set xs" using ok(4) lru_invD(8) [OF inv] by blast
  have "length (bs ! b) = card (set (bs ! b))" using ok(3) by (simp add: distinct_card)
  also have "\<dots> \<le> card (set xs)" using s by (simp add: card_mono)
  also have "\<dots> \<le> length xs" by (rule card_length)
  finally show "length (bs ! b) < chain_fuel m" using lru_inv_length [OF inv] by simp
qed

text \<open>Looking a key up finds the one entry that has it.\<close>

lemma find_entry_inv:
  assumes "lru_inv m bs xs"
  shows "find_entry m key = Ret None \<and> (\<forall>a \<in> set xs. key_at m a \<noteq> key) \<or>
    (\<exists>us a vs. find_entry m key = Ret (Some a) \<and> xs = us @ a # vs \<and> key_at m a = key \<and> (\<forall>x \<in> set (us @ vs). key_at m x \<noteq> key))"
proof -
  let ?b = "bs ! hash_key key"
  note c = lru_inv_chain [OF assms hash_key_less [of key]]
  have f: "find_entry m key = Ret (List.find (\<lambda>a. key_at m a = key) ?b)"
    using find_in_chain_eq [OF buckets_okD(1) [OF lru_invD(1) [OF assms] hash_key_less [of key]] c(2)] by (simp add: find_entry_def key_at_def)
  show ?thesis
  proof (cases "List.find (\<lambda>a. key_at m a = key) ?b")
    case None
    then have "\<forall>a \<in> set xs. key_at m a \<noteq> key" using lru_invD(7) [OF assms] by (auto simp: find_None_iff)
    with f None show ?thesis by simp
  next
    case (Some a)
    then have a: "a \<in> set ?b" "key_at m a = key" by (auto simp: find_Some_iff)
    with c(1) obtain us vs where xs: "xs = us @ a # vs" by (meson in_set_conv_decomp subsetD)
    have "distinct (map (key_at m) xs)" by (rule lru_invD(5) [OF assms])
    then have "key a \<notin> key ` set (us @ vs)" if "key = key_at m" for key using that xs by auto
    with a(2) have "\<forall>x \<in> set (us @ vs). key_at m x \<noteq> key" by (metis image_eqI)
    with xs a(2) f Some show ?thesis by (intro disjI2 exI [of _ us] exI [of _ a] exI [of _ vs]) simp
  qed
qed

section \<open>What an entry shows\<close>

lemma plain_fields [simp]: "le_key (plain e) = le_key e" "le_last_access (plain e) = le_last_access e"
  "le_content (plain e) = le_content e" "le_category (plain e) = le_category e" "le_session_id (plain e) = le_session_id e"
  "le_updated_at (plain e) = le_updated_at e" "le_stale_name (plain e) = le_stale_name e" "le_created_at (plain e) = le_created_at e"
  by (simp_all add: plain_def)

text \<open>Of two entries that differ in links only, everything else agrees.\<close>

lemma plain_eqD:
  assumes "plain e = plain e'"
  shows "le_key e = le_key e'" "le_last_access e = le_last_access e'" "entry_out e = entry_out e'"
  using arg_cong [OF assms, of le_key] arg_cong [OF assms, of le_last_access] arg_cong [OF assms, of entry_out]
  by (simp_all add: entry_out_def)

definition plain_at :: "lru_memory \<Rightarrow> nat \<Rightarrow> lru_entry option" where
  "plain_at m a = map_option plain (lm_heap m a)"

lemma plain_at_key:
  assumes "plain_at m' a = plain_at m a" "lm_heap m a \<noteq> None"
  shows "lm_heap m' a \<noteq> None" "key_at m' a = key_at m a" "access_at m' a = access_at m a"
    "entry_out (the (lm_heap m' a)) = entry_out (the (lm_heap m a))"
proof -
  obtain e where e: "lm_heap m a = Some e" using assms(2) by blast
  with assms(1) obtain e' where e': "lm_heap m' a = Some e'" "plain e' = plain e"
    by (cases "lm_heap m' a") (auto simp: plain_at_def)
  show "lm_heap m' a \<noteq> None" "key_at m' a = key_at m a" "access_at m' a = access_at m a"
    "entry_out (the (lm_heap m' a)) = entry_out (the (lm_heap m a))"
    using e e'(1) plain_eqD [OF e'(2)] by (simp_all add: key_at_def access_at_def)
qed

lemma only_lru_plain: "only_lru m m' \<Longrightarrow> plain_at m' a = plain_at m a"
  unfolding only_lru_def plain_at_def using same_but_lru_at [of "lm_heap m" "lm_heap m'" a]
  by (cases "lm_heap m a"; cases "lm_heap m' a") auto

text \<open>The chains are not touched by what relinks the list.\<close>

lemma only_lru_buckets:
  assumes "only_lru m m'" "buckets_ok m bs"
  shows "buckets_ok m' bs"
proof -
  have "lm_buckets m' = lm_buckets m" using assms(1) by (simp add: only_lru_def)
  moreover have "hchain (lm_heap m') p xs = hchain (lm_heap m) p xs" for p xs
    using assms(1) same_but_lru_hchain by (simp add: only_lru_def)
  moreover have "key_at m' a = key_at m a" if "b < HU_LRU_BUCKETS" "a \<in> set (bs ! b)" for a b
    using plain_at_key(2) [OF only_lru_plain [OF assms(1)] buckets_okD(4) [OF assms(2) that]] .
  ultimately show ?thesis using assms(2) by (auto simp: buckets_ok_def)
qed

section \<open>Moving an entry to the front\<close>

lemma touch_inv:
  assumes inv: "lru_inv m bs (us @ a # vs)" and e: "lm_heap m a = Some e"
    and e': "le_key e' = le_key e" "le_hash_next e' = le_hash_next e" "le_lru_prev e' = le_lru_prev e" "le_lru_next e' = le_lru_next e"
      "le_last_access e' = c" "lm_access_counter m < c"
    and m1: "m1 = m\<lparr>lm_heap := (lm_heap m)(a := Some e'), lm_access_counter := c\<rparr>"
  shows "\<exists>m2 m3. unlink_lru m1 a = Ret m2 \<and> link_mru m2 a = Ret m3 \<and> lru_inv m3 bs (a # us @ vs) \<and> only_lru m1 m3"
proof -
  have "dseg (lm_heap m1) None (us @ a # vs) None = dseg (lm_heap m) None (us @ a # vs) None"
    using e e' by (intro dseg_cong) (auto simp: m1)
  then have "lru_list m1 (us @ a # vs)" using lru_invD(2) [OF inv] by (simp add: lru_list_def m1)
  then obtain m2 where m2: "unlink_lru m1 a = Ret m2" "lru_list m2 (us @ vs)" "only_lru m1 m2" using unlink_lru_list by blast
  have "a \<notin> set (us @ vs)" using lru_invD(2) [OF inv] by (auto simp: lru_list_def)
  moreover have "\<exists>f. lm_heap m2 a = Some f"
    using plain_at_key(1) [OF only_lru_plain [OF m2(3)], of a] by (auto simp: m1)
  ultimately obtain m3 where m3: "link_mru m2 a = Ret m3" "lru_list m3 (a # us @ vs)" "only_lru m2 m3"
    using link_mru_list m2(2) by blast
  have o: "only_lru m1 m3" using m2(3) m3(3) by (rule only_lru_trans)
  have keys1: "key_at m1 x = key_at m x" for x using e e'(1) by (simp add: m1 key_at_def)
  have access1: "access_at m1 x = (if x = a then c else access_at m x)" for x using e'(5) by (simp add: m1 access_at_def)
  have heap1: "lm_heap m1 x \<noteq> None \<longleftrightarrow> lm_heap m x \<noteq> None" for x using e by (simp add: m1)
  have at3: "key_at m3 x = key_at m x" "access_at m3 x = access_at m1 x" if "lm_heap m x \<noteq> None" for x
    using plain_at_key(2,3) [OF only_lru_plain [OF o], of x] heap1 keys1 that by auto
  have live: "x \<in> set (us @ a # vs) \<longleftrightarrow> lm_heap m x \<noteq> None" for x using lru_invD(8) [OF inv] by blast
  have heap3: "lm_heap m3 x \<noteq> None \<longleftrightarrow> lm_heap m x \<noteq> None" for x
    using only_lru_plain [OF o, of x] heap1 [of x] by (auto simp: plain_at_def)
  have "buckets_ok m1 bs"
  proof -
    have "hchain (lm_heap m1) p xs = hchain (lm_heap m) p xs" for p xs
      using e e'(2) by (intro hchain_cong) (auto simp: m1)
    then show ?thesis using lru_invD(1) [OF inv] keys1 by (simp add: buckets_ok_def m1)
  qed
  with o have b3: "buckets_ok m3 bs" by (rule only_lru_buckets)
  have same: "lm_count m3 = lm_count m" "lm_max_entries m3 = lm_max_entries m" "lm_fresh m3 = lm_fresh m" "lm_access_counter m3 = c"
    using o by (simp_all add: only_lru_def m1)
  have key3: "key_at m3 x = key_at m x" if "x \<in> set (us @ a # vs)" for x using at3(1) [of x] live [of x] that by blast
  then have keys: "map (key_at m3) (a # us @ vs) = map (key_at m) (a # us @ vs)" by simp
  have rec: "recency_ok m (us @ a # vs)" by (rule lru_invD(6) [OF inv])
  have less: "access_at m x < c" if "x \<in> set (us @ a # vs)" for x
    using rec that e'(6) unfolding recency_ok_def by (meson le_less_trans)
  have "sorted_wrt (\<lambda>x y. access_at m x > access_at m y) (us @ vs)" using rec by (auto simp: recency_ok_def sorted_wrt_append)
  moreover have old: "access_at m3 x = access_at m x" if "x \<in> set (us @ vs)" for x
    using at3(2) [of x] access1 [of x] live [of x] that \<open>a \<notin> set (us @ vs)\<close> by auto
  ultimately have "sorted_wrt (\<lambda>x y. access_at m3 x > access_at m3 y) (us @ vs)"
    by (elim sorted_wrt_mono_rel [rotated]) simp
  moreover have "access_at m3 a = c" using at3(2) [of a] access1 [of a] live [of a] by simp
  moreover have "access_at m3 x < c" if "x \<in> set (us @ vs)" for x using less [of x] old [OF that] that by auto
  ultimately have "recency_ok m3 (a # us @ vs)"
    using same(4) by (simp add: recency_ok_def less_imp_le)
  moreover have "distinct (map (key_at m3) (a # us @ vs))" unfolding keys using lru_invD(5) [OF inv] by auto
  moreover have "x \<in> set (bs ! hash_key (key_at m3 x)) \<and> x < lm_fresh m3 \<and> no_nul (key_at m3 x)" if "x \<in> set (a # us @ vs)" for x
    using lru_invD(7,9,10) [OF inv, of x] key3 [of x] same(3) that by auto
  moreover have "lm_heap m3 x \<noteq> None \<longleftrightarrow> x \<in> set (a # us @ vs)" for x using heap3 [of x] live [of x] by auto
  ultimately have "lru_inv m3 bs (a # us @ vs)"
    using b3 m3(2) same(1,2) lru_invD(3,4) [OF inv] by (intro lru_invI) auto
  with m2(1) m3(1) o show ?thesis by blast
qed

section \<open>Taking an entry away\<close>

lemma unlink_chain_eq:
  "read_place m pp = Ret p \<Longrightarrow> hchain (lm_heap m) p (us @ a # vs) \<Longrightarrow> length us < k \<Longrightarrow>
   unlink_chain k m pp a = write_place m (if us = [] then pp else InNext (last us)) (le_hash_next (the (lm_heap m a)))"
proof (induction us arbitrary: k pp p)
  case Nil
  then obtain k' where "k = Suc k'" by (cases k) auto
  with Nil show ?case by (auto simp: entry_at_def)
next
  case (Cons u us)
  then obtain k' where k: "k = Suc k'" by (cases k) auto
  from Cons.prems(2) obtain e where e: "p = Some u" "lm_heap m u = Some e" "hchain (lm_heap m) (le_hash_next e) (us @ a # vs)" by auto
  have "u \<noteq> a" using hchain_distinct [OF Cons.prems(2)] by auto
  moreover have "read_place m (InNext u) = Ret (le_hash_next e)" using e(2) by (simp add: read_place_def entry_at_def)
  then have "unlink_chain k' m (InNext u) a =
      write_place m (if us = [] then InNext u else InNext (last us)) (le_hash_next (the (lm_heap m a)))"
    using Cons.prems(3) e(3) k by (intro Cons.IH) auto
  ultimately show ?case using Cons.prems(1) e(1) by (simp add: k)
qed

lemma hchain_splice:
  assumes "hchain h p (us @ u # a # vs)" "h u = Some e" "h a = Some f"
  shows "hchain (h(u := Some (e\<lparr>le_hash_next := le_hash_next f\<rparr>))) p (us @ u # vs)"
  using assms(1) hchain_distinct [OF assms(1)]
  by (induction us arbitrary: p) (use assms(2,3) in auto)

lemma plain_at_same:
  "(\<And>a. plain_at m' a = plain_at m a) \<Longrightarrow> b < HU_LRU_BUCKETS \<Longrightarrow> buckets_ok m bs \<Longrightarrow> a \<in> set (bs ! b) \<Longrightarrow> key_at m' a = key_at m a"
  using plain_at_key(2) buckets_okD(4) by blast

lemma unlink_chain_inv:
  assumes inv: "lru_inv m bs xs" and a: "a \<in> set xs" and b: "b = hash_key (key_at m a)"
  shows "\<exists>us vs m'. bs ! b = us @ a # vs \<and> unlink_chain (chain_fuel m) m (InBucket b) a = Ret m' \<and> buckets_ok m' (bs[b := us @ vs]) \<and>
    lru_list m' xs \<and> (\<forall>x. plain_at m' x = plain_at m x) \<and> lm_fresh m' = lm_fresh m \<and> lm_count m' = lm_count m \<and>
    lm_max_entries m' = lm_max_entries m \<and> lm_access_counter m' = lm_access_counter m"
proof -
  have "b < HU_LRU_BUCKETS" using b by simp
  note ok = lru_invD(1) [OF inv] and chain = lru_inv_chain [OF inv this] and here = buckets_okD [OF lru_invD(1) [OF inv] this]
  from lru_invD(7) [OF inv a] obtain us vs where uv: "bs ! b = us @ a # vs" unfolding b [symmetric] by (auto simp: in_set_conv_decomp)
  obtain f where f: "lm_heap m a = Some f" using lru_invD(8) [OF inv, of a] a by auto
  have "length us < chain_fuel m" using chain(2) uv by simp
  with here(1) uv have eq: "unlink_chain (chain_fuel m) m (InBucket b) a =
      write_place m (if us = [] then InBucket b else InNext (last us)) (le_hash_next f)"
    using unlink_chain_eq [of m "InBucket b" "lm_buckets m ! b" us a vs] f by (simp add: read_place_def)
  have len: "length bs = HU_LRU_BUCKETS" "length (lm_buckets m) = HU_LRU_BUCKETS" using ok by (simp_all add: buckets_ok_def)
  show ?thesis
  proof (cases us rule: rev_cases)
    case Nil
    let ?m = "m\<lparr>lm_buckets := (lm_buckets m)[b := le_hash_next f]\<rparr>"
    have "hchain (lm_heap m) (le_hash_next f) vs" using here(1) uv Nil f by auto
    then have "buckets_ok ?m (bs[b := vs])"
      using ok \<open>b < HU_LRU_BUCKETS\<close> len uv by (auto simp: buckets_ok_def nth_list_update key_at_def)
    then show ?thesis using eq Nil uv lru_invD(2) [OF inv]
      by (intro exI [of _ us] exI [of _ vs] exI [of _ ?m]) (simp add: write_place_def lru_list_def plain_at_def)
  next
    case (snoc us' u)
    obtain e where e: "lm_heap m u = Some e" using here(4) [of u] uv snoc by auto
    let ?h = "(lm_heap m)(u := Some (e\<lparr>le_hash_next := le_hash_next f\<rparr>))"
    let ?m = "m\<lparr>lm_heap := ?h\<rparr>"
    have pl: "plain_at ?m x = plain_at m x" for x using e by (simp add: plain_at_def)
    have u: "u \<in> set (bs ! b)" using uv snoc by simp
    have "hchain ?h (lm_buckets m ! b) (us @ vs)" using hchain_splice [of "lm_heap m" _ us' u a vs e f] here(1) uv snoc e f by simp
    moreover have "hchain ?h (lm_buckets m ! c) (bs ! c)" if "c < HU_LRU_BUCKETS" "c \<noteq> b" for c
    proof -
      have "u \<notin> set (bs ! c)" using buckets_okD(2) [OF ok that(1)] buckets_okD(2) [OF ok \<open>b < HU_LRU_BUCKETS\<close> u] that(2) by blast
      then show ?thesis using buckets_okD(1) [OF ok that(1)] by simp
    qed
    moreover have "hash_key (key_at ?m x) = c" if "c < HU_LRU_BUCKETS" "x \<in> set (bs ! c)" for c x
      using plain_at_same [OF pl that(1) ok that(2)] buckets_okD(2) [OF ok that] by simp
    ultimately have "buckets_ok ?m (bs[b := us @ vs])" using len uv \<open>b < HU_LRU_BUCKETS\<close> by (auto simp: buckets_ok_def nth_list_update)
    moreover have "dseg ?h None xs None = dseg (lm_heap m) None xs None" using e by (intro dseg_cong) auto
    then have "lru_list ?m xs" using lru_invD(2) [OF inv] by (simp add: lru_list_def)
    ultimately show ?thesis using eq snoc uv pl e
      by (intro exI [of _ us] exI [of _ vs] exI [of _ ?m]) (simp add: write_place_def modify_at_Some)
  qed
qed

text \<open>What \<^verbatim>\<open>impl_forget\<close> and \<^verbatim>\<open>evict_lru\<close> do once they have the entry.\<close>

definition remove_entry :: "nat \<Rightarrow> lru_memory \<Rightarrow> nat \<Rightarrow> lru_memory outcome" where
  "remove_entry b m a =
     obind (unlink_chain (chain_fuel m) m (InBucket b) a) (\<lambda>m.
     obind (unlink_lru m a) (\<lambda>m.
     obind (free_at m a) (\<lambda>m.
     Ret (m\<lparr>lm_count := lm_count m - 1\<rparr>))))"

lemma remove_entry_inv:
  assumes inv: "lru_inv m bs (us @ a # vs)"
  shows "\<exists>m' bs'. remove_entry (hash_key (key_at m a)) m a = Ret m' \<and> lru_inv m' bs' (us @ vs) \<and>
    (\<forall>x \<in> set (us @ vs). plain_at m' x = plain_at m x) \<and> lm_max_entries m' = lm_max_entries m \<and>
    lm_access_counter m' = lm_access_counter m"
proof -
  let ?b = "hash_key (key_at m a)"
  from unlink_chain_inv [OF inv _ refl, of a] obtain ps qs m1 where pq: "bs ! ?b = ps @ a # qs"
    and m1: "unlink_chain (chain_fuel m) m (InBucket ?b) a = Ret m1" "buckets_ok m1 (bs[?b := ps @ qs])" "lru_list m1 (us @ a # vs)"
      "\<And>x. plain_at m1 x = plain_at m x" "lm_fresh m1 = lm_fresh m" "lm_count m1 = lm_count m"
      "lm_max_entries m1 = lm_max_entries m" "lm_access_counter m1 = lm_access_counter m"
    by auto
  from unlink_lru_list [OF m1(3)] obtain m2 where m2: "unlink_lru m1 a = Ret m2" "lru_list m2 (us @ vs)" "only_lru m1 m2" by blast
  have pl2: "plain_at m2 x = plain_at m x" for x using only_lru_plain [OF m2(3)] m1(4) by simp
  have live: "lm_heap m x \<noteq> None \<longleftrightarrow> x \<in> set (us @ a # vs)" for x by (rule lru_invD(8) [OF inv])
  have heap2: "lm_heap m2 x \<noteq> None \<longleftrightarrow> x \<in> set (us @ a # vs)" for x using pl2 [of x] live [of x] by (auto simp: plain_at_def)
  have key2: "key_at m2 x = key_at m x" "access_at m2 x = access_at m x" if "x \<in> set (us @ a # vs)" for x
    using plain_at_key(2,3) [OF pl2 [of x]] live [of x] that by blast+
  have d: "distinct (us @ a # vs)" using lru_invD(2) [OF inv] by (simp add: lru_list_def)
  let ?m3 = "m2\<lparr>lm_heap := (lm_heap m2)(a := None), lm_count := lm_count m2 - 1\<rparr>"
  let ?bs = "bs[?b := ps @ qs]"
  have run: "remove_entry ?b m a = Ret ?m3"
    using m1(1) m2(1) heap2 [of a] by (auto simp: remove_entry_def free_at_def entry_at_def)
  have b2: "buckets_ok m2 ?bs" by (rule only_lru_buckets [OF m2(3) m1(2)])
  have len: "length bs = HU_LRU_BUCKETS" using lru_invD(1) [OF inv] by (simp add: buckets_ok_def)
  have gone: "a \<notin> set (?bs ! b)" if "b < HU_LRU_BUCKETS" for b
  proof (cases "b = ?b")
    case True
    then show ?thesis using buckets_okD(3) [OF lru_invD(1) [OF inv], of ?b] pq len by simp
  next
    case False
    then show ?thesis using buckets_okD(2) [OF b2 that, of a] key2(1) [of a] by auto
  qed
  have same3: "key_at ?m3 x = key_at m2 x" "access_at ?m3 x = access_at m2 x" if "x \<noteq> a" for x using that by (simp_all add: key_at_def access_at_def)
  have "buckets_ok ?m3 ?bs"
    using b2 gone same3(1) unfolding buckets_ok_def by (auto simp: hchain_frame) (metis gone same3(1))
  moreover have "lru_list ?m3 (us @ vs)" using m2(2) d by (simp add: lru_list_def)
  moreover have old: "key_at ?m3 x = key_at m x" "access_at ?m3 x = access_at m x" if "x \<in> set (us @ vs)" for x
  proof -
    have "x \<noteq> a" "x \<in> set (us @ a # vs)" using that d by auto
    then show "key_at ?m3 x = key_at m x" "access_at ?m3 x = access_at m x" using same3 [of x] key2 [of x] by simp_all
  qed
  have "sorted_wrt (\<lambda>x y. access_at m x > access_at m y) (us @ vs)" using lru_invD(6) [OF inv] by (auto simp: recency_ok_def sorted_wrt_append)
  then have "sorted_wrt (\<lambda>x y. access_at ?m3 x > access_at ?m3 y) (us @ vs)" by (elim sorted_wrt_mono_rel [rotated]) (simp only: old)
  then have "recency_ok ?m3 (us @ vs)"
    using lru_invD(6) [OF inv] old(2) m1(8) m2(3) by (auto simp: recency_ok_def only_lru_def)
  moreover have "map (key_at ?m3) (us @ vs) = map (key_at m) (us @ vs)" using old(1) by (intro map_cong refl) blast
  then have "distinct (map (key_at ?m3) (us @ vs))" using lru_invD(5) [OF inv] by (simp only:) auto
  moreover have "x \<in> set (?bs ! hash_key (key_at ?m3 x)) \<and> x < lm_fresh ?m3 \<and> no_nul (key_at ?m3 x)" if x: "x \<in> set (us @ vs)" for x
  proof -
    have xx: "x \<in> set (us @ a # vs)" "x \<noteq> a" using x d by auto
    have "x \<in> set (?bs ! hash_key (key_at m x))"
      using lru_invD(7) [OF inv xx(1)] pq xx(2) len by (cases "?b = hash_key (key_at m x)") auto
    then show ?thesis unfolding old(1) [OF x] using lru_invD(9,10) [OF inv xx(1)] m1(5) m2(3) by (simp add: only_lru_def)
  qed
  moreover have "lm_heap ?m3 x \<noteq> None \<longleftrightarrow> x \<in> set (us @ vs)" for x using heap2 [of x] d by auto
  ultimately have "lru_inv ?m3 ?bs (us @ vs)"
    using lru_invD(3,4) [OF inv] m1(6,7) m2(3) by (intro lru_invI) (auto simp: only_lru_def)
  moreover have "plain_at ?m3 x = plain_at m x" if "x \<in> set (us @ vs)" for x
    using pl2 [of x] that d by (auto simp: plain_at_def)
  ultimately show ?thesis using run m1(7,8) m2(3) by (intro exI [of _ ?m3] exI [of _ ?bs]) (simp add: only_lru_def)
qed

section \<open>Making room\<close>

lemma evict_lru_inv:
  assumes inv: "lru_inv m bs (us @ [a])"
  shows "\<exists>m' bs'. evict_lru m = Ret m' \<and> lru_inv m' bs' us \<and> (\<forall>x \<in> set us. plain_at m' x = plain_at m x) \<and>
    lm_max_entries m' = lm_max_entries m \<and> lm_access_counter m' = lm_access_counter m"
proof -
  obtain e where e: "lm_heap m a = Some e" using lru_invD(8) [OF inv, of a] by auto
  have "evict_lru m = remove_entry (hash_key (key_at m a)) m a"
    using lru_invD(2) [OF inv] e by (simp add: evict_lru_def remove_entry_def lru_list_def entry_at_def key_at_def)
  then show ?thesis using remove_entry_inv [of m bs us a "[]"] inv by simp
qed

text \<open>The loop runs at most once: the store is never above its limit.\<close>

lemma evict_loop_inv:
  assumes inv: "lru_inv m bs xs" and max: "0 < lm_max_entries m"
  shows "\<exists>m' bs'. evict_loop (lm_count m + 1) m = Ret m' \<and> lru_inv m' bs' (take (lm_max_entries m - 1) xs) \<and>
    (\<forall>x \<in> set (take (lm_max_entries m - 1) xs). plain_at m' x = plain_at m x) \<and>
    lm_max_entries m' = lm_max_entries m \<and> lm_access_counter m' = lm_access_counter m"
proof (cases "lm_count m < lm_max_entries m")
  case True
  then have "take (lm_max_entries m - 1) xs = xs" using lru_invD(3) [OF inv] by simp
  with True inv show ?thesis by auto
next
  case False
  then have c: "lm_count m = lm_max_entries m" "length xs = lm_max_entries m" using lru_invD(3,4) [OF inv] by simp_all
  with max obtain us a where xs: "xs = us @ [a]" by (cases xs rule: rev_cases) auto
  from evict_lru_inv inv xs obtain m' bs' where m': "evict_lru m = Ret m'" "lru_inv m' bs' us" "\<forall>x \<in> set us. plain_at m' x = plain_at m x"
    "lm_max_entries m' = lm_max_entries m" "lm_access_counter m' = lm_access_counter m" by blast
  have "lm_count m' < lm_max_entries m'" using lru_invD(3) [OF m'(2)] c xs m'(4) by simp
  moreover obtain k where "lm_count m = Suc k" using c(1) max by (metis gr0_implies_Suc)
  ultimately have "evict_loop (lm_count m + 1) m = Ret m'" using m'(1) c(1) by simp
  moreover have "take (lm_max_entries m - 1) xs = us" using c xs by simp
  ultimately show ?thesis using m' by auto
qed

section \<open>Adding an entry\<close>

text \<open>The category an entry gets.\<close>

definition stored_category :: "mem_category option \<Rightarrow> mem_category" where
  "stored_category category = (case category of None \<Rightarrow> HU_MEMORY_CATEGORY_CORE | Some c \<Rightarrow> c)"

lemma set_category_Ret:
  assumes "category \<noteq> Some (HU_MEMORY_CATEGORY_CUSTOM None)"
  shows "\<exists>s. set_category stale category e = Ret (e\<lparr>le_category := stored_category category, le_stale_name := s\<rparr>)"
proof (cases category)
  case (Some c)
  then show ?thesis using assms by (cases c) (auto simp: set_category_def stored_category_def split: option.split)
qed (auto simp: set_category_def stored_category_def)

lemma insert_new_inv:
  assumes inv: "lru_inv m bs xs" and room: "length xs < lm_max_entries m" and key: "no_nul key" "\<forall>x \<in> set xs. key_at m x \<noteq> key"
    and category: "category \<noteq> Some (HU_MEMORY_CATEGORY_CUSTOM None)" and counter: "lm_access_counter m + 1 < 2 ^ 64"
  shows "\<exists>m' bs'. insert_new now m key content category session_id = Ret m' \<and> lru_inv m' bs' (lm_fresh m # xs) \<and>
    (\<forall>x \<in> set xs. plain_at m' x = plain_at m x) \<and>
    entry_out (the (lm_heap m' (lm_fresh m))) =
      \<lparr>me_id = key, me_key = key, me_content = cstr content, me_category = stored_category category,
       me_timestamp = now_timestamp now, me_session_id = dup_session session_id\<rparr> \<and>
    lm_max_entries m' = lm_max_entries m \<and> lm_access_counter m' = lm_access_counter m + 1"
proof -
  let ?a = "lm_fresh m" and ?b = "hash_key key" and ?c = "lm_access_counter m + 1"
  have next_acc: "next_access m = ?c" using counter by (simp add: next_access_def)
  have dup: "hu_strndup s (length s) = cstr s" for s by (simp add: hu_strndup_def)
  define e0 where "e0 = \<lparr>le_key = key, le_content = cstr content, le_category = HU_MEMORY_CATEGORY_CORE, le_stale_name = False,
    le_session_id = dup_session session_id, le_created_at = now_timestamp now, le_updated_at = now_timestamp now, le_last_access = ?c,
    le_hash_next = lm_buckets m ! ?b, le_lru_prev = None, le_lru_next = None\<rparr>"
  obtain s where s: "set_category False category e0 = Ret (e0\<lparr>le_category := stored_category category, le_stale_name := s\<rparr>)"
    using set_category_Ret [OF category] by blast
  define e where "e = e0\<lparr>le_category := stored_category category, le_stale_name := s\<rparr>"
  define m1 where "m1 = m\<lparr>lm_heap := (lm_heap m)(?a := Some e), lm_fresh := ?a + 1, lm_buckets := (lm_buckets m)[?b := Some ?a],
    lm_access_counter := ?c\<rparr>"
  have fresh: "?a \<notin> set xs" using lru_invD(9) [OF inv] by blast
  have live: "lm_heap m x \<noteq> None \<longleftrightarrow> x \<in> set xs" for x by (rule lru_invD(8) [OF inv])
  have l1: "lru_list m1 xs" using lru_invD(2) [OF inv] fresh by (simp add: lru_list_def m1_def)
  then obtain m2 where m2: "link_mru m1 ?a = Ret m2" "lru_list m2 (?a # xs)" "only_lru m1 m2"
    using link_mru_list [OF l1 fresh, of e] by (auto simp: m1_def)
  let ?m = "m2\<lparr>lm_count := lm_count m2 + 1\<rparr>"
  have run: "insert_new now m key content category session_id = Ret ?m"
    using s m2(1) key(1) unfolding insert_new_def Let_def next_acc dup e0_def [symmetric] by (simp add: no_nul_cstr e_def m1_def e0_def)
  have ok: "buckets_ok m bs" by (rule lru_invD(1) [OF inv])
  have len: "length bs = HU_LRU_BUCKETS" "length (lm_buckets m) = HU_LRU_BUCKETS" using ok by (simp_all add: buckets_ok_def)
  have nin: "?a \<notin> set (bs ! b)" if "b < HU_LRU_BUCKETS" for b using lru_inv_chain(1) [OF inv that] fresh by blast
  have key1: "key_at m1 x = (if x = ?a then key else key_at m x)" "access_at m1 x = (if x = ?a then ?c else access_at m x)" for x
    by (simp_all add: key_at_def access_at_def m1_def e_def e0_def)
  have "buckets_ok m1 (bs[?b := ?a # bs ! ?b])"
  proof -
    have "hchain (lm_heap m1) (lm_buckets m1 ! b) (bs[?b := ?a # bs ! ?b] ! b) \<and>
        (\<forall>x \<in> set (bs[?b := ?a # bs ! ?b] ! b). hash_key (key_at m1 x) = b)" if b: "b < HU_LRU_BUCKETS" for b
      using buckets_okD(1,2) [OF ok b] nin [OF b] b len key1(1)
      by (cases "b = ?b") (auto simp: m1_def e_def e0_def)
    then show ?thesis using len by (simp add: buckets_ok_def m1_def)
  qed
  then have b2: "buckets_ok m2 (bs[?b := ?a # bs ! ?b])" by (rule only_lru_buckets [OF m2(3)])
  have pl2: "plain_at ?m x = plain_at m1 x" for x using only_lru_plain [OF m2(3), of x] by (simp add: plain_at_def)
  have heap: "lm_heap ?m x \<noteq> None \<longleftrightarrow> x \<in> set (?a # xs)" for x
    using pl2 [of x] live [of x] by (cases "x = ?a"; cases "lm_heap ?m x"; cases "lm_heap m x") (auto simp: plain_at_def m1_def)
  have at: "key_at ?m x = key_at m1 x" "access_at ?m x = access_at m1 x"
      "entry_out (the (lm_heap ?m x)) = entry_out (the (lm_heap m1 x))" if "x \<in> set (?a # xs)" for x
    using plain_at_key(2-4) [OF pl2 [of x]] live [of x] that by (auto simp: m1_def)
  have old: "key_at ?m x = key_at m x \<and> access_at ?m x = access_at m x \<and> plain_at ?m x = plain_at m x" if "x \<in> set xs" for x
    using at [of x] key1 [of x] pl2 [of x] that fresh by (auto simp: plain_at_def m1_def)
  have new: "key_at ?m ?a = key" "access_at ?m ?a = ?c" using at [of ?a] key1 [of ?a] by simp_all
  have "sorted_wrt (\<lambda>x y. access_at m x > access_at m y) xs" using lru_invD(6) [OF inv] by (simp add: recency_ok_def)
  then have "sorted_wrt (\<lambda>x y. access_at ?m x > access_at ?m y) xs" by (elim sorted_wrt_mono_rel [rotated]) (use old in metis)
  moreover have "access_at ?m x < ?c" if "x \<in> set xs" for x
    using old [OF that] lru_invD(6) [OF inv] that unfolding recency_ok_def by (simp add: le_imp_less_Suc)
  ultimately have rec: "recency_ok ?m (?a # xs)"
    using new(2) m2(3) by (auto simp: recency_ok_def only_lru_def m1_def less_imp_le)
  have "map (key_at ?m) (?a # xs) = key # map (key_at m) xs" using old new(1) by simp
  then have dist: "distinct (map (key_at ?m) (?a # xs))" using lru_invD(5) [OF inv] key(2) by (simp only:) auto
  have each: "x \<in> set (bs[?b := ?a # bs ! ?b] ! hash_key (key_at ?m x)) \<and> x < lm_fresh ?m \<and> no_nul (key_at ?m x)" if "x \<in> set (?a # xs)" for x
  proof (cases "x = ?a")
    case True
    then show ?thesis unfolding True new(1) using len key(1) m2(3) by (simp add: only_lru_def m1_def)
  next
    case False
    with that have x: "x \<in> set xs" by simp
    have "x \<in> set (bs[?b := ?a # bs ! ?b] ! hash_key (key_at m x))"
      using lru_invD(7) [OF inv x] len by (cases "?b = hash_key (key_at m x)") auto
    then show ?thesis unfolding conjunct1 [OF old [OF x]]
      using lru_invD(9,10) [OF inv x] m2(3) by (simp add: only_lru_def m1_def)
  qed
  have "lru_inv ?m (bs[?b := ?a # bs ! ?b]) (?a # xs)"
    using m2(2,3) b2 rec dist heap each lru_invD(3) [OF inv] room
    by (intro lru_invI) (auto simp: lru_list_def buckets_ok_def key_at_def only_lru_def m1_def)
  moreover have "entry_out (the (lm_heap ?m ?a)) = \<lparr>me_id = key, me_key = key, me_content = cstr content,
      me_category = stored_category category, me_timestamp = now_timestamp now, me_session_id = dup_session session_id\<rparr>"
    using at(3) [of ?a] by (simp add: m1_def e_def e0_def entry_out_def)
  ultimately show ?thesis using run old m2(3)
    by (intro exI [of _ ?m] exI [of _ "bs[?b := ?a # bs ! ?b]"]) (simp add: only_lru_def m1_def)
qed

section \<open>Releasing everything\<close>

definition freed :: "lru_heap \<Rightarrow> nat set \<Rightarrow> lru_heap" where
  "freed h A = (\<lambda>a. if a \<in> A then None else h a)"

lemma freed_simps [simp]: "freed h {} = h" "(freed h A)(a := None) = freed h (insert a A)" "freed (h(a := None)) A = freed h (insert a A)"
  "freed (freed h A) B = freed h (A \<union> B)"
  by (auto simp: freed_def)

lemma hchain_freed: "set xs \<inter> A = {} \<Longrightarrow> hchain (freed h A) p xs = hchain h p xs"
  by (rule hchain_cong) (auto simp: freed_def)

lemma deinit_bucket_eq:
  "hchain (lm_heap m) (lm_buckets m ! b) xs \<Longrightarrow> b < length (lm_buckets m) \<Longrightarrow> length xs < k \<Longrightarrow>
   deinit_bucket k m b = Ret (m\<lparr>lm_heap := freed (lm_heap m) (set xs), lm_buckets := (lm_buckets m)[b := None]\<rparr>)"
proof (induction xs arbitrary: k m)
  case Nil
  then obtain k' where "k = Suc k'" by (cases k) auto
  moreover have "(lm_buckets m)[b := None] = lm_buckets m" using Nil.prems(1) list_update_id [of "lm_buckets m" b] by simp
  ultimately show ?case using Nil by simp
next
  case (Cons a xs)
  then obtain k' where k: "k = Suc k'" by (cases k) auto
  from Cons.prems(1) obtain e where e: "lm_buckets m ! b = Some a" "lm_heap m a = Some e" "hchain (lm_heap m) (le_hash_next e) xs" by auto
  have a: "a \<notin> set xs" using hchain_distinct [OF Cons.prems(1)] by simp
  let ?m = "m\<lparr>lm_buckets := (lm_buckets m)[b := le_hash_next e], lm_heap := (lm_heap m)(a := None)\<rparr>"
  have "deinit_bucket k' ?m b = Ret (?m\<lparr>lm_heap := freed (lm_heap ?m) (set xs), lm_buckets := (lm_buckets ?m)[b := None]\<rparr>)"
  proof (rule Cons.IH)
    have "hchain ((lm_heap m)(a := None)) (le_hash_next e) xs" using e(3) a by simp
    then show "hchain (lm_heap ?m) (lm_buckets ?m ! b) xs" using Cons.prems(2) by simp
  qed (use Cons.prems(2,3) k in simp_all)
  then show ?case using e by (simp add: k entry_at_def free_at_def)
qed

lemma deinit_loop_eq:
  "(\<And>b. b \<in> set is \<Longrightarrow> b < length (lm_buckets m) \<and> hchain (lm_heap m) (lm_buckets m ! b) (bs ! b) \<and> length (bs ! b) < k) \<Longrightarrow>
   distinct is \<Longrightarrow> (\<And>b c. b \<in> set is \<Longrightarrow> c \<in> set is \<Longrightarrow> b \<noteq> c \<Longrightarrow> set (bs ! b) \<inter> set (bs ! c) = {}) \<Longrightarrow>
   \<exists>m'. deinit_loop k m is = Ret m' \<and> lm_heap m' = freed (lm_heap m) (\<Union>b \<in> set is. set (bs ! b))"
proof (induction "is" arbitrary: m)
  case (Cons i "is")
  let ?m = "m\<lparr>lm_heap := freed (lm_heap m) (set (bs ! i)), lm_buckets := (lm_buckets m)[i := None]\<rparr>"
  have one: "deinit_bucket k m i = Ret ?m" using Cons.prems(1) [of i] by (intro deinit_bucket_eq) auto
  have "\<exists>m'. deinit_loop k ?m is = Ret m' \<and> lm_heap m' = freed (lm_heap ?m) (\<Union>b \<in> set is. set (bs ! b))"
  proof (rule Cons.IH)
    fix b assume b: "b \<in> set is"
    then have "b \<noteq> i" "set (bs ! b) \<inter> set (bs ! i) = {}" using Cons.prems(2) Cons.prems(3) [of b i] by auto
    with b Cons.prems(1) [of b] show "b < length (lm_buckets ?m) \<and> hchain (lm_heap ?m) (lm_buckets ?m ! b) (bs ! b) \<and> length (bs ! b) < k"
      by (simp add: hchain_freed)
  next
    show "distinct is" using Cons.prems(2) by simp
    show "\<And>b c. b \<in> set is \<Longrightarrow> c \<in> set is \<Longrightarrow> b \<noteq> c \<Longrightarrow> set (bs ! b) \<inter> set (bs ! c) = {}" using Cons.prems(3) by simp
  qed
  with one show ?case by simp
qed simp

text \<open>Closing frees every entry once and leaves none.\<close>

lemma impl_deinit_empty:
  assumes inv: "lru_inv m bs xs"
  shows "impl_deinit m = Ret (\<lambda>_. None)"
proof -
  have ok: "buckets_ok m bs" by (rule lru_invD(1) [OF inv])
  have "set (bs ! b) \<inter> set (bs ! c) = {}" if "b < HU_LRU_BUCKETS" "c < HU_LRU_BUCKETS" "b \<noteq> c" for b c
    using buckets_okD(2) [OF ok that(1)] buckets_okD(2) [OF ok that(2)] that(3) by blast
  moreover have "b < length (lm_buckets m) \<and> hchain (lm_heap m) (lm_buckets m ! b) (bs ! b) \<and> length (bs ! b) < chain_fuel m"
    if "b < HU_LRU_BUCKETS" for b
    using ok buckets_okD(1) [OF ok that] lru_inv_chain(2) [OF inv that] that by (simp add: buckets_ok_def)
  ultimately obtain m' where m': "deinit_loop (chain_fuel m) m [0..<HU_LRU_BUCKETS] = Ret m'"
      "lm_heap m' = freed (lm_heap m) (\<Union>b \<in> set [0..<HU_LRU_BUCKETS]. set (bs ! b))"
    using deinit_loop_eq [of "[0..<HU_LRU_BUCKETS]" m bs "chain_fuel m"] by auto
  have "lm_heap m a = None" if "\<forall>b < HU_LRU_BUCKETS. a \<notin> set (bs ! b)" for a
    using that lru_invD(7) [OF inv, of a] lru_invD(8) [OF inv, of a] by auto
  then have "lm_heap m' = (\<lambda>_. None)" using m'(2) by (auto simp: freed_def)
  with m'(1) show ?thesis by (simp add: impl_deinit_def)
qed

end
