(* ===== verification/HuMemLruSpec.thy ===== *)
theory HuMemLruSpec
  imports HuMemLruInv "HOL-Library.Multiset"
begin

text \<open>
  The contract of the LRU store.  What a user sees of it is a list of entries, the one used last in front; each
  operation is one line on that list.  \<open>lru_abs m l\<close> relates the pointer structures of \<open>m\<close> to the list \<open>l\<close>, and the
  theorems show that a sequence of calls of the code gives the answers the list gives.
\<close>

section \<open>The store as a list\<close>

definition shown :: "lru_memory \<Rightarrow> nat list \<Rightarrow> memory_entry list" where
  "shown m xs = map (\<lambda>a. entry_out (the (lm_heap m a))) xs"

definition lru_abs :: "lru_memory \<Rightarrow> memory_entry list \<Rightarrow> bool" where
  "lru_abs m l \<longleftrightarrow> (\<exists>bs xs. lru_inv m bs xs \<and> l = shown m xs)"

abbreviation other_than :: "string \<Rightarrow> memory_entry \<Rightarrow> bool" where
  "other_than key \<equiv> (\<lambda>x. me_key x \<noteq> key)"

definition new_entry :: "int \<Rightarrow> string \<Rightarrow> string \<Rightarrow> mem_category option \<Rightarrow> string option \<Rightarrow> memory_entry" where
  "new_entry now key content category session_id =
     \<lparr>me_id = key, me_key = key, me_content = cstr content, me_category = stored_category category,
      me_timestamp = now_timestamp now, me_session_id = dup_session session_id\<rparr>"

definition spec_store ::
    "nat \<Rightarrow> int \<Rightarrow> string \<Rightarrow> string \<Rightarrow> mem_category option \<Rightarrow> string option \<Rightarrow> memory_entry list \<Rightarrow> memory_entry list" where
  "spec_store cap now key content category session_id l =
     take cap (new_entry now key content category session_id # filter (other_than key) l)"

definition spec_get :: "string \<Rightarrow> memory_entry list \<Rightarrow> memory_entry list \<times> memory_entry option" where
  "spec_get key l =
     (case List.find (\<lambda>x. me_key x = key) l of
        None \<Rightarrow> (l, None) | Some e \<Rightarrow> (e # filter (other_than key) l, Some e))"

definition spec_forget :: "string \<Rightarrow> memory_entry list \<Rightarrow> memory_entry list \<times> bool" where
  "spec_forget key l = (filter (other_than key) l, list_ex (\<lambda>x. me_key x = key) l)"

definition in_session :: "string option \<Rightarrow> memory_entry \<Rightarrow> bool" where
  "in_session session_id x = (session_id = None \<or> session_id = Some [] \<or> me_session_id x = session_id)"

definition listed :: "mem_category option \<Rightarrow> string option \<Rightarrow> memory_entry \<Rightarrow> bool" where
  "listed category session_id x = (category_matches category (me_category x) \<and> in_session session_id x)"

definition recalled :: "string \<Rightarrow> string option \<Rightarrow> memory_entry \<Rightarrow> bool" where
  "recalled query session_id x = (in_session session_id x \<and> (sublist query (me_key x) \<or> sublist query (me_content x)))"

section \<open>Basic facts\<close>

lemma lru_absE:
  assumes "lru_abs m l"
  obtains bs xs where "lru_inv m bs xs" "l = shown m xs"
  using assms by (auto simp: lru_abs_def)

lemma me_key_out [simp]: "me_key (entry_out e) = le_key e"
  by (simp add: entry_out_def)

lemma key_shown: "map me_key (shown m xs) = map (key_at m) xs"
  by (simp add: shown_def key_at_def)

lemma shown_Cons [simp]: "shown m (x # xs) = entry_out (the (lm_heap m x)) # shown m xs"
  by (simp add: shown_def)

lemma lru_abs_distinct: "lru_abs m l \<Longrightarrow> distinct (map me_key l)"
  by (elim lru_absE) (simp add: key_shown lru_invD(5))

lemma lru_abs_length: "lru_abs m l \<Longrightarrow> length l = lm_count m \<and> length l \<le> lm_max_entries m"
  using lru_invD(3,4) by (fastforce elim!: lru_absE simp: shown_def)

lemma lru_absI: "lru_inv m bs xs \<Longrightarrow> shown m xs = l \<Longrightarrow> lru_abs m l"
  by (auto simp: lru_abs_def)

lemma shown_plain:
  assumes "\<And>x. x \<in> set xs \<Longrightarrow> plain_at m' x = plain_at m x" "\<And>x. x \<in> set xs \<Longrightarrow> lm_heap m x \<noteq> None"
  shows "shown m' xs = shown m xs"
  unfolding shown_def using assms by (intro map_cong refl plain_at_key(4)) auto

text \<open>An entry with the key, and the others.\<close>

lemma others_shown: "\<forall>x \<in> set xs. key_at m x \<noteq> key \<Longrightarrow> filter (other_than key) (shown m xs) = shown m xs"
  by (simp add: shown_def key_at_def filter_id_conv)

lemma find_shown: "\<forall>x \<in> set xs. key_at m x \<noteq> key \<Longrightarrow> List.find (\<lambda>x. me_key x = key) (shown m xs) = None"
  by (simp add: shown_def key_at_def find_None_iff)

lemma others_split:
  assumes "key_at m a = key" "\<forall>x \<in> set (us @ vs). key_at m x \<noteq> key"
  shows "filter (other_than key) (shown m (us @ a # vs)) = shown m (us @ vs)"
    "List.find (\<lambda>x. me_key x = key) (shown m (us @ a # vs)) = Some (entry_out (the (lm_heap m a)))"
proof -
  have "filter (other_than key) (shown m us) = shown m us" "filter (other_than key) (shown m vs) = shown m vs"
    using assms(2) by (auto intro!: others_shown)
  then show "filter (other_than key) (shown m (us @ a # vs)) = shown m (us @ vs)"
    using assms(1) by (simp add: shown_def key_at_def)
  have "List.find (\<lambda>x. me_key x = key) (shown m (us @ a # vs)) = List.find (\<lambda>x. me_key x = key) (shown m (a # vs))"
    using assms(2) by (induction us) (auto simp: shown_def key_at_def)
  then show "List.find (\<lambda>x. me_key x = key) (shown m (us @ a # vs)) = Some (entry_out (the (lm_heap m a)))"
    using assms(1) by (simp add: shown_def key_at_def)
qed

section \<open>Storing, reading, forgetting\<close>

text \<open>An entry is changed and moved to the front.\<close>

lemma touch_shown:
  assumes inv: "lru_inv m bs (us @ a # vs)" and e: "lm_heap m a = Some e"
    and e': "le_key e' = le_key e" "le_hash_next e' = le_hash_next e" "le_lru_prev e' = le_lru_prev e" "le_lru_next e' = le_lru_next e"
      "le_last_access e' = lm_access_counter m + 1"
    and m1: "m1 = m\<lparr>lm_heap := (lm_heap m)(a := Some e'), lm_access_counter := lm_access_counter m + 1\<rparr>"
  shows "\<exists>m2 m3. unlink_lru m1 a = Ret m2 \<and> link_mru m2 a = Ret m3 \<and> lru_abs m3 (entry_out e' # shown m (us @ vs)) \<and>
    (\<exists>f. lm_heap m3 a = Some f \<and> entry_out f = entry_out e') \<and> lm_max_entries m3 = lm_max_entries m \<and>
    lm_access_counter m3 = lm_access_counter m + 1"
proof -
  from touch_inv [OF inv e e'(1-5) _ m1] obtain m2 m3 where m3: "unlink_lru m1 a = Ret m2" "link_mru m2 a = Ret m3"
    "lru_inv m3 bs (a # us @ vs)" "only_lru m1 m3" by auto
  have p: "plain_at m3 x = plain_at m1 x" for x by (rule only_lru_plain [OF m3(4)])
  have a: "a \<notin> set (us @ vs)" using lru_invD(2) [OF inv] by (auto simp: lru_list_def)
  obtain f where f: "lm_heap m3 a = Some f" using lru_invD(8) [OF m3(3), of a] by auto
  have "entry_out f = entry_out e'" using plain_eqD(3) [of f e'] p [of a] f by (simp add: plain_at_def m1)
  moreover have "shown m3 (us @ vs) = shown m (us @ vs)"
  proof (rule shown_plain)
    show "lm_heap m x \<noteq> None" if "x \<in> set (us @ vs)" for x using lru_invD(8) [OF inv, of x] that by auto
    show "plain_at m3 x = plain_at m x" if "x \<in> set (us @ vs)" for x using p [of x] that a by (auto simp: plain_at_def m1)
  qed
  ultimately have "lru_abs m3 (entry_out e' # shown m (us @ vs))"
    using f by (intro lru_absI [OF m3(3)]) (simp add: shown_def)
  with m3 f \<open>entry_out f = entry_out e'\<close> show ?thesis by (auto simp: only_lru_def m1)
qed

lemma store_refines:
  assumes abs: "lru_abs m l" and key: "no_nul key" and category: "category \<noteq> Some (HU_MEMORY_CATEGORY_CUSTOM None)"
    and counter: "lm_access_counter m + 1 < 2 ^ 64"
  shows "\<exists>m'. impl_store now m key content category session_id = Ret m' \<and>
    lru_abs m' (spec_store (lm_max_entries m) now key content category session_id l) \<and>
    lm_max_entries m' = lm_max_entries m \<and> lm_access_counter m' \<le> lm_access_counter m + 1"
proof -
  obtain bs xs where inv: "lru_inv m bs xs" and l: "l = shown m xs" using abs by (rule lru_absE)
  have next_acc: "next_access m = lm_access_counter m + 1" "\<And>h. next_access (m\<lparr>lm_heap := h\<rparr>) = lm_access_counter m + 1"
    using counter by (simp_all add: next_access_def)
  from find_entry_inv [OF inv, of key] show ?thesis
  proof (elim disjE conjE exE)
    assume none: "find_entry m key = Ret None" "\<forall>a \<in> set xs. key_at m a \<noteq> key"
    show ?thesis
    proof (cases "lm_max_entries m = 0")
      case True
      then have "xs = []" using lru_invD(3,4) [OF inv] by simp
      then have "spec_store (lm_max_entries m) now key content category session_id l = l" using True l by (simp add: spec_store_def shown_def)
      with True none abs show ?thesis by (simp add: impl_store_def)
    next
      case False
      let ?ys = "take (lm_max_entries m - 1) xs"
      from evict_loop_inv [OF inv] False obtain m1 bs1 where m1: "evict_loop (lm_count m + 1) m = Ret m1" "lru_inv m1 bs1 ?ys"
        "\<forall>x \<in> set ?ys. plain_at m1 x = plain_at m x" "lm_max_entries m1 = lm_max_entries m" "lm_access_counter m1 = lm_access_counter m"
        by blast
      have live: "lm_heap m x \<noteq> None" if "x \<in> set ?ys" for x using lru_invD(8) [OF inv, of x] in_set_takeD [OF that] by blast
      have keys: "\<forall>x \<in> set ?ys. key_at m1 x \<noteq> key"
      proof
        fix x assume x: "x \<in> set ?ys"
        then have "key_at m1 x = key_at m x" using plain_at_key(2) [OF _ live [OF x]] m1(3) by blast
        with none(2) in_set_takeD [OF x] show "key_at m1 x \<noteq> key" by simp
      qed
      have "length ?ys < lm_max_entries m1" using False m1(4) by simp
      from insert_new_inv [OF m1(2) this key keys category, of now content session_id] counter m1(5)
      obtain m' bs' where m': "insert_new now m1 key content category session_id = Ret m'" "lru_inv m' bs' (lm_fresh m1 # ?ys)"
        "\<forall>x \<in> set ?ys. plain_at m' x = plain_at m1 x"
        "entry_out (the (lm_heap m' (lm_fresh m1))) = new_entry now key content category session_id"
        "lm_max_entries m' = lm_max_entries m1" "lm_access_counter m' = lm_access_counter m1 + 1"
        unfolding new_entry_def [symmetric] by auto
      have "shown m' ?ys = shown m ?ys" using m1(3) m'(3) live by (intro shown_plain) auto
      moreover have "shown m ?ys = take (lm_max_entries m - 1) l" by (simp add: l shown_def take_map)
      ultimately have "shown m' (lm_fresh m1 # ?ys) = spec_store (lm_max_entries m) now key content category session_id l"
        using m'(4) False others_shown [OF none(2)] l by (cases "lm_max_entries m") (simp_all add: spec_store_def)
      with m'(2) have "lru_abs m' (spec_store (lm_max_entries m) now key content category session_id l)" by (rule lru_absI)
      then show ?thesis using none(1) False m1 m' by (simp add: impl_store_def)
    qed
  next
    fix us a vs
    assume found: "find_entry m key = Ret (Some a)" "xs = us @ a # vs" "key_at m a = key" "\<forall>x \<in> set (us @ vs). key_at m x \<noteq> key"
    obtain e where e: "lm_heap m a = Some e" using lru_invD(8) [OF inv, of a] found(2) by auto
    let ?e0 = "e\<lparr>le_content := hu_strndup content (length content), le_updated_at := now_timestamp now\<rparr>"
    obtain s where s: "set_category (name_freed e) category ?e0 = Ret (?e0\<lparr>le_category := stored_category category, le_stale_name := s\<rparr>)"
      using set_category_Ret [OF category] by blast
    let ?e = "?e0\<lparr>le_category := stored_category category, le_stale_name := s, le_session_id := dup_session session_id,
      le_last_access := lm_access_counter m + 1\<rparr>"
    from touch_shown [OF inv [unfolded found(2)] e, of ?e, OF _ _ _ _ _ refl] obtain m2 m3 where
      m3: "unlink_lru (m\<lparr>lm_heap := (lm_heap m)(a := Some ?e), lm_access_counter := lm_access_counter m + 1\<rparr>) a = Ret m2"
        "link_mru m2 a = Ret m3" "lru_abs m3 (entry_out ?e # shown m (us @ vs))" "lm_max_entries m3 = lm_max_entries m"
        "lm_access_counter m3 = lm_access_counter m + 1" by auto
    have "impl_store now m key content category session_id = Ret m3"
      using found(1) s m3(1,2) e next_acc by (simp add: impl_store_def update_existing_def entry_at_def modify_at_def)
    moreover have "le_key e = key" using found(3) e by (simp add: key_at_def)
    then have "entry_out ?e = new_entry now key content category session_id"
      by (simp add: entry_out_def new_entry_def hu_strndup_def)
    moreover have "length (shown m (us @ vs)) < lm_max_entries m" using lru_invD(3,4) [OF inv] found(2) by (simp add: shown_def)
    then have "take (lm_max_entries m) (x # shown m (us @ vs)) = x # shown m (us @ vs)" for x by simp
    ultimately show ?thesis
      using m3 others_split(1) [OF found(3,4)] unfolding l found(2) spec_store_def by auto
  qed
qed

lemma get_refines:
  assumes abs: "lru_abs m l" and counter: "lm_access_counter m + 1 < 2 ^ 64"
  shows "\<exists>m'. impl_get m key = Ret (m', snd (spec_get key l)) \<and> lru_abs m' (fst (spec_get key l)) \<and>
    lm_max_entries m' = lm_max_entries m \<and> lm_access_counter m' \<le> lm_access_counter m + 1"
proof -
  obtain bs xs where inv: "lru_inv m bs xs" and l: "l = shown m xs" using abs by (rule lru_absE)
  have next_acc: "next_access m = lm_access_counter m + 1" "\<And>h. next_access (m\<lparr>lm_heap := h\<rparr>) = lm_access_counter m + 1"
    using counter by (simp_all add: next_access_def)
  from find_entry_inv [OF inv, of key] show ?thesis
  proof (elim disjE conjE exE)
    assume none: "find_entry m key = Ret None" "\<forall>a \<in> set xs. key_at m a \<noteq> key"
    with abs find_shown [OF none(2)] show ?thesis by (simp add: impl_get_def spec_get_def l)
  next
    fix us a vs
    assume found: "find_entry m key = Ret (Some a)" "xs = us @ a # vs" "key_at m a = key" "\<forall>x \<in> set (us @ vs). key_at m x \<noteq> key"
    obtain e where e: "lm_heap m a = Some e" using lru_invD(8) [OF inv, of a] found(2) by auto
    let ?e = "e\<lparr>le_last_access := lm_access_counter m + 1\<rparr>"
    from touch_shown [OF inv [unfolded found(2)] e, of ?e, OF _ _ _ _ _ refl] obtain m2 m3 f where
      m3: "unlink_lru (m\<lparr>lm_heap := (lm_heap m)(a := Some ?e), lm_access_counter := lm_access_counter m + 1\<rparr>) a = Ret m2"
        "link_mru m2 a = Ret m3" "lru_abs m3 (entry_out ?e # shown m (us @ vs))" "lm_max_entries m3 = lm_max_entries m"
        "lm_access_counter m3 = lm_access_counter m + 1" "lm_heap m3 a = Some f" "entry_out f = entry_out ?e" by auto
    have out: "entry_out ?e = entry_out e" by (simp add: entry_out_def)
    have "impl_get m key = Ret (m3, Some (entry_out e))"
      using found(1) m3 e next_acc out by (simp add: impl_get_def entry_at_def modify_at_def)
    then show ?thesis
      using m3 out others_split [OF found(3,4)] e unfolding l found(2) spec_get_def by auto
  qed
qed

lemma forget_refines:
  assumes abs: "lru_abs m l"
  shows "\<exists>m'. impl_forget m key = Ret (m', snd (spec_forget key l)) \<and> lru_abs m' (fst (spec_forget key l)) \<and>
    lm_max_entries m' = lm_max_entries m \<and> lm_access_counter m' = lm_access_counter m"
proof -
  obtain bs xs where inv: "lru_inv m bs xs" and l: "l = shown m xs" using abs by (rule lru_absE)
  from find_entry_inv [OF inv, of key] show ?thesis
  proof (elim disjE conjE exE)
    assume none: "find_entry m key = Ret None" "\<forall>a \<in> set xs. key_at m a \<noteq> key"
    moreover have "\<not> list_ex (\<lambda>x. me_key x = key) l" using find_shown [OF none(2)] unfolding l find_None_iff list_ex_iff by blast
    ultimately show ?thesis using abs others_shown [OF none(2)] by (simp add: impl_forget_def spec_forget_def l)
  next
    fix us a vs
    assume found: "find_entry m key = Ret (Some a)" "xs = us @ a # vs" "key_at m a = key" "\<forall>x \<in> set (us @ vs). key_at m x \<noteq> key"
    from remove_entry_inv [OF inv [unfolded found(2)]] obtain m' bs' where m': "remove_entry (hash_key key) m a = Ret m'"
      "lru_inv m' bs' (us @ vs)" "\<forall>x \<in> set (us @ vs). plain_at m' x = plain_at m x" "lm_max_entries m' = lm_max_entries m"
      "lm_access_counter m' = lm_access_counter m" unfolding found(3) by blast
    have live: "lm_heap m x \<noteq> None" if "x \<in> set (us @ vs)" for x using lru_invD(8) [OF inv, of x] that found(2) by auto
    have "shown m' (us @ vs) = shown m (us @ vs)" using m'(3) live by (intro shown_plain) auto
    with m'(2) have "lru_abs m' (shown m (us @ vs))" by (rule lru_absI)
    moreover have "impl_forget m key = obind (remove_entry (hash_key key) m a) (\<lambda>m. Ret (m, True))"
      using found(1) by (simp add: impl_forget_def remove_entry_def obind_assoc)
    moreover have "list_ex (\<lambda>x. me_key x = key) l" using found(3) unfolding l found(2) by (simp add: shown_def key_at_def)
    ultimately show ?thesis
      using m' others_split(1) [OF found(3,4)] unfolding l found(2) spec_forget_def by auto
  qed
qed

section \<open>Listing and recalling\<close>

lemma contains_substring_iff: "contains_substring h n \<longleftrightarrow> sublist n h"
proof
  assume c: "contains_substring h n"
  show "sublist n h"
  proof (cases "n = []")
    case False
    with c have "\<exists>i \<in> set [0..<length h - length n + 1]. take (length n) (drop i h) = n"
      unfolding contains_substring_def list_ex_iff by (simp only: if_False split: if_splits)
    then obtain i where "take (length n) (drop i h) = n" by blast
    then have "h = take i h @ n @ drop (length n) (drop i h)" by (metis append_take_drop_id)
    then show ?thesis by (metis sublist_appendI)
  qed simp
next
  assume "sublist n h"
  then obtain ps ss where h: "h = ps @ n @ ss" by (auto simp: sublist_def)
  then have "take (length n) (drop (length ps) h) = n" "length ps < length h - length n + 1" by simp_all
  then show "contains_substring h n"
    unfolding contains_substring_def list_ex_iff by (auto simp: h intro!: bexI [of _ "length ps"])
qed

lemma session_matches_out: "session_matches session_id e = in_session session_id (entry_out e)"
  by (auto simp: session_matches_def in_session_def entry_out_def split: option.split)

lemma entry_matches_out: "entry_matches query session_id e = recalled query session_id (entry_out e)"
  by (simp add: entry_matches_def recalled_def session_matches_out contains_substring_iff) (simp add: entry_out_def)

lemma list_matches_out:
  "(category_matches category (le_category e) \<and> session_matches session_id e) = listed category session_id (entry_out e)"
  by (simp add: listed_def session_matches_out) (simp add: entry_out_def)

lemma list_refines:
  assumes "lru_abs m l"
  shows "impl_list m category session_id = Ret (filter (listed category session_id) l)"
proof -
  obtain bs xs where inv: "lru_inv m bs xs" and l: "l = shown m xs" using assms by (rule lru_absE)
  have "dseg (lm_heap m) None xs None" "lm_lru_head m = first_of xs None" using lru_invD(2) [OF inv] by (simp_all add: lru_list_def)
  with list_loop_eq [OF _ lru_inv_length [OF inv]] show ?thesis
    unfolding impl_list_def list_matches_out l shown_def by (simp add: filter_map o_def)
qed

text \<open>The scan over the buckets finds every entry once.\<close>

lemma bucket_matches_eq:
  "length bs = length ps \<Longrightarrow> (\<And>b. b < length ps \<Longrightarrow> hchain (lm_heap m) (ps ! b) (bs ! b) \<and> length (bs ! b) < chain_fuel m) \<Longrightarrow>
   bucket_matches m sel ps = Ret (filter sel (map (\<lambda>a. the (lm_heap m a)) (concat bs)))"
proof (induction ps arbitrary: bs)
  case (Cons p ps)
  then obtain b bs' where bs: "bs = b # bs'" by (cases bs) auto
  have "chain_matches (chain_fuel m) m sel p = Ret (filter sel (map (\<lambda>a. the (lm_heap m a)) b))"
    using Cons.prems(2) [of 0] by (intro chain_matches_eq) (auto simp: bs)
  moreover have "bucket_matches m sel ps = Ret (filter sel (map (\<lambda>a. the (lm_heap m a)) (concat bs')))"
  proof (rule Cons.IH)
    show "length bs' = length ps" using Cons.prems(1) bs by simp
    show "hchain (lm_heap m) (ps ! i) (bs' ! i) \<and> length (bs' ! i) < chain_fuel m" if "i < length ps" for i
      using Cons.prems(2) [of "Suc i"] that by (simp add: bs)
  qed
  ultimately show ?case by (simp add: bs)
qed simp

lemma distinct_concat_keyed:
  assumes "\<And>i. i < n \<Longrightarrow> distinct (f i)" "\<And>i a. i < n \<Longrightarrow> a \<in> set (f i) \<Longrightarrow> h a = i"
  shows "distinct (concat (map f [0..<n]))"
  using assms
proof (induction n)
  case (Suc n)
  have "a \<notin> set (f n)" if "a \<in> set (concat (map f [0..<n]))" for a
  proof -
    from that obtain i where i: "i < n" "a \<in> set (f i)" by auto
    with Suc.prems(2) [of i a] Suc.prems(2) [of n a] show ?thesis by auto
  qed
  then show ?case using Suc by auto
qed simp

lemma concat_buckets:
  assumes inv: "lru_inv m bs xs"
  shows "mset (concat bs) = mset xs"
proof -
  have len: "length bs = HU_LRU_BUCKETS" using lru_invD(1) [OF inv] by (simp add: buckets_ok_def)
  have c: "concat bs = concat (map (\<lambda>b. bs ! b) [0..<HU_LRU_BUCKETS])" using len map_nth [of bs] by simp
  have "distinct (concat bs)"
    unfolding c using buckets_okD(2,3) [OF lru_invD(1) [OF inv]] by (intro distinct_concat_keyed [where h = "\<lambda>a. hash_key (key_at m a)"])
  moreover have "distinct xs" using lru_invD(2) [OF inv] by (simp add: lru_list_def)
  moreover have "set (concat bs) = set xs"
  proof
    show "set (concat bs) \<subseteq> set xs" unfolding c using subsetD [OF lru_inv_chain(1) [OF inv]] by auto
    show "set xs \<subseteq> set (concat bs)"
    proof
      fix a assume "a \<in> set xs"
      then have "a \<in> set (bs ! hash_key (key_at m a))" by (rule lru_invD(7) [OF inv])
      moreover have "bs ! hash_key (key_at m a) \<in> set bs" using len by simp
      ultimately show "a \<in> set (concat bs)" by (auto simp del: hash_key_less)
    qed
  qed
  ultimately show ?thesis using set_eq_iff_mset_eq_distinct by blast
qed

text \<open>The sort puts the entries in the order of their last use.\<close>

lemma swap_pass_props:
  "swap_pass x ys = (z, zs) \<Longrightarrow> mset (z # zs) = mset (x # ys) \<and> (\<forall>w \<in> set zs. le_last_access w \<le> le_last_access z) \<and> le_last_access x \<le> le_last_access z"
proof (induction ys arbitrary: x z zs)
  case (Cons y ys)
  show ?case
  proof (cases "le_last_access y > le_last_access x")
    case True
    obtain zs' where r: "swap_pass y ys = (z, zs')" "zs = x # zs'" using Cons.prems True by (auto split: prod.splits)
    from Cons.IH [OF r(1)] True r(2) show ?thesis by auto
  next
    case False
    obtain zs' where r: "swap_pass x ys = (z, zs')" "zs = y # zs'" using Cons.prems False by (auto split: prod.splits)
    from Cons.IH [OF r(1)] False r(2) show ?thesis by auto
  qed
qed simp

lemma sort_recent_props: "mset (sort_recent xs) = mset xs \<and> sorted_wrt (\<lambda>a b. le_last_access a \<ge> le_last_access b) (sort_recent xs)"
proof (induction xs rule: sort_recent.induct)
  case (2 x xs)
  obtain z zs where s: "swap_pass x xs = (z, zs)" by fastforce
  have ih: "mset (sort_recent zs) = mset zs" "sorted_wrt (\<lambda>a b. le_last_access a \<ge> le_last_access b) (sort_recent zs)"
    using 2 [OF s [symmetric] refl] by simp_all
  from ih(1) have "set (sort_recent zs) = set zs" by (rule mset_eq_setD)
  with swap_pass_props [OF s] ih show ?case by (simp add: s)
qed simp

lemma sorted_unique:
  fixes f :: "'a \<Rightarrow> nat"
  shows "sorted_wrt (\<lambda>a b. f a > f b) xs \<Longrightarrow> sorted_wrt (\<lambda>a b. f a \<ge> f b) ys \<Longrightarrow> mset xs = mset ys \<Longrightarrow> xs = ys"
proof (induction xs arbitrary: ys)
  case (Cons x xs)
  then obtain y ys' where ys: "ys = y # ys'" by (cases ys) auto
  have sets: "set (x # xs) = set (y # ys')" using mset_eq_setD [OF Cons.prems(3)] by (simp add: ys)
  then have "y = x \<or> f x > f y" "x = y \<or> f y \<ge> f x" using Cons.prems(1,2) by (auto simp: ys)
  then have "y = x" by auto
  with Cons show ?case by (auto simp: ys)
qed simp

lemma recall_refines:
  assumes "lru_abs m l"
  shows "impl_recall m query limit session_id = Ret (take limit (filter (recalled query session_id) l))"
proof -
  obtain bs xs where inv: "lru_inv m bs xs" and l: "l = shown m xs" using assms by (rule lru_absE)
  let ?e = "\<lambda>a. the (lm_heap m a)" and ?p = "entry_matches query session_id"
  have ok: "buckets_ok m bs" by (rule lru_invD(1) [OF inv])
  then have b: "bucket_matches m ?p (lm_buckets m) = Ret (filter ?p (map ?e (concat bs)))"
    using buckets_okD(1) [OF ok] lru_inv_chain(2) [OF inv] by (intro bucket_matches_eq) (auto simp: buckets_ok_def)
  have "sorted_wrt (\<lambda>a b. le_last_access (?e a) > le_last_access (?e b)) xs"
    using lru_invD(6) [OF inv] by (simp add: recency_ok_def access_at_def)
  then have "sorted_wrt (\<lambda>a b. le_last_access a > le_last_access b) (filter ?p (map ?e xs))"
    by (intro sorted_wrt_filter) (simp add: sorted_wrt_map)
  moreover have "mset (filter ?p (map ?e xs)) = mset (filter ?p (map ?e (concat bs)))"
    using concat_buckets [OF inv] by (simp only: mset_filter mset_map)
  ultimately have "filter ?p (map ?e xs) = sort_recent (filter ?p (map ?e (concat bs)))"
    using sort_recent_props [of "filter ?p (map ?e (concat bs))"] by (intro sorted_unique [where f = le_last_access]) auto
  then have "impl_recall m query limit session_id = Ret (map entry_out (take limit (filter ?p (map ?e xs))))"
    using b by (simp add: impl_recall_def)
  moreover have "map entry_out (filter ?p ys) = filter (recalled query session_id) (map entry_out ys)" for ys
    by (induction ys) (simp_all add: entry_matches_out)
  ultimately show ?thesis by (simp add: l shown_def o_def flip: take_map)
qed

end
