(* ===== verification/HuContract.thy ===== *)
theory HuContract
  imports HuPrelude
begin

text \<open>
  What a component with state owes those who call it.  A call and its answer are data; \<open>run_calls\<close> makes a sequence
  of calls of the code's model, \<open>run_spec\<close> the same calls of a specification.  \<open>call_contract\<close> is the law of an
  interface: every call ends without undefined behaviour and answers as the specification does.
\<close>

section \<open>Runs\<close>

fun run_calls :: "('c \<Rightarrow> 's \<Rightarrow> ('s \<times> 'a) outcome) \<Rightarrow> 'c list \<Rightarrow> 's \<Rightarrow> ('s \<times> 'a list) outcome" where
  "run_calls call [] s = Ret (s, [])"
| "run_calls call (c # cs) s =
     obind (call c s) (\<lambda>(s, a). obind (run_calls call cs s) (\<lambda>(s, as). Ret (s, a # as)))"

fun run_spec :: "('c \<Rightarrow> 'l \<Rightarrow> 'l \<times> 'a) \<Rightarrow> 'c list \<Rightarrow> 'l \<Rightarrow> 'l \<times> 'a list" where
  "run_spec spec [] l = (l, [])"
| "run_spec spec (c # cs) l =
     (let (l, a) = spec c l; (l, as) = run_spec spec cs l in (l, a # as))"

lemma run_spec_append:
  "fst (run_spec spec (xs @ ys) l) = fst (run_spec spec ys (fst (run_spec spec xs l))) \<and>
   snd (run_spec spec (xs @ ys) l) = snd (run_spec spec xs l) @ snd (run_spec spec ys (fst (run_spec spec xs l)))"
  by (induction xs arbitrary: l) (simp_all add: case_prod_unfold Let_def)

lemma run_spec_invariant:
  assumes "P l" and "\<And>c l. c \<in> set cs \<Longrightarrow> P l \<Longrightarrow> P (fst (spec c l))"
  shows "P (fst (run_spec spec cs l))"
  using assms by (induction cs arbitrary: l) (simp_all add: case_prod_unfold Let_def)

section \<open>Contracts\<close>

text \<open>\<open>rel n s l\<close>: the state \<open>s\<close> stands for \<open>l\<close> and is good for \<open>n\<close> more calls.\<close>

locale call_contract =
  fixes call :: "'c \<Rightarrow> 's \<Rightarrow> ('s \<times> 'a) outcome"
    and spec :: "'c \<Rightarrow> 'l \<Rightarrow> 'l \<times> 'a"
    and ok :: "'c \<Rightarrow> bool"
    and rel :: "nat \<Rightarrow> 's \<Rightarrow> 'l \<Rightarrow> bool"
  assumes simulates: "rel (Suc n) s l \<Longrightarrow> ok c \<Longrightarrow> \<exists>s'. call c s = Ret (s', snd (spec c l)) \<and> rel n s' (fst (spec c l))"
begin

lemma run_simulates:
  "rel (length cs + n) s l \<Longrightarrow> list_all ok cs \<Longrightarrow>
   \<exists>s'. run_calls call cs s = Ret (s', snd (run_spec spec cs l)) \<and> rel n s' (fst (run_spec spec cs l))"
proof (induction cs arbitrary: s l)
  case (Cons c cs)
  then obtain s' where s': "call c s = Ret (s', snd (spec c l))" "rel (length cs + n) s' (fst (spec c l))"
    using simulates [of "length cs + n" s l c] by auto
  from Cons.IH [OF s'(2)] Cons.prems(2) s'(1) show ?case by (auto split: prod.split)
qed simp

end

text \<open>Where the number of calls does not matter.\<close>

locale lasting_contract =
  fixes call :: "'c \<Rightarrow> 's \<Rightarrow> ('s \<times> 'a) outcome"
    and spec :: "'c \<Rightarrow> 'l \<Rightarrow> 'l \<times> 'a"
    and ok :: "'c \<Rightarrow> bool"
    and rel :: "'s \<Rightarrow> 'l \<Rightarrow> bool"
  assumes simulates_always: "rel s l \<Longrightarrow> ok c \<Longrightarrow> \<exists>s'. call c s = Ret (s', snd (spec c l)) \<and> rel s' (fst (spec c l))"

sublocale lasting_contract \<subseteq> call_contract call spec ok "\<lambda>_. rel"
  by unfold_locales (rule simulates_always)

context lasting_contract
begin

lemma run_lasts:
  assumes "rel s l" "list_all ok cs"
  obtains s' where "run_calls call cs s = Ret (s', snd (run_spec spec cs l))" "rel s' (fst (run_spec spec cs l))"
  using run_simulates [of s l cs] assms by auto

end

end
