(* ===== verification/HuMemory.thy ===== *)
theory HuMemory
  imports HuMemLruSpec HuContract
begin

text \<open>
  The memory interface of \<^verbatim>\<open>src/include/human/memory.h\<close>: a user of a store calls it through a table of functions.
  A call and its answer are data here.  The LRU store is shown to keep the contract of \<open>call_contract\<close>: every call
  ends and answers as its specification does.
\<close>

section \<open>Calls and answers\<close>

datatype memory_call =
    Store int string string "mem_category option" "string option"
  | Recall string nat "string option"
  | Get string
  | ListEntries "mem_category option" "string option"
  | Forget string
  | Count

datatype memory_answer = Done | Entries "memory_entry list" | Found "memory_entry option" | Deleted bool | Number nat

text \<open>A call through the function table of \<^verbatim>\<open>memory_lru.c\<close>.\<close>

definition lru_vtable :: "memory_call \<Rightarrow> lru_memory \<Rightarrow> (lru_memory \<times> memory_answer) outcome" where
  "lru_vtable c m =
     (case c of
        Store now key content category session_id \<Rightarrow>
          obind (impl_store now m key content category session_id) (\<lambda>m. Ret (m, Done))
      | Recall query limit session_id \<Rightarrow> obind (impl_recall m query limit session_id) (\<lambda>es. Ret (m, Entries es))
      | Get key \<Rightarrow> obind (impl_get m key) (\<lambda>(m, e). Ret (m, Found e))
      | ListEntries category session_id \<Rightarrow> obind (impl_list m category session_id) (\<lambda>es. Ret (m, Entries es))
      | Forget key \<Rightarrow> obind (impl_forget m key) (\<lambda>(m, b). Ret (m, Deleted b))
      | Count \<Rightarrow> Ret (m, Number (impl_count m)))"

definition spec_call :: "nat \<Rightarrow> memory_call \<Rightarrow> memory_entry list \<Rightarrow> memory_entry list \<times> memory_answer" where
  "spec_call cap c l =
     (case c of
        Store now key content category session_id \<Rightarrow> (spec_store cap now key content category session_id l, Done)
      | Recall query limit session_id \<Rightarrow> (l, Entries (take limit (filter (recalled query session_id) l)))
      | Get key \<Rightarrow> (fst (spec_get key l), Found (snd (spec_get key l)))
      | ListEntries category session_id \<Rightarrow> (l, Entries (filter (listed category session_id) l))
      | Forget key \<Rightarrow> (fst (spec_forget key l), Deleted (snd (spec_forget key l)))
      | Count \<Rightarrow> (l, Number (length l)))"

text \<open>Keys of stored entries have no NUL byte in them, and custom categories have names.\<close>

definition call_ok :: "memory_call \<Rightarrow> bool" where
  "call_ok c =
     (case c of
        Store now key content category session_id \<Rightarrow> no_nul key \<and> category \<noteq> Some (HU_MEMORY_CATEGORY_CUSTOM None)
      | _ \<Rightarrow> True)"

section \<open>The LRU store keeps the contract\<close>

definition lru_rel :: "nat \<Rightarrow> nat \<Rightarrow> lru_memory \<Rightarrow> memory_entry list \<Rightarrow> bool" where
  "lru_rel cap n m l \<longleftrightarrow> lru_abs m l \<and> lm_max_entries m = cap \<and> lm_access_counter m + n < 2 ^ 64"

lemma lru_simulates:
  assumes rel: "lru_rel cap (Suc n) m l" and ok: "call_ok c"
  shows "\<exists>m'. lru_vtable c m = Ret (m', snd (spec_call cap c l)) \<and> lru_rel cap n m' (fst (spec_call cap c l))"
proof -
  have abs: "lru_abs m l" and cap: "lm_max_entries m = cap" and counter: "lm_access_counter m + 1 < 2 ^ 64"
    using rel by (simp_all add: lru_rel_def)
  have next_rel: "lru_rel cap n m' l'" if "lru_abs m' l'" "lm_max_entries m' = lm_max_entries m" "lm_access_counter m' \<le> lm_access_counter m + 1" for m' l'
    using rel that by (simp add: lru_rel_def)
  show ?thesis
  proof (cases c)
    case (Store now key content category session_id)
    with ok have "no_nul key" "category \<noteq> Some (HU_MEMORY_CATEGORY_CUSTOM None)" by (simp_all add: call_ok_def)
    from store_refines [OF abs this counter, of now content session_id] next_rel show ?thesis
      by (auto simp: Store lru_vtable_def spec_call_def cap)
  next
    case (Recall query limit session_id)
    then show ?thesis using recall_refines [OF abs] next_rel [OF abs] by (simp add: lru_vtable_def spec_call_def)
  next
    case (Get key)
    from get_refines [OF abs counter, of key] next_rel show ?thesis by (auto simp: Get lru_vtable_def spec_call_def)
  next
    case (ListEntries category session_id)
    then show ?thesis using list_refines [OF abs] next_rel [OF abs] by (simp add: lru_vtable_def spec_call_def)
  next
    case (Forget key)
    from forget_refines [OF abs, of key] next_rel show ?thesis by (auto simp: Forget lru_vtable_def spec_call_def)
  next
    case Count
    then show ?thesis using lru_abs_length [OF abs] next_rel [OF abs] by (simp add: lru_vtable_def spec_call_def impl_count_def)
  qed
qed

interpretation lru: call_contract lru_vtable "spec_call cap" call_ok "lru_rel cap" for cap
  by unfold_locales (rule lru_simulates)

lemma lru_create_abs: "lru_abs (hu_memory_lru_create cap) []"
proof (rule lru_absI)
  show "lru_inv (hu_memory_lru_create cap) (replicate HU_LRU_BUCKETS []) []"
    by (intro lru_invI) (auto simp: hu_memory_lru_create_def buckets_ok_def lru_list_def recency_ok_def)
qed (simp add: shown_def)

lemma lru_create_rel: "n < 2 ^ 64 \<Longrightarrow> lru_rel cap n (hu_memory_lru_create cap) []"
  using lru_create_abs by (simp add: lru_rel_def hu_memory_lru_create_def)

text \<open>Everything the store does, for any sequence of calls from its creation on.\<close>

lemma lru_run:
  assumes "list_all call_ok cs" "length cs < 2 ^ 64"
  shows "\<exists>m. run_calls lru_vtable cs (hu_memory_lru_create cap) = Ret (m, snd (run_spec (spec_call cap) cs [])) \<and>
    lru_abs m (fst (run_spec (spec_call cap) cs []))"
  using lru.run_simulates [of cap cs 0, OF lru_create_rel] assms by (auto simp: lru_rel_def)

lemma lru_close: "lru_abs m l \<Longrightarrow> impl_deinit m = Ret (\<lambda>_. None)"
  by (elim lru_absE) (rule impl_deinit_empty)

text \<open>
  C15: a run of fewer than 2 ^ 64 calls of the store from its creation on, in which no stored key has a NUL byte in it
  and no stored category is a custom one without a name, ends without undefined behaviour and gives the answers of a
  list of entries in the order of their last use, where storing puts an entry in front and drops what is over the
  limit; closing it then frees every entry.  (Without the condition on categories it does not end well:
  \<open>lru_unnamed_category\<close>; without that on keys it does not answer so: \<open>lru_key_with_nul\<close>.)
\<close>

theorem lru_refines:
  assumes "list_all call_ok cs" and "length cs < 2 ^ 64"
  shows "\<exists>m. run_calls lru_vtable cs (hu_memory_lru_create cap) = Ret (m, snd (run_spec (spec_call cap) cs [])) \<and>
    impl_deinit m = Ret (\<lambda>_. None)"
  using lru_run [OF assms, of cap] lru_close by blast

definition sample_calls :: "memory_call list" where
  "sample_calls =
     [Store 1 ''a'' ''apple'' None None, Store 2 ''b'' ''pear'' (Some HU_MEMORY_CATEGORY_DAILY) (Some ''s''), Get ''a'',
      Store 3 ''c'' ''fig'' None None, Get ''b'', Recall ''p'' 5 None, Count]"

lemma lru_refines_witness:
  "\<exists>m. run_calls lru_vtable sample_calls (hu_memory_lru_create 2) = Ret (m, snd (run_spec (spec_call 2) sample_calls [])) \<and>
     impl_deinit m = Ret (\<lambda>_. None)"
  by (rule lru_refines) (simp_all add: sample_calls_def call_ok_def)

lemma sample_answers:
  "snd (run_spec (spec_call 2) sample_calls []) =
     [Done, Done, Found (Some (new_entry 1 ''a'' ''apple'' None None)), Done, Found None,
      Entries [new_entry 1 ''a'' ''apple'' None None], Number 2]"
  by code_simp

text \<open>
  C17: after a run as in the property of refinement (fewer than 2 ^ 64 calls, no NUL byte in a stored key, no custom
  category without a name), recalling, which scans the buckets and sorts what matches, gives the first \<open>limit\<close> entries
  of the session, in the order of their last use, whose key or content has the query as a part.
\<close>

theorem lru_recall_exact:
  assumes "list_all call_ok cs" and "length cs < 2 ^ 64"
  shows "\<exists>m l. run_calls lru_vtable cs (hu_memory_lru_create cap) = Ret (m, snd (run_spec (spec_call cap) cs [])) \<and>
    impl_list m None None = Ret l \<and>
    impl_recall m query limit session_id = Ret (take limit (filter (recalled query session_id) l))"
proof -
  obtain m where m: "run_calls lru_vtable cs (hu_memory_lru_create cap) = Ret (m, snd (run_spec (spec_call cap) cs []))"
      "lru_abs m (fst (run_spec (spec_call cap) cs []))" using lru_run [OF assms, of cap] by blast
  moreover have "filter (listed None None) l = l" for l by (simp add: listed_def in_session_def category_matches_def)
  ultimately show ?thesis using list_refines [OF m(2), of None None] recall_refines [OF m(2)] by simp
qed

lemma lru_recall_exact_witness:
  "\<exists>m l. run_calls lru_vtable sample_calls (hu_memory_lru_create 2) = Ret (m, snd (run_spec (spec_call 2) sample_calls [])) \<and>
    impl_list m None None = Ret l \<and> impl_recall m ''p'' 5 None = Ret (take 5 (filter (recalled ''p'' None) l))"
  by (rule lru_recall_exact) (simp_all add: sample_calls_def call_ok_def)

section \<open>What stays in the store\<close>

text \<open>The keys a call uses, and the calls that take a key's entry away.\<close>

definition used_keys :: "memory_call \<Rightarrow> string set" where
  "used_keys c = (case c of Store now key content category session_id \<Rightarrow> {key} | Get key \<Rightarrow> {key} | _ \<Rightarrow> {})"

definition leaves_key :: "string \<Rightarrow> memory_call \<Rightarrow> bool" where
  "leaves_key key c = (case c of Store now k content category session_id \<Rightarrow> k \<noteq> key | Forget k \<Rightarrow> k \<noteq> key | _ \<Rightarrow> True)"

text \<open>The entry is in the store, and what is in front of it was used since.\<close>

definition kept :: "string set \<Rightarrow> memory_entry \<Rightarrow> memory_entry list \<Rightarrow> bool" where
  "kept T e l \<longleftrightarrow> (\<exists>us vs. l = us @ e # vs \<and> distinct (map me_key l) \<and> me_key ` set us \<subseteq> T)"

lemma distinct_map_others: "distinct (map me_key l) \<Longrightarrow> distinct (map me_key (filter P l))"
  by (simp add: distinct_map_filter)

lemma front_length: "distinct (map me_key (us @ e # vs)) \<Longrightarrow> me_key ` set us \<subseteq> T \<Longrightarrow> finite T \<Longrightarrow> length us \<le> card (T - {me_key e})"
proof -
  assume d: "distinct (map me_key (us @ e # vs))" and s: "me_key ` set us \<subseteq> T" and f: "finite T"
  have "distinct (map me_key us)" using d by simp
  then have "length us = card (me_key ` set us)" using distinct_card [of "map me_key us"] by simp
  also have "\<dots> \<le> card (T - {me_key e})" 
  proof (rule card_mono)
    have "me_key e \<notin> me_key ` set us" using d by (simp only: map_append list.map distinct_append distinct.simps set_map) auto
    with s show "me_key ` set us \<subseteq> T - {me_key e}" by blast
  qed (simp add: f)
  finally show ?thesis .
qed

text \<open>An entry used now goes in front of the one that is kept.\<close>

lemma kept_front:
  assumes k: "kept T e l" and x: "me_key x \<noteq> me_key e" and T: "finite T" "card (insert (me_key x) T - {me_key e}) < cap"
  shows "kept (insert (me_key x) T) e (take cap (x # filter (other_than (me_key x)) l))"
proof -
  let ?f = "filter (other_than (me_key x))"
  from k obtain us vs where l: "l = us @ e # vs" "distinct (map me_key l)" "me_key ` set us \<subseteq> T" by (auto simp: kept_def)
  have eq: "x # ?f l = (x # ?f us) @ e # ?f vs" using x by (auto simp: l(1))
  have d: "distinct (map me_key (x # ?f l))" using distinct_map_others [OF l(2)] by auto
  have sub: "me_key ` set (x # ?f us) \<subseteq> insert (me_key x) T" using l(3) by auto
  have "length (x # ?f us) \<le> card (insert (me_key x) T - {me_key e})"
    using front_length [of "x # ?f us" e "?f vs"] d eq sub T(1) by simp
  with T(2) have len: "length (x # ?f us) < cap" by simp
  obtain n where n: "cap - length (x # ?f us) = Suc n" using len by (metis Suc_diff_Suc)
  have "take cap (x # ?f l) = (x # ?f us) @ e # take n (?f vs)"
    unfolding eq take_append n using len by simp
  moreover have "distinct (map me_key (take cap (x # ?f l)))" using d by (metis distinct_take take_map)
  ultimately show ?thesis unfolding kept_def using sub by blast
qed

lemma kept_mono: "kept T e l \<Longrightarrow> T \<subseteq> U \<Longrightarrow> kept U e l"
  by (auto simp: kept_def)

lemma kept_step:
  assumes k: "kept T e l" and c: "leaves_key (me_key e) c" and T: "finite T" "card (used_keys c \<union> T - {me_key e}) < cap"
    and short: "length l \<le> cap"
  shows "kept (used_keys c \<union> T) e (fst (spec_call cap c l)) \<and> length (fst (spec_call cap c l)) \<le> cap"
proof -
  from k obtain us vs where l: "l = us @ e # vs" "distinct (map me_key l)" "me_key ` set us \<subseteq> T" by (auto simp: kept_def)
  show ?thesis
  proof (cases c)
    case (Store now key content category session_id)
    have "me_key (new_entry now key content category session_id) = key" by (simp add: new_entry_def)
    then show ?thesis
      using kept_front [OF k, of "new_entry now key content category session_id" cap] c T
      by (simp add: Store spec_call_def spec_store_def leaves_key_def used_keys_def)
  next
    case (Get key)
    show ?thesis
    proof (cases "List.find (\<lambda>x. me_key x = key) l")
      case None
      then show ?thesis using kept_mono [OF k] short by (auto simp: Get spec_call_def spec_get_def)
    next
      case (Some x)
      then have x: "x \<in> set l" "me_key x = key" by (auto simp: find_Some_iff)
      let ?l = "x # filter (other_than key) l"
      have "length (filter (other_than key) l) < length l" using x by (intro length_filter_less) auto
      then have len: "length ?l \<le> cap" using short by simp
      have "kept (insert key T) e ?l"
      proof (cases "key = me_key e")
        case True
        then have "x = e" using x l(2) by (metis distinct_map inj_onD in_set_conv_decomp l(1))
        moreover have "distinct (map me_key ?l)" using distinct_map_others [OF l(2)] x(2) by auto
        ultimately show ?thesis unfolding kept_def by (intro exI [of _ "[]"] exI [of _ "filter (other_than key) l"]) simp
      next
        case False
        then show ?thesis using kept_front [OF k, of x cap] T x(2) len by (simp add: Get used_keys_def)
      qed
      with len show ?thesis using Some by (simp add: Get spec_call_def spec_get_def used_keys_def)
    qed
  next
    case (Forget key)
    have eq: "filter (other_than key) l = filter (other_than key) us @ e # filter (other_than key) vs"
      using c by (auto simp: l(1) Forget leaves_key_def)
    moreover have "me_key ` set (filter (other_than key) us) \<subseteq> T" using l(3) by auto
    ultimately have "kept T e (filter (other_than key) l)"
      unfolding kept_def using distinct_map_others [OF l(2), of "other_than key"] by blast
    then show ?thesis using order_trans [OF length_filter_le short]
      by (simp add: Forget spec_call_def spec_forget_def used_keys_def)
  qed (use k short in \<open>simp_all add: spec_call_def used_keys_def\<close>)
qed

lemma kept_run:
  assumes "kept T e l" "list_all (leaves_key (me_key e)) cs" "finite T" "card (\<Union> (used_keys ` set cs) \<union> T - {me_key e}) < cap"
    "length l \<le> cap"
  shows "kept (\<Union> (used_keys ` set cs) \<union> T) e (fst (run_spec (spec_call cap) cs l))"
  using assms
proof (induction cs arbitrary: l T)
  case (Cons c cs)
  have fin: "finite (used_keys d)" for d by (simp add: used_keys_def split: memory_call.split)
  have eq: "\<Union> (used_keys ` set (c # cs)) \<union> T = \<Union> (used_keys ` set cs) \<union> (used_keys c \<union> T)" by auto
  have "card (used_keys c \<union> T - {me_key e}) \<le> card (\<Union> (used_keys ` set cs) \<union> (used_keys c \<union> T) - {me_key e})"
    using fin Cons.prems(3) by (intro card_mono) auto
  then have "card (used_keys c \<union> T - {me_key e}) < cap" using Cons.prems(4) unfolding eq by simp
  with kept_step [OF Cons.prems(1) _ Cons.prems(3) _ Cons.prems(5), of c] Cons.prems(2)
  have s: "kept (used_keys c \<union> T) e (fst (spec_call cap c l))" "length (fst (spec_call cap c l)) \<le> cap" by simp_all
  have "kept (\<Union> (used_keys ` set cs) \<union> (used_keys c \<union> T)) e (fst (run_spec (spec_call cap) cs (fst (spec_call cap c l))))"
    using s Cons.prems(2,3,4) fin unfolding eq by (intro Cons.IH) auto
  then show ?case unfolding eq by (simp add: case_prod_unfold Let_def)
qed simp

lemma kept_found: "kept T e l \<Longrightarrow> snd (spec_get (me_key e) l) = Some e"
proof -
  assume "kept T e l"
  then obtain us vs where l: "l = us @ e # vs" "distinct (map me_key l)" by (auto simp: kept_def)
  have "List.find (\<lambda>x. me_key x = me_key e) (us @ e # vs) = Some e"
    using l by (induction us arbitrary: l) auto
  then show ?thesis by (simp add: l(1) spec_get_def)
qed

text \<open>
  C16: what was stored is found again, whatever came before, as long as it was not stored anew or forgotten and
  fewer other keys than the limit were used since.  The run has fewer than 2 ^ 64 calls, no key stored in it has a NUL
  byte in it, and no category stored in it is a custom one without a name.
\<close>

theorem lru_keeps_recent:
  assumes "list_all call_ok (ps @ Store now key content category session_id # cs @ [Get key])"
    and "length (ps @ Store now key content category session_id # cs @ [Get key]) < 2 ^ 64"
    and "list_all (leaves_key key) cs" and "card (\<Union> (used_keys ` set cs) - {key}) < cap"
  shows "\<exists>m as. run_calls lru_vtable (ps @ Store now key content category session_id # cs @ [Get key]) (hu_memory_lru_create cap) = Ret (m, as) \<and>
    last as = Found (Some (new_entry now key content category session_id))"
proof -
  let ?e = "new_entry now key content category session_id" and ?st = "Store now key content category session_id"
  let ?spec = "spec_call cap"
  have key: "me_key ?e = key" by (simp add: new_entry_def)
  define l where "l = fst (run_spec ?spec ps [])"
  obtain m where "lru_abs m l" "lm_max_entries m = cap"
    using lru.run_simulates [of cap ps 0, OF lru_create_rel] assms(1,2) by (auto simp: lru_rel_def l_def)
  then have d: "distinct (map me_key l)" by (simp add: lru_abs_distinct)
  let ?l1 = "spec_store cap now key content category session_id l"
  obtain n where n: "cap = Suc n" using assms(4) by (cases cap) auto
  have "distinct (map me_key (?e # filter (other_than key) l))" using distinct_map_others [OF d] key by auto
  then have "distinct (map me_key ?l1)" unfolding spec_store_def by (metis distinct_take take_map)
  then have "kept {} ?e ?l1" unfolding kept_def spec_store_def n
    by (intro exI [of _ "[]"] exI [of _ "take n (filter (other_than key) l)"]) simp
  moreover have "length ?l1 \<le> cap" by (simp add: spec_store_def)
  ultimately have k: "kept (\<Union> (used_keys ` set cs) \<union> {}) ?e (fst (run_spec ?spec cs ?l1))"
    using assms(3,4) key by (intro kept_run) simp_all
  have "snd (run_spec ?spec (ps @ ?st # cs @ [Get key]) []) =
      snd (run_spec ?spec ps []) @ Done # snd (run_spec ?spec cs ?l1) @ [Found (snd (spec_get key (fst (run_spec ?spec cs ?l1))))]"
    by (simp add: run_spec_append l_def spec_call_def case_prod_unfold Let_def)
  with kept_found [OF k] key have "last (snd (run_spec ?spec (ps @ ?st # cs @ [Get key]) [])) = Found (Some ?e)" by simp
  with lru_run [OF assms(1,2), of cap] show ?thesis by blast
qed

lemma lru_keeps_recent_witness:
  "\<exists>m as. run_calls lru_vtable ([Store 1 ''x'' ''old'' None None] @ Store 2 ''a'' ''apple'' None None #
      [Store 3 ''b'' ''pear'' None None, Get ''a'', Get ''b''] @ [Get ''a'']) (hu_memory_lru_create 2) = Ret (m, as) \<and>
    last as = Found (Some (new_entry 2 ''a'' ''apple'' None None))"
  by (rule lru_keeps_recent) (simp_all add: call_ok_def leaves_key_def used_keys_def insert_Diff_if)

section \<open>Keys with a NUL byte, and categories without a name\<close>

text \<open>
  A key is cut at a NUL byte when it is stored and compared in full when it is looked up: a key with a NUL byte is
  never found, whatever was stored under it.
\<close>

lemma lru_key_with_nul:
  assumes "lru_abs m l" and "\<not> no_nul key"
  shows "impl_get m key = Ret (m, None) \<and> impl_forget m key = Ret (m, False)"
proof -
  obtain bs xs where inv: "lru_inv m bs xs" using assms(1) by (rule lru_absE)
  have "find_entry m key = Ret None"
    using find_entry_inv [OF inv, of key] lru_invD(10) [OF inv] assms(2) by fastforce
  then show ?thesis by (simp add: impl_get_def impl_forget_def)
qed

lemmas lru_eval = lru_vtable_def impl_store_def find_entry_def chain_fuel_def hu_memory_lru_create_def
  insert_new_def update_existing_def set_category_def link_mru_def modify_at_def entry_at_def name_freed_def Let_def

lemma dup_k: "hu_strndup ''k'' (Suc 0) = ''k''"
  by (simp add: hu_strndup_def cstr_def)

text \<open>
  Storing over an entry of a custom category with a custom category that has no name leaves the pointer to the
  freed name in the entry.
\<close>

lemma lru_unnamed_category:
  "run_calls lru_vtable [Store 1 ''k'' ''v'' (Some (HU_MEMORY_CATEGORY_CUSTOM (Some ''notes''))) None,
     Store 2 ''k'' ''v'' (Some (HU_MEMORY_CATEGORY_CUSTOM None)) None] (hu_memory_lru_create 9) = Undef UseAfterFree"
  by (simp add: lru_eval dup_k)

end
