(* ===== verification/HuMailbox.thy ===== *)
theory HuMailbox
  imports HuContract
begin

text \<open>
  \<^verbatim>\<open>src/agent/mailbox.c\<close>: the mailboxes by which agents send messages to each other.

  Each agent that is registered has an inbox, a ring of 256 messages between a head and a tail.  The model keeps the
  ring; \<open>pending\<close> is what is in it.  A payload belongs to its message and is its value here, with the length the
  sender gave kept beside it as the code does; a sender gives the length of what it passes, and 0 with NULL.  Every call of \<^verbatim>\<open>time\<close> is an argument.  The code makes a mutex and never
  locks it, so there is nothing of it to model.
\<close>

section \<open>The state\<close>

datatype hu_msg_type =
    HU_MSG_TASK | HU_MSG_RESULT | HU_MSG_ERROR | HU_MSG_CANCEL | HU_MSG_PING | HU_MSG_PONG | HU_MSG_QUERY | HU_MSG_RESPONSE
  | HU_MSG_BROADCAST | HU_MSG_PROGRESS

datatype hu_msg_priority = HU_MSG_PRIO_LOW | HU_MSG_PRIO_NORMAL | HU_MSG_PRIO_HIGH

record hu_message =
  hm_type :: hu_msg_type
  hm_from_agent :: nat
  hm_to_agent :: nat
  hm_payload :: "string option"
  hm_payload_len :: nat
  hm_timestamp :: nat
  hm_correlation_id :: nat
  hm_priority :: hu_msg_priority
  hm_ttl_sec :: nat

record hu_inbox =
  ib_agent_id :: nat
  ib_msgs :: "hu_message list"
  ib_head :: nat
  ib_tail :: nat
  ib_registered :: bool

record hu_mailbox =
  mb_inboxes :: "hu_inbox list"

definition HU_INBOX_CAP :: nat where "HU_INBOX_CAP = 256"

fun prio_val :: "hu_msg_priority \<Rightarrow> int" where
  "prio_val HU_MSG_PRIO_LOW = 0"
| "prio_val HU_MSG_PRIO_NORMAL = 1"
| "prio_val HU_MSG_PRIO_HIGH = 2"

definition zero_message :: hu_message where
  "zero_message =
     \<lparr>hm_type = HU_MSG_TASK, hm_from_agent = 0, hm_to_agent = 0, hm_payload = None, hm_payload_len = 0, hm_timestamp = 0,
      hm_correlation_id = 0, hm_priority = HU_MSG_PRIO_LOW, hm_ttl_sec = 0\<rparr>"

definition zero_inbox :: hu_inbox where
  "zero_inbox = \<lparr>ib_agent_id = 0, ib_msgs = replicate HU_INBOX_CAP zero_message, ib_head = 0, ib_tail = 0, ib_registered = False\<rparr>"

definition hu_mailbox_create :: "nat \<Rightarrow> hu_mailbox option" where
  "hu_mailbox_create max_agents = (if max_agents = 0 then None else Some \<lparr>mb_inboxes = replicate max_agents zero_inbox\<rparr>)"

section \<open>Inboxes\<close>

text \<open>The position of the first inbox with a property, from \<open>i\<close> on.\<close>

fun first_inbox :: "(hu_inbox \<Rightarrow> bool) \<Rightarrow> nat \<Rightarrow> hu_inbox list \<Rightarrow> nat option" where
  "first_inbox P i [] = None"
| "first_inbox P i (ib # ibs) = (if P ib then Some i else first_inbox P (i + 1) ibs)"

definition find_inbox :: "hu_mailbox \<Rightarrow> nat \<Rightarrow> nat option" where
  "find_inbox m agent_id = first_inbox (\<lambda>ib. ib_registered ib \<and> ib_agent_id ib = agent_id) 0 (mb_inboxes m)"

text \<open>The difference in 32 bits, as the code computes it.\<close>

definition inbox_count :: "hu_inbox \<Rightarrow> nat" where
  "inbox_count ib = ((ib_tail ib + 2 ^ 32 - ib_head ib) mod 2 ^ 32 + HU_INBOX_CAP) mod 2 ^ 32 mod HU_INBOX_CAP"

definition ring_next :: "nat \<Rightarrow> nat" where
  "ring_next i = (i + 1) mod HU_INBOX_CAP"

definition inbox_full :: "hu_inbox \<Rightarrow> bool" where
  "inbox_full ib \<longleftrightarrow> ring_next (ib_tail ib) = ib_head ib"

text \<open>Walks around the ring end after at most one round.\<close>

definition ring_fuel :: nat where
  "ring_fuel = HU_INBOX_CAP + 1"

fun drain :: "nat \<Rightarrow> hu_inbox \<Rightarrow> hu_inbox outcome" where
  "drain 0 ib = NoFuel"
| "drain (Suc k) ib = (if ib_head ib = ib_tail ib then Ret ib else drain k (ib\<lparr>ib_head := ring_next (ib_head ib)\<rparr>))"

definition expired :: "nat \<Rightarrow> hu_message \<Rightarrow> bool" where
  "expired now msg \<longleftrightarrow> hm_ttl_sec msg > 0 \<and> now > (hm_timestamp msg + hm_ttl_sec msg) mod 2 ^ 64"

fun drop_expired_at_head :: "nat \<Rightarrow> nat \<Rightarrow> hu_inbox \<Rightarrow> hu_inbox outcome" where
  "drop_expired_at_head 0 now ib = NoFuel"
| "drop_expired_at_head (Suc k) now ib =
     (if ib_head ib = ib_tail ib then Ret ib
      else if \<not> expired now (ib_msgs ib ! ib_head ib) then Ret ib
      else drop_expired_at_head k now (ib\<lparr>ib_head := ring_next (ib_head ib)\<rparr>))"

fun highest_loop :: "nat \<Rightarrow> nat \<Rightarrow> hu_inbox \<Rightarrow> nat \<Rightarrow> nat \<Rightarrow> int \<Rightarrow> nat outcome" where
  "highest_loop 0 now ib i best best_prio = NoFuel"
| "highest_loop (Suc k) now ib i best best_prio =
     (if i = ib_tail ib then Ret best
      else
        let msg = ib_msgs ib ! i in
        if expired now msg then highest_loop k now ib (ring_next i) best best_prio
        else if prio_val (hm_priority msg) > best_prio then
          highest_loop k now ib (ring_next i) i (prio_val (hm_priority msg))
        else highest_loop k now ib (ring_next i) best best_prio)"

definition find_highest_priority_index :: "hu_inbox \<Rightarrow> nat \<Rightarrow> nat outcome" where
  "find_highest_priority_index ib now = highest_loop ring_fuel now ib (ib_head ib) (ib_head ib) (-1)"

section \<open>The operations\<close>

definition hu_mailbox_register :: "hu_mailbox \<Rightarrow> nat \<Rightarrow> hu_mailbox outcome" where
  "hu_mailbox_register m agent_id =
     (if find_inbox m agent_id \<noteq> None then Ret m
      else
        case first_inbox (\<lambda>ib. \<not> ib_registered ib) 0 (mb_inboxes m) of
          None \<Rightarrow> Err HU_ERR_OUT_OF_MEMORY
        | Some i \<Rightarrow> Ret (m\<lparr>mb_inboxes := (mb_inboxes m)[i := zero_inbox\<lparr>ib_agent_id := agent_id, ib_registered := True\<rparr>]\<rparr>))"

definition hu_mailbox_unregister :: "hu_mailbox \<Rightarrow> nat \<Rightarrow> hu_mailbox outcome" where
  "hu_mailbox_unregister m agent_id =
     (case find_inbox m agent_id of
        None \<Rightarrow> Err HU_ERR_NOT_FOUND
      | Some i \<Rightarrow>
          obind (drain ring_fuel (mb_inboxes m ! i)) (\<lambda>ib.
          Ret (m\<lparr>mb_inboxes := (mb_inboxes m)[i := ib\<lparr>ib_registered := False\<rparr>]\<rparr>)))"

definition hu_mailbox_send_ex ::
    "nat \<Rightarrow> hu_mailbox \<Rightarrow> nat \<Rightarrow> nat \<Rightarrow> hu_msg_type \<Rightarrow> string option \<Rightarrow> nat \<Rightarrow> hu_msg_priority \<Rightarrow> nat \<Rightarrow> hu_mailbox outcome" where
  "hu_mailbox_send_ex now m from_agent to_agent ty payload correlation_id priority ttl_sec =
     (case find_inbox m to_agent of
        None \<Rightarrow> Err HU_ERR_NOT_FOUND
      | Some i \<Rightarrow>
          let ib = mb_inboxes m ! i in
          if inbox_full ib then Err HU_ERR_OUT_OF_MEMORY
          else
            let msg = \<lparr>hm_type = ty, hm_from_agent = from_agent, hm_to_agent = to_agent,
                       hm_payload = map_option (\<lambda>s. hu_strndup s (length s)) payload,
                       hm_payload_len = (case payload of None \<Rightarrow> 0 | Some s \<Rightarrow> length s),
                       hm_timestamp = now, hm_correlation_id = correlation_id, hm_priority = priority, hm_ttl_sec = ttl_sec\<rparr>
            in Ret (m\<lparr>mb_inboxes := (mb_inboxes m)
                      [i := ib\<lparr>ib_msgs := (ib_msgs ib)[ib_tail ib := msg], ib_tail := ring_next (ib_tail ib)\<rparr>]\<rparr>))"

definition hu_mailbox_send ::
    "nat \<Rightarrow> hu_mailbox \<Rightarrow> nat \<Rightarrow> nat \<Rightarrow> hu_msg_type \<Rightarrow> string option \<Rightarrow> nat \<Rightarrow> hu_mailbox outcome" where
  "hu_mailbox_send now m from_agent to_agent ty payload correlation_id =
     hu_mailbox_send_ex now m from_agent to_agent ty payload correlation_id HU_MSG_PRIO_NORMAL 0"

text \<open>What is left of the inbox when a message was there, and the message.\<close>

definition take_best :: "hu_inbox \<Rightarrow> nat \<Rightarrow> hu_inbox \<times> hu_message" where
  "take_best ib best =
     (if best = ib_head ib then (ib\<lparr>ib_head := ring_next (ib_head ib)\<rparr>, ib_msgs ib ! ib_head ib)
      else
        let tmp = ib_msgs ib ! ib_head ib; msgs = (ib_msgs ib)[ib_head ib := ib_msgs ib ! best, best := tmp] in
        (ib\<lparr>ib_msgs := msgs, ib_head := ring_next (ib_head ib)\<rparr>, msgs ! ib_head ib))"

text \<open>
  The mailbox changes even when nothing is received, as expired messages are dropped: \<open>None\<close> is the result
  HU_ERR_NOT_FOUND.
\<close>

definition hu_mailbox_recv :: "nat \<Rightarrow> nat \<Rightarrow> hu_mailbox \<Rightarrow> nat \<Rightarrow> (hu_mailbox \<times> hu_message option) outcome" where
  "hu_mailbox_recv now1 now2 m agent_id =
     (case find_inbox m agent_id of
        None \<Rightarrow> Ret (m, None)
      | Some i \<Rightarrow>
          obind (drop_expired_at_head ring_fuel now1 (mb_inboxes m ! i)) (\<lambda>ib.
          if ib_head ib = ib_tail ib then Ret (m\<lparr>mb_inboxes := (mb_inboxes m)[i := ib]\<rparr>, None)
          else
            obind (find_highest_priority_index ib now2) (\<lambda>best.
            let (ib, msg) = take_best ib best in
            Ret (m\<lparr>mb_inboxes := (mb_inboxes m)[i := ib]\<rparr>, Some msg))))"

text \<open>The loop of \<^verbatim>\<open>hu_mailbox_broadcast\<close> over the inboxes; what a send returns is ignored.  \<open>now a\<close> is the
  clock when the message to the agent \<open>a\<close> is written; no agent has two inboxes.\<close>

fun broadcast_loop ::
    "(nat \<Rightarrow> nat) \<Rightarrow> hu_mailbox \<Rightarrow> nat \<Rightarrow> hu_msg_type \<Rightarrow> string option \<Rightarrow> nat list \<Rightarrow> hu_mailbox" where
  "broadcast_loop now m from_agent ty payload [] = m"
| "broadcast_loop now m from_agent ty payload (i # is) =
     (let ib = mb_inboxes m ! i in
      if \<not> ib_registered ib \<or> ib_agent_id ib = from_agent then broadcast_loop now m from_agent ty payload is
      else
        (case hu_mailbox_send (now (ib_agent_id ib)) m from_agent (ib_agent_id ib) ty payload 0 of
           Ret m \<Rightarrow> broadcast_loop now m from_agent ty payload is
         | _ \<Rightarrow> broadcast_loop now m from_agent ty payload is))"

definition hu_mailbox_broadcast :: "(nat \<Rightarrow> nat) \<Rightarrow> hu_mailbox \<Rightarrow> nat \<Rightarrow> hu_msg_type \<Rightarrow> string option \<Rightarrow> hu_mailbox" where
  "hu_mailbox_broadcast now m from_agent ty payload =
     broadcast_loop now m from_agent ty payload [0..<length (mb_inboxes m)]"

definition hu_mailbox_pending_count :: "hu_mailbox \<Rightarrow> nat \<Rightarrow> nat" where
  "hu_mailbox_pending_count m agent_id =
     (case find_inbox m agent_id of None \<Rightarrow> 0 | Some i \<Rightarrow> inbox_count (mb_inboxes m ! i))"

text \<open>The payloads of what still waits are freed with the mailbox, inbox by inbox.\<close>

fun hu_mailbox_destroy :: "hu_inbox list \<Rightarrow> unit outcome" where
  "hu_mailbox_destroy [] = Ret ()"
| "hu_mailbox_destroy (ib # ibs) =
     (if \<not> ib_registered ib then hu_mailbox_destroy ibs else obind (drain ring_fuel ib) (\<lambda>_. hu_mailbox_destroy ibs))"

section \<open>What is in a ring\<close>

definition inbox_ok :: "hu_inbox \<Rightarrow> bool" where
  "inbox_ok ib \<longleftrightarrow> length (ib_msgs ib) = HU_INBOX_CAP \<and> ib_head ib < HU_INBOX_CAP \<and> ib_tail ib < HU_INBOX_CAP"

definition ring_dist :: "nat \<Rightarrow> nat \<Rightarrow> nat" where
  "ring_dist h t = (t + HU_INBOX_CAP - h) mod HU_INBOX_CAP"

definition ring_at :: "nat \<Rightarrow> nat \<Rightarrow> nat" where
  "ring_at h k = (h + k) mod HU_INBOX_CAP"

text \<open>The messages from a position up to the tail.\<close>

definition from_pos :: "hu_inbox \<Rightarrow> nat \<Rightarrow> hu_message list" where
  "from_pos ib h = map (\<lambda>k. ib_msgs ib ! ring_at h k) [0..<ring_dist h (ib_tail ib)]"

definition pending :: "hu_inbox \<Rightarrow> hu_message list" where
  "pending ib = from_pos ib (ib_head ib)"

lemma ring_next_eq: "i < HU_INBOX_CAP \<Longrightarrow> ring_next i = (if i = HU_INBOX_CAP - 1 then 0 else i + 1)"
  by (auto simp: ring_next_def HU_INBOX_CAP_def)

lemma ring_dist_eq:
  assumes "h < HU_INBOX_CAP" "t < HU_INBOX_CAP"
  shows "ring_dist h t = (if h \<le> t then t - h else t + HU_INBOX_CAP - h)"
proof (cases "h \<le> t")
  case True
  then have "t + HU_INBOX_CAP - h = (t - h) + HU_INBOX_CAP" by simp
  moreover have "(t - h + HU_INBOX_CAP) mod HU_INBOX_CAP = t - h" using assms by simp
  ultimately show ?thesis using True by (simp only: ring_dist_def if_True)
next
  case False
  then show ?thesis using assms by (simp add: ring_dist_def)
qed

lemma ring_at_eq:
  assumes "h < HU_INBOX_CAP" "k < HU_INBOX_CAP"
  shows "ring_at h k = (if h + k < HU_INBOX_CAP then h + k else h + k - HU_INBOX_CAP)"
  using assms by (auto simp: ring_at_def mod_if)

lemma inbox_count_dist:
  assumes "inbox_ok ib"
  shows "inbox_count ib = ring_dist (ib_head ib) (ib_tail ib)"
proof -
  let ?h = "ib_head ib" and ?t = "ib_tail ib" and ?w = "2 ^ 32 :: nat"
  have b: "?h < HU_INBOX_CAP" "?t < HU_INBOX_CAP" "2 * HU_INBOX_CAP \<le> ?w" using assms by (simp_all add: inbox_ok_def HU_INBOX_CAP_def)
  have d: "ring_dist ?h ?t mod HU_INBOX_CAP = ring_dist ?h ?t" by (simp add: ring_dist_def)
  show ?thesis
  proof (cases "?h \<le> ?t")
    case True
    have "?t + ?w - ?h = (?t - ?h) + ?w" using True by simp
    then have "(?t + ?w - ?h) mod ?w = ?t - ?h" using b mod_less [of "?t - ?h" ?w] by (simp only: mod_add_self2)
    moreover have "(?t - ?h + HU_INBOX_CAP) mod ?w = ?t - ?h + HU_INBOX_CAP" using b by (intro mod_less) linarith
    moreover have "(?t - ?h + HU_INBOX_CAP) mod HU_INBOX_CAP = ?t - ?h" using b by simp
    ultimately show ?thesis using True ring_dist_eq [OF b(1,2)] by (simp only: inbox_count_def if_True)
  next
    case False
    have "(?t + ?w - ?h) mod ?w = ?t + ?w - ?h" using False b by (intro mod_less) linarith
    moreover have "?t + ?w - ?h + HU_INBOX_CAP = (?t + HU_INBOX_CAP - ?h) + ?w" using False b by linarith
    moreover have "((?t + HU_INBOX_CAP - ?h) + ?w) mod ?w = ?t + HU_INBOX_CAP - ?h"
      using False b mod_less [of "?t + HU_INBOX_CAP - ?h" ?w] by (simp only: mod_add_self2)
    ultimately show ?thesis using False d ring_dist_eq [OF b(1,2)] by (simp only: inbox_count_def if_False)
  qed
qed

lemma ring_step:
  assumes "h < HU_INBOX_CAP" "t < HU_INBOX_CAP" "h \<noteq> t"
  shows "ring_dist h t = Suc (ring_dist (ring_next h) t)" "ring_next h < HU_INBOX_CAP" "ring_at (ring_next h) k = ring_at h (Suc k)"
proof -
  show n: "ring_next h < HU_INBOX_CAP" by (simp add: ring_next_def HU_INBOX_CAP_def)
  show "ring_at (ring_next h) k = ring_at h (Suc k)" by (simp add: ring_at_def ring_next_def mod_simps)
  show "ring_dist h t = Suc (ring_dist (ring_next h) t)"
    using assms n ring_next_eq [OF assms(1)] by (auto simp: ring_dist_eq split: if_splits)
qed

lemma ring_dist_same [simp]: "h < HU_INBOX_CAP \<Longrightarrow> ring_dist h h = 0"
  by (simp add: ring_dist_def)

lemma ring_dist_less: "ring_dist h t < HU_INBOX_CAP"
  by (simp add: ring_dist_def HU_INBOX_CAP_def)

lemma from_pos_step:
  assumes "h < HU_INBOX_CAP" "ib_tail ib < HU_INBOX_CAP"
  shows "from_pos ib h = (if h = ib_tail ib then [] else ib_msgs ib ! h # from_pos ib (ring_next h))"
proof (cases "h = ib_tail ib")
  case False
  note r = ring_step [OF assms False]
  have "[0..<ring_dist h (ib_tail ib)] = 0 # map Suc [0..<ring_dist (ring_next h) (ib_tail ib)]"
    by (simp add: r(1) upt_conv_Cons map_Suc_upt)
  moreover have "ring_at h 0 = h" using assms(1) by (simp add: ring_at_def)
  ultimately show ?thesis using False by (simp add: from_pos_def r(3))
qed (use assms in \<open>simp add: from_pos_def\<close>)

lemma pending_step:
  "inbox_ok ib \<Longrightarrow> pending ib = (if ib_head ib = ib_tail ib then [] else ib_msgs ib ! ib_head ib # pending (ib\<lparr>ib_head := ring_next (ib_head ib)\<rparr>))"
  using from_pos_step [of "ib_head ib" ib] by (simp add: pending_def inbox_ok_def from_pos_def)

lemma inbox_ok_next: "inbox_ok ib \<Longrightarrow> inbox_ok (ib\<lparr>ib_head := ring_next (ib_head ib)\<rparr>)"
  by (simp add: inbox_ok_def ring_next_def HU_INBOX_CAP_def)

lemma length_pending: "inbox_ok ib \<Longrightarrow> length (pending ib) = inbox_count ib \<and> length (pending ib) < HU_INBOX_CAP"
  by (simp add: pending_def from_pos_def inbox_count_dist ring_dist_less)

lemma pending_nth: "k < length (pending ib) \<Longrightarrow> pending ib ! k = ib_msgs ib ! ring_at (ib_head ib) k"
  by (simp add: pending_def from_pos_def)

lemma full_iff:
  assumes "inbox_ok ib"
  shows "inbox_full ib \<longleftrightarrow> length (pending ib) = HU_INBOX_CAP - 1"
proof -
  let ?h = "ib_head ib" and ?t = "ib_tail ib"
  have b: "?h < HU_INBOX_CAP" "?t < HU_INBOX_CAP" "0 < HU_INBOX_CAP" using assms by (simp_all add: inbox_ok_def HU_INBOX_CAP_def)
  show ?thesis
    using b by (auto simp: inbox_full_def pending_def from_pos_def ring_dist_eq ring_next_eq)
qed

lemma pending_send:
  assumes "inbox_ok ib" "\<not> inbox_full ib"
  shows "pending (ib\<lparr>ib_msgs := (ib_msgs ib)[ib_tail ib := msg], ib_tail := ring_next (ib_tail ib)\<rparr>) = pending ib @ [msg]"
    "inbox_ok (ib\<lparr>ib_msgs := (ib_msgs ib)[ib_tail ib := msg], ib_tail := ring_next (ib_tail ib)\<rparr>)"
proof -
  let ?h = "ib_head ib" and ?t = "ib_tail ib"
  have b: "?h < HU_INBOX_CAP" "?t < HU_INBOX_CAP" "length (ib_msgs ib) = HU_INBOX_CAP" using assms(1) by (simp_all add: inbox_ok_def)
  have r: "ring_next ?t < HU_INBOX_CAP" by (simp add: ring_next_def HU_INBOX_CAP_def)
  have n: "ring_next ?t \<noteq> ?h" using assms(2) by (simp add: inbox_full_def)
  have d: "ring_dist ?h (ring_next ?t) = Suc (ring_dist ?h ?t)"
    using b r n ring_next_eq [OF b(2)] by (auto simp: ring_dist_eq split: if_splits)
  have k: "ring_dist ?h ?t < HU_INBOX_CAP" by (simp add: ring_dist_def HU_INBOX_CAP_def)
  have at: "ring_at ?h (ring_dist ?h ?t) = ?t"
    using b(1,2) k by (auto simp: ring_at_eq ring_dist_eq split: if_splits)
  have "?t \<noteq> ring_at ?h k" if "k < ring_dist ?h ?t" for k
    using b that k ring_at_eq [of ?h k] by (auto simp: ring_dist_eq split: if_splits)
  then show "pending (ib\<lparr>ib_msgs := (ib_msgs ib)[?t := msg], ib_tail := ring_next ?t\<rparr>) = pending ib @ [msg]"
    using b at by (auto simp: pending_def from_pos_def d)
  show "inbox_ok (ib\<lparr>ib_msgs := (ib_msgs ib)[?t := msg], ib_tail := ring_next ?t\<rparr>)"
    using b r by (simp add: inbox_ok_def)
qed

lemma ring_at_inj: "h < HU_INBOX_CAP \<Longrightarrow> k < HU_INBOX_CAP \<Longrightarrow> j < HU_INBOX_CAP \<Longrightarrow> ring_at h k = ring_at h j \<longleftrightarrow> k = j"
  by (auto simp: ring_at_eq split: if_splits)

section \<open>The loops over a ring\<close>

lemma head_same: "ib_head ib = h \<Longrightarrow> ib\<lparr>ib_head := h\<rparr> = ib"
  by simp

lemma drain_empty:
  "inbox_ok ib \<Longrightarrow> length (pending ib) < k \<Longrightarrow>
   \<exists>h. drain k ib = Ret (ib\<lparr>ib_head := h\<rparr>) \<and> inbox_ok (ib\<lparr>ib_head := h\<rparr>) \<and> pending (ib\<lparr>ib_head := h\<rparr>) = []"
proof (induction k arbitrary: ib)
  case (Suc k)
  show ?case
  proof (cases "ib_head ib = ib_tail ib")
    case True
    then show ?thesis using Suc.prems pending_step [of ib]
      by (intro exI [of _ "ib_tail ib"]) (unfold head_same [OF True], simp)
  next
    case False
    with Suc.IH [OF inbox_ok_next [OF Suc.prems(1)]] Suc.prems show ?thesis using pending_step [of ib] by simp
  qed
qed simp

lemma destroy_ends: "list_all inbox_ok ibs \<Longrightarrow> hu_mailbox_destroy ibs = Ret ()"
proof (induction ibs)
  case (Cons ib ibs)
  then have "length (pending ib) < ring_fuel" using length_pending [of ib] by (simp add: ring_fuel_def)
  with Cons drain_empty [of ib ring_fuel] show ?case by auto
qed simp

lemma drop_pending:
  "inbox_ok ib \<Longrightarrow> length (pending ib) < k \<Longrightarrow>
   \<exists>h. drop_expired_at_head k now ib = Ret (ib\<lparr>ib_head := h\<rparr>) \<and> inbox_ok (ib\<lparr>ib_head := h\<rparr>) \<and>
     pending (ib\<lparr>ib_head := h\<rparr>) = dropWhile (expired now) (pending ib)"
proof (induction k arbitrary: ib)
  case (Suc k)
  consider "ib_head ib = ib_tail ib" | "ib_head ib \<noteq> ib_tail ib" "\<not> expired now (ib_msgs ib ! ib_head ib)"
    | "ib_head ib \<noteq> ib_tail ib" "expired now (ib_msgs ib ! ib_head ib)" by blast
  then show ?case
  proof cases
    case 1
    then show ?thesis using Suc.prems pending_step [of ib]
      by (intro exI [of _ "ib_tail ib"]) (unfold head_same [OF 1], simp)
  next
    case 2
    then show ?thesis using Suc.prems pending_step [of ib]
      by (intro exI [of _ "ib_head ib"]) (unfold head_same [OF refl], simp)
  next
    case 3
    with Suc.IH [OF inbox_ok_next [OF Suc.prems(1)]] Suc.prems show ?thesis using pending_step [of ib] by simp
  qed
qed simp

text \<open>The rank of a message in the search: an expired one is below all others.\<close>

definition rank :: "nat \<Rightarrow> hu_message \<Rightarrow> int" where
  "rank now msg = (if expired now msg then -1 else prio_val (hm_priority msg))"

fun scan :: "nat \<Rightarrow> hu_message list \<Rightarrow> nat \<Rightarrow> nat \<Rightarrow> int \<Rightarrow> nat" where
  "scan now [] i best p = best"
| "scan now (msg # q) i best p =
     (if rank now msg > p then scan now q (i + 1) i (rank now msg) else scan now q (i + 1) best p)"

lemma prio_val_pos: "0 \<le> prio_val p"
  by (cases p) simp_all

lemma highest_scan:
  assumes "inbox_ok ib" "-1 \<le> p" "i + n = length (pending ib)" "n < k"
  shows "highest_loop k now ib (ring_at (ib_head ib) i) (ring_at (ib_head ib) best) p =
    Ret (ring_at (ib_head ib) (scan now (drop i (pending ib)) i best p))"
  using assms
proof (induction n arbitrary: k i best p)
  case 0
  then obtain k' where k: "k = Suc k'" by (cases k) auto
  have b: "ib_head ib < HU_INBOX_CAP" "ib_tail ib < HU_INBOX_CAP" using 0 by (simp_all add: inbox_ok_def)
  have "i = ring_dist (ib_head ib) (ib_tail ib)" using 0 by (simp add: pending_def from_pos_def)
  then have "ring_at (ib_head ib) i = ib_tail ib" using b ring_dist_less [of "ib_head ib" "ib_tail ib"]
    by (auto simp: ring_at_eq ring_dist_eq split: if_splits)
  with 0 k show ?case by simp
next
  case (Suc n)
  then obtain k' where k: "k = Suc k'" by (cases k) auto
  let ?h = "ib_head ib" and ?q = "pending ib"
  have b: "?h < HU_INBOX_CAP" "ib_tail ib < HU_INBOX_CAP" using Suc.prems by (simp_all add: inbox_ok_def)
  have i: "i < ring_dist ?h (ib_tail ib)" using Suc.prems by (simp add: pending_def from_pos_def)
  have "ring_at ?h i \<noteq> ib_tail ib"
    using b i ring_at_eq [of ?h i] ring_dist_less [of ?h "ib_tail ib"] by (auto simp: ring_dist_eq split: if_splits)
  moreover have nxt: "ring_next (ring_at ?h i) = ring_at ?h (i + 1)" by (simp add: ring_next_def ring_at_def mod_simps)
  moreover have "drop i ?q = ib_msgs ib ! ring_at ?h i # drop (i + 1) ?q"
    using Suc.prems pending_nth [of i ib] by (simp add: Cons_nth_drop_Suc [symmetric])
  moreover have "\<not> rank now msg > p" if "expired now msg" for msg using that Suc.prems(2) by (simp add: rank_def)
  moreover have "-1 \<le> rank now msg" for msg using prio_val_pos [of "hm_priority msg"] by (simp add: rank_def)
  moreover have "highest_loop k' now ib (ring_at ?h (i + 1)) (ring_at ?h best') p' =
      Ret (ring_at ?h (scan now (drop (i + 1) ?q) (i + 1) best' p'))" if "-1 \<le> p'" for best' p'
    using Suc.IH [of p' "i + 1" k' best'] Suc.prems that k by simp
  ultimately show ?case using k Suc.prems(2) by (auto simp: Let_def rank_def)
qed

text \<open>The first of the messages with the highest rank.\<close>

definition best_index :: "nat \<Rightarrow> hu_message list \<Rightarrow> nat" where
  "best_index now q = length (takeWhile (\<lambda>msg. rank now msg < Max (rank now ` set q)) q)"

lemma scan_best:
  "scan now q i best p =
     (if \<exists>msg \<in> set q. rank now msg > p then i + best_index now q else best)"
proof (induction q arbitrary: i best p)
  case (Cons msg q)
  show ?case
  proof (cases "q = []")
    case False
    let ?M = "Max (rank now ` set q)" and ?r = "rank now msg"
    have M: "Max (rank now ` set (msg # q)) = max ?r ?M" using False by simp
    have gt: "(\<exists>x \<in> set q. rank now x > p') \<longleftrightarrow> ?M > p'" for p' using False by (simp add: Max_gr_iff)
    have "takeWhile (\<lambda>x. rank now x < max ?r ?M) (msg # q) = (if ?r < ?M then msg # takeWhile (\<lambda>x. rank now x < ?M) q else [])"
      by (auto simp: max_def)
    then have bi: "best_index now (msg # q) = (if ?r < ?M then Suc (best_index now q) else 0)"
      unfolding best_index_def M by simp
    have ex: "(\<exists>x \<in> set (msg # q). rank now x > p) \<longleftrightarrow> ?r > p \<or> ?M > p" using gt by simp
    show ?thesis unfolding scan.simps Cons.IH gt ex bi by auto
  qed (simp add: best_index_def)
qed simp

lemma best_index_less: "q \<noteq> [] \<Longrightarrow> best_index now q < length q"
proof -
  assume q: "q \<noteq> []"
  then have "Max (rank now ` set q) \<in> rank now ` set q" by (intro Max_in) auto
  then have "\<exists>x \<in> set q. \<not> rank now x < Max (rank now ` set q)" by force
  then have "takeWhile (\<lambda>msg. rank now msg < Max (rank now ` set q)) q \<noteq> q" by (metis set_takeWhileD)
  then show ?thesis unfolding best_index_def by (metis length_takeWhile_le nless_le takeWhile_eq_take take_all_iff)
qed

lemma best_index_rank:
  assumes "q \<noteq> []" "x \<in> set q"
  shows "rank now x \<le> rank now (q ! best_index now q)"
proof -
  have "\<not> rank now (q ! best_index now q) < Max (rank now ` set q)"
    using nth_length_takeWhile [of "\<lambda>msg. rank now msg < Max (rank now ` set q)" q] best_index_less [OF assms(1), of now]
    unfolding best_index_def by simp
  moreover have "rank now x \<le> Max (rank now ` set q)" using assms(2) by simp
  ultimately show ?thesis by simp
qed

lemma best_index_first:
  assumes "j < best_index now q"
  shows "rank now (q ! j) < rank now (q ! best_index now q)"
proof -
  have q: "q \<noteq> []" using assms by (auto simp: best_index_def)
  have len: "j < length q" using assms best_index_less [OF q, of now] by simp
  have "q ! j \<in> set (takeWhile (\<lambda>msg. rank now msg < Max (rank now ` set q)) q)"
    using assms unfolding best_index_def by (metis nth_mem takeWhile_nth)
  then have "rank now (q ! j) < Max (rank now ` set q)" by (auto dest: set_takeWhileD)
  moreover have "Max (rank now ` set q) \<in> rank now ` set q" using q by (intro Max_in) auto
  then obtain x where "x \<in> set q" "rank now x = Max (rank now ` set q)" by auto
  ultimately show ?thesis using best_index_rank [OF q, of x now] by simp
qed

lemma rank_low: "-1 \<le> rank now msg"
  using prio_val_pos [of "hm_priority msg"] by (simp add: rank_def)

lemma find_highest:
  assumes "inbox_ok ib" "pending ib \<noteq> []"
  shows "find_highest_priority_index ib now = Ret (ring_at (ib_head ib) (best_index now (pending ib)))"
proof -
  have "ring_at (ib_head ib) 0 = ib_head ib" using assms(1) by (simp add: ring_at_def inbox_ok_def)
  moreover have "length (pending ib) < ring_fuel" using length_pending [OF assms(1)] by (simp add: ring_fuel_def)
  ultimately have s: "find_highest_priority_index ib now = Ret (ring_at (ib_head ib) (scan now (pending ib) 0 0 (-1)))"
    using highest_scan [OF assms(1), of "-1" 0 "length (pending ib)" ring_fuel now 0] by (simp add: find_highest_priority_index_def)
  have "best_index now (pending ib) = 0" if none: "\<not> (\<exists>msg \<in> set (pending ib). rank now msg > -1)"
  proof -
    have "rank now msg = -1" if "msg \<in> set (pending ib)" for msg using that none rank_low [of now msg] by force
    then have "\<not> rank now (pending ib ! 0) < rank now (pending ib ! best_index now (pending ib))"
      using assms(2) best_index_less [OF assms(2), of now] by simp
    then show ?thesis using best_index_first [of 0 now "pending ib"] by force
  qed
  then show ?thesis unfolding s scan_best by auto
qed

text \<open>The queue without its entry \<open>b\<close>, whose place the head takes.\<close>

definition take_at :: "nat \<Rightarrow> 'm list \<Rightarrow> 'm list" where
  "take_at b q = (if b = 0 then tl q else (tl q)[b - 1 := q ! 0])"

lemma take_best_pending:
  assumes ok: "inbox_ok ib" and b: "b < length (pending ib)"
  shows "\<exists>ms h. take_best ib (ring_at (ib_head ib) b) = (ib\<lparr>ib_msgs := ms, ib_head := h\<rparr>, pending ib ! b) \<and>
    inbox_ok (ib\<lparr>ib_msgs := ms, ib_head := h\<rparr>) \<and> pending (ib\<lparr>ib_msgs := ms, ib_head := h\<rparr>) = take_at b (pending ib)"
proof -
  let ?h = "ib_head ib" and ?q = "pending ib"
  have cap: "length ?q < HU_INBOX_CAP" "?h < HU_INBOX_CAP" "ib_tail ib < HU_INBOX_CAP" "length (ib_msgs ib) = HU_INBOX_CAP"
    using ok length_pending [OF ok] by (simp_all add: inbox_ok_def)
  have at0: "ring_at ?h 0 = ?h" using cap by (simp add: ring_at_def)
  have ne: "?h \<noteq> ib_tail ib" using b pending_step [OF ok] by (cases "?h = ib_tail ib") auto
  define ms where "ms = (if b = 0 then ib_msgs ib else (ib_msgs ib)[?h := ib_msgs ib ! ring_at ?h b, ring_at ?h b := ib_msgs ib ! ?h])"
  let ?ib = "ib\<lparr>ib_msgs := ms, ib_head := ring_next ?h\<rparr>"
  have bh: "ring_at ?h b = ?h \<longleftrightarrow> b = 0" using ring_at_inj [of ?h b 0] b cap at0 by simp
  have "take_best ib (ring_at ?h b) = (?ib, ?q ! b)"
    using bh pending_nth [OF b] at0 cap by (auto simp: take_best_def ms_def Let_def nth_list_update)
  moreover have "inbox_ok ?ib" using cap by (simp add: inbox_ok_def ms_def ring_next_def)
  moreover have "pending ?ib = take_at b ?q"
  proof (rule nth_equalityI)
    have d: "ring_dist ?h (ib_tail ib) = Suc (ring_dist (ring_next ?h) (ib_tail ib))" by (rule ring_step [OF cap(2,3) ne])
    show len: "length (pending ?ib) = length (take_at b ?q)" using d by (simp add: pending_def from_pos_def take_at_def)
    fix k assume k: "k < length (pending ?ib)"
    have k': "Suc k < length ?q" using k d by (simp add: pending_def from_pos_def)
    have "pending ?ib ! k = ms ! ring_at ?h (Suc k)"
      using pending_nth [OF k] ring_step(3) [OF cap(2,3) ne] by simp
    also have "\<dots> = (if b = Suc k then ?q ! 0 else ?q ! Suc k)"
    proof -
      have r: "ring_at ?h (Suc k) < HU_INBOX_CAP" "ring_at ?h b < HU_INBOX_CAP" by (simp_all add: ring_at_def HU_INBOX_CAP_def)
      have "ring_at ?h (Suc k) \<noteq> ?h" using ring_at_inj [of ?h "Suc k" 0] k' cap at0 by simp
      moreover have "ring_at ?h b = ring_at ?h (Suc k) \<longleftrightarrow> b = Suc k" using ring_at_inj [of ?h b "Suc k"] k' b cap by simp
      moreover have "?q ! 0 = ib_msgs ib ! ?h" "?q ! Suc k = ib_msgs ib ! ring_at ?h (Suc k)"
        using pending_nth [of 0 ib] pending_nth [of "Suc k" ib] k' less_le_trans [of 0 "Suc k" "length ?q"] at0 by simp_all
      ultimately show ?thesis using r cap by (auto simp: ms_def nth_list_update)
    qed
    also have "\<dots> = take_at b ?q ! k" using k' by (auto simp: take_at_def nth_tl nth_list_update)
    finally show "pending ?ib ! k = take_at b ?q ! k" .
  qed
  ultimately show ?thesis by blast
qed

end
