(* ===== verification/HuMailboxSpec.thy ===== *)
theory HuMailboxSpec
  imports HuMailbox "HOL-Library.Multiset"
begin

text \<open>
  The mailboxes of \<^verbatim>\<open>src/agent/mailbox.c\<close> as a map from the registered agents to their queues.  A call of the code
  answers as the same call on the map does; from this follow which message is received, and that messages of equal
  priority arrive in the order in which they were sent.
\<close>

section \<open>The queues of a mailbox\<close>

definition mailbox_ok :: "hu_mailbox \<Rightarrow> bool" where
  "mailbox_ok m \<longleftrightarrow> list_all inbox_ok (mb_inboxes m) \<and>
     (\<forall>i < length (mb_inboxes m). \<forall>j < length (mb_inboxes m).
        ib_registered (mb_inboxes m ! i) \<and> ib_registered (mb_inboxes m ! j) \<and>
        ib_agent_id (mb_inboxes m ! i) = ib_agent_id (mb_inboxes m ! j) \<longrightarrow> i = j)"

definition queues :: "hu_mailbox \<Rightarrow> nat \<Rightarrow> hu_message list option" where
  "queues m a = map_option (\<lambda>i. pending (mb_inboxes m ! i)) (find_inbox m a)"

lemma option_eqI: "(\<And>i. x = Some i \<longleftrightarrow> y = Some i) \<Longrightarrow> x = y"
  by (cases x; cases y) auto

lemma first_inbox_Some:
  "first_inbox P i ibs = Some j \<Longrightarrow> i \<le> j \<and> j < i + length ibs \<and> P (ibs ! (j - i))"
proof (induction ibs arbitrary: i)
  case (Cons ib ibs)
  show ?case
  proof (cases "P ib")
    case False
    with Cons have j: "i + 1 \<le> j" "j < i + 1 + length ibs" "P (ibs ! (j - (i + 1)))" using Cons.IH [of "i + 1"] by simp_all
    then have "j - i = Suc (j - (i + 1))" by simp
    with j show ?thesis by simp
  qed (use Cons.prems in auto)
qed simp

lemma first_inbox_None: "first_inbox P i ibs = None \<longleftrightarrow> (\<forall>ib \<in> set ibs. \<not> P ib)"
  by (induction ibs arbitrary: i) auto

lemma inbox_at: "mailbox_ok m \<Longrightarrow> i < length (mb_inboxes m) \<Longrightarrow> inbox_ok (mb_inboxes m ! i)"
  by (simp add: mailbox_ok_def list_all_length)

lemma find_inbox_iff:
  assumes "mailbox_ok m"
  shows "find_inbox m a = Some i \<longleftrightarrow>
    i < length (mb_inboxes m) \<and> ib_registered (mb_inboxes m ! i) \<and> ib_agent_id (mb_inboxes m ! i) = a" (is "_ \<longleftrightarrow> ?at i")
proof
  show "?at i" if "find_inbox m a = Some i" using first_inbox_Some [OF that [unfolded find_inbox_def]] by simp
  assume i: "?at i"
  then have "find_inbox m a \<noteq> None" unfolding find_inbox_def first_inbox_None using nth_mem by blast
  then obtain j where j: "find_inbox m a = Some j" by blast
  with first_inbox_Some [OF j [unfolded find_inbox_def]] have "?at j" by simp
  with i assms have "i = j" unfolding mailbox_ok_def by metis
  with j show "find_inbox m a = Some i" by simp
qed

lemma queues_Some:
  "mailbox_ok m \<Longrightarrow> queues m a = Some q \<longleftrightarrow>
     (\<exists>i < length (mb_inboxes m). ib_registered (mb_inboxes m ! i) \<and> ib_agent_id (mb_inboxes m ! i) = a \<and> pending (mb_inboxes m ! i) = q)"
  by (auto simp: queues_def find_inbox_iff)

lemma queues_None:
  assumes "mailbox_ok m"
  shows "queues m a = None \<longleftrightarrow> (\<forall>i < length (mb_inboxes m). ib_registered (mb_inboxes m ! i) \<longrightarrow> ib_agent_id (mb_inboxes m ! i) \<noteq> a)"
proof -
  have "find_inbox m a = None \<longleftrightarrow> (\<forall>i. find_inbox m a \<noteq> Some i)" by (cases "find_inbox m a") auto
  then show ?thesis unfolding find_inbox_iff [OF assms] by (auto simp: queues_def)
qed

text \<open>Changing one inbox changes one queue.\<close>

definition put_inbox :: "hu_mailbox \<Rightarrow> nat \<Rightarrow> hu_inbox \<Rightarrow> hu_mailbox" where
  "put_inbox m i ib = m\<lparr>mb_inboxes := (mb_inboxes m)[i := ib]\<rparr>"

lemma length_put_inbox [simp]: "length (mb_inboxes (put_inbox m i ib)) = length (mb_inboxes m)"
  by (simp add: put_inbox_def)

lemma put_inbox_at: "j < length (mb_inboxes m) \<Longrightarrow> mb_inboxes (put_inbox m i ib) ! j = (if j = i then ib else mb_inboxes m ! j)"
  by (simp add: put_inbox_def nth_list_update)

lemma put_inbox_change:
  assumes m: "mailbox_ok m" "i < length (mb_inboxes m)" and ib: "inbox_ok ib"
    and new: "ib_registered ib \<Longrightarrow> find_inbox m (ib_agent_id ib) = None \<or> find_inbox m (ib_agent_id ib) = Some i"
  shows "mailbox_ok (put_inbox m i ib)"
    "queues (put_inbox m i ib) b =
       (if ib_registered ib \<and> ib_agent_id ib = b then Some (pending ib)
        else if find_inbox m b = Some i then None else queues m b)"
proof -
  let ?m = "put_inbox m i ib" and ?n = "length (mb_inboxes m)"
  have here: "j < ?n \<and> ib_registered (mb_inboxes ?m ! j) \<and> ib_agent_id (mb_inboxes ?m ! j) = c \<longleftrightarrow>
      (if j = i then ib_registered ib \<and> ib_agent_id ib = c else find_inbox m c = Some j)" for j c
    using m(2) by (auto simp: put_inbox_at find_inbox_iff [OF m(1)])
  have uniq: "j = k" if "if j = i then ib_registered ib \<and> ib_agent_id ib = c else find_inbox m c = Some j"
      "if k = i then ib_registered ib \<and> ib_agent_id ib = c else find_inbox m c = Some k" for j k c
    using that new by (cases "j = i"; cases "k = i") auto
  show ok: "mailbox_ok ?m"
    unfolding mailbox_ok_def length_put_inbox
  proof (intro conjI allI impI)
    show "list_all inbox_ok (mb_inboxes ?m)"
      using m ib by (auto simp: list_all_length put_inbox_at inbox_at)
    fix j k
    let ?c = "ib_agent_id (mb_inboxes ?m ! j)"
    assume "j < ?n" "k < ?n" "ib_registered (mb_inboxes ?m ! j) \<and> ib_registered (mb_inboxes ?m ! k) \<and> ?c = ib_agent_id (mb_inboxes ?m ! k)"
    then have "j < ?n \<and> ib_registered (mb_inboxes ?m ! j) \<and> ib_agent_id (mb_inboxes ?m ! j) = ?c"
      "k < ?n \<and> ib_registered (mb_inboxes ?m ! k) \<and> ib_agent_id (mb_inboxes ?m ! k) = ?c" by simp_all
    then show "j = k" unfolding here by (rule uniq)
  qed
  have find: "find_inbox ?m b = Some j \<longleftrightarrow> (if j = i then ib_registered ib \<and> ib_agent_id ib = b else find_inbox m b = Some j)" for j
    unfolding find_inbox_iff [OF ok] length_put_inbox by (rule here)
  show "queues ?m b = (if ib_registered ib \<and> ib_agent_id ib = b then Some (pending ib)
        else if find_inbox m b = Some i then None else queues m b)"
  proof (cases "ib_registered ib \<and> ib_agent_id ib = b")
    case True
    then have "find_inbox ?m b = Some i" using find [of i] by simp
    with True m(2) show ?thesis by (simp add: queues_def put_inbox_at)
  next
    case False
    show ?thesis
    proof (cases "find_inbox ?m b")
      case None
      then have "\<not> (if j = i then ib_registered ib \<and> ib_agent_id ib = b else find_inbox m b = Some j)" for j using find [of j] by simp
      then have "find_inbox m b = None \<or> find_inbox m b = Some i" by (metis not_None_eq)
      with None False show ?thesis by (auto simp: queues_def)
    next
      case (Some j)
      with find [of j] False have j: "j \<noteq> i" "find_inbox m b = Some j" by (auto split: if_splits)
      then have "j < ?n" by (simp add: find_inbox_iff [OF m(1)])
      with Some j False show ?thesis by (auto simp: queues_def put_inbox_at)
    qed
  qed
qed

lemma put_inbox_same:
  assumes m: "mailbox_ok m" "find_inbox m a = Some i"
    and ib: "inbox_ok ib" "ib_agent_id ib = ib_agent_id (mb_inboxes m ! i)" "ib_registered ib = ib_registered (mb_inboxes m ! i)"
  shows "mailbox_ok (put_inbox m i ib)" "queues (put_inbox m i ib) = (queues m)(a \<mapsto> pending ib)"
proof -
  have i: "i < length (mb_inboxes m)" "ib_registered (mb_inboxes m ! i)" "ib_agent_id (mb_inboxes m ! i) = a"
    using m by (simp_all add: find_inbox_iff)
  then have "ib_registered ib \<Longrightarrow> find_inbox m (ib_agent_id ib) = None \<or> find_inbox m (ib_agent_id ib) = Some i" using m ib by simp
  note c = put_inbox_change [OF m(1) i(1) ib(1) this]
  show "mailbox_ok (put_inbox m i ib)" by (rule c(1))
  show "queues (put_inbox m i ib) = (queues m)(a \<mapsto> pending ib)"
  proof
    fix b
    have "find_inbox m b = Some i \<longleftrightarrow> b = a" using i m(2) by (metis find_inbox_iff [OF m(1)])
    then show "queues (put_inbox m i ib) b = ((queues m)(a \<mapsto> pending ib)) b" using c(2) [of b] i(2,3) ib(2,3) by simp
  qed
qed

text \<open>How many agents there are.\<close>

lemma free_inbox:
  assumes "mailbox_ok m"
  shows "card (dom (queues m)) < length (mb_inboxes m) \<longleftrightarrow> first_inbox (\<lambda>ib. \<not> ib_registered ib) 0 (mb_inboxes m) \<noteq> None"
proof -
  let ?n = "length (mb_inboxes m)"
  define R where "R = {i. i < ?n \<and> ib_registered (mb_inboxes m ! i)}"
  have R: "R \<subseteq> {..<?n}" by (auto simp: R_def)
  have "dom (queues m) = (\<lambda>i. ib_agent_id (mb_inboxes m ! i)) ` R"
    by (auto simp: dom_def queues_Some [OF assms] R_def)
  moreover have "inj_on (\<lambda>i. ib_agent_id (mb_inboxes m ! i)) R"
    using assms unfolding mailbox_ok_def inj_on_def R_def by blast
  ultimately have "card (dom (queues m)) = card R" by (simp add: card_image)
  moreover have "card R < ?n \<longleftrightarrow> R \<noteq> {..<?n}"
    using psubset_card_mono [of "{..<?n}" R] R by auto
  moreover have "R \<noteq> {..<?n} \<longleftrightarrow> (\<exists>ib \<in> set (mb_inboxes m). \<not> ib_registered ib)"
    by (auto simp: R_def set_conv_nth)
  ultimately show ?thesis by (simp add: first_inbox_None)
qed

section \<open>The calls\<close>

datatype mail_call =
    Register nat
  | Unregister nat
  | SendEx nat nat nat hu_msg_type "string option" nat hu_msg_priority nat
  | Receive nat nat nat
  | Broadcast "nat \<Rightarrow> nat" nat hu_msg_type "string option"
  | Pending nat

datatype mail_answer = Okay | Refused hu_error | Got hu_message | Waiting nat

definition answered :: "hu_mailbox \<Rightarrow> hu_mailbox outcome \<Rightarrow> (hu_mailbox \<times> mail_answer) outcome" where
  "answered m r = (case r of Ret m \<Rightarrow> Ret (m, Okay) | Err e \<Rightarrow> Ret (m, Refused e) | Undef u \<Rightarrow> Undef u | NoFuel \<Rightarrow> NoFuel)"

definition mail_call :: "mail_call \<Rightarrow> hu_mailbox \<Rightarrow> (hu_mailbox \<times> mail_answer) outcome" where
  "mail_call c m =
     (case c of
        Register a \<Rightarrow> answered m (hu_mailbox_register m a)
      | Unregister a \<Rightarrow> answered m (hu_mailbox_unregister m a)
      | SendEx now from_agent to_agent ty payload correlation_id priority ttl_sec \<Rightarrow>
          answered m (hu_mailbox_send_ex now m from_agent to_agent ty payload correlation_id priority ttl_sec)
      | Receive now1 now2 a \<Rightarrow>
          obind (hu_mailbox_recv now1 now2 m a) (\<lambda>(m, r).
          Ret (m, case r of None \<Rightarrow> Refused HU_ERR_NOT_FOUND | Some msg \<Rightarrow> Got msg))
      | Broadcast now from_agent ty payload \<Rightarrow> Ret (hu_mailbox_broadcast now m from_agent ty payload, Okay)
      | Pending a \<Rightarrow> Ret (m, Waiting (hu_mailbox_pending_count m a)))"

text \<open>The same on the queues.  \<open>cap\<close> is the number of inboxes; a queue holds one message less than its ring.\<close>

type_synonym mail = "nat \<Rightarrow> hu_message list option"

definition the_message ::
    "nat \<Rightarrow> nat \<Rightarrow> nat \<Rightarrow> hu_msg_type \<Rightarrow> string option \<Rightarrow> nat \<Rightarrow> hu_msg_priority \<Rightarrow> nat \<Rightarrow> hu_message" where
  "the_message now from_agent to_agent ty payload correlation_id priority ttl_sec =
     \<lparr>hm_type = ty, hm_from_agent = from_agent, hm_to_agent = to_agent, hm_payload = map_option cstr payload,
      hm_payload_len = (case payload of None \<Rightarrow> 0 | Some s \<Rightarrow> length s), hm_timestamp = now,
      hm_correlation_id = correlation_id, hm_priority = priority, hm_ttl_sec = ttl_sec\<rparr>"

definition spec_send :: "nat \<Rightarrow> hu_message \<Rightarrow> mail \<Rightarrow> mail \<times> mail_answer" where
  "spec_send a msg s =
     (case s a of
        None \<Rightarrow> (s, Refused HU_ERR_NOT_FOUND)
      | Some q \<Rightarrow> if length q \<ge> HU_INBOX_CAP - 1 then (s, Refused HU_ERR_OUT_OF_MEMORY) else (s(a \<mapsto> q @ [msg]), Okay))"

definition spec_receive :: "nat \<Rightarrow> nat \<Rightarrow> nat \<Rightarrow> mail \<Rightarrow> mail \<times> mail_answer" where
  "spec_receive now1 now2 a s =
     (case s a of
        None \<Rightarrow> (s, Refused HU_ERR_NOT_FOUND)
      | Some q \<Rightarrow>
          let q = dropWhile (expired now1) q in
          if q = [] then (s(a \<mapsto> []), Refused HU_ERR_NOT_FOUND)
          else (s(a \<mapsto> take_at (best_index now2 q) q), Got (q ! best_index now2 q)))"

definition spec_broadcast :: "(nat \<Rightarrow> nat) \<Rightarrow> nat \<Rightarrow> hu_msg_type \<Rightarrow> string option \<Rightarrow> mail \<Rightarrow> mail" where
  "spec_broadcast now from_agent ty payload s =
     (\<lambda>a. if a = from_agent then s a
          else fst (spec_send a (the_message (now a) from_agent a ty payload 0 HU_MSG_PRIO_NORMAL 0) s) a)"

definition mail_spec :: "nat \<Rightarrow> mail_call \<Rightarrow> mail \<Rightarrow> mail \<times> mail_answer" where
  "mail_spec cap c s =
     (case c of
        Register a \<Rightarrow>
          if a \<in> dom s then (s, Okay)
          else if card (dom s) < cap then (s(a \<mapsto> []), Okay) else (s, Refused HU_ERR_OUT_OF_MEMORY)
      | Unregister a \<Rightarrow> if a \<in> dom s then (s(a := None), Okay) else (s, Refused HU_ERR_NOT_FOUND)
      | SendEx now from_agent to_agent ty payload correlation_id priority ttl_sec \<Rightarrow>
          spec_send to_agent (the_message now from_agent to_agent ty payload correlation_id priority ttl_sec) s
      | Receive now1 now2 a \<Rightarrow> spec_receive now1 now2 a s
      | Broadcast now from_agent ty payload \<Rightarrow> (spec_broadcast now from_agent ty payload s, Okay)
      | Pending a \<Rightarrow> (s, Waiting (case s a of None \<Rightarrow> 0 | Some q \<Rightarrow> length q)))"

definition mail_rel :: "nat \<Rightarrow> hu_mailbox \<Rightarrow> mail \<Rightarrow> bool" where
  "mail_rel cap m s \<longleftrightarrow> mailbox_ok m \<and> queues m = s \<and> length (mb_inboxes m) = cap"

section \<open>The code answers as the queues do\<close>

lemma queue_at: "find_inbox m a = Some i \<Longrightarrow> queues m a = Some (pending (mb_inboxes m ! i))"
  by (simp add: queues_def)

lemma no_queue: "find_inbox m a = None \<Longrightarrow> queues m a = None"
  by (simp add: queues_def)

lemma full_le: "inbox_ok ib \<Longrightarrow> inbox_full ib \<longleftrightarrow> length (pending ib) \<ge> HU_INBOX_CAP - 1"
  using full_iff [of ib] length_pending [of ib] by auto

lemma send_simulates:
  assumes rel: "mail_rel cap m s"
    and r_def: "r = spec_send a (the_message now from_agent a ty payload correlation_id priority ttl_sec) s"
  shows "\<exists>m'. answered m (hu_mailbox_send_ex now m from_agent a ty payload correlation_id priority ttl_sec) = Ret (m', snd r) \<and> mail_rel cap m' (fst r)"
proof (cases "find_inbox m a")
  case None
  with rel show ?thesis using no_queue [OF None]
    by (auto simp: r_def spec_send_def hu_mailbox_send_ex_def answered_def mail_rel_def)
next
  case (Some i)
  let ?ib = "mb_inboxes m ! i" and ?msg = "the_message now from_agent a ty payload correlation_id priority ttl_sec"
  let ?ib' = "?ib\<lparr>ib_msgs := (ib_msgs ?ib)[ib_tail ?ib := ?msg], ib_tail := ring_next (ib_tail ?ib)\<rparr>"
  have m: "mailbox_ok m" "queues m = s" "length (mb_inboxes m) = cap" using rel by (simp_all add: mail_rel_def)
  have ok: "inbox_ok ?ib" using m Some by (simp add: find_inbox_iff inbox_at)
  have q: "s a = Some (pending ?ib)" using queue_at [OF Some] m by simp
  show ?thesis
  proof (cases "inbox_full ?ib")
    case True
    then show ?thesis using Some rel q full_le [OF ok]
      by (auto simp: r_def spec_send_def hu_mailbox_send_ex_def answered_def Let_def)
  next
    case False
    have send: "hu_mailbox_send_ex now m from_agent a ty payload correlation_id priority ttl_sec = Ret (put_inbox m i ?ib')"
      using Some False by (simp add: hu_mailbox_send_ex_def Let_def put_inbox_def the_message_def hu_strndup_def option.map_comp comp_def)
    note p = pending_send [OF ok False, of ?msg]
    have "mailbox_ok (put_inbox m i ?ib')" "queues (put_inbox m i ?ib') = s(a \<mapsto> pending ?ib @ [?msg])"
      using put_inbox_same [OF m(1) Some p(2)] p(1) m(2) by simp_all
    then show ?thesis using send q False full_le [OF ok] m(3)
      by (auto simp: r_def spec_send_def answered_def mail_rel_def)
  qed
qed

lemma receive_simulates:
  assumes rel: "mail_rel cap m s"
  shows "\<exists>m'. mail_call (Receive now1 now2 a) m = Ret (m', snd (spec_receive now1 now2 a s)) \<and>
    mail_rel cap m' (fst (spec_receive now1 now2 a s))"
proof (cases "find_inbox m a")
  case None
  with rel show ?thesis using no_queue [OF None]
    by (auto simp: mail_call_def spec_receive_def hu_mailbox_recv_def mail_rel_def)
next
  case (Some i)
  let ?ib = "mb_inboxes m ! i" and ?q = "dropWhile (expired now1) (pending (mb_inboxes m ! i))"
  have m: "mailbox_ok m" "queues m = s" "length (mb_inboxes m) = cap" using rel by (simp_all add: mail_rel_def)
  have ok: "inbox_ok ?ib" using m Some by (simp add: find_inbox_iff inbox_at)
  have q: "s a = Some (pending ?ib)" using queue_at [OF Some] m by simp
  have "length (pending ?ib) < ring_fuel" using length_pending [OF ok] by (simp add: ring_fuel_def)
  from drop_pending [OF ok this, of now1] obtain h where
    h: "drop_expired_at_head ring_fuel now1 ?ib = Ret (?ib\<lparr>ib_head := h\<rparr>)" "inbox_ok (?ib\<lparr>ib_head := h\<rparr>)" "pending (?ib\<lparr>ib_head := h\<rparr>) = ?q" by blast
  let ?ib1 = "?ib\<lparr>ib_head := h\<rparr>"
  have empty: "ib_head ?ib1 = ib_tail ?ib1 \<longleftrightarrow> ?q = []" using pending_step [OF h(2)] h(3) by auto
  show ?thesis
  proof (cases "?q = []")
    case True
    have "hu_mailbox_recv now1 now2 m a = Ret (put_inbox m i ?ib1, None)"
      using Some h(1) empty True by (simp add: hu_mailbox_recv_def put_inbox_def)
    moreover have "mailbox_ok (put_inbox m i ?ib1)" "queues (put_inbox m i ?ib1) = s(a \<mapsto> [])"
      using put_inbox_same [OF m(1) Some h(2)] h(3) True m(2) by simp_all
    ultimately show ?thesis using q True m(3) by (simp add: mail_call_def spec_receive_def mail_rel_def)
  next
    case False
    let ?b = "best_index now2 ?q"
    have b: "?b < length (pending ?ib1)" using best_index_less [OF False] h(3) by simp
    have find: "find_highest_priority_index ?ib1 now2 = Ret (ring_at (ib_head ?ib1) ?b)" using find_highest [OF h(2)] h(3) False by simp
    from take_best_pending [OF h(2) b] obtain ms h' where
      t: "take_best ?ib1 (ring_at (ib_head ?ib1) ?b) = (?ib1\<lparr>ib_msgs := ms, ib_head := h'\<rparr>, ?q ! ?b)"
         "inbox_ok (?ib1\<lparr>ib_msgs := ms, ib_head := h'\<rparr>)" "pending (?ib1\<lparr>ib_msgs := ms, ib_head := h'\<rparr>) = take_at ?b ?q"
      using h(3) by auto
    let ?ib2 = "?ib1\<lparr>ib_msgs := ms, ib_head := h'\<rparr>"
    have ne: "ib_head ?ib1 \<noteq> ib_tail ?ib1" using empty False by simp
    have "hu_mailbox_recv now1 now2 m a = Ret (put_inbox m i ?ib2, Some (?q ! ?b))"
      unfolding hu_mailbox_recv_def Some option.case h(1) obind.simps if_not_P [OF ne] find t(1) Let_def prod.case put_inbox_def ..
    moreover have "mailbox_ok (put_inbox m i ?ib2)" "queues (put_inbox m i ?ib2) = s(a \<mapsto> take_at ?b ?q)"
      using put_inbox_same [OF m(1) Some t(2)] t(3) m(2) by simp_all
    ultimately show ?thesis using q False m(3) by (simp add: mail_call_def spec_receive_def mail_rel_def Let_def)
  qed
qed

lemma zero_inbox_ok: "inbox_ok (zero_inbox\<lparr>ib_agent_id := a, ib_registered := r\<rparr>)" "pending (zero_inbox\<lparr>ib_agent_id := a, ib_registered := r\<rparr>) = []"
proof -
  show ok: "inbox_ok (zero_inbox\<lparr>ib_agent_id := a, ib_registered := r\<rparr>)" by (simp add: inbox_ok_def zero_inbox_def) (simp add: HU_INBOX_CAP_def)
  show "pending (zero_inbox\<lparr>ib_agent_id := a, ib_registered := r\<rparr>) = []" using pending_step [OF ok] by (simp add: zero_inbox_def)
qed

lemma register_simulates:
  assumes rel: "mail_rel cap m s"
  shows "\<exists>m'. mail_call (Register a) m = Ret (m', snd (mail_spec cap (Register a) s)) \<and> mail_rel cap m' (fst (mail_spec cap (Register a) s))"
proof -
  have m: "mailbox_ok m" "queues m = s" "length (mb_inboxes m) = cap" using rel by (simp_all add: mail_rel_def)
  have d: "a \<in> dom s \<longleftrightarrow> find_inbox m a \<noteq> None" using m(2) by (auto simp: queues_def dom_def)
  show ?thesis
  proof (cases "find_inbox m a")
    case (Some i)
    then show ?thesis using rel d by (simp add: mail_call_def hu_mailbox_register_def answered_def mail_spec_def)
  next
    case None
    show ?thesis
    proof (cases "first_inbox (\<lambda>ib. \<not> ib_registered ib) 0 (mb_inboxes m)")
      case full: None
      with None d rel m free_inbox [OF m(1)] show ?thesis by (simp add: mail_call_def hu_mailbox_register_def answered_def mail_spec_def)
    next
      case free: (Some i)
      let ?ib = "zero_inbox\<lparr>ib_agent_id := a, ib_registered := True\<rparr>"
      have i: "i < length (mb_inboxes m)" "\<not> ib_registered (mb_inboxes m ! i)" using first_inbox_Some [OF free] by simp_all
      have "hu_mailbox_register m a = Ret (put_inbox m i ?ib)" using None free by (simp add: hu_mailbox_register_def put_inbox_def)
      moreover have "ib_registered ?ib \<Longrightarrow> find_inbox m (ib_agent_id ?ib) = None \<or> find_inbox m (ib_agent_id ?ib) = Some i" using None by simp
      note c = put_inbox_change [OF m(1) i(1) zero_inbox_ok(1) this]
      have "find_inbox m b \<noteq> Some i" for b using i(2) by (simp add: find_inbox_iff [OF m(1)])
      then have "queues (put_inbox m i ?ib) = s(a \<mapsto> [])" using c(2) m(2) by (auto simp: zero_inbox_ok(2))
      ultimately show ?thesis using None d rel m free free_inbox [OF m(1)] c(1)
        by (simp add: mail_call_def answered_def mail_spec_def mail_rel_def)
    qed
  qed
qed

lemma unregister_simulates:
  assumes rel: "mail_rel cap m s"
  shows "\<exists>m'. mail_call (Unregister a) m = Ret (m', snd (mail_spec cap (Unregister a) s)) \<and> mail_rel cap m' (fst (mail_spec cap (Unregister a) s))"
proof -
  have m: "mailbox_ok m" "queues m = s" "length (mb_inboxes m) = cap" using rel by (simp_all add: mail_rel_def)
  have d: "a \<in> dom s \<longleftrightarrow> find_inbox m a \<noteq> None" using m(2) by (auto simp: queues_def dom_def)
  show ?thesis
  proof (cases "find_inbox m a")
    case None
    then show ?thesis using rel d by (simp add: mail_call_def hu_mailbox_unregister_def answered_def mail_spec_def)
  next
    case (Some i)
    let ?ib = "mb_inboxes m ! i"
    have i: "i < length (mb_inboxes m)" using Some by (simp add: find_inbox_iff [OF m(1)])
    have ok: "inbox_ok ?ib" using m(1) i by (rule inbox_at)
    have "length (pending ?ib) < ring_fuel" using length_pending [OF ok] by (simp add: ring_fuel_def)
    from drain_empty [OF ok this] obtain h where h: "drain ring_fuel ?ib = Ret (?ib\<lparr>ib_head := h\<rparr>)" "inbox_ok (?ib\<lparr>ib_head := h\<rparr>)" by blast
    let ?new = "?ib\<lparr>ib_head := h, ib_registered := False\<rparr>"
    have "hu_mailbox_unregister m a = Ret (put_inbox m i ?new)" using Some h(1) by (simp add: hu_mailbox_unregister_def put_inbox_def)
    moreover have "inbox_ok ?new" using h(2) by (simp add: inbox_ok_def)
    note c = put_inbox_change [OF m(1) i this]
    have "find_inbox m b = Some i \<longleftrightarrow> b = a" for b using Some by (metis find_inbox_iff [OF m(1)])
    then have "queues (put_inbox m i ?new) = s(a := None)" using c(2) m(2) by auto
    ultimately show ?thesis using Some d m(3) c(1) by (simp add: mail_call_def answered_def mail_spec_def mail_rel_def)
  qed
qed

section \<open>Broadcasting\<close>

definition bump :: "(nat \<Rightarrow> nat) \<Rightarrow> nat \<Rightarrow> hu_msg_type \<Rightarrow> string option \<Rightarrow> nat \<Rightarrow> hu_message list \<Rightarrow> hu_message list" where
  "bump now from_agent ty payload a q =
     (if a = from_agent \<or> length q \<ge> HU_INBOX_CAP - 1 then q
      else q @ [the_message (now a) from_agent a ty payload 0 HU_MSG_PRIO_NORMAL 0])"

lemma spec_broadcast_bump: "spec_broadcast now from_agent ty payload s a = map_option (bump now from_agent ty payload a) (s a)"
  by (auto simp: spec_broadcast_def bump_def spec_send_def split: option.split)

lemma first_inbox_update:
  "j < length ibs \<Longrightarrow> P ib = P (ibs ! j) \<Longrightarrow> first_inbox P i (ibs[j := ib]) = first_inbox P i ibs"
proof (induction ibs arbitrary: i j)
  case (Cons x ibs)
  then show ?case by (cases j) auto
qed simp

lemma send_keeps_place:
  assumes "answered m (hu_mailbox_send_ex now m from_agent to_agent ty payload correlation_id priority ttl_sec) = Ret (m', r)"
  shows "find_inbox m' a = find_inbox m a" "length (mb_inboxes m') = length (mb_inboxes m)"
proof -
  have "find_inbox m' a = find_inbox m a \<and> length (mb_inboxes m') = length (mb_inboxes m)"
  proof (cases "find_inbox m to_agent")
    case (Some i)
    then have "i < length (mb_inboxes m)" using first_inbox_Some [OF Some [unfolded find_inbox_def]] by simp
    with assms Some show ?thesis
      by (auto simp: answered_def hu_mailbox_send_ex_def Let_def find_inbox_def first_inbox_update split: if_splits)
  qed (use assms in \<open>auto simp: answered_def hu_mailbox_send_ex_def\<close>)
  then show "find_inbox m' a = find_inbox m a" "length (mb_inboxes m') = length (mb_inboxes m)" by simp_all
qed

lemma broadcast_loop_queues:
  assumes "mailbox_ok m" "distinct is" "\<forall>i \<in> set is. i < length (mb_inboxes m)"
  shows "mailbox_ok (broadcast_loop now m from_agent ty payload is) \<and>
    length (mb_inboxes (broadcast_loop now m from_agent ty payload is)) = length (mb_inboxes m) \<and>
    (\<forall>a. queues (broadcast_loop now m from_agent ty payload is) a = (if find_inbox m a \<in> Some ` set is then map_option (bump now from_agent ty payload a) (queues m a) else queues m a))"
  using assms
proof (induction "is" arbitrary: m)
  case (Cons i "is")
  let ?b = "bump now from_agent ty payload" and ?ib = "mb_inboxes m ! i"
  have i: "i < length (mb_inboxes m)" "i \<notin> set is" using Cons.prems by simp_all
  show ?case
  proof (cases "\<not> ib_registered ?ib \<or> ib_agent_id ?ib = from_agent")
    case True
    have "map_option (?b a) (queues m a) = queues m a" if "find_inbox m a = Some i" for a
    proof -
      have "a = from_agent" using that True by (auto simp: find_inbox_iff [OF Cons.prems(1)])
      then show ?thesis by (cases "queues m a") (simp_all add: bump_def)
    qed
    then have "(if find_inbox m a \<in> Some ` set is then map_option (?b a) (queues m a) else queues m a) =
        (if find_inbox m a \<in> Some ` set (i # is) then map_option (?b a) (queues m a) else queues m a)" for a by auto
    with Cons.IH [of m] Cons.prems True show ?thesis by (simp add: Let_def)
  next
    case False
    let ?a = "ib_agent_id ?ib" and ?msg = "the_message (now (ib_agent_id ?ib)) from_agent (ib_agent_id ?ib) ty payload 0 HU_MSG_PRIO_NORMAL 0"
    have find: "find_inbox m ?a = Some i" using False i by (simp add: find_inbox_iff [OF Cons.prems(1)])
    have "mail_rel (length (mb_inboxes m)) m (queues m)" using Cons.prems by (simp add: mail_rel_def)
    from send_simulates [OF this refl, of "now ?a" from_agent ?a ty payload 0 HU_MSG_PRIO_NORMAL 0]
    obtain m1 r where m1: "answered m (hu_mailbox_send (now ?a) m from_agent ?a ty payload 0) = Ret (m1, r)"
      "mail_rel (length (mb_inboxes m)) m1 (fst (spec_send ?a ?msg (queues m)))" by (auto simp: hu_mailbox_send_def)
    note keep = send_keeps_place [OF m1(1) [unfolded hu_mailbox_send_def]]
    have loop: "broadcast_loop now m from_agent ty payload (i # is) = broadcast_loop now m1 from_agent ty payload is"
      using False m1(1) by (auto simp: Let_def answered_def split: outcome.splits)
    have q1: "queues m1 b = (if b = ?a then map_option (?b b) (queues m b) else queues m b)" for b
      using m1(2) False by (auto simp: mail_rel_def spec_send_def bump_def split: option.split)
    have "mailbox_ok m1" using m1(2) by (simp add: mail_rel_def)
    from Cons.IH [OF this] Cons.prems keep(2) have IH: "mailbox_ok (broadcast_loop now m1 from_agent ty payload is)"
      "length (mb_inboxes (broadcast_loop now m1 from_agent ty payload is)) = length (mb_inboxes m)"
      "queues (broadcast_loop now m1 from_agent ty payload is) b =
        (if find_inbox m b \<in> Some ` set is then map_option (?b b) (queues m1 b) else queues m1 b)" for b
      using keep(1) by auto
    have f: "find_inbox m b = Some i \<longleftrightarrow> b = ?a" for b using find by (metis find_inbox_iff [OF Cons.prems(1)])
    have "find_inbox m b \<in> Some ` set (i # is) \<longleftrightarrow> b = ?a \<or> find_inbox m b \<in> Some ` set is" for b
      using f [of b] by auto
    moreover have "find_inbox m ?a \<notin> Some ` set is" using find i(2) by auto
    ultimately show ?thesis unfolding loop using IH q1 by auto
  qed
qed simp

lemma broadcast_simulates:
  assumes rel: "mail_rel cap m s"
  shows "mail_rel cap (hu_mailbox_broadcast now m from_agent ty payload) (spec_broadcast now from_agent ty payload s)"
proof -
  have m: "mailbox_ok m" "queues m = s" "length (mb_inboxes m) = cap" using rel by (simp_all add: mail_rel_def)
  have "find_inbox m a \<notin> Some ` {0..<length (mb_inboxes m)} \<Longrightarrow> queues m a = None" for a
    by (cases "find_inbox m a") (auto simp: queues_def find_inbox_iff [OF m(1)])
  with broadcast_loop_queues [OF m(1), of "[0..<length (mb_inboxes m)]" now from_agent ty payload] m
  show ?thesis by (auto simp: mail_rel_def hu_mailbox_broadcast_def spec_broadcast_bump fun_eq_iff)
qed

section \<open>The contract\<close>

lemma mail_simulates:
  assumes rel: "mail_rel cap m s"
  shows "\<exists>m'. mail_call c m = Ret (m', snd (mail_spec cap c s)) \<and> mail_rel cap m' (fst (mail_spec cap c s))"
proof (cases c)
  case (Register a)
  with register_simulates [OF rel] show ?thesis by simp
next
  case (Unregister a)
  with unregister_simulates [OF rel] show ?thesis by simp
next
  case (SendEx now from_agent to_agent ty payload correlation_id priority ttl_sec)
  with send_simulates [OF rel refl] show ?thesis by (simp add: mail_call_def mail_spec_def)
next
  case (Receive now1 now2 a)
  with receive_simulates [OF rel] show ?thesis by (simp add: mail_spec_def)
next
  case (Broadcast now from_agent ty payload)
  with broadcast_simulates [OF rel] show ?thesis by (simp add: mail_call_def mail_spec_def)
next
  case (Pending a)
  have m: "mailbox_ok m" "queues m = s" using rel by (simp_all add: mail_rel_def)
  have "hu_mailbox_pending_count m a = (case s a of None \<Rightarrow> 0 | Some q \<Rightarrow> length q)"
  proof (cases "find_inbox m a")
    case (Some i)
    then have "inbox_ok (mb_inboxes m ! i)" using m(1) by (simp add: find_inbox_iff inbox_at)
    with Some m(2) show ?thesis by (auto simp: hu_mailbox_pending_count_def queues_def length_pending)
  qed (use m(2) in \<open>auto simp: hu_mailbox_pending_count_def queues_def\<close>)
  with Pending rel show ?thesis by (simp add: mail_call_def mail_spec_def)
qed

interpretation mail: lasting_contract mail_call "mail_spec cap" "\<lambda>_. True" "mail_rel cap" for cap
  by unfold_locales (rule mail_simulates)

lemma create_rel:
  assumes "hu_mailbox_create max_agents = Some m"
  shows "mail_rel max_agents m Map.empty"
proof -
  have "m = \<lparr>mb_inboxes = replicate max_agents zero_inbox\<rparr>" using assms by (simp add: hu_mailbox_create_def split: if_splits)
  moreover have "inbox_ok zero_inbox" by (simp add: inbox_ok_def zero_inbox_def) (simp add: HU_INBOX_CAP_def)
  ultimately show ?thesis
    by (auto simp: mail_rel_def mailbox_ok_def list_all_length queues_def find_inbox_def first_inbox_None zero_inbox_def fun_eq_iff)
qed

text \<open>
  C20: from a new mailbox on, any sequence of calls (registering, unregistering, sending with any priority and lifetime,
  receiving, broadcasting, counting) ends without undefined behaviour and answers as a map from the registered agents
  to their queues of at most 255 messages does; after it the mailbox can be destroyed.
\<close>

theorem mailbox_refines:
  assumes "hu_mailbox_create max_agents = Some m"
  shows "\<exists>m'. run_calls mail_call cs m = Ret (m', snd (run_spec (mail_spec max_agents) cs Map.empty)) \<and>
    queues m' = fst (run_spec (mail_spec max_agents) cs Map.empty) \<and> hu_mailbox_destroy (mb_inboxes m') = Ret ()"
proof -
  obtain m' where "run_calls mail_call cs m = Ret (m', snd (run_spec (mail_spec max_agents) cs Map.empty))"
    "mail_rel max_agents m' (fst (run_spec (mail_spec max_agents) cs Map.empty))"
    using mail.run_lasts [OF create_rel [OF assms], of cs] by (auto simp: list_all_iff)
  then show ?thesis using destroy_ends by (auto simp: mail_rel_def mailbox_ok_def)
qed

definition sample_mail :: "mail_call list" where
  "sample_mail =
     [Register 7, Register 8, Register 9, SendEx 100 8 7 HU_MSG_TASK (Some ''a'') 1 HU_MSG_PRIO_NORMAL 0,
      SendEx 100 8 7 HU_MSG_TASK (Some ''b'') 2 HU_MSG_PRIO_NORMAL 0, SendEx 100 8 7 HU_MSG_QUERY None 3 HU_MSG_PRIO_HIGH 5,
      Receive 101 101 7, Receive 101 101 7, Receive 101 101 7, Receive 101 101 7, Pending 7]"

definition empty_mailbox :: hu_mailbox where
  "empty_mailbox = \<lparr>mb_inboxes = replicate 2 zero_inbox\<rparr>"

lemma mailbox_refines_witness:
  "\<exists>m'. run_calls mail_call sample_mail empty_mailbox = Ret (m', snd (run_spec (mail_spec 2) sample_mail Map.empty)) \<and>
     queues m' = fst (run_spec (mail_spec 2) sample_mail Map.empty) \<and> hu_mailbox_destroy (mb_inboxes m') = Ret ()"
  by (rule mailbox_refines) (simp add: hu_mailbox_create_def empty_mailbox_def)

text \<open>
  What the sample receives: the urgent message first, and then the two others, but the later of them before the
  earlier: the message at the head had taken the place of the urgent one, behind it.
\<close>

lemmas mail_eval = mail_spec_def spec_send_def spec_receive_def the_message_def HU_INBOX_CAP_def expired_def best_index_def
  rank_def take_at_def cstr_def

lemma mailbox_equal_priority_swapped:
  "map (\<lambda>r. case r of Got msg \<Rightarrow> hm_correlation_id msg | Waiting n \<Rightarrow> n | Okay \<Rightarrow> 100 | Refused e \<Rightarrow> 200)
     (snd (run_spec (mail_spec 2) sample_mail Map.empty)) = [100, 100, 200, 100, 100, 100, 3, 2, 1, 200, 0]"
  by (simp add: sample_mail_def mail_eval card_insert_if)

section \<open>What is received\<close>

lemma mset_take_at:
  assumes "b < length q"
  shows "mset q = add_mset (q ! b) (mset (take_at b q))"
proof (cases b)
  case 0
  with assms show ?thesis by (cases q) (simp_all add: take_at_def)
next
  case (Suc k)
  then obtain x q' where q: "q = x # q'" "k < length q'" using assms by (cases q) auto
  then have "mset (q'[k := x]) = add_mset x (mset q' - {#q' ! k#})" by (simp add: mset_update)
  moreover have "q' ! k \<in># mset q'" using q by simp
  ultimately show ?thesis using q Suc by (simp add: take_at_def)
qed

lemma set_take_at: "b < length q \<Longrightarrow> set (take_at b q) \<subseteq> set q"
  using mset_take_at [of b q] by (metis mset_subset_eq_add_right add_mset_add_single set_mset_mono set_mset_mset union_commute)

lemma expired_later: "expired now1 msg \<Longrightarrow> now1 \<le> now2 \<Longrightarrow> expired now2 msg"
  by (auto simp: expired_def)

text \<open>
  C21: a message that is received was waiting and had not expired; none that waits has a higher priority; the expired
  ones at the head of the queue are gone, every other message still waits, and no other agent's queue changes.
\<close>

theorem mailbox_recv_best:
  assumes "hu_mailbox_create max_agents = Some m0" "run_calls mail_call cs m0 = Ret (m, as)"
    and "mail_call (Receive now1 now2 a) m = Ret (m', Got msg)" "now1 \<le> now2"
  shows "\<exists>q q'. queues m a = Some q \<and> queues m' = (queues m)(a \<mapsto> q') \<and> \<not> expired now1 msg \<and>
    mset q = mset (takeWhile (expired now1) q) + {#msg#} + mset q' \<and>
    (\<forall>x \<in> set q'. expired now2 x \<or> prio_val (hm_priority x) \<le> prio_val (hm_priority msg))"
proof -
  have rel: "mail_rel max_agents m (queues m)"
    using mail.run_lasts [OF create_rel [OF assms(1)], of cs] assms(2) by (auto simp: list_all_iff mail_rel_def)
  from mail_simulates [OF rel, of "Receive now1 now2 a"] assms(3)
  have r: "snd (spec_receive now1 now2 a (queues m)) = Got msg" "queues m' = fst (spec_receive now1 now2 a (queues m))"
    by (auto simp: mail_spec_def mail_rel_def)
  obtain q where q: "queues m a = Some q" using r(1) by (cases "queues m a") (simp_all add: spec_receive_def)
  define d where "d = dropWhile (expired now1) q"
  let ?b = "best_index now2 d"
  have d: "d \<noteq> []" "msg = d ! ?b" "queues m' = (queues m)(a \<mapsto> take_at ?b d)"
    using r q by (auto simp: spec_receive_def Let_def d_def split: if_splits)
  have b: "?b < length d" by (rule best_index_less [OF d(1)])
  have "mset q = mset (takeWhile (expired now1) q) + mset d" unfolding d_def by (metis mset_append takeWhile_dropWhile_id)
  with mset_take_at [OF b] d(2) have ms: "mset q = mset (takeWhile (expired now1) q) + {#msg#} + mset (take_at ?b d)" by simp
  have live: "\<not> expired now1 msg"
  proof (cases "?b = 0")
    case True
    have "\<not> expired now1 (hd d)" using d(1) unfolding d_def by (metis hd_dropWhile)
    with d(1,2) True show ?thesis by (simp add: hd_conv_nth)
  next
    case False
    then have "rank now2 (d ! 0) < rank now2 msg" using best_index_first [of 0 now2 d] d(2) by simp
    with rank_low [of now2 "d ! 0"] have "\<not> expired now2 msg" by (auto simp: rank_def)
    with assms(4) show ?thesis using expired_later by blast
  qed
  have "expired now2 x \<or> prio_val (hm_priority x) \<le> prio_val (hm_priority msg)" if "x \<in> set (take_at ?b d)" for x
  proof -
    have "x \<in> set d" using that set_take_at [OF b] by blast
    then have "rank now2 x \<le> rank now2 msg" using best_index_rank [OF d(1)] d(2) by simp
    then show ?thesis using prio_val_pos [of "hm_priority x"] prio_val_pos [of "hm_priority msg"] by (auto simp: rank_def split: if_splits)
  qed
  with q d(3) ms live show ?thesis by blast
qed

definition two_letters :: "mail_call list" where
  "two_letters = [Register 7, SendEx 100 8 7 HU_MSG_TASK (Some ''a'') 1 HU_MSG_PRIO_LOW 3,
     SendEx 100 8 7 HU_MSG_TASK (Some ''b'') 2 HU_MSG_PRIO_HIGH 0, SendEx 100 8 7 HU_MSG_TASK (Some ''c'') 3 HU_MSG_PRIO_LOW 0]"

lemma mailbox_recv_best_witness:
  "\<exists>m as m' msg q q'. run_calls mail_call two_letters empty_mailbox = Ret (m, as) \<and>
     mail_call (Receive 105 106 7) m = Ret (m', Got msg) \<and> queues m 7 = Some q \<and> queues m' = (queues m)(7 \<mapsto> q') \<and>
     \<not> expired 105 msg \<and> mset q = mset (takeWhile (expired 105) q) + {#msg#} + mset q' \<and>
     (\<forall>x \<in> set q'. expired 106 x \<or> prio_val (hm_priority x) \<le> prio_val (hm_priority msg))"
proof -
  have new: "hu_mailbox_create 2 = Some empty_mailbox" by (simp add: hu_mailbox_create_def empty_mailbox_def)
  have "list_all (\<lambda>_. True) two_letters" by (simp add: list_all_iff)
  from mail.run_lasts [OF create_rel [OF new] this] obtain m as where m: "run_calls mail_call two_letters empty_mailbox = Ret (m, as)"
    "mail_rel 2 m (fst (run_spec (mail_spec 2) two_letters Map.empty))" by metis
  have "snd (mail_spec 2 (Receive 105 106 7) (fst (run_spec (mail_spec 2) two_letters Map.empty))) =
      Got (the_message 100 8 7 HU_MSG_TASK (Some ''b'') 2 HU_MSG_PRIO_HIGH 0)"
    by (simp add: two_letters_def mail_eval)
  with mail_simulates [OF m(2), of "Receive 105 106 7"] obtain m' msg where m': "mail_call (Receive 105 106 7) m = Ret (m', Got msg)" by auto
  from mailbox_recv_best [OF new m(1) m'] m(1) m' show ?thesis by auto
qed

section \<open>The order of arrival\<close>

definition sent_to :: "nat \<Rightarrow> mail_call \<Rightarrow> mail_answer \<Rightarrow> hu_message list" where
  "sent_to a c r =
     (case c of
        SendEx now from_agent to_agent ty payload correlation_id priority ttl_sec \<Rightarrow>
          if to_agent = a \<and> r = Okay then [the_message now from_agent to_agent ty payload correlation_id priority ttl_sec] else []
      | _ \<Rightarrow> [])"

definition got_by :: "nat \<Rightarrow> mail_call \<Rightarrow> mail_answer \<Rightarrow> hu_message list" where
  "got_by a c r = (case c of Receive now1 now2 b \<Rightarrow> if b = a then (case r of Got msg \<Rightarrow> [msg] | _ \<Rightarrow> []) else [] | _ \<Rightarrow> [])"

text \<open>The agent stays registered, and what it is sent has one priority and no end of life.\<close>

definition plain_call :: "hu_msg_priority \<Rightarrow> nat \<Rightarrow> mail_call \<Rightarrow> bool" where
  "plain_call p a c =
     (case c of
        Unregister b \<Rightarrow> b \<noteq> a
      | SendEx now from_agent to_agent ty payload correlation_id priority ttl_sec \<Rightarrow> to_agent = a \<longrightarrow> priority = p \<and> ttl_sec = 0
      | Broadcast now from_agent ty payload \<Rightarrow> from_agent = a
      | _ \<Rightarrow> True)"

definition plain_queue :: "hu_msg_priority \<Rightarrow> hu_message list \<Rightarrow> bool" where
  "plain_queue p q \<longleftrightarrow> list_all (\<lambda>msg. hm_priority msg = p \<and> hm_ttl_sec msg = 0) q"

lemma best_index_plain:
  assumes "plain_queue p q"
  shows "best_index now q = 0"
proof (cases q)
  case (Cons x q')
  have r: "rank now x = prio_val p" if "x \<in> set q" for x
    using assms that by (simp add: plain_queue_def list_all_iff rank_def expired_def)
  then have "rank now ` set q \<subseteq> {prio_val p}" by auto
  then have "rank now ` set q = {prio_val p}" using Cons by (metis image_is_empty list.distinct(1) set_empty subset_singletonD)
  then have "Max (rank now ` set q) = prio_val p" by simp
  with r [of x] Cons show ?thesis by (simp only: best_index_def) simp
qed (simp add: best_index_def)

lemma plain_step:
  assumes "s a = Some q" "plain_queue p q" "plain_call p a c"
  shows "\<exists>q'. fst (mail_spec cap c s) a = Some q' \<and> plain_queue p q' \<and>
    q @ sent_to a c (snd (mail_spec cap c s)) = got_by a c (snd (mail_spec cap c s)) @ q'"
proof (cases c)
  case (SendEx now from_agent to_agent ty payload correlation_id priority ttl_sec)
  with assms show ?thesis
    by (auto simp: mail_spec_def spec_send_def sent_to_def got_by_def plain_call_def plain_queue_def the_message_def split: option.split)
next
  case (Receive now1 now2 b)
  have live: "dropWhile (expired now1) q = q" using assms(2) by (cases q) (simp_all add: plain_queue_def expired_def)
  show ?thesis
  proof (cases "b = a \<and> q \<noteq> []")
    case True
    with assms live Receive best_index_plain [OF assms(2)] show ?thesis
      by (cases q) (auto simp: mail_spec_def spec_receive_def sent_to_def got_by_def take_at_def plain_queue_def)
  next
    case False
    with assms live Receive show ?thesis
      by (auto simp: mail_spec_def spec_receive_def sent_to_def got_by_def plain_queue_def Let_def split: option.split)
  qed
qed (use assms in \<open>auto simp: mail_spec_def spec_broadcast_def sent_to_def got_by_def plain_call_def\<close>)

lemma plain_run:
  assumes "s a = Some q" "plain_queue p q" "list_all (plain_call p a) cs"
  shows "\<exists>q'. fst (run_spec (mail_spec cap) cs s) a = Some q' \<and>
    q @ concat (map2 (sent_to a) cs (snd (run_spec (mail_spec cap) cs s))) = concat (map2 (got_by a) cs (snd (run_spec (mail_spec cap) cs s))) @ q'"
  using assms
proof (induction cs arbitrary: s q)
  case (Cons c cs)
  let ?s = "fst (mail_spec cap c s)" and ?r = "snd (mail_spec cap c s)"
  obtain q1 where q1: "?s a = Some q1" "plain_queue p q1" "q @ sent_to a c ?r = got_by a c ?r @ q1"
    using plain_step [of s a q p c cap] Cons.prems by auto
  obtain q' where "fst (run_spec (mail_spec cap) cs ?s) a = Some q'"
    "q1 @ concat (map2 (sent_to a) cs (snd (run_spec (mail_spec cap) cs ?s))) = concat (map2 (got_by a) cs (snd (run_spec (mail_spec cap) cs ?s))) @ q'"
    using Cons.IH [of ?s q1] q1(1,2) Cons.prems(3) by auto
  then have "q @ sent_to a c ?r @ concat (map2 (sent_to a) cs (snd (run_spec (mail_spec cap) cs ?s))) =
      got_by a c ?r @ concat (map2 (got_by a) cs (snd (run_spec (mail_spec cap) cs ?s))) @ q'"
    using q1(3) by (metis append.assoc)
  with \<open>fst (run_spec (mail_spec cap) cs ?s) a = Some q'\<close> show ?case by (simp add: case_prod_unfold Let_def)
qed simp

text \<open>
  C22: as long as an agent stays registered, nobody else broadcasts, and every message sent to it has the same priority
  and no lifetime, its messages arrive in the order in which they were accepted, none lost and none doubled: what it has
  received, followed by what waits for it, is what it was sent.  What other agents send each other, receive and count,
  and who registers or leaves, does not matter.  (With messages of several priorities those of one priority may be
  swapped: \<open>mailbox_equal_priority_swapped\<close>.)
\<close>

theorem mailbox_fifo:
  assumes "hu_mailbox_create max_agents = Some m" "list_all (plain_call p a) cs"
  shows "\<exists>m' as q. run_calls mail_call (Register a # cs) m = Ret (m', Okay # as) \<and> queues m' a = Some q \<and>
    concat (map2 (sent_to a) cs as) = concat (map2 (got_by a) cs as) @ q"
proof -
  have "0 < max_agents" using assms(1) by (simp add: hu_mailbox_create_def split: if_splits)
  then have reg: "mail_spec max_agents (Register a) Map.empty = ([a \<mapsto> []], Okay)" by (simp add: mail_spec_def)
  obtain m' where m': "run_calls mail_call (Register a # cs) m = Ret (m', snd (run_spec (mail_spec max_agents) (Register a # cs) Map.empty))"
    "mail_rel max_agents m' (fst (run_spec (mail_spec max_agents) (Register a # cs) Map.empty))"
    using mail.run_lasts [OF create_rel [OF assms(1)], of "Register a # cs"] by (auto simp: list_all_iff)
  let ?run = "run_spec (mail_spec max_agents) cs [a \<mapsto> []]"
  have run: "run_spec (mail_spec max_agents) (Register a # cs) Map.empty = (fst ?run, Okay # snd ?run)"
    by (simp only: run_spec.simps reg case_prod_unfold Let_def fst_conv snd_conv)
  obtain q where q: "fst ?run a = Some q" "[] @ concat (map2 (sent_to a) cs (snd ?run)) = concat (map2 (got_by a) cs (snd ?run)) @ q"
    using plain_run [of "[a \<mapsto> []]" a "[]" p cs max_agents] assms(2) by (auto simp: plain_queue_def)
  have "run_calls mail_call (Register a # cs) m = Ret (m', Okay # snd ?run)" using m'(1) by (simp only: run snd_conv)
  moreover have "queues m' a = Some q" using m'(2) [unfolded run] q(1) by (simp add: mail_rel_def)
  ultimately show ?thesis using q(2) by (simp only: append_Nil) blast
qed

lemma mailbox_fifo_witness:
  "\<exists>m' as q. run_calls mail_call (Register 7 # [SendEx 100 8 7 HU_MSG_TASK (Some ''a'') 1 HU_MSG_PRIO_LOW 0, Receive 101 102 7,
       SendEx 103 8 7 HU_MSG_TASK (Some ''b'') 2 HU_MSG_PRIO_LOW 0]) empty_mailbox = Ret (m', Okay # as) \<and> queues m' 7 = Some q \<and>
     concat (map2 (sent_to 7) [SendEx 100 8 7 HU_MSG_TASK (Some ''a'') 1 HU_MSG_PRIO_LOW 0, Receive 101 102 7,
       SendEx 103 8 7 HU_MSG_TASK (Some ''b'') 2 HU_MSG_PRIO_LOW 0] as) =
     concat (map2 (got_by 7) [SendEx 100 8 7 HU_MSG_TASK (Some ''a'') 1 HU_MSG_PRIO_LOW 0, Receive 101 102 7,
       SendEx 103 8 7 HU_MSG_TASK (Some ''b'') 2 HU_MSG_PRIO_LOW 0] as) @ q"
  by (rule mailbox_fifo [of 2 empty_mailbox HU_MSG_PRIO_LOW]) (simp_all add: hu_mailbox_create_def empty_mailbox_def plain_call_def)

end
