(* ===== verification/HuWebSocket.thy ===== *)
theory HuWebSocket
  imports HuPrelude "HOL-Library.Word"
begin

unbundle bit_operations_syntax

text \<open>
  \<^verbatim>\<open>src/websocket/websocket.c\<close>: WebSocket frames and the client that sends and receives messages with them.

  Bytes are 8-bit words, lengths natural numbers.  A connection is what the peer still sends before it ends
  (\<open>wc_in\<close>) and what was sent to it (\<open>wc_out\<close>): the code asks the socket again until it has the bytes it wants or
  the connection ends, so how the system cuts the stream into pieces does not matter.  Sending succeeds.  A
  fragment buffer is its contents and its capacity, and writes outside it are undefined behaviour.  Setting up the
  connection (sockets, TLS, the HTTP upgrade) is not modelled.
\<close>

type_synonym byte = "8 word"

definition HU_WS_MAX_FRAME_PAYLOAD :: nat where "HU_WS_MAX_FRAME_PAYLOAD = 4 * 1024 * 1024"
definition HU_WS_MAX_MSG :: nat where "HU_WS_MAX_MSG = 64 * 1024"

definition HU_WS_OP_CONTINUATION :: nat where "HU_WS_OP_CONTINUATION = 0"
definition HU_WS_OP_TEXT :: nat where "HU_WS_OP_TEXT = 1"
definition HU_WS_OP_BINARY :: nat where "HU_WS_OP_BINARY = 2"
definition HU_WS_OP_CLOSE :: nat where "HU_WS_OP_CLOSE = 8"
definition HU_WS_OP_PING :: nat where "HU_WS_OP_PING = 9"
definition HU_WS_OP_PONG :: nat where "HU_WS_OP_PONG = 10"

section \<open>Frames\<close>

text \<open>The byte of a number, \<^verbatim>\<open>(char)((n >> s) & 0xFF)\<close>.\<close>

definition byte_at :: "nat \<Rightarrow> nat \<Rightarrow> byte" where
  "byte_at n s = word_of_nat (drop_bit s n AND 0xFF)"

text \<open>What is written before the payload.\<close>

definition frame_head :: "nat \<Rightarrow> nat \<Rightarrow> byte list \<Rightarrow> byte list" where
  "frame_head opcode payload_len mask_key =
     [word_of_nat (0x80 OR (opcode AND 0x0F))] @
     (if payload_len \<le> 125 then [word_of_nat (0x80 OR (payload_len AND 0x7F))]
      else if payload_len \<le> 65535 then [0x80 OR 126, byte_at payload_len 8, byte_at payload_len 0]
      else [0x80 OR 127, byte_at payload_len 56, byte_at payload_len 48, byte_at payload_len 40, byte_at payload_len 32,
            byte_at payload_len 24, byte_at payload_len 16, byte_at payload_len 8, byte_at payload_len 0]) @
     [mask_key ! 0, mask_key ! 1, mask_key ! 2, mask_key ! 3]"

text \<open>The mask; \<open>i\<close> is the position in the payload.\<close>

fun mask_from :: "nat \<Rightarrow> byte list \<Rightarrow> byte list \<Rightarrow> byte list" where
  "mask_from i mask_key [] = []"
| "mask_from i mask_key (b # bs) = (b XOR mask_key ! (i mod 4)) # mask_from (i + 1) mask_key bs"

definition hu_ws_apply_mask :: "byte list \<Rightarrow> byte list \<Rightarrow> byte list" where
  "hu_ws_apply_mask payload mask_key = mask_from 0 mask_key payload"

text \<open>The bytes of the frame; none stands for the result 0.  The head is written without a check of the size.\<close>

definition hu_ws_build_frame :: "nat \<Rightarrow> nat \<Rightarrow> byte list \<Rightarrow> byte list \<Rightarrow> byte list outcome" where
  "hu_ws_build_frame buf_size opcode payload mask_key =
     (if buf_size < 6 \<or> length payload > HU_WS_MAX_FRAME_PAYLOAD then Ret []
      else
        let head = frame_head opcode (length payload) mask_key in
        if length head > buf_size then Undef OutOfBounds
        else if length head + length payload > buf_size then Ret []
        else Ret (head @ mask_from 0 mask_key payload))"

record ws_header =
  wh_opcode :: nat
  wh_fin :: bool
  wh_masked :: bool
  wh_payload_len :: nat
  wh_header_bytes :: nat

text \<open>The loop \<^verbatim>\<open>payload_len = (payload_len << 8) | byte\<close>, in 64 bits.\<close>

definition be_value :: "byte list \<Rightarrow> nat" where
  "be_value bs = foldl (\<lambda>acc b. (push_bit 8 acc OR unat b) mod 2 ^ 64) 0 bs"

text \<open>\<open>None\<close> is the result -1.\<close>

definition hu_ws_parse_header :: "byte list \<Rightarrow> ws_header option" where
  "hu_ws_parse_header bytes =
     (if length bytes < 2 then None
      else
        let fin = (bytes ! 0 AND 0x80 \<noteq> 0); opcode = unat (bytes ! 0 AND 0x0F); masked = (bytes ! 1 AND 0x80 \<noteq> 0);
            len7 = unat (bytes ! 1 AND 0x7F);
            finish = (\<lambda>payload_len hlen.
              let hlen = (if masked then hlen + 4 else hlen) in
              if payload_len > HU_WS_MAX_FRAME_PAYLOAD then None
              else Some \<lparr>wh_opcode = opcode, wh_fin = fin, wh_masked = masked, wh_payload_len = payload_len, wh_header_bytes = hlen\<rparr>)
        in
          if len7 = 126 then
            (if length bytes < 4 then None else finish (push_bit 8 (unat (bytes ! 2)) OR unat (bytes ! 3)) 4)
          else if len7 = 127 then
            (if length bytes < 10 then None else finish (be_value (take 8 (drop 2 bytes))) 10)
          else finish len7 2)"

section \<open>The client\<close>

text \<open>\<open>wc_sock\<close> is the socket, -1 if there is none; the two streams are those of the connection of the client.\<close>

definition HU_WS_INVALID_SOCK :: int where "HU_WS_INVALID_SOCK = -1"

record ws_client =
  wc_sock :: int
  wc_frag :: "byte list option"
  wc_frag_cap :: nat
  wc_frag_opcode :: nat
  wc_in :: "byte list"
  wc_out :: "byte list"

datatype poll_result = PollReady | PollTimeout | PollError
datatype ws_result = WsData "byte list" | WsError hu_error

text \<open>One round of the receive loop goes on or ends the call.\<close>

datatype ws_round = Again ws_client | Stop ws_client ws_result

definition drop_frag :: "ws_client \<Rightarrow> ws_client" where
  "drop_frag ws = ws\<lparr>wc_frag := None, wc_frag_cap := 0\<rparr>"

definition read_exact :: "nat \<Rightarrow> ws_client \<Rightarrow> (byte list \<Rightarrow> ws_client \<Rightarrow> ws_round outcome) \<Rightarrow> ws_round outcome" where
  "read_exact n ws k =
     (if length (wc_in ws) < n then Ret (Stop (ws\<lparr>wc_in := []\<rparr>) (WsError HU_ERR_IO))
      else k (take n (wc_in ws)) (ws\<lparr>wc_in := drop n (wc_in ws)\<rparr>))"

text \<open>A reply goes through a buffer on the stack, with a mask of zeros.\<close>

definition send_reply :: "nat \<Rightarrow> nat \<Rightarrow> byte list \<Rightarrow> ws_client \<Rightarrow> ws_client outcome" where
  "send_reply buf_size opcode payload ws =
     obind (hu_ws_build_frame buf_size opcode payload [0, 0, 0, 0]) (\<lambda>frame. Ret (ws\<lparr>wc_out := wc_out ws @ frame\<rparr>))"

definition on_ping :: "byte list \<Rightarrow> ws_client \<Rightarrow> ws_round outcome" where
  "on_ping payload ws =
     (if length payload \<le> 125 then obind (send_reply 128 HU_WS_OP_PONG payload ws) (\<lambda>ws. Ret (Again ws))
      else Ret (Again ws))"

definition close_socket :: "ws_client \<Rightarrow> ws_client outcome" where
  "close_socket ws =
     (if wc_sock ws \<noteq> HU_WS_INVALID_SOCK then
        obind (send_reply 16 HU_WS_OP_CLOSE [] ws) (\<lambda>ws. Ret (ws\<lparr>wc_sock := HU_WS_INVALID_SOCK\<rparr>))
      else Ret ws)"

definition on_close :: "ws_client \<Rightarrow> ws_round outcome" where
  "on_close ws = obind (close_socket (drop_frag ws)) (\<lambda>ws. Ret (Stop ws (WsError HU_ERR_IO)))"

definition on_data :: "nat \<Rightarrow> bool \<Rightarrow> byte list \<Rightarrow> ws_client \<Rightarrow> ws_round outcome" where
  "on_data opcode fin payload ws =
     (if fin then Ret (Stop (drop_frag ws) (if payload = [] then WsError HU_ERR_OUT_OF_MEMORY else WsData payload))
      else
        let cap = (if length payload > 0 then length payload + 1 else 64) in
        if length payload > cap then Undef OutOfBounds
        else Ret (Again (ws\<lparr>wc_frag := Some payload, wc_frag_cap := cap, wc_frag_opcode := opcode\<rparr>)))"

text \<open>\<^verbatim>\<open>while (new_cap < need) new_cap *= 2\<close>, which does not end from 0.\<close>

function ws_grow :: "nat \<Rightarrow> nat \<Rightarrow> nat outcome" where
  "ws_grow need cap = (if need \<le> cap then Ret cap else if cap = 0 then NoFuel else ws_grow need (cap * 2))"
  by auto
termination by (relation "measure (\<lambda>(need, cap). need - cap)") auto

declare ws_grow.simps [simp del]

text \<open>The payload of a continuation is put behind the fragments: the client, or \<open>None\<close> if there is no room for it.\<close>

definition append_frag :: "byte list \<Rightarrow> byte list \<Rightarrow> ws_client \<Rightarrow> ws_client option outcome" where
  "append_frag buf payload ws =
     (if payload = [] then Ret (Some ws)
      else if length payload > SIZE_MAX - length buf then Ret None
      else
        let need_total = length buf + length payload in
        if need_total > HU_WS_MAX_MSG then Ret None
        else
          obind (if need_total + 1 > wc_frag_cap ws then ws_grow (need_total + 1) (wc_frag_cap ws * 2) else Ret (wc_frag_cap ws))
            (\<lambda>cap. if need_total > cap then Undef OutOfBounds
                   else Ret (Some (ws\<lparr>wc_frag := Some (buf @ payload), wc_frag_cap := cap\<rparr>))))"

definition on_continuation :: "bool \<Rightarrow> byte list \<Rightarrow> ws_client \<Rightarrow> ws_round outcome" where
  "on_continuation fin payload ws =
     (case wc_frag ws of
        None \<Rightarrow> Ret (Again ws)
      | Some buf \<Rightarrow>
          obind (append_frag buf payload ws) (\<lambda>r.
          case r of
            None \<Rightarrow> Ret (Stop (drop_frag ws) (WsError HU_ERR_IO))
          | Some ws \<Rightarrow>
              if fin then
                (case wc_frag ws of
                   None \<Rightarrow> Undef NullDeref
                 | Some buf \<Rightarrow>
                     if length buf \<ge> wc_frag_cap ws then Undef OutOfBounds
                     else Ret (Stop (drop_frag ws) (WsData buf)))
              else Ret (Again ws)))"

definition on_frame :: "ws_header \<Rightarrow> byte list \<Rightarrow> ws_client \<Rightarrow> ws_round outcome" where
  "on_frame hdr payload ws =
     (if wh_opcode hdr = HU_WS_OP_PING then on_ping payload ws
      else if wh_opcode hdr = HU_WS_OP_PONG then Ret (Again ws)
      else if wh_opcode hdr = HU_WS_OP_CLOSE then on_close ws
      else if wh_opcode hdr = HU_WS_OP_TEXT \<or> wh_opcode hdr = HU_WS_OP_BINARY then
        on_data (wh_opcode hdr) (wh_fin hdr) payload ws
      else if wh_opcode hdr = HU_WS_OP_CONTINUATION then on_continuation (wh_fin hdr) payload ws
      else Ret (Again ws))"

definition header_need :: "byte \<Rightarrow> nat" where
  "header_need b1 =
     (if b1 AND 0x7F = 126 then 4 else if b1 AND 0x7F = 127 then 10 else 2) + (if b1 AND 0x80 \<noteq> 0 then 4 else 0)"

text \<open>What follows once the header is there.\<close>

definition recv_payload :: "byte list \<Rightarrow> ws_client \<Rightarrow> ws_round outcome" where
  "recv_payload hdr_buf ws =
     (case hu_ws_parse_header hdr_buf of
        None \<Rightarrow> Ret (Stop ws (WsError HU_ERR_PARSE))
      | Some hdr \<Rightarrow>
          if wh_payload_len hdr > HU_WS_MAX_MSG then Ret (Stop ws (WsError HU_ERR_IO))
          else if (wh_opcode hdr = HU_WS_OP_TEXT \<or> wh_opcode hdr = HU_WS_OP_BINARY) \<and> wh_fin hdr \<and> wh_payload_len hdr = 0 then
            Ret (Stop (drop_frag ws) (WsData []))
          else
            read_exact (wh_payload_len hdr) ws (\<lambda>payload ws.
            let mask = take 4 (drop (wh_header_bytes hdr - 4) hdr_buf) in
            on_frame hdr (if wh_masked hdr then hu_ws_apply_mask payload mask else payload) ws))"

definition recv_round :: "int \<Rightarrow> poll_result \<Rightarrow> ws_client \<Rightarrow> ws_round outcome" where
  "recv_round timeout_ms polled ws =
     (if timeout_ms \<ge> 0 \<and> polled = PollTimeout then Ret (Stop ws (WsError HU_ERR_TIMEOUT))
      else if timeout_ms \<ge> 0 \<and> polled = PollError then Ret (Stop ws (WsError HU_ERR_IO))
      else
        read_exact 2 ws (\<lambda>h ws.
        read_exact (header_need (h ! 1) - 2) ws (\<lambda>h' ws.
        recv_payload (h @ h') ws)))"

text \<open>\<open>poll i\<close> is what \<^verbatim>\<open>poll\<close> says before frame \<open>i\<close>; every round that goes on has read two bytes at least.\<close>

fun recv_loop :: "nat \<Rightarrow> int \<Rightarrow> (nat \<Rightarrow> poll_result) \<Rightarrow> nat \<Rightarrow> ws_client \<Rightarrow> (ws_client \<times> ws_result) outcome" where
  "recv_loop 0 timeout_ms poll i ws = NoFuel"
| "recv_loop (Suc k) timeout_ms poll i ws =
     obind (recv_round timeout_ms (poll i) ws) (\<lambda>r.
     case r of Stop ws res \<Rightarrow> Ret (ws, res) | Again ws \<Rightarrow> recv_loop k timeout_ms poll (i + 1) ws)"

definition hu_ws_recv :: "int \<Rightarrow> (nat \<Rightarrow> poll_result) \<Rightarrow> ws_client \<Rightarrow> (ws_client \<times> ws_result) outcome" where
  "hu_ws_recv timeout_ms poll ws =
     (if wc_sock ws = HU_WS_INVALID_SOCK then Ret (ws, WsError HU_ERR_IO) else recv_loop (length (wc_in ws) + 1) timeout_ms poll 0 ws)"

text \<open>\<open>mask_key\<close> is what was read from the random device.\<close>

definition hu_ws_send :: "byte list \<Rightarrow> byte list \<Rightarrow> ws_client \<Rightarrow> ws_client outcome" where
  "hu_ws_send mask_key data ws =
     (if length data > HU_WS_MAX_MSG then Err HU_ERR_INVALID_ARGUMENT
      else if wc_sock ws = HU_WS_INVALID_SOCK then Err HU_ERR_IO
      else
        let buf_cap = (if length data > 4096 then length data + 14 else 4096 + 14) in
        obind (hu_ws_build_frame buf_cap HU_WS_OP_TEXT data mask_key) (\<lambda>frame.
        if frame = [] then Err HU_ERR_INVALID_ARGUMENT else Ret (ws\<lparr>wc_out := wc_out ws @ frame\<rparr>)))"

text \<open>The structure is filled with zeros at the end, its socket included.\<close>

definition hu_ws_close :: "ws_client \<Rightarrow> ws_client outcome" where
  "hu_ws_close ws =
     obind (close_socket (drop_frag ws)) (\<lambda>ws. Ret (ws\<lparr>wc_sock := 0, wc_frag := None, wc_frag_cap := 0, wc_frag_opcode := 0\<rparr>))"

end
