(* ===== verification/HuWebSocketRead.thy ===== *)
theory HuWebSocketRead
  imports HuWebSocket
begin

text \<open>
  What the WebSocket client makes of the frames of RFC 6455.  A frame is a value (\<open>ws_frame\<close>) with its bytes on the
  wire; the lemmas show that the header parser reads every frame back, that a message is received whole however
  it is cut into frames and whatever control frames come in between, and that no bytes of a peer lead the
  client out of its buffers.
\<close>

section \<open>Bits of a byte\<close>

lemma nat_and_127: "n AND 127 = n mod (128 :: nat)" and nat_and_15: "n AND 15 = n mod (16 :: nat)" and nat_and_255: "n AND 255 = n mod (256 :: nat)"
  using take_bit_eq_mask [of 7 n] take_bit_eq_mask [of 4 n] take_bit_eq_mask [of 8 n]
  by (simp_all add: take_bit_nat_def mask_eq_exp_minus_1)

lemma nat_and_128: "(n :: nat) < 256 \<Longrightarrow> n AND 128 \<noteq> 0 \<longleftrightarrow> n \<ge> 128"
proof -
  assume n: "n < 256"
  have "n AND 128 \<noteq> 0 \<longleftrightarrow> bit n 7" using and_exp_eq_0_iff_not_bit [of n 7] by simp
  also have "\<dots> \<longleftrightarrow> odd (n div 128)" by (simp add: bit_iff_odd)
  also have "\<dots> \<longleftrightarrow> n \<ge> 128"
  proof (cases "n \<ge> 128")
    case True
    then have "n div 128 = 1" using n by (simp add: div_nat_eqI)
    with True show ?thesis by simp
  qed simp
  finally show ?thesis .
qed

lemma byte_and:
  fixes w :: byte
  shows "unat (w AND 0x7F) = unat w mod 128" "unat (w AND 0x0F) = unat w mod 16" "w AND 0x80 \<noteq> 0 \<longleftrightarrow> unat w \<ge> 128"
    "w AND 0x7F = 126 \<longleftrightarrow> unat w mod 128 = 126" "w AND 0x7F = 127 \<longleftrightarrow> unat w mod 128 = 127"
proof -
  show seven: "unat (w AND 0x7F) = unat w mod 128" "unat (w AND 0x0F) = unat w mod 16"
    by (simp_all add: unsigned_and_eq nat_and_127 nat_and_15)
  have "unat w < 256" using unsigned_less [of w] by simp
  then have "unat (w AND 0x80) \<noteq> 0 \<longleftrightarrow> unat w \<ge> 128" using nat_and_128 [of "unat w"] by (simp add: unsigned_and_eq)
  then show "w AND 0x80 \<noteq> 0 \<longleftrightarrow> unat w \<ge> 128" by (simp add: unat_eq_zero)
  show "w AND 0x7F = 126 \<longleftrightarrow> unat w mod 128 = 126" "w AND 0x7F = 127 \<longleftrightarrow> unat w mod 128 = 127"
    using seven(1) by (simp_all add: word_unat_eq_iff)
qed

lemma nat_or_add: "(b :: nat) < 2 ^ k \<Longrightarrow> push_bit k a OR b = a * 2 ^ k + b"
proof -
  assume b: "b < 2 ^ k"
  have "push_bit k a AND b = 0"
  proof (rule bit_eqI)
    fix n
    have "b = take_bit k b" using b by (simp add: take_bit_nat_eq_self)
    then have "\<not> bit b n" if "n \<ge> k" using that by (metis bit_take_bit_iff not_le)
    then show "bit (push_bit k a AND b) n = bit 0 n" by (auto simp: bit_and_iff bit_push_bit_iff)
  qed
  then have "push_bit k a OR b = push_bit k a + b" by (simp add: disjunctive_add_eq_or)
  then show ?thesis by (simp add: push_bit_nat_def)
qed

lemma or_128: "(n :: nat) < 128 \<Longrightarrow> 128 OR n = 128 + n"
  using nat_or_add [of n 7 1] by (simp add: push_bit_nat_def)

lemma unat_byte: "unat (word_of_nat n :: byte) = n mod 256"
  by (simp add: unsigned_of_nat take_bit_nat_def)

lemma unat_byte_at: "unat (byte_at n s) = n div 2 ^ s mod 256"
  by (simp add: byte_at_def nat_and_255 unat_byte drop_bit_nat_def)

lemma be_step:
  assumes "n < 2 ^ 64"
  shows "(push_bit 8 (n div 2 ^ (s + 8)) OR unat (byte_at n s)) mod 2 ^ 64 = n div 2 ^ s"
proof -
  have "push_bit 8 (n div 2 ^ (s + 8)) OR unat (byte_at n s) = n div 2 ^ (s + 8) * 2 ^ 8 + unat (byte_at n s)"
    by (rule nat_or_add) (simp add: unat_byte_at)
  also have "\<dots> = n div 2 ^ s div 256 * 256 + n div 2 ^ s mod 256"
    by (simp add: unat_byte_at power_add div_mult2_eq)
  also have "\<dots> = n div 2 ^ s" by (rule div_mult_mod_eq)
  finally have eq: "push_bit 8 (n div 2 ^ (s + 8)) OR unat (byte_at n s) = n div 2 ^ s" .
  have "n div 2 ^ s < 2 ^ 64" using assms div_le_dividend [of n "2 ^ s"] by (rule le_less_trans [rotated])
  then show ?thesis unfolding eq by simp
qed

lemma be_value_bytes:
  assumes "n < 2 ^ 64"
  shows "be_value [byte_at n 56, byte_at n 48, byte_at n 40, byte_at n 32, byte_at n 24, byte_at n 16, byte_at n 8, byte_at n 0] = n"
proof -
  note s = be_step [OF assms]
  have "(push_bit 8 0 OR unat (byte_at n 56)) mod 2 ^ 64 = n div 2 ^ 56" using s [of 56] assms by simp
  then show ?thesis
    using s [of 48] s [of 40] s [of 32] s [of 24] s [of 16] s [of 8] s [of 0] by (simp add: be_value_def)
qed

section \<open>Frames on the wire\<close>

datatype ws_frame = WsFrame (wf_fin: bool) (wf_opcode: nat) (wf_mask: "byte list option") (wf_payload: "byte list")

definition flag :: "bool \<Rightarrow> nat" where
  "flag b = (if b then 128 else 0)"

text \<open>The byte of a number below 256.\<close>

definition nbyte :: "nat \<Rightarrow> byte" where
  "nbyte n = word_of_nat n"

definition wire_length :: "nat \<Rightarrow> nat \<Rightarrow> byte list" where
  "wire_length m n =
     (if n \<le> 125 then [nbyte (m + n)]
      else if n \<le> 65535 then [nbyte (m + 126), byte_at n 8, byte_at n 0]
      else [nbyte (m + 127), byte_at n 56, byte_at n 48, byte_at n 40, byte_at n 32, byte_at n 24, byte_at n 16, byte_at n 8, byte_at n 0])"

definition mask_bytes :: "ws_frame \<Rightarrow> byte list" where
  "mask_bytes f = (case wf_mask f of None \<Rightarrow> [] | Some key \<Rightarrow> key)"

definition wire_head :: "ws_frame \<Rightarrow> byte list" where
  "wire_head f = nbyte (flag (wf_fin f) + wf_opcode f) # wire_length (flag (wf_mask f \<noteq> None)) (length (wf_payload f)) @ mask_bytes f"

definition wire :: "ws_frame \<Rightarrow> byte list" where
  "wire f = wire_head f @ (case wf_mask f of None \<Rightarrow> wf_payload f | Some key \<Rightarrow> hu_ws_apply_mask (wf_payload f) key)"

definition frame_ok :: "ws_frame \<Rightarrow> bool" where
  "frame_ok f \<longleftrightarrow> wf_opcode f < 16 \<and> length (wf_payload f) \<le> HU_WS_MAX_FRAME_PAYLOAD \<and>
     (case wf_mask f of None \<Rightarrow> True | Some key \<Rightarrow> length key = 4)"

definition frame_header :: "ws_frame \<Rightarrow> ws_header" where
  "frame_header f =
     \<lparr>wh_opcode = wf_opcode f, wh_fin = wf_fin f, wh_masked = (wf_mask f \<noteq> None), wh_payload_len = length (wf_payload f),
      wh_header_bytes = length (wire_head f)\<rparr>"

lemma length_mask_from [simp]: "length (mask_from i key bs) = length bs"
  by (induction i key bs rule: mask_from.induct) simp_all

lemma mask_from_twice [simp]: "mask_from i key (mask_from i key bs) = bs"
  by (induction i key bs rule: mask_from.induct) (simp_all add: xor.assoc)

lemma apply_mask_twice [simp]: "hu_ws_apply_mask (hu_ws_apply_mask bs key) key = bs"
  by (simp add: hu_ws_apply_mask_def)

lemma length_apply_mask [simp]: "length (hu_ws_apply_mask bs key) = length bs"
  by (simp add: hu_ws_apply_mask_def)

lemma length_mask_bytes: "frame_ok f \<Longrightarrow> length (mask_bytes f) = (if wf_mask f = None then 0 else 4)"
  by (auto simp: mask_bytes_def frame_ok_def split: option.splits)

lemma length_wire: "length (wire f) = length (wire_head f) + length (wf_payload f)"
  by (simp add: wire_def split: option.split)

lemma flag_simps [simp]: "flag True = 128" "flag False = 0"
  by (simp_all add: flag_def)

lemma unat_flag_byte: "k < 128 \<Longrightarrow> unat (nbyte (flag b + k)) = flag b + k"
  unfolding nbyte_def unat_byte by (simp add: flag_def)

lemma byte_head:
  assumes "k < 128"
  shows "nbyte (flag b + k) AND 0x80 \<noteq> 0 \<longleftrightarrow> b" "unat (nbyte (flag b + k) AND 0x7F) = k"
    "nbyte (flag b + k) AND 0x7F = 126 \<longleftrightarrow> k = 126" "nbyte (flag b + k) AND 0x7F = 127 \<longleftrightarrow> k = 127"
    "k < 16 \<Longrightarrow> unat (nbyte (flag b + k) AND 0x0F) = k"
proof -
  have m: "(flag b + k) mod 128 = k" using assms by (simp add: flag_def)
  show "nbyte (flag b + k) AND 0x80 \<noteq> 0 \<longleftrightarrow> b" unfolding byte_and unat_flag_byte [OF assms] using assms by (simp add: flag_def)
  show "unat (nbyte (flag b + k) AND 0x7F) = k" "nbyte (flag b + k) AND 0x7F = 126 \<longleftrightarrow> k = 126"
    "nbyte (flag b + k) AND 0x7F = 127 \<longleftrightarrow> k = 127" unfolding byte_and unat_flag_byte [OF assms] m by (rule refl)+
  show "unat (nbyte (flag b + k) AND 0x0F) = k" if "k < 16"
    unfolding byte_and unat_flag_byte [OF assms] using that by (simp add: flag_def mod_add_eq [symmetric])
qed

lemma less_126: "(126 :: nat) < 128" and less_127: "(127 :: nat) < 128"
  by simp_all

text \<open>The number of header bytes the client waits for is the length of the head.\<close>

lemma wire_head_nth1: "\<exists>k bs. wire_length (flag m) n = nbyte (flag m + k) # bs \<and> k < 128 \<and>
   length bs = (if k = 126 then 2 else if k = 127 then 8 else 0) \<and> (k = 126 \<longleftrightarrow> 125 < n \<and> n \<le> 65535) \<and> (k = 127 \<longleftrightarrow> 65535 < n) \<and>
   (n \<le> 125 \<longrightarrow> k = n)"
  unfolding wire_length_def by (cases "n \<le> 125"; cases "n \<le> 65535") auto

lemma header_need_wire:
  assumes "frame_ok f"
  shows "length (wire_head f) \<ge> 2" "header_need (wire_head f ! 1) = length (wire_head f)"
proof -
  define m where "m = (wf_mask f \<noteq> None)"
  obtain k bs where k: "wire_length (flag m) (length (wf_payload f)) = nbyte (flag m + k) # bs" "k < 128"
    "length bs = (if k = 126 then 2 else if k = 127 then 8 else 0)" using wire_head_nth1 by blast
  have head: "wire_head f = nbyte (flag (wf_fin f) + wf_opcode f) # nbyte (flag m + k) # bs @ mask_bytes f"
    unfolding wire_head_def m_def [symmetric] k(1) by simp
  then show "length (wire_head f) \<ge> 2" by simp
  have "length (mask_bytes f) = (if m then 4 else 0)" using length_mask_bytes [OF assms] by (simp add: m_def)
  moreover have "wire_head f ! 1 = nbyte (flag m + k)" by (simp add: head)
  then have "header_need (wire_head f ! 1) = (if k = 126 then 4 else if k = 127 then 10 else 2) + (if m then 4 else 0)"
    unfolding header_need_def by (simp only: byte_head [OF k(2)])
  ultimately show "header_need (wire_head f ! 1) = length (wire_head f)" using k(3) by (simp add: head)
qed

lemma parse_wire_head:
  assumes "frame_ok f"
  shows "hu_ws_parse_header (wire_head f @ rest) = Some (frame_header f)"
proof -
  let ?n = "length (wf_payload f)" and ?m = "wf_mask f \<noteq> None"
  have op: "wf_opcode f < 128" "wf_opcode f < 16" and n: "?n \<le> HU_WS_MAX_FRAME_PAYLOAD" using assms by (auto simp: frame_ok_def)
  have len: "length (mask_bytes f) = (if ?m then 4 else 0)" using length_mask_bytes [OF assms] by simp
  consider "?n \<le> 125" | "125 < ?n" "?n \<le> 65535" | "65535 < ?n" by linarith
  then show ?thesis
  proof cases
    case 1
    then have "?n < 128" by simp
    note b = byte_head [OF this, of ?m] byte_head [OF op(1), of "wf_fin f"]
    show ?thesis using 1 n len op(2) b by (simp add: hu_ws_parse_header_def wire_head_def wire_length_def frame_header_def Let_def)
  next
    case 2
    have v: "push_bit 8 (unat (byte_at ?n 8)) OR unat (byte_at ?n 0) = ?n"
    proof -
      have "push_bit 8 (unat (byte_at ?n 8)) OR unat (byte_at ?n 0) = unat (byte_at ?n 8) * 2 ^ 8 + unat (byte_at ?n 0)"
        by (rule nat_or_add) (simp add: unat_byte_at)
      also have "\<dots> = ?n" using 2 by (simp add: unat_byte_at)
      finally show ?thesis .
    qed
    note b = byte_head [of 126 ?m, OF less_126] byte_head [OF op(1), of "wf_fin f"]
    show ?thesis using 2 n len op(2) b v by (simp add: hu_ws_parse_header_def wire_head_def wire_length_def frame_header_def Let_def)
  next
    case 3
    have v: "be_value [byte_at ?n 56, byte_at ?n 48, byte_at ?n 40, byte_at ?n 32, byte_at ?n 24, byte_at ?n 16, byte_at ?n 8, byte_at ?n 0] = ?n"
      using n by (intro be_value_bytes) (simp add: HU_WS_MAX_FRAME_PAYLOAD_def)
    note b = byte_head [of 127 ?m, OF less_127] byte_head [OF op(1), of "wf_fin f"]
    show ?thesis using 3 n len op(2) b v by (simp add: hu_ws_parse_header_def wire_head_def wire_length_def frame_header_def Let_def)
  qed
qed

section \<open>Building frames\<close>

lemma frame_head_wire:
  assumes "opcode < 16" "length key = 4"
  shows "frame_head opcode (length payload) key = wire_head (WsFrame True opcode (Some key) payload)"
proof -
  have op: "128 OR (opcode AND 15) = 128 + opcode" using assms(1) or_128 [of opcode] by (simp add: nat_and_15)
  have n: "128 OR (length payload AND 127) = 128 + length payload" if "length payload \<le> 125"
    using that or_128 [of "length payload"] by (simp add: nat_and_127)
  have key: "[key ! 0, key ! 1, key ! 2, key ! 3] = key" using assms(2) by (auto simp: list_eq_iff_nth_eq less_Suc_eq numeral_eq_Suc)
  have "(0x80 OR 126 :: byte) = nbyte (128 + 126)" "(0x80 OR 127 :: byte) = nbyte (128 + 127)" by (simp_all add: nbyte_def)
  then show ?thesis
    using n unfolding frame_head_def wire_head_def wire_length_def op key
    by (simp add: mask_bytes_def nbyte_def flag_def del: of_nat_add)
qed

lemma length_wire_head: "length (wire_head (WsFrame True opcode (Some key) payload)) =
    (if length payload \<le> 125 then 2 else if length payload \<le> 65535 then 4 else 10) + length key"
  by (simp add: wire_head_def wire_length_def mask_bytes_def)

lemma build_wire:
  assumes "opcode < 16" "length key = 4" "length payload \<le> HU_WS_MAX_FRAME_PAYLOAD"
    "length (wire_head (WsFrame True opcode (Some key) payload)) + length payload \<le> buf_size"
  shows "hu_ws_build_frame buf_size opcode payload key = Ret (wire (WsFrame True opcode (Some key) payload))"
proof -
  have "6 \<le> length (wire_head (WsFrame True opcode (Some key) payload))" using assms(2) by (simp add: length_wire_head)
  then show ?thesis
    using assms by (simp add: hu_ws_build_frame_def frame_head_wire Let_def wire_def hu_ws_apply_mask_def)
qed

text \<open>
  A frame that is built reads back: the header parser gives its opcode, that it is whole and masked, and its
  length, and taking the mask off what follows the header gives the payload.
\<close>

theorem ws_frame_roundtrip:
  assumes "opcode < 16" and "length key = 4" and "length payload \<le> HU_WS_MAX_FRAME_PAYLOAD" and "length payload + 14 \<le> buf_size"
  shows "\<exists>frame h. hu_ws_build_frame buf_size opcode payload key = Ret frame \<and> frame \<noteq> [] \<and> length frame \<le> buf_size \<and>
    hu_ws_parse_header (frame @ rest) = Some h \<and> wh_opcode h = opcode \<and> wh_fin h \<and> wh_masked h \<and> wh_payload_len h = length payload \<and>
    wh_header_bytes h + length payload = length frame \<and> take 4 (drop (wh_header_bytes h - 4) frame) = key \<and>
    hu_ws_apply_mask (drop (wh_header_bytes h) frame) key = payload"
proof -
  let ?f = "WsFrame True opcode (Some key) payload"
  have len: "length (wire_head ?f) \<le> 14" "6 \<le> length (wire_head ?f)" using assms(2) by (simp_all add: length_wire_head)
  have "hu_ws_build_frame buf_size opcode payload key = Ret (wire ?f)" using assms len by (intro build_wire) simp_all
  moreover have "frame_ok ?f" using assms by (simp add: frame_ok_def)
  then have "hu_ws_parse_header (wire ?f @ rest) = Some (frame_header ?f)" unfolding wire_def append_assoc by (rule parse_wire_head)
  moreover have "drop (length (wire_head ?f) - 4) (wire_head ?f) = key"
    using assms(2) by (simp add: wire_head_def mask_bytes_def)
  then have "take 4 (drop (length (wire_head ?f) - 4) (wire ?f)) = key" using assms(2) len by (simp add: wire_def)
  moreover have "wire ?f \<noteq> []" by (simp add: wire_def wire_head_def)
  ultimately show ?thesis using assms(4) len by (auto simp: frame_header_def length_wire) (simp add: wire_def)
qed

lemma ws_frame_roundtrip_witness:
  "\<exists>frame h. hu_ws_build_frame 32 1 [104, 105] [1, 2, 3, 4] = Ret frame \<and> frame \<noteq> [] \<and> length frame \<le> 32 \<and>
    hu_ws_parse_header (frame @ [7]) = Some h \<and> wh_opcode h = 1 \<and> wh_fin h \<and> wh_masked h \<and> wh_payload_len h = length [104, 105 :: byte] \<and>
    wh_header_bytes h + length [104, 105 :: byte] = length frame \<and> take 4 (drop (wh_header_bytes h - 4) frame) = [1, 2, 3, 4] \<and>
    hu_ws_apply_mask (drop (wh_header_bytes h) frame) [1, 2, 3, 4] = [104, 105]"
  by (rule ws_frame_roundtrip) (simp_all add: HU_WS_MAX_FRAME_PAYLOAD_def)

section \<open>Receiving a frame\<close>

definition poll_ready :: "int \<Rightarrow> (nat \<Rightarrow> poll_result) \<Rightarrow> bool" where
  "poll_ready timeout_ms poll \<longleftrightarrow> timeout_ms < 0 \<or> (\<forall>i. poll i = PollReady)"

definition receivable :: "ws_frame \<Rightarrow> bool" where
  "receivable f \<longleftrightarrow> frame_ok f \<and> length (wf_payload f) \<le> HU_WS_MAX_MSG"

definition data_frame :: "ws_frame \<Rightarrow> bool" where
  "data_frame f \<longleftrightarrow> wf_opcode f = HU_WS_OP_TEXT \<or> wf_opcode f = HU_WS_OP_BINARY"

lemma read_header:
  assumes "wc_in ws = hb @ tl_in" "2 \<le> length hb" "header_need (hb ! 1) = length hb"
  shows "read_exact 2 ws (\<lambda>h ws. read_exact (header_need (h ! 1) - 2) ws (\<lambda>h' ws. k (h @ h') ws)) = k hb (ws\<lparr>wc_in := tl_in\<rparr>)"
proof -
  have "take 2 (wc_in ws) ! 1 = hb ! 1" using assms(1,2) by (simp add: nth_append)
  moreover have "take 2 (wc_in ws) @ take (length hb - 2) (drop 2 (wc_in ws)) = hb" using assms(1,2) by (simp flip: take_add)
  moreover have "drop (length hb - 2) (drop 2 (wc_in ws)) = tl_in" "\<not> length (wc_in ws) < 2"
    "\<not> length (drop 2 (wc_in ws)) < length hb - 2" using assms(1,2) by auto
  ultimately show ?thesis using assms(3) unfolding read_exact_def by simp
qed

lemma recv_payload_wire:
  assumes f: "receivable f" and inp: "wc_in ws = (case wf_mask f of None \<Rightarrow> wf_payload f | Some key \<Rightarrow> hu_ws_apply_mask (wf_payload f) key) @ rest"
  shows "recv_payload (wire_head f) ws =
    (if data_frame f \<and> wf_fin f \<and> wf_payload f = [] then Ret (Stop (drop_frag ws) (WsData []))
     else on_frame (frame_header f) (wf_payload f) (ws\<lparr>wc_in := rest\<rparr>))"
proof -
  have ok: "frame_ok f" and short: "\<not> length (wf_payload f) > HU_WS_MAX_MSG" using f by (simp_all add: receivable_def)
  have parse: "hu_ws_parse_header (wire_head f) = Some (frame_header f)" using parse_wire_head [OF ok, of "[]"] by simp
  have h: "wh_payload_len (frame_header f) = length (wf_payload f)" "wh_opcode (frame_header f) = wf_opcode f"
    "wh_fin (frame_header f) = wf_fin f" "wh_masked (frame_header f) = (wf_mask f \<noteq> None)" "wh_header_bytes (frame_header f) = length (wire_head f)"
    by (simp_all add: frame_header_def)
  have "recv_payload (wire_head f) ws =
      (if data_frame f \<and> wf_fin f \<and> wf_payload f = [] then Ret (Stop (drop_frag ws) (WsData []))
       else read_exact (length (wf_payload f)) ws (\<lambda>payload ws. on_frame (frame_header f)
         (if wf_mask f \<noteq> None then hu_ws_apply_mask payload (take 4 (drop (length (wire_head f) - 4) (wire_head f))) else payload) ws))"
    unfolding recv_payload_def parse option.case h data_frame_def Let_def length_0_conv by (simp only: short if_False)
  also have "\<dots> = (if data_frame f \<and> wf_fin f \<and> wf_payload f = [] then Ret (Stop (drop_frag ws) (WsData []))
     else on_frame (frame_header f) (wf_payload f) (ws\<lparr>wc_in := rest\<rparr>))"
  proof (cases "wf_mask f")
    case None
    then show ?thesis using inp by (simp add: read_exact_def)
  next
    case (Some key)
    then have "length key = 4" using ok by (simp add: frame_ok_def)
    then have "drop (length (wire_head f) - 4) (wire_head f) = key" using Some by (simp add: wire_head_def mask_bytes_def)
    then show ?thesis using Some inp \<open>length key = 4\<close> by (simp add: read_exact_def)
  qed
  finally show ?thesis .
qed

lemma recv_round_wire:
  assumes ready: "poll_ready t poll" and f: "receivable f" and inp: "wc_in ws = wire f @ rest"
  shows "recv_round t (poll i) ws =
    (if data_frame f \<and> wf_fin f \<and> wf_payload f = [] then Ret (Stop (drop_frag (ws\<lparr>wc_in := rest\<rparr>)) (WsData []))
     else on_frame (frame_header f) (wf_payload f) (ws\<lparr>wc_in := rest\<rparr>))"
proof -
  let ?body = "case wf_mask f of None \<Rightarrow> wf_payload f | Some key \<Rightarrow> hu_ws_apply_mask (wf_payload f) key"
  have ok: "frame_ok f" using f by (simp add: receivable_def)
  have inp': "wc_in ws = wire_head f @ ?body @ rest" by (simp add: inp wire_def)
  have "recv_round t (poll i) ws = read_exact 2 ws (\<lambda>h ws. read_exact (header_need (h ! 1) - 2) ws (\<lambda>h' ws. recv_payload (h @ h') ws))"
    using ready unfolding recv_round_def poll_ready_def by auto
  also have "\<dots> = recv_payload (wire_head f) (ws\<lparr>wc_in := ?body @ rest\<rparr>)"
    by (rule read_header [OF inp' header_need_wire [OF ok]])
  also have "\<dots> = (if data_frame f \<and> wf_fin f \<and> wf_payload f = [] then Ret (Stop (drop_frag (ws\<lparr>wc_in := ?body @ rest\<rparr>)) (WsData []))
     else on_frame (frame_header f) (wf_payload f) (ws\<lparr>wc_in := ?body @ rest, wc_in := rest\<rparr>))"
    by (rule recv_payload_wire [OF f]) simp
  finally show ?thesis
    by (cases "wf_payload f = []") (simp_all add: hu_ws_apply_mask_def option.case_eq_if)
qed

section \<open>Receiving a message\<close>

text \<open>
  Frames that carry a message: its parts, the first with a data opcode, the others continuations, the last one marked
  as such, with control frames in between.
\<close>

inductive carries :: "bool \<Rightarrow> byte list \<Rightarrow> ws_frame list \<Rightarrow> bool" where
  control: "carries started msg fs \<Longrightarrow> wf_opcode f \<notin> {HU_WS_OP_CONTINUATION, HU_WS_OP_TEXT, HU_WS_OP_BINARY, HU_WS_OP_CLOSE} \<Longrightarrow>
    carries started msg (f # fs)"
| last_part: "wf_fin f \<Longrightarrow> (if started then wf_opcode f = HU_WS_OP_CONTINUATION else data_frame f) \<Longrightarrow> carries started (wf_payload f) [f]"
| part: "\<not> wf_fin f \<Longrightarrow> (if started then wf_opcode f = HU_WS_OP_CONTINUATION else data_frame f) \<Longrightarrow> carries True msg fs \<Longrightarrow>
    carries started (wf_payload f @ msg) (f # fs)"

text \<open>
  The reply to a frame: a ping of up to 122 bytes is answered.  The client does not answer one of 123 to 125 bytes, which
  the protocol allows, because the reply with its header of six bytes does not fit its buffer of 128 (see
  \<open>ws_long_ping_unanswered\<close>), nor a longer one.
\<close>

definition pong :: "ws_frame \<Rightarrow> byte list" where
  "pong f = (if wf_opcode f = HU_WS_OP_PING \<and> length (wf_payload f) \<le> 122
     then wire (WsFrame True HU_WS_OP_PONG (Some [0, 0, 0, 0]) (wf_payload f)) else [])"

definition pongs :: "ws_frame list \<Rightarrow> byte list" where
  "pongs fs = concat (map pong fs)"

lemma pongs_Cons [simp]: "pongs (f # fs) = pong f @ pongs fs" "pongs [] = []"
  by (simp_all add: pongs_def)

lemmas ws_ops = HU_WS_OP_CONTINUATION_def HU_WS_OP_TEXT_def HU_WS_OP_BINARY_def HU_WS_OP_CLOSE_def HU_WS_OP_PING_def HU_WS_OP_PONG_def

lemma send_pong:
  assumes "length payload \<le> 125"
  shows "send_reply 128 HU_WS_OP_PONG payload ws = Ret (ws\<lparr>wc_out := wc_out ws @ pong (WsFrame fin HU_WS_OP_PING m payload)\<rparr>)"
proof (cases "length payload \<le> 122")
  case True
  then have "hu_ws_build_frame 128 HU_WS_OP_PONG payload [0, 0, 0, 0] = Ret (wire (WsFrame True HU_WS_OP_PONG (Some [0, 0, 0, 0]) payload))"
    by (intro build_wire) (simp_all add: ws_ops length_wire_head HU_WS_MAX_FRAME_PAYLOAD_def)
  with True show ?thesis by (simp add: send_reply_def pong_def)
next
  case False
  then have "hu_ws_build_frame 128 HU_WS_OP_PONG payload [0, 0, 0, 0] = Ret []"
    using assms by (simp add: hu_ws_build_frame_def frame_head_wire ws_ops length_wire_head Let_def)
  with False show ?thesis by (simp add: send_reply_def pong_def)
qed

text \<open>A control frame other than close is answered if it is a ping, and changes nothing else.\<close>

lemma on_control:
  assumes "wf_opcode f \<notin> {HU_WS_OP_CONTINUATION, HU_WS_OP_TEXT, HU_WS_OP_BINARY, HU_WS_OP_CLOSE}"
  shows "on_frame (frame_header f) (wf_payload f) ws = Ret (Again (ws\<lparr>wc_out := wc_out ws @ pong f\<rparr>))"
proof (cases "wf_opcode f = HU_WS_OP_PING")
  case True
  have p: "pong (WsFrame fin HU_WS_OP_PING m (wf_payload f)) = pong f" for fin m using True by (simp add: pong_def)
  have "pong f = []" if "\<not> length (wf_payload f) \<le> 125" using that by (simp add: pong_def)
  then show ?thesis
    using True send_pong [of "wf_payload f" ws] by (auto simp: on_frame_def frame_header_def on_ping_def p)
next
  case False
  then show ?thesis using assms by (auto simp: on_frame_def frame_header_def pong_def)
qed

lemma ws_grow_enough: "0 < cap \<Longrightarrow> \<exists>c. ws_grow need cap = Ret c \<and> need \<le> c"
proof (induction need cap rule: ws_grow.induct)
  case (1 need cap)
  then show ?case by (subst ws_grow.simps, subst ws_grow.simps) (auto simp: ws_grow.simps)
qed

definition frag_ok :: "ws_client \<Rightarrow> bool" where
  "frag_ok ws \<longleftrightarrow> (case wc_frag ws of None \<Rightarrow> True | Some buf \<Rightarrow> length buf < wc_frag_cap ws \<and> length buf \<le> HU_WS_MAX_MSG)"

lemma frag_ok_streams [simp]: "frag_ok (ws\<lparr>wc_in := x\<rparr>) = frag_ok ws" "frag_ok (ws\<lparr>wc_out := y\<rparr>) = frag_ok ws"
  by (simp_all add: frag_ok_def split: option.split)

lemma append_frag_ok:
  assumes "frag_ok ws" "wc_frag ws = Some buf" "length buf + length payload \<le> HU_WS_MAX_MSG"
  shows "\<exists>cap. append_frag buf payload ws = Ret (Some (ws\<lparr>wc_frag := Some (buf @ payload), wc_frag_cap := cap\<rparr>)) \<and>
    length (buf @ payload) < cap"
proof (cases "payload = []")
  case True
  then show ?thesis using assms(1,2) by (intro exI [of _ "wc_frag_cap ws"]) (simp add: append_frag_def frag_ok_def)
next
  case False
  have size: "\<not> length payload > SIZE_MAX - length buf" using assms(3) by (simp add: SIZE_MAX_def HU_WS_MAX_MSG_def)
  obtain cap where cap: "(if length buf + length payload + 1 > wc_frag_cap ws then ws_grow (length buf + length payload + 1) (wc_frag_cap ws * 2)
      else Ret (wc_frag_cap ws)) = Ret cap" "length buf + length payload < cap"
  proof (cases "length buf + length payload + 1 > wc_frag_cap ws")
    case True
    have "0 < wc_frag_cap ws * 2" using assms(1,2) by (simp add: frag_ok_def)
    from ws_grow_enough [OF this] True that show ?thesis by fastforce
  next
    case False
    with that show ?thesis by simp
  qed
  then show ?thesis
    unfolding append_frag_def Let_def cap(1) using False size assms(3) cap(2) by (intro exI [of _ cap]) simp
qed

text \<open>What the loop has done once the message is there.\<close>

definition received :: "ws_client \<Rightarrow> byte list \<Rightarrow> byte list \<Rightarrow> ws_client \<Rightarrow> bool" where
  "received ws replies rest ws' \<longleftrightarrow> wc_sock ws' = wc_sock ws \<and> wc_frag ws' = None \<and> wc_in ws' = rest \<and> wc_out ws' = wc_out ws @ replies"

lemma recv_carries:
  assumes "carries started msg fs" "list_all receivable fs" "poll_ready t poll" "wc_in ws = concat (map wire fs) @ rest" "length fs \<le> k"
    "frag_ok ws" "started \<Longrightarrow> wc_frag ws \<noteq> None"
    "length (if started then the (wc_frag ws) @ msg else msg) \<le> HU_WS_MAX_MSG"
  shows "\<exists>ws'. recv_loop k t poll i ws = Ret (ws', WsData (if started then the (wc_frag ws) @ msg else msg)) \<and>
    received ws (pongs fs) rest ws'"
  using assms
proof (induction arbitrary: ws k i rule: carries.induct)
  case (control started msg fs f)
  then obtain k' where k: "k = Suc k'" by (cases k) auto
  let ?ws = "ws\<lparr>wc_in := concat (map wire fs) @ rest, wc_out := wc_out ws @ pong f\<rparr>"
  have "recv_round t (poll i) ws = on_frame (frame_header f) (wf_payload f) (ws\<lparr>wc_in := concat (map wire fs) @ rest\<rparr>)"
    using control.hyps(2) control.prems by (subst recv_round_wire [of t poll f ws "concat (map wire fs) @ rest"]) (auto simp: data_frame_def)
  then have "recv_round t (poll i) ws = Ret (Again ?ws)" using on_control [OF control.hyps(2)] by simp
  moreover have "\<exists>ws'. recv_loop k' t poll (i + 1) ?ws = Ret (ws', WsData (if started then the (wc_frag ?ws) @ msg else msg)) \<and>
      received ?ws (pongs fs) rest ws'"
    using control.prems k by (intro control.IH) (simp_all split: if_splits)
  then obtain ws' where ws': "recv_loop k' t poll (i + 1) ?ws = Ret (ws', WsData (if started then the (wc_frag ?ws) @ msg else msg))"
      "received ?ws (pongs fs) rest ws'" by blast
  ultimately show ?case by (intro exI [of _ ws']) (auto simp: k received_def)
next
  case (last_part f started)
  then obtain k' where k: "k = Suc k'" by (cases k) auto
  have np: "pong f = []" using last_part.hyps(2) by (auto simp: pong_def data_frame_def ws_ops split: if_splits)
  let ?ws = "ws\<lparr>wc_in := rest\<rparr>"
  have r: "recv_round t (poll i) ws = (if data_frame f \<and> wf_fin f \<and> wf_payload f = [] then Ret (Stop (drop_frag ?ws) (WsData []))
      else on_frame (frame_header f) (wf_payload f) ?ws)"
    using last_part.prems by (intro recv_round_wire) auto
  show ?case
  proof (cases started)
    case False
    then have d: "data_frame f" using last_part.hyps(2) by simp
    have "recv_round t (poll i) ws = Ret (Stop (drop_frag ?ws) (WsData (wf_payload f)))"
    proof (cases "wf_payload f = []")
      case True
      then show ?thesis unfolding r using d last_part.hyps(1) by simp
    next
      case nonempty: False
      then show ?thesis unfolding r using d last_part.hyps(1)
        by (auto simp: on_frame_def frame_header_def on_data_def data_frame_def ws_ops)
    qed
    then show ?thesis using False np by (simp add: k received_def drop_frag_def)
  next
    case True
    then have op: "wf_opcode f = HU_WS_OP_CONTINUATION" "\<not> data_frame f" using last_part.hyps(2) by (auto simp: data_frame_def ws_ops)
    obtain buf where buf: "wc_frag ws = Some buf" using last_part.prems True by auto
    have "length buf + length (wf_payload f) \<le> HU_WS_MAX_MSG" using last_part.prems(7) True buf by simp
    moreover have "frag_ok ?ws" "wc_frag ?ws = Some buf" using last_part.prems(5) buf by (simp_all add: frag_ok_def)
    ultimately obtain cap where cap: "append_frag buf (wf_payload f) ?ws = Ret (Some (?ws\<lparr>wc_frag := Some (buf @ wf_payload f), wc_frag_cap := cap\<rparr>))"
      "length (buf @ wf_payload f) < cap" using append_frag_ok by blast
    have "recv_round t (poll i) ws =
        Ret (Stop (drop_frag (?ws\<lparr>wc_frag := Some (buf @ wf_payload f), wc_frag_cap := cap\<rparr>)) (WsData (buf @ wf_payload f)))"
      unfolding r using op last_part.hyps(1) buf cap
      by (simp add: on_frame_def frame_header_def on_continuation_def ws_ops)
    then show ?thesis using True np buf by (simp add: k received_def drop_frag_def)
  qed
next
  case (part f started msg fs)
  then obtain k' where k: "k = Suc k'" by (cases k) auto
  have np: "pong f = []" using part.hyps(2) by (auto simp: pong_def data_frame_def ws_ops split: if_splits)
  let ?ws = "ws\<lparr>wc_in := concat (map wire fs) @ rest\<rparr>"
  have r: "recv_round t (poll i) ws = on_frame (frame_header f) (wf_payload f) ?ws"
    using part.prems part.hyps(1) by (subst recv_round_wire [of t poll f ws "concat (map wire fs) @ rest"]) auto
  define buf where "buf = (if started then the (wc_frag ws) else [])"
  have len: "length (buf @ wf_payload f @ msg) \<le> HU_WS_MAX_MSG" using part.prems(7) by (simp add: buf_def split: if_splits)
  have "\<exists>cap oc. recv_round t (poll i) ws = Ret (Again (?ws\<lparr>wc_frag := Some (buf @ wf_payload f), wc_frag_cap := cap, wc_frag_opcode := oc\<rparr>)) \<and>
      length (buf @ wf_payload f) < cap"
  proof (cases started)
    case False
    then have "data_frame f" using part.hyps(2) by simp
    then show ?thesis unfolding r using part.hyps(1) False
      by (auto simp: on_frame_def frame_header_def on_data_def data_frame_def ws_ops buf_def)
  next
    case True
    then have op: "wf_opcode f = HU_WS_OP_CONTINUATION" using part.hyps(2) by simp
    have b: "wc_frag ws = Some buf" using part.prems(6) True by (auto simp: buf_def)
    have "frag_ok ?ws" "wc_frag ?ws = Some buf" using part.prems(5) b by (simp_all add: frag_ok_def)
    moreover have "length buf + length (wf_payload f) \<le> HU_WS_MAX_MSG" using len by simp
    ultimately obtain cap where cap: "append_frag buf (wf_payload f) ?ws = Ret (Some (?ws\<lparr>wc_frag := Some (buf @ wf_payload f), wc_frag_cap := cap\<rparr>))"
      "length (buf @ wf_payload f) < cap" using append_frag_ok by blast
    then show ?thesis unfolding r using op part.hyps(1) b
      by (intro exI [of _ cap] exI [of _ "wc_frag_opcode ws"]) (simp add: on_frame_def frame_header_def on_continuation_def ws_ops)
  qed
  then obtain cap oc where ag: "recv_round t (poll i) ws = Ret (Again (?ws\<lparr>wc_frag := Some (buf @ wf_payload f), wc_frag_cap := cap, wc_frag_opcode := oc\<rparr>))"
      "length (buf @ wf_payload f) < cap" by blast
  let ?ws2 = "?ws\<lparr>wc_frag := Some (buf @ wf_payload f), wc_frag_cap := cap, wc_frag_opcode := oc\<rparr>"
  have "\<exists>ws'. recv_loop k' t poll (i + 1) ?ws2 = Ret (ws', WsData (if True then the (wc_frag ?ws2) @ msg else msg)) \<and> received ?ws2 (pongs fs) rest ws'"
    using part.prems k ag(2) len by (intro part.IH) (auto simp: frag_ok_def)
  then obtain ws' where ws': "recv_loop k' t poll (i + 1) ?ws2 = Ret (ws', WsData ((buf @ wf_payload f) @ msg))" "received ?ws2 (pongs fs) rest ws'" by auto
  then show ?case using ag(1) np by (intro exI [of _ ws']) (auto simp: k received_def buf_def)
qed

lemma length_wires: "list_all receivable fs \<Longrightarrow> length fs \<le> length (concat (map wire fs))"
proof (induction fs)
  case (Cons f fs)
  then have "1 \<le> length (wire f)" using header_need_wire(1) [of f] by (simp add: receivable_def length_wire)
  with Cons show ?case by simp
qed simp

lemma received_frag: "received ws a b ws' \<Longrightarrow> frag_ok ws'"
  by (simp add: received_def frag_ok_def)

text \<open>
  C18: a message of up to 64 KiB is received whole, whatever frames it is cut into, masked or not, and whatever frames of
  up to 64 KiB that are neither data nor CLOSE frames come in between, if the socket is open and waiting for it never
  times out or fails; the client reads not a byte more, answers the pings of up to 122 bytes and no others, and keeps no
  fragment back.
\<close>

theorem ws_recv_message:
  assumes "carries False msg fs" and "list_all receivable fs" and "length msg \<le> HU_WS_MAX_MSG" and "poll_ready t poll"
    and "wc_sock ws \<noteq> HU_WS_INVALID_SOCK" and "frag_ok ws" and "wc_in ws = concat (map wire fs) @ rest"
  shows "\<exists>ws'. hu_ws_recv t poll ws = Ret (ws', WsData msg) \<and> wc_sock ws' = wc_sock ws \<and> wc_frag ws' = None \<and> wc_in ws' = rest \<and>
    wc_out ws' = wc_out ws @ pongs fs"
proof -
  have "length fs \<le> length (wc_in ws) + 1" using length_wires [OF assms(2)] assms(7) by simp
  from recv_carries [OF assms(1,2,4,7) this assms(6), of 0] assms(3,5) show ?thesis by (auto simp: hu_ws_recv_def received_def)
qed

definition sample_frames :: "ws_frame list" where
  "sample_frames = [WsFrame True 9 None [1], WsFrame False 1 (Some [1, 2, 3, 4]) [104], WsFrame True 10 None [], WsFrame True 0 None [105]]"

definition sample_client :: ws_client where
  "sample_client = \<lparr>wc_sock = 5, wc_frag = None, wc_frag_cap = 0, wc_frag_opcode = 0, wc_in = concat (map wire sample_frames) @ [7], wc_out = []\<rparr>"

lemma sample_carries: "carries False ([104] @ [105]) sample_frames"
proof -
  have "carries True [105] [WsFrame True 0 None [105]]" using carries.last_part [of "WsFrame True 0 None [105]" True] by (simp add: ws_ops)
  then have "carries True [105] [WsFrame True 10 None [], WsFrame True 0 None [105]]"
    using carries.control [of True "[105]" _ "WsFrame True 10 None []"] by (simp add: ws_ops)
  then have "carries False ([104] @ [105]) [WsFrame False 1 (Some [1, 2, 3, 4]) [104], WsFrame True 10 None [], WsFrame True 0 None [105]]"
    using carries.part [of "WsFrame False 1 (Some [1, 2, 3, 4]) [104]" False "[105]"] by (simp add: ws_ops data_frame_def)
  then show ?thesis unfolding sample_frames_def
    by (rule carries.control) (simp add: ws_ops)
qed

lemma ws_recv_message_witness:
  "\<exists>ws'. hu_ws_recv (- 1) (\<lambda>_. PollReady) sample_client = Ret (ws', WsData ([104] @ [105])) \<and> wc_sock ws' = wc_sock sample_client \<and>
    wc_frag ws' = None \<and> wc_in ws' = [7] \<and> wc_out ws' = wc_out sample_client @ pongs sample_frames"
  by (rule ws_recv_message [OF sample_carries])
    (simp_all add: sample_frames_def sample_client_def receivable_def frame_ok_def HU_WS_MAX_MSG_def HU_WS_MAX_FRAME_PAYLOAD_def
      poll_ready_def HU_WS_INVALID_SOCK_def frag_ok_def)

section \<open>Any peer\<close>

text \<open>What a round may do: go on with fewer bytes to read, or stop with a message within the limit or an error.\<close>

definition result_ok :: "ws_result \<Rightarrow> bool" where
  "result_ok r = (case r of WsData d \<Rightarrow> length d \<le> HU_WS_MAX_MSG | WsError e \<Rightarrow> e \<in> {HU_ERR_IO, HU_ERR_PARSE, HU_ERR_TIMEOUT})"

definition round_ok :: "nat \<Rightarrow> ws_round outcome \<Rightarrow> bool" where
  "round_ok n r \<longleftrightarrow> (\<exists>ws'. r = Ret (Again ws') \<and> frag_ok ws' \<and> length (wc_in ws') \<le> n) \<or>
     (\<exists>ws' res. r = Ret (Stop ws' res) \<and> frag_ok ws' \<and> length (wc_in ws') \<le> n \<and> result_ok res)"

lemma round_ok_simps [simp]:
  "round_ok n (Ret (Again ws)) \<longleftrightarrow> frag_ok ws \<and> length (wc_in ws) \<le> n"
  "round_ok n (Ret (Stop ws res)) \<longleftrightarrow> frag_ok ws \<and> length (wc_in ws) \<le> n \<and> result_ok res"
  by (simp_all add: round_ok_def)

lemma result_ok_simps [simp]: "result_ok (WsError HU_ERR_IO)" "result_ok (WsError HU_ERR_PARSE)" "result_ok (WsError HU_ERR_TIMEOUT)"
  "result_ok (WsData d) \<longleftrightarrow> length d \<le> HU_WS_MAX_MSG"
  by (simp_all add: result_ok_def)

lemma round_ok_mono: "round_ok n r \<Longrightarrow> n \<le> k \<Longrightarrow> round_ok k r"
  by (auto simp: round_ok_def)

lemma frag_ok_drop [simp]: "frag_ok (drop_frag ws)" "wc_in (drop_frag ws) = wc_in ws" "wc_sock (drop_frag ws) = wc_sock ws"
  by (simp_all add: drop_frag_def frag_ok_def)

lemma frag_ok_sock [simp]: "frag_ok (ws\<lparr>wc_sock := s\<rparr>) = frag_ok ws"
  by (simp add: frag_ok_def split: option.split)

lemma close_socket_ok: "\<exists>out s. close_socket ws = Ret (ws\<lparr>wc_out := out, wc_sock := s\<rparr>)"
proof -
  have "hu_ws_build_frame 16 HU_WS_OP_CLOSE [] [0, 0, 0, 0] = Ret (wire (WsFrame True HU_WS_OP_CLOSE (Some [0, 0, 0, 0]) []))"
    by (rule build_wire) (simp_all add: ws_ops length_wire_head)
  then show ?thesis
  proof (cases "wc_sock ws = HU_WS_INVALID_SOCK")
    case True
    then show ?thesis by (intro exI [of _ "wc_out ws"] exI [of _ "wc_sock ws"]) (simp add: close_socket_def)
  qed (auto simp: close_socket_def send_reply_def)
qed

lemma on_frame_ok:
  assumes "frag_ok ws" "length payload \<le> HU_WS_MAX_MSG" "data_opcode = (wh_opcode h = HU_WS_OP_TEXT \<or> wh_opcode h = HU_WS_OP_BINARY)"
    "\<not> (data_opcode \<and> wh_fin h \<and> payload = [])"
  shows "round_ok (length (wc_in ws)) (on_frame h payload ws)"
proof -
  consider "wh_opcode h = HU_WS_OP_PING" | "wh_opcode h = HU_WS_OP_CLOSE" | "data_opcode"
    | "wh_opcode h = HU_WS_OP_CONTINUATION" | "wh_opcode h \<notin> {HU_WS_OP_PING, HU_WS_OP_CLOSE, HU_WS_OP_CONTINUATION}" "\<not> data_opcode" by auto
  then show ?thesis
  proof cases
    case 1
    then show ?thesis
      using assms(1) send_pong [of payload ws True None] by (auto simp: on_frame_def on_ping_def)
  next
    case 2
    obtain out s where "close_socket (drop_frag ws) = Ret ((drop_frag ws)\<lparr>wc_out := out, wc_sock := s\<rparr>)" using close_socket_ok by blast
    then show ?thesis using 2 by (simp add: on_frame_def on_close_def ws_ops)
  next
    case 3
    then have op: "wh_opcode h \<noteq> HU_WS_OP_PING" "wh_opcode h \<noteq> HU_WS_OP_PONG" "wh_opcode h \<noteq> HU_WS_OP_CLOSE"
      using assms(3) by (auto simp: ws_ops)
    have "on_frame h payload ws = on_data (wh_opcode h) (wh_fin h) payload ws" using op 3 assms(3) by (simp add: on_frame_def)
    moreover have "round_ok (length (wc_in ws)) (on_data (wh_opcode h) (wh_fin h) payload ws)"
    proof (cases "wh_fin h")
      case True
      then show ?thesis using assms(2,4) 3 by (simp add: on_data_def)
    next
      case False
      then show ?thesis using assms(2) by (simp add: on_data_def Let_def frag_ok_def)
    qed
    ultimately show ?thesis by simp
  next
    case 4
    then have eq: "on_frame h payload ws = on_continuation (wh_fin h) payload ws" by (simp add: on_frame_def ws_ops)
    show ?thesis
    proof (cases "wc_frag ws")
      case None
      then show ?thesis using assms(1) by (simp add: eq on_continuation_def)
    next
      case (Some buf)
      show ?thesis
      proof (cases "length buf + length payload \<le> HU_WS_MAX_MSG")
        case True
        from append_frag_ok [OF assms(1) Some True] obtain cap where
          "append_frag buf payload ws = Ret (Some (ws\<lparr>wc_frag := Some (buf @ payload), wc_frag_cap := cap\<rparr>))" "length (buf @ payload) < cap" by blast
        then show ?thesis using Some True by (simp add: eq on_continuation_def) (simp add: frag_ok_def)
      next
        case False
        have "length buf \<le> HU_WS_MAX_MSG" using assms(1) Some by (simp add: frag_ok_def)
        with False have "append_frag buf payload ws = Ret None" by (auto simp: append_frag_def Let_def)
        then show ?thesis using Some by (simp add: eq on_continuation_def)
      qed
    qed
  next
    case 5
    then show ?thesis using assms(1,3) by (auto simp: on_frame_def)
  qed
qed

lemma read_exact_ok:
  assumes "frag_ok ws" "n \<le> length (wc_in ws) \<Longrightarrow> round_ok (length (wc_in ws) - n) (k (take n (wc_in ws)) (ws\<lparr>wc_in := drop n (wc_in ws)\<rparr>))"
  shows "round_ok (length (wc_in ws) - n) (read_exact n ws k)"
  using assms by (auto simp: read_exact_def)

lemma recv_payload_ok:
  assumes "frag_ok ws"
  shows "round_ok (length (wc_in ws)) (recv_payload hb ws)"
proof (cases "hu_ws_parse_header hb")
  case (Some h)
  show ?thesis
  proof (cases "wh_payload_len h > HU_WS_MAX_MSG \<or> (wh_opcode h = HU_WS_OP_TEXT \<or> wh_opcode h = HU_WS_OP_BINARY) \<and> wh_fin h \<and> wh_payload_len h = 0")
    case True
    then show ?thesis using Some assms by (auto simp: recv_payload_def)
  next
    case False
    let ?k = "\<lambda>payload ws. on_frame h (if wh_masked h then hu_ws_apply_mask payload (take 4 (drop (wh_header_bytes h - 4) hb)) else payload) ws"
    have "recv_payload hb ws = read_exact (wh_payload_len h) ws ?k" using Some False by (auto simp: recv_payload_def Let_def)
    moreover have "round_ok (length (wc_in ws) - wh_payload_len h) (read_exact (wh_payload_len h) ws ?k)"
    proof (rule read_exact_ok [OF assms])
      assume "wh_payload_len h \<le> length (wc_in ws)"
      moreover have "hu_ws_apply_mask p m = [] \<longleftrightarrow> p = []" for p m using length_apply_mask [of p m] by (metis length_0_conv)
      ultimately have "round_ok (length (wc_in (ws\<lparr>wc_in := drop (wh_payload_len h) (wc_in ws)\<rparr>)))
          (?k (take (wh_payload_len h) (wc_in ws)) (ws\<lparr>wc_in := drop (wh_payload_len h) (wc_in ws)\<rparr>))"
        using False assms by (intro on_frame_ok [OF _ _ refl]) auto
      then show "round_ok (length (wc_in ws) - wh_payload_len h) (?k (take (wh_payload_len h) (wc_in ws)) (ws\<lparr>wc_in := drop (wh_payload_len h) (wc_in ws)\<rparr>))"
        by simp
    qed
    ultimately show ?thesis by (auto intro: round_ok_mono)
  qed
qed (use assms in \<open>simp add: recv_payload_def\<close>)

lemma recv_round_ok:
  assumes "frag_ok ws"
  shows "(\<exists>ws'. recv_round t p ws = Ret (Again ws') \<and> frag_ok ws' \<and> length (wc_in ws') + 2 \<le> length (wc_in ws)) \<or>
    (\<exists>ws' res. recv_round t p ws = Ret (Stop ws' res) \<and> frag_ok ws' \<and> length (wc_in ws') \<le> length (wc_in ws) \<and> result_ok res)"
proof (cases "t \<ge> 0 \<and> p \<noteq> PollReady")
  case True
  then show ?thesis using assms by (cases p) (auto simp: recv_round_def)
next
  case False
  let ?k = "\<lambda>h ws. read_exact (header_need (h ! 1) - 2) ws (\<lambda>h' ws. recv_payload (h @ h') ws)"
  have eq: "recv_round t p ws = read_exact 2 ws ?k" using False unfolding recv_round_def by auto
  show ?thesis
  proof (cases "2 \<le> length (wc_in ws)")
    case True
    have "round_ok (length (wc_in ws) - 2) (read_exact 2 ws ?k)"
    proof (rule read_exact_ok [OF assms])
      let ?ws = "ws\<lparr>wc_in := drop 2 (wc_in ws)\<rparr>"
      have "round_ok (length (wc_in ?ws) - (header_need (take 2 (wc_in ws) ! 1) - 2)) (?k (take 2 (wc_in ws)) ?ws)"
        by (rule read_exact_ok) (use assms in \<open>auto intro!: round_ok_mono [OF recv_payload_ok]\<close>)
      then show "round_ok (length (wc_in ws) - 2) (?k (take 2 (wc_in ws)) ?ws)" by (rule round_ok_mono) simp
    qed
    then show ?thesis unfolding eq round_ok_def using True by auto
  next
    case False
    then show ?thesis using assms by (simp add: eq read_exact_def)
  qed
qed

lemma recv_loop_ok:
  "frag_ok ws \<Longrightarrow> length (wc_in ws) < k \<Longrightarrow>
   \<exists>ws' res. recv_loop k t poll i ws = Ret (ws', res) \<and> frag_ok ws' \<and> length (wc_in ws') \<le> length (wc_in ws) \<and> result_ok res"
proof (induction k arbitrary: i ws)
  case (Suc k)
  from recv_round_ok [OF Suc.prems(1), of t "poll i"] show ?case
  proof (elim disjE exE conjE)
    fix ws' assume a: "recv_round t (poll i) ws = Ret (Again ws')" "frag_ok ws'" "length (wc_in ws') + 2 \<le> length (wc_in ws)"
    obtain ws2 res where r: "recv_loop k t poll (i + 1) ws' = Ret (ws2, res)" "frag_ok ws2" "length (wc_in ws2) \<le> length (wc_in ws')" "result_ok res"
      using Suc.IH [of ws' "i + 1"] a(2,3) Suc.prems(2) by auto
    then have "recv_loop (Suc k) t poll i ws = Ret (ws2, res)" using a(1) by simp
    moreover have "length (wc_in ws2) \<le> length (wc_in ws)" using r(3) a(3) by simp
    ultimately show ?case using r(2,4) by blast
  qed auto
qed simp

text \<open>
  C19: whatever bytes a peer sends, a call to receive ends, within its buffers, with a message of at most 64 KiB or one of
  three errors, and the client can go on with the rest.
\<close>

theorem ws_recv_safe:
  assumes "frag_ok ws"
  shows "\<exists>ws' res. hu_ws_recv t poll ws = Ret (ws', res) \<and> frag_ok ws' \<and> length (wc_in ws') \<le> length (wc_in ws) \<and> result_ok res"
  using recv_loop_ok [OF assms, of "length (wc_in ws) + 1" t poll 0] assms by (auto simp: hu_ws_recv_def)

lemma ws_recv_safe_witness:
  "\<exists>ws' res. hu_ws_recv 50 (\<lambda>_. PollReady) (sample_client\<lparr>wc_in := [129, 254, 255]\<rparr>) = Ret (ws', res) \<and> frag_ok ws' \<and>
    length (wc_in ws') \<le> length (wc_in (sample_client\<lparr>wc_in := [129, 254, 255]\<rparr>)) \<and> result_ok res"
  by (rule ws_recv_safe) (simp add: sample_client_def frag_ok_def)

section \<open>From one client to another\<close>

fun send_all :: "(byte list \<times> byte list) list \<Rightarrow> ws_client \<Rightarrow> ws_client outcome" where
  "send_all [] ws = Ret ws"
| "send_all ((key, data) # ms) ws = obind (hu_ws_send key data ws) (\<lambda>ws. send_all ms ws)"

fun recv_all :: "nat \<Rightarrow> int \<Rightarrow> (nat \<Rightarrow> poll_result) \<Rightarrow> ws_client \<Rightarrow> (ws_client \<times> ws_result list) outcome" where
  "recv_all 0 t poll ws = Ret (ws, [])"
| "recv_all (Suc n) t poll ws =
     obind (hu_ws_recv t poll ws) (\<lambda>(ws, r). obind (recv_all n t poll ws) (\<lambda>(ws, rs). Ret (ws, r # rs)))"

definition text_frame :: "byte list \<times> byte list \<Rightarrow> ws_frame" where
  "text_frame m = WsFrame True HU_WS_OP_TEXT (Some (fst m)) (snd m)"

definition sendable :: "byte list \<times> byte list \<Rightarrow> bool" where
  "sendable m \<longleftrightarrow> length (fst m) = 4 \<and> length (snd m) \<le> HU_WS_MAX_MSG"

lemma send_wire:
  assumes "sendable m" "wc_sock ws \<noteq> HU_WS_INVALID_SOCK"
  shows "hu_ws_send (fst m) (snd m) ws = Ret (ws\<lparr>wc_out := wc_out ws @ wire (text_frame m)\<rparr>)"
proof -
  let ?cap = "if length (snd m) > 4096 then length (snd m) + 14 else 4096 + 14"
  have "length (wire_head (text_frame m)) \<le> 14" using assms(1) by (simp add: text_frame_def length_wire_head sendable_def)
  then have "hu_ws_build_frame ?cap HU_WS_OP_TEXT (snd m) (fst m) = Ret (wire (text_frame m))"
    using assms(1) unfolding text_frame_def
    by (intro build_wire) (auto simp: sendable_def ws_ops HU_WS_MAX_MSG_def HU_WS_MAX_FRAME_PAYLOAD_def)
  moreover have "wire (text_frame m) \<noteq> []" by (simp add: wire_def wire_head_def)
  ultimately show ?thesis using assms by (simp add: hu_ws_send_def sendable_def Let_def)
qed

lemma send_all_wire:
  "list_all sendable ms \<Longrightarrow> wc_sock ws \<noteq> HU_WS_INVALID_SOCK \<Longrightarrow>
   send_all ms ws = Ret (ws\<lparr>wc_out := wc_out ws @ concat (map (\<lambda>m. wire (text_frame m)) ms)\<rparr>)"
proof (induction ms arbitrary: ws)
  case (Cons m ms)
  obtain key data where m: "m = (key, data)" by (cases m)
  have "hu_ws_send key data ws = Ret (ws\<lparr>wc_out := wc_out ws @ wire (text_frame m)\<rparr>)"
    using send_wire [of m ws] Cons.prems m by simp
  with Cons m show ?case by simp
qed simp

lemma recv_all_wire:
  "list_all sendable ms \<Longrightarrow> poll_ready t poll \<Longrightarrow> wc_sock ws \<noteq> HU_WS_INVALID_SOCK \<Longrightarrow> frag_ok ws \<Longrightarrow>
   wc_in ws = concat (map (\<lambda>m. wire (text_frame m)) ms) @ rest \<Longrightarrow>
   \<exists>ws'. recv_all (length ms) t poll ws = Ret (ws', map (WsData \<circ> snd) ms) \<and> wc_in ws' = rest"
proof (induction ms arbitrary: ws)
  case (Cons m ms)
  have m: "length (fst m) = 4" "length (snd m) \<le> HU_WS_MAX_MSG" using Cons.prems(1) by (simp_all add: sendable_def)
  have "carries False (wf_payload (text_frame m)) [text_frame m]" by (rule carries.last_part) (simp_all add: text_frame_def data_frame_def)
  then have c: "carries False (snd m) [text_frame m]" by (simp add: text_frame_def)
  have r: "list_all receivable [text_frame m]"
    using m by (simp add: receivable_def frame_ok_def text_frame_def ws_ops HU_WS_MAX_MSG_def HU_WS_MAX_FRAME_PAYLOAD_def)
  have inp: "wc_in ws = concat (map wire [text_frame m]) @ concat (map (\<lambda>m. wire (text_frame m)) ms) @ rest" using Cons.prems(5) by simp
  have "length [text_frame m] \<le> length (wc_in ws) + 1" by simp
  from recv_carries [OF c r Cons.prems(2) inp this Cons.prems(4), of 0] m Cons.prems(3) obtain ws1 where
    ws1: "hu_ws_recv t poll ws = Ret (ws1, WsData (snd m))" "received ws (pongs [text_frame m]) (concat (map (\<lambda>m. wire (text_frame m)) ms) @ rest) ws1"
    by (auto simp: hu_ws_recv_def)
  from ws1(2) have s: "wc_sock ws1 \<noteq> HU_WS_INVALID_SOCK" "frag_ok ws1" "wc_in ws1 = concat (map (\<lambda>m. wire (text_frame m)) ms) @ rest"
    using Cons.prems(3) received_frag by (auto simp: received_def)
  from Cons.IH [OF _ Cons.prems(2) s] Cons.prems(1) ws1(1) show ?case by auto
qed simp

text \<open>
  Messages of up to 64 KiB that one client sends are what another receives, one by one, whatever masks are used.
\<close>

theorem ws_send_recv:
  assumes "list_all sendable ms" and "wc_sock a \<noteq> HU_WS_INVALID_SOCK" and "wc_out a = []" and "poll_ready t poll"
    and "wc_sock b \<noteq> HU_WS_INVALID_SOCK" and "frag_ok b"
  shows "\<exists>a' b'. send_all ms a = Ret a' \<and> recv_all (length ms) t poll (b\<lparr>wc_in := wc_out a'\<rparr>) = Ret (b', map (WsData \<circ> snd) ms) \<and> wc_in b' = []"
  using send_all_wire [OF assms(1,2)] recv_all_wire [OF assms(1,4), of "b\<lparr>wc_in := concat (map (\<lambda>m. wire (text_frame m)) ms)\<rparr>" "[]"] assms(3,5,6)
  by auto

lemma ws_send_recv_witness:
  "\<exists>a' b'. send_all [([1, 2, 3, 4], [104, 105]), ([5, 6, 7, 8], [])] (sample_client\<lparr>wc_in := []\<rparr>) = Ret a' \<and>
    recv_all (length [([1, 2, 3, 4] :: byte list, [104, 105] :: byte list), ([5, 6, 7, 8], [])]) (- 1) (\<lambda>_. PollReady) (sample_client\<lparr>wc_in := wc_out a'\<rparr>)
      = Ret (b', map (WsData \<circ> snd) [([1, 2, 3, 4] :: byte list, [104, 105]), ([5, 6, 7, 8], [])]) \<and> wc_in b' = []"
  by (rule ws_send_recv) (simp_all add: sendable_def HU_WS_MAX_MSG_def sample_client_def HU_WS_INVALID_SOCK_def poll_ready_def frag_ok_def)

section \<open>Where it falls short\<close>

text \<open>A buffer of 6 or 7 bytes passes the check of the size, and the head of a longer payload is written past its end.\<close>

lemma ws_small_buffer_overflow:
  assumes "length payload = 126"
  shows "hu_ws_build_frame 6 HU_WS_OP_TEXT payload key = Undef OutOfBounds"
  using assms by (simp add: hu_ws_build_frame_def frame_head_def Let_def HU_WS_MAX_FRAME_PAYLOAD_def)

text \<open>Pings of 123 to 125 bytes, which are allowed, do not fit the buffer of the reply and are not answered.\<close>

lemma ws_long_ping_unanswered:
  assumes "122 < length payload" and "length payload \<le> 125"
  shows "on_ping payload ws = Ret (Again ws)"
  using send_pong [OF assms(2), of ws True None] assms by (simp add: on_ping_def pong_def)

text \<open>Closing leaves the client with descriptor 0, which counts as open.\<close>

lemma ws_closed_is_open: "\<exists>ws'. hu_ws_close ws = Ret ws' \<and> wc_sock ws' = 0 \<and> wc_sock ws' \<noteq> HU_WS_INVALID_SOCK"
  using close_socket_ok [of "drop_frag ws"] by (auto simp: hu_ws_close_def HU_WS_INVALID_SOCK_def)

end
