(* ===== verification/HuDispatch.thy ===== *)
theory HuDispatch
  imports HuJson "HOL-Library.Word"
begin

text \<open>
  \<^verbatim>\<open>src/agent/dispatcher.c\<close>: running the tool calls of a model's message, with a cache of results for one turn and with
  retries.

  A tool, the clock that a retry waits on and the worker threads are functions on the state \<open>'w\<close> of the host.  The
  cache is a table of 64 slots that is indexed by a 64-bit hash of name and arguments.  A result is written into
  fresh memory: the fields a cache hit leaves out are \<open>None\<close> in \<open>rs_rest\<close>, and freeing such a result reads what was
  never written.  \<^verbatim>\<open>hu_local_only_set_caller\<close>, a label for the log, is left out.
\<close>

unbundle bit_operations_syntax

section \<open>Results, calls and tools\<close>

record result_rest =
  rr_error_msg :: "string option"
  rr_error_msg_len :: nat
  rr_error_msg_owned :: bool
  rr_media_path :: "string option"
  rr_media_path_len :: nat
  rr_media_path_owned :: bool
  rr_needs_approval :: bool

record hu_tool_result =
  rs_success :: bool
  rs_output :: "string option"
  rs_output_len :: nat
  rs_output_owned :: bool
  rs_rest :: "result_rest option"

definition rest_zero :: result_rest where
  "rest_zero = \<lparr>rr_error_msg = None, rr_error_msg_len = 0, rr_error_msg_owned = False, rr_media_path = None,
     rr_media_path_len = 0, rr_media_path_owned = False, rr_needs_approval = False\<rparr>"

definition hu_tool_result_fail :: "string \<Rightarrow> nat \<Rightarrow> hu_tool_result" where
  "hu_tool_result_fail msg n =
     \<lparr>rs_success = False, rs_output = Some [], rs_output_len = 0, rs_output_owned = False,
      rs_rest = Some (rest_zero\<lparr>rr_error_msg := Some msg, rr_error_msg_len := n\<rparr>)\<rparr>"

text \<open>Freeing looks at the flags that say what is owned; the result that is left points to nothing.\<close>

definition hu_tool_result_free :: "hu_tool_result \<Rightarrow> hu_tool_result outcome" where
  "hu_tool_result_free r =
     (case rs_rest r of
        None \<Rightarrow> Undef Uninitialised
      | Some rr \<Rightarrow> Ret (r\<lparr>rs_output := None, rs_rest := Some (rr\<lparr>rr_error_msg := None, rr_media_path := None\<rparr>)\<rparr>))"

record tool_call =
  tc_name :: string
  tc_arguments :: string

text \<open>
  A tool gets the result as it is and leaves it as it likes, what it returns is ignored; \<open>None\<close> is a NULL function
  pointer.
\<close>

record 'w hu_tool =
  dt_name :: "string option"
  dt_execute :: "(json \<Rightarrow> hu_tool_result \<Rightarrow> 'w \<Rightarrow> hu_tool_result \<times> 'w) option"
  dt_execute_streaming :: "(json \<Rightarrow> hu_tool_result \<Rightarrow> 'w \<Rightarrow> hu_tool_result \<times> 'w) option"

section \<open>The cache of a turn\<close>

definition HU_TOOL_CACHE_SLOTS :: nat where "HU_TOOL_CACHE_SLOTS = 64"

record cache_slot =
  cs_hash :: "64 word"
  cs_occupied :: bool
  cs_result :: hu_tool_result

record hu_tool_cache =
  ca_slots :: "cache_slot list"
  ca_hits :: nat
  ca_misses :: nat

definition tool_result_zero :: hu_tool_result where
  "tool_result_zero = \<lparr>rs_success = False, rs_output = None, rs_output_len = 0, rs_output_owned = False, rs_rest = Some rest_zero\<rparr>"

definition slot_zero :: cache_slot where
  "slot_zero = \<lparr>cs_hash = 0, cs_occupied = False, cs_result = tool_result_zero\<rparr>"

definition hu_tool_cache_create :: hu_tool_cache where
  "hu_tool_cache_create = \<lparr>ca_slots = replicate HU_TOOL_CACHE_SLOTS slot_zero, ca_hits = 0, ca_misses = 0\<rparr>"

definition hu_tool_cache_clear :: "hu_tool_cache \<Rightarrow> hu_tool_cache" where
  "hu_tool_cache_clear ca = \<lparr>ca_slots = replicate (length (ca_slots ca)) slot_zero, ca_hits = 0, ca_misses = 0\<rparr>"

definition fnv_byte :: "64 word \<Rightarrow> nat \<Rightarrow> 64 word" where
  "fnv_byte h b = (h XOR word_of_nat b) * 1099511628211"

definition tool_cache_hash :: "string \<Rightarrow> string \<Rightarrow> 64 word" where
  "tool_cache_hash name args =
     (let h = foldl (\<lambda>h c. fnv_byte h (cval c)) 14695981039346656037 name; h = fnv_byte h 0xFF in
      foldl (\<lambda>h c. fnv_byte h (cval c)) h args)"

definition tool_cache_skip_tools :: "string list" where
  "tool_cache_skip_tools = [''shell'', ''memory_store'', ''memory_delete'', ''send_message'', ''file_write'']"

definition tool_cache_should_skip :: "string \<Rightarrow> bool" where
  "tool_cache_should_skip name \<longleftrightarrow> name \<in> set tool_cache_skip_tools"

definition slot_of :: "64 word \<Rightarrow> nat" where
  "slot_of h = unat h mod HU_TOOL_CACHE_SLOTS"

text \<open>A hit writes four fields of the result; \<open>rest\<close> is what the others hold.\<close>

definition tool_cache_lookup :: "hu_tool_cache \<Rightarrow> string \<Rightarrow> string \<Rightarrow> result_rest option \<Rightarrow> hu_tool_cache \<times> hu_tool_result option" where
  "tool_cache_lookup ca name args rest =
     (if tool_cache_should_skip name then (ca, None)
      else
        let h = tool_cache_hash name args; slot = ca_slots ca ! slot_of h; cached = cs_result slot in
        if cs_occupied slot \<and> cs_hash slot = h then
          (ca\<lparr>ca_hits := ca_hits ca + 1\<rparr>,
           Some \<lparr>rs_success = rs_success cached, rs_output = map_option (\<lambda>s. hu_strndup s (rs_output_len cached)) (rs_output cached),
                 rs_output_len = rs_output_len cached, rs_output_owned = True, rs_rest = rest\<rparr>)
        else (ca\<lparr>ca_misses := ca_misses ca + 1\<rparr>, None))"

definition tool_cache_store :: "hu_tool_cache \<Rightarrow> string \<Rightarrow> string \<Rightarrow> hu_tool_result \<Rightarrow> hu_tool_cache" where
  "tool_cache_store ca name args r =
     (if \<not> rs_success r \<or> tool_cache_should_skip name then ca
      else
        let h = tool_cache_hash name args; old = cs_result (ca_slots ca ! slot_of h) in
        ca\<lparr>ca_slots := (ca_slots ca)
             [slot_of h := \<lparr>cs_hash = h, cs_occupied = True,
                cs_result = old\<lparr>rs_output := map_option (\<lambda>s. hu_strndup s (rs_output_len r)) (rs_output r),
                  rs_output_len := rs_output_len r, rs_output_owned := True, rs_success := rs_success r\<rparr>\<rparr>]\<rparr>)"

section \<open>One call\<close>

fun disp_find_tool :: "'w hu_tool list \<Rightarrow> string \<Rightarrow> 'w hu_tool option" where
  "disp_find_tool [] name = None"
| "disp_find_tool (t # ts) name = (if dt_name t = Some name then Some t else disp_find_tool ts name)"

definition run_tool :: "'w hu_tool \<Rightarrow> bool \<Rightarrow> json \<Rightarrow> hu_tool_result \<Rightarrow> 'w \<Rightarrow> hu_tool_result \<times> 'w" where
  "run_tool t streaming v r w =
     (case dt_execute_streaming t of
        Some f \<Rightarrow> if streaming then f v r w else (case dt_execute t of Some g \<Rightarrow> g v r w | None \<Rightarrow> (r, w))
      | None \<Rightarrow> (case dt_execute t of Some g \<Rightarrow> g v r w | None \<Rightarrow> (r, w)))"

text \<open>The arguments of a call: \<open>None\<close> when there are none or they do not parse.\<close>

definition parse_args :: "string \<Rightarrow> json option outcome" where
  "parse_args args =
     (if args = [] then Ret None
      else case hu_json_parse args of Ret v \<Rightarrow> Ret (Some v) | Err e \<Rightarrow> Ret None | Undef u \<Rightarrow> Undef u | NoFuel \<Rightarrow> NoFuel)"

type_synonym 'w executed = "hu_tool_result \<times> hu_tool_cache option \<times> 'w"

definition execute_fresh :: "'w hu_tool \<Rightarrow> bool \<Rightarrow> tool_call \<Rightarrow> hu_tool_cache option \<Rightarrow> 'w \<Rightarrow> 'w executed outcome" where
  "execute_fresh t streaming call ca w =
     obind (parse_args (tc_arguments call)) (\<lambda>args.
     case args of
       None \<Rightarrow> Ret (hu_tool_result_fail ''invalid arguments'' 16, ca, w)
     | Some v \<Rightarrow>
         let (r, w) = run_tool t streaming v (hu_tool_result_fail ''invalid arguments'' 16) w in
         Ret (r, map_option (\<lambda>ca. tool_cache_store ca (tc_name call) (tc_arguments call) r) ca, w))"

definition execute_one_impl ::
    "'w hu_tool list \<Rightarrow> bool \<Rightarrow> tool_call \<Rightarrow> result_rest option \<Rightarrow> hu_tool_cache option \<Rightarrow> 'w \<Rightarrow> 'w executed outcome" where
  "execute_one_impl tools streaming call rest ca w =
     (case disp_find_tool tools (tc_name call) of
        None \<Rightarrow> Ret (hu_tool_result_fail ''tool not found'' 14, ca, w)
      | Some t \<Rightarrow>
          (case ca of
             None \<Rightarrow> execute_fresh t streaming call None w
           | Some c \<Rightarrow>
               (case tool_cache_lookup c (tc_name call) (tc_arguments call) rest of
                  (c, Some r) \<Rightarrow> Ret (r, Some c, w)
                | (c, None) \<Rightarrow> execute_fresh t streaming call (Some c) w)))"

section \<open>Retries\<close>

text \<open>
  Waiting times are 32 bits wide.  \<^verbatim>\<open>strstr\<close> looks at the output of the failed result.
\<close>

definition next_delay :: "nat \<Rightarrow> nat" where
  "next_delay d = (let d = 2 * d mod 2 ^ 32 in if d > 10000 then 10000 else d)"

fun retry_loop ::
    "(nat \<Rightarrow> 'w \<Rightarrow> 'w) \<Rightarrow> 'w hu_tool list \<Rightarrow> bool \<Rightarrow> tool_call \<Rightarrow> nat \<Rightarrow> nat \<Rightarrow> 'w executed \<Rightarrow> 'w executed outcome" where
  "retry_loop nanosleep tools streaming call 0 delay s = Ret s"
| "retry_loop nanosleep tools streaming call (Suc n) delay (r, ca, w) =
     obind (hu_tool_result_free r) (\<lambda>r.
     obind (execute_one_impl tools streaming call (rs_rest r) ca (nanosleep delay w)) (\<lambda>(r, ca, w).
     if rs_success r then Ret (r, ca, w)
     else retry_loop nanosleep tools streaming call n (next_delay delay) (r, ca, w)))"

definition execute_one_retried ::
    "(nat \<Rightarrow> 'w \<Rightarrow> 'w) \<Rightarrow> 'w hu_tool list \<Rightarrow> bool \<Rightarrow> tool_call \<Rightarrow> hu_tool_cache option \<Rightarrow> nat \<Rightarrow> nat \<Rightarrow> 'w \<Rightarrow> 'w executed outcome" where
  "execute_one_retried nanosleep tools streaming call ca max_retries base_ms w =
     obind (execute_one_impl tools streaming call None ca w) (\<lambda>(r, ca, w).
     if max_retries = 0 \<or> rs_success r then Ret (r, ca, w)
     else
       case rs_output r of
         Some out \<Rightarrow>
           if c_contains (cstr out) ''tool not found'' \<or> c_contains (cstr out) ''invalid arguments'' then Ret (r, ca, w)
           else retry_loop nanosleep tools streaming call max_retries (if base_ms = 0 then 100 else base_ms) (r, ca, w)
       | None \<Rightarrow> retry_loop nanosleep tools streaming call max_retries (if base_ms = 0 then 100 else base_ms) (r, ca, w))"

section \<open>The calls of a message\<close>

record hu_dispatcher =
  hd_max_parallel :: nat
  hd_timeout_secs :: nat
  hd_cache :: "hu_tool_cache option"
  hd_max_retries :: nat
  hd_retry_base_ms :: nat

definition hu_dispatcher_default :: hu_dispatcher where
  "hu_dispatcher_default = \<lparr>hd_max_parallel = 1, hd_timeout_secs = 0, hd_cache = None, hd_max_retries = 0, hd_retry_base_ms = 100\<rparr>"

definition hu_dispatcher_create :: "nat \<Rightarrow> nat \<Rightarrow> hu_dispatcher" where
  "hu_dispatcher_create max_parallel timeout_secs =
     hu_dispatcher_default\<lparr>hd_max_parallel := (if max_parallel = 0 then 1 else max_parallel), hd_timeout_secs := timeout_secs\<rparr>"

fun each_call ::
    "(tool_call \<Rightarrow> hu_tool_cache option \<Rightarrow> 'w \<Rightarrow> 'w executed outcome) \<Rightarrow> tool_call list \<Rightarrow> hu_tool_cache option \<Rightarrow> 'w \<Rightarrow>
     (hu_tool_result list \<times> hu_tool_cache option \<times> 'w) outcome" where
  "each_call run [] ca w = Ret ([], ca, w)"
| "each_call run (c # cs) ca w =
     obind (run c ca w) (\<lambda>(r, ca, w). obind (each_call run cs ca w) (\<lambda>(rs, ca, w). Ret (r # rs, ca, w)))"

text \<open>
  \<open>threads\<close> is what worker threads make of calls when there is a timeout or several may run at once; they never see
  the cache.
\<close>

definition hu_dispatcher_dispatch ::
    "(nat \<Rightarrow> tool_call list \<Rightarrow> 'w \<Rightarrow> hu_tool_result list \<times> 'w) \<Rightarrow> hu_dispatcher \<Rightarrow> 'w hu_tool list \<Rightarrow> tool_call list \<Rightarrow> 'w \<Rightarrow>
     (hu_tool_result list \<times> hu_tool_cache option \<times> 'w) outcome" where
  "hu_dispatcher_dispatch threads d tools calls w =
     (if calls = [] then Ret ([], hd_cache d, w)
      else if hd_max_parallel d > 1 \<and> length calls > 1 \<or> hd_timeout_secs d > 0
      then let (rs, w) = threads (hd_timeout_secs d) calls w in Ret (rs, hd_cache d, w)
      else each_call (\<lambda>c ca. execute_one_impl tools False c None ca) calls (hd_cache d) w)"

text \<open>\<open>streaming\<close>: whether there is a callback for chunks.\<close>

definition hu_dispatcher_dispatch_streaming ::
    "(nat \<Rightarrow> tool_call list \<Rightarrow> 'w \<Rightarrow> hu_tool_result list \<times> 'w) \<Rightarrow> (nat \<Rightarrow> 'w \<Rightarrow> 'w) \<Rightarrow> hu_dispatcher \<Rightarrow> 'w hu_tool list \<Rightarrow>
     tool_call list \<Rightarrow> bool \<Rightarrow> 'w \<Rightarrow> (hu_tool_result list \<times> hu_tool_cache option \<times> 'w) outcome" where
  "hu_dispatcher_dispatch_streaming threads nanosleep d tools calls streaming w =
     (if calls = [] then Ret ([], hd_cache d, w)
      else if \<not> streaming then hu_dispatcher_dispatch threads d tools calls w
      else each_call (\<lambda>c ca. execute_one_retried nanosleep tools True c ca (hd_max_retries d) (hd_retry_base_ms d)) calls (hd_cache d) w)"

fun hu_dispatch_result_free :: "hu_tool_result list \<Rightarrow> unit outcome" where
  "hu_dispatch_result_free [] = Ret ()"
| "hu_dispatch_result_free (r # rs) = obind (hu_tool_result_free r) (\<lambda>_. hu_dispatch_result_free rs)"

end
