(* ===== verification/HuDispatchSpec.thy ===== *)
theory HuDispatchSpec
  imports HuDispatch
begin

text \<open>
  What the cache of a turn does to the results of \<^verbatim>\<open>src/agent/dispatcher.c\<close>: nothing, as long as the tools that are
  cached depend on their arguments only and no two calls share a hash; otherwise a repeated call is not made.  And
  how often the tools are run.
\<close>

section \<open>Tools that may be cached\<close>

text \<open>What is seen of a result: whether it is a success, and its output.\<close>

definition visible :: "hu_tool_result \<Rightarrow> bool \<times> string option \<times> nat" where
  "visible r = (rs_success r, rs_output r, rs_output_len r)"

abbreviation bad_arguments :: hu_tool_result where
  "bad_arguments \<equiv> hu_tool_result_fail ''invalid arguments'' 16"

definition clean :: "hu_tool_result \<Rightarrow> bool" where
  "clean r \<longleftrightarrow> (\<forall>s. rs_output r = Some s \<longrightarrow> no_nul s \<and> rs_output_len r = length s)"

text \<open>A tool whose result is a function of its arguments, and that changes nothing.\<close>

definition steady :: "bool \<Rightarrow> 'w hu_tool \<Rightarrow> bool" where
  "steady streaming t \<longleftrightarrow>
     (\<exists>f. \<forall>v w. run_tool t streaming v bad_arguments w = (f v, w) \<and> clean (f v))"

definition cached_tools_steady :: "bool \<Rightarrow> 'w hu_tool list \<Rightarrow> bool" where
  "cached_tools_steady streaming tools \<longleftrightarrow>
     (\<forall>t \<in> set tools. \<forall>n. dt_name t = Some n \<and> \<not> tool_cache_should_skip n \<longrightarrow> steady streaming t)"

abbreviation hash_of :: "tool_call \<Rightarrow> 64 word" where
  "hash_of c \<equiv> tool_cache_hash (tc_name c) (tc_arguments c)"

definition cached_calls :: "tool_call set \<Rightarrow> tool_call set" where
  "cached_calls C = {c \<in> C. \<not> tool_cache_should_skip (tc_name c)}"

definition answers :: "bool \<Rightarrow> 'w hu_tool list \<Rightarrow> tool_call \<Rightarrow> hu_tool_result \<Rightarrow> bool" where
  "answers streaming tools c r \<longleftrightarrow> clean r \<and> rs_success r \<and>
     (\<exists>t v. disp_find_tool tools (tc_name c) = Some t \<and> parse_args (tc_arguments c) = Ret (Some v) \<and>
       (\<forall>w. run_tool t streaming v bad_arguments w = (r, w)))"

definition cache_ok :: "bool \<Rightarrow> 'w hu_tool list \<Rightarrow> tool_call set \<Rightarrow> hu_tool_cache \<Rightarrow> bool" where
  "cache_ok streaming tools C ca \<longleftrightarrow> length (ca_slots ca) = HU_TOOL_CACHE_SLOTS \<and>
     (\<forall>slot \<in> set (ca_slots ca). cs_occupied slot \<longrightarrow>
        (\<forall>c \<in> cached_calls C. hash_of c = cs_hash slot \<longrightarrow> (\<exists>r. answers streaming tools c r \<and> visible (cs_result slot) = visible r)))"

lemma slot_of_less: "slot_of h < HU_TOOL_CACHE_SLOTS"
  by (simp add: slot_of_def HU_TOOL_CACHE_SLOTS_def)

lemma cache_ok_create: "cache_ok streaming tools C hu_tool_cache_create"
  by (simp add: cache_ok_def hu_tool_cache_create_def slot_zero_def)

lemma found_tool: "disp_find_tool tools name = Some t \<Longrightarrow> t \<in> set tools \<and> dt_name t = Some name"
  by (induction tools) (auto split: if_splits)

lemma clean_copy: "clean r \<Longrightarrow> map_option (\<lambda>s. hu_strndup s (rs_output_len r)) (rs_output r) = rs_output r"
  by (cases "rs_output r") (auto simp: clean_def)

section \<open>One call\<close>

lemma lookup_ok:
  assumes "cache_ok streaming tools C ca" "c \<in> C" "tool_cache_lookup ca (tc_name c) (tc_arguments c) rest = (ca', hit)"
  shows "cache_ok streaming tools C ca'"
    "hit = Some r' \<Longrightarrow> \<exists>r. answers streaming tools c r \<and> visible r' = visible r"
proof -
  let ?h = "hash_of c"
  let ?slot = "ca_slots ca ! slot_of ?h"
  show "cache_ok streaming tools C ca'"
    using assms by (auto simp: tool_cache_lookup_def cache_ok_def Let_def split: if_splits)
  assume hit: "hit = Some r'"
  with assms have c: "c \<in> cached_calls C" "cs_occupied ?slot" "cs_hash ?slot = ?h"
    "visible r' = (rs_success (cs_result ?slot), map_option (\<lambda>s. hu_strndup s (rs_output_len (cs_result ?slot))) (rs_output (cs_result ?slot)), rs_output_len (cs_result ?slot))"
    by (auto simp: tool_cache_lookup_def cached_calls_def Let_def visible_def split: if_splits)
  moreover have "?slot \<in> set (ca_slots ca)" using assms(1) slot_of_less by (auto simp: cache_ok_def)
  ultimately obtain r where r: "answers streaming tools c r" "visible (cs_result ?slot) = visible r"
    using assms(1) unfolding cache_ok_def by metis
  moreover have "visible r' = visible r"
    using c(4) r clean_copy [of r] by (simp add: visible_def answers_def)
  ultimately show "\<exists>r. answers streaming tools c r \<and> visible r' = visible r" by blast
qed

lemma store_ok:
  assumes "cache_ok streaming tools C ca" "inj_on hash_of (cached_calls C)" "c \<in> C"
    and "\<not> tool_cache_should_skip (tc_name c) \<Longrightarrow> rs_success r \<Longrightarrow> answers streaming tools c r"
  shows "cache_ok streaming tools C (tool_cache_store ca (tc_name c) (tc_arguments c) r)"
proof (cases "rs_success r \<and> \<not> tool_cache_should_skip (tc_name c)")
  case True
  then have a: "answers streaming tools c r" and c: "c \<in> cached_calls C" using assms by (auto simp: cached_calls_def)
  then have same: "c2 = c" if "c2 \<in> cached_calls C" "hash_of c2 = hash_of c" for c2
    using assms(2) that by (auto dest: inj_onD)
  have "clean r" using a by (simp add: answers_def)
  then have "visible (cs_result slot) = visible r"
    if "slot \<in> {\<lparr>cs_hash = hash_of c, cs_occupied = True, cs_result = old
         \<lparr>rs_output := map_option (\<lambda>s. hu_strndup s (rs_output_len r)) (rs_output r),
          rs_output_len := rs_output_len r, rs_output_owned := True, rs_success := rs_success r\<rparr>\<rparr>}" for slot old
    using that clean_copy [of r] by (simp add: visible_def)
  moreover have "\<exists>ra. answers streaming tools c2 ra \<and> visible r = visible ra" if "c2 \<in> cached_calls C" "hash_of c2 = hash_of c" for c2
    using same [OF that] a by blast
  ultimately show ?thesis using assms(1) True
    unfolding cache_ok_def tool_cache_store_def Let_def
    by (auto dest!: set_update_subset_insert [THEN subsetD])
qed (use assms(1) in \<open>auto simp: tool_cache_store_def\<close>)

lemma steady_run:
  assumes "cached_tools_steady streaming tools" "disp_find_tool tools (tc_name c) = Some t" "\<not> tool_cache_should_skip (tc_name c)"
    "parse_args (tc_arguments c) = Ret (Some v)" "run_tool t streaming v bad_arguments w = (r, w')" "rs_success r"
  shows "answers streaming tools c r"
proof -
  have "steady streaming t" using assms(1,3) found_tool [OF assms(2)] by (auto simp: cached_tools_steady_def)
  then obtain f where f: "run_tool t streaming u bad_arguments x = (f u, x) \<and> clean (f u)" for u x
    unfolding steady_def by blast
  with assms(5) have "f v = r" by (metis fst_conv)
  with assms f [of v] show ?thesis by (auto simp: answers_def)
qed

lemma one_call_same:
  assumes ok: "cache_ok streaming tools C ca" "inj_on hash_of (cached_calls C)" "c \<in> C" "cached_tools_steady streaming tools"
    and run: "execute_one_impl tools streaming c rest None w = Ret (r, None, w')"
  shows "\<exists>r' ca'. execute_one_impl tools streaming c rest (Some ca) w = Ret (r', Some ca', w') \<and>
    cache_ok streaming tools C ca' \<and> visible r' = visible r \<and> (rs_success r \<or> r' = r)"
proof (cases "disp_find_tool tools (tc_name c)")
  case None
  with run ok(1) show ?thesis by (auto simp: execute_one_impl_def)
next
  case (Some t)
  obtain ca1 hit where look: "tool_cache_lookup ca (tc_name c) (tc_arguments c) rest = (ca1, hit)" by fastforce
  note lk = lookup_ok [OF ok(1,3) look]
  show ?thesis
  proof (cases hit)
    case (Some r1)
    then obtain r2 where r2: "answers streaming tools c r2" "visible r1 = visible r2" using lk(2) by blast
    with \<open>disp_find_tool tools (tc_name c) = Some t\<close> run have "r = r2" "w' = w" "rs_success r"
      by (auto simp: execute_one_impl_def execute_fresh_def answers_def)
    with Some look lk(1) \<open>disp_find_tool tools (tc_name c) = Some t\<close> r2 show ?thesis
      by (auto simp: execute_one_impl_def)
  next
    case None
    show ?thesis
    proof (cases "parse_args (tc_arguments c)")
      case (Ret args)
      show ?thesis
      proof (cases args)
        case none: None
        with Ret None Some look lk(1) run show ?thesis by (auto simp: execute_one_impl_def execute_fresh_def)
      next
        case v: (Some v)
        obtain r1 w1 where r1: "run_tool t streaming v bad_arguments w = (r1, w1)" by fastforce
        have "\<not> tool_cache_should_skip (tc_name c) \<Longrightarrow> rs_success r1 \<Longrightarrow> answers streaming tools c r1"
          using steady_run [OF ok(4) Some _ _ r1] Ret v by simp
        note st = store_ok [OF lk(1) ok(2,3) this]
        with Ret None Some look v r1 run show ?thesis by (auto simp: execute_one_impl_def execute_fresh_def)
      qed
    qed (use run Some in \<open>simp_all add: execute_one_impl_def execute_fresh_def\<close>)
  qed
qed

lemma impl_no_cache:
  "execute_one_impl tools streaming c rest None w = Ret (r, ca', w') \<Longrightarrow> ca' = None"
  "execute_one_impl tools streaming c rest None w = execute_one_impl tools streaming c rest' None w"
  by (auto simp: execute_one_impl_def execute_fresh_def outcome_simps Let_def case_prod_beta split: option.splits)

section \<open>Retries\<close>

definition same_run :: "bool \<Rightarrow> 'w hu_tool list \<Rightarrow> tool_call set \<Rightarrow> 'w executed outcome \<Rightarrow> 'w executed outcome \<Rightarrow> bool" where
  "same_run streaming tools C m m' \<longleftrightarrow>
     (\<forall>r ca w. m = Ret (r, ca, w) \<longrightarrow>
        (\<exists>r' ca'. m' = Ret (r', Some ca', w) \<and> cache_ok streaming tools C ca' \<and> visible r' = visible r \<and> (rs_success r \<or> r' = r)))"

lemma same_runI:
  assumes "cache_ok streaming tools C ca" "inj_on hash_of (cached_calls C)" "c \<in> C" "cached_tools_steady streaming tools"
  shows "same_run streaming tools C (execute_one_impl tools streaming c rest None w) (execute_one_impl tools streaming c rest (Some ca) w)"
  unfolding same_run_def using one_call_same [OF assms] impl_no_cache(1) by (metis (no_types))

lemma retry_same:
  assumes "inj_on hash_of (cached_calls C)" "c \<in> C" "cached_tools_steady streaming tools" "cache_ok streaming tools C ca"
  shows "same_run streaming tools C (retry_loop nanosleep tools streaming c n delay (r, None, w)) (retry_loop nanosleep tools streaming c n delay (r, Some ca, w))"
  using assms(4)
proof (induction n arbitrary: delay r ca w)
  case (Suc n)
  show ?case
  proof (cases "hu_tool_result_free r")
    case (Ret r1)
    let ?plain = "execute_one_impl tools streaming c (rs_rest r1) None (nanosleep delay w)"
    have one: "same_run streaming tools C ?plain (execute_one_impl tools streaming c (rs_rest r1) (Some ca) (nanosleep delay w))"
      by (rule same_runI [OF Suc.prems assms(1,2,3)])
    show ?thesis
    proof (cases ?plain)
      case plain: (Ret s)
      obtain r2 ca2 w2 where s: "s = (r2, ca2, w2)" by (cases s) auto
      have "ca2 = None" using plain s impl_no_cache(1) by simp
      from one plain s obtain r3 ca3 where "execute_one_impl tools streaming c (rs_rest r1) (Some ca) (nanosleep delay w) = Ret (r3, Some ca3, w2)"
        "cache_ok streaming tools C ca3" "visible r3 = visible r2" "rs_success r2 \<or> r3 = r2" by (auto simp: same_run_def)
      with Ret plain s \<open>ca2 = None\<close> Suc.IH [of ca3 "next_delay delay" r2 w2] show ?thesis
        by (auto simp: same_run_def visible_def)
    qed (simp_all add: Ret same_run_def)
  qed (simp_all add: same_run_def)
qed (simp add: same_run_def)

lemma retried_same:
  assumes "inj_on hash_of (cached_calls C)" "c \<in> C" "cached_tools_steady streaming tools" "cache_ok streaming tools C ca"
  shows "same_run streaming tools C (execute_one_retried nanosleep tools streaming c None max_retries base_ms w)
    (execute_one_retried nanosleep tools streaming c (Some ca) max_retries base_ms w)"
proof -
  have one: "same_run streaming tools C (execute_one_impl tools streaming c None None w) (execute_one_impl tools streaming c None (Some ca) w)"
    by (rule same_runI [OF assms(4,1,2,3)])
  show ?thesis
  proof (cases "execute_one_impl tools streaming c None None w")
    case (Ret s)
    obtain r2 ca2 w2 where s: "s = (r2, ca2, w2)" by (cases s) auto
    have "ca2 = None" using Ret s impl_no_cache(1) by simp
    from one Ret s obtain r3 ca3 where r3: "execute_one_impl tools streaming c None (Some ca) w = Ret (r3, Some ca3, w2)"
      "cache_ok streaming tools C ca3" "visible r3 = visible r2" "rs_success r2 \<or> r3 = r2" by (auto simp: same_run_def)
    show ?thesis
    proof (cases "rs_success r2")
      case True
      with r3 Ret s show ?thesis by (auto simp: execute_one_retried_def same_run_def visible_def)
    next
      case False
      with r3(4) have "r3 = r2" by simp
      then show ?thesis using r3 Ret s False \<open>ca2 = None\<close> retry_same [OF assms(1,2,3) r3(2)]
        by (auto simp: execute_one_retried_def split: option.split) (auto simp: same_run_def)
    qed
  qed (simp_all add: execute_one_retried_def same_run_def)
qed

lemma each_call_same:
  assumes step: "\<And>c ca w. c \<in> C \<Longrightarrow> cache_ok streaming tools C ca \<Longrightarrow> same_run streaming tools C (run c None w) (run c (Some ca) w)"
    and none: "\<And>c w r ca w'. run c None w = Ret (r, ca, w') \<Longrightarrow> ca = None"
    and plain: "each_call run cs None w = Ret (rs, ca0, w')" "set cs \<subseteq> C" "cache_ok streaming tools C ca"
  shows "\<exists>rs' ca'. each_call run cs (Some ca) w = Ret (rs', Some ca', w') \<and> cache_ok streaming tools C ca' \<and>
    map visible rs' = map visible rs \<and> ca0 = None"
  using plain
proof (induction cs arbitrary: w rs ca)
  case (Cons c cs)
  from Cons.prems(1) obtain r1 w1 rs1 where r1: "run c None w = Ret (r1, None, w1)" "each_call run cs None w1 = Ret (rs1, ca0, w')" "rs = r1 # rs1"
    using none by (auto simp: outcome_simps) blast
  obtain r2 ca2 where r2: "run c (Some ca) w = Ret (r2, Some ca2, w1)" "cache_ok streaming tools C ca2" "visible r2 = visible r1"
    using step [of c ca w] Cons.prems(2,3) r1(1) by (auto simp: same_run_def)
  from Cons.IH [OF r1(2) _ r2(2)] Cons.prems(2) r1(3) r2 show ?case by (auto simp: outcome_simps)
qed simp

lemma retried_no_cache:
  "execute_one_retried nanosleep tools streaming c None max_retries base_ms w = Ret (r, ca, w') \<Longrightarrow> ca = None"
proof -
  have loop: "retry_loop nanosleep tools streaming c n delay (r0, None, w0) = Ret (r1, ca1, w1) \<Longrightarrow> ca1 = None" for n delay r0 w0 r1 ca1 w1
  proof (induction n arbitrary: delay r0 w0)
    case (Suc n)
    from Suc.prems obtain r2 :: hu_tool_result and r3 ca3 w3 where "execute_one_impl tools streaming c (rs_rest r2) None (nanosleep delay w0) = Ret (r3, ca3, w3)"
      "(if rs_success r3 then Ret (r3, ca3, w3) else retry_loop nanosleep tools streaming c n (next_delay delay) (r3, ca3, w3)) = Ret (r1, ca1, w1)"
      by (auto simp: outcome_simps)
    with impl_no_cache(1) [OF this(1)] Suc.IH [of "next_delay delay" r3 w3] show ?case by (auto split: if_splits)
  qed simp
  assume "execute_one_retried nanosleep tools streaming c None max_retries base_ms w = Ret (r, ca, w')"
  then obtain r2 ca2 w2 where "execute_one_impl tools streaming c None None w = Ret (r2, ca2, w2)"
    and s: "(r2, ca2, w2) = (r, ca, w') \<or> retry_loop nanosleep tools streaming c max_retries (if base_ms = 0 then 100 else base_ms) (r2, ca2, w2) = Ret (r, ca, w')"
    by (auto simp: execute_one_retried_def outcome_simps split: if_splits option.splits)
  with impl_no_cache(1) [OF this(1)] loop show ?thesis by auto
qed

section \<open>The messages of a turn\<close>

text \<open>The messages of a turn are dispatched one after the other, with the cache that the last one left.\<close>

fun turn_messages ::
    "(nat \<Rightarrow> tool_call list \<Rightarrow> 'w \<Rightarrow> hu_tool_result list \<times> 'w) \<Rightarrow> (nat \<Rightarrow> 'w \<Rightarrow> 'w) \<Rightarrow> hu_dispatcher \<Rightarrow> 'w hu_tool list \<Rightarrow>
     tool_call list list \<Rightarrow> 'w \<Rightarrow> (hu_tool_result list list \<times> hu_tool_cache option \<times> 'w) outcome" where
  "turn_messages threads nanosleep d tools [] w = Ret ([], hd_cache d, w)"
| "turn_messages threads nanosleep d tools (calls # msgs) w =
     obind (hu_dispatcher_dispatch_streaming threads nanosleep d tools calls True w) (\<lambda>(rs, ca, w).
     obind (turn_messages threads nanosleep (d\<lparr>hd_cache := ca\<rparr>) tools msgs w) (\<lambda>(rss, ca, w). Ret (rs # rss, ca, w)))"

lemma dispatch_each:
  "hu_dispatcher_dispatch_streaming threads nanosleep d tools calls True w =
     each_call (\<lambda>c ca. execute_one_retried nanosleep tools True c ca (hd_max_retries d) (hd_retry_base_ms d)) calls (hd_cache d) w"
  by (simp add: hu_dispatcher_dispatch_streaming_def)


definition echo_tool :: "nat hu_tool" where
  "echo_tool =
     \<lparr>dt_name = Some ''echo'',
      dt_execute = Some (\<lambda>v r w. (r\<lparr>rs_success := True, rs_output := Some ''ok'', rs_output_len := 2\<rparr>, w)),
      dt_execute_streaming = None\<rparr>"

definition count_tool :: "nat hu_tool" where
  "count_tool =
     \<lparr>dt_name = Some ''shell'',
      dt_execute = Some (\<lambda>v r w. (r\<lparr>rs_success := w > 0, rs_output := Some ''done'', rs_output_len := 4\<rparr>, w + 1)),
      dt_execute_streaming = None\<rparr>"

definition echo_call :: tool_call where "echo_call = \<lparr>tc_name = ''echo'', tc_arguments = ''{}''\<rparr>"
definition shell_call :: tool_call where "shell_call = \<lparr>tc_name = ''shell'', tc_arguments = ''{}''\<rparr>"

lemma braces_parse: "parse_args ''{}'' = Ret (Some (JObj []))"
  by code_simp

lemmas dispatch_eval = execute_one_retried_def execute_one_impl_def execute_fresh_def run_tool_def braces_parse
  hu_tool_result_fail_def hu_tool_result_free_def echo_call_def shell_call_def echo_tool_def count_tool_def c_contains_def


section \<open>A repeated call\<close>

text \<open>
  Whatever a tool does, if the cache may keep its results a call that succeeded is not made again in the turn; and the
  result given instead of it cannot be freed, as the flags of what it owns were never written.
\<close>

theorem dispatch_runs_once:
  assumes c: "disp_find_tool tools (tc_name c) = Some t" "\<not> tool_cache_should_skip (tc_name c)" "parse_args (tc_arguments c) = Ret (Some v)"
    and run: "run_tool t True v bad_arguments w = (r, w1)" "rs_success r" "hd_cache d = Some hu_tool_cache_create"
  shows "\<exists>r' ca. hu_dispatcher_dispatch_streaming threads nanosleep d tools [c, c] True w = Ret ([r, r'], Some ca, w1) \<and>
    rs_success r' \<and> hu_tool_result_free r' = Undef Uninitialised"
proof -
  let ?s = "slot_of (hash_of c)"
  have len: "?s < length (ca_slots hu_tool_cache_create)" using slot_of_less by (simp add: hu_tool_cache_create_def)
  have "\<not> cs_occupied (ca_slots hu_tool_cache_create ! ?s)" using slot_of_less by (simp add: hu_tool_cache_create_def slot_zero_def)
  then have miss: "tool_cache_lookup hu_tool_cache_create (tc_name c) (tc_arguments c) None = (hu_tool_cache_create\<lparr>ca_misses := 1\<rparr>, None)"
    using c(2) by (simp add: tool_cache_lookup_def Let_def) (simp add: hu_tool_cache_create_def)
  let ?ca = "tool_cache_store (hu_tool_cache_create\<lparr>ca_misses := 1\<rparr>) (tc_name c) (tc_arguments c) r"
  obtain ca r' where hit: "tool_cache_lookup ?ca (tc_name c) (tc_arguments c) None = (ca, Some r')" "rs_success r'" "rs_rest r' = None"
    using c(2) run(2) len by (auto simp: tool_cache_lookup_def tool_cache_store_def Let_def)
  from miss have first: "execute_one_impl tools True c None (Some hu_tool_cache_create) w = Ret (r, Some ?ca, w1)"
    using c run by (simp add: execute_one_impl_def execute_fresh_def)
  from hit have second: "execute_one_impl tools True c None (Some ?ca) w1 = Ret (r', Some ca, w1)"
    using c by (simp add: execute_one_impl_def)
  show ?thesis using first second hit(2,3) run(2,3)
    by (simp add: dispatch_each execute_one_retried_def hu_tool_result_free_def)
qed

text \<open>
  A tool that is not there is looked for again after each pause: the message of the failure is in its error text,
  and the code searches its output.
\<close>

lemma retry_numeral:
  "retry_loop nanosleep tools streaming c (numeral k) delay s = retry_loop nanosleep tools streaming c (Suc (pred_numeral k)) delay s"
  by (simp add: numeral_eq_Suc)

lemma dispatch_missing_tool_waits:
  "execute_one_retried nanosleep [] True c None 2 200 w =
     Ret (hu_tool_result_fail ''tool not found'' 14, None, nanosleep 400 (nanosleep 200 w))"
  by (simp add: dispatch_eval cstr_def starts_with_def retry_numeral next_delay_def)

section \<open>How often tools run\<close>

definition counts :: "('w \<Rightarrow> nat) \<Rightarrow> (nat \<Rightarrow> 'w \<Rightarrow> 'w) \<Rightarrow> 'w hu_tool list \<Rightarrow> bool" where
  "counts runs nanosleep tools \<longleftrightarrow> (\<forall>t \<in> set tools. \<forall>s v r w. runs (snd (run_tool t s v r w)) \<le> runs w + 1) \<and> (\<forall>k w. runs (nanosleep k w) = runs w)"

lemma impl_counts:
  assumes "counts runs nanosleep tools" "execute_one_impl tools streaming c rest ca w = Ret (r, ca', w')"
  shows "runs w' \<le> runs w + 1"
proof -
  have fresh: "runs w' \<le> runs w + 1" if t: "t \<in> set tools" and e: "execute_fresh t streaming c ca0 w = Ret (r, ca', w')" for t ca0
  proof -
    from e obtain args where "parse_args (tc_arguments c) = Ret args"
      "(case args of None \<Rightarrow> Ret (bad_arguments, ca0, w) | Some v \<Rightarrow>
         Ret (fst (run_tool t streaming v bad_arguments w),
           map_option (\<lambda>ca. tool_cache_store ca (tc_name c) (tc_arguments c) (fst (run_tool t streaming v bad_arguments w))) ca0,
           snd (run_tool t streaming v bad_arguments w))) = Ret (r, ca', w')"
      by (auto simp: execute_fresh_def outcome_simps Let_def case_prod_beta cong: option.case_cong)
    with assms(1) t show ?thesis by (auto simp: counts_def split: option.splits)
  qed
  show ?thesis
    using assms(2) fresh found_tool [of tools "tc_name c"]
    by (auto simp: execute_one_impl_def split: option.splits prod.splits)
qed

lemma loop_counts:
  assumes "counts runs nanosleep tools"
  shows "retry_loop nanosleep tools streaming c n delay (r, ca, w) = Ret (r', ca', w') \<Longrightarrow> runs w' \<le> runs w + n"
proof (induction n arbitrary: delay r ca w)
  case (Suc n)
  from Suc.prems obtain r1 :: hu_tool_result and r2 ca2 w2 where
    e: "execute_one_impl tools streaming c (rs_rest r1) ca (nanosleep delay w) = Ret (r2, ca2, w2)"
      "(if rs_success r2 then Ret (r2, ca2, w2) else retry_loop nanosleep tools streaming c n (next_delay delay) (r2, ca2, w2)) = Ret (r', ca', w')"
    by (auto simp: outcome_simps)
  have "runs w2 \<le> runs w + 1" using impl_counts [OF assms e(1)] assms by (simp add: counts_def)
  with e(2) Suc.IH [of "next_delay delay" r2 ca2 w2] show ?case by (auto split: if_splits)
qed simp

lemma retried_counts:
  assumes "counts runs nanosleep tools" "execute_one_retried nanosleep tools streaming c ca max_retries base_ms w = Ret (r, ca', w')"
  shows "runs w' \<le> runs w + (max_retries + 1)"
proof -
  from assms(2) obtain r2 ca2 w2 where e: "execute_one_impl tools streaming c None ca w = Ret (r2, ca2, w2)"
    "(r2, ca2, w2) = (r, ca', w') \<or> retry_loop nanosleep tools streaming c max_retries (if base_ms = 0 then 100 else base_ms) (r2, ca2, w2) = Ret (r, ca', w')"
    by (auto simp: execute_one_retried_def outcome_simps split: if_splits option.splits)
  with impl_counts [OF assms(1) e(1)] loop_counts [OF assms(1)] show ?thesis by fastforce
qed

lemma each_counts:
  assumes "\<And>c ca w r ca' w'. run c ca w = Ret (r, ca', w') \<Longrightarrow> f w' \<le> f w + (k :: nat)"
  shows "each_call run cs ca w = Ret (rs, ca', w') \<Longrightarrow> f w' \<le> f w + length cs * k \<and> length rs = length cs"
proof (induction cs arbitrary: ca w rs)
  case (Cons c cs)
  from Cons.prems obtain r1 ca1 w1 rs1 where "run c ca w = Ret (r1, ca1, w1)" "each_call run cs ca1 w1 = Ret (rs1, ca', w')" "rs = r1 # rs1"
    by (auto simp: outcome_simps)
  with assms [OF this(1)] Cons.IH [OF this(2)] show ?case by simp
qed simp

text \<open>
  C26: dispatching the calls of a message, one after the other, makes at most one attempt more than the retries allowed
  for each of them and gives exactly one result for each.
\<close>

theorem dispatch_bounded:
  assumes "counts runs nanosleep tools"
    and "hu_dispatcher_dispatch_streaming threads nanosleep d tools calls True w = Ret (rs, ca, w')"
  shows "runs w' \<le> runs w + length calls * (hd_max_retries d + 1) \<and> length rs = length calls"
  using each_counts [of "\<lambda>c ca. execute_one_retried nanosleep tools True c ca (hd_max_retries d) (hd_retry_base_ms d)" runs "hd_max_retries d + 1",
      OF retried_counts [OF assms(1)] assms(2) [unfolded dispatch_each]] .

lemma dispatch_bounded_witness:
  "\<exists>rs ca w'. hu_dispatcher_dispatch_streaming (\<lambda>_ _ w. ([], w)) (\<lambda>_ w. w) (hu_dispatcher_default\<lparr>hd_max_retries := 2\<rparr>)
       [count_tool] [shell_call, shell_call] True 0 = Ret (rs, ca, w') \<and> w' \<le> 0 + length [shell_call, shell_call] * (2 + 1) \<and> length rs = 2"
proof -
  have count: "counts id (\<lambda>_ w. w) [count_tool]" by (simp add: counts_def count_tool_def run_tool_def)
  obtain rs ca w' where run: "hu_dispatcher_dispatch_streaming (\<lambda>_ _ w. ([], w)) (\<lambda>_ w. w) (hu_dispatcher_default\<lparr>hd_max_retries := 2\<rparr>)
       [count_tool] [shell_call, shell_call] True 0 = Ret (rs, ca, w')"
    by (simp add: dispatch_each dispatch_eval hu_dispatcher_default_def starts_with_def cstr_def retry_numeral)
  from dispatch_bounded [OF count run] run show ?thesis by (auto simp: hu_dispatcher_default_def)
qed

end
