(* ===== verification/HuPermission.thy ===== *)
theory HuPermission
  imports HuPrelude
begin

text \<open>
  \<^verbatim>\<open>src/security/permission.c\<close>, the tiers of tools and agents with temporary escalation, and \<^verbatim>\<open>src/agent/team.c\<close>,
  the tools a role may use.  The fields of the agent that matter here are the record \<open>perm_agent\<close>; the reload of its
  configuration, \<^verbatim>\<open>src/agent/agent.c\<close>, changes its base tier.
\<close>

section \<open>Tiers\<close>

datatype hu_permission_level = HU_PERM_READ_ONLY | HU_PERM_WORKSPACE_WRITE | HU_PERM_DANGER_FULL_ACCESS | HU_PERM_DENY

fun perm_val :: "hu_permission_level \<Rightarrow> nat" where
  "perm_val HU_PERM_READ_ONLY = 0"
| "perm_val HU_PERM_WORKSPACE_WRITE = 1"
| "perm_val HU_PERM_DANGER_FULL_ACCESS = 2"
| "perm_val HU_PERM_DENY = 3"

lemma perm_val_inj: "perm_val a = perm_val b \<longleftrightarrow> a = b"
  by (cases a; cases b) simp_all

instantiation hu_permission_level :: linorder
begin

definition less_eq_hu_permission_level :: "hu_permission_level \<Rightarrow> hu_permission_level \<Rightarrow> bool" where
  "less_eq_hu_permission_level a b \<longleftrightarrow> perm_val a \<le> perm_val b"

definition less_hu_permission_level :: "hu_permission_level \<Rightarrow> hu_permission_level \<Rightarrow> bool" where
  "less_hu_permission_level a b \<longleftrightarrow> perm_val a < perm_val b"

instance
  by standard (auto simp: less_eq_hu_permission_level_def less_hu_permission_level_def perm_val_inj)

end

lemma perm_DENY [simp]: "l \<le> HU_PERM_DENY" "HU_PERM_DENY \<le> l \<longleftrightarrow> l = HU_PERM_DENY"
  by (cases l; simp add: less_eq_hu_permission_level_def)+

lemma perm_not_DENY: "l \<noteq> HU_PERM_DENY \<longleftrightarrow> l \<le> HU_PERM_DANGER_FULL_ACCESS"
  by (cases l) (simp_all add: less_eq_hu_permission_level_def)

definition hu_permission_check :: "hu_permission_level \<Rightarrow> hu_permission_level \<Rightarrow> bool" where
  "hu_permission_check current required \<longleftrightarrow> required \<le> current"

definition HU_TOOL_PERMISSIONS :: "(string \<times> hu_permission_level) list" where
  "HU_TOOL_PERMISSIONS =
     map (\<lambda>n. (n, HU_PERM_READ_ONLY))
       [''web_search'', ''web_fetch'', ''file_read'', ''memory_recall'', ''memory_list'', ''image'', ''screenshot'', ''pdf'', ''diff'',
        ''agent_query'', ''schema'', ''report'', ''analytics'', ''hardware_info'', ''hardware_memory'', ''cron_list'', ''cron_runs'',
        ''doc_ingest'', ''meeting_transcribe''] @
     map (\<lambda>n. (n, HU_PERM_WORKSPACE_WRITE))
       [''file_write'', ''file_edit'', ''file_append'', ''shell'', ''git'', ''http_request'', ''browser'', ''browser_open'', ''browser_use'',
        ''notebook'', ''canvas'', ''apply_patch'', ''memory_store'', ''memory_forget'', ''save_for_later'', ''bff_memory'', ''message'',
        ''send_message'', ''pushover'', ''image_gen'', ''code_sandbox'', ''spreadsheet'', ''broadcast'', ''calendar'', ''skill_write'',
        ''pwa'', ''jira'', ''social'', ''facebook'', ''instagram'', ''twitter'', ''crm'', ''invoice'', ''database'', ''composio'', ''i2c'',
        ''spi'', ''peripheral_ctrl'', ''paperclip''] @
     map (\<lambda>n. (n, HU_PERM_DANGER_FULL_ACCESS))
       [''agent_spawn'', ''spawn'', ''delegate'', ''cron_add'', ''cron_remove'', ''cron_run'', ''cron_update'', ''schedule'', ''gui_agent'',
        ''computer_use'', ''claude_code'', ''skill_run'', ''homeassistant'', ''gcloud'', ''firebase'', ''workflow''] @
     [(''lsp'', HU_PERM_READ_ONLY), (''persona'', HU_PERM_DANGER_FULL_ACCESS), (''voice_clone'', HU_PERM_WORKSPACE_WRITE)]"

text \<open>The first entry of the name counts; \<open>None\<close> is NULL.\<close>

definition hu_permission_get_tool_level :: "string option \<Rightarrow> hu_permission_level" where
  "hu_permission_get_tool_level tool_name =
     (case tool_name of
        None \<Rightarrow> HU_PERM_DENY
      | Some n \<Rightarrow> (case map_of HU_TOOL_PERMISSIONS n of Some l \<Rightarrow> l | None \<Rightarrow> HU_PERM_DENY))"

fun duplicates :: "(string \<times> hu_permission_level) list \<Rightarrow> nat" where
  "duplicates [] = 0"
| "duplicates ((n, l) # es) = (if list_ex (\<lambda>(m, _). m = n) es then 1 else 0) + duplicates es"

definition hu_permission_table_duplicate_count :: nat where
  "hu_permission_table_duplicate_count = duplicates HU_TOOL_PERMISSIONS"

section \<open>Escalation\<close>

record perm_agent =
  pa_permission_level :: hu_permission_level
  pa_permission_base_level :: hu_permission_level
  pa_permission_escalated :: bool

definition hu_permission_escalate_temporary :: "perm_agent \<Rightarrow> hu_permission_level \<Rightarrow> string option \<Rightarrow> perm_agent outcome" where
  "hu_permission_escalate_temporary a new_level tool_name =
     (if tool_name = None then Err HU_ERR_INVALID_ARGUMENT
      else if HU_PERM_DENY \<le> new_level then Err HU_ERR_INVALID_ARGUMENT
      else if new_level \<le> pa_permission_level a then Err HU_ERR_INVALID_ARGUMENT
      else Ret (a\<lparr>pa_permission_level := new_level, pa_permission_escalated := True\<rparr>))"

definition hu_permission_reset_escalation :: "perm_agent \<Rightarrow> perm_agent" where
  "hu_permission_reset_escalation a =
     (if pa_permission_escalated a
      then a\<lparr>pa_permission_level := pa_permission_base_level a, pa_permission_escalated := False\<rparr> else a)"

text \<open>The part of the reload of the configuration that sets the tier.\<close>

definition reload_permission :: "perm_agent \<Rightarrow> hu_permission_level \<Rightarrow> perm_agent" where
  "reload_permission a new_perm =
     (if new_perm = pa_permission_base_level a then a
      else
        let a = a\<lparr>pa_permission_base_level := new_perm\<rparr> in
        if pa_permission_escalated a then a else a\<lparr>pa_permission_level := new_perm\<rparr>)"

datatype perm_call = Escalate hu_permission_level "string option" | Reset | Reload hu_permission_level

definition perm_step :: "perm_call \<Rightarrow> perm_agent \<Rightarrow> perm_agent" where
  "perm_step c a =
     (case c of
        Escalate l t \<Rightarrow> (case hu_permission_escalate_temporary a l t of Ret a \<Rightarrow> a | _ \<Rightarrow> a)
      | Reset \<Rightarrow> hu_permission_reset_escalation a
      | Reload l \<Rightarrow> reload_permission a l)"

definition perm_ok :: "perm_agent \<Rightarrow> bool" where
  "perm_ok a \<longleftrightarrow> pa_permission_level a \<noteq> HU_PERM_DENY \<and> pa_permission_base_level a \<noteq> HU_PERM_DENY \<and>
     (\<not> pa_permission_escalated a \<longrightarrow> pa_permission_level a = pa_permission_base_level a)"

lemma perm_step_ok: "perm_ok a \<Longrightarrow> c \<noteq> Reload HU_PERM_DENY \<Longrightarrow> perm_ok (perm_step c a)"
  by (cases c)
    (auto simp: perm_step_def perm_ok_def hu_permission_escalate_temporary_def hu_permission_reset_escalation_def reload_permission_def Let_def)

lemma perm_run_ok: "perm_ok a \<Longrightarrow> Reload HU_PERM_DENY \<notin> set cs \<Longrightarrow> perm_ok (fold perm_step cs a)"
  by (induction cs arbitrary: a) (auto simp: perm_step_ok)

lemma perm_reset: "perm_ok a \<Longrightarrow> pa_permission_level (hu_permission_reset_escalation a) = pa_permission_base_level a"
  by (simp add: perm_ok_def hu_permission_reset_escalation_def)

lemma unknown_tool: "n \<notin> fst ` set HU_TOOL_PERMISSIONS \<Longrightarrow> hu_permission_get_tool_level (Some n) = HU_PERM_DENY"
  by (simp add: hu_permission_get_tool_level_def map_of_eq_None_iff [THEN iffD2])

lemma known_tool: "hu_permission_get_tool_level (Some n) \<noteq> HU_PERM_DENY \<Longrightarrow> n \<in> fst ` set HU_TOOL_PERMISSIONS"
  using unknown_tool by blast

lemma no_duplicates: "hu_permission_table_duplicate_count = 0"
  by code_simp

section \<open>Roles of a team\<close>

datatype hu_team_role = HU_ROLE_LEAD | HU_ROLE_BUILDER | HU_ROLE_REVIEWER | HU_ROLE_TESTER

record hu_team_member =
  tm_agent_id :: nat
  tm_role :: hu_team_role
  tm_active :: bool

definition hu_team_get_member :: "hu_team_member list \<Rightarrow> nat \<Rightarrow> hu_team_member option" where
  "hu_team_get_member members agent_id = find (\<lambda>m. tm_agent_id m = agent_id \<and> tm_active m) members"

fun hu_team_role_allows_tool :: "hu_team_role \<Rightarrow> string \<Rightarrow> bool" where
  "hu_team_role_allows_tool HU_ROLE_LEAD t = True"
| "hu_team_role_allows_tool HU_ROLE_BUILDER t = (t \<noteq> ''agent_spawn'')"
| "hu_team_role_allows_tool HU_ROLE_REVIEWER t = (t = ''file_read'' \<or> t = ''shell'' \<or> t = ''memory_recall'')"
| "hu_team_role_allows_tool HU_ROLE_TESTER t = (t = ''shell'' \<or> t = ''file_read'' \<or> t = ''file_write'')"

end
