(* ===== verification/HuHooks.thy ===== *)
theory HuHooks
  imports HuPrelude
begin

text \<open>
  \<^verbatim>\<open>src/security/hook.c\<close> and \<^verbatim>\<open>src/security/hook_pipeline.c\<close>: shell commands that are run before and after a tool
  and may forbid it.

  The registry is the list of its entries.  Running a command (pipe, fork, exec, time limit) is a function on the state
  \<open>'w\<close> of the host that gives an exit code with what the command wrote, or an error.  The lemmas are about the command
  line: the name of the tool, its arguments and its output are quoted, and a shell reads them as they are.
\<close>

section \<open>Hooks\<close>

datatype hu_hook_event = HU_HOOK_PRE_TOOL_EXECUTE | HU_HOOK_POST_TOOL_EXECUTE

datatype hu_hook_decision = HU_HOOK_ALLOW | HU_HOOK_DENY | HU_HOOK_WARN

record hu_hook_entry =
  hk_name :: "string option"
  hk_event :: hu_hook_event
  hk_command :: string
  hk_timeout_sec :: nat
  hk_required :: bool

record hu_hook_context =
  hc_event :: hu_hook_event
  hc_tool_name :: string
  hc_args_json :: string
  hc_result_output :: string
  hc_result_success :: bool

record hu_hook_result =
  hd_decision :: hu_hook_decision
  hd_message :: "string option"

type_synonym hook_registry = "hu_hook_entry list"

definition hu_hook_registry_add :: "hook_registry \<Rightarrow> hu_hook_entry \<Rightarrow> hook_registry outcome" where
  "hu_hook_registry_add reg e =
     (if hk_command e = [] then Err HU_ERR_INVALID_ARGUMENT
      else Ret (reg @ [e\<lparr>hk_name := (if hk_name e = Some [] then None else hk_name e),
                       hk_timeout_sec := (if hk_timeout_sec e = 0 then 30 else hk_timeout_sec e)\<rparr>]))"

section \<open>The command line\<close>

abbreviation QUOTE :: char where "QUOTE \<equiv> CHR 0x27"

definition hu_hook_shell_escape :: "string \<Rightarrow> string" where
  "hu_hook_shell_escape input =
     (if input = [] then [QUOTE, QUOTE]
      else QUOTE # concat (map (\<lambda>c. if c = QUOTE then [QUOTE, BSLASH, QUOTE, QUOTE] else [c]) input) @ [QUOTE])"

definition HU_HOOK_CMD_MAX :: nat where "HU_HOOK_CMD_MAX = 2 ^ 20"

text \<open>The output is written as a fourth variable only when there is some.  The sums are below SIZE_MAX for texts in memory.\<close>

definition hu_hook_build_command :: "hu_hook_entry \<Rightarrow> hu_hook_context \<Rightarrow> string outcome" where
  "hu_hook_build_command hook ctx =
     (let esc_tool = hu_hook_shell_escape (hc_tool_name ctx); esc_args = hu_hook_shell_escape (hc_args_json ctx);
          esc_output = hu_hook_shell_escape (hc_result_output ctx); out = hc_result_output ctx \<noteq> [];
          total = 16 + length esc_tool + 12 + length esc_args + length (hk_command hook) + 8 + (if out then 14 + length esc_output + 32 else 0) in
      if total > HU_HOOK_CMD_MAX then Err HU_ERR_LIMIT_REACHED
      else
        let cmd = ''HOOK_TOOL_NAME='' @ cstr esc_tool @ '' HOOK_ARGS='' @ cstr esc_args @
              (if out then '' HOOK_OUTPUT='' @ cstr esc_output @ '' HOOK_SUCCESS='' @ (if hc_result_success ctx then ''true'' else ''false'') else []) @
              '' '' @ cstr (hk_command hook) in
        if length cmd > total then Err HU_ERR_LIMIT_REACHED else Ret cmd)"

section \<open>Running hooks\<close>

type_synonym 'w hook_runner = "string \<Rightarrow> nat \<Rightarrow> 'w \<Rightarrow> (hu_error + int \<times> string) \<times> 'w"

definition hu_hook_shell_execute ::
    "'w hook_runner \<Rightarrow> hu_hook_entry \<Rightarrow> hu_hook_context \<Rightarrow> 'w \<Rightarrow> (hu_error + int \<times> string) \<times> 'w" where
  "hu_hook_shell_execute sh hook ctx w =
     (case hu_hook_build_command hook ctx of
        Ret cmd \<Rightarrow> sh cmd (if hk_timeout_sec hook = 0 then 30 else hk_timeout_sec hook) w
      | Err e \<Rightarrow> (Inl e, w)
      | _ \<Rightarrow> (Inl HU_ERR_INTERNAL, w))"

definition hu_hook_exit_code_to_decision :: "int \<Rightarrow> hu_hook_decision" where
  "hu_hook_exit_code_to_decision c = (if c = 2 then HU_HOOK_DENY else if c = 3 then HU_HOOK_WARN else HU_HOOK_ALLOW)"

text \<open>What one hook decides: a message with a denial, \<open>None\<close> to go on, and whether it warned.\<close>

definition hook_decides :: "hu_hook_entry \<Rightarrow> (hu_error + int \<times> string) \<Rightarrow> string option \<times> bool" where
  "hook_decides entry r =
     (case r of
        Inl e \<Rightarrow> (if hk_required entry then Some ''required hook failed to execute'' else None, False)
      | Inr (code, out) \<Rightarrow>
          let d = (if code \<notin> {0, 2, 3} \<and> hk_required entry then HU_HOOK_DENY else hu_hook_exit_code_to_decision code) in
          (if d = HU_HOOK_DENY then Some (if out = [] then ''denied by hook'' else out) else None, d = HU_HOOK_WARN))"

fun pipeline_loop :: "'w hook_runner \<Rightarrow> hook_registry \<Rightarrow> hu_hook_context \<Rightarrow> bool \<Rightarrow> 'w \<Rightarrow> hu_hook_result \<times> 'w" where
  "pipeline_loop sh [] ctx had_warn w = (\<lparr>hd_decision = (if had_warn then HU_HOOK_WARN else HU_HOOK_ALLOW), hd_message = None\<rparr>, w)"
| "pipeline_loop sh (entry # es) ctx had_warn w =
     (if hk_event entry \<noteq> hc_event ctx then pipeline_loop sh es ctx had_warn w
      else
        let (r, w) = hu_hook_shell_execute sh entry ctx w in
        case hook_decides entry r of
          (Some msg, _) \<Rightarrow> (\<lparr>hd_decision = HU_HOOK_DENY, hd_message = Some msg\<rparr>, w)
        | (None, warn) \<Rightarrow> pipeline_loop sh es ctx (had_warn \<or> warn) w)"

definition hu_hook_pipeline_execute :: "'w hook_runner \<Rightarrow> hook_registry option \<Rightarrow> hu_hook_context \<Rightarrow> 'w \<Rightarrow> hu_hook_result \<times> 'w" where
  "hu_hook_pipeline_execute sh reg ctx w =
     (case reg of None \<Rightarrow> (\<lparr>hd_decision = HU_HOOK_ALLOW, hd_message = None\<rparr>, w) | Some es \<Rightarrow> pipeline_loop sh es ctx False w)"

definition hu_hook_pipeline_pre_tool :: "'w hook_runner \<Rightarrow> hook_registry option \<Rightarrow> string \<Rightarrow> string \<Rightarrow> 'w \<Rightarrow> hu_hook_result \<times> 'w" where
  "hu_hook_pipeline_pre_tool sh reg tool_name args_json =
     hu_hook_pipeline_execute sh reg \<lparr>hc_event = HU_HOOK_PRE_TOOL_EXECUTE, hc_tool_name = tool_name, hc_args_json = args_json,
       hc_result_output = [], hc_result_success = False\<rparr>"

definition hu_hook_pipeline_post_tool ::
    "'w hook_runner \<Rightarrow> hook_registry option \<Rightarrow> string \<Rightarrow> string \<Rightarrow> string \<Rightarrow> bool \<Rightarrow> 'w \<Rightarrow> hu_hook_result \<times> 'w" where
  "hu_hook_pipeline_post_tool sh reg tool_name args_json output success =
     hu_hook_pipeline_execute sh reg \<lparr>hc_event = HU_HOOK_POST_TOOL_EXECUTE, hc_tool_name = tool_name, hc_args_json = args_json,
       hc_result_output = output, hc_result_success = success\<rparr>"

section \<open>How a shell reads the command line\<close>

text \<open>
  The words of a POSIX shell, as far as quoting goes: within single quotes every character stands for itself, outside
  a backslash quotes the next character, a blank ends the word, and a character with a meaning of its own (\<open>None\<close>) is
  beyond this reader.
\<close>

definition sh_special :: "char \<Rightarrow> bool" where
  "sh_special c \<longleftrightarrow> c \<in> set ''|&;<>()$`*?[]#~%!{}'' \<or> c \<in> {DQUOTE, CHR 0x0A, CHR 0x09}"

fun sh_word :: "bool \<Rightarrow> string \<Rightarrow> (string \<times> string) option" where
  "sh_word quoted [] = (if quoted then None else Some ([], []))"
| "sh_word True (c # s) = (if c = QUOTE then sh_word False s else map_option (\<lambda>(w, r). (c # w, r)) (sh_word True s))"
| "sh_word False (c # s) =
     (if c = QUOTE then sh_word True s
      else if c = CHR '' '' then Some ([], c # s)
      else if c = BSLASH then (case s of [] \<Rightarrow> None | d # s \<Rightarrow> map_option (\<lambda>(w, r). (d # w, r)) (sh_word False s))
      else if sh_special c then None
      else map_option (\<lambda>(w, r). (c # w, r)) (sh_word False s))"

text \<open>So many words, and what is left behind the blank after the last.\<close>

fun sh_words :: "nat \<Rightarrow> string \<Rightarrow> (string list \<times> string) option" where
  "sh_words 0 s = Some ([], s)"
| "sh_words (Suc n) s =
     (case sh_word False s of
        Some (w, c # s) \<Rightarrow> if c = CHR '' '' then map_option (\<lambda>(ws, r). (w # ws, r)) (sh_words n s) else None
      | _ \<Rightarrow> None)"

lemma sh_quoted_escape:
  "sh_word True (concat (map (\<lambda>c. if c = QUOTE then [QUOTE, BSLASH, QUOTE, QUOTE] else [c]) t) @ QUOTE # rest) =
     map_option (\<lambda>(w, r). (t @ w, r)) (sh_word False rest)"
  by (cases "sh_word False rest"; induction t) auto

lemma sh_escape:
  "sh_word False (hu_hook_shell_escape t @ rest) = map_option (\<lambda>(w, r). (t @ w, r)) (sh_word False rest)"
  using sh_quoted_escape [of t rest] by (cases "sh_word False rest") (auto simp: hu_hook_shell_escape_def)

lemma sh_plain:
  "(\<And>c. c \<in> set p \<Longrightarrow> c \<noteq> QUOTE \<and> c \<noteq> CHR '' '' \<and> c \<noteq> BSLASH \<and> \<not> sh_special c) \<Longrightarrow>
   sh_word False (p @ rest) = map_option (\<lambda>(w, r). (p @ w, r)) (sh_word False rest)"
  by (cases "sh_word False rest"; induction p) auto

lemma no_nul_escape: "no_nul t \<Longrightarrow> no_nul (hu_hook_shell_escape t)"
  by (auto simp: hu_hook_shell_escape_def no_nul_def split: if_splits)

lemma sh_assignment:
  assumes "\<And>c. c \<in> set p \<Longrightarrow> c \<noteq> QUOTE \<and> c \<noteq> CHR '' '' \<and> c \<noteq> BSLASH \<and> \<not> sh_special c"
  shows "sh_words (Suc n) (p @ hu_hook_shell_escape t @ CHR '' '' # rest) = map_option (\<lambda>(ws, r). ((p @ t) # ws, r)) (sh_words n rest)"
  using sh_plain [OF assms] by (simp add: sh_escape)

text \<open>
  C23: if the tool name, the arguments, the output and the command of the hook have no NUL byte in them, none of them,
  whatever other characters it has, can get out of its place in the command line that is built: a shell reads the
  variables with exactly these texts as values, and then the command of the hook.
\<close>

theorem hook_command_reads:
  assumes "hu_hook_build_command hook ctx = Ret cmd"
    and "no_nul (hc_tool_name ctx)" "no_nul (hc_args_json ctx)" "no_nul (hc_result_output ctx)" "no_nul (hk_command hook)"
  shows "if hc_result_output ctx = []
    then sh_words 2 cmd = Some ([''HOOK_TOOL_NAME='' @ hc_tool_name ctx, ''HOOK_ARGS='' @ hc_args_json ctx], hk_command hook)
    else sh_words 4 cmd = Some ([''HOOK_TOOL_NAME='' @ hc_tool_name ctx, ''HOOK_ARGS='' @ hc_args_json ctx,
      ''HOOK_OUTPUT='' @ hc_result_output ctx, ''HOOK_SUCCESS='' @ (if hc_result_success ctx then ''true'' else ''false'')], hk_command hook)"
proof -
  let ?t = "hc_tool_name ctx" and ?a = "hc_args_json ctx" and ?o = "hc_result_output ctx" and ?c = "hk_command hook"
  let ?b = "if hc_result_success ctx then ''true'' else ''false''"
  have esc: "cstr (hu_hook_shell_escape s) = hu_hook_shell_escape s" if "no_nul s" for s using no_nul_escape [OF that] by simp
  have var: "sh_words (Suc n) (p @ hu_hook_shell_escape s @ CHR '' '' # rest) = map_option (\<lambda>(ws, r). ((p @ s) # ws, r)) (sh_words n rest)"
    if "p \<in> {''HOOK_TOOL_NAME='', ''HOOK_ARGS='', ''HOOK_OUTPUT=''}" for n p s rest
    using that by (intro sh_assignment) (auto simp: sh_special_def)
  have flag: "sh_words (Suc n) (''HOOK_SUCCESS='' @ ?b @ CHR '' '' # rest) = map_option (\<lambda>(ws, r). ((''HOOK_SUCCESS='' @ ?b) # ws, r)) (sh_words n rest)" for n rest
    using sh_plain [of "''HOOK_SUCCESS='' @ ?b" "CHR '' '' # rest"] by (simp add: sh_special_def del: append.simps split del: if_split) (simp add: sh_special_def)
  show ?thesis
  proof (cases "?o = []")
    case True
    have "cmd = ''HOOK_TOOL_NAME='' @ hu_hook_shell_escape ?t @ CHR '' '' # ''HOOK_ARGS='' @ hu_hook_shell_escape ?a @ CHR '' '' # ?c"
      using assms(1) esc [OF assms(2)] esc [OF assms(3)] assms(5) True by (auto simp: hu_hook_build_command_def Let_def split: if_splits)
    then have "sh_words (Suc (Suc 0)) cmd = Some ([''HOOK_TOOL_NAME='' @ ?t, ''HOOK_ARGS='' @ ?a], ?c)"
      by (simp only: var insert_iff HOL.simp_thms sh_words.simps(1) option.map prod.case)
    then show ?thesis using True by (simp add: numeral_2_eq_2)
  next
    case False
    have "cmd = ''HOOK_TOOL_NAME='' @ hu_hook_shell_escape ?t @ CHR '' '' # ''HOOK_ARGS='' @ hu_hook_shell_escape ?a @ CHR '' '' #
        ''HOOK_OUTPUT='' @ hu_hook_shell_escape ?o @ CHR '' '' # ''HOOK_SUCCESS='' @ ?b @ CHR '' '' # ?c"
      using assms(1) esc [OF assms(2)] esc [OF assms(3)] esc [OF assms(4)] assms(5) False by (auto simp: hu_hook_build_command_def Let_def split: if_splits)
    then have "sh_words (Suc (Suc (Suc (Suc 0)))) cmd =
        Some ([''HOOK_TOOL_NAME='' @ ?t, ''HOOK_ARGS='' @ ?a, ''HOOK_OUTPUT='' @ ?o, ''HOOK_SUCCESS='' @ ?b], ?c)"
      by (simp only: var flag insert_iff HOL.simp_thms sh_words.simps(1) option.map prod.case)
    moreover have "4 = Suc (Suc (Suc (Suc 0)))" by simp
    ultimately show ?thesis using False by (simp only: if_False)
  qed
qed

definition sample_hook :: hu_hook_entry where
  "sample_hook = \<lparr>hk_name = None, hk_event = HU_HOOK_PRE_TOOL_EXECUTE, hk_command = ''check $HOOK_ARGS'', hk_timeout_sec = 30, hk_required = False\<rparr>"

definition sample_ctx :: hu_hook_context where
  "sample_ctx = \<lparr>hc_event = HU_HOOK_PRE_TOOL_EXECUTE, hc_tool_name = ''shell'', hc_args_json = [QUOTE] @ ''; rm -rf / '' @ [QUOTE, BSLASH],
     hc_result_output = [], hc_result_success = False\<rparr>"

lemma hook_command_reads_witness:
  "\<exists>cmd. hu_hook_build_command sample_hook sample_ctx = Ret cmd \<and>
     sh_words 2 cmd = Some ([''HOOK_TOOL_NAME=shell'', ''HOOK_ARGS='' @ [QUOTE] @ ''; rm -rf / '' @ [QUOTE, BSLASH]], ''check $HOOK_ARGS'')"
proof -
  obtain cmd where cmd: "hu_hook_build_command sample_hook sample_ctx = Ret cmd"
    by (simp add: hu_hook_build_command_def hu_hook_shell_escape_def sample_hook_def sample_ctx_def HU_HOOK_CMD_MAX_def Let_def cstr_def)
  have "no_nul (hc_tool_name sample_ctx)" "no_nul (hc_args_json sample_ctx)" "no_nul (hc_result_output sample_ctx)" "no_nul (hk_command sample_hook)"
    by (simp_all add: sample_hook_def sample_ctx_def)
  from hook_command_reads [OF cmd this] cmd show ?thesis by (simp add: sample_hook_def sample_ctx_def)
qed

text \<open>A hook that is not required is passed over when the arguments are too long for a command line, whatever it would say.\<close>

lemma hook_long_args_pass:
  assumes "\<not> hk_required hook" "hk_event hook = HU_HOOK_PRE_TOOL_EXECUTE" "length args > HU_HOOK_CMD_MAX"
  shows "hu_hook_pipeline_pre_tool sh (Some [hook]) tool args w = (\<lparr>hd_decision = HU_HOOK_ALLOW, hd_message = None\<rparr>, w)"
proof -
  have "length t \<le> length (concat (map (\<lambda>c. if c = QUOTE then [QUOTE, BSLASH, QUOTE, QUOTE] else [c]) t))" for t by (induction t) auto
  then have "length args \<le> length (hu_hook_shell_escape args)"
    by (auto simp: hu_hook_shell_escape_def intro: le_SucI)
  then have "hu_hook_build_command hook \<lparr>hc_event = HU_HOOK_PRE_TOOL_EXECUTE, hc_tool_name = tool, hc_args_json = args, hc_result_output = [],
      hc_result_success = False\<rparr> = Err HU_ERR_LIMIT_REACHED"
    using assms(3) by (simp add: hu_hook_build_command_def Let_def)
  then show ?thesis
    using assms by (simp add: hu_hook_pipeline_pre_tool_def hu_hook_pipeline_execute_def hu_hook_shell_execute_def hook_decides_def)
qed

end
