(* ===== verification/HuEscalate.thy ===== *)
theory HuEscalate
  imports HuDelegation
begin

text \<open>
  \<^verbatim>\<open>src/security/escalate.c\<close>: the table of ESCALATE.md, which says for patterns of tool names whether a tool runs, runs
  and notifies, needs an approval or never runs.

  A text is read line by line; a line of a table is cut at its pipes.  The columns of a rule are kept in buffers of 128
  and 64 bytes.
\<close>

section \<open>Rules\<close>

datatype hu_escalate_level = HU_ESCALATE_AUTO | HU_ESCALATE_NOTIFY | HU_ESCALATE_APPROVE | HU_ESCALATE_DENY

record hu_escalate_rule =
  er_action_pattern :: string
  er_level :: hu_escalate_level
  er_timeout_s :: nat
  er_notify_channel :: string

definition HU_ESCALATE_MAX_RULES :: nat where "HU_ESCALATE_MAX_RULES = 64"

record hu_escalate_protocol =
  ep_rules :: "hu_escalate_rule list"
  ep_default_level :: hu_escalate_level

fun hu_escalate_level_string :: "hu_escalate_level \<Rightarrow> string" where
  "hu_escalate_level_string HU_ESCALATE_AUTO = ''auto''"
| "hu_escalate_level_string HU_ESCALATE_NOTIFY = ''notify''"
| "hu_escalate_level_string HU_ESCALATE_APPROVE = ''approve''"
| "hu_escalate_level_string HU_ESCALATE_DENY = ''deny''"

section \<open>Reading the table\<close>

definition strip_by :: "(char \<Rightarrow> bool) \<Rightarrow> string \<Rightarrow> string" where
  "strip_by P s = rev (dropWhile P (rev (dropWhile P s)))"

definition parse_level :: "string \<Rightarrow> hu_escalate_level" where
  "parse_level s =
     (let w = map to_lower (strip_by (\<lambda>c. c = CHR '' '' \<or> c = CHR 0x09) s) in
      if w = ''auto'' then HU_ESCALATE_AUTO else if w = ''notify'' then HU_ESCALATE_NOTIFY
      else if w = ''approve'' then HU_ESCALATE_APPROVE else if w = ''deny'' then HU_ESCALATE_DENY else HU_ESCALATE_AUTO)"

definition parse_timeout :: "string \<Rightarrow> nat" where
  "parse_timeout s =
     foldl (\<lambda>v c. (v * 10 + (cval c - cval (CHR ''0''))) mod 2 ^ 32) 0 (takeWhile is_digit (dropWhile (\<lambda>c. c = CHR '' '') s))"

definition PIPE :: char where "PIPE = CHR ''|''"

definition is_separator_row :: "string \<Rightarrow> bool" where
  "is_separator_row line \<longleftrightarrow> list_all (\<lambda>c. c \<in> set ''-| :'' \<or> c = CHR 0x09) line \<and> length line > 2"

text \<open>What stands before the next pipe and, if there is one, what follows it.\<close>

definition next_column :: "string \<Rightarrow> string \<times> string option" where
  "next_column s = (takeWhile (\<lambda>c. c \<noteq> PIPE) s, if PIPE \<in> set s then Some (drop 1 (dropWhile (\<lambda>c. c \<noteq> PIPE) s)) else None)"

definition buffer :: "nat \<Rightarrow> string \<Rightarrow> string" where
  "buffer n s = cstr (take (n - 1) s)"

definition row_rule :: "string \<Rightarrow> hu_escalate_rule option" where
  "row_rule line =
     (let p = (if take 1 line = [PIPE] then drop 1 line else line) in
      case next_column p of
        (col1, None) \<Rightarrow> None
      | (col1, Some p) \<Rightarrow>
          (case next_column p of
             (col2, None) \<Rightarrow> None
           | (col2, Some p) \<Rightarrow>
               let (col3, p) = next_column p; col4 = (case p of None \<Rightarrow> [] | Some p \<Rightarrow> fst (next_column p)) in
               Some \<lparr>er_action_pattern = buffer 128 (strip_by (\<lambda>c. c = CHR '' '') col1), er_level = parse_level col2,
                     er_timeout_s = parse_timeout col3, er_notify_channel = buffer 64 (strip_by (\<lambda>c. c = CHR '' '') col4)\<rparr>))"

function (sequential) text_lines :: "string \<Rightarrow> string list" where
  "text_lines [] = []"
| "text_lines (c # s) =
     takeWhile (\<lambda>c. c \<noteq> CHR 0x0A) (c # s) # text_lines (drop (length (takeWhile (\<lambda>c. c \<noteq> CHR 0x0A) (c # s)) + 1) (c # s))"
  by pat_completeness auto
termination by (relation "measure length") auto

text \<open>\<open>in_table\<close> and \<open>past_header\<close> are the flags of the loop; a full table ends it.\<close>

fun parse_lines :: "bool \<Rightarrow> bool \<Rightarrow> hu_escalate_rule list \<Rightarrow> string list \<Rightarrow> hu_escalate_rule list" where
  "parse_lines in_table past_header rules [] = rules"
| "parse_lines in_table past_header rules (line # ls) =
     (if line = [] then parse_lines in_table past_header rules ls
      else if \<not> in_table then
        if PIPE \<in> set line then parse_lines True False rules ls else parse_lines False past_header rules ls
      else if is_separator_row line then parse_lines True True rules ls
      else if \<not> past_header then parse_lines True False rules ls
      else if PIPE \<notin> set line then parse_lines False True rules ls
      else if length rules \<ge> HU_ESCALATE_MAX_RULES then rules
      else parse_lines True True (case row_rule line of None \<Rightarrow> rules | Some r \<Rightarrow> rules @ [r]) ls)"

definition hu_escalate_parse :: "string \<Rightarrow> hu_escalate_protocol" where
  "hu_escalate_parse text = \<lparr>ep_rules = parse_lines False False [] (text_lines text), ep_default_level = HU_ESCALATE_APPROVE\<rparr>"

section \<open>Matching\<close>

function (sequential) glob_match :: "string \<Rightarrow> string \<Rightarrow> bool" and glob_star_loop :: "string \<Rightarrow> string \<Rightarrow> bool" where
  "glob_match (p # ps) (c # s) =
     (if p = CHR ''*'' then (if ps = [] then True else glob_star_loop ps (c # s))
      else if p \<noteq> c then False else glob_match ps s)"
| "glob_match ps s = (dropWhile (\<lambda>c. c = CHR ''*'') ps = [] \<and> s = [])"
| "glob_star_loop ps [] = (ps = [])"
| "glob_star_loop ps (c # s) = (if glob_match ps (c # s) then True else glob_star_loop ps s)"
  by pat_completeness auto
termination by (relation "measure (\<lambda>x. case x of Inl (p, s) \<Rightarrow> 2 * (length p + length s) | Inr (p, s) \<Rightarrow> 2 * (length p + length s) + 1)") auto

fun first_rule :: "hu_escalate_rule list \<Rightarrow> string \<Rightarrow> hu_escalate_level option" where
  "first_rule [] name = None"
| "first_rule (r # rs) name = (if glob_match (er_action_pattern r) name then Some (er_level r) else first_rule rs name)"

definition hu_escalate_evaluate :: "hu_escalate_protocol \<Rightarrow> string \<Rightarrow> hu_escalate_level" where
  "hu_escalate_evaluate protocol action_name =
     (if action_name = [] then HU_ESCALATE_APPROVE
      else case first_rule (ep_rules protocol) (buffer 256 action_name) of
             Some l \<Rightarrow> l
           | None \<Rightarrow> ep_default_level protocol)"

section \<open>What the table means\<close>

lemma glob_stars: "glob p [] \<longleftrightarrow> dropWhile (\<lambda>c. c = CHR ''*'') p = []"
proof (induction p)
  case (Cons c p)
  show ?case
  proof (cases "c = CHR ''*''")
    case True
    then show ?thesis using Cons by (auto simp: glob_Cons)
  qed (auto simp: glob_Cons)
qed (simp add: glob_Nil)

lemma glob_match_iff:
  "CHR ''?'' \<notin> set p \<Longrightarrow> glob_match p s \<longleftrightarrow> glob p s"
  "CHR ''?'' \<notin> set p \<Longrightarrow> p \<noteq> [] \<Longrightarrow> glob_star_loop p s \<longleftrightarrow> (\<exists>u v. s = u @ v \<and> v \<noteq> [] \<and> glob p v)"
proof (induction p s and p s rule: glob_match_glob_star_loop.induct [case_names both none some star_end star])
  case (both p ps c s)
  show ?case
  proof (cases "p = CHR ''*''")
    case True
    show ?thesis
    proof (cases "ps = []")
      case False
      have "(\<exists>u v. c # s = u @ v \<and> glob ps v) \<longleftrightarrow> (\<exists>u v. c # s = u @ v \<and> v \<noteq> [] \<and> glob ps v)"
      proof
        assume "\<exists>u v. c # s = u @ v \<and> glob ps v"
        then obtain u v where uv: "c # s = u @ v" "glob ps v" by blast
        show "\<exists>u v. c # s = u @ v \<and> v \<noteq> [] \<and> glob ps v"
        proof (cases "v = []")
          case True
          then have "dropWhile (\<lambda>c. c = CHR ''*'') ps = []" using uv glob_stars by blast
          then have "list_all (\<lambda>c. c = CHR ''*'') ps" by (simp add: list_all_iff dropWhile_eq_Nil_conv)
          with False obtain q where q: "ps = CHR ''*'' # q" "list_all (\<lambda>c. c = CHR ''*'') q" by (cases ps) auto
          then have "glob q []" using glob_stars by (auto simp: list_all_iff dropWhile_eq_Nil_conv)
          then have "glob ps (c # s)" unfolding q glob_star_iff by (metis append_Nil2)
          then show ?thesis by (metis append_Nil list.distinct(1))
        qed (use uv in blast)
      qed blast
      with both True False show ?thesis by (auto simp: glob_star_iff)
    next
      case nil: True
      have "glob [] []" by (rule glob_end)
      with True nil show ?thesis by (simp add: glob_star_iff) (metis append_Nil2)
    qed
  next
    case False
    with both show ?thesis by (auto simp: glob_Cons)
  qed
next
  case (none s)
  then show ?case by (auto simp: glob_Nil)
next
  case (some ps)
  then show ?case by (simp add: glob_stars)
next
  case (star ps c s)
  have "(\<exists>u v. c # s = u @ v \<and> v \<noteq> [] \<and> glob ps v) \<longleftrightarrow> glob ps (c # s) \<or> (\<exists>u v. s = u @ v \<and> v \<noteq> [] \<and> glob ps v)"
    by (auto simp: Cons_eq_append_conv)
  with star show ?case by auto
qed auto

end
