(* ===== verification/HuEscalateSpec.thy ===== *)
theory HuEscalateSpec
  imports HuEscalate
begin

text \<open>
  Reading back a table of \<^verbatim>\<open>src/security/escalate.c\<close>: a table that is written out rule by rule is read as these rules,
  and the first rule whose pattern matches a name as a glob decides.
\<close>

section \<open>Writing a table\<close>

definition NL :: char where "NL = CHR 0x0A"

definition row_text :: "hu_escalate_rule \<Rightarrow> string" where
  "row_text r = PIPE # CHR '' '' # er_action_pattern r @ CHR '' '' # PIPE # CHR '' '' # hu_escalate_level_string (er_level r) @
     CHR '' '' # PIPE # CHR '' '' # nat_str (er_timeout_s r) @ CHR '' '' # PIPE # CHR '' '' # er_notify_channel r @ '' |''"

definition head_lines :: "string list" where
  "head_lines = [''| Action | Level | Timeout | Channel |'', ''|---|---|---|---|'']"

definition table_text :: "hu_escalate_rule list \<Rightarrow> string" where
  "table_text rules = concat (map (\<lambda>l. l @ [NL]) (head_lines @ map row_text rules))"

text \<open>A cell: no pipe, no end of line, no NUL, and no blank at its ends.\<close>

definition cell_ok :: "string \<Rightarrow> bool" where
  "cell_ok s \<longleftrightarrow> PIPE \<notin> set s \<and> NL \<notin> set s \<and> no_nul s \<and> (s \<noteq> [] \<longrightarrow> hd s \<noteq> CHR '' '' \<and> last s \<noteq> CHR '' '')"

definition rule_ok :: "hu_escalate_rule \<Rightarrow> bool" where
  "rule_ok r \<longleftrightarrow> cell_ok (er_action_pattern r) \<and> length (er_action_pattern r) < 128 \<and> cell_ok (er_notify_channel r) \<and>
     length (er_notify_channel r) < 64 \<and> er_timeout_s r < 2 ^ 32"

section \<open>Lines\<close>

lemma text_lines_line: "NL \<notin> set l \<Longrightarrow> text_lines (l @ NL # s) = l # text_lines s"
proof -
  assume l: "NL \<notin> set l"
  then have tw: "takeWhile (\<lambda>c. c \<noteq> CHR 0x0A) (l @ NL # s) = l" by (auto simp: NL_def takeWhile_append)
  obtain c t where ct: "l @ NL # s = c # t" by (cases "l @ NL # s") auto
  have "text_lines (c # t) = takeWhile (\<lambda>c. c \<noteq> CHR 0x0A) (c # t) # text_lines (drop (length (takeWhile (\<lambda>c. c \<noteq> CHR 0x0A) (c # t)) + 1) (c # t))"
    by (rule text_lines.simps(2))
  then show ?thesis unfolding ct [symmetric] tw by simp
qed

lemma text_lines_concat: "\<forall>l \<in> set ls. NL \<notin> set l \<Longrightarrow> text_lines (concat (map (\<lambda>l. l @ [NL]) ls)) = ls"
  by (induction ls) (auto simp: text_lines_line)

section \<open>Cells\<close>

lemma strip_cell: "cell_ok s \<Longrightarrow> strip_by (\<lambda>c. c = CHR '' '') (CHR '' '' # s @ '' '') = s"
proof (cases "s = []")
  case False
  assume ok: "cell_ok s"
  have drop: "dropWhile (\<lambda>c. c = CHR '' '') t = t" if "t \<noteq> []" "hd t \<noteq> CHR '' ''" for t
    using that by (cases t) auto
  have "dropWhile (\<lambda>c. c = CHR '' '') (rev s) = rev s" using ok False by (intro drop) (auto simp: cell_ok_def hd_rev)
  moreover have "dropWhile (\<lambda>c. c = CHR '' '') (s @ '' '') = s @ '' ''"
    using ok False by (intro drop) (auto simp: cell_ok_def)
  ultimately show ?thesis by (simp add: strip_by_def)
qed (simp add: strip_by_def)

lemma next_column_cell: "PIPE \<notin> set s \<Longrightarrow> next_column (s @ PIPE # t) = (s, Some t)"
proof -
  assume s: "PIPE \<notin> set s"
  then have "takeWhile (\<lambda>c. c \<noteq> PIPE) (s @ PIPE # t) = s" "dropWhile (\<lambda>c. c \<noteq> PIPE) (s @ PIPE # t) = PIPE # t"
    by (auto simp: takeWhile_append dropWhile_append)
  then show ?thesis by (simp add: next_column_def)
qed

lemma parse_level_string: "parse_level (CHR '' '' # hu_escalate_level_string l @ '' '') = l"
proof (cases l)
  case HU_ESCALATE_AUTO
  show ?thesis unfolding HU_ESCALATE_AUTO by code_simp
next
  case HU_ESCALATE_NOTIFY
  show ?thesis unfolding HU_ESCALATE_NOTIFY by code_simp
next
  case HU_ESCALATE_APPROVE
  show ?thesis unfolding HU_ESCALATE_APPROVE by code_simp
next
  case HU_ESCALATE_DENY
  show ?thesis unfolding HU_ESCALATE_DENY by code_simp
qed

lemma foldl_mod:
  "foldl (\<lambda>v c. (v * 10 + (cval c - cval (CHR ''0''))) mod m) 0 ds mod m = digits_val ds mod m" for m :: nat
proof (induction ds rule: rev_induct)
  case (snoc c ds)
  let ?d = "cval c - cval (CHR ''0'')"
  have "(foldl (\<lambda>v c. (v * 10 + (cval c - cval (CHR ''0''))) mod m) 0 ds * 10 + ?d) mod m = (digits_val ds * 10 + ?d) mod m"
    by (metis snoc mod_add_left_eq mod_mult_left_eq)
  moreover have "cval (CHR ''0'') = 48" by (simp add: cval_def)
  ultimately show ?case by (simp add: mult.commute)
qed simp

lemma foldl_mod_less:
  "digits_val ds < m \<Longrightarrow> foldl (\<lambda>v c. (v * 10 + (cval c - cval (CHR ''0''))) mod m) 0 ds = digits_val ds" for m :: nat
proof -
  assume less: "digits_val ds < m"
  let ?v = "foldl (\<lambda>v c. (v * 10 + (cval c - cval (CHR ''0''))) mod m) 0 ds"
  have "?v mod m = ?v" by (cases ds rule: rev_exhaust) simp_all
  with less foldl_mod [of m ds] show ?thesis by simp
qed

lemma nat_str_chars: "c \<in> set (nat_str n) \<Longrightarrow> 48 \<le> cval c \<and> cval c \<le> 57"
  using nat_str_digits by (simp add: is_digit_def)

lemma nat_str_cell: "PIPE \<notin> set (nat_str n)" "NL \<notin> set (nat_str n)" "CHR '' '' \<notin> set (nat_str n)"
  using nat_str_chars [of PIPE n] nat_str_chars [of NL n] nat_str_chars [of "CHR '' ''" n] by (auto simp: PIPE_def NL_def cval_def)

lemma parse_timeout_nat:
  assumes "n < 2 ^ 32"
  shows "parse_timeout (CHR '' '' # nat_str n @ '' '') = n"
proof -
  obtain c t where ct: "nat_str n = c # t" by (cases "nat_str n") auto
  then have "c \<noteq> CHR '' ''" using nat_str_cell(3) [of n] by auto
  moreover have "\<forall>d \<in> set (nat_str n). is_digit d" using nat_str_digits by blast
  moreover have "\<not> is_digit (CHR '' '')" by (simp add: is_digit_def cval_def)
  ultimately have "takeWhile is_digit (dropWhile (\<lambda>c. c = CHR '' '') (CHR '' '' # nat_str n @ '' '')) = nat_str n"
    by (simp add: ct takeWhile_append2)
  then show ?thesis using assms foldl_mod_less [of "nat_str n"] unfolding parse_timeout_def by (simp only: digits_val_nat_str)
qed

section \<open>Rows\<close>

lemma level_string_cell: "PIPE \<notin> set (hu_escalate_level_string l)" "NL \<notin> set (hu_escalate_level_string l)"
  by (cases l; simp add: PIPE_def NL_def)+

lemma buffer_cell: "cell_ok s \<Longrightarrow> length s < n \<Longrightarrow> buffer n s = s"
  by (simp add: buffer_def cell_ok_def)

lemma blank_cell: "CHR '' '' \<noteq> PIPE" "CHR '' '' \<noteq> NL" "PIPE \<noteq> NL"
  by (simp_all add: PIPE_def NL_def)

lemma column: "PIPE \<notin> set s \<Longrightarrow> next_column (CHR '' '' # s @ CHR '' '' # PIPE # t) = (CHR '' '' # s @ '' '', Some t)"
  using next_column_cell [of "CHR '' '' # s @ '' ''" t] blank_cell by simp

lemma row_rule_text:
  assumes "rule_ok r"
  shows "row_rule (row_text r) = Some r"
proof -
  have pipe: "'' |'' = CHR '' '' # PIPE # []" by (simp add: PIPE_def)
  have cells: "PIPE \<notin> set (er_action_pattern r)" "PIPE \<notin> set (er_notify_channel r)" using assms by (auto simp: rule_ok_def cell_ok_def)
  show ?thesis
    using assms cells
    by (simp add: row_rule_def row_text_def pipe column level_string_cell nat_str_cell strip_cell parse_level_string
      parse_timeout_nat buffer_cell rule_ok_def)
qed

lemma row_line:
  assumes "rule_ok r"
  shows "NL \<notin> set (row_text r)" "PIPE \<in> set (row_text r)" "\<not> is_separator_row (row_text r)" "row_text r \<noteq> []"
proof -
  have "hd (hu_escalate_level_string (er_level r)) \<in> set (row_text r)"
    by (cases "er_level r") (simp_all add: row_text_def)
  moreover have "hd (hu_escalate_level_string (er_level r)) \<notin> set ''-| :'' \<union> {CHR 0x09}" by (cases "er_level r") simp_all
  ultimately show "\<not> is_separator_row (row_text r)" by (auto simp: is_separator_row_def list_all_iff)
  show "NL \<notin> set (row_text r)"
    using assms level_string_cell nat_str_cell by (auto simp: row_text_def rule_ok_def cell_ok_def PIPE_def NL_def)
qed (simp_all add: row_text_def)

lemma parse_rows:
  "\<forall>r \<in> set rs. rule_ok r \<Longrightarrow> length rules + length rs \<le> HU_ESCALATE_MAX_RULES \<Longrightarrow>
   parse_lines True True rules (map row_text rs) = rules @ rs"
  by (induction rs arbitrary: rules) (auto simp: row_line row_rule_text)

lemma parse_table:
  assumes "\<forall>r \<in> set rules. rule_ok r" "length rules \<le> HU_ESCALATE_MAX_RULES"
  shows "hu_escalate_parse (table_text rules) = \<lparr>ep_rules = rules, ep_default_level = HU_ESCALATE_APPROVE\<rparr>"
proof -
  have lines: "text_lines (table_text rules) = head_lines @ map row_text rules"
    unfolding table_text_def using assms(1) row_line(1) by (intro text_lines_concat) (auto simp: head_lines_def NL_def)
  have "parse_lines False False [] (head_lines @ ls) = parse_lines True True [] ls" for ls
    by (simp add: head_lines_def is_separator_row_def PIPE_def)
  with lines parse_rows [of rules "[]"] assms show ?thesis by (simp add: hu_escalate_parse_def)
qed

section \<open>What a table decides\<close>

definition matches :: "hu_escalate_rule \<Rightarrow> string \<Rightarrow> bool" where
  "matches r name \<longleftrightarrow> glob (er_action_pattern r) name"

lemma first_rule_find:
  "\<forall>r \<in> set rs. CHR ''?'' \<notin> set (er_action_pattern r) \<Longrightarrow>
   first_rule rs name = map_option er_level (find (\<lambda>r. matches r name) rs)"
  by (induction rs) (auto simp: glob_match_iff(1) matches_def)

text \<open>
  C29: a table of at most 64 rules that is written down row by row is read as exactly these rules, pattern, level, time
  limit and channel, and the first rule whose pattern, with stars for any texts, matches the name of a tool decides; what
  no rule matches needs an approval.  Patterns have at most 127 and channels at most 63 characters, none of them a bar, a
  line end or NUL, and no blank first or last; patterns have no question mark; time limits are below 2 ^ 32; the name is
  not empty, has at most 255 characters and no NUL.
\<close>

theorem escalate_table_decides:
  assumes "\<forall>r \<in> set rules. rule_ok r \<and> CHR ''?'' \<notin> set (er_action_pattern r)" "length rules \<le> HU_ESCALATE_MAX_RULES"
    and "name \<noteq> []" "no_nul name" "length name < 256"
  shows "hu_escalate_parse (table_text rules) = \<lparr>ep_rules = rules, ep_default_level = HU_ESCALATE_APPROVE\<rparr> \<and>
    hu_escalate_evaluate (hu_escalate_parse (table_text rules)) name =
      (case find (\<lambda>r. matches r name) rules of Some r \<Rightarrow> er_level r | None \<Rightarrow> HU_ESCALATE_APPROVE)"
proof -
  have "buffer 256 name = name" using assms by (simp add: buffer_def)
  with assms parse_table [of rules] show ?thesis
    by (auto simp: hu_escalate_evaluate_def first_rule_find split: option.split)
qed

definition sample_rules :: "hu_escalate_rule list" where
  "sample_rules =
     [\<lparr>er_action_pattern = ''file_*'', er_level = HU_ESCALATE_NOTIFY, er_timeout_s = 0, er_notify_channel = ''ops''\<rparr>,
      \<lparr>er_action_pattern = ''shell'', er_level = HU_ESCALATE_DENY, er_timeout_s = 300, er_notify_channel = []\<rparr>]"

lemma escalate_table_decides_witness:
  "ep_rules (hu_escalate_parse (table_text sample_rules)) = sample_rules \<and>
   hu_escalate_evaluate (hu_escalate_parse (table_text sample_rules)) ''shell'' = HU_ESCALATE_DENY"
proof -
  have "\<not> glob ''file_*'' ''shell''" "glob ''shell'' ''shell''"
    by (simp_all add: glob_Cons glob_Nil)
  then have "find (\<lambda>r. matches r ''shell'') sample_rules = Some (sample_rules ! 1)" by (simp add: sample_rules_def matches_def)
  moreover have "\<forall>r \<in> set sample_rules. rule_ok r \<and> CHR ''?'' \<notin> set (er_action_pattern r)"
    by (simp add: sample_rules_def rule_ok_def cell_ok_def PIPE_def NL_def)
  moreover have "length sample_rules \<le> HU_ESCALATE_MAX_RULES" by (simp add: sample_rules_def HU_ESCALATE_MAX_RULES_def)
  moreover have "er_level (sample_rules ! 1) = HU_ESCALATE_DENY" by (simp add: sample_rules_def)
  ultimately show ?thesis
    using escalate_table_decides [of sample_rules "''shell''", THEN conjunct1] escalate_table_decides [of sample_rules "''shell''", THEN conjunct2]
    by simp
qed

text \<open>A level that is misspelt lets the tool run without anybody being asked.\<close>

lemma escalate_typo_allows:
  "hu_escalate_evaluate (hu_escalate_parse (concat (map (\<lambda>l. l @ [NL]) (head_lines @ [''| shell | denied | 0 | |''])))) ''shell'' = HU_ESCALATE_AUTO"
proof -
  let ?line = "''| shell | denied | 0 | |''"
  have "row_rule ?line = Some \<lparr>er_action_pattern = ''shell'', er_level = HU_ESCALATE_AUTO, er_timeout_s = 0, er_notify_channel = []\<rparr>"
  proof -
    have cols: "next_column '' shell | denied | 0 | |'' = ('' shell '', Some '' denied | 0 | |'')"
      "next_column '' denied | 0 | |'' = ('' denied '', Some '' 0 | |'')" "next_column '' 0 | |'' = ('' 0 '', Some '' |'')" "next_column '' |'' = ('' '', Some [])"
      by (simp_all add: next_column_def PIPE_def)
    have "parse_level '' denied '' = HU_ESCALATE_AUTO" by code_simp
    moreover have "parse_timeout '' 0 '' = 0" 
    proof -
      have "nat_str 0 = ''0''" by code_simp
      then show ?thesis using parse_timeout_nat [of 0] by simp
    qed
    ultimately show ?thesis
      using cols by (simp add: row_rule_def PIPE_def strip_by_def buffer_def)
  qed
  moreover have "text_lines (concat (map (\<lambda>l. l @ [NL]) (head_lines @ [?line]))) = head_lines @ [?line]"
    by (intro text_lines_concat) (auto simp: head_lines_def NL_def)
  moreover have "parse_lines False False [] (head_lines @ [?line]) =
      parse_lines True True (case row_rule ?line of None \<Rightarrow> [] | Some r \<Rightarrow> [r]) []"
    by (simp add: head_lines_def is_separator_row_def PIPE_def HU_ESCALATE_MAX_RULES_def split: option.split)
  ultimately have "hu_escalate_parse (concat (map (\<lambda>l. l @ [NL]) (head_lines @ [?line]))) =
      \<lparr>ep_rules = [\<lparr>er_action_pattern = ''shell'', er_level = HU_ESCALATE_AUTO, er_timeout_s = 0, er_notify_channel = []\<rparr>],
       ep_default_level = HU_ESCALATE_APPROVE\<rparr>"
    unfolding hu_escalate_parse_def by (simp only: option.case parse_lines.simps)
  moreover have "buffer 256 ''shell'' = ''shell''" by (simp add: buffer_def)
  ultimately show ?thesis by (simp add: hu_escalate_evaluate_def del: map_append concat_append)
qed

end
