(* ===== verification/HuInspect.thy ===== *)
theory HuInspect
  imports HuJson HuPolicy
begin

text \<open>
  \<^verbatim>\<open>src/security/arg_inspector.c\<close> and \<^verbatim>\<open>src/security/policy_engine.c\<close>: what is looked for in the arguments of a tool
  call, and rules over tools and arguments.

  The bits of \<^verbatim>\<open>risk_flags\<close> are a set.  The lemmas say that every string of a JSON value is scanned that is short enough
  and early enough in its text.
\<close>

section \<open>Strings of the arguments\<close>

definition MAX_EXTRACT_STRINGS :: nat where "MAX_EXTRACT_STRINGS = 64"
definition MAX_STRING_LEN :: nat where "MAX_STRING_LEN = 4096"

text \<open>What stands before the closing quote, and what follows it.\<close>

function (sequential) raw_string :: "string \<Rightarrow> string \<times> string" where
  "raw_string [] = ([], [])"
| "raw_string [c] = (if c = DQUOTE then ([], []) else ([c], []))"
| "raw_string (c # d # s) =
     (if c = BSLASH then (let (a, b) = raw_string s in (c # d # a, b))
      else if c = DQUOTE then ([], d # s)
      else (let (a, b) = raw_string (d # s) in (c # a, b)))"
  by pat_completeness auto
termination by (relation "measure length") auto

lemma raw_string_shorter: "length (snd (raw_string s)) \<le> length s"
proof (induction s rule: raw_string.induct)
  case (3 c d s)
  then show ?case by (auto split: prod.split)
qed auto

text \<open>\<open>n\<close> is the room left in the table of strings.\<close>

function (sequential) extract_strings :: "nat \<Rightarrow> string \<Rightarrow> string list" where
  "extract_strings 0 s = []"
| "extract_strings (Suc n) [] = []"
| "extract_strings (Suc n) (c # s) =
     (if c = DQUOTE then
        let r = raw_string s in
        if fst r \<noteq> [] \<and> length (fst r) \<le> MAX_STRING_LEN then fst r # extract_strings n (snd r)
        else extract_strings (Suc n) (snd r)
      else extract_strings (Suc n) s)"
  by pat_completeness auto
termination by (relation "measure (\<lambda>(n, s). length s)") (auto simp: le_imp_less_Suc raw_string_shorter)

definition extract_json_strings :: "string \<Rightarrow> string list" where
  "extract_json_strings json = extract_strings MAX_EXTRACT_STRINGS json"

section \<open>Scanning\<close>

datatype hu_arg_risk_flag = HU_ARG_RISK_SHELL_INJECT | HU_ARG_RISK_PATH_TRAVERSAL | HU_ARG_RISK_URL_SUSPECT |
  HU_ARG_RISK_SECRET_LEAK | HU_ARG_RISK_PROMPT_INJECT | HU_ARG_RISK_EXFILTRATION

definition contains_ci :: "string \<Rightarrow> string \<Rightarrow> bool" where
  "contains_ci hay needle \<longleftrightarrow> needle \<noteq> [] \<and> c_contains (map to_lower hay) (map to_lower needle)"

fun shell_chars :: "string \<Rightarrow> bool" where
  "shell_chars [] = False"
| "shell_chars (c # s) =
     (c = CHR 0x60 \<or> c = CHR ''$'' \<and> take 1 s = ''('' \<or> c = CHR '';'' \<or> c = CHR ''|'' \<or> shell_chars s)"

definition scan_string :: "string \<Rightarrow> hu_arg_risk_flag set" where
  "scan_string s =
     (let any = \<lambda>ps. list_ex (contains_ci s) ps; pre = \<lambda>ps. list_ex (\<lambda>p. starts_with p s) ps in
      (if shell_chars s \<or> any [''&&''] then {HU_ARG_RISK_SHELL_INJECT} else {}) \<union>
      (if any [''../'', ''..'' @ [BSLASH], ''/etc/passwd'', ''/etc/shadow''] then {HU_ARG_RISK_PATH_TRAVERSAL} else {}) \<union>
      (if pre [''http://'', ''https://''] \<and> any [''ngrok'', ''webhook.site'', ''requestbin'', ''burpcollaborator'']
       then {HU_ARG_RISK_EXFILTRATION} else {}) \<union>
      (if any [''curl '', ''wget ''] then {HU_ARG_RISK_URL_SUSPECT} else {}) \<union>
      (if any [''api_key'', ''apikey'', ''secret_key'', ''password''] \<or> pre [''sk-'', ''ghp_'', ''glpat-''] then {HU_ARG_RISK_SECRET_LEAK} else {}) \<union>
      (if any [''ignore previous'', ''ignore all'', ''system prompt'', ''you are now''] then {HU_ARG_RISK_PROMPT_INJECT} else {}))"

record hu_arg_inspection =
  ai_risk_flags :: "hu_arg_risk_flag set"
  ai_overall_risk :: risk
  ai_findings :: string
  ai_strings_extracted :: nat

definition append_finding :: "string \<Rightarrow> string \<Rightarrow> string" where
  "append_finding buf msg =
     (if length buf + length msg + 2 < 512 then (if buf \<noteq> [] then buf @ ''; '' else buf) @ msg else buf)"

definition flag_findings :: "(hu_arg_risk_flag \<times> string) list" where
  "flag_findings =
     [(HU_ARG_RISK_SHELL_INJECT, ''shell_injection_pattern''), (HU_ARG_RISK_PATH_TRAVERSAL, ''path_traversal''),
      (HU_ARG_RISK_URL_SUSPECT, ''suspect_url''), (HU_ARG_RISK_SECRET_LEAK, ''potential_secret_leak''),
      (HU_ARG_RISK_PROMPT_INJECT, ''prompt_injection_marker''), (HU_ARG_RISK_EXFILTRATION, ''data_exfiltration_target'')]"

definition classify_risk :: "hu_arg_risk_flag set \<Rightarrow> risk" where
  "classify_risk flags =
     (if HU_ARG_RISK_EXFILTRATION \<in> flags \<or> HU_ARG_RISK_SECRET_LEAK \<in> flags then HU_RISK_HIGH
      else if HU_ARG_RISK_SHELL_INJECT \<in> flags \<or> HU_ARG_RISK_PATH_TRAVERSAL \<in> flags \<or> HU_ARG_RISK_PROMPT_INJECT \<in> flags then HU_RISK_HIGH
      else if HU_ARG_RISK_URL_SUSPECT \<in> flags then HU_RISK_MEDIUM
      else HU_RISK_LOW)"

text \<open>The name of the tool only decides whether a flag that is set is set again.\<close>

definition hu_arg_inspect :: "string option \<Rightarrow> string \<Rightarrow> hu_arg_inspection" where
  "hu_arg_inspect tool_name args_json =
     (if args_json = [] then \<lparr>ai_risk_flags = {}, ai_overall_risk = HU_RISK_LOW, ai_findings = [], ai_strings_extracted = 0\<rparr>
      else
        let strings = extract_json_strings args_json;
            flags = foldl (\<lambda>fs s. fs \<union> scan_string s) {} strings;
            findings = foldl (\<lambda>buf (f, msg). if f \<in> flags then append_finding buf msg else buf) [] flag_findings in
        \<lparr>ai_risk_flags = flags, ai_overall_risk = classify_risk flags, ai_findings = findings, ai_strings_extracted = length strings\<rparr>)"

definition hu_arg_inspection_should_block :: "hu_arg_inspection \<Rightarrow> hu_security_policy option \<Rightarrow> bool" where
  "hu_arg_inspection_should_block insp policy =
     (case policy of
        None \<Rightarrow> False
      | Some p \<Rightarrow> sp_block_high_risk_commands p \<and> ai_overall_risk insp = HU_RISK_HIGH \<or> HU_ARG_RISK_EXFILTRATION \<in> ai_risk_flags insp)"

definition hu_arg_inspection_needs_approval :: "hu_arg_inspection \<Rightarrow> hu_security_policy option \<Rightarrow> bool" where
  "hu_arg_inspection_needs_approval insp policy =
     (case policy of
        None \<Rightarrow> False
      | Some p \<Rightarrow>
          sp_autonomy p = HU_AUTONOMY_SUPERVISED \<and> ai_overall_risk insp \<in> {HU_RISK_MEDIUM, HU_RISK_HIGH} \<or>
          sp_autonomy p = HU_AUTONOMY_ASSISTED \<and> ai_overall_risk insp = HU_RISK_HIGH \<or>
          HU_ARG_RISK_PROMPT_INJECT \<in> ai_risk_flags insp)"

section \<open>Rules\<close>

datatype hu_policy_action = HU_POLICY_ALLOW | HU_POLICY_DENY | HU_POLICY_REQUIRE_APPROVAL

record hu_policy_match =
  pm_tool :: "string option"
  pm_args_contains :: "string option"
  pm_session_cost_gt :: fpval
  pm_has_cost_check :: bool

record hu_policy_rule =
  pr_name :: string
  pr_match :: hu_policy_match
  pr_action :: hu_policy_action
  pr_message :: "string option"

record hu_policy_eval_ctx =
  pc_tool_name :: "string option"
  pc_args_json :: "string option"
  pc_session_cost_usd :: fpval

record hu_policy_result =
  po_action :: hu_policy_action
  po_rule_name :: "string option"
  po_message :: "string option"

definition MAX_RULES :: nat where "MAX_RULES = 256"

text \<open>\<^verbatim>\<open><=\<close> on doubles: a finite one is its significand times a power of two that is at least \<open>2 powi -1074\<close>.\<close>

definition dbl_units :: "dbl \<Rightarrow> int" where
  "dbl_units d = (if dneg d then -1 else 1) * int (dman d) * 2 ^ nat (dexp d + 1074)"

fun fp_le :: "fpval \<Rightarrow> fpval \<Rightarrow> bool" where
  "fp_le (Fin a) (Fin b) = (dbl_units a \<le> dbl_units b)"
| "fp_le (Fin a) (FInf neg) = (\<not> neg)"
| "fp_le (FInf neg) (Fin b) = neg"
| "fp_le (FInf m) (FInf n) = (m \<or> \<not> n)"
| "fp_le _ _ = False"

definition hu_policy_engine_add_rule ::
    "hu_policy_rule list \<Rightarrow> string \<Rightarrow> hu_policy_match \<Rightarrow> hu_policy_action \<Rightarrow> string option \<Rightarrow> hu_policy_rule list outcome" where
  "hu_policy_engine_add_rule rules name m action message =
     (if length rules \<ge> MAX_RULES then Err HU_ERR_OUT_OF_MEMORY
      else Ret (rules @ [\<lparr>pr_name = name, pr_match = m, pr_action = action, pr_message = message\<rparr>]))"

definition rule_matches :: "hu_policy_match \<Rightarrow> hu_policy_eval_ctx \<Rightarrow> bool" where
  "rule_matches m ctx \<longleftrightarrow>
     (case pm_tool m of None \<Rightarrow> True | Some t \<Rightarrow> pc_tool_name ctx = Some t) \<and>
     (case pm_args_contains m of None \<Rightarrow> True
      | Some p \<Rightarrow> (case pc_args_json ctx of None \<Rightarrow> False | Some a \<Rightarrow> c_contains a p)) \<and>
     (pm_has_cost_check m \<longrightarrow> \<not> fp_le (pc_session_cost_usd ctx) (pm_session_cost_gt m))"

fun hu_policy_engine_evaluate :: "hu_policy_rule list \<Rightarrow> hu_policy_eval_ctx \<Rightarrow> hu_policy_result" where
  "hu_policy_engine_evaluate [] ctx = \<lparr>po_action = HU_POLICY_ALLOW, po_rule_name = None, po_message = None\<rparr>"
| "hu_policy_engine_evaluate (r # rs) ctx =
     (if rule_matches (pr_match r) ctx \<and> pr_action r \<noteq> HU_POLICY_ALLOW
      then \<lparr>po_action = pr_action r, po_rule_name = Some (pr_name r), po_message = pr_message r\<rparr>
      else hu_policy_engine_evaluate rs ctx)"

text \<open>The agent asks with a session cost of 0, for which a rule about a cost never matches.\<close>

lemma cost_rule_never_matches:
  assumes "pm_has_cost_check m" "pm_session_cost_gt m = Fin d" "\<not> dneg d"
  shows "\<not> rule_matches m \<lparr>pc_tool_name = t, pc_args_json = a, pc_session_cost_usd = Fin dzero\<rparr>"
  using assms by (simp add: rule_matches_def dbl_units_def dzero_def)

section \<open>Every string is scanned\<close>

primrec strings_of :: "json \<Rightarrow> string list" where
  "strings_of JNull = []"
| "strings_of (JBool b) = []"
| "strings_of (JNum d) = []"
| "strings_of (JStr s) = [s]"
| "strings_of (JArr vs) = concat (map strings_of vs)"
| "strings_of (JObj ps) = concat (map (\<lambda>(k, ss). k # ss) (map (map_prod id strings_of) ps))"

definition escaped :: "string \<Rightarrow> string" where
  "escaped s = concat (map esc_text s)"

definition short_ones :: "string list \<Rightarrow> string list" where
  "short_ones ws = filter (\<lambda>w. w \<noteq> [] \<and> length w \<le> MAX_STRING_LEN) ws"

lemma short_ones_simps [simp]: "short_ones [] = []" "short_ones (u @ v) = short_ones u @ short_ones v"
  by (simp_all add: short_ones_def)

lemma raw_steps:
  "raw_string (BSLASH # x # t) = map_prod (\<lambda>a. BSLASH # x # a) id (raw_string t)"
  "c \<noteq> DQUOTE \<Longrightarrow> c \<noteq> BSLASH \<Longrightarrow> raw_string (c # t) = map_prod (Cons c) id (raw_string t)"
  "raw_string (DQUOTE # t) = ([], t)"
    apply (simp split: prod.split)
   apply (cases t; simp split: prod.split)
  apply (cases t; simp)
  done

lemma hex_digit_plain: "n < 16 \<Longrightarrow> hex_digit n \<noteq> DQUOTE \<and> hex_digit n \<noteq> BSLASH"
proof -
  assume "n < 16"
  then have "cval (hex_digit n) = (if n < 10 then 48 + n else 87 + n)" by (auto simp: hex_digit_def cval_def)
  then have "cval (hex_digit n) \<noteq> 34" "cval (hex_digit n) \<noteq> 92" using \<open>n < 16\<close> by (auto split: if_splits)
  then show ?thesis by (auto simp: cval_def)
qed

lemma raw_esc: "raw_string (esc_text c @ t) = map_prod ((@) (esc_text c)) id (raw_string t)"
proof -
  have "cval c < 256" by (rule cval_less_256)
  then have hex: "hex_digit (cval c div 16) \<noteq> DQUOTE \<and> hex_digit (cval c div 16) \<noteq> BSLASH"
    "hex_digit (cval c mod 16) \<noteq> DQUOTE \<and> hex_digit (cval c mod 16) \<noteq> BSLASH"
    by (auto intro!: hex_digit_plain)
  consider (one) x where "esc_text c = [BSLASH, x]"
    | (uni) "esc_text c = [BSLASH, CHR ''u'', CHR ''0'', CHR ''0'', hex_digit (cval c div 16), hex_digit (cval c mod 16)]"
    | (raw) "esc_text c = [c]" "c \<noteq> DQUOTE" "c \<noteq> BSLASH"
    using esc_text_cases [of "esc_text c" c] by metis
  then show ?thesis
  proof cases
    case one
    then show ?thesis by (cases "raw_string t") (simp add: raw_steps(1) del: raw_string.simps)
  next
    case uni
    then show ?thesis
      using hex by (cases "raw_string t") (simp add: raw_steps(1) raw_steps(2) del: raw_string.simps)
  next
    case raw
    then show ?thesis by (cases "raw_string t") (simp add: raw_steps(2) del: raw_string.simps)
  qed
qed

lemma raw_escaped [simp]: "raw_string (escaped s @ DQUOTE # t) = (escaped s, t)"
  unfolding escaped_def
  by (induction s) (simp_all add: raw_esc raw_steps(3) del: raw_string.simps)

text \<open>\<open>scans t ws\<close>: from \<open>t\<close>, whatever follows, exactly the strings \<open>ws\<close> are taken.\<close>

definition scans :: "string \<Rightarrow> string list \<Rightarrow> bool" where
  "scans t ws \<longleftrightarrow> (\<forall>k rest. extract_strings (length ws + k) (t @ rest) = ws @ extract_strings k rest)"

lemma scans_append: "scans t us \<Longrightarrow> scans u vs \<Longrightarrow> scans (t @ u) (us @ vs)"
  by (simp add: scans_def add.assoc)

lemma extract_0 [simp]: "extract_strings 0 s = []"
  by (cases s) simp_all

lemma scans_plain: "DQUOTE \<notin> set t \<Longrightarrow> scans t []"
proof (induction t)
  case (Cons c t)
  have "extract_strings k (c # t @ rest) = extract_strings k (t @ rest)" for k rest
    using Cons.prems by (cases k) auto
  with Cons show ?case by (simp add: scans_def)
qed (simp add: scans_def)

lemma scans_quoted: "scans (quoted s) (short_ones [escaped s])"
proof -
  have q: "quoted s @ rest = DQUOTE # escaped s @ DQUOTE # rest" for rest by (simp add: quoted_def escaped_def)
  have "extract_strings k (DQUOTE # escaped s @ DQUOTE # rest) = extract_strings k rest" if "short_ones [escaped s] = []" for k rest
    using that by (cases k) (auto simp: short_ones_def Let_def split: if_splits)
  moreover have "extract_strings (Suc k) (DQUOTE # escaped s @ DQUOTE # rest) = escaped s # extract_strings k rest" if "short_ones [escaped s] = [escaped s]" for k rest
    using that by (simp add: short_ones_def split: if_splits)
  moreover have "short_ones [escaped s] = [] \<or> short_ones [escaped s] = [escaped s]" by (simp add: short_ones_def)
  ultimately show ?thesis unfolding scans_def q by auto
qed

lemma scans_comma_join: "(\<And>x. x \<in> set xs \<Longrightarrow> scans (f x) (g x)) \<Longrightarrow> scans (comma_join (map f xs)) (concat (map g xs))"
proof (induction xs rule: induct_list012)
  case (3 x y zs)
  have "scans (f x @ '','' @ comma_join (map f (y # zs))) (g x @ [] @ concat (map g (y # zs)))"
    using 3 by (intro scans_append scans_plain) auto
  then show ?case by simp
qed (auto simp: scans_def)

lemma scans_render: "scans (render v) (short_ones (map escaped (strings_of v)))"
proof (induction v)
  case (JNum d)
  have "DQUOTE \<notin> set (num_text d)" using num_text_chars [of DQUOTE d] by (auto simp: numeric_char_def is_digit_def cval_def)
  then show ?case by (simp add: scans_plain)
next
  case (JStr s)
  then show ?case using scans_quoted [of s] by simp
next
  case (JArr vs)
  have "scans (''['' @ comma_join (map render vs) @ '']'') ([] @ concat (map (\<lambda>v. short_ones (map escaped (strings_of v))) vs) @ [])"
    using JArr by (intro scans_append scans_comma_join scans_plain) auto
  moreover have "concat (map (\<lambda>v. short_ones (map escaped (strings_of v))) vs) = short_ones (map escaped (concat (map strings_of vs)))"
    by (induction vs) simp_all
  ultimately show ?case by simp
next
  case (JObj ps)
  have mem: "scans (member_text p) (short_ones [escaped (fst p)] @ [] @ short_ones (map escaped (strings_of (snd p))))" if "p \<in> set ps" for p
    unfolding member_text_def using JObj that by (intro scans_append scans_quoted scans_plain) (auto simp: snds.simps)
  have "scans (''{'' @ comma_join (map member_text ps) @ ''}'')
      ([] @ concat (map (\<lambda>p. short_ones [escaped (fst p)] @ [] @ short_ones (map escaped (strings_of (snd p)))) ps) @ [])"
    using mem by (intro scans_append scans_comma_join scans_plain) auto
  moreover have "concat (map (\<lambda>p. short_ones [escaped (fst p)] @ [] @ short_ones (map escaped (strings_of (snd p)))) ps) =
      short_ones (map escaped (strings_of (JObj ps)))"
    by (induction ps) (auto simp: short_ones_def)
  ultimately show ?case unfolding render_JObj by simp
qed (auto intro!: scans_plain)

text \<open>
  C24: when the arguments of a call are the very text that \<^term>\<open>hu_json_stringify\<close> writes for a JSON value, and at most 64
  of its keys and strings, as they are written between their quotes, are neither empty nor longer than 4096 characters,
  then exactly these are looked at, each in its written form, with its escapes unresolved, and the flags are what they raise.
\<close>

theorem inspect_sees_all:
  assumes "json_ok n v" "hu_json_stringify v = Ret args"
    and "length (short_ones (map escaped (strings_of v))) \<le> MAX_EXTRACT_STRINGS"
  shows "ai_strings_extracted (hu_arg_inspect t args) = length (short_ones (map escaped (strings_of v))) \<and>
    ai_risk_flags (hu_arg_inspect t args) =
       (\<Union>s \<in> {s \<in> set (strings_of v). escaped s \<noteq> [] \<and> length (escaped s) \<le> MAX_STRING_LEN}. scan_string (escaped s))"
proof -
  let ?ws = "short_ones (map escaped (strings_of v))"
  obtain c r where "render v = c # r" using render_head [of v] by blast
  moreover have args: "args = render v" using hu_json_stringify_render [OF assms(1)] assms(2) by blast
  ultimately have ne: "args \<noteq> []" by simp
  have "extract_strings (length ?ws + (MAX_EXTRACT_STRINGS - length ?ws)) (render v @ []) = ?ws @ extract_strings (MAX_EXTRACT_STRINGS - length ?ws) []"
    using scans_render [of v] unfolding scans_def by blast
  moreover have "extract_strings k [] = []" for k by (cases k) simp_all
  ultimately have ex: "extract_json_strings args = ?ws" using assms(3) by (simp add: extract_json_strings_def args)
  have fold: "foldl (\<lambda>fs s. fs \<union> scan_string s) A ws = A \<union> (\<Union>s \<in> set ws. scan_string s)" for A ws
    by (induction ws arbitrary: A) auto
  from ne ex show ?thesis by (auto simp: hu_arg_inspect_def Let_def fold short_ones_def)
qed

definition sample_args :: json where
  "sample_args = JObj [(''path'', JStr ''../../etc/passwd''), (''lines'', JArr [JBool True, JStr ''rm -rf /; ls''])]"

lemma inspect_sees_all_witness:
  "\<exists>args. hu_json_stringify sample_args = Ret args \<and> ai_strings_extracted (hu_arg_inspect None args) = 4 \<and>
     {HU_ARG_RISK_PATH_TRAVERSAL, HU_ARG_RISK_SHELL_INJECT} \<subseteq> ai_risk_flags (hu_arg_inspect None args)"
proof -
  have ok: "json_ok 2 sample_args" by (simp add: sample_args_def numeral_2_eq_2)
  have fits: "json_fits sample_args" by (simp add: sample_args_def)
  have len: "length (render sample_args) < 2 ^ 63" by (simp add: sample_args_def quoted_def esc_text_def cval_def)
  have esc: "map escaped (strings_of sample_args) = [''path'', ''../../etc/passwd'', ''lines'', ''rm -rf /; ls'']"
    by (simp add: sample_args_def escaped_def esc_text_def cval_def)
  then have short: "short_ones (map escaped (strings_of sample_args)) = [''path'', ''../../etc/passwd'', ''lines'', ''rm -rf /; ls'']"
    unfolding esc by (simp add: short_ones_def MAX_STRING_LEN_def)
  note all = inspect_sees_all [OF ok hu_json_stringify_render(2) [OF ok fits len], of None]
  have "contains_ci ''../../etc/passwd'' ''../''" by code_simp
  then have scan: "HU_ARG_RISK_PATH_TRAVERSAL \<in> scan_string ''../../etc/passwd''" "HU_ARG_RISK_SHELL_INJECT \<in> scan_string ''rm -rf /; ls''"
    by (simp_all add: scan_string_def Let_def)
  have mem: "escaped s \<in> {''../../etc/passwd'', ''rm -rf /; ls''} \<Longrightarrow> escaped s \<noteq> [] \<and> length (escaped s) \<le> MAX_STRING_LEN" for s
    by (auto simp: MAX_STRING_LEN_def)
  have "''../../etc/passwd'' \<in> set (strings_of sample_args)" "escaped ''../../etc/passwd'' = ''../../etc/passwd''"
    "''rm -rf /; ls'' \<in> set (strings_of sample_args)" "escaped ''rm -rf /; ls'' = ''rm -rf /; ls''"
    by (simp_all add: sample_args_def escaped_def esc_text_def cval_def)
  moreover have "ai_risk_flags (hu_arg_inspect None (render sample_args)) =
      (\<Union>s \<in> {s \<in> set (strings_of sample_args). escaped s \<noteq> [] \<and> length (escaped s) \<le> MAX_STRING_LEN}. scan_string (escaped s))"
    "ai_strings_extracted (hu_arg_inspect None (render sample_args)) = 4"
    using all unfolding short by (simp_all add: MAX_EXTRACT_STRINGS_def)
  ultimately have "HU_ARG_RISK_PATH_TRAVERSAL \<in> ai_risk_flags (hu_arg_inspect None (render sample_args))"
    "HU_ARG_RISK_SHELL_INJECT \<in> ai_risk_flags (hu_arg_inspect None (render sample_args))"
    "ai_strings_extracted (hu_arg_inspect None (render sample_args)) = 4"
    using scan mem [of "''../../etc/passwd''"] mem [of "''rm -rf /; ls''"] by (simp_all only:) (intro UN_I [of "''../../etc/passwd''"] UN_I [of "''rm -rf /; ls''"]; simp)+
  with hu_json_stringify_render(2) [OF ok fits len] show ?thesis by blast
qed

text \<open>A string of more than 4096 characters is not scanned at all, and escapes are not resolved before the scan.\<close>

lemma inspect_skips_long_strings:
  assumes "json_ok n (JStr s)" "hu_json_stringify (JStr s) = Ret args" "length (escaped s) > MAX_STRING_LEN"
  shows "ai_risk_flags (hu_arg_inspect t args) = {} \<and> ai_overall_risk (hu_arg_inspect t args) = HU_RISK_LOW"
proof -
  have "args = render (JStr s)" using hu_json_stringify_render [OF assms(1)] assms(2) by blast
  moreover have "extract_strings (0 + MAX_EXTRACT_STRINGS) (render (JStr s) @ []) = [] @ extract_strings MAX_EXTRACT_STRINGS []"
  proof -
    have "short_ones (map escaped (strings_of (JStr s))) = []" using assms(3) by (simp add: short_ones_def)
    then have "scans (render (JStr s)) []" using scans_render [of "JStr s"] by (simp only:)
    then show ?thesis unfolding scans_def by (metis list.size(3))
  qed
  moreover have "extract_strings k [] = []" for k by (cases k) simp_all
  ultimately show ?thesis by (simp add: hu_arg_inspect_def extract_json_strings_def classify_risk_def)
qed

lemma inspect_misses_escapes:
  "ai_risk_flags (hu_arg_inspect None (DQUOTE # BSLASH # ''u003bls'' @ [DQUOTE])) = {}"
proof -
  have "extract_json_strings (DQUOTE # BSLASH # ''u003bls'' @ [DQUOTE]) = [BSLASH # ''u003bls'']" by code_simp
  moreover have "scan_string (BSLASH # ''u003bls'') = {}" by code_simp
  ultimately show ?thesis by (simp add: hu_arg_inspect_def)
qed

lemma escape_is_semicolon:
  assumes "jb_cap b \<ge> length (jb_data b) + 4"
  shows "str_escape b (''u003bls'' @ rest) = Ret (b, CHR '';'', ''ls'' @ rest)"
proof -
  have "char_of (59 :: nat) = CHR '';''" by code_simp
  with assms show ?thesis
    by (simp add: str_escape_def str_unicode_def unicode_escape_def hex4_def hex_char_val_def cval_def utf8_split_def)
qed

end
