(* ===== verification/HuToolGate.thy ===== *)
theory HuToolGate
  imports HuDispatch HuPermission HuHooks HuEscalate HuInspect
begin

text \<open>
  The checks a tool call passes before it runs, \<^verbatim>\<open>src/agent/agent.c\<close>: the tier of the tool, the hooks, the escalation
  table, the policy with its rules, the role in the team and the inspection of the arguments; and how the calls of a
  message are checked and dispatched, \<^verbatim>\<open>src/agent/turn/turn_tools.c\<close>.

  \<open>gate_agent\<close> has the fields of the agent these functions use.  The audit log, to which denials are written, is left
  out.
\<close>

section \<open>The gate\<close>

datatype hu_tool_gate = HU_TOOL_GATE_ALLOW | HU_TOOL_GATE_DENY | HU_TOOL_GATE_NEED_APPROVAL

record gate_agent =
  ga_perm :: perm_agent
  ga_hook_registry :: "hook_registry option"
  ga_escalate_protocol :: hu_escalate_protocol
  ga_policy :: "hu_security_policy option"
  ga_policy_engine :: "hu_policy_rule list option"
  ga_team :: "hu_team_member list option"
  ga_agent_id :: nat
  ga_tool_count :: nat
  ga_tool_sequence_hash :: "32 word"

definition hu_agent_turn_state_track_tool :: "gate_agent \<Rightarrow> string \<Rightarrow> gate_agent" where
  "hu_agent_turn_state_track_tool a name =
     (if name = [] then a
      else
        let h = ga_tool_sequence_hash a;
            h = (if h = 0 then 2166136261 else (h XOR word_of_nat (cval (CHR ''|''))) * 16777619) in
        a\<lparr>ga_tool_count := ga_tool_count a + 1,
          ga_tool_sequence_hash := foldl (\<lambda>h c. (h XOR word_of_nat (cval c)) * 16777619) h name\<rparr>)"

definition no_cost_ctx :: "string \<Rightarrow> string \<Rightarrow> hu_policy_eval_ctx" where
  "no_cost_ctx tool_name args = \<lparr>pc_tool_name = Some tool_name, pc_args_json = Some args, pc_session_cost_usd = Fin dzero\<rparr>"

definition hu_agent_internal_check_policy :: "gate_agent \<Rightarrow> string \<Rightarrow> string \<Rightarrow> hu_policy_action" where
  "hu_agent_internal_check_policy a tool_name args =
     (if (\<exists>p. ga_policy a = Some p \<and> sp_block_high_risk_commands p) \<and> hu_tool_risk_level (Some tool_name) = HU_RISK_HIGH then HU_POLICY_DENY
      else case ga_policy_engine a of
             None \<Rightarrow> HU_POLICY_ALLOW
           | Some rules \<Rightarrow> po_action (hu_policy_engine_evaluate rules (no_cost_ctx tool_name args)))"

definition role_refuses :: "gate_agent \<Rightarrow> string \<Rightarrow> bool" where
  "role_refuses a tool_name \<longleftrightarrow>
     (case ga_team a of
        None \<Rightarrow> False
      | Some members \<Rightarrow> ga_agent_id a \<noteq> 0 \<and>
          (case hu_team_get_member members (ga_agent_id a) of
             None \<Rightarrow> False
           | Some m \<Rightarrow> \<not> hu_team_role_allows_tool (tm_role m) tool_name))"

definition hu_agent_internal_evaluate_tool_policy :: "gate_agent \<Rightarrow> string \<Rightarrow> string \<Rightarrow> hu_policy_action" where
  "hu_agent_internal_evaluate_tool_policy a tool_name args =
     (let base = hu_agent_internal_check_policy a tool_name args;
          ruled = (case ga_policy_engine a of
                     None \<Rightarrow> HU_POLICY_ALLOW
                   | Some rules \<Rightarrow> po_action (hu_policy_engine_evaluate rules (no_cost_ctx tool_name args)));
          insp = hu_arg_inspect (Some tool_name) args in
      if base = HU_POLICY_DENY then HU_POLICY_DENY
      else if role_refuses a tool_name then HU_POLICY_DENY
      else if ruled = HU_POLICY_DENY then HU_POLICY_DENY
      else if ruled = HU_POLICY_REQUIRE_APPROVAL then HU_POLICY_REQUIRE_APPROVAL
      else if args \<noteq> [] \<and> hu_arg_inspection_should_block insp (ga_policy a) then HU_POLICY_DENY
      else if args \<noteq> [] \<and> hu_arg_inspection_needs_approval insp (ga_policy a) then HU_POLICY_REQUIRE_APPROVAL
      else base)"

definition fail_owned :: "string \<Rightarrow> nat \<Rightarrow> hu_tool_result" where
  "fail_owned msg n =
     (hu_tool_result_fail msg n)\<lparr>rs_rest := Some (rest_zero\<lparr>rr_error_msg := Some msg, rr_error_msg_len := n, rr_error_msg_owned := True\<rparr>)\<rparr>"

definition pending_approval :: hu_tool_result where
  "pending_approval =
     (hu_tool_result_fail ''pending approval'' 16)
       \<lparr>rs_rest := Some (rest_zero\<lparr>rr_error_msg := Some ''pending approval'', rr_error_msg_len := 16, rr_needs_approval := True\<rparr>)\<rparr>"

text \<open>\<open>None\<close>: the hooks let the call pass.\<close>

definition hu_agent_internal_pre_hook_check :: "'w hook_runner \<Rightarrow> gate_agent \<Rightarrow> string \<Rightarrow> string \<Rightarrow> 'w \<Rightarrow> hu_tool_result option \<times> 'w" where
  "hu_agent_internal_pre_hook_check sh a tool_name args w =
     (case ga_hook_registry a of
        None \<Rightarrow> (None, w)
      | Some reg \<Rightarrow>
          let (r, w) = hu_hook_pipeline_pre_tool sh (Some reg) tool_name args w;
              msg = (case hd_message r of None \<Rightarrow> ''denied by hook'' | Some m \<Rightarrow> m) in
          (if hd_decision r = HU_HOOK_DENY then Some (fail_owned (hu_strndup msg (length msg)) (length msg)) else None, w))"

text \<open>Names are cut to 127 bytes; \<open>res\<close> is what the result holds before.\<close>

definition hu_agent_internal_pre_execute_checks ::
    "'w hook_runner \<Rightarrow> gate_agent \<Rightarrow> string option \<Rightarrow> string \<Rightarrow> hu_tool_result \<Rightarrow> 'w \<Rightarrow>
     hu_tool_gate \<times> gate_agent \<times> hu_tool_result \<times> 'w" where
  "hu_agent_internal_pre_execute_checks sh a tool_name args res w =
     (if tool_name = None \<or> tool_name = Some [] then
        (HU_TOOL_GATE_DENY, a, hu_tool_result_fail ''denied by security policy'' 25, w)
      else
        let name = take 127 (the tool_name); cname = cstr name in
        if \<not> hu_permission_check (pa_permission_level (ga_perm a)) (hu_permission_get_tool_level (Some cname)) then
          (HU_TOOL_GATE_DENY, a\<lparr>ga_perm := hu_permission_reset_escalation (ga_perm a)\<rparr>,
           hu_tool_result_fail ''denied by security policy'' 25, w)
        else
          let (hooked, w) = hu_agent_internal_pre_hook_check sh a name args w;
              esc = (if ep_rules (ga_escalate_protocol a) = [] then HU_ESCALATE_AUTO else hu_escalate_evaluate (ga_escalate_protocol a) name);
              pa = hu_agent_internal_evaluate_tool_policy a cname (cstr args) in
          case hooked of
            Some r \<Rightarrow> (HU_TOOL_GATE_DENY, a, r, w)
          | None \<Rightarrow>
              if esc = HU_ESCALATE_DENY then (HU_TOOL_GATE_DENY, a, hu_tool_result_fail ''blocked by ESCALATE policy'' 26, w)
              else if esc = HU_ESCALATE_APPROVE then (HU_TOOL_GATE_NEED_APPROVAL, a, pending_approval, w)
              else if pa = HU_POLICY_DENY then (HU_TOOL_GATE_DENY, a, hu_tool_result_fail ''denied by policy'' 16, w)
              else if pa = HU_POLICY_REQUIRE_APPROVAL then (HU_TOOL_GATE_NEED_APPROVAL, a, pending_approval, w)
              else (HU_TOOL_GATE_ALLOW, a, res, w))"

section \<open>Running a tool behind the gate\<close>

definition hu_agent_internal_post_hook_fire ::
    "'w hook_runner \<Rightarrow> gate_agent \<Rightarrow> string \<Rightarrow> string \<Rightarrow> hu_tool_result \<Rightarrow> 'w \<Rightarrow> 'w outcome" where
  "hu_agent_internal_post_hook_fire sh a tool_name args r w =
     (case ga_hook_registry a of
        None \<Rightarrow> Ret w
      | Some reg \<Rightarrow>
          obind (if rs_success r then Ret (case rs_output r of None \<Rightarrow> [] | Some s \<Rightarrow> take (rs_output_len r) s)
                 else case rs_rest r of
                        None \<Rightarrow> Undef Uninitialised
                      | Some rr \<Rightarrow> Ret (case rr_error_msg rr of None \<Rightarrow> [] | Some s \<Rightarrow> take (rr_error_msg_len rr) s)) (\<lambda>output.
          Ret (snd (hu_hook_pipeline_post_tool sh (Some reg) tool_name args output (rs_success r) w))))"

definition hu_agent_internal_dispatch_with_hooks ::
    "'w hook_runner \<Rightarrow> gate_agent \<Rightarrow> 'w hu_tool \<Rightarrow> string \<Rightarrow> string \<Rightarrow> json \<Rightarrow> hu_tool_result \<Rightarrow> 'w \<Rightarrow>
     (gate_agent \<times> hu_tool_result \<times> 'w) outcome" where
  "hu_agent_internal_dispatch_with_hooks sh a tool tool_name args args_parsed res w =
     (let (gate, a, r, w) = hu_agent_internal_pre_execute_checks sh a (Some tool_name) args res w;
          (a, r, w) =
            (if gate = HU_TOOL_GATE_ALLOW then
               case dt_execute tool of
                 Some f \<Rightarrow> let (r, w) = f args_parsed r w in (hu_agent_turn_state_track_tool a tool_name, r, w)
               | None \<Rightarrow> (a, hu_tool_result_fail ''tool has no execute method'' 26, w)
             else (a, r, w)) in
      obind (hu_agent_internal_post_hook_fire sh a tool_name args r w) (\<lambda>w. Ret (a, r, w)))"

section \<open>The calls of a message\<close>

text \<open>Every call is checked, with its name cut to 63 bytes; \<open>True\<close> for those that may run.\<close>

fun check_calls :: "'w hook_runner \<Rightarrow> gate_agent \<Rightarrow> tool_call list \<Rightarrow> 'w \<Rightarrow> bool list \<times> gate_agent \<times> 'w" where
  "check_calls sh a [] w = ([], a, w)"
| "check_calls sh a (c # cs) w =
     (let (gate, a, _, w) = hu_agent_internal_pre_execute_checks sh a (Some (take 63 (tc_name c))) (cstr (tc_arguments c)) tool_result_zero w;
          (bs, a, w) = check_calls sh a cs w in
      ((gate = HU_TOOL_GATE_ALLOW) # bs, a, w))"

definition turn_dispatcher :: "hu_tool_cache option \<Rightarrow> nat \<Rightarrow> hu_dispatcher" where
  "turn_dispatcher turn_cache tc_count =
     hu_dispatcher_default\<lparr>hd_max_parallel := (if tc_count > 1 then 4 else 1), hd_timeout_secs := 30, hd_cache := turn_cache,
       hd_max_retries := 2, hd_retry_base_ms := 200\<rparr>"

text \<open>
  The dispatch of a message none of whose calls is found in the cache that lasts longer than a turn.
\<close>

definition turn_dispatch ::
    "(nat \<Rightarrow> tool_call list \<Rightarrow> 'w \<Rightarrow> hu_tool_result list \<times> 'w) \<Rightarrow> (nat \<Rightarrow> 'w \<Rightarrow> 'w) \<Rightarrow> 'w hook_runner \<Rightarrow> gate_agent \<Rightarrow>
     'w hu_tool list \<Rightarrow> bool \<Rightarrow> hu_tool_cache option \<Rightarrow> tool_call list \<Rightarrow> 'w \<Rightarrow>
     (bool list \<times> hu_tool_result list \<times> gate_agent \<times> hu_tool_cache option \<times> 'w) outcome" where
  "turn_dispatch threads nanosleep sh a tools tool_stream_cb turn_cache calls w =
     (let (allowed, a, w) = check_calls sh a calls w in
      if True \<in> set allowed then
        obind (if tool_stream_cb then hu_dispatcher_dispatch_streaming threads nanosleep (turn_dispatcher turn_cache (length calls)) tools calls True w
               else hu_dispatcher_dispatch threads (turn_dispatcher turn_cache (length calls)) tools calls w) (\<lambda>(rs, ca, w).
        Ret (allowed, rs, a, ca, w))
      else Ret (allowed, [], a, turn_cache, w))"

end
