(* ===== verification/HuToolGateSpec.thy ===== *)
theory HuToolGateSpec
  imports HuToolGate
begin

text \<open>
  What the gate of \<^verbatim>\<open>src/agent/agent.c\<close> lets through, that a tool without a tier never runs whatever happens to the
  agent, and what the dispatch of \<^verbatim>\<open>src/agent/turn/turn_tools.c\<close> does with calls that were refused.
\<close>

section \<open>What the gate lets through\<close>

lemma engine_allows:
  "po_action (hu_policy_engine_evaluate rules ctx) = HU_POLICY_ALLOW \<longleftrightarrow>
   (\<forall>r \<in> set rules. rule_matches (pr_match r) ctx \<longrightarrow> pr_action r = HU_POLICY_ALLOW)"
  by (induction rules) auto

lemma policy_action_cases: "a \<noteq> HU_POLICY_DENY \<Longrightarrow> a \<noteq> HU_POLICY_REQUIRE_APPROVAL \<Longrightarrow> a = HU_POLICY_ALLOW"
  by (cases a) simp_all

lemma tool_policy_allows:
  assumes "hu_agent_internal_evaluate_tool_policy a name args = HU_POLICY_ALLOW"
  shows "\<forall>p. ga_policy a = Some p \<and> sp_block_high_risk_commands p \<longrightarrow> hu_tool_risk_level (Some name) \<noteq> HU_RISK_HIGH"
    "\<forall>rules. ga_policy_engine a = Some rules \<longrightarrow>
       (\<forall>r \<in> set rules. rule_matches (pr_match r) (no_cost_ctx name args) \<longrightarrow> pr_action r = HU_POLICY_ALLOW)"
    "\<not> role_refuses a name"
    "args \<noteq> [] \<Longrightarrow> \<not> hu_arg_inspection_should_block (hu_arg_inspect (Some name) args) (ga_policy a)"
    "args \<noteq> [] \<Longrightarrow> \<not> hu_arg_inspection_needs_approval (hu_arg_inspect (Some name) args) (ga_policy a)"
proof -
  have base: "hu_agent_internal_check_policy a name args = HU_POLICY_ALLOW"
    using assms by (auto simp: hu_agent_internal_evaluate_tool_policy_def Let_def split: if_splits)
  then show "\<forall>p. ga_policy a = Some p \<and> sp_block_high_risk_commands p \<longrightarrow> hu_tool_risk_level (Some name) \<noteq> HU_RISK_HIGH"
    by (auto simp: hu_agent_internal_check_policy_def split: if_splits)
  from base show "\<forall>rules. ga_policy_engine a = Some rules \<longrightarrow>
       (\<forall>r \<in> set rules. rule_matches (pr_match r) (no_cost_ctx name args) \<longrightarrow> pr_action r = HU_POLICY_ALLOW)"
    by (auto simp: hu_agent_internal_check_policy_def engine_allows split: if_splits)
  from assms base show "\<not> role_refuses a name"
    "args \<noteq> [] \<Longrightarrow> \<not> hu_arg_inspection_should_block (hu_arg_inspect (Some name) args) (ga_policy a)"
    "args \<noteq> [] \<Longrightarrow> \<not> hu_arg_inspection_needs_approval (hu_arg_inspect (Some name) args) (ga_policy a)"
    by (auto simp: hu_agent_internal_evaluate_tool_policy_def Let_def split: if_splits)
qed

lemma gate_allow:
  assumes "hu_agent_internal_pre_execute_checks sh a (Some n) args res w = (HU_TOOL_GATE_ALLOW, a', r, w')"
    and "no_nul n" "length n < 128" "no_nul args"
  shows "a' = a \<and> r = res \<and> n \<noteq> [] \<and>
    hu_permission_check (pa_permission_level (ga_perm a)) (hu_permission_get_tool_level (Some n)) \<and>
    hu_agent_internal_pre_hook_check sh a n args w = (None, w') \<and>
    (ep_rules (ga_escalate_protocol a) \<noteq> [] \<longrightarrow> hu_escalate_evaluate (ga_escalate_protocol a) n \<in> {HU_ESCALATE_AUTO, HU_ESCALATE_NOTIFY}) \<and>
    hu_agent_internal_evaluate_tool_policy a n args = HU_POLICY_ALLOW"
proof -
  have "take 127 n = n" "cstr n = n" "cstr args = args" using assms(2,3,4) by simp_all
  moreover have "l \<in> {HU_ESCALATE_AUTO, HU_ESCALATE_NOTIFY}" if "l \<noteq> HU_ESCALATE_DENY" "l \<noteq> HU_ESCALATE_APPROVE" for l
    using that by (cases l) simp_all
  ultimately show ?thesis
    using assms(1) policy_action_cases
    by (auto simp: hu_agent_internal_pre_execute_checks_def Let_def split: if_splits prod.splits option.splits)
qed

lemma permitted_tier:
  assumes "hu_permission_check l (hu_permission_get_tool_level (Some n))" "l \<noteq> HU_PERM_DENY"
  shows "\<exists>m. (n, m) \<in> set HU_TOOL_PERMISSIONS \<and> m \<le> l"
proof -
  have le: "hu_permission_get_tool_level (Some n) \<le> l" using assms(1) by (simp add: hu_permission_check_def)
  moreover have "l \<noteq> HU_PERM_DENY \<Longrightarrow> \<not> HU_PERM_DENY \<le> l" by simp
  ultimately have "hu_permission_get_tool_level (Some n) \<noteq> HU_PERM_DENY" using assms(2) by metis
  then obtain m where "map_of HU_TOOL_PERMISSIONS n = Some m" "hu_permission_get_tool_level (Some n) = m"
    by (auto simp: hu_permission_get_tool_level_def split: option.splits)
  with le show ?thesis by (metis map_of_SomeD)
qed

text \<open>
  C6: a call the gate lets through is one of a tool whose tier is known and not above the agent's, which no hook denied,
  which the escalation table, if there is one, lets run without an approval, which no rule of the policy engine
  restricts, and which the role in the team may use.  If the agent has a policy, the arguments show no exfiltration and
  no prompt injection; under one that blocks high risks neither the tool nor the arguments are of high risk; under
  supervised autonomy the arguments are of low risk.  Nothing is said of the arguments for an agent without a policy,
  nor of other risks under a policy that neither blocks nor supervises.  The name has at most 127 characters, it and the
  arguments have no NUL, and the levels of the agent are consistent and not \<open>HU_PERM_DENY\<close> (\<open>perm_ok\<close>).
\<close>

theorem gate_lets_through:
  assumes "hu_agent_internal_pre_execute_checks sh a (Some n) args res w = (HU_TOOL_GATE_ALLOW, a', r, w')"
    and "no_nul n" "length n < 128" "no_nul args" "perm_ok (ga_perm a)"
  shows "(\<exists>m. (n, m) \<in> set HU_TOOL_PERMISSIONS \<and> m \<le> pa_permission_level (ga_perm a)) \<and>
    (\<forall>reg. ga_hook_registry a = Some reg \<longrightarrow> hd_decision (fst (hu_hook_pipeline_pre_tool sh (Some reg) n args w)) \<noteq> HU_HOOK_DENY) \<and>
    (ep_rules (ga_escalate_protocol a) \<noteq> [] \<longrightarrow> hu_escalate_evaluate (ga_escalate_protocol a) n \<in> {HU_ESCALATE_AUTO, HU_ESCALATE_NOTIFY}) \<and>
    (\<forall>rules. ga_policy_engine a = Some rules \<longrightarrow>
       (\<forall>rule \<in> set rules. rule_matches (pr_match rule) (no_cost_ctx n args) \<longrightarrow> pr_action rule = HU_POLICY_ALLOW)) \<and>
    (\<forall>ms m. ga_team a = Some ms \<and> ga_agent_id a \<noteq> 0 \<and> hu_team_get_member ms (ga_agent_id a) = Some m \<longrightarrow>
       hu_team_role_allows_tool (tm_role m) n) \<and>
    (\<forall>p. ga_policy a = Some p \<longrightarrow>
       (sp_block_high_risk_commands p \<longrightarrow> hu_tool_risk_level (Some n) \<noteq> HU_RISK_HIGH \<and> ai_overall_risk (hu_arg_inspect (Some n) args) \<noteq> HU_RISK_HIGH) \<and>
       (sp_autonomy p = HU_AUTONOMY_SUPERVISED \<longrightarrow> ai_overall_risk (hu_arg_inspect (Some n) args) = HU_RISK_LOW) \<and>
       ai_risk_flags (hu_arg_inspect (Some n) args) \<inter> {HU_ARG_RISK_EXFILTRATION, HU_ARG_RISK_PROMPT_INJECT} = {})"
proof -
  note g = gate_allow [OF assms(1-4)]
  then have pol: "hu_agent_internal_evaluate_tool_policy a n args = HU_POLICY_ALLOW" by blast
  have 1: "\<exists>m. (n, m) \<in> set HU_TOOL_PERMISSIONS \<and> m \<le> pa_permission_level (ga_perm a)"
    using g assms(5) permitted_tier by (auto simp: perm_ok_def)
  have 2: "hd_decision (fst (hu_hook_pipeline_pre_tool sh (Some reg) n args w)) \<noteq> HU_HOOK_DENY" if "ga_hook_registry a = Some reg" for reg
    using g that by (auto simp: hu_agent_internal_pre_hook_check_def Let_def split: prod.splits if_splits)
  have 3: "hu_team_role_allows_tool (tm_role m) n" if "ga_team a = Some ms" "ga_agent_id a \<noteq> 0" "hu_team_get_member ms (ga_agent_id a) = Some m" for ms m
    using tool_policy_allows(3) [OF pol] that by (simp add: role_refuses_def)
  have low: "x = HU_RISK_LOW" if "x \<noteq> HU_RISK_MEDIUM" "x \<noteq> HU_RISK_HIGH" for x using that by (cases x) simp_all
  have 4: "(sp_block_high_risk_commands p \<longrightarrow> ai_overall_risk (hu_arg_inspect (Some n) args) \<noteq> HU_RISK_HIGH) \<and>
       (sp_autonomy p = HU_AUTONOMY_SUPERVISED \<longrightarrow> ai_overall_risk (hu_arg_inspect (Some n) args) = HU_RISK_LOW) \<and>
       ai_risk_flags (hu_arg_inspect (Some n) args) \<inter> {HU_ARG_RISK_EXFILTRATION, HU_ARG_RISK_PROMPT_INJECT} = {}"
    if "ga_policy a = Some p" for p
  proof (cases "args = []")
    case True
    then show ?thesis by (simp add: hu_arg_inspect_def)
  next
    case False
    with tool_policy_allows(4,5) [OF pol] that low show ?thesis
      by (auto simp: hu_arg_inspection_should_block_def hu_arg_inspection_needs_approval_def)
  qed
  show ?thesis using 1 2 3 4 g tool_policy_allows(1,2) [OF pol] by auto
qed

definition plain_policy :: hu_security_policy where
  "plain_policy =
     \<lparr>sp_autonomy = HU_AUTONOMY_ASSISTED, sp_allowed_commands = [], sp_require_approval_for_medium_risk = False,
      sp_block_high_risk_commands = True, sp_tracker = None, sp_pre_approved = False, sp_hula_capability_allowlist = None\<rparr>"

definition reader :: gate_agent where
  "reader =
     \<lparr>ga_perm = \<lparr>pa_permission_level = HU_PERM_READ_ONLY, pa_permission_base_level = HU_PERM_READ_ONLY, pa_permission_escalated = False\<rparr>,
      ga_hook_registry = None, ga_escalate_protocol = \<lparr>ep_rules = [], ep_default_level = HU_ESCALATE_APPROVE\<rparr>,
      ga_policy = Some plain_policy, ga_policy_engine = None, ga_team = None, ga_agent_id = 1, ga_tool_count = 0, ga_tool_sequence_hash = 0\<rparr>"

lemma reader_tiers:
  "hu_permission_get_tool_level (Some ''file_read'') = HU_PERM_READ_ONLY"
  "hu_permission_get_tool_level (Some ''shell'') = HU_PERM_WORKSPACE_WRITE"
  by code_simp+

lemma braces_clean:
  "hu_arg_inspect (Some n) ''{}'' = \<lparr>ai_risk_flags = {}, ai_overall_risk = HU_RISK_LOW, ai_findings = [], ai_strings_extracted = 0\<rparr>"
proof -
  have "extract_json_strings ''{}'' = []" by code_simp
  then show ?thesis by (simp add: hu_arg_inspect_def Let_def classify_risk_def flag_findings_def)
qed

lemma reader_reads:
  "hu_agent_internal_pre_execute_checks sh reader (Some ''file_read'') ''{}'' res w = (HU_TOOL_GATE_ALLOW, reader, res, w)"
  by (simp add: hu_agent_internal_pre_execute_checks_def reader_def reader_tiers hu_permission_check_def hu_agent_internal_pre_hook_check_def
      hu_agent_internal_evaluate_tool_policy_def hu_agent_internal_check_policy_def role_refuses_def braces_clean cstr_def
      hu_arg_inspection_should_block_def hu_arg_inspection_needs_approval_def hu_tool_risk_level_def)

lemma reader_no_shell:
  "hu_agent_internal_pre_execute_checks sh reader (Some ''shell'') args res w =
     (HU_TOOL_GATE_DENY, reader, hu_tool_result_fail ''denied by security policy'' 25, w)"
proof -
  have "\<not> HU_PERM_WORKSPACE_WRITE \<le> HU_PERM_READ_ONLY" by (simp add: less_eq_hu_permission_level_def)
  then show ?thesis
    by (simp add: hu_agent_internal_pre_execute_checks_def reader_def reader_tiers hu_permission_check_def cstr_def hu_permission_reset_escalation_def)
qed

lemma gate_lets_through_witness:
  "\<exists>m. (''file_read'', m) \<in> set HU_TOOL_PERMISSIONS \<and> m \<le> pa_permission_level (ga_perm reader)"
proof -
  have "perm_ok (ga_perm reader)" by (simp add: reader_def perm_ok_def)
  with gate_lets_through [OF reader_reads [of "\<lambda>_ _ w. (Inr (0, []), w)" _ "()"]] show ?thesis by simp
qed

section \<open>Tools without a tier\<close>

text \<open>What can happen to an agent: its tier is changed, a call is made, or something else happens in the world.\<close>

inductive gate_step :: "'w hook_runner \<Rightarrow> gate_agent \<times> 'w \<Rightarrow> gate_agent \<times> 'w \<Rightarrow> bool" for sh where
  step_perm: "c \<noteq> Reload HU_PERM_DENY \<Longrightarrow> gate_step sh (a, w) (a\<lparr>ga_perm := perm_step c (ga_perm a)\<rparr>, w)"
| step_call: "hu_agent_internal_dispatch_with_hooks sh a tool n args v res w = Ret (a', r, w') \<Longrightarrow> gate_step sh (a, w) (a', w')"
| step_world: "gate_step sh (a, w) (a, w')"

inductive_cases gate_stepE: "gate_step sh (a, w) (a', w')"

lemma reset_ok: "perm_ok p \<Longrightarrow> perm_ok (hu_permission_reset_escalation p)"
  using perm_step_ok [of p Reset] by (simp add: perm_step_def)

lemma checks_keep_ok:
  "hu_agent_internal_pre_execute_checks sh a n args res w = (g, a', r, w') \<Longrightarrow> perm_ok (ga_perm a) \<Longrightarrow> perm_ok (ga_perm a')"
  by (auto simp: hu_agent_internal_pre_execute_checks_def Let_def reset_ok split: if_splits prod.splits option.splits)

lemma dispatch_keeps_ok:
  assumes "hu_agent_internal_dispatch_with_hooks sh a tool n args v res w = Ret (a', r, w')" "perm_ok (ga_perm a)"
  shows "perm_ok (ga_perm a')"
proof -
  obtain g a1 r1 w1 where g: "hu_agent_internal_pre_execute_checks sh a (Some n) args res w = (g, a1, r1, w1)"
    by (metis prod_cases4)
  have track: "ga_perm (hu_agent_turn_state_track_tool a1 n) = ga_perm a1" by (simp add: hu_agent_turn_state_track_tool_def Let_def)
  from assms(1) g track have "ga_perm a' = ga_perm a1"
    by (auto simp: hu_agent_internal_dispatch_with_hooks_def outcome_simps Let_def split: if_splits option.splits prod.splits)
  with checks_keep_ok [OF g assms(2)] show ?thesis by simp
qed

lemma gate_steps_ok: "(gate_step sh)\<^sup>*\<^sup>* (a, w) (a', w') \<Longrightarrow> perm_ok (ga_perm a) \<Longrightarrow> perm_ok (ga_perm a')"
proof (induction "(a', w')" arbitrary: a' w' rule: rtranclp_induct)
  case (step y)
  obtain a1 w1 where y: "y = (a1, w1)" by (cases y)
  with step have "perm_ok (ga_perm a1)" by blast
  with step.hyps(2) [unfolded y] show ?case
    by (cases rule: gate_stepE) (auto simp: perm_step_ok dispatch_keeps_ok)
qed simp

lemma unknown_denied:
  assumes "perm_ok (ga_perm a)" "n \<notin> fst ` set HU_TOOL_PERMISSIONS" "n \<noteq> []" "no_nul n" "length n < 128"
  shows "hu_agent_internal_pre_execute_checks sh a (Some n) args res w =
    (HU_TOOL_GATE_DENY, a\<lparr>ga_perm := hu_permission_reset_escalation (ga_perm a)\<rparr>, hu_tool_result_fail ''denied by security policy'' 25, w)"
proof -
  have "\<not> hu_permission_check (pa_permission_level (ga_perm a)) (hu_permission_get_tool_level (Some n))"
    using assms(1) unknown_tool [OF assms(2)] by (simp add: hu_permission_check_def perm_ok_def)
  moreover have "take 127 n = n" "cstr n = n" using assms(4,5) by simp_all
  ultimately show ?thesis using assms(3) by (simp add: hu_agent_internal_pre_execute_checks_def Let_def)
qed

text \<open>
  C5: the gate denies a tool that is not in the table of tiers, whatever an agent goes through: escalations and resets,
  reloads of its configuration other than to \<open>HU_PERM_DENY\<close>, which passes every check, and dispatches of any tools; and
  \<open>hu_agent_internal_dispatch_with_hooks\<close> then has the same result whatever the tool would do.  The name is not empty, has
  at most 127 characters and no NUL, and the levels the agent starts with are consistent and
  not \<open>HU_PERM_DENY\<close> (\<open>perm_ok\<close>).  The property is about this
  path only: the loop over the calls of a turn is another one, and may run a call that was denied (\<open>refused_call_runs\<close>).
\<close>

theorem gate_denies_unknown_tool:
  assumes "(gate_step sh)\<^sup>*\<^sup>* (a, w) (a', w')" "perm_ok (ga_perm a)"
    and "n \<notin> fst ` set HU_TOOL_PERMISSIONS" "n \<noteq> []" "no_nul n" "length n < 128"
  shows "fst (hu_agent_internal_pre_execute_checks sh a' (Some n) args res w') = HU_TOOL_GATE_DENY \<and>
    hu_agent_internal_dispatch_with_hooks sh a' tool n args v res w' = hu_agent_internal_dispatch_with_hooks sh a' other n args v res w'"
  using unknown_denied [OF gate_steps_ok [OF assms(1,2)] assms(3-6), of sh args res w']
  by (simp add: hu_agent_internal_dispatch_with_hooks_def Let_def)

lemma gate_denies_unknown_tool_witness:
  "let a = reader\<lparr>ga_perm := perm_step (Escalate HU_PERM_DANGER_FULL_ACCESS (Some ''mcp'')) (ga_perm reader)\<rparr> in
   pa_permission_level (ga_perm a) = HU_PERM_DANGER_FULL_ACCESS \<and>
   fst (hu_agent_internal_pre_execute_checks (\<lambda>_ _ w. (Inr (0, []), w)) a (Some ''mcp_tool'') ''{}'' tool_result_zero ()) = HU_TOOL_GATE_DENY"
proof -
  let ?c = "Escalate HU_PERM_DANGER_FULL_ACCESS (Some ''mcp'')" and ?sh = "\<lambda>_ _ w. (Inr (0, []), w)"
  have run: "(gate_step ?sh)\<^sup>*\<^sup>* (reader, ()) (reader\<lparr>ga_perm := perm_step ?c (ga_perm reader)\<rparr>, ())"
    by (intro r_into_rtranclp step_perm) simp
  have ok: "perm_ok (ga_perm reader)" by (simp add: reader_def perm_ok_def)
  have "''mcp_tool'' \<notin> fst ` set HU_TOOL_PERMISSIONS" by code_simp
  with gate_denies_unknown_tool [OF run ok, of "''mcp_tool''" "''{}''" tool_result_zero]
  have "fst (hu_agent_internal_pre_execute_checks ?sh (reader\<lparr>ga_perm := perm_step ?c (ga_perm reader)\<rparr>) (Some ''mcp_tool'') ''{}'' tool_result_zero ()) = HU_TOOL_GATE_DENY"
    by simp
  moreover have "pa_permission_level (perm_step ?c (ga_perm reader)) = HU_PERM_DANGER_FULL_ACCESS"
    by (simp add: reader_def perm_step_def hu_permission_escalate_temporary_def less_eq_hu_permission_level_def)
  ultimately show ?thesis by (simp add: Let_def)
qed

section \<open>Refused calls of a message\<close>

lemma check_calls_none: "check_calls sh a calls w = (bs, a', w') \<Longrightarrow> True \<notin> set bs \<Longrightarrow>
    turn_dispatch threads nanosleep sh a tools cb ca calls w = Ret (bs, [], a', ca, w')"
  by (simp add: turn_dispatch_def)

text \<open>
  As soon as one call of a message passes its checks, all of them are dispatched: an agent that may only read runs the
  shell when the same message reads a file.
\<close>

definition read_tool :: "nat hu_tool" where
  "read_tool = \<lparr>dt_name = Some ''file_read'', dt_execute = Some (\<lambda>v r w. (r\<lparr>rs_success := True\<rparr>, w)), dt_execute_streaming = None\<rparr>"

definition shell_tool :: "nat hu_tool" where
  "shell_tool = \<lparr>dt_name = Some ''shell'', dt_execute = Some (\<lambda>v r w. (r\<lparr>rs_success := True\<rparr>, w + 1)), dt_execute_streaming = None\<rparr>"

lemma refused_call_runs:
  "\<exists>rs ca. turn_dispatch threads nanosleep sh reader [read_tool, shell_tool] True None
     [\<lparr>tc_name = ''file_read'', tc_arguments = ''{}''\<rparr>, \<lparr>tc_name = ''shell'', tc_arguments = ''{}''\<rparr>] w =
   Ret ([True, False], rs, reader, ca, w + 1)"
proof -
  have braces: "parse_args ''{}'' = Ret (Some (JObj []))" by code_simp
  have "check_calls sh reader [\<lparr>tc_name = ''file_read'', tc_arguments = ''{}''\<rparr>, \<lparr>tc_name = ''shell'', tc_arguments = ''{}''\<rparr>] w =
      ([True, False], reader, w)"
    using reader_reads [of sh tool_result_zero w] reader_no_shell [of sh "''{}''" tool_result_zero w] by (simp add: cstr_def)
  then show ?thesis
    by (simp add: turn_dispatch_def hu_dispatcher_dispatch_streaming_def turn_dispatcher_def hu_dispatcher_default_def
        execute_one_retried_def execute_one_impl_def execute_fresh_def run_tool_def braces read_tool_def shell_tool_def)
qed

end
