(* ===== verification/HuToolCache.thy ===== *)
theory HuToolCache
  imports HuDispatch HuContract
begin

text \<open>
  \<^verbatim>\<open>src/tools/cache_ttl.c\<close>: the cache of tool results that outlasts a turn.

  The entries in use are a list, from which an entry is taken out by putting the last one in its place.  Times are
  seconds, given as arguments, whose sums are in the range of \<^verbatim>\<open>int64_t\<close>.
\<close>

section \<open>State\<close>

datatype hu_tool_cacheability = HU_TOOL_CACHE_NEVER | HU_TOOL_CACHE_SHORT | HU_TOOL_CACHE_MEDIUM | HU_TOOL_CACHE_LONG

definition HU_TOOL_CACHE_TTL_MAX_ENTRIES :: nat where "HU_TOOL_CACHE_TTL_MAX_ENTRIES = 64"

record ttl_entry =
  te_key_hash :: "64 word"
  te_result :: string
  te_result_len :: nat
  te_created_at :: int
  te_expires_at :: int
  te_hit_count :: nat

record hu_tool_cache_ttl =
  tt_entries :: "ttl_entry list"
  tt_total_hits :: nat
  tt_total_misses :: nat

definition hu_tool_cache_ttl_init :: hu_tool_cache_ttl where
  "hu_tool_cache_ttl_init = \<lparr>tt_entries = [], tt_total_hits = 0, tt_total_misses = 0\<rparr>"

definition hu_tool_cache_ttl_deinit :: "hu_tool_cache_ttl \<Rightarrow> hu_tool_cache_ttl" where
  "hu_tool_cache_ttl_deinit cache = cache\<lparr>tt_entries := []\<rparr>"

definition hu_tool_cache_ttl_key :: "string \<Rightarrow> string \<Rightarrow> 64 word" where
  "hu_tool_cache_ttl_key tool_name args_json =
     (let h = foldl (\<lambda>h c. fnv_byte h (cval c)) 14695981039346656037 tool_name; h = fnv_byte h 0xFF in
      foldl (\<lambda>h c. fnv_byte h (cval c)) h args_json)"

section \<open>Entries\<close>

fun key_index :: "64 word \<Rightarrow> ttl_entry list \<Rightarrow> nat option" where
  "key_index key [] = None"
| "key_index key (e # es) = (if te_key_hash e = key then Some 0 else map_option Suc (key_index key es))"

definition ttl_expired :: "int \<Rightarrow> ttl_entry \<Rightarrow> bool" where
  "ttl_expired now e \<longleftrightarrow> te_expires_at e > 0 \<and> te_expires_at e \<le> now"

definition swap_remove :: "nat \<Rightarrow> 'a list \<Rightarrow> 'a list" where
  "swap_remove i es = butlast (es[i := last es])"

definition hu_tool_cache_ttl_get :: "hu_tool_cache_ttl \<Rightarrow> 64 word \<Rightarrow> int \<Rightarrow> hu_tool_cache_ttl \<times> (string \<times> nat) option" where
  "hu_tool_cache_ttl_get cache key now =
     (case key_index key (tt_entries cache) of
        None \<Rightarrow> (cache\<lparr>tt_total_misses := (tt_total_misses cache + 1) mod 2 ^ 32\<rparr>, None)
      | Some i \<Rightarrow>
          let e = tt_entries cache ! i in
          if ttl_expired now e then
            (cache\<lparr>tt_entries := swap_remove i (tt_entries cache), tt_total_misses := (tt_total_misses cache + 1) mod 2 ^ 32\<rparr>, None)
          else
            (cache\<lparr>tt_entries := (tt_entries cache)[i := e\<lparr>te_hit_count := (te_hit_count e + 1) mod 2 ^ 32\<rparr>],
                   tt_total_hits := (tt_total_hits cache + 1) mod 2 ^ 32\<rparr>,
             Some (te_result e, te_result_len e)))"

text \<open>The loop of the sweep: it stays at a place whose entry it took out.\<close>

function (sequential) sweep :: "int \<Rightarrow> nat \<Rightarrow> ttl_entry list \<Rightarrow> nat \<Rightarrow> ttl_entry list \<times> nat" where
  "sweep now i es evicted =
     (if i \<ge> length es then (es, evicted)
      else if ttl_expired now (es ! i) then sweep now i (swap_remove i es) (evicted + 1)
      else sweep now (i + 1) es evicted)"
  by pat_completeness auto
termination by (relation "measure (\<lambda>(now, i, es, evicted). length es - i)") (auto simp: swap_remove_def)

declare sweep.simps [simp del]

definition hu_tool_cache_ttl_evict_expired :: "hu_tool_cache_ttl \<Rightarrow> int \<Rightarrow> hu_tool_cache_ttl \<times> nat" where
  "hu_tool_cache_ttl_evict_expired cache now =
     (let (es, n) = sweep now 0 (tt_entries cache) 0 in (cache\<lparr>tt_entries := es\<rparr>, n))"

definition oldest :: "ttl_entry list \<Rightarrow> nat" where
  "oldest es = foldl (\<lambda>lru i. if te_created_at (es ! i) < te_created_at (es ! lru) then i else lru) 0 [1 ..< length es]"

definition make_room :: "hu_tool_cache_ttl \<Rightarrow> int \<Rightarrow> hu_tool_cache_ttl" where
  "make_room cache now =
     (if length (tt_entries cache) < HU_TOOL_CACHE_TTL_MAX_ENTRIES then cache
      else
        let cache = fst (hu_tool_cache_ttl_evict_expired cache now) in
        if length (tt_entries cache) < HU_TOOL_CACHE_TTL_MAX_ENTRIES then cache
        else cache\<lparr>tt_entries := swap_remove (oldest (tt_entries cache)) (tt_entries cache)\<rparr>)"

definition hu_tool_cache_ttl_put :: "hu_tool_cache_ttl \<Rightarrow> 64 word \<Rightarrow> string \<Rightarrow> nat \<Rightarrow> int \<Rightarrow> int \<Rightarrow> hu_tool_cache_ttl" where
  "hu_tool_cache_ttl_put cache key result result_len ttl_seconds now =
     (let expires = (if ttl_seconds > 0 then now + ttl_seconds else 0) in
      case key_index key (tt_entries cache) of
        Some i \<Rightarrow>
          cache\<lparr>tt_entries := (tt_entries cache)
            [i := (tt_entries cache ! i)\<lparr>te_result := hu_strndup result result_len, te_result_len := result_len,
                                         te_created_at := now, te_expires_at := expires\<rparr>]\<rparr>
      | None \<Rightarrow>
          let cache = make_room cache now in
          cache\<lparr>tt_entries := tt_entries cache @
            [\<lparr>te_key_hash = key, te_result = hu_strndup result result_len, te_result_len = result_len,
              te_created_at = now, te_expires_at = expires, te_hit_count = 0\<rparr>]\<rparr>)"

section \<open>What is kept, and how long\<close>

definition nm_has :: "string \<Rightarrow> string \<Rightarrow> bool" where
  "nm_has tool_name sub \<longleftrightarrow> tool_name \<noteq> [] \<and> c_contains (map to_lower tool_name) (map to_lower sub)"

definition nm_prefix_ci :: "string \<Rightarrow> string \<Rightarrow> bool" where
  "nm_prefix_ci tool_name pre \<longleftrightarrow> starts_with (map to_lower pre) (map to_lower tool_name)"

definition hu_tool_cache_classify :: "string \<Rightarrow> hu_tool_cacheability" where
  "hu_tool_cache_classify tool_name =
     (let pre = list_ex (nm_prefix_ci tool_name); has = list_ex (nm_has tool_name) in
      if tool_name = [] then HU_TOOL_CACHE_SHORT
      else if pre [''send_'', ''delete_'', ''write_'', ''run_'', ''create_'', ''update_''] \<or> has [''exec'', ''shell'', ''spawn'']
      then HU_TOOL_CACHE_NEVER
      else if has [''weather'', ''time'', ''price'', ''status''] then HU_TOOL_CACHE_SHORT
      else if has [''get_config''] \<or> pre [''list_''] \<or> has [''schema''] \<or> pre [''describe_''] \<or> has [''help''] then HU_TOOL_CACHE_LONG
      else if pre [''search_'', ''lookup_'', ''get_''] \<or> tool_name = ''web_search'' then HU_TOOL_CACHE_MEDIUM
      else HU_TOOL_CACHE_SHORT)"

definition hu_tool_cache_ttl_default_for :: "string \<Rightarrow> int" where
  "hu_tool_cache_ttl_default_for tool_name =
     (if tool_name = [] then 0
      else case hu_tool_cache_classify tool_name of
             HU_TOOL_CACHE_NEVER \<Rightarrow> 0 | HU_TOOL_CACHE_SHORT \<Rightarrow> 60 | HU_TOOL_CACHE_MEDIUM \<Rightarrow> 300 | HU_TOOL_CACHE_LONG \<Rightarrow> 3600)"

text \<open>Tools that change things and are not on the list are taken for ones whose results can be kept.\<close>

lemma side_effects_cached:
  "map hu_tool_cache_classify [''git'', ''message''] = replicate 2 HU_TOOL_CACHE_SHORT"
  by code_simp

section \<open>A turn and the cache\<close>

text \<open>What the cache knows about a call of a message, and what a result that was not one of its own leaves in it.\<close>

definition ttl_lookup :: "hu_tool_cache_ttl \<Rightarrow> tool_call \<Rightarrow> int \<Rightarrow> hu_tool_cache_ttl \<times> hu_tool_result option" where
  "ttl_lookup cache c now =
     (if hu_tool_cache_classify (tc_name c) = HU_TOOL_CACHE_NEVER then (cache, None)
      else
        let (cache, found) = hu_tool_cache_ttl_get cache (hu_tool_cache_ttl_key (tc_name c) (tc_arguments c)) now in
        (cache,
         case found of
           None \<Rightarrow> None
         | Some (s, n) \<Rightarrow>
             if n > 0 then Some (tool_result_zero\<lparr>rs_success := True, rs_output := Some (hu_strndup s n), rs_output_len := n\<rparr>) else None))"

definition ttl_remember :: "hu_tool_cache_ttl \<Rightarrow> tool_call \<Rightarrow> hu_tool_result \<Rightarrow> int \<Rightarrow> hu_tool_cache_ttl" where
  "ttl_remember cache c r now =
     (case rs_output r of
        None \<Rightarrow> cache
      | Some out \<Rightarrow>
          let ttl = hu_tool_cache_ttl_default_for (take 63 (tc_name c)) in
          if rs_success r \<and> rs_output_len r > 0 \<and> hu_tool_cache_classify (tc_name c) \<noteq> HU_TOOL_CACHE_NEVER \<and> ttl > 0
          then hu_tool_cache_ttl_put cache (hu_tool_cache_ttl_key (tc_name c) (tc_arguments c)) out (rs_output_len r) ttl now
          else cache)"

end
