(* ===== verification/HuToolCacheSpec.thy ===== *)
theory HuToolCacheSpec
  imports HuToolCache "HOL-Library.Multiset"
begin

text \<open>
  What the cache of \<^verbatim>\<open>src/tools/cache_ttl.c\<close> owes the agent: an answer is what was put last for the key and has not
  expired, there are never more than 64 entries, and as long as no more than 64 keys are in use nothing is lost.
\<close>

section \<open>Taking entries out\<close>

lemma mset_swap_remove: "i < length es \<Longrightarrow> mset (swap_remove i es) = mset es - {#es ! i#}"
proof -
  assume i: "i < length es"
  then have ne: "es[i := last es] \<noteq> []" by auto
  have "last (es[i := last es]) = last es" using i ne by (cases "es = []") (simp_all add: last_conv_nth nth_list_update)
  then have "mset (es[i := last es]) = add_mset (last es) (mset (swap_remove i es))"
    unfolding swap_remove_def using append_butlast_last_id [OF ne] by (metis mset_append mset.simps add_mset_add_single)
  moreover have "mset (es[i := last es]) = add_mset (last es) (mset es - {#es ! i#})" using i by (simp add: mset_update)
  ultimately show ?thesis by simp
qed

lemma length_swap_remove: "length (swap_remove i es) = length es - 1"
  by (simp add: swap_remove_def)

lemma nth_swap_remove: "j < i \<Longrightarrow> i < length es \<Longrightarrow> swap_remove i es ! j = es ! j"
  by (simp add: swap_remove_def nth_butlast)

lemma sweep_spec:
  "\<forall>j < i. j < length es \<longrightarrow> \<not> ttl_expired now (es ! j) \<Longrightarrow> sweep now i es n = (es', n') \<Longrightarrow>
   mset es' = filter_mset (\<lambda>e. \<not> ttl_expired now e) (mset es)"
proof (induction now i es n rule: sweep.induct)
  case (1 now i es n)
  show ?case
  proof (cases "i \<ge> length es")
    case True
    then have "\<forall>e \<in> set es. \<not> ttl_expired now e" using 1(3) by (auto simp: in_set_conv_nth)
    then have "filter_mset (\<lambda>e. \<not> ttl_expired now e) (mset es) = mset es" by (simp add: filter_mset_eq_conv)
    moreover have "es' = es" using 1(4) True by (simp add: sweep.simps [of now i es n])
    ultimately show ?thesis by simp
  next
    case i: False
    show ?thesis
    proof (cases "ttl_expired now (es ! i)")
      case True
      have step: "sweep now i (swap_remove i es) (n + 1) = (es', n')" using 1(4) i True by (simp add: sweep.simps [of now i es n])
      have pre: "\<forall>j < i. j < length (swap_remove i es) \<longrightarrow> \<not> ttl_expired now (swap_remove i es ! j)"
        using 1(3) i by (auto simp: nth_swap_remove length_swap_remove)
      have "mset es' = filter_mset (\<lambda>e. \<not> ttl_expired now e) (mset (swap_remove i es))"
        using 1(1) [OF i True pre step] .
      then show ?thesis using i True by (simp add: mset_swap_remove)
    next
      case False
      have step: "sweep now (i + 1) es n = (es', n')" using 1(4) i False by (simp add: sweep.simps [of now i es n])
      have pre: "\<forall>j < i + 1. j < length es \<longrightarrow> \<not> ttl_expired now (es ! j)" using 1(3) False by (auto simp: less_Suc_eq)
      show ?thesis using 1(2) [OF i False pre step] .
    qed
  qed
qed

lemma oldest_less: "es \<noteq> [] \<Longrightarrow> oldest es < length es"
proof -
  assume "es \<noteq> []"
  have "foldl (\<lambda>lru i. if te_created_at (es ! i) < te_created_at (es ! lru) then i else lru) m is < length es"
    if "m < length es" "\<forall>i \<in> set is. i < length es" for m "is"
    using that by (induction "is" arbitrary: m) auto
  with \<open>es \<noteq> []\<close> show ?thesis unfolding oldest_def by simp
qed

lemma key_index_Some: "key_index key es = Some i \<Longrightarrow> i < length es \<and> te_key_hash (es ! i) = key"
  by (induction es arbitrary: i) (auto split: if_splits)

lemma key_index_None: "key_index key es = None \<longleftrightarrow> key \<notin> te_key_hash ` set es"
  by (induction es) auto

section \<open>What an entry says\<close>

text \<open>The key, and what is known under it: text, length and end of life.\<close>

definition says :: "ttl_entry \<Rightarrow> 64 word \<times> string \<times> nat \<times> int" where
  "says e = (te_key_hash e, te_result e, te_result_len e, te_expires_at e)"

definition gone :: "int \<Rightarrow> string \<times> nat \<times> int \<Rightarrow> bool" where
  "gone now v \<longleftrightarrow> snd (snd v) > 0 \<and> snd (snd v) \<le> now"

lemma expired_says: "ttl_expired now e = gone now (snd (says e))"
  by (simp add: ttl_expired_def gone_def says_def)

definition told :: "ttl_entry list \<Rightarrow> (64 word \<times> string \<times> nat \<times> int) multiset" where
  "told es = image_mset says (mset es)"

text \<open>Nothing is told but what \<open>l\<close> has, and no key twice.\<close>

definition sound :: "ttl_entry list \<Rightarrow> (64 word \<Rightarrow> (string \<times> nat \<times> int) option) \<Rightarrow> bool" where
  "sound es l \<longleftrightarrow> distinct (map te_key_hash es) \<and> length es \<le> HU_TOOL_CACHE_TTL_MAX_ENTRIES \<and> (\<forall>e \<in> set es. l (te_key_hash e) = Some (snd (says e)))"

definition complete :: "int \<Rightarrow> ttl_entry list \<Rightarrow> (64 word \<Rightarrow> (string \<times> nat \<times> int) option) \<Rightarrow> bool" where
  "complete now es l \<longleftrightarrow> (\<forall>k v. l k = Some v \<and> \<not> gone now v \<longrightarrow> k \<in> te_key_hash ` set es)"

lemma distinct_count_le: "(\<And>k. count (mset xs) k \<le> 1) \<Longrightarrow> distinct xs"
proof (induction xs)
  case (Cons x xs)
  have "count (mset xs) x = 0" using Cons.prems [of x] by simp
  moreover have "count (mset xs) k \<le> 1" for k
    by (rule le_trans [OF _ Cons.prems [of k]]) simp
  ultimately show ?case using Cons.IH by (simp add: count_eq_zero_iff)
qed simp

lemma sound_subset:
  assumes "sound es l" "mset es' \<subseteq># mset es"
  shows "sound es' l"
proof -
  have "image_mset te_key_hash (mset es') \<subseteq># image_mset te_key_hash (mset es)" using assms(2) by (rule image_mset_subseteq_mono)
  then have sub: "mset (map te_key_hash es') \<subseteq># mset (map te_key_hash es)" by simp
  have "distinct (map te_key_hash es')"
  proof (rule distinct_count_le)
    fix k
    have "count (mset (map te_key_hash es')) k \<le> count (mset (map te_key_hash es)) k" using sub by (rule mset_subset_eq_count)
    moreover have "count (mset (map te_key_hash es)) k \<le> 1"
      using assms(1) unfolding sound_def distinct_count_atmost_1 by (metis le_refl zero_le)
    ultimately show "count (mset (map te_key_hash es')) k \<le> 1" by linarith
  qed
  moreover have "length es' \<le> length es" using size_mset_mono [OF assms(2)] by simp
  moreover have "set es' \<subseteq> set es" using set_mset_mono [OF assms(2)] by simp
  ultimately show ?thesis using assms(1) by (auto simp: sound_def)
qed

lemma sound_update:
  assumes "sound es l" "i < length es" "te_key_hash e = te_key_hash (es ! i)"
  shows "sound (es[i := e]) (l(te_key_hash e \<mapsto> snd (says e)))"
proof -
  have same: "map te_key_hash (es[i := e]) = map te_key_hash es" using assms(2,3) by (simp add: map_update list_update_same_conv)
  have "l' (te_key_hash x) = Some (snd (says x))" if x: "x \<in> set (es[i := e])" and l': "l' = l(te_key_hash e \<mapsto> snd (says e))" for x l'
  proof (cases "te_key_hash x = te_key_hash e")
    case True
    obtain j where j: "j < length es" "x = es[i := e] ! j" using x by (auto simp: in_set_conv_nth)
    have "te_key_hash (es[i := e] ! j) = te_key_hash (es ! j)" using assms(2,3) j(1) by (cases "i = j") auto
    then have "map te_key_hash es ! j = map te_key_hash es ! i" using True assms(2,3) j by simp
    then have "j = i" using assms(1,2) j(1) using nth_eq_iff_index_eq [of "map te_key_hash es" j i] by (simp add: sound_def)
    then show ?thesis using j assms(2) l' by simp
  next
    case False
    then have "x \<in> set es" using x set_update_subset_insert [of es i e] by auto
    then show ?thesis using False assms(1) l' by (auto simp: sound_def)
  qed
  then show ?thesis using assms(1) same by (simp add: sound_def)
qed

section \<open>Every operation\<close>

lemma get_step:
  assumes "sound (tt_entries cache) l" "hu_tool_cache_ttl_get cache key now = (cache', r)"
  shows "sound (tt_entries cache') l"
    "r = Some v \<Longrightarrow> \<exists>x. l key = Some (fst v, snd v, x) \<and> \<not> gone now (fst v, snd v, x)"
    "complete now (tt_entries cache) l \<Longrightarrow> complete now (tt_entries cache') l"
    "complete now (tt_entries cache) l \<Longrightarrow> r = None \<Longrightarrow> l key = Some v' \<Longrightarrow> gone now v'"
proof -
  let ?es = "tt_entries cache"
  have "sound (tt_entries cache') l \<and> (\<forall>v. r = Some v \<longrightarrow> (\<exists>x. l key = Some (fst v, snd v, x) \<and> \<not> gone now (fst v, snd v, x))) \<and>
      (complete now ?es l \<longrightarrow> complete now (tt_entries cache') l \<and> (r = None \<longrightarrow> (\<forall>v'. l key = Some v' \<longrightarrow> gone now v')))"
  proof (cases "key_index key ?es")
    case None
    then have "gone now v" if "complete now ?es l" "l key = Some v" for v
      using that unfolding complete_def key_index_None by blast
    moreover have "tt_entries cache' = ?es" "r = None" using None assms(2) by (auto simp: hu_tool_cache_ttl_get_def)
    ultimately show ?thesis using assms(1) by simp
  next
    case (Some i)
    let ?e = "?es ! i"
    have i: "i < length ?es" "te_key_hash ?e = key" using key_index_Some [OF Some] by auto
    then have e: "l key = Some (snd (says ?e))" using assms(1) by (auto simp: sound_def)
    show ?thesis
    proof (cases "ttl_expired now ?e")
      case True
      have es': "tt_entries cache' = swap_remove i ?es" "r = None"
        using assms(2) Some True by (auto simp: hu_tool_cache_ttl_get_def Let_def)
      have "mset (swap_remove i ?es) \<subseteq># mset ?es" unfolding mset_swap_remove [OF i(1)] by (rule diff_subset_eq_self)
      then have "sound (swap_remove i ?es) l" by (rule sound_subset [OF assms(1)])
      moreover have "complete now (swap_remove i ?es) l" if "complete now ?es l"
      proof -
        have "k \<in> te_key_hash ` set (swap_remove i ?es)" if kv: "l k = Some v" "\<not> gone now v" for k v
        proof -
          obtain x where x: "x \<in> set ?es" "te_key_hash x = k" using \<open>complete now ?es l\<close> kv unfolding complete_def by blast
          then have "x \<noteq> ?e" using kv e i True by (auto simp: expired_says)
          moreover have "x \<in># mset ?es" using x by simp
          ultimately have "x \<in># mset ?es - {#?e#}" by (simp add: in_diff_count)
          then have "x \<in># mset (swap_remove i ?es)" by (simp only: mset_swap_remove [OF i(1)])
          then show ?thesis using x by auto
        qed
        then show ?thesis by (simp add: complete_def)
      qed
      ultimately show ?thesis using es' e True by (auto simp: expired_says)
    next
      case False
      let ?e' = "?e\<lparr>te_hit_count := (te_hit_count ?e + 1) mod 2 ^ 32\<rparr>"
      have says: "says ?e' = says ?e" "te_key_hash ?e' = te_key_hash ?e" by (simp_all add: says_def)
      have es': "tt_entries cache' = ?es[i := ?e']" "r = Some (te_result ?e, te_result_len ?e)"
        using assms(2) Some False by (auto simp: hu_tool_cache_ttl_get_def Let_def)
      have "l(te_key_hash ?e' \<mapsto> snd (says ?e')) = l" using e i says by (simp add: map_upd_triv)
      then have "sound (?es[i := ?e']) l" using sound_update [OF assms(1) i(1) says(2)] by simp
      moreover have "te_key_hash ` set (?es[i := ?e']) = te_key_hash ` set ?es"
        using i(1) says(2) by (metis list_update_id map_update set_map)
      ultimately show ?thesis using es' e False by (auto simp: complete_def expired_says) (auto simp: says_def)
    qed
  qed
  then show "sound (tt_entries cache') l"
    "r = Some v \<Longrightarrow> \<exists>x. l key = Some (fst v, snd v, x) \<and> \<not> gone now (fst v, snd v, x)"
    "complete now (tt_entries cache) l \<Longrightarrow> complete now (tt_entries cache') l"
    "complete now (tt_entries cache) l \<Longrightarrow> r = None \<Longrightarrow> l key = Some v' \<Longrightarrow> gone now v'" by blast+
qed


lemma sweep_step:
  assumes "sound (tt_entries cache) l"
  shows "sound (tt_entries (fst (hu_tool_cache_ttl_evict_expired cache now))) l"
    "complete now (tt_entries cache) l \<Longrightarrow> complete now (tt_entries (fst (hu_tool_cache_ttl_evict_expired cache now))) l"
proof -
  obtain es n where sw: "sweep now 0 (tt_entries cache) 0 = (es, n)" by fastforce
  then have es: "tt_entries (fst (hu_tool_cache_ttl_evict_expired cache now)) = es"
    by (simp add: hu_tool_cache_ttl_evict_expired_def)
  have m: "mset es = filter_mset (\<lambda>e. \<not> ttl_expired now e) (mset (tt_entries cache))" using sweep_spec [OF _ sw] by simp
  then have set: "set es = {e \<in> set (tt_entries cache). \<not> ttl_expired now e}" by (metis set_mset_filter set_mset_mset)
  have "mset es \<subseteq># mset (tt_entries cache)" unfolding m by (rule multiset_filter_subset)
  then show "sound (tt_entries (fst (hu_tool_cache_ttl_evict_expired cache now))) l"
    unfolding es by (rule sound_subset [OF assms])
  assume c: "complete now (tt_entries cache) l"
  have "k \<in> te_key_hash ` set es" if kv: "l k = Some v" "\<not> gone now v" for k v
  proof -
    obtain x where x: "x \<in> set (tt_entries cache)" "te_key_hash x = k" using c kv unfolding complete_def by blast
    then have "snd (says x) = v" using assms kv by (auto simp: sound_def)
    then have "\<not> ttl_expired now x" using kv by (simp add: expired_says)
    with x show ?thesis unfolding set by blast
  qed
  then show "complete now (tt_entries (fst (hu_tool_cache_ttl_evict_expired cache now))) l"
    unfolding es complete_def by blast
qed

lemma make_room_step:
  assumes "sound (tt_entries cache) l"
  shows "sound (tt_entries (make_room cache now)) l \<and> length (tt_entries (make_room cache now)) < HU_TOOL_CACHE_TTL_MAX_ENTRIES \<and>
    set (tt_entries (make_room cache now)) \<subseteq> set (tt_entries cache)"
proof (cases "length (tt_entries cache) < HU_TOOL_CACHE_TTL_MAX_ENTRIES")
  case False
  let ?c = "fst (hu_tool_cache_ttl_evict_expired cache now)"
  let ?es = "tt_entries ?c"
  obtain es n where sw: "sweep now 0 (tt_entries cache) 0 = (es, n)" by fastforce
  then have "?es = es" by (simp add: hu_tool_cache_ttl_evict_expired_def)
  moreover have "mset es \<subseteq># mset (tt_entries cache)" using sweep_spec [OF _ sw] multiset_filter_subset by simp
  ultimately have sub: "set ?es \<subseteq> set (tt_entries cache)" using set_mset_mono by fastforce
  have s: "sound ?es l" by (rule sweep_step(1) [OF assms])
  show ?thesis
  proof (cases "length ?es < HU_TOOL_CACHE_TTL_MAX_ENTRIES")
    case True
    with False s sub show ?thesis by (simp add: make_room_def Let_def)
  next
    case full: False
    then have "?es \<noteq> []" by (auto simp: HU_TOOL_CACHE_TTL_MAX_ENTRIES_def)
    then have o: "oldest ?es < length ?es" by (rule oldest_less)
    have m: "mset (swap_remove (oldest ?es) ?es) \<subseteq># mset ?es" unfolding mset_swap_remove [OF o] by (rule diff_subset_eq_self)
    have "length (swap_remove (oldest ?es) ?es) < HU_TOOL_CACHE_TTL_MAX_ENTRIES"
      using s o by (auto simp: length_swap_remove sound_def)
    moreover have "set (swap_remove (oldest ?es) ?es) \<subseteq> set ?es" using set_mset_mono [OF m] by simp
    ultimately show ?thesis using False full sub sound_subset [OF s m] by (auto simp: make_room_def Let_def)
  qed
qed (use assms in \<open>simp add: make_room_def\<close>)

lemma put_step:
  assumes "sound (tt_entries cache) l"
  shows "sound (tt_entries (hu_tool_cache_ttl_put cache key s n ttl now)) (l(key \<mapsto> (hu_strndup s n, n, if ttl > 0 then now + ttl else 0)))"
proof (cases "key_index key (tt_entries cache)")
  case (Some i)
  let ?e = "(tt_entries cache ! i)\<lparr>te_result := hu_strndup s n, te_result_len := n, te_created_at := now, te_expires_at := (if ttl > 0 then now + ttl else 0)\<rparr>"
  have i: "i < length (tt_entries cache)" "te_key_hash (tt_entries cache ! i) = key" using key_index_Some [OF Some] by auto
  have "sound ((tt_entries cache)[i := ?e]) (l(te_key_hash ?e \<mapsto> snd (says ?e)))"
    by (rule sound_update [OF assms(1) i(1)]) simp
  then show ?thesis using Some i(2) by (simp add: hu_tool_cache_ttl_put_def Let_def says_def)
next
  case None
  let ?e = "\<lparr>te_key_hash = key, te_result = hu_strndup s n, te_result_len = n, te_created_at = now,
    te_expires_at = (if ttl > 0 then now + ttl else 0), te_hit_count = 0\<rparr>"
  note room = make_room_step [OF assms(1), of now]
  have new: "key \<notin> te_key_hash ` set (tt_entries (make_room cache now))" using None room unfolding key_index_None by blast
  have "te_key_hash e \<noteq> key" if "e \<in> set (tt_entries (make_room cache now))" for e using new that by auto
  then have "sound (tt_entries (make_room cache now) @ [?e]) (l(key \<mapsto> (hu_strndup s n, n, if ttl > 0 then now + ttl else 0)))"
    using room new by (auto simp: sound_def says_def)
  then show ?thesis using None by (simp add: hu_tool_cache_ttl_put_def Let_def)
qed

lemma put_complete:
  assumes "complete now (tt_entries cache) l" "length (tt_entries cache) < HU_TOOL_CACHE_TTL_MAX_ENTRIES \<or> key \<in> te_key_hash ` set (tt_entries cache)"
  shows "complete now (tt_entries (hu_tool_cache_ttl_put cache key s n ttl now)) (l(key \<mapsto> v))"
proof -
  have "te_key_hash ` set (tt_entries (hu_tool_cache_ttl_put cache key s n ttl now)) = insert key (te_key_hash ` set (tt_entries cache))"
  proof (cases "key_index key (tt_entries cache)")
    case (Some i)
    let ?e = "(tt_entries cache ! i)\<lparr>te_result := hu_strndup s n, te_result_len := n, te_created_at := now, te_expires_at := (if ttl > 0 then now + ttl else 0)\<rparr>"
    have i: "i < length (tt_entries cache)" "te_key_hash (tt_entries cache ! i) = key" using key_index_Some [OF Some] by auto
    have "map te_key_hash ((tt_entries cache)[i := ?e]) = map te_key_hash (tt_entries cache)"
      using i by (simp add: map_update list_update_same_conv)
    then have "te_key_hash ` set ((tt_entries cache)[i := ?e]) = te_key_hash ` set (tt_entries cache)" by (metis set_map)
    moreover have "key \<in> te_key_hash ` set (tt_entries cache)" using i by force
    ultimately show ?thesis using Some by (auto simp: hu_tool_cache_ttl_put_def Let_def)
  next
    case None
    then have "key \<notin> te_key_hash ` set (tt_entries cache)" by (simp add: key_index_None)
    with assms(2) have "make_room cache now = cache" by (simp add: make_room_def)
    with None show ?thesis by (simp add: hu_tool_cache_ttl_put_def)
  qed
  then show ?thesis using assms(1) unfolding complete_def by (metis fun_upd_apply insert_iff)
qed

section \<open>Runs\<close>

datatype ttl_op = Get "64 word" | Put "64 word" string nat int | Sweep

text \<open>A call comes some seconds after the one before it; the state of a run has the time of the last call.\<close>

type_synonym ttl_call = "nat \<times> ttl_op"

definition ttl_call :: "ttl_call \<Rightarrow> hu_tool_cache_ttl \<times> int \<Rightarrow> ((hu_tool_cache_ttl \<times> int) \<times> (string \<times> nat) option) outcome" where
  "ttl_call c s =
     (let now = snd s + int (fst c); cache = fst s in
      Ret (case snd c of
             Get k \<Rightarrow> (let (cache, r) = hu_tool_cache_ttl_get cache k now in ((cache, now), r))
           | Put k s n ttl \<Rightarrow> ((hu_tool_cache_ttl_put cache k s n ttl now, now), None)
           | Sweep \<Rightarrow> ((fst (hu_tool_cache_ttl_evict_expired cache now), now), None)))"

text \<open>The specification: a map of what was put last, with the time.\<close>

type_synonym ttl_map = "(64 word \<Rightarrow> (string \<times> nat \<times> int) option) \<times> int"

definition ttl_spec :: "ttl_call \<Rightarrow> ttl_map \<Rightarrow> ttl_map \<times> (string \<times> nat) option" where
  "ttl_spec c l =
     (let now = snd l + int (fst c); m = fst l in
      case snd c of
        Get k \<Rightarrow> ((m, now), case m k of None \<Rightarrow> None | Some (s, n, x) \<Rightarrow> if gone now (s, n, x) then None else Some (s, n))
      | Put k s n ttl \<Rightarrow> ((m(k \<mapsto> (hu_strndup s n, n, if ttl > 0 then now + ttl else 0)), now), None)
      | Sweep \<Rightarrow> ((m, now), None))"

definition ttl_sound :: "hu_tool_cache_ttl \<times> int \<Rightarrow> ttl_map \<Rightarrow> bool" where
  "ttl_sound s l \<longleftrightarrow> snd s = snd l \<and> sound (tt_entries (fst s)) (fst l)"

lemma complete_later: "complete now es l \<Longrightarrow> complete (now + int d) es l"
  by (force simp: complete_def gone_def)

lemma call_sound:
  assumes "ttl_sound s l"
  shows "\<exists>s' a. ttl_call c s = Ret (s', a) \<and> ttl_sound s' (fst (ttl_spec c l)) \<and> (a = None \<or> a = snd (ttl_spec c l)) \<and>
    (complete (snd s) (tt_entries (fst s)) (fst l) \<and>
       (\<forall>k t n ttl. snd c = Put k t n ttl \<longrightarrow> length (tt_entries (fst s)) < HU_TOOL_CACHE_TTL_MAX_ENTRIES \<or> k \<in> te_key_hash ` set (tt_entries (fst s))) \<longrightarrow>
     a = snd (ttl_spec c l) \<and> complete (snd s') (tt_entries (fst s')) (fst (fst (ttl_spec c l))))"
proof -
  let ?now = "snd s + int (fst c)"
  have s: "sound (tt_entries (fst s)) (fst l)" "snd l = snd s" using assms by (auto simp: ttl_sound_def)
  have later: "complete ?now (tt_entries (fst s)) (fst l)" if "complete (snd s) (tt_entries (fst s)) (fst l)"
    using complete_later [OF that] .
  show ?thesis
  proof (cases "snd c")
    case (Get k)
    obtain cache' r where r: "hu_tool_cache_ttl_get (fst s) k ?now = (cache', r)" by fastforce
    note g = get_step [OF s(1) r]
    have hit: "r = (case fst l k of None \<Rightarrow> None | Some (s, n, x) \<Rightarrow> if gone ?now (s, n, x) then None else Some (s, n))" if "r \<noteq> None"
      using g(2) that by fastforce
    have miss: "(case fst l k of None \<Rightarrow> None | Some (s, n, x) \<Rightarrow> if gone ?now (s, n, x) then None else Some (s, n)) = None"
      if "complete (snd s) (tt_entries (fst s)) (fst l)" "r = None"
      using g(4) [OF later [OF that(1)] that(2)] by (auto split: option.split)
    show ?thesis using Get r g(1) hit miss g(3) later s(2)
      by (cases "r = None") (auto simp: ttl_call_def ttl_spec_def ttl_sound_def Let_def)
  next
    case (Put k t n ttl)
    show ?thesis using Put put_step [OF s(1)] put_complete [OF later] s(2)
      by (auto simp: ttl_call_def ttl_spec_def ttl_sound_def Let_def)
  next
    case Sweep
    show ?thesis using Sweep sweep_step [OF s(1), of ?now] later s(2)
      by (auto simp: ttl_call_def ttl_spec_def ttl_sound_def Let_def)
  qed
qed

text \<open>
  C27: whatever is put into the cache, asked of it and swept, whenever, it has at most 64 entries, and every answer is the
  result that was put last under its key and has not expired, or none.
\<close>

theorem ttl_cache_never_stale:
  "\<exists>cache now as. run_calls ttl_call cs (hu_tool_cache_ttl_init, 0) = Ret ((cache, now), as) \<and>
     length (tt_entries cache) \<le> HU_TOOL_CACHE_TTL_MAX_ENTRIES \<and>
     list_all2 (\<lambda>a b. a \<in> {None, b}) as (snd (run_spec ttl_spec cs (Map.empty, 0)))"
proof -
  have "\<exists>s' as. run_calls ttl_call cs s = Ret (s', as) \<and> ttl_sound s' (fst (run_spec ttl_spec cs l)) \<and>
      list_all2 (\<lambda>a b. a \<in> {None, b}) as (snd (run_spec ttl_spec cs l))" if "ttl_sound s l" for s l
    using that
  proof (induction cs arbitrary: s l)
    case (Cons c cs)
    obtain s1 a where s1: "ttl_call c s = Ret (s1, a)" "ttl_sound s1 (fst (ttl_spec c l))" "a = None \<or> a = snd (ttl_spec c l)"
      using call_sound [OF Cons.prems, of c] by blast
    from Cons.IH [OF s1(2)] s1(1,3) show ?case by (auto split: prod.split)
  qed simp
  moreover have "ttl_sound (hu_tool_cache_ttl_init, 0) (Map.empty, 0)" by (simp add: ttl_sound_def hu_tool_cache_ttl_init_def sound_def)
  ultimately show ?thesis by (fastforce simp: ttl_sound_def sound_def)
qed

text \<open>With the keys of a set of at most 64 nothing is lost.\<close>

definition ttl_rel :: "64 word set \<Rightarrow> hu_tool_cache_ttl \<times> int \<Rightarrow> ttl_map \<Rightarrow> bool" where
  "ttl_rel K s l \<longleftrightarrow> ttl_sound s l \<and> complete (snd s) (tt_entries (fst s)) (fst l) \<and> dom (fst l) \<subseteq> K \<and> finite K \<and> card K \<le> HU_TOOL_CACHE_TTL_MAX_ENTRIES"

fun puts_in :: "64 word set \<Rightarrow> ttl_call \<Rightarrow> bool" where
  "puts_in K (d, Put k s n ttl) = (k \<in> K)"
| "puts_in K _ = True"

interpretation ttl: lasting_contract ttl_call ttl_spec "puts_in K" "ttl_rel K" for K
proof
  fix s l c
  assume rel: "ttl_rel K s l" and c: "puts_in K c"
  have sound: "ttl_sound s l" using rel by (simp add: ttl_rel_def)
  let ?keys = "te_key_hash ` set (tt_entries (fst s))"
  have sub: "?keys \<subseteq> K" using rel by (auto simp: ttl_rel_def ttl_sound_def sound_def)
  have room: "length (tt_entries (fst s)) < HU_TOOL_CACHE_TTL_MAX_ENTRIES \<or> k \<in> ?keys" if "k \<in> K" for k
  proof (cases "k \<in> ?keys")
    case False
    then have "?keys \<subset> K" using sub that by blast
    then have "card ?keys < card K" using rel by (auto simp: ttl_rel_def intro: psubset_card_mono)
    moreover have "card ?keys = length (tt_entries (fst s))"
      using sound distinct_card [of "map te_key_hash (tt_entries (fst s))"] by (simp add: ttl_sound_def sound_def)
    ultimately show ?thesis using rel by (simp add: ttl_rel_def)
  qed simp
  have "dom (fst (fst (ttl_spec c l))) \<subseteq> K"
    using rel c by (cases c; cases "snd c") (auto simp: ttl_spec_def ttl_rel_def Let_def)
  moreover have "\<forall>k t n ttl. snd c = Put k t n ttl \<longrightarrow> length (tt_entries (fst s)) < HU_TOOL_CACHE_TTL_MAX_ENTRIES \<or> k \<in> ?keys"
  proof (intro allI impI)
    fix k t n ttl
    assume "snd c = Put k t n ttl"
    then have "k \<in> K" using c by (cases c) simp
    then show "length (tt_entries (fst s)) < HU_TOOL_CACHE_TTL_MAX_ENTRIES \<or> k \<in> ?keys" by (rule room)
  qed
  ultimately show "\<exists>s'. ttl_call c s = Ret (s', snd (ttl_spec c l)) \<and> ttl_rel K s' (fst (ttl_spec c l))"
    using call_sound [OF sound, of c] rel by (auto simp: ttl_rel_def)
qed

text \<open>
  C28: as long as results are kept under at most 64 keys the cache forgets nothing: every answer is that of a map of the
  results put last, until they expire.
\<close>

theorem ttl_cache_exact:
  assumes "finite K" "card K \<le> HU_TOOL_CACHE_TTL_MAX_ENTRIES" "list_all (puts_in K) cs"
  shows "\<exists>s. run_calls ttl_call cs (hu_tool_cache_ttl_init, 0) = Ret (s, snd (run_spec ttl_spec cs (Map.empty, 0)))"
proof -
  have "ttl_rel K (hu_tool_cache_ttl_init, 0) (Map.empty, 0)"
    using assms(1,2) by (simp add: ttl_rel_def ttl_sound_def hu_tool_cache_ttl_init_def sound_def complete_def)
  from ttl.run_lasts [OF this assms(3)] show ?thesis by blast
qed

lemma ttl_cache_exact_witness:
  "\<exists>s. run_calls ttl_call [(0, Put 1 ''a'' 1 60), (30, Put 2 ''b'' 1 60), (29, Get 1), (1, Get 1), (0, Get 2)] (hu_tool_cache_ttl_init, 0) =
     Ret (s, [None, None, Some (''a'', 1), None, Some (''b'', 1)])"
proof -
  have "snd (run_spec ttl_spec [(0, Put 1 ''a'' 1 60), (30, Put 2 ''b'' 1 60), (29, Get 1), (1, Get 1), (0, Get 2)] (Map.empty, 0)) =
      [None, None, Some (''a'', 1), None, Some (''b'', 1)]"
    by (simp add: ttl_spec_def gone_def hu_strndup_def cstr_def)
  moreover have "card {1 :: 64 word, 2} \<le> HU_TOOL_CACHE_TTL_MAX_ENTRIES" by (simp add: HU_TOOL_CACHE_TTL_MAX_ENTRIES_def)
  ultimately show ?thesis
    using ttl_cache_exact [of "{1, 2}" "[(0, Put 1 ''a'' 1 60), (30, Put 2 ''b'' 1 60), (29, Get 1), (1, Get 1), (0, Get 2)]"] by simp
qed

end
