(* ===== verification/HuHarmony.thy ===== *)
theory HuHarmony
  imports HuPrelude
begin

text \<open>
  \<^verbatim>\<open>src/util/harmony_filter.c\<close> and the code point boundaries of \<^verbatim>\<open>src/providers/mlx_stream_utf8.c\<close>: a filter that
  takes the channel markers of a model out of a text that arrives in pieces.

  The filter's state is the text it holds back.  The lemmas say that the pieces do not matter.
\<close>

section \<open>Markers\<close>

definition tag_char :: "char \<Rightarrow> bool" where
  "tag_char c \<longleftrightarrow> 97 \<le> cval c \<and> cval c \<le> 122 \<or> 65 \<le> cval c \<and> cval c \<le> 90 \<or> c = CHR ''_''"

definition HU_HARMONY_CHANNEL_VALUES :: "string list" where
  "HU_HARMONY_CHANNEL_VALUES = [''thought'', ''final'', ''analysis'', ''commentary'']"

text \<open>Both look at what follows \<open><|\<close> and give what is left after the marker.\<close>

definition match_closed_marker :: "string \<Rightarrow> string option" where
  "match_closed_marker s =
     (let r = dropWhile tag_char s in
      if takeWhile tag_char s \<noteq> [] \<and> take 2 r = ''|>'' then Some (drop 2 r) else None)"

definition drop_value :: "string \<Rightarrow> string" where
  "drop_value s =
     (case find (\<lambda>v. starts_with v s) HU_HARMONY_CHANNEL_VALUES of None \<Rightarrow> s | Some v \<Rightarrow> drop (length v) s)"

definition match_open_marker :: "string \<Rightarrow> string option" where
  "match_open_marker s =
     (let r = dropWhile tag_char s in
      if takeWhile tag_char s \<noteq> [] \<and> take 1 r = ''>'' then Some (drop_value (drop 1 r)) else None)"

definition after_marker :: "string \<Rightarrow> string option" where
  "after_marker s =
     (if take 2 s = ''<|'' then
        (case match_closed_marker (drop 2 s) of
           Some r \<Rightarrow> Some r
         | None \<Rightarrow> match_open_marker (drop 2 s))
      else None)"

lemma length_drop_value: "length (drop_value s) \<le> length s"
  by (simp add: drop_value_def split: option.split)

lemma after_marker_shorter: "after_marker s = Some r \<Longrightarrow> length r < length s"
proof -
  have "length (dropWhile tag_char t) \<le> length t" for t by (rule length_dropWhile_le)
  moreover have "length (drop_value (drop 1 t)) \<le> length t" for t using length_drop_value [of "drop 1 t"] by simp
  ultimately have le: "length (drop 2 (dropWhile tag_char t)) \<le> length t" "length (drop_value (drop 1 (dropWhile tag_char t))) \<le> length t" for t
    by (metis (no_types) diff_le_self le_trans length_drop) (metis (no_types, lifting) le_trans length_drop_value length_drop diff_le_self length_dropWhile_le)
  assume a: "after_marker s = Some r"
  then have two: "take 2 s = ''<|''" by (auto simp: after_marker_def split: if_splits)
  then have "length (take 2 s) = 2" by simp
  then have "length (drop 2 s) < length s" by (auto simp: min_def split: if_splits)
  moreover have "length r \<le> length (drop 2 s)"
    using a two le [of "drop 2 s"] by (auto simp: after_marker_def match_closed_marker_def match_open_marker_def Let_def split: if_splits option.splits)
  ultimately show ?thesis by simp
qed

function (sequential) strip_pass :: "string \<Rightarrow> string" where
  "strip_pass [] = []"
| "strip_pass (c # s) =
     (case after_marker (c # s) of Some r \<Rightarrow> strip_pass r | None \<Rightarrow> c # strip_pass s)"
  by pat_completeness auto
termination by (relation "measure length") (auto dest: after_marker_shorter)

section \<open>Code points\<close>

definition hu_mlx_utf8_codepoint_len :: "char \<Rightarrow> nat" where
  "hu_mlx_utf8_codepoint_len c =
     (let b = cval c in
      if b < 0x80 then 1 else if b div 0x20 = 6 then 2 else if b div 0x10 = 0xE then 3 else if b div 8 = 0x1E then 4 else 1)"

text \<open>The loop looks at up to \<open>k\<close> bytes back from \<open>i\<close>.\<close>

fun utf8_back :: "nat \<Rightarrow> nat \<Rightarrow> string \<Rightarrow> nat" where
  "utf8_back 0 i buf = length buf"
| "utf8_back (Suc k) i buf =
     (let pos = length buf - 1 - i; b = cval (buf ! pos) in
      if b < 0x80 then length buf
      else if b \<ge> 0xC0 then (if length buf - pos < hu_mlx_utf8_codepoint_len (buf ! pos) then pos else length buf)
      else utf8_back k (i + 1) buf)"

definition hu_mlx_utf8_safe_emit_len :: "string \<Rightarrow> nat" where
  "hu_mlx_utf8_safe_emit_len buf = (if buf = [] then 0 else utf8_back (min (length buf) 4) 0 buf)"

section \<open>The filter\<close>

definition HU_HARMONY_FILTER_INIT_CAP :: nat where "HU_HARMONY_FILTER_INIT_CAP = 256"
definition HU_HARMONY_FILTER_MAX_CAP :: nat where "HU_HARMONY_FILTER_MAX_CAP = 64 * 1024"
definition HU_HARMONY_LOOKAHEAD :: nat where "HU_HARMONY_LOOKAHEAD = 64"

record hu_harmony_filter =
  hf_buf :: string
  hf_cap :: nat

definition hu_harmony_filter_init :: hu_harmony_filter where
  "hu_harmony_filter_init = \<lparr>hf_buf = [], hf_cap = HU_HARMONY_FILTER_INIT_CAP\<rparr>"

function (sequential) double_until :: "nat \<Rightarrow> nat \<Rightarrow> nat" where
  "double_until needed c =
     (if needed \<le> c \<or> c = 0 \<or> c \<ge> HU_HARMONY_FILTER_MAX_CAP then c
      else double_until needed (min (2 * c) HU_HARMONY_FILTER_MAX_CAP))"
  by pat_completeness auto
termination by (relation "measure (\<lambda>(n, c). HU_HARMONY_FILTER_MAX_CAP - c)") auto

declare double_until.simps [simp del]

text \<open>The loop does not end when the capacity is already the largest and too small, which the check before it excludes.\<close>

definition harmony_ensure_cap :: "hu_harmony_filter \<Rightarrow> nat \<Rightarrow> hu_harmony_filter outcome" where
  "harmony_ensure_cap f needed =
     (if needed \<le> hf_cap f then Ret f
      else if needed > HU_HARMONY_FILTER_MAX_CAP then Err HU_ERR_OUT_OF_MEMORY
      else Ret (f\<lparr>hf_cap := double_until needed (hf_cap f)\<rparr>))"

text \<open>The place of the last \<open><\<close> among the last 64 bytes, or the length.\<close>

definition marker_boundary :: "string \<Rightarrow> nat" where
  "marker_boundary buf =
     (let rest = takeWhile (\<lambda>c. c \<noteq> CHR ''<'') (take HU_HARMONY_LOOKAHEAD (rev buf)) in
      if length rest < min (length buf) HU_HARMONY_LOOKAHEAD then length buf - length rest - 1 else length buf)"

definition safe_boundary :: "string \<Rightarrow> nat" where
  "safe_boundary buf = (if buf = [] then 0 else hu_mlx_utf8_safe_emit_len (take (marker_boundary buf) buf))"

definition hu_harmony_filter_push :: "hu_harmony_filter \<Rightarrow> string \<Rightarrow> (hu_harmony_filter \<times> string) outcome" where
  "hu_harmony_filter_push f bytes =
     obind (if bytes = [] then Ret f
            else obind (harmony_ensure_cap f (length (hf_buf f) + length bytes)) (\<lambda>f. Ret (f\<lparr>hf_buf := hf_buf f @ bytes\<rparr>))) (\<lambda>f.
     let boundary = safe_boundary (hf_buf f) in
     if boundary = 0 then Ret (f, [])
     else Ret (f\<lparr>hf_buf := drop boundary (hf_buf f)\<rparr>, strip_pass (take boundary (hf_buf f))))"

definition hu_harmony_filter_finish :: "hu_harmony_filter \<Rightarrow> hu_harmony_filter \<times> string" where
  "hu_harmony_filter_finish f =
     (if hf_buf f = [] then (f, []) else (f\<lparr>hf_buf := []\<rparr>, strip_pass (hf_buf f)))"

section \<open>Streams\<close>

record hu_stream_chunk =
  sk_content :: bool
  sk_delta :: string
  sk_is_final :: bool

text \<open>What the callback behind the filter is given for a chunk.\<close>

definition hu_harmony_callback_wrap_fn :: "hu_harmony_filter \<Rightarrow> hu_stream_chunk \<Rightarrow> hu_harmony_filter \<times> hu_stream_chunk list" where
  "hu_harmony_callback_wrap_fn f chunk =
     (if \<not> sk_content chunk \<or> sk_delta chunk = [] then (f, [chunk])
      else case hu_harmony_filter_push f (sk_delta chunk) of
             Ret (f, filtered) \<Rightarrow> (f, if filtered = [] then [] else [chunk\<lparr>sk_delta := filtered, sk_is_final := False\<rparr>])
           | _ \<Rightarrow> (f, [chunk]))"

fun push_all :: "hu_harmony_filter \<Rightarrow> string list \<Rightarrow> (hu_harmony_filter \<times> string) outcome" where
  "push_all f [] = Ret (f, [])"
| "push_all f (x # xs) =
     obind (hu_harmony_filter_push f x) (\<lambda>(f, out). obind (push_all f xs) (\<lambda>(f, outs). Ret (f, out @ outs)))"

section \<open>Cutting a text\<close>

text \<open>At a cut before a \<open><\<close> or a character that is no part of a marker nothing changes.\<close>

definition breaks :: "string \<Rightarrow> bool" where
  "breaks v \<longleftrightarrow> v = [] \<or> \<not> tag_char (hd v) \<and> hd v \<noteq> CHR ''|'' \<and> hd v \<noteq> CHR ''>''"

lemma tag_run_append:
  assumes "breaks v"
  shows "takeWhile tag_char (u @ v) = takeWhile tag_char u" "dropWhile tag_char (u @ v) = dropWhile tag_char u @ v"
proof -
  have v: "takeWhile tag_char v = []" "dropWhile tag_char v = v" using assms by (cases v; simp add: breaks_def)+
  then show "takeWhile tag_char (u @ v) = takeWhile tag_char u" by (induction u) auto
  show "dropWhile tag_char (u @ v) = dropWhile tag_char u @ v" using v(2) by (induction u) auto
qed

lemma starts_value_append:
  assumes "breaks v" "x \<in> set HU_HARMONY_CHANNEL_VALUES"
  shows "starts_with x (u @ v) = starts_with x u"
proof (cases "length x \<le> length u")
  case False
  have tags: "\<forall>c \<in> set x. tag_char c" using assms(2) by (auto simp: HU_HARMONY_CHANNEL_VALUES_def tag_char_def cval_def)
  have "\<not> starts_with x (u @ v)"
  proof
    assume "starts_with x (u @ v)"
    then have x: "x = u @ take (length x - length u) v" using False by (simp add: starts_with_def)
    moreover have "x \<noteq> u" using False by auto
    ultimately have "v \<noteq> []" by auto
    moreover have "length x - length u > 0" using False by simp
    ultimately have "v \<noteq> []" "length x - length u > 0" by auto
    then have "hd v \<in> set (take (length x - length u) v)" by (cases v; cases "length x - length u") auto
    then have "hd v \<in> set x" by (subst x) simp
    with tags \<open>v \<noteq> []\<close> assms(1) show False by (auto simp: breaks_def)
  qed
  moreover have "\<not> starts_with x u" using False by (auto simp: starts_with_iff)
  ultimately show ?thesis by simp
qed (simp add: starts_with_def)

lemma drop_value_append: "breaks v \<Longrightarrow> drop_value (u @ v) = drop_value u @ v"
proof -
  assume v: "breaks v"
  then have "find (\<lambda>x. starts_with x (u @ v)) HU_HARMONY_CHANNEL_VALUES = find (\<lambda>x. starts_with x u) HU_HARMONY_CHANNEL_VALUES"
    using starts_value_append by (intro find_cong refl) blast
  moreover have "length x \<le> length u" if "find (\<lambda>x. starts_with x u) HU_HARMONY_CHANNEL_VALUES = Some x" for x
    using that by (auto simp: find_Some_iff starts_with_iff)
  ultimately show ?thesis by (auto simp: drop_value_def split: option.split)
qed

lemma take_break:
  assumes "breaks v"
  shows "take 1 (u @ v) = ''>'' \<longleftrightarrow> take 1 u = ''>''" "take 2 (u @ v) = ''|>'' \<longleftrightarrow> take 2 u = ''|>''"
    "u \<noteq> [] \<Longrightarrow> take 2 (u @ v) = ''<|'' \<longleftrightarrow> take 2 u = ''<|''"
  using assms by (cases u rule: remdups_adj.cases; cases v; auto simp: breaks_def numeral_2_eq_2)+

lemma after_marker_append:
  assumes "breaks v" "u \<noteq> []"
  shows "after_marker (u @ v) = map_option (\<lambda>r. r @ v) (after_marker u)"
proof (cases "take 2 u = ''<|''")
  case True
  then have len: "2 \<le> length u" by (metis length_take min.absorb_iff2 list.size(3,4) min_def nat_le_linear One_nat_def Suc_1 add.commute plus_1_eq_Suc)
  then have d: "drop 2 (u @ v) = drop 2 u @ v" by simp
  let ?r = "dropWhile tag_char (drop 2 u)"
  have "take 2 ?r = ''|>'' \<Longrightarrow> drop 2 (?r @ v) = drop 2 ?r @ v" by (cases ?r rule: remdups_adj.cases) auto
  moreover have "take 1 ?r = ''>'' \<Longrightarrow> drop 1 (?r @ v) = drop 1 ?r @ v" by (cases ?r) auto
  ultimately show ?thesis
    using True take_break [OF assms(1)] assms(2)
    by (auto simp: after_marker_def d match_closed_marker_def match_open_marker_def Let_def tag_run_append [OF assms(1)] drop_value_append [OF assms(1)] split: option.split)
next
  case False
  with take_break(3) [OF assms] show ?thesis by (simp add: after_marker_def)
qed

lemma strip_break: "breaks v \<Longrightarrow> strip_pass (u @ v) = strip_pass u @ strip_pass v"
proof (induction u rule: strip_pass.induct)
  case (2 c s)
  note am = after_marker_append [OF 2(3), of "c # s"]
  show ?case
  proof (cases "after_marker (c # s)")
    case None
    with 2 am show ?thesis by simp
  next
    case (Some r)
    with 2 am show ?thesis by simp
  qed
qed simp

section \<open>Far from the last marker\<close>

text \<open>No tag is longer than \<open>n\<close>.\<close>

fun tags_within :: "nat \<Rightarrow> string \<Rightarrow> bool" where
  "tags_within n [] = True"
| "tags_within n (c # s) = ((take 2 (c # s) = ''<|'' \<longrightarrow> length (takeWhile tag_char (drop 1 s)) \<le> n) \<and> tags_within n s)"

lemma tags_within_suffix: "tags_within n (p @ s) \<Longrightarrow> tags_within n s"
  by (induction p) auto

lemma after_marker_suffix: "after_marker s = Some r \<Longrightarrow> \<exists>p. s = p @ r"
proof -
  have tail: "\<exists>p. s = p @ drop (length (takeWhile tag_char (drop 2 s)) + 2 + k) s" for k by (metis append_take_drop_id)
  have dw: "dropWhile tag_char (drop 2 s) = drop (length (takeWhile tag_char (drop 2 s)) + 2) s"
    by (simp add: dropWhile_eq_drop add.commute)
  have dv: "\<exists>k. drop_value t = drop k t" for t by (auto simp: drop_value_def split: option.split intro: exI [of _ 0])
  assume "after_marker s = Some r"
  then consider "r = drop 2 (dropWhile tag_char (drop 2 s))" | "r = drop_value (drop 1 (dropWhile tag_char (drop 2 s)))"
    by (auto simp: after_marker_def match_closed_marker_def match_open_marker_def Let_def split: if_splits option.splits)
  then have "\<exists>k. r = drop k s" using dv dw by (cases; metis drop_drop)
  then show ?thesis by (metis append_take_drop_id)
qed

lemma run_of_long:
  assumes "length (takeWhile P (t @ v)) \<le> n" "n < length t"
  shows "takeWhile P (t @ v) = takeWhile P t" "dropWhile P (t @ v) = dropWhile P t @ v" "length t - n \<le> length (dropWhile P t)"
proof -
  have "takeWhile P t \<noteq> t"
  proof
    assume "takeWhile P t = t"
    then have "length (takeWhile P (t @ v)) \<ge> length t" by (simp add: takeWhile_append takeWhile_eq_all_conv)
    with assms show False by simp
  qed
  then obtain x where x: "x \<in> set t" "\<not> P x" by (auto simp: takeWhile_eq_all_conv)
  then show a: "takeWhile P (t @ v) = takeWhile P t" and "dropWhile P (t @ v) = dropWhile P t @ v" by simp_all
  have "length t = length (takeWhile P t) + length (dropWhile P t)" by (metis length_append takeWhile_dropWhile_id)
  with assms a show "length t - n \<le> length (dropWhile P t)" by simp
qed

lemma after_marker_far:
  assumes "65 \<le> length u" "length (takeWhile tag_char (drop 2 (u @ v))) \<le> 52"
  shows "after_marker (u @ v) = map_option (\<lambda>r. r @ v) (after_marker u)"
proof -
  have d: "drop 2 (u @ v) = drop 2 u @ v" using assms(1) by simp
  have run: "length (takeWhile tag_char (drop 2 u @ v)) \<le> 52" using assms(2) d by simp
  have long: "52 < length (drop 2 u)" using assms(1) by simp
  note r = run_of_long [OF run long]
  let ?r = "dropWhile tag_char (drop 2 u)"
  have len: "11 \<le> length ?r" using r(3) assms(1) by simp
  have two: "take 2 (u @ v) = take 2 u" using assms(1) by simp
  have "starts_with x (drop 1 ?r @ v) = starts_with x (drop 1 ?r)" if "x \<in> set HU_HARMONY_CHANNEL_VALUES" for x
    using that len by (auto simp: starts_with_def HU_HARMONY_CHANNEL_VALUES_def)
  then have "find (\<lambda>x. starts_with x (drop 1 ?r @ v)) HU_HARMONY_CHANNEL_VALUES = find (\<lambda>x. starts_with x (drop 1 ?r)) HU_HARMONY_CHANNEL_VALUES"
    by (intro find_cong refl) blast
  moreover have "length x \<le> length (drop 1 ?r)" if "find (\<lambda>x. starts_with x (drop 1 ?r)) HU_HARMONY_CHANNEL_VALUES = Some x" for x
  proof -
    from that have "starts_with x (drop 1 ?r)" unfolding find_Some_iff by blast
    then show ?thesis unfolding starts_with_iff by (metis length_append le_add1)
  qed
  ultimately have val: "drop_value (drop 1 ?r @ v) = drop_value (drop 1 ?r) @ v" by (auto simp: drop_value_def split: option.split)
  have cuts: "take 2 (?r @ v) = take 2 ?r" "drop 2 (?r @ v) = drop 2 ?r @ v" "take 1 (?r @ v) = take 1 ?r" "drop 1 (?r @ v) = drop 1 ?r @ v"
    using len by simp_all
  have "match_closed_marker (drop 2 u @ v) = map_option (\<lambda>r. r @ v) (match_closed_marker (drop 2 u))"
    unfolding match_closed_marker_def Let_def r(1,2) cuts by simp
  moreover have "match_open_marker (drop 2 u @ v) = map_option (\<lambda>r. r @ v) (match_open_marker (drop 2 u))"
    unfolding match_open_marker_def Let_def r(1,2) cuts val by simp
  ultimately show ?thesis unfolding after_marker_def two d by (simp split: option.split)
qed

lemma last_part: "set (drop (length r - n) r) \<subseteq> set (drop (length (p @ r) - n) (p @ r))"
  by (cases "n \<le> length r") auto

lemma strip_far: "tags_within 52 (u @ v) \<Longrightarrow> CHR ''<'' \<notin> set (drop (length u - 64) u) \<Longrightarrow> strip_pass (u @ v) = strip_pass u @ strip_pass v"
proof (induction u rule: strip_pass.induct)
  case (2 c s)
  have am: "after_marker (c # s @ v) = map_option (\<lambda>r. r @ v) (after_marker (c # s))"
  proof (cases "c = CHR ''<''")
    case True
    then have "65 \<le> length (c # s)" using 2(4) by (cases "length s \<ge> 64") auto
    moreover have "take 2 (c # s @ v) = ''<|'' \<Longrightarrow> length (takeWhile tag_char (drop 2 (c # s @ v))) \<le> 52" using 2(3) by (simp add: numeral_2_eq_2)
    moreover have "take 2 (c # s @ v) = take 2 (c # s)" using calculation(1) by simp
    ultimately show ?thesis using after_marker_far [of "c # s" v] by (cases "take 2 (c # s) = ''<|''") (auto simp: after_marker_def)
  next
    case False
    then show ?thesis by (simp add: after_marker_def numeral_2_eq_2)
  qed
  have suf: "tags_within 52 (r @ v) \<and> CHR ''<'' \<notin> set (drop (length r - 64) r)" if "c # s = p @ r" for p r
  proof -
    have "tags_within 52 (p @ r @ v)" using 2(3) that by (metis append_Cons append_assoc)
    moreover have "CHR ''<'' \<notin> set (drop (length (p @ r) - 64) (p @ r))" using 2(4) that by simp
    ultimately show ?thesis using tags_within_suffix last_part [of r 64 p] by blast
  qed
  show ?case
  proof (cases "after_marker (c # s)")
    case None
    with 2(1) am suf [of "[c]" s] show ?thesis by simp
  next
    case (Some r)
    then obtain p where "c # s = p @ r" using after_marker_suffix by blast
    then have "strip_pass (r @ v) = strip_pass r @ strip_pass v" using 2(2) [OF Some] suf by blast
    with am Some show ?thesis by simp
  qed
qed simp

section \<open>The cuts of the filter\<close>

lemma utf8_back_cut:
  "i + k \<le> length buf \<Longrightarrow> utf8_back k i buf = length buf \<or>
     utf8_back k i buf < length buf \<and> 0xC0 \<le> cval (buf ! utf8_back k i buf) \<and> length buf \<le> utf8_back k i buf + 3"
proof (induction k i buf rule: utf8_back.induct)
  case (2 k i buf)
  let ?pos = "length buf - 1 - i"
  have "?pos < length buf" using 2(2) by simp
  moreover have "hu_mlx_utf8_codepoint_len (buf ! ?pos) \<le> 4" by (simp add: hu_mlx_utf8_codepoint_len_def Let_def)
  then have "length buf - ?pos < hu_mlx_utf8_codepoint_len (buf ! ?pos) \<Longrightarrow> length buf \<le> ?pos + 3" by linarith
  ultimately show ?case using 2 by (simp add: Let_def)
qed simp

lemma safe_emit_cut:
  "hu_mlx_utf8_safe_emit_len buf = length buf \<or>
   hu_mlx_utf8_safe_emit_len buf < length buf \<and> 0xC0 \<le> cval (buf ! hu_mlx_utf8_safe_emit_len buf) \<and>
     length buf \<le> hu_mlx_utf8_safe_emit_len buf + 3"
  using utf8_back_cut [of 0 "min (length buf) 4" buf] by (simp add: hu_mlx_utf8_safe_emit_len_def)

lemma marker_boundary_cut:
  "marker_boundary buf < length buf \<and> buf ! marker_boundary buf = CHR ''<'' \<and> length buf \<le> marker_boundary buf + 64 \<or>
   marker_boundary buf = length buf \<and> CHR ''<'' \<notin> set (drop (length buf - 64) buf)"
proof -
  let ?w = "take 64 (rev buf)"
  let ?rest = "takeWhile (\<lambda>c. c \<noteq> CHR ''<'') ?w"
  have len: "length ?w = min (length buf) 64" by (simp add: min.commute)
  show ?thesis
  proof (cases "length ?rest < length ?w")
    case True
    then have "?w ! length ?rest = CHR ''<''" using nth_length_takeWhile [OF True] by simp
    then have "buf ! (length buf - 1 - length ?rest) = CHR ''<''" using True len by (simp add: rev_nth)
    moreover have "marker_boundary buf = length buf - length ?rest - 1"
      using True len by (simp add: marker_boundary_def HU_HARMONY_LOOKAHEAD_def)
    ultimately show ?thesis using True len by auto
  next
    case False
    then have "?rest = ?w" by (metis length_takeWhile_le linorder_neqE_nat not_le takeWhile_eq_take take_all_iff order_refl)
    then have "CHR ''<'' \<notin> set ?w" by (auto simp: takeWhile_eq_all_conv)
    moreover have "set ?w = set (drop (length buf - 64) buf)" by (simp add: take_rev)
    moreover have "\<not> length ?rest < min (length buf) 64" using False len by simp
    then have "marker_boundary buf = length buf" unfolding marker_boundary_def HU_HARMONY_LOOKAHEAD_def Let_def by (rule if_not_P)
    ultimately show ?thesis by simp
  qed
qed

lemma safe_boundary_cut:
  "safe_boundary buf \<le> length buf \<and> length buf \<le> safe_boundary buf + 67 \<and>
   (safe_boundary buf < length buf \<and> breaks (drop (safe_boundary buf) buf @ v) \<or>
    safe_boundary buf = length buf \<and> CHR ''<'' \<notin> set (drop (length buf - 64) buf))"
proof (cases "buf = []")
  case False
  let ?m = "marker_boundary buf" and ?k = "safe_boundary buf"
  have k: "?k = hu_mlx_utf8_safe_emit_len (take ?m buf)" using False by (simp add: safe_boundary_def)
  have m: "?m \<le> length buf" "length buf \<le> ?m + 64" using marker_boundary_cut [of buf] by auto
  have cut: "?k = ?m \<or> ?k < ?m \<and> 0xC0 \<le> cval (buf ! ?k) \<and> ?m \<le> ?k + 3"
  proof -
    have "length (take ?m buf) = ?m" using m(1) by simp
    then show ?thesis using safe_emit_cut [of "take ?m buf"] nth_take [of "?k" ?m buf] unfolding k by metis
  qed
  have br: "breaks (drop ?k buf @ v)" if "?k < length buf" "buf ! ?k = CHR ''<'' \<or> 0xC0 \<le> cval (buf ! ?k)"
  proof -
    have "hd (drop ?k buf @ v) = buf ! ?k" using that(1) by (simp add: hd_append hd_drop_conv_nth)
    moreover have "c = CHR ''<'' \<or> 0xC0 \<le> cval c \<Longrightarrow> \<not> tag_char c \<and> c \<noteq> CHR ''|'' \<and> c \<noteq> CHR ''>''" for c
      by (auto simp: tag_char_def cval_def)
    ultimately show ?thesis using that(2) by (simp add: breaks_def)
  qed
  show ?thesis using cut m br marker_boundary_cut [of buf] by auto
qed (simp add: safe_boundary_def breaks_def)

lemma cut_strip:
  assumes "tags_within 52 (buf @ v)"
  shows "strip_pass (buf @ v) = strip_pass (take (safe_boundary buf) buf) @ strip_pass (drop (safe_boundary buf) buf @ v)"
proof -
  let ?k = "safe_boundary buf"
  from safe_boundary_cut [of buf v] consider "breaks (drop ?k buf @ v)" | "?k = length buf" "CHR ''<'' \<notin> set (drop (length buf - 64) buf)" by blast
  then show ?thesis
  proof cases
    case 1
    from strip_break [OF this, of "take ?k buf"] show ?thesis by (metis append_assoc append_take_drop_id)
  next
    case 2
    from strip_far [OF assms 2(2)] 2(1) show ?thesis by simp
  qed
qed

lemma ensure_cap_ok: "needed \<le> HU_HARMONY_FILTER_MAX_CAP \<Longrightarrow> \<exists>f'. harmony_ensure_cap f needed = Ret f' \<and> hf_buf f' = hf_buf f"
  by (simp add: harmony_ensure_cap_def)

lemma push_ok:
  assumes "length (hf_buf f) \<le> 67" "length x \<le> 65000" "tags_within 52 (hf_buf f @ x @ v)"
  shows "\<exists>f' out. hu_harmony_filter_push f x = Ret (f', out) \<and> length (hf_buf f') \<le> 67 \<and>
    strip_pass (hf_buf f @ x @ v) = out @ strip_pass (hf_buf f' @ v) \<and> (\<exists>p. hf_buf f @ x = p @ hf_buf f')"
proof -
  let ?buf = "hf_buf f @ x"
  have "length ?buf \<le> HU_HARMONY_FILTER_MAX_CAP" using assms(1,2) by (simp add: HU_HARMONY_FILTER_MAX_CAP_def)
  then obtain f0 where f0: "harmony_ensure_cap f (length (hf_buf f) + length x) = Ret f0" "hf_buf f0 = hf_buf f" using ensure_cap_ok [of _ f] by auto
  obtain f1 where f1: "(if x = [] then Ret f else obind (harmony_ensure_cap f (length (hf_buf f) + length x)) (\<lambda>f. Ret (f\<lparr>hf_buf := hf_buf f @ x\<rparr>))) = Ret f1"
    "hf_buf f1 = ?buf"
    using f0 by (cases "x = []") auto
  have tags: "tags_within 52 (?buf @ v)" using assms(3) by simp
  have held: "length (drop (safe_boundary ?buf) ?buf) \<le> 67"
  proof -
    have "length ?buf \<le> safe_boundary ?buf + 67" using safe_boundary_cut [of ?buf "[]"] by blast
    then show ?thesis unfolding length_drop by linarith
  qed
  obtain f' out where push: "hu_harmony_filter_push f x = Ret (f', out)" "hf_buf f' = drop (safe_boundary ?buf) ?buf" "out = strip_pass (take (safe_boundary ?buf) ?buf)"
    using f1 by (cases "safe_boundary ?buf = 0") (simp_all add: hu_harmony_filter_push_def Let_def del: take_append drop_append)
  have "?buf = take (safe_boundary ?buf) ?buf @ hf_buf f'" unfolding push(2) by (rule append_take_drop_id [symmetric])
  then have "\<exists>p. ?buf = p @ hf_buf f'" by (rule exI)
  moreover have "strip_pass (hf_buf f @ x @ v) = out @ strip_pass (hf_buf f' @ v)"
    using cut_strip [OF tags] unfolding push(2,3) by (simp only: append_assoc)
  ultimately show ?thesis using push held by metis
qed

lemma push_all_ok:
  assumes "length (hf_buf f) \<le> 67" "\<forall>x \<in> set xs. length x \<le> 65000" "tags_within 52 (hf_buf f @ concat xs)"
  shows "\<exists>f' out. push_all f xs = Ret (f', out) \<and> length (hf_buf f') \<le> 67 \<and> strip_pass (hf_buf f @ concat xs) = out @ strip_pass (hf_buf f')"
  using assms
proof (induction xs arbitrary: f)
  case (Cons x xs)
  obtain f1 out1 p where one: "hu_harmony_filter_push f x = Ret (f1, out1)" "length (hf_buf f1) \<le> 67"
    "strip_pass (hf_buf f @ x @ concat xs) = out1 @ strip_pass (hf_buf f1 @ concat xs)" "hf_buf f @ x = p @ hf_buf f1"
    using push_ok [of f x "concat xs"] Cons.prems by auto
  have "tags_within 52 (p @ hf_buf f1 @ concat xs)" using Cons.prems(3) one(4) by (metis append_assoc concat.simps(2))
  then have "tags_within 52 (hf_buf f1 @ concat xs)" by (rule tags_within_suffix)
  from Cons.IH [OF one(2) _ this] Cons.prems(2) obtain f2 out2 where "push_all f1 xs = Ret (f2, out2)" "length (hf_buf f2) \<le> 67"
    "strip_pass (hf_buf f1 @ concat xs) = out2 @ strip_pass (hf_buf f2)" by auto
  with one show ?case by simp
qed simp

text \<open>
  It does not matter in what pieces a text arrives.  As long as no tag of it is longer than 52 characters and no
  piece longer than 65000, the filter takes every piece, never holds back more than 67 characters, and what comes out in
  the end is the whole text without its markers.
\<close>

theorem harmony_pieces_do_not_matter:
  assumes "tags_within 52 (concat pieces)" "\<forall>x \<in> set pieces. length x \<le> 65000"
  shows "\<exists>f out. push_all hu_harmony_filter_init pieces = Ret (f, out) \<and> length (hf_buf f) \<le> 67 \<and>
    out @ snd (hu_harmony_filter_finish f) = strip_pass (concat pieces)"
proof -
  obtain f out where "push_all hu_harmony_filter_init pieces = Ret (f, out)" "length (hf_buf f) \<le> 67"
    "strip_pass (concat pieces) = out @ strip_pass (hf_buf f)"
    using push_all_ok [of hu_harmony_filter_init pieces] assms by (auto simp: hu_harmony_filter_init_def)
  then show ?thesis by (simp add: hu_harmony_filter_finish_def)
qed

lemma harmony_pieces_do_not_matter_witness:
  "\<exists>f out. push_all hu_harmony_filter_init [''Hi <|chan'', ''nel|>fin'', ''al<|channel>tho'', ''ught there <'', ''3''] = Ret (f, out) \<and>
     out @ snd (hu_harmony_filter_finish f) = ''Hi final there <3''"
proof -
  let ?ps = "[''Hi <|chan'', ''nel|>fin'', ''al<|channel>tho'', ''ught there <'', ''3'']"
  have "tags_within 52 (concat ?ps)" by (simp add: tag_char_def cval_def)
  moreover have "strip_pass (concat ?ps) = ''Hi final there <3''"
    by code_simp
  ultimately show ?thesis using harmony_pieces_do_not_matter [of ?ps] by auto
qed

text \<open>
  A piece too long for the buffer is handed on as it is, ahead of what is held back; and a tag that is not closed is not
  taken for a marker.
\<close>

lemma harmony_long_piece_overtakes:
  assumes "sk_content chunk" "length (sk_delta chunk) > HU_HARMONY_FILTER_MAX_CAP" "hf_cap f \<le> HU_HARMONY_FILTER_MAX_CAP"
  shows "hu_harmony_callback_wrap_fn f chunk = (f, [chunk])"
  using assms by (auto simp: hu_harmony_callback_wrap_fn_def hu_harmony_filter_push_def harmony_ensure_cap_def)

lemma harmony_unclosed_stays: "strip_pass ''<|channel thought'' = ''<|channel thought''"
  by code_simp

end
