(* ===== verification/HuPairing.thy ===== *)
theory HuPairing
  imports HuNum "HOL-Library.Word"
begin

text \<open>
  \<^verbatim>\<open>src/security/pairing.c\<close>: pairing a client with a code of eight digits, with a lock after five wrong ones, and the
  check of its tokens afterwards.

  SHA-256 is a function \<open>sha\<close> from a text to bytes.  What \<^verbatim>\<open>/dev/urandom\<close> gives is an argument, \<open>None\<close> when it cannot be
  read, and so is the time, in seconds.
\<close>

unbundle bit_operations_syntax

section \<open>Codes, tokens and hashes\<close>

definition HU_MAX_PAIR_ATTEMPTS :: nat where "HU_MAX_PAIR_ATTEMPTS = 5"
definition HU_PAIR_LOCKOUT_SECS :: int where "HU_PAIR_LOCKOUT_SECS = 600"
definition HU_PAIRING_CODE_LEN :: nat where "HU_PAIRING_CODE_LEN = 8"

record hu_pairing_guard =
  pg_require_pairing :: bool
  pg_pairing_code :: string
  pg_paired_token_hashes :: "string list"
  pg_failed_count :: nat
  pg_lockout_until :: int

datatype hu_pair_attempt_result = HU_PAIR_PAIRED | HU_PAIR_MISSING_CODE | HU_PAIR_INVALID_CODE | HU_PAIR_ALREADY_PAIRED |
  HU_PAIR_DISABLED | HU_PAIR_LOCKED_OUT | HU_PAIR_INTERNAL_ERROR

definition pad8 :: "string \<Rightarrow> string" where
  "pad8 s = replicate (8 - length s) CHR ''0'' @ s"

definition generate_code :: "8 word list option \<Rightarrow> string option" where
  "generate_code rnd =
     (case rnd of
        Some [b0, b1, b2, b3] \<Rightarrow>
          Some (pad8 (nat_str ((unat b0 + unat b1 * 2 ^ 8 + unat b2 * 2 ^ 16 + unat b3 * 2 ^ 24) mod 100000000)))
      | _ \<Rightarrow> None)"

definition low_hex :: "nat \<Rightarrow> char" where
  "low_hex n = ''0123456789abcdef'' ! n"

definition hex_bytes :: "8 word list \<Rightarrow> string" where
  "hex_bytes bs = concat (map (\<lambda>b. [low_hex (unat b div 16), low_hex (unat b mod 16)]) bs)"

definition HU_TOKEN_RANDOM_BYTES :: nat where "HU_TOKEN_RANDOM_BYTES = 32"

definition generate_token :: "8 word list option \<Rightarrow> string option" where
  "generate_token rnd =
     (case rnd of
        Some bs \<Rightarrow> if length bs = HU_TOKEN_RANDOM_BYTES then Some (''zc_'' @ hex_bytes bs) else None
      | None \<Rightarrow> None)"

definition hash_token_sha256 :: "(string \<Rightarrow> 8 word list) \<Rightarrow> string \<Rightarrow> string" where
  "hash_token_sha256 sha token = hex_bytes (sha token)"

definition is_token_hash :: "string \<Rightarrow> bool" where
  "is_token_hash s \<longleftrightarrow> length s = 64 \<and> list_all is_xdigit s"

definition byte_or_0 :: "string \<Rightarrow> nat \<Rightarrow> 8 word" where
  "byte_or_0 s i = (if i < length s then word_of_nat (cval (s ! i)) else 0)"

definition hu_pairing_guard_constant_time_eq :: "string \<Rightarrow> string \<Rightarrow> bool" where
  "hu_pairing_guard_constant_time_eq a b \<longleftrightarrow>
     foldl (\<lambda>diff i. diff OR (byte_or_0 a i XOR byte_or_0 b i)) (if length a \<noteq> length b then 1 else 0) [0 ..< max (length a) (length b)] = 0"

section \<open>The guard\<close>

definition hu_pairing_guard_create ::
    "(string \<Rightarrow> 8 word list) \<Rightarrow> bool \<Rightarrow> string option list \<Rightarrow> 8 word list option \<Rightarrow> hu_pairing_guard option" where
  "hu_pairing_guard_create sha require_pairing existing_tokens rnd =
     (let hashes = map (\<lambda>t. if is_token_hash t then t else hash_token_sha256 sha t) (List.map_filter id existing_tokens);
          guard = \<lparr>pg_require_pairing = require_pairing, pg_pairing_code = [], pg_paired_token_hashes = hashes,
                   pg_failed_count = 0, pg_lockout_until = 0\<rparr> in
      if require_pairing \<and> hashes = [] then map_option (\<lambda>c. guard\<lparr>pg_pairing_code := c\<rparr>) (generate_code rnd)
      else Some guard)"

definition trim_code :: "string \<Rightarrow> string" where
  "trim_code code = take 15 (filter is_digit code)"

definition count_failure :: "hu_pairing_guard \<Rightarrow> int \<Rightarrow> hu_pairing_guard" where
  "count_failure g now =
     (let g = g\<lparr>pg_failed_count := (pg_failed_count g + 1) mod 2 ^ 32\<rparr> in
      if pg_failed_count g \<ge> HU_MAX_PAIR_ATTEMPTS then g\<lparr>pg_lockout_until := now + HU_PAIR_LOCKOUT_SECS\<rparr> else g)"

text \<open>The token goes to the caller; on a failure to make one nothing has changed but an expired lock.\<close>

definition hu_pairing_guard_attempt_pair ::
    "(string \<Rightarrow> 8 word list) \<Rightarrow> hu_pairing_guard \<Rightarrow> string option \<Rightarrow> 8 word list option \<Rightarrow> int \<Rightarrow>
     hu_pairing_guard \<times> hu_pair_attempt_result \<times> string option" where
  "hu_pairing_guard_attempt_pair sha g code rnd now =
     (if \<not> pg_require_pairing g then (g, HU_PAIR_DISABLED, None)
      else if pg_paired_token_hashes g \<noteq> [] \<and> pg_pairing_code g = [] then (g, HU_PAIR_ALREADY_PAIRED, None)
      else if code = None \<or> code = Some [] then (g, HU_PAIR_MISSING_CODE, None)
      else
        let locked = pg_failed_count g \<ge> HU_MAX_PAIR_ATTEMPTS \<and> pg_lockout_until g > 0 in
        if locked \<and> now < pg_lockout_until g then (g, HU_PAIR_LOCKED_OUT, None)
        else
          let g = (if locked then g\<lparr>pg_failed_count := 0, pg_lockout_until := 0\<rparr> else g); trimmed = trim_code (the code) in
          if pg_pairing_code g = [] then (g, HU_PAIR_ALREADY_PAIRED, None)
          else if length trimmed \<noteq> HU_PAIRING_CODE_LEN then (count_failure g now, HU_PAIR_INVALID_CODE, None)
          else if \<not> hu_pairing_guard_constant_time_eq trimmed (pg_pairing_code g) then (count_failure g now, HU_PAIR_INVALID_CODE, None)
          else case generate_token rnd of
                 None \<Rightarrow> (g, HU_PAIR_INTERNAL_ERROR, None)
               | Some token \<Rightarrow>
                   (g\<lparr>pg_failed_count := 0, pg_lockout_until := 0, pg_pairing_code := [],
                      pg_paired_token_hashes := pg_paired_token_hashes g @ [hash_token_sha256 sha token]\<rparr>, HU_PAIR_PAIRED, Some token))"

definition hu_pairing_guard_is_authenticated :: "(string \<Rightarrow> 8 word list) \<Rightarrow> hu_pairing_guard \<Rightarrow> string option \<Rightarrow> bool" where
  "hu_pairing_guard_is_authenticated sha g token =
     (if \<not> pg_require_pairing g then True
      else case token of
             None \<Rightarrow> False
           | Some t \<Rightarrow> list_ex (hu_pairing_guard_constant_time_eq (hash_token_sha256 sha t)) (pg_paired_token_hashes g))"

definition hu_pairing_guard_pairing_code :: "hu_pairing_guard \<Rightarrow> string option" where
  "hu_pairing_guard_pairing_code g = (if pg_pairing_code g = [] then None else Some (pg_pairing_code g))"

definition hu_pairing_guard_is_paired :: "hu_pairing_guard \<Rightarrow> bool" where
  "hu_pairing_guard_is_paired g \<longleftrightarrow> pg_paired_token_hashes g \<noteq> []"

section \<open>Comparing without telling where\<close>

lemma byte_0_iff: "(word_of_nat (cval c) :: 8 word) = word_of_nat (cval d) \<longleftrightarrow> c = d"
proof -
  have "unat (word_of_nat (cval c) :: 8 word) = cval c" for c by (simp add: unat_of_nat cval_less_256)
  then show ?thesis by (metis cval_inj)
qed

lemma xor_0_iff: "x XOR y = 0 \<longleftrightarrow> x = y" for x y :: "8 word"
  by (metis xor.assoc xor.left_neutral xor_self_eq)

lemma byte_eq: "i < length a \<Longrightarrow> i < length b \<Longrightarrow> byte_or_0 a i XOR byte_or_0 b i = 0 \<longleftrightarrow> a ! i = b ! i"
  by (simp add: xor_0_iff byte_or_0_def byte_0_iff)

lemma or_fold_0: "foldl (\<lambda>diff i. diff OR f i) d is = 0 \<longleftrightarrow> d = 0 \<and> (\<forall>i \<in> set is. f i = 0)" for d :: "8 word"
  by (induction "is" arbitrary: d) (auto simp: or_eq_0_iff)

lemma constant_time_eq_iff: "hu_pairing_guard_constant_time_eq a b \<longleftrightarrow> a = b"
proof
  assume eq: "hu_pairing_guard_constant_time_eq a b"
  then have len: "length a = length b" by (auto simp: hu_pairing_guard_constant_time_eq_def or_fold_0 split: if_splits)
  have "a ! i = b ! i" if "i < length a" for i
    using eq that len byte_eq [of i a b] by (auto simp: hu_pairing_guard_constant_time_eq_def or_fold_0)
  with len show "a = b" by (simp add: nth_equalityI)
qed (simp only: hu_pairing_guard_constant_time_eq_def or_fold_0, simp)


section \<open>Runs of attempts\<close>

text \<open>A client's attempts in the order the guard sees them: the code, the random bytes at hand and the time of each, and what
  comes of it.\<close>

fun attempts ::
    "(string \<Rightarrow> 8 word list) \<Rightarrow> hu_pairing_guard \<Rightarrow> (string option \<times> 8 word list option \<times> int) list \<Rightarrow>
     hu_pairing_guard \<times> (int \<times> hu_pair_attempt_result \<times> string option) list" where
  "attempts sha g [] = (g, [])"
| "attempts sha g ((code, rnd, now) # as) =
     (let (g1, r) = hu_pairing_guard_attempt_pair sha g code rnd now; (g2, rs) = attempts sha g1 as in (g2, (now, r) # rs))"

definition wrong_between :: "int \<Rightarrow> (int \<times> hu_pair_attempt_result \<times> string option) list \<Rightarrow> nat" where
  "wrong_between s rs = length (filter (\<lambda>(t, r, _). r = HU_PAIR_INVALID_CODE \<and> s \<le> t \<and> t < s + HU_PAIR_LOCKOUT_SECS) rs)"

definition guard_ok :: "hu_pairing_guard \<Rightarrow> bool" where
  "guard_ok g \<longleftrightarrow> pg_failed_count g < 5 \<and> pg_lockout_until g = 0 \<or> pg_failed_count g = 5 \<and> pg_lockout_until g > 0"

text \<open>How many wrong codes the guard can still take between \<open>s\<close> and \<open>s + 600\<close>, from the time \<open>t\<close> on.\<close>

definition wrong_left :: "int \<Rightarrow> int \<Rightarrow> hu_pairing_guard \<Rightarrow> nat" where
  "wrong_left s t g =
     (if pg_pairing_code g = [] \<or> s + 600 \<le> t then 0
      else if pg_failed_count g = 5 then if s + 600 \<le> pg_lockout_until g then 0 else 5
      else if s \<le> t then 5 - pg_failed_count g else 5)"

lemmas pair_consts = HU_MAX_PAIR_ATTEMPTS_def HU_PAIR_LOCKOUT_SECS_def

lemma attempts_Cons:
  assumes "hu_pairing_guard_attempt_pair sha g code rnd now = (g1, r)"
  shows "fst (attempts sha g ((code, rnd, now) # as)) = fst (attempts sha g1 as)"
    and "snd (attempts sha g ((code, rnd, now) # as)) = (now, r) # snd (attempts sha g1 as)"
  using assms by (simp_all split: prod.splits)

definition unlocked :: "hu_pairing_guard \<Rightarrow> hu_pairing_guard" where
  "unlocked g =
     (if pg_failed_count g \<ge> HU_MAX_PAIR_ATTEMPTS \<and> pg_lockout_until g > 0 then g\<lparr>pg_failed_count := 0, pg_lockout_until := 0\<rparr> else g)"

lemma attempt_cases:
  assumes "hu_pairing_guard_attempt_pair sha g code rnd now = (g', r, tok)"
  obtains (same) "r \<noteq> HU_PAIR_INVALID_CODE" "g' = g"
  | (reset) "r \<noteq> HU_PAIR_INVALID_CODE" "g' = unlocked g" "unlocked g = g \<or> pg_lockout_until g \<le> now"
  | (paired) "r \<noteq> HU_PAIR_INVALID_CODE" "pg_pairing_code g' = []" "pg_failed_count g' = 0" "pg_lockout_until g' = 0"
  | (count) "g' = count_failure (unlocked g) now" "unlocked g = g \<or> pg_lockout_until g \<le> now" "pg_pairing_code g \<noteq> []"
proof -
  let ?locked = "HU_MAX_PAIR_ATTEMPTS \<le> pg_failed_count g \<and> 0 < pg_lockout_until g"
  define g0 where "g0 = unlocked g"
  have g0: "unlocked g = g \<or> pg_lockout_until g \<le> now" if "\<not> (?locked \<and> now < pg_lockout_until g)"
    using that by (auto simp: unlocked_def)
  have code: "pg_pairing_code g0 = pg_pairing_code g" by (simp add: g0_def unlocked_def)
  have "hu_pairing_guard_attempt_pair sha g code rnd now =
      (if \<not> pg_require_pairing g then (g, HU_PAIR_DISABLED, None)
       else if pg_paired_token_hashes g \<noteq> [] \<and> pg_pairing_code g = [] then (g, HU_PAIR_ALREADY_PAIRED, None)
       else if code = None \<or> code = Some [] then (g, HU_PAIR_MISSING_CODE, None)
       else if ?locked \<and> now < pg_lockout_until g then (g, HU_PAIR_LOCKED_OUT, None)
       else if pg_pairing_code g0 = [] then (g0, HU_PAIR_ALREADY_PAIRED, None)
       else if length (trim_code (the code)) \<noteq> HU_PAIRING_CODE_LEN then (count_failure g0 now, HU_PAIR_INVALID_CODE, None)
       else if \<not> hu_pairing_guard_constant_time_eq (trim_code (the code)) (pg_pairing_code g0)
         then (count_failure g0 now, HU_PAIR_INVALID_CODE, None)
       else case generate_token rnd of
              None \<Rightarrow> (g0, HU_PAIR_INTERNAL_ERROR, None)
            | Some token \<Rightarrow>
                (g0\<lparr>pg_failed_count := 0, pg_lockout_until := 0, pg_pairing_code := [],
                    pg_paired_token_hashes := pg_paired_token_hashes g0 @ [hash_token_sha256 sha token]\<rparr>, HU_PAIR_PAIRED, Some token))"
    unfolding hu_pairing_guard_attempt_pair_def Let_def g0_def unlocked_def by (rule refl)
  then have "r \<noteq> HU_PAIR_INVALID_CODE \<and> g' = g \<or> r \<noteq> HU_PAIR_INVALID_CODE \<and> g' = g0 \<and> \<not> (?locked \<and> now < pg_lockout_until g) \<or>
      r \<noteq> HU_PAIR_INVALID_CODE \<and> pg_pairing_code g' = [] \<and> pg_failed_count g' = 0 \<and> pg_lockout_until g' = 0 \<or>
      g' = count_failure g0 now \<and> \<not> (?locked \<and> now < pg_lockout_until g) \<and> pg_pairing_code g0 \<noteq> []"
    using assms by (auto split: if_split_asm option.split_asm)
  then show thesis using that g0 code unfolding g0_def by auto
qed

lemma attempt_step:
  assumes "hu_pairing_guard_attempt_pair sha g code rnd now = (g', r)" and ok: "guard_ok g" and t: "0 \<le> t" "t \<le> now"
  shows "guard_ok g' \<and> wrong_between s [(now, r)] + wrong_left s now g' \<le> wrong_left s t g"
proof -
  obtain res tok where "hu_pairing_guard_attempt_pair sha g code rnd now = (g', res, tok)" and r: "r = (res, tok)"
    using assms(1) by (cases r) simp
  from this(1) show ?thesis
  proof (cases rule: attempt_cases)
    case same
    then show ?thesis using ok t by (auto simp: r guard_ok_def wrong_between_def wrong_left_def)
  next
    case reset
    show ?thesis
    proof (cases "unlocked g = g")
      case True
      with reset have "g' = g" by simp
      then show ?thesis using reset(1) ok t by (auto simp: r guard_ok_def wrong_between_def wrong_left_def)
    next
      case False
      then have u: "pg_failed_count g = 5" "g' = g\<lparr>pg_failed_count := 0, pg_lockout_until := 0\<rparr>"
        using ok reset(2) unfolding unlocked_def guard_ok_def pair_consts by (simp_all split: if_split_asm)
      have "pg_lockout_until g \<le> now" using False reset(3) by blast
      then show ?thesis using reset(1) t u(1) by (auto simp: u(2) r guard_ok_def wrong_between_def wrong_left_def)
    qed
  next
    case paired
    then show ?thesis using ok t by (auto simp: r guard_ok_def wrong_between_def wrong_left_def)
  next
      case count
    have u: "pg_failed_count (unlocked g) < 5" "pg_lockout_until (unlocked g) = 0"
        "unlocked g = g \<or> pg_failed_count (unlocked g) = 0 \<and> pg_failed_count g = 5"
      using ok by (cases "pg_failed_count g = 5"; auto simp: guard_ok_def unlocked_def pair_consts)+
    have g': "pg_failed_count g' = pg_failed_count (unlocked g) + 1"
        "pg_lockout_until g' = (if pg_failed_count g' = 5 then now + 600 else 0)"
      using u by (auto simp: count count_failure_def Let_def pair_consts)
    have here: "wrong_between s [(now, r)] = (if res = HU_PAIR_INVALID_CODE \<and> s \<le> now \<and> now < s + 600 then 1 else 0)"
      by (simp add: r wrong_between_def pair_consts)
    from u(3) show ?thesis
    proof
      assume same: "unlocked g = g"
      then have "pg_failed_count g < 5" using u by simp
      then show ?thesis using g' t count(3) u unfolding same here guard_ok_def wrong_left_def by auto
    next
      assume locked: "pg_failed_count (unlocked g) = 0 \<and> pg_failed_count g = 5"
      then have "unlocked g \<noteq> g" by auto
      then have "pg_lockout_until g \<le> now" using count(2) by blast
      then show ?thesis using locked g' t count(3) u unfolding here guard_ok_def wrong_left_def by auto
    qed
  qed
qed

lemma attempts_wrong_left:
  assumes "guard_ok g" and "0 \<le> t" and "sorted (t # map (\<lambda>(_, _, now). now) as)"
  shows "wrong_between s (snd (attempts sha g as)) \<le> wrong_left s t g"
  using assms
proof (induction "as" arbitrary: g t)
  case (Cons a as)
  obtain code rnd now where a: "a = (code, rnd, now)" by (cases a)
  obtain g1 r where g1: "hu_pairing_guard_attempt_pair sha g code rnd now = (g1, r)" by (rule prod.exhaust)
  have step: "guard_ok g1 \<and> wrong_between s [(now, r)] + wrong_left s now g1 \<le> wrong_left s t g"
    using attempt_step [OF g1 Cons.prems(1,2)] Cons.prems(3) a by simp
  have "wrong_between s (snd (attempts sha g1 as)) \<le> wrong_left s now g1"
    using Cons.IH [of g1 now] step Cons.prems a by auto
  moreover have "wrong_between s (snd (attempts sha g (a # as))) =
      wrong_between s [(now, r)] + wrong_between s (snd (attempts sha g1 as))"
    by (simp add: a attempts_Cons [OF g1] wrong_between_def del: attempts.simps)
  ultimately show ?case using step by linarith
qed (simp add: wrong_between_def)

lemma create_ok: "hu_pairing_guard_create sha req ts rnd = Some g \<Longrightarrow> guard_ok g"
  by (auto simp: hu_pairing_guard_create_def Let_def guard_ok_def split: if_splits)


lemma create_with_code:
  "\<exists>g. hu_pairing_guard_create sha True [] (Some [b0, b1, b2, b3]) = Some g \<and> length (pg_pairing_code g) \<ge> 8"
  by (simp add: hu_pairing_guard_create_def generate_code_def pad8_def List.map_filter_def)


section \<open>Tokens\<close>

definition handed_out :: "(int \<times> hu_pair_attempt_result \<times> string option) list \<Rightarrow> string list" where
  "handed_out rs = concat (map (\<lambda>(_, _, tok). case tok of None \<Rightarrow> [] | Some t \<Rightarrow> [t]) rs)"

lemma attempt_hashes:
  assumes "hu_pairing_guard_attempt_pair sha g code rnd now = (g', r, tok)"
  shows "pg_require_pairing g' = pg_require_pairing g \<and>
    pg_paired_token_hashes g' = pg_paired_token_hashes g @ (case tok of None \<Rightarrow> [] | Some t \<Rightarrow> [hash_token_sha256 sha t])"
  using assms
  by (auto simp: hu_pairing_guard_attempt_pair_def Let_def count_failure_def split: if_splits option.splits)

lemma attempts_hashes:
  "pg_require_pairing (fst (attempts sha g as)) = pg_require_pairing g \<and>
   pg_paired_token_hashes (fst (attempts sha g as)) =
     pg_paired_token_hashes g @ map (hash_token_sha256 sha) (handed_out (snd (attempts sha g as)))"
proof (induction "as" arbitrary: g)
  case (Cons a as)
  obtain code rnd now where a: "a = (code, rnd, now)" by (cases a)
  obtain g1 r tok where g1: "hu_pairing_guard_attempt_pair sha g code rnd now = (g1, r, tok)" by (metis prod_cases3)
  from attempt_hashes [OF g1] Cons.IH [of g1] show ?case
    by (simp add: a attempts_Cons [OF g1] handed_out_def del: attempts.simps split: option.splits)
qed (simp add: handed_out_def)

lemma attempt_code:
  assumes "hu_pairing_guard_attempt_pair sha g code rnd now = (g', r, tok)"
  shows "(case tok of None \<Rightarrow> 0 | Some t \<Rightarrow> 1) + (if pg_pairing_code g' = [] then 0 else 1 :: nat) \<le> (if pg_pairing_code g = [] then 0 else 1)"
  using assms
  by (auto simp: hu_pairing_guard_attempt_pair_def Let_def count_failure_def split: if_splits option.splits)

lemma handed_out_Cons: "handed_out ((t, r, tok) # rs) = (case tok of None \<Rightarrow> [] | Some t \<Rightarrow> [t]) @ handed_out rs"
  by (simp add: handed_out_def)

lemma attempts_once:
  "length (handed_out (snd (attempts sha g as))) \<le> (if pg_pairing_code g = [] then 0 else 1)"
proof (induction "as" arbitrary: g)
  case (Cons a as)
  obtain code rnd now where a: "a = (code, rnd, now)" by (cases a)
  obtain g1 r tok where g1: "hu_pairing_guard_attempt_pair sha g code rnd now = (g1, r, tok)" by (metis prod_cases3)
  have "length (handed_out (snd (attempts sha g (a # as)))) =
      (case tok of None \<Rightarrow> 0 | Some t \<Rightarrow> 1) + length (handed_out (snd (attempts sha g1 as)))"
    by (simp add: a attempts_Cons [OF g1] handed_out_Cons del: attempts.simps split: option.splits)
  also have "\<dots> \<le> (case tok of None \<Rightarrow> 0 | Some t \<Rightarrow> 1) + (if pg_pairing_code g1 = [] then 0 else 1)"
    using Cons.IH [of g1] by (rule add_left_mono)
  also have "\<dots> \<le> (if pg_pairing_code g = [] then 0 else 1)" by (rule attempt_code [OF g1])
  finally show ?case .
qed (simp add: handed_out_def)

text \<open>
  After any run of attempts a token is let in exactly if its hash is one the guard holds at first or it hashes like a token
  that one of the attempts has handed out, and all the attempts together hand out one token at most.  Where no pairing is
  required every token is let in, and even none.
\<close>

theorem pairing_tokens_exact:
  "(hu_pairing_guard_is_authenticated sha (fst (attempts sha g as)) tok \<longleftrightarrow>
      (if pg_require_pairing g
       then \<exists>t. tok = Some t \<and> (hash_token_sha256 sha t \<in> set (pg_paired_token_hashes g) \<or>
              hash_token_sha256 sha t \<in> hash_token_sha256 sha ` set (handed_out (snd (attempts sha g as))))
       else True)) \<and>
   length (handed_out (snd (attempts sha g as))) \<le> 1"
proof -
  have "length (handed_out (snd (attempts sha g as))) \<le> 1" using attempts_once [of sha g "as"] by (simp split: if_splits)
  then show ?thesis
    by (auto simp: hu_pairing_guard_is_authenticated_def attempts_hashes list_ex_iff constant_time_eq_iff split: option.splits)
qed

section \<open>Stored hashes in capitals\<close>

lemma low_hex_not_upper: "n < 16 \<Longrightarrow> \<not> is_upper (low_hex n)"
proof -
  assume "n < 16"
  then have "n \<in> set [0 ..< 16]" by simp
  moreover have "\<forall>n \<in> set [0 ..< 16]. \<not> is_upper (low_hex n)" by code_simp
  ultimately show ?thesis by blast
qed

lemma unat_lt_256: "unat b < 256" for b :: "8 word"
  using unsigned_less [of b] by simp

lemma hash_no_upper: "c \<in> set (hash_token_sha256 sha t) \<Longrightarrow> \<not> is_upper c"
proof -
  have "unat b div 16 < 16" for b :: "8 word" using unat_lt_256 by (simp add: less_mult_imp_div_less)
  then show "c \<in> set (hash_token_sha256 sha t) \<Longrightarrow> \<not> is_upper c"
    by (auto simp: hash_token_sha256_def hex_bytes_def low_hex_not_upper)
qed

text \<open>A stored hash written with a capital is taken for a hash, and no token is ever let in by it.\<close>

lemma capital_hash_is_dead:
  assumes "is_token_hash h" and "list_ex is_upper h" and "hu_pairing_guard_create sha True [Some h] rnd = Some g"
  shows "pg_pairing_code g = [] \<and> hu_pairing_guard_is_paired g \<and> \<not> hu_pairing_guard_is_authenticated sha g (Some t)"
proof -
  have "hash_token_sha256 sha t \<noteq> h" using assms(2) hash_no_upper by (auto simp: list_ex_iff)
  then show ?thesis using assms(1,3)
    by (auto simp: hu_pairing_guard_create_def Let_def List.map_filter_def hu_pairing_guard_is_paired_def
        hu_pairing_guard_is_authenticated_def constant_time_eq_iff)
qed

end
