(* ===== verification/Spec2Isabelle.thy ===== *)
theory Spec2Isabelle
  imports HuPrelude HuBuf HuNum HuJson HuPolicy HuDag HuIdem HuHula HuHulaExec HuHulaSteps HuHulaSafe HuHulaTrace HuHulaBridge HuHulaCost
    HuHulaLite HuHulaLiteRead HuDelegation
    HuMemLru HuMemLruHeap HuMemLruInv HuMemLruSpec HuContract HuMemory HuMailbox HuMailboxSpec HuWebSocket HuWebSocketRead
    HuDispatch HuDispatchSpec HuPermission HuHooks HuEscalate HuEscalateSpec HuInspect HuToolGate HuToolGateSpec HuToolCache HuToolCacheSpec
    HuHarmony HuPairing
begin

text \<open>
  A verification library for h-uman, an agent runtime in C.  It models the deterministic core of the program: how
  a plan of tool calls comes in, is checked, run within its limits and reported, and the parts this rests on.

  \<^bold>\<open>The program.\<close>  A language model, a planner or a user hands over a plan.  It arrives as JSON, as HuLa-lite text, as a
  list of steps or as a DAG, and becomes a HuLa program, a tree of nodes in an array.  The executor walks the
  tree; a call of a tool passes the security policy, budgets, an idempotency registry and the capability list before
  it runs, and everything that happens is added to a trace.  The calls that a model asks for in a turn go another way:
  through the gate of the agent (tiers, hooks, escalation table, rules, roles, inspection of the arguments) and then
  through the dispatcher with its retries and caches.  Agents pass authority to each other as delegation tokens, send
  each other messages through mailboxes, keep what they learn in a memory store, and talk to services over WebSockets.
  Clients are paired with a code before they may use the gateway.

  \<^bold>\<open>Theories and code\<close> (paths under \<^verbatim>\<open>src/\<close>, definitions named as in the code where Isabelle allows it):
  \<^item> HuPrelude: error codes, \<open>outcome\<close> (what a call can come to), C strings; HuBuf: the growable byte buffers of
    \<^verbatim>\<open>core/json.c\<close>, with the locale both kinds of buffer interpret.
  \<^item> HuNum, HuJson: \<^verbatim>\<open>core/json.c\<close>.  Doubles, \<^verbatim>\<open>strtod\<close> and \<^verbatim>\<open>printf\<close>; values, parser, writer, object operations.
  \<^item> HuPolicy: \<^verbatim>\<open>security/policy.c\<close>.  Risk of a command, allow lists and chaining, rate tracker, capabilities.
  \<^item> HuDag: \<^verbatim>\<open>agent/dag.c\<close> and \<^verbatim>\<open>agent/dag_executor.c\<close>.  Building, parsing, validating, batches, references.
  \<^item> HuIdem: \<^verbatim>\<open>agent/idempotency.c\<close>.  The registry that replays results.
  \<^item> HuHula: \<^verbatim>\<open>agent/hula.c\<close>, the node array with its growth, parser, serialiser, validator.  HuHulaExec: the opcodes
    and the run.  HuHulaBridge: programs from plans and DAGs.  HuHulaCost: the estimate before a run.
  \<^item> HuHulaSteps, HuHulaSafe, HuHulaTrace: what a run can do, as a transition system; when it has no undefined
    behaviour; what its trace says.
  \<^item> HuHulaLite, HuHulaLiteRead: \<^verbatim>\<open>agent/hula_lite.c\<close>.  The indented notation, and reading it back.
  \<^item> HuDelegation: \<^verbatim>\<open>security/delegation.c\<close>.  Tokens, caveats, globs, revocation, chains.
  \<^item> HuMemLru, HuMemLruHeap, HuMemLruInv, HuMemLruSpec, HuMemory: \<^verbatim>\<open>memory/engines/memory_lru.c\<close>.  The code over an
    explicit heap, its pointer structures as lists, the invariant, the store as a list, and that it keeps its contract.
  \<^item> HuContract: components behind an interface.  The locales \<open>call_contract\<close> (runs of calls simulate a specification)
    and \<open>lasting_contract\<close> (without a bound on their number), which the memory store, the mailboxes and the cache of
    results across turns interpret.
  \<^item> HuMailbox, HuMailboxSpec: \<^verbatim>\<open>agent/mailbox.c\<close>.  Inboxes as rings, priorities and lifetimes; agents' queues.
  \<^item> HuWebSocket, HuWebSocketRead: \<^verbatim>\<open>websocket/websocket.c\<close>.  Building, masking and parsing frames, sending, receiving,
    closing; what is received of a stream of frames.
  \<^item> HuPermission: \<^verbatim>\<open>security/permission.c\<close> and \<^verbatim>\<open>agent/team.c\<close>.  Tiers of tools, temporary escalation, roles.
  \<^item> HuHooks: \<^verbatim>\<open>security/hook.c\<close> and \<^verbatim>\<open>security/hook_pipeline.c\<close>.  Quoting, the command line of a hook, decisions.
  \<^item> HuEscalate, HuEscalateSpec: \<^verbatim>\<open>security/escalate.c\<close>.  Reading the escalation table and matching names.
  \<^item> HuInspect: \<^verbatim>\<open>security/arg_inspector.c\<close> and \<^verbatim>\<open>security/policy_engine.c\<close>.  Scanning arguments; rules over calls.
  \<^item> HuToolGate, HuToolGateSpec: the gate in \<^verbatim>\<open>agent/agent.c\<close> and the part of \<^verbatim>\<open>agent/turn/turn_tools.c\<close> that checks and
    dispatches the calls of a message.
  \<^item> HuDispatch, HuDispatchSpec: \<^verbatim>\<open>agent/dispatcher.c\<close>.  Running tools, retries, the cache of a turn.
  \<^item> HuToolCache, HuToolCacheSpec: \<^verbatim>\<open>tools/cache_ttl.c\<close>.  The cache of results with lifetimes.
  \<^item> HuHarmony: \<^verbatim>\<open>util/harmony_filter.c\<close> and \<^verbatim>\<open>providers/mlx_stream_utf8.c\<close>.  Channel markers taken out of a stream.
  \<^item> HuPairing: \<^verbatim>\<open>security/pairing.c\<close>.  Pairing codes, their lock, tokens.

  \<^bold>\<open>State.\<close>  A struct is a record, an enum or tagged union a datatype, a hash table the list of its buckets.  Functions
  that change a struct return it; a result of type \<open>outcome\<close> is \<open>Ret\<close> for HU_OK, \<open>Err\<close> with the error code, \<open>Undef\<close>
  for undefined behaviour (use after free, reading or writing out of bounds, NULL, a conversion of a double that does
  not fit the integer), \<open>NoFuel\<close> when the recursion budget
  of the model ran out.  A pointer into the node array of a program carries the generation of the array, so a
  pointer kept across its growth is seen to be stale.  The LRU store has a heap from addresses to entries.

  \<^bold>\<open>What the lemmas show.\<close>
  \<^item> JSON: any text parses to a well-formed value or one of two errors, and written values are read back if their
    numbers are in the range of a \<^verbatim>\<open>long long\<close>, beyond which writing is undefined.
  \<^item> Policy: a chained command is allowed only if its parts are (a part that begins with \<^verbatim>\<open>tee\<close> excepted), no program
    name the risk check sees in a validated command is of high risk, the rate tracker keeps to its window.
  \<^item> DAGs: validation is exact, a batch is the first eight ready nodes, and a valid DAG always has a next batch.
  \<^item> Idempotency: up to 4096 recordings are replayed exactly, for tool names that fit the key.
  \<^item> HuLa: a run refines a transition system from which permission (capability, lock, risk, rate limit), budget and
    table bounds follow; a parsed plan is run to an end without undefined behaviour, if calls are named, no EMIT
    refers to itself and the host's texts are as long as it says; a plan of up to 16 nodes is parsed without touching freed memory, and what goes wrong above that.
    Bridges keep the dependencies, the estimate bounds the calls, the trace reads back.
  \<^item> HuLa-lite: a text is translated exactly if it follows the grammar; a printed plan comes back as its program.
  \<^item> Delegation: verification accepts exactly what token, ancestors and caveats allow; attenuation only narrows;
    revocation reaches all descendants and nothing else; globs mean what they should.
  \<^item> LRU memory: a run of any calls answers like a list in the order of last use, closing leaves nothing allocated, an
    entry stays while fewer keys than the limit are used; keys without NUL, custom categories with names.
  \<^item> Mailboxes: a run of any calls answers like queues of 255 messages; the best message that has not expired is handed
    out; messages of one priority without a lifetime stay in order.
  \<^item> WebSockets: what is built is parsed, a message comes out of its frames whole, any stream of bytes is survived.
  \<^item> Gate: what it lets through meets every check, a tool without a tier is denied; a hook's command line is read by
    a shell as it was meant; a table of rules is read as written; the scan sees each string of arguments as written.
  \<^item> Dispatcher and caches: retries are bounded, the cache of a turn does not show in what calls put out if tools are
    functions of their arguments, the cache across turns is never stale and forgets nothing up to 64 keys.
  \<^item> Markers: what comes out of the filter does not depend on how the text was cut.  Pairing: five wrong codes in ten
    minutes at most; tokens are accepted exactly if they were handed out or stored.
  Where the code falls short of what it means to do, a lemma says so at a concrete input.

  \<^bold>\<open>Bounds.\<close>  Budgets stand for recursion depth or loop count and are shown to be enough: twice the length of the text
  and one for the JSON parser, whose depth is limited to 64; the number of nodes and one for HuLa runs and the
  estimate; twice the number of lines for HuLa-lite; one more than the tokens for delegation; one more than the
  addresses given out for the chains of the LRU store, one more than its entries for its eviction; the bytes of the
  stream and one for receiving, each round of which takes a byte; 257 steps for the rings of the mailboxes, which have
  256 places.  Where levels are
  limited (64 for JSON, 16 for HuLa validation) the argument counts the levels left.

  \<^bold>\<open>What is left out.\<close>  The target is a 64-bit Unix without the test configuration.  Allocation succeeds, so
  the out-of-memory branches and the guards on table sizes that protect them are not modelled, nor are sizes passed
  to free.  Handles are not NULL.  Time is an argument or a function of the host's state, and so are tools, agent
  pool, observer, the shell behind hooks, the worker threads of the dispatcher and SHA-256; random bytes are arguments.
  The payload of a mailbox message is a text kept by value, so who frees it is not covered.  A PAR node runs its children in order, as the code does.  Overflow guards of byte
  buffers are modelled, and numbers wrap where the code lets them; two SIZE_MAX guards of the delegate text are not.
  A custom category whose name was freed is reported as undefined at once and not at its next use.

  \<^bold>\<open>Not modelled.\<close>  Providers, channels, the daemon, command line and gateway (with its rate limiter and the server side
  of its WebSockets) are I/O, as is setting up a WebSocket connection; the SQL memory engines live in SQLite; persona
  and conversation code is text heuristics; the on-device training is floating-point kernels.  The bus between agents,
  the path check of the file tools, the threads of the dispatcher and the LLM compiler have no model either.
\<close>

end
